(* ===== verification/Prelude.thy ===== *)
theory Prelude
  imports Main "HOL-Library.Word" "HOL-Library.Sublist" "HOL-Library.List_Lexorder"
begin

text \<open>
  The shared vocabulary of the development: bytes and byte strings, Rust's \<open>Result\<close> as a sum,
  Rust's \<open>Ordering\<close>, big-endian integers, the byte-wise order of byte strings and the separation
  relation \<open>lex_lt\<close> on which every order and prefix-freeness argument rests, and the validity
  check of \<open>String::from_utf8\<close>. Signed machine integers of the source (\<open>i32\<close>, \<open>i64\<close>, \<open>i128\<close>)
  held in a value are words read with \<open>sint\<close>.
\<close>

unbundle bit_operations_syntax

type_synonym byte = "8 word"
type_synonym bytes = "8 word list"
type_synonym u16 = "16 word"
type_synonym u32 = "32 word"
type_synonym u64 = "64 word"
type_synonym u128 = "128 word"
type_synonym i32 = "32 word"
type_synonym i64 = "64 word"
type_synonym i128 = "128 word"

named_theorems codec_simps "rewrite rules that evaluate encoders and decoders on their own output"
named_theorems layout_simps "definitions of the physical key layout"

section \<open>Results and orderings\<close>

text \<open>Rust's \<open>Result<T, E>\<close> is \<open>'e + 'a\<close>, with \<open>Inl\<close> the error; \<open>rbind\<close> is the \<open>?\<close> operator.\<close>

fun rbind :: "'e + 'a \<Rightarrow> ('a \<Rightarrow> 'e + 'b) \<Rightarrow> 'e + 'b" where
  "rbind (Inl e) f = Inl e"
| "rbind (Inr a) f = f a"

fun map_err :: "('e \<Rightarrow> 'f) \<Rightarrow> 'e + 'a \<Rightarrow> 'f + 'a" where
  "map_err f (Inl e) = Inl (f e)"
| "map_err f (Inr a) = Inr a"

fun ok_or :: "'a option \<Rightarrow> 'e \<Rightarrow> 'e + 'a" where
  "ok_or None e = Inl e"
| "ok_or (Some a) e = Inr a"

lemma rbind_Inr_iff [simp]: "rbind r f = Inr b \<longleftrightarrow> (\<exists>a. r = Inr a \<and> f a = Inr b)"
  by (cases r) auto

lemma map_err_Inr_iff [simp]: "map_err f r = Inr b \<longleftrightarrow> r = Inr b"
  by (cases r) auto

lemma ok_or_Inr_iff [simp]: "ok_or v e = Inr b \<longleftrightarrow> v = Some b"
  by (cases v) auto

text \<open>Applying a fallible step to every element, stopping at the first error.\<close>

fun traverse :: "('a \<Rightarrow> 'e + 'b) \<Rightarrow> 'a list \<Rightarrow> 'e + 'b list" where
  "traverse f [] = Inr []"
| "traverse f (x # xs) = rbind (f x) (\<lambda>y. rbind (traverse f xs) (\<lambda>ys. Inr (y # ys)))"

lemma traverse_Inr_length: "traverse f xs = Inr ys \<Longrightarrow> length ys = length xs"
  by (induction xs arbitrary: ys) auto

text \<open>
  A function that may also panic (an \<open>unreachable!\<close>, an \<open>expect\<close> or an index out of range)
  returns \<open>'e halt + 'a\<close>, so that a panic is a value of its own and its absence is a theorem.
\<close>

datatype 'e halt = Panic | Raise 'e

definition nth_or_panic :: "'a list \<Rightarrow> nat \<Rightarrow> 'e halt + 'a" where
  "nth_or_panic xs i = (if i < length xs then Inr (xs ! i) else Inl Panic)"

lemma nth_or_panic_in [simp]: "i < length xs \<Longrightarrow> nth_or_panic xs i = Inr (xs ! i)"
  by (simp add: nth_or_panic_def)

lemma nth_or_panic_Inr [simp]: "nth_or_panic xs i = Inr x \<longleftrightarrow> i < length xs \<and> x = xs ! i"
  by (auto simp: nth_or_panic_def)

datatype ordering = Less | Equal | Greater

definition cmp :: "'a::linorder \<Rightarrow> 'a \<Rightarrow> ordering" where
  "cmp a b = (if a < b then Less else if a = b then Equal else Greater)"

lemma cmp_Less [simp]: "cmp a b = Less \<longleftrightarrow> a < b"
  and cmp_Equal [simp]: "cmp a b = Equal \<longleftrightarrow> a = b"
  and cmp_Greater [simp]: "cmp a b = Greater \<longleftrightarrow> b < a"
  by (auto simp: cmp_def)

section \<open>Separation of byte strings\<close>

text \<open>
  \<open>lex_lt u v\<close>: at the first position where the two strings differ both still have a byte, and
  that of \<open>u\<close> is smaller. Unlike \<open><\<close> it is preserved by appending anything to either side.
\<close>

fun lex_lt :: "'a::linorder list \<Rightarrow> 'a list \<Rightarrow> bool" where
  "lex_lt (a # u) (b # v) = (a < b \<or> a = b \<and> lex_lt u v)"
| "lex_lt _ _ = False"

lemma Nil_less_iff [simp]: "[] < (u::'a::linorder list) \<longleftrightarrow> u \<noteq> []"
  by (cases u) auto

lemma lex_lt_Nil [simp]: "\<not> lex_lt [] v" "\<not> lex_lt u []"
  by (cases v; simp) (cases u; simp)

lemma lex_lt_append: "lex_lt u v \<Longrightarrow> lex_lt (u @ x) (v @ y)"
  by (induction u v rule: lex_lt.induct) auto

lemma lex_lt_common [simp]: "lex_lt (p @ u) (p @ v) \<longleftrightarrow> lex_lt u v"
  by (induction p) auto

lemma lex_lt_less: "lex_lt u v \<Longrightarrow> u < v"
  by (induction u v rule: lex_lt.induct) auto

lemma lex_lt_append_less: "lex_lt u v \<Longrightarrow> u @ x < v @ y"
  by (blast intro: lex_lt_less lex_lt_append)

lemma lex_lt_irrefl [simp]: "\<not> lex_lt u u"
  using lex_lt_less by blast

lemma lex_lt_self_append [simp]: "\<not> lex_lt u (u @ z)" "\<not> lex_lt (u @ z) u"
  by (induction u) auto

lemma lex_lt_not_prefix:
  "lex_lt u v \<Longrightarrow> \<not> prefix u v" "lex_lt u v \<Longrightarrow> \<not> prefix v u"
  by (auto simp: prefix_def)

lemma less_same_length_lex_lt: "length u = length v \<Longrightarrow> u < v \<Longrightarrow> lex_lt u v"
  by (induction u v rule: list_induct2) auto

lemma less_lex_lt_or_prefix: "u < v \<Longrightarrow> lex_lt u v \<or> strict_prefix u v"
  by (induction u v rule: lex_lt.induct) (auto simp: strict_prefix_def)

lemma prefix_less_eq: "prefix p (u::'a::linorder list) \<Longrightarrow> p \<le> u"
  by (induction p u rule: list_induct2') (auto simp: le_less)

lemma append_less_cancel [simp]: "(p @ u < p @ v) \<longleftrightarrow> (u::'a::linorder list) < v"
  by (induction p) auto

lemma less_append_self: "v \<noteq> [] \<Longrightarrow> u < u @ (v::'a::linorder list)"
  by (induction u) (auto simp: neq_Nil_conv)

text \<open>
  Above a string that carries the prefix \<open>p\<close>, every string without that prefix lies above all
  strings with it: the strings under a prefix are contiguous in the order.
\<close>

lemma prefix_contiguous:
  fixes p :: "'a::linorder list"
  assumes "prefix p c" "c < k" "\<not> prefix p k" "prefix p x"
  shows "lex_lt x k"
  using assms
proof (induction p arbitrary: c k x)
  case Nil
  then show ?case by simp
next
  case (Cons a p)
  from Cons.prems(1,4) obtain c' x' where "c = a # c'" "prefix p c'" "x = a # x'" "prefix p x'"
    by (auto simp: prefix_def)
  with Cons.prems(2,3) Cons.IH [of c' _ x'] show ?case
    by (cases k) auto
qed

section \<open>Big-endian integers\<close>

fun to_be :: "nat \<Rightarrow> nat \<Rightarrow> bytes" where
  "to_be 0 k = []"
| "to_be (Suc n) k = to_be n (k div 256) @ [word_of_nat k]"

definition from_be :: "bytes \<Rightarrow> nat" where
  "from_be bs = foldl (\<lambda>a b. a * 256 + unat b) 0 bs"

lemma length_to_be [simp]: "length (to_be n k) = n"
  by (induction n arbitrary: k) auto

lemma from_be_simps [simp]: "from_be [] = 0" "from_be (bs @ [b]) = from_be bs * 256 + unat b"
  by (simp_all add: from_be_def)

lemma unat_byte_less [simp]: "unat (b::byte) < 256"
  using unsigned_less [of b] by simp

lemma from_be_to_be [simp]: "k < 256 ^ n \<Longrightarrow> from_be (to_be n k) = k"
proof (induction n arbitrary: k)
  case (Suc n)
  then have "k div 256 < 256 ^ n" by (simp add: less_mult_imp_div_less mult.commute)
  with Suc.IH show ?case by (simp add: unat_of_nat take_bit_eq_mod)
qed simp

lemma to_be_from_be: "length bs = n \<Longrightarrow> to_be n (from_be bs) = bs"
proof (induction n arbitrary: bs)
  case (Suc n)
  then obtain cs c where bs: "bs = cs @ [c]" "length cs = n"
    by (cases bs rule: rev_cases) auto
  have "(from_be cs * 256 + unat c) div 256 = from_be cs"
    by (simp add: div_add1_eq)
  moreover have "word_of_nat (from_be cs * 256 + unat c) = c"
    by (simp only: word_unat_eq_iff unat_of_nat take_bit_eq_mod) simp
  ultimately show ?case using bs Suc.IH [of cs] by simp
qed simp

lemma from_be_less: "from_be bs < 256 ^ length bs"
proof (induction bs rule: rev_induct)
  case (snoc b bs)
  then have "from_be bs + 1 \<le> 256 ^ length bs" by simp
  then have "(from_be bs + 1) * 256 \<le> 256 ^ length bs * 256" by (rule mult_le_mono1)
  moreover have "unat b < 256" by simp
  ultimately have "from_be bs * 256 + unat b < 256 ^ length bs * 256"
    by (simp only: distrib_right)
  then show ?case by (simp add: mult.commute)
qed simp

lemma to_be_mono: "a < b \<Longrightarrow> b < 256 ^ n \<Longrightarrow> lex_lt (to_be n a) (to_be n b)"
proof (induction n arbitrary: a b)
  case (Suc n)
  show ?case
  proof (cases "a div 256 < b div 256")
    case True
    from Suc.prems have "b div 256 < 256 ^ n" by (simp add: less_mult_imp_div_less mult.commute)
    with True Suc.IH show ?thesis by (simp add: lex_lt_append)
  next
    case False
    then have eq: "a div 256 = b div 256"
      using Suc.prems(1) by (meson div_le_mono le_antisym less_imp_le not_le)
    then have "a mod 256 < b mod 256"
      using Suc.prems(1) by (metis div_mult_mod_eq nat_add_left_cancel_less)
    then have "(word_of_nat a :: byte) < word_of_nat b"
      by (simp add: word_less_nat_alt unat_of_nat take_bit_eq_mod)
    with eq show ?thesis by simp
  qed
qed simp

definition be_bytes :: "'a::len word \<Rightarrow> bytes" where
  "be_bytes w = to_be (LENGTH('a) div 8) (unat w)"

definition of_be_bytes :: "bytes \<Rightarrow> 'a::len word" where
  "of_be_bytes bs = word_of_nat (from_be bs)"

lemma length_be_bytes [simp]: "length (be_bytes (w::'a::len word)) = LENGTH('a) div 8"
  by (simp add: be_bytes_def)

lemma unat_less_256_power: "8 dvd LENGTH('a) \<Longrightarrow> unat (w::'a::len word) < 256 ^ (LENGTH('a) div 8)"
proof -
  assume "8 dvd LENGTH('a)"
  then obtain k where k: "LENGTH('a) = 8 * k" by (auto elim: dvdE)
  have "unat w < 2 ^ LENGTH('a)" by (rule unsigned_less)
  also have "\<dots> = 256 ^ k" by (simp only: k power_mult) simp
  finally show ?thesis by (simp add: k)
qed

lemma of_be_be_bytes: "8 dvd LENGTH('a) \<Longrightarrow> of_be_bytes (be_bytes (w::'a::len word)) = w"
  by (simp add: of_be_bytes_def be_bytes_def unat_less_256_power)

lemma be_bytes_of_be:
  assumes "8 dvd LENGTH('a)" "length bs = LENGTH('a) div 8"
  shows "be_bytes (of_be_bytes bs :: 'a::len word) = bs"
proof -
  have "from_be bs < 2 ^ LENGTH('a)"
    using from_be_less [of bs] assms by (auto simp: power_mult elim!: dvdE)
  then have "unat (word_of_nat (from_be bs) :: 'a word) = from_be bs"
    by (simp add: unat_of_nat take_bit_nat_eq_self)
  with assms show ?thesis by (simp add: of_be_bytes_def be_bytes_def to_be_from_be)
qed

lemma be_bytes_mono:
  "8 dvd LENGTH('a) \<Longrightarrow> (v::'a::len word) < w \<Longrightarrow> lex_lt (be_bytes v) (be_bytes w)"
  by (simp add: be_bytes_def to_be_mono unat_less_256_power word_less_nat_alt)

text \<open>
  Flipping the sign bit turns the signed order into the unsigned one: the order-preserving
  integer encodings XOR the top bit before they write the big-endian bytes.
\<close>

definition flip_sign :: "'a::len word \<Rightarrow> 'a word" where
  "flip_sign w = w XOR push_bit (LENGTH('a) - 1) 1"

lemma flip_sign_flip [simp]: "flip_sign (flip_sign w) = w"
  by (simp add: flip_sign_def xor.assoc)

lemma flip_sign_add: "flip_sign w = w + 2 ^ (LENGTH('a) - 1)" for w :: "'a::len word"
proof -
  let ?n = "LENGTH('a) - 1"
  have "(2::'a word) ^ ?n + 2 ^ ?n = 2 ^ LENGTH('a)"
    by (simp flip: power_Suc mult_2)
  then have "(2::'a word) ^ ?n + 2 ^ ?n = 0" by simp
  then have minus: "w - 2 ^ ?n = w + 2 ^ ?n" by (simp add: algebra_simps)
  have "flip_sign w = flip_bit ?n w"
    unfolding flip_sign_def flip_bit_eq_xor ..
  also have "\<dots> = w + 2 ^ ?n"
    using minus by (simp add: flip_bit_eq_if set_bit_eq unset_bit_eq)
  finally show ?thesis .
qed

lemma uint_flip_sign: "uint (flip_sign w) = sint w + 2 ^ (LENGTH('a) - 1)"
  for w :: "'a::len word"
proof -
  have "flip_sign w = word_of_int (uint w + 2 ^ (LENGTH('a) - 1))"
    by (simp add: flip_sign_add)
  then have "uint (flip_sign w) = take_bit LENGTH('a) (uint w + 2 ^ (LENGTH('a) - 1))"
    by (simp only: uint_word_of_int_eq)
  then show ?thesis
    by (simp add: sint_uint signed_take_bit_eq_take_bit_shift)
qed

lemma flip_sign_less_iff: "flip_sign v < flip_sign w \<longleftrightarrow> sint v < sint w"
  by (simp add: word_less_alt uint_flip_sign)

lemma sint_inject [simp]: "sint v = sint w \<longleftrightarrow> v = w"
  by (auto intro: signed_word_eqI)

section \<open>Text\<close>

text \<open>The bytes of an ASCII literal of the source.\<close>

definition text_bytes :: "string \<Rightarrow> bytes" where
  "text_bytes s = map of_char s"

lemma length_text_bytes [simp]: "length (text_bytes s) = length s"
  by (simp add: text_bytes_def)

lemma of_char_byte_inject: "(of_char c :: byte) = of_char d \<longleftrightarrow> c = d"
proof
  have "unat (of_char c :: byte) = of_char c" for c
    by (simp add: of_char_def unat_of_nat take_bit_eq_mod flip: of_nat_of_char)
  then show "(of_char c :: byte) = of_char d \<Longrightarrow> c = d" by (metis of_char_eq_iff)
qed simp

lemma text_bytes_inject [simp]: "text_bytes s = text_bytes t \<longleftrightarrow> s = t"
  using of_char_byte_inject by (auto simp: text_bytes_def inj_map_eq_map inj_def)

section \<open>State and errors\<close>

text \<open>The \<open>?\<close> operator where the state survives an error.\<close>

definition sbind :: "('s \<Rightarrow> ('e + 'a) \<times> 's) \<Rightarrow> ('a \<Rightarrow> 's \<Rightarrow> ('e + 'b) \<times> 's) \<Rightarrow> 's \<Rightarrow> ('e + 'b) \<times> 's" where
  "sbind m f s = (case m s of (Inl e, s') \<Rightarrow> (Inl e, s') | (Inr a, s') \<Rightarrow> f a s')"

lemma sbind_Inr: "sbind m f s = (Inr b, s'') \<longleftrightarrow> (\<exists>a s'. m s = (Inr a, s') \<and> f a s' = (Inr b, s''))"
  by (auto simp: sbind_def split: prod.splits sum.splits)

section \<open>UTF-8\<close>

text \<open>
  \<open>String::from_utf8\<close> accepts exactly the well-formed UTF-8 byte sequences: shortest forms, no
  surrogate, at most \<open>U+10FFFF\<close>. A Rust \<open>String\<close> is modelled by its bytes, which satisfy
  this check, and orders as its bytes do.
\<close>

definition utf8_cont :: "byte \<Rightarrow> bool" where
  "utf8_cont b \<longleftrightarrow> 0x80 \<le> b \<and> b \<le> 0xBF"

fun utf8_valid :: "bytes \<Rightarrow> bool" where
  "utf8_valid [] = True"
| "utf8_valid (a # r) =
     (if a < 0x80 then utf8_valid r
      else case r of
        [] \<Rightarrow> False
      | b # r2 \<Rightarrow>
          if 0xC2 \<le> a \<and> a \<le> 0xDF then utf8_cont b \<and> utf8_valid r2
          else case r2 of
            [] \<Rightarrow> False
          | c # r3 \<Rightarrow>
              if a = 0xE0 then 0xA0 \<le> b \<and> b \<le> 0xBF \<and> utf8_cont c \<and> utf8_valid r3
              else if a = 0xED then 0x80 \<le> b \<and> b \<le> 0x9F \<and> utf8_cont c \<and> utf8_valid r3
              else if 0xE1 \<le> a \<and> a \<le> 0xEF then utf8_cont b \<and> utf8_cont c \<and> utf8_valid r3
              else case r3 of
                [] \<Rightarrow> False
              | d # r4 \<Rightarrow>
                  ((a = 0xF0 \<and> 0x90 \<le> b \<and> b \<le> 0xBF)
                   \<or> (0xF1 \<le> a \<and> a \<le> 0xF3 \<and> utf8_cont b)
                   \<or> (a = 0xF4 \<and> 0x80 \<le> b \<and> b \<le> 0x8F))
                  \<and> utf8_cont c \<and> utf8_cont d \<and> utf8_valid r4)"

definition from_utf8 :: "bytes \<Rightarrow> bytes option" where
  "from_utf8 bs = (if utf8_valid bs then Some bs else None)"

lemma utf8_valid_ascii: "\<forall>b \<in> set bs. b < 0x80 \<Longrightarrow> utf8_valid bs"
  by (induction bs) auto

end
