(* ===== verification/Decimal.thy ===== *)
theory Decimal
  imports Prelude
begin

text \<open>
  Decimal text as the Rust standard library writes and reads it: \<open>Display\<close> of integers, the
  zero-padded \<open>{:0w}\<close> form, \<open>str::parse\<close> of unsigned and signed integers, and \<open>trim_end_matches\<close>.
  Text is a list of bytes; every formatted text is ASCII.
\<close>

abbreviation ch_zero :: byte where "ch_zero \<equiv> 48"
abbreviation ch_minus :: byte where "ch_minus \<equiv> 45"
abbreviation ch_plus :: byte where "ch_plus \<equiv> 43"

definition is_digit :: "byte \<Rightarrow> bool" where
  "is_digit b \<longleftrightarrow> 48 \<le> b \<and> b \<le> 57"

definition digit_byte :: "nat \<Rightarrow> byte" where
  "digit_byte d = word_of_nat (48 + d)"

definition digit_val :: "byte \<Rightarrow> nat" where
  "digit_val b = unat b - 48"

fun dec :: "nat \<Rightarrow> bytes" where
  "dec n = (if n < 10 then [digit_byte n] else dec (n div 10) @ [digit_byte (n mod 10)])"

declare dec.simps [simp del]

definition dec_val :: "bytes \<Rightarrow> nat" where
  "dec_val bs = foldl (\<lambda>a b. a * 10 + digit_val b) 0 bs"

definition zpad :: "nat \<Rightarrow> nat \<Rightarrow> bytes" where
  "zpad w n = replicate (w - length (dec n)) ch_zero @ dec n"

definition parse_unsigned :: "nat \<Rightarrow> bytes \<Rightarrow> nat option" where
  "parse_unsigned mx bs =
     (let ds = (case bs of b # r \<Rightarrow> if b = ch_plus \<and> r \<noteq> [] then r else bs | [] \<Rightarrow> [])
      in if ds = [] \<or> \<not> list_all is_digit ds \<or> dec_val ds > mx then None else Some (dec_val ds))"

definition parse_signed :: "int \<Rightarrow> int \<Rightarrow> bytes \<Rightarrow> int option" where
  "parse_signed lo hi bs =
     (let (neg, ds) = (case bs of
            b # r \<Rightarrow> if b = ch_minus then (True, r) else if b = ch_plus then (False, r) else (False, bs)
          | [] \<Rightarrow> (False, []));
          v = (if neg then - int (dec_val ds) else int (dec_val ds))
      in if ds = [] \<or> \<not> list_all is_digit ds \<or> v < lo \<or> hi < v then None else Some v)"

definition dec_int :: "int \<Rightarrow> bytes" where
  "dec_int i = (if i < 0 then ch_minus # dec (nat (- i)) else dec (nat i))"

definition trim_end_zeros :: "bytes \<Rightarrow> bytes" where
  "trim_end_zeros bs = rev (dropWhile (\<lambda>b. b = ch_zero) (rev bs))"

section \<open>Digits\<close>

lemma unat_digit_byte: "d < 10 \<Longrightarrow> unat (digit_byte d) = 48 + d"
  by (simp add: digit_byte_def unat_of_nat take_bit_nat_eq_self flip: of_nat_add)

lemma is_digit_iff: "is_digit b \<longleftrightarrow> 48 \<le> unat b \<and> unat b \<le> 57"
  by (simp add: is_digit_def word_le_nat_alt)

lemma digit_byte_digit [simp]: "d < 10 \<Longrightarrow> is_digit (digit_byte d)"
  by (simp add: is_digit_iff unat_digit_byte)

lemma digit_val_byte [simp]: "d < 10 \<Longrightarrow> digit_val (digit_byte d) = d"
  by (simp add: digit_val_def unat_digit_byte)

lemma digit_val_less: "is_digit b \<Longrightarrow> digit_val b < 10"
  by (auto simp: is_digit_iff digit_val_def)

lemma digit_byte_val [simp]: "is_digit b \<Longrightarrow> digit_byte (digit_val b) = b"
  using digit_val_less [of b]
  by (simp add: word_unat_eq_iff unat_digit_byte) (simp add: is_digit_iff digit_val_def)

lemma digit_byte_zero [simp]: "digit_byte 0 = ch_zero"
  by (simp add: digit_byte_def)

lemma digit_byte_eq_zero [simp]: "d < 10 \<Longrightarrow> digit_byte d = ch_zero \<longleftrightarrow> d = 0"
  by (metis digit_byte_zero digit_val_byte zero_less_numeral)

lemma digit_ascii: "is_digit b \<Longrightarrow> b < 0x80"
  by (simp add: is_digit_iff word_less_nat_alt)

lemma not_digits [simp]: "\<not> is_digit 45" "\<not> is_digit 43" "\<not> is_digit 46" "\<not> is_digit 83" "\<not> is_digit 84"
  "\<not> is_digit 90" "\<not> is_digit 80" "\<not> is_digit 58" "is_digit 48"
  by (simp_all add: is_digit_def)

section \<open>Fixed-width fields\<close>

fun fixed :: "nat \<Rightarrow> nat \<Rightarrow> bytes" where
  "fixed 0 n = []"
| "fixed (Suc w) n = fixed w (n div 10) @ [digit_byte (n mod 10)]"

lemma length_fixed [simp]: "length (fixed w n) = w"
  by (induction w arbitrary: n) auto

lemma dec_val_snoc [simp]: "dec_val [] = 0" "dec_val (bs @ [b]) = dec_val bs * 10 + digit_val b"
  by (simp_all add: dec_val_def)

lemma digits_fixed [simp]: "list_all is_digit (fixed w n)"
  by (induction w arbitrary: n) auto

lemma dec_val_fixed [simp]: "n < 10 ^ w \<Longrightarrow> dec_val (fixed w n) = n"
  by (induction w arbitrary: n) (auto simp: less_mult_imp_div_less mult.commute)

lemma fixed_dec_val: "list_all is_digit bs \<Longrightarrow> fixed (length bs) (dec_val bs) = bs"
proof (induction bs rule: rev_induct)
  case (snoc b bs)
  then have "is_digit b" by simp
  then have "(dec_val bs * 10 + digit_val b) div 10 = dec_val bs"
    "(dec_val bs * 10 + digit_val b) mod 10 = digit_val b"
    using digit_val_less [of b] by simp_all
  with snoc show ?case by simp
qed simp

lemma dec_val_less: "list_all is_digit bs \<Longrightarrow> dec_val bs < 10 ^ length bs"
proof (induction bs rule: rev_induct)
  case (snoc b bs)
  then show ?case using digit_val_less [of b] by simp
qed simp

lemma dec_not_Nil [simp]: "dec n \<noteq> []"
  by (subst dec.simps) simp

lemma digits_dec [simp]: "list_all is_digit (dec n)"
  by (induction n rule: dec.induct) (subst dec.simps, simp)

lemma dec_val_dec [simp]: "dec_val (dec n) = n"
proof (induction n rule: dec.induct)
  case (1 n)
  show ?case
  proof (cases "n < 10")
    case True
    then show ?thesis by (subst dec.simps) (simp add: dec_val_def)
  qed (use 1 in \<open>subst dec.simps, simp\<close>)
qed

lemma hd_dec: "n \<noteq> 0 \<Longrightarrow> hd (dec n) \<noteq> ch_zero"
proof (induction n rule: dec.induct)
  case (1 n)
  show ?case
  proof (cases "n < 10")
    case False
    then have "n div 10 \<noteq> 0" by simp
    with False 1 have "hd (dec (n div 10)) \<noteq> ch_zero" by blast
    with False show ?thesis by (subst dec.simps) simp
  qed (use 1 in \<open>subst dec.simps, simp\<close>)
qed

lemma dec_0 [simp]: "dec 0 = [ch_zero]"
  by (subst dec.simps) simp

lemma length_dec_le: "n < 10 ^ w \<Longrightarrow> 0 < w \<Longrightarrow> length (dec n) \<le> w"
proof (induction n arbitrary: w rule: dec.induct)
  case (1 n)
  show ?case
  proof (cases "n < 10")
    case True
    then show ?thesis using 1 by (subst dec.simps) simp
  next
    case False
    obtain v where w: "w = Suc v" using "1.prems" by (cases w) auto
    with False "1.prems" have "n div 10 < 10 ^ v" "0 < v"
      by (auto simp: less_mult_imp_div_less mult.commute intro: Nat.gr0I)
    with False "1.IH" w show ?thesis by (subst dec.simps) simp
  qed
qed

lemma leading_zeros_val: "dec_val (replicate k ch_zero @ bs) = dec_val bs"
proof (induction bs rule: rev_induct)
  case Nil
  have "dec_val (replicate k ch_zero) = 0"
    by (induction k) (simp_all add: digit_val_def replicate_append_same [symmetric])
  then show ?case by simp
qed (simp flip: append_assoc)

lemma zpad_fixed: "n < 10 ^ w \<Longrightarrow> 0 < w \<Longrightarrow> zpad w n = fixed w n"
proof -
  assume n: "n < 10 ^ w" "0 < w"
  let ?z = "zpad w n"
  have "length ?z = w" using length_dec_le [OF n] by (simp add: zpad_def)
  moreover have "list_all is_digit ?z" by (simp add: zpad_def) (simp add: list_all_iff)
  moreover have "dec_val ?z = n" by (simp add: zpad_def leading_zeros_val)
  ultimately show ?thesis using fixed_dec_val [of ?z] by simp
qed

text \<open>A digit string without a leading zero is the one \<open>Display\<close> writes.\<close>

lemma dec_dec_val:
  assumes "list_all is_digit ds" "ds \<noteq> []" "length ds = 1 \<or> hd ds \<noteq> ch_zero"
  shows "dec (dec_val ds) = ds"
proof -
  let ?n = "dec_val ds" and ?w = "length ds"
  have len: "length (dec ?n) \<le> ?w" using assms by (intro length_dec_le dec_val_less) auto
  have "zpad ?w ?n = ds" using assms by (simp add: zpad_fixed dec_val_less fixed_dec_val)
  then have z: "replicate (?w - length (dec ?n)) ch_zero @ dec ?n = ds" by (simp add: zpad_def)
  show ?thesis
  proof (cases "?w - length (dec ?n)")
    case 0
    with z show ?thesis by simp
  next
    case (Suc k)
    with z have "hd ds = ch_zero" by (metis append_Cons list.sel(1) replicate_Suc)
    moreover have "length (dec ?n) \<ge> 1" by (simp add: Suc_le_eq)
    ultimately show ?thesis using assms(3) Suc by simp
  qed
qed

lemma trim_end_append_zeros: "bs \<noteq> [] \<Longrightarrow> last bs \<noteq> ch_zero \<Longrightarrow> trim_end_zeros (bs @ replicate k ch_zero) = bs"
proof -
  assume "bs \<noteq> []" "last bs \<noteq> ch_zero"
  then obtain cs c where "bs = cs @ [c]" "c \<noteq> ch_zero" by (cases bs rule: rev_cases) auto
  then show ?thesis by (simp add: trim_end_zeros_def dropWhile_append)
qed

lemma trim_end_split: "trim_end_zeros bs @ replicate (length bs - length (trim_end_zeros bs)) ch_zero = bs"
proof (induction bs rule: rev_induct)
  case (snoc b bs)
  have "length (trim_end_zeros bs) \<le> length bs"
    by (metis length_dropWhile_le length_rev trim_end_zeros_def)
  with snoc show ?case
    by (cases "b = ch_zero") (auto simp: trim_end_zeros_def Suc_diff_le replicate_append_same [symmetric] simp flip: append_assoc)
qed (simp add: trim_end_zeros_def)

lemma trim_end_last: "trim_end_zeros bs \<noteq> [] \<Longrightarrow> last (trim_end_zeros bs) \<noteq> ch_zero"
  unfolding trim_end_zeros_def using hd_dropWhile [of "\<lambda>b. b = ch_zero" "rev bs"] by (simp add: last_rev)

lemma parse_unsigned_digits:
  "list_all is_digit ds \<Longrightarrow> ds \<noteq> [] \<Longrightarrow> parse_unsigned mx ds = (if dec_val ds \<le> mx then Some (dec_val ds) else None)"
  by (cases ds) (auto simp: parse_unsigned_def Let_def)

lemma parse_signed_digits:
  "list_all is_digit ds \<Longrightarrow> ds \<noteq> [] \<Longrightarrow>
     parse_signed lo hi ds =
       (if lo \<le> int (dec_val ds) \<and> int (dec_val ds) \<le> hi then Some (int (dec_val ds)) else None)"
  by (cases ds) (auto simp: parse_signed_def)

lemma trim_end_length: "length (trim_end_zeros bs) \<le> length bs"
  by (metis length_append le_add1 trim_end_split)

lemma trim_end_digits: "list_all is_digit bs \<Longrightarrow> list_all is_digit (trim_end_zeros bs)"
  by (metis list_all_append trim_end_split)

lemma parse_signed_dec_int: "lo \<le> i \<Longrightarrow> i \<le> hi \<Longrightarrow> parse_signed lo hi (dec_int i) = Some i"
proof -
  assume "lo \<le> i" "i \<le> hi"
  moreover obtain b r where "dec (nat i) = b # r" "is_digit b"
    using digits_dec [of "nat i"] dec_not_Nil [of "nat i"] by (cases "dec (nat i)") auto
  moreover have "dec_val (dec (nat i)) = nat i" "list_all is_digit (dec (nat i))" by simp_all
  ultimately show ?thesis
    by (cases "i < 0") (auto simp: dec_int_def parse_signed_def)
qed

lemma dec_int_ascii: "\<forall>b \<in> set (dec_int i). b < 0x80"
  using digits_dec [of "nat i"] digits_dec [of "nat (- i)"]
  by (auto simp: dec_int_def list_all_iff digit_ascii)

end
