(* ===== verification/Temporal.thy ===== *)
theory Temporal
  imports Decimal "HOL-Library.Signed_Division"
begin

text \<open>
  The temporal scalar domain of \<open>crates/marrow-temporal\<close>: the calendar conversions, the supported
  range, the canonical text codecs of dates, durations and instants, and the closed arithmetic.
  Day counts and nanosecond counts are mathematical integers; every range test, checked
  operation and narrowing conversion of the source (\<open>i32::try_from\<close>, \<open>checked_add\<close>, \<open>as u32\<close>)
  is written out. Rust's \<open>/\<close> truncates toward zero and is \<open>sdiv\<close>; \<open>div_euclid\<close> and \<open>rem_euclid\<close>
  by a positive divisor are \<open>div\<close> and \<open>mod\<close>. Text is the list of its bytes.
\<close>

section \<open>The calendar and the supported range\<close>

definition NANOS_PER_SEC :: int where "NANOS_PER_SEC = 1000000000"
definition NANOS_PER_DAY :: int where "NANOS_PER_DAY = 86400 * NANOS_PER_SEC"
definition SUPPORTED_DATE_MIN_DAYS :: int where "SUPPORTED_DATE_MIN_DAYS = - 719162"
definition SUPPORTED_DATE_MAX_DAYS :: int where "SUPPORTED_DATE_MAX_DAYS = 2932896"
definition SUPPORTED_INSTANT_MIN_NANOS :: int where
  "SUPPORTED_INSTANT_MIN_NANOS = SUPPORTED_DATE_MIN_DAYS * NANOS_PER_DAY"
definition SUPPORTED_INSTANT_MAX_NANOS :: int where
  "SUPPORTED_INSTANT_MAX_NANOS = SUPPORTED_DATE_MAX_DAYS * NANOS_PER_DAY + (NANOS_PER_DAY - 1)"

lemmas temporal_consts = NANOS_PER_SEC_def NANOS_PER_DAY_def SUPPORTED_DATE_MIN_DAYS_def
  SUPPORTED_DATE_MAX_DAYS_def SUPPORTED_INSTANT_MIN_NANOS_def SUPPORTED_INSTANT_MAX_NANOS_def

record DateParts =
  dp_year :: int
  dp_month :: nat
  dp_day :: nat

definition supported_date_days :: "int \<Rightarrow> bool" where
  "supported_date_days days \<longleftrightarrow> SUPPORTED_DATE_MIN_DAYS \<le> days \<and> days \<le> SUPPORTED_DATE_MAX_DAYS"

definition supported_instant_nanos :: "int \<Rightarrow> bool" where
  "supported_instant_nanos nanos \<longleftrightarrow>
     SUPPORTED_INSTANT_MIN_NANOS \<le> nanos \<and> nanos \<le> SUPPORTED_INSTANT_MAX_NANOS"

definition fits :: "nat \<Rightarrow> int \<Rightarrow> bool" where
  "fits w i \<longleftrightarrow> - (2 ^ (w - 1)) \<le> i \<and> i < 2 ^ (w - 1)"

definition days_from_civil :: "int \<Rightarrow> nat \<Rightarrow> nat \<Rightarrow> int" where
  "days_from_civil year0 month day =
     (let year = year0 - (if month \<le> 2 then 1 else 0);
          era = (if year \<ge> 0 then year else year - 399) sdiv 400;
          year_of_era = year - era * 400;
          month_part = int (if month > 2 then month - 3 else month + 9);
          day_of_year = (153 * month_part + 2) sdiv 5 + int day - 1;
          day_of_era = year_of_era * 365 + year_of_era sdiv 4 - year_of_era sdiv 100 + day_of_year
      in era * 146097 + day_of_era - 719468)"

definition civil_from_days :: "int \<Rightarrow> int \<times> nat \<times> nat" where
  "civil_from_days days0 =
     (let days = days0 + 719468;
          era = (if days \<ge> 0 then days else days - 146096) sdiv 146097;
          day_of_era = days - era * 146097;
          year_of_era = (day_of_era - day_of_era sdiv 1460 + day_of_era sdiv 36524
                         - day_of_era sdiv 146096) sdiv 365;
          year = year_of_era + era * 400;
          day_of_year = day_of_era - (365 * year_of_era + year_of_era sdiv 4 - year_of_era sdiv 100);
          month_part = (5 * day_of_year + 2) sdiv 153;
          day = nat (day_of_year - (153 * month_part + 2) sdiv 5 + 1);
          month = nat (if month_part < 10 then month_part + 3 else month_part - 9);
          year' = year + (if month \<le> 2 then 1 else 0)
      in (year', month, day))"

definition date_days :: "int \<Rightarrow> nat \<Rightarrow> nat \<Rightarrow> int option" where
  "date_days year month day =
     (if \<not> (1 \<le> year \<and> year \<le> 9999) \<or> \<not> (1 \<le> month \<and> month \<le> 12) \<or> \<not> (1 \<le> day \<and> day \<le> 31)
      then None
      else let days = days_from_civil year month day
           in if \<not> fits 32 days then None
              else if civil_from_days days = (year, month, day) then Some days else None)"

definition date_parts :: "int \<Rightarrow> DateParts option" where
  "date_parts days =
     (if \<not> supported_date_days days then None
      else let (year, month, day) = civil_from_days days
           in Some \<lparr>dp_year = year, dp_month = month, dp_day = day\<rparr>)"

section \<open>The canonical text codec\<close>

definition ascii_dash :: byte where "ascii_dash = 45"
definition ascii_dot :: byte where "ascii_dot = 46"
definition ascii_colon :: byte where "ascii_colon = 58"
definition ascii_P :: byte where "ascii_P = 80"
definition ascii_S :: byte where "ascii_S = 83"
definition ascii_T :: byte where "ascii_T = 84"
definition ascii_Z :: byte where "ascii_Z = 90"

lemmas ascii_defs = ascii_dash_def ascii_dot_def ascii_colon_def ascii_P_def ascii_S_def
  ascii_T_def ascii_Z_def

definition format_date_parts :: "int \<Rightarrow> nat \<Rightarrow> nat \<Rightarrow> bytes" where
  "format_date_parts year month day =
     zpad 4 (nat year) @ [ascii_dash] @ zpad 2 month @ [ascii_dash] @ zpad 2 day"

definition format_date :: "int \<Rightarrow> bytes option" where
  "format_date days =
     (case date_parts days of
        None \<Rightarrow> None
      | Some p \<Rightarrow> Some (format_date_parts (dp_year p) (dp_month p) (dp_day p)))"

definition parse_digit_field :: "bytes \<Rightarrow> nat option" where
  "parse_digit_field s = (if list_all is_digit s then parse_unsigned (2 ^ 32 - 1) s else None)"

definition slice :: "nat \<Rightarrow> nat \<Rightarrow> bytes \<Rightarrow> bytes" where
  "slice i j bs = take (j - i) (drop i bs)"

definition parse_date :: "bytes \<Rightarrow> int option" where
  "parse_date bs =
     (if length bs \<noteq> 10 \<or> bs ! 4 \<noteq> ascii_dash \<or> bs ! 7 \<noteq> ascii_dash then None
      else Option.bind (parse_digit_field (slice 0 4 bs)) (\<lambda>year.
           Option.bind (parse_digit_field (slice 5 7 bs)) (\<lambda>month.
           Option.bind (parse_digit_field (slice 8 10 bs)) (\<lambda>day.
             date_days (int year) month day))))"

definition push_nanos_fraction :: "bytes \<Rightarrow> nat \<Rightarrow> bytes" where
  "push_nanos_fraction out nanos_fraction =
     (if nanos_fraction > 0 then out @ [ascii_dot] @ trim_end_zeros (zpad 9 nanos_fraction) else out)"

definition parse_canonical_fraction :: "bytes \<Rightarrow> int option" where
  "parse_canonical_fraction fraction =
     (if fraction = [] \<or> length fraction > 9 \<or> last fraction = ch_zero
         \<or> \<not> list_all is_digit fraction then None
      else parse_signed (- (2 ^ 127)) (2 ^ 127 - 1)
             (fraction @ replicate (9 - length fraction) ch_zero))"

definition format_duration :: "int \<Rightarrow> bytes" where
  "format_duration nanos =
     (let sign = (if nanos < 0 then [ascii_dash] else []);
          magnitude = nat \<bar>nanos\<bar>;
          seconds = magnitude div nat NANOS_PER_SEC;
          fraction = magnitude mod nat NANOS_PER_SEC
      in push_nanos_fraction (sign @ [ascii_P, ascii_T] @ dec seconds) fraction @ [ascii_S])"

definition strip_prefix :: "bytes \<Rightarrow> bytes \<Rightarrow> bytes option" where
  "strip_prefix p bs = (if prefix p bs then Some (drop (length p) bs) else None)"

definition strip_suffix :: "byte \<Rightarrow> bytes \<Rightarrow> bytes option" where
  "strip_suffix c bs = (if bs \<noteq> [] \<and> last bs = c then Some (butlast bs) else None)"

definition split_once :: "byte \<Rightarrow> bytes \<Rightarrow> (bytes \<times> bytes) option" where
  "split_once c bs =
     (if c \<in> set bs then Some (takeWhile (\<lambda>b. b \<noteq> c) bs, tl (dropWhile (\<lambda>b. b \<noteq> c) bs)) else None)"

definition checked_u128 :: "nat \<Rightarrow> nat option" where
  "checked_u128 n = (if n < 2 ^ 128 then Some n else None)"

definition split_duration :: "bytes \<Rightarrow> (bool \<times> bytes \<times> bytes option) option" where
  "split_duration bs =
     Option.bind (from_utf8 bs) (\<lambda>text.
     let (negative, rest) = (case strip_prefix [ascii_dash] text of
                               Some rest \<Rightarrow> (True, rest) | None \<Rightarrow> (False, text))
     in Option.bind (strip_prefix [ascii_P, ascii_T] rest) (\<lambda>tail.
        Option.bind (strip_suffix ascii_S tail) (\<lambda>body.
          Some (negative, (case split_once ascii_dot body of
                             Some (seconds, fraction) \<Rightarrow> (seconds, Some fraction)
                           | None \<Rightarrow> (body, None))))))"

definition signed_magnitude :: "bool \<Rightarrow> nat \<Rightarrow> int option" where
  "signed_magnitude negative magnitude =
     (if negative then
        if magnitude = 0 then None
        else if magnitude < 2 ^ 127 then Some (- int magnitude)
        else if magnitude = 2 ^ 127 then Some (- (2 ^ 127)) else None
      else if magnitude < 2 ^ 127 then Some (int magnitude) else None)"

definition parse_duration :: "bytes \<Rightarrow> int option" where
  "parse_duration bs =
     Option.bind (split_duration bs) (\<lambda>(negative, seconds_text, fraction_text).
       if seconds_text = [] \<or> \<not> list_all is_digit seconds_text then None
       else if length seconds_text > 1 \<and> hd seconds_text = ch_zero then None
       else Option.bind (parse_unsigned (2 ^ 128 - 1) seconds_text) (\<lambda>seconds.
            Option.bind (case fraction_text of
                   None \<Rightarrow> Some 0
                 | Some fraction \<Rightarrow> map_option nat (parse_canonical_fraction fraction)) (\<lambda>fraction_nanos.
            Option.bind (checked_u128 (seconds * nat NANOS_PER_SEC)) (\<lambda>product.
            Option.bind (checked_u128 (product + fraction_nanos)) (signed_magnitude negative)))))"

definition format_instant :: "int \<Rightarrow> bytes option" where
  "format_instant nanos =
     (if \<not> supported_instant_nanos nanos then None
      else let days = nanos div NANOS_PER_DAY;
               time_of_day = nanos mod NANOS_PER_DAY;
               (year, month, day) = civil_from_days days;
               total_seconds = nat (time_of_day sdiv NANOS_PER_SEC);
               fraction = nat (time_of_day - NANOS_PER_SEC * (time_of_day sdiv NANOS_PER_SEC));
               hours = total_seconds div 3600;
               minutes = (total_seconds mod 3600) div 60;
               seconds = total_seconds mod 60;
               out = format_date_parts year month day @ [ascii_T] @ zpad 2 hours @ [ascii_colon]
                     @ zpad 2 minutes @ [ascii_colon] @ zpad 2 seconds
           in Some (push_nanos_fraction out fraction @ [ascii_Z]))"

definition parse_time :: "bytes \<Rightarrow> int option" where
  "parse_time time =
     (if length time < 8 \<or> time ! 2 \<noteq> ascii_colon \<or> time ! 5 \<noteq> ascii_colon then None
      else Option.bind (parse_digit_field (slice 0 2 time)) (\<lambda>hours.
           Option.bind (parse_digit_field (slice 3 5 time)) (\<lambda>minutes.
           Option.bind (parse_digit_field (slice 6 8 time)) (\<lambda>seconds.
             if hours > 23 \<or> minutes > 59 \<or> seconds > 59 then None
             else Option.bind
                    (if length time = 8 then Some 0
                     else if time ! 8 \<noteq> ascii_dot then None
                     else parse_canonical_fraction (drop 9 time)) (\<lambda>fraction_nanos.
                  let seconds_of_day = int (hours * 3600 + minutes * 60 + seconds)
                  in Some (seconds_of_day * NANOS_PER_SEC + fraction_nanos))))))"

definition parse_instant :: "bytes \<Rightarrow> int option" where
  "parse_instant bs =
     (if length bs < 20 \<or> bs ! 10 \<noteq> ascii_T \<or> last bs \<noteq> ascii_Z then None
      else Option.bind (parse_date (slice 0 10 bs)) (\<lambda>days.
           Option.bind (parse_time (slice 11 (length bs - 1) bs)) (\<lambda>nanos_of_day.
             Some (days * NANOS_PER_DAY + nanos_of_day))))"

section \<open>The closed arithmetic\<close>

definition checked :: "nat \<Rightarrow> int \<Rightarrow> int option" where
  "checked w i = (if fits w i then Some i else None)"

definition add_days :: "int \<Rightarrow> int \<Rightarrow> int option" where
  "add_days days add =
     Option.bind (checked 64 (days + add)) (\<lambda>r.
     Option.bind (checked 32 r) (\<lambda>result. if supported_date_days result then Some result else None))"

definition days_between :: "int \<Rightarrow> int \<Rightarrow> int" where
  "days_between from_day to_day = to_day - from_day"

definition duration_add :: "int \<Rightarrow> int \<Rightarrow> int option" where
  "duration_add a b = checked 128 (a + b)"

definition duration_sub :: "int \<Rightarrow> int \<Rightarrow> int option" where
  "duration_sub a b = checked 128 (a - b)"

definition instant_add_duration :: "int \<Rightarrow> int \<Rightarrow> int option" where
  "instant_add_duration inst duration =
     Option.bind (checked 128 (inst + duration)) (\<lambda>result.
       if supported_instant_nanos result then Some result else None)"

definition instant_sub_duration :: "int \<Rightarrow> int \<Rightarrow> int option" where
  "instant_sub_duration inst duration =
     Option.bind (checked 128 (inst - duration)) (\<lambda>result.
       if supported_instant_nanos result then Some result else None)"

end
