(* ===== verification/Calendar.thy ===== *)
theory Calendar
  imports Temporal
begin

text \<open>
  Correctness of the day-count arithmetic of \<open>crates/marrow-temporal\<close>: the two conversions are
  inverse on all days, they agree with the proleptic Gregorian calendar given by its leap-year rule
  and month lengths, and the supported day range is exactly the years 1 to 9999.
\<close>

section \<open>Truncating and flooring division\<close>

lemma sdiv_nonneg: "0 \<le> a \<Longrightarrow> 0 \<le> b \<Longrightarrow> a sdiv b = a div b" for a b :: int
  by (simp add: signed_divide_int_def sgn_if)

lemma div_unique: "q * n \<le> a \<Longrightarrow> a < q * n + n \<Longrightarrow> a div n = q" for a n q :: int
  by (rule int_div_pos_eq [of _ _ _ "a - q * n"]) auto

lemma div_bounds: "0 < n \<Longrightarrow> a div n * n \<le> a \<and> a < a div n * n + n" for a n :: int
  using pos_mod_bound [of n a] pos_mod_sign [of n a] div_mult_mod_eq [of a n] by linarith

lemma era_floor:
  fixes y n m :: int
  assumes n: "0 < n" and m: "m = n - 1"
  shows "(if y \<ge> 0 then y else y - m) sdiv n = y div n"
proof (cases "y \<ge> 0")
  case False
  moreover have "(m - y) div n = - (y div n)"
    using div_bounds [OF n, of y] m by (intro div_unique) (simp_all add: algebra_simps)
  ultimately show ?thesis using n by (simp add: signed_divide_int_def sgn_if abs_if m)
qed (use n in \<open>simp add: sdiv_nonneg\<close>)

definition era_year :: "int \<Rightarrow> int \<Rightarrow> int \<Rightarrow> int \<Rightarrow> int \<Rightarrow> bool" where
  "era_year e a b c d \<longleftrightarrow> e = 36524 * a + 1461 * b + 365 * c + d \<and> 0 \<le> a \<and> a \<le> 3 \<and> 0 \<le> b \<and> b \<le> 24
     \<and> 0 \<le> c \<and> c \<le> 3 \<and> 0 \<le> d \<and> (d \<le> 364 \<or> d = 365 \<and> c = 3 \<and> (b < 24 \<or> a = 3))"

lemma capped_quotient:
  fixes e n k :: int
  assumes "0 \<le> e" "e \<le> k * n + n" "0 < n" "0 \<le> k"
  obtains q where "0 \<le> q" "q \<le> k" "q * n \<le> e" "e \<le> q * n + n" "e = q * n + n \<Longrightarrow> q = k"
proof (cases "e div n \<le> k")
  case True
  show thesis by (rule that [of "e div n"]) (use True assms div_bounds [of n e] in \<open>auto simp: pos_imp_zdiv_nonneg_iff\<close>)
next
  case False
  then have "k * n + n \<le> e div n * n"
    using assms(3) by (metis add1_zle_eq distrib_right mult_1 mult_right_mono not_le order_less_imp_le)
  with div_bounds [OF assms(3), of e] assms have "e = k * n + n" by linarith
  then show thesis by (intro that [of k]) (use assms in auto)
qed

lemma era_year_exists: "0 \<le> e \<Longrightarrow> e < 146097 \<Longrightarrow> \<exists>a b c d. era_year e a b c d"
proof -
  assume e: "0 \<le> e" "e < 146097"
  obtain a where a: "0 \<le> a" "a \<le> 3" "a * 36524 \<le> e" "e \<le> a * 36524 + 36524"
    "e = a * 36524 + 36524 \<Longrightarrow> a = 3"
    by (rule capped_quotient [of e 3 36524]) (use e in auto)
  define r where "r = e - a * 36524"
  obtain b where b: "0 \<le> b" "b \<le> 24" "b * 1461 \<le> r" "r \<le> b * 1461 + 1461"
    "r = b * 1461 + 1461 \<Longrightarrow> b = 24"
    by (rule capped_quotient [of r 24 1461]) (use a in \<open>auto simp: r_def\<close>)
  define s where "s = r - b * 1461"
  have s: "s \<le> 1460"
  proof (cases "r = b * 1461 + 1461")
    case True
    with b(5) a(4) show ?thesis by (simp add: s_def r_def)
  qed (use b in \<open>simp add: s_def\<close>)
  have s': "b < 24 \<or> a = 3" if "s = 1460"
  proof (cases "b = 24")
    case True
    with that a(5) show ?thesis by (simp add: s_def r_def)
  qed (use b in simp)
  obtain c where c: "0 \<le> c" "c \<le> 3" "c * 365 \<le> s" "s \<le> c * 365 + 365" "s = c * 365 + 365 \<Longrightarrow> c = 3"
    by (rule capped_quotient [of s 3 365]) (use b s in \<open>auto simp: s_def\<close>)
  have "era_year e a b c (s - c * 365)"
    unfolding era_year_def using a b c s s' by (auto simp: s_def r_def)
  then show ?thesis by blast
qed

lemma era_year_guess:
  assumes "era_year e a b c d"
  shows "(e - e div 1460 + e div 36524 - e div 146096) div 365 = 100 * a + 4 * b + c" (is "?g div 365 = ?y")
proof -
  define x where "x = (if 1460 \<le> 24 * a + b + 365 * c + d then 1 else (0::int))"
  define t where "t = (if e = 146096 then 1 else (0::int))"
  have q1: "e div 1460 = 25 * a + b + x"
    by (rule div_unique) (use assms in \<open>auto simp: era_year_def x_def\<close>)
  have q2: "e div 36524 = a + t"
    by (rule div_unique) (use assms in \<open>auto simp: era_year_def t_def\<close>)
  have q3: "e div 146096 = t"
    by (rule div_unique) (use assms in \<open>auto simp: era_year_def t_def\<close>)
  have "?g = 365 * ?y + (d - x)" using assms q1 q2 q3 by (simp add: era_year_def)
  moreover have "0 \<le> d - x" "d - x < 365"
    using assms by (auto simp: era_year_def x_def)
  ultimately show ?thesis by simp
qed

text \<open>
  Every day lies in a year of an era: \<open>civil_parts days era yoe doy mp\<close> names the era, the year of the
  era (starting in March), the day of that year and its month.
\<close>

definition leap_year :: "int \<Rightarrow> bool" where
  "leap_year y \<longleftrightarrow> y mod 4 = 0 \<and> (y mod 100 \<noteq> 0 \<or> y mod 400 = 0)"

definition civil_parts :: "int \<Rightarrow> int \<Rightarrow> int \<Rightarrow> int \<Rightarrow> int \<Rightarrow> bool" where
  "civil_parts days era yoe doy mp \<longleftrightarrow>
     days + 719468 = era * 146097 + (365 * yoe + yoe div 4 - yoe div 100) + doy
     \<and> 0 \<le> yoe \<and> yoe \<le> 399 \<and> 0 \<le> doy \<and> doy \<le> 365 \<and> (365 * yoe + yoe div 4 - yoe div 100) + doy < 146097
     \<and> mp = (5 * doy + 2) div 153 \<and> (doy = 365 \<longrightarrow> leap_year (yoe + 1))"

lemma era_year_leap:
  assumes "0 \<le> b" "b < 24 \<or> b = 24 \<and> a = 3" "c = 3"
  shows "leap_year (100 * a + 4 * b + c + 1)"
proof -
  have e: "100 * a + 4 * b + c + 1 = 4 * (25 * a + b + 1)" "100 * a + 4 * b + c + 1 = (4 * b + 4) + 100 * a"
    using assms by simp_all
  have "(100 * a + 4 * b + c + 1) mod 4 = 0" unfolding e(1) by simp
  moreover have "(100 * a + 4 * b + c + 1) mod 100 = (4 * b + 4) mod 100" unfolding e(2) by simp
  moreover have "(4 * b + 4) mod 100 \<noteq> 0" if "b < 24" using that assms(1) by simp
  moreover have "(100 * a + 4 * b + c + 1) mod 400 = 0" if "b = 24" "a = 3" using that assms(3) by simp
  ultimately show ?thesis using assms(2) unfolding leap_year_def by metis
qed

lemma year_digits: "y = 100 * (y div 100) + 4 * (y mod 100 div 4) + y mod 4" for y :: int
proof -
  have "y mod 100 mod 4 = y mod 4" by (rule mod_mod_cancel) simp
  then have "4 * (y mod 100 div 4) + y mod 4 = y mod 100" using mult_div_mod_eq [of 4 "y mod 100"] by simp
  moreover have "100 * (y div 100) + y mod 100 = y" by (rule mult_div_mod_eq)
  ultimately show ?thesis by linarith
qed

lemma year_digits_div4: "y = 100 * a + 4 * b + c \<Longrightarrow> 0 \<le> c \<Longrightarrow> c \<le> 3 \<Longrightarrow> y div 4 = 25 * a + b" for y :: int
  by (rule div_unique) simp_all

lemma civil_parts_exist:
  obtains era yoe doy mp e where "civil_parts days era yoe doy mp"
    "era = (days + 719468) div 146097" "e = days + 719468 - era * 146097" "0 \<le> e"
    "yoe = (e - e div 1460 + e div 36524 - e div 146096) div 365"
proof -
  define era where "era = (days + 719468) div 146097"
  define e where "e = days + 719468 - era * 146097"
  have e: "0 \<le> e" "e < 146097" using div_bounds [of 146097 "days + 719468"] by (auto simp: e_def era_def)
  then obtain a b c d where y: "era_year e a b c d" using era_year_exists by blast
  let ?y = "100 * a + 4 * b + c"
  have "?y div 4 = 25 * a + b" "?y div 100 = a"
    by (rule div_unique; use y in \<open>auto simp: era_year_def\<close>)+
  moreover have "leap_year (?y + 1)" if "d = 365"
    using that y by (intro era_year_leap) (auto simp: era_year_def)
  ultimately have "civil_parts days era ?y d ((5 * d + 2) div 153)"
    using y e by (auto simp: civil_parts_def era_year_def e_def)
  then show thesis by (rule that [OF _ era_def e_def e(1) era_year_guess [OF y, symmetric]])
qed

lemma month_bounds:
  assumes "civil_parts days era yoe doy mp"
  shows "0 \<le> mp" "mp \<le> 11" "mp < 10 \<longleftrightarrow> doy < 306"
    "0 \<le> doy - (153 * mp + 2) div 5" "doy - (153 * mp + 2) div 5 \<le> 30" "0 \<le> (153 * mp + 2) div 5"
proof -
  have m: "0 \<le> doy" "doy \<le> 365" "153 * mp \<le> 5 * doy + 2" "5 * doy + 2 < 153 * mp + 153"
    using assms div_bounds [of 153 "5 * doy + 2"] by (simp_all add: civil_parts_def)
  have w: "5 * ((153 * mp + 2) div 5) \<le> 153 * mp + 2" "153 * mp + 2 < 5 * ((153 * mp + 2) div 5) + 5"
    using div_bounds [of 5 "153 * mp + 2"] by simp_all
  show mp: "0 \<le> mp" "mp \<le> 11" using m by linarith+
  show "mp < 10 \<longleftrightarrow> doy < 306" using m by linarith
  show "0 \<le> doy - (153 * mp + 2) div 5" "doy - (153 * mp + 2) div 5 \<le> 30" using m w by linarith+
  show "0 \<le> (153 * mp + 2) div 5" using mp by simp
qed

definition month_of :: "int \<Rightarrow> nat" where
  "month_of mp = nat (if mp < 10 then mp + 3 else mp - 9)"

lemma month_of_bounds: "0 \<le> mp \<Longrightarrow> mp \<le> 11 \<Longrightarrow> 1 \<le> month_of mp \<and> month_of mp \<le> 12 \<and> (month_of mp \<le> 2 \<longleftrightarrow> 10 \<le> mp)"
  by (auto simp: month_of_def)

lemma civil_from_days_parts:
  obtains era yoe doy mp where "civil_parts days era yoe doy mp"
    "civil_from_days days = (yoe + era * 400 + (if month_of mp \<le> 2 then 1 else 0), month_of mp,
                             nat (doy - (153 * mp + 2) div 5 + 1))"
proof (rule civil_parts_exist [of days])
  fix era yoe doy mp e
  assume p: "civil_parts days era yoe doy mp" and era: "era = (days + 719468) div 146097"
    and e: "e = days + 719468 - era * 146097" "0 \<le> e"
    and yoe: "yoe = (e - e div 1460 + e div 36524 - e div 146096) div 365"
  have "0 \<le> e - e div 1460 + e div 36524 - e div 146096"
    using e(2) zdiv_mono2 [of e 36524 146096] zdiv_mono2 [of e 1 1460] by simp
  then have yoe': "(e - e sdiv 1460 + e sdiv 36524 - e sdiv 146096) sdiv 365 = yoe"
    by (simp only: sdiv_nonneg [OF e(2)] yoe sdiv_nonneg zero_le_numeral)
  have era': "(if days + 719468 \<ge> 0 then days + 719468 else days + 719468 - 146096) sdiv 146097 = era"
    unfolding era by (rule era_floor) simp_all
  have doy: "e - (365 * yoe + yoe sdiv 4 - yoe sdiv 100) = doy"
    using p e by (simp add: civil_parts_def sdiv_nonneg)
  have mp: "(5 * doy + 2) sdiv 153 = mp" "(153 * mp + 2) sdiv 5 = (153 * mp + 2) div 5"
    using p month_bounds(1) [OF p] by (simp_all add: civil_parts_def sdiv_nonneg)
  show thesis
    by (rule that [OF p]) (simp only: civil_from_days_def Let_def era' e(1) [symmetric] yoe' doy mp month_of_def)
qed

lemma days_from_civil_parts:
  assumes "0 \<le> yoe" "yoe \<le> 399" "1 \<le> month"
  shows "days_from_civil (yoe + era * 400 + (if month \<le> 2 then 1 else 0)) month day =
     era * 146097 + (365 * yoe + yoe div 4 - yoe div 100)
     + ((153 * int (if month > 2 then month - 3 else month + 9) + 2) div 5 + int day - 1) - 719468"
proof -
  let ?y = "yoe + era * 400"
  have "(if ?y \<ge> 0 then ?y else ?y - 399) sdiv 400 = ?y div 400" by (rule era_floor) simp_all
  also have "?y div 400 = era" using assms by (intro div_unique) simp_all
  finally have era: "(if ?y \<ge> 0 then ?y else ?y - 399) sdiv 400 = era" .
  have y: "?y + (if month \<le> 2 then 1 else 0) - (if month \<le> 2 then 1 else 0) = ?y" by simp
  show ?thesis using assms by (simp only: days_from_civil_def Let_def y era) (simp add: sdiv_nonneg)
qed

lemma days_from_civil_from_days:
  assumes "civil_from_days days = (year, month, day)"
  shows "days_from_civil year month day = days"
proof (rule civil_from_days_parts [of days])
  fix era yoe doy mp
  assume p: "civil_parts days era yoe doy mp"
    and cd: "civil_from_days days = (yoe + era * 400 + (if month_of mp \<le> 2 then 1 else 0), month_of mp,
                             nat (doy - (153 * mp + 2) div 5 + 1))"
  from trans [OF assms [symmetric] cd]
  have c: "year = yoe + era * 400 + (if month_of mp \<le> 2 then 1 else 0)" "month = month_of mp"
    "day = nat (doy - (153 * mp + 2) div 5 + 1)" by simp_all
  note mb = month_bounds [OF p]
  have "int (if month > 2 then month - 3 else month + 9) = mp"
    using mb(1,2) by (auto simp: c month_of_def)
  moreover have "1 \<le> month" using month_of_bounds [OF mb(1,2)] c by simp
  moreover have "days + 719468 = era * 146097 + (365 * yoe + yoe div 4 - yoe div 100) + doy" "0 \<le> yoe" "yoe \<le> 399"
    using p unfolding civil_parts_def by blast+
  ultimately show ?thesis
    using days_from_civil_parts [of yoe month era day] mb(4) unfolding c by simp
qed

lemma supported_year:
  assumes p: "civil_parts days era yoe doy mp"
  shows "1 \<le> yoe + era * 400 + (if 306 \<le> doy then 1 else 0)
       \<and> yoe + era * 400 + (if 306 \<le> doy then 1 else 0) \<le> 9999
     \<longleftrightarrow> supported_date_days days"
proof -
  define s where "s = 365 * yoe + yoe div 4 - yoe div 100"
  have d: "days = era * 146097 + s + doy - 719468" "0 \<le> yoe" "yoe \<le> 399" "0 \<le> doy" "doy \<le> 365"
    "s + doy < 146097"
    using p by (auto simp: civil_parts_def s_def)
  have q: "yoe div 4 * 4 \<le> yoe" "yoe < yoe div 4 * 4 + 4" "yoe div 100 * 100 \<le> yoe" "yoe < yoe div 100 * 100 + 100"
    using div_bounds [of 4 yoe] div_bounds [of 100 yoe] by simp_all
  have s: "0 \<le> s" "yoe = 0 \<Longrightarrow> s = 0" "yoe \<noteq> 0 \<Longrightarrow> 306 \<le> s" "yoe = 399 \<Longrightarrow> s = 145731"
    "yoe \<noteq> 399 \<Longrightarrow> s + doy < 145731 + 306"
    using d(2-5) q unfolding s_def by linarith+
  consider "era < 0" | "era = 0" | "0 < era" "era < 24" | "era = 24" | "24 < era" by linarith
  then show ?thesis
  proof cases
    case 2
    then show ?thesis using d s by (cases "yoe = 0") (auto simp: supported_date_days_def temporal_consts)
  next
    case 4
    then show ?thesis using d s by (cases "yoe = 399") (auto simp: supported_date_days_def temporal_consts)
  qed (use d s in \<open>auto simp: supported_date_days_def temporal_consts\<close>)
qed

lemma civil_from_days_valid:
  assumes "civil_from_days days = (year, month, day)"
  shows "1 \<le> month" "month \<le> 12" "1 \<le> day" "day \<le> 31"
    "1 \<le> year \<and> year \<le> 9999 \<longleftrightarrow> supported_date_days days"
proof -
  obtain era yoe doy mp where p: "civil_parts days era yoe doy mp"
    and cd: "civil_from_days days = (yoe + era * 400 + (if month_of mp \<le> 2 then 1 else 0), month_of mp,
                             nat (doy - (153 * mp + 2) div 5 + 1))"
    by (rule civil_from_days_parts [of days])
  from trans [OF assms [symmetric] cd]
  have c: "year = yoe + era * 400 + (if month_of mp \<le> 2 then 1 else 0)" "month = month_of mp"
    "day = nat (doy - (153 * mp + 2) div 5 + 1)" by simp_all
  note mb = month_bounds [OF p]
  show "1 \<le> month" "month \<le> 12" using month_of_bounds [OF mb(1,2)] c by simp_all
  show "1 \<le> day" "day \<le> 31" using mb(4,5) by (auto simp: c)
  have "month_of mp \<le> 2 \<longleftrightarrow> 306 \<le> doy" using month_of_bounds [OF mb(1,2)] mb(3) by auto
  then show "1 \<le> year \<and> year \<le> 9999 \<longleftrightarrow> supported_date_days days"
    using supported_year [OF p] c(1) by simp
qed

lemma date_days_iff:
  "date_days year month day = Some days \<longleftrightarrow> supported_date_days days \<and> civil_from_days days = (year, month, day)"
proof
  assume "date_days year month day = Some days"
  then show "supported_date_days days \<and> civil_from_days days = (year, month, day)"
    using civil_from_days_valid(5) [of days year month day]
    by (auto simp: date_days_def Let_def split: if_splits)
next
  assume s: "supported_date_days days \<and> civil_from_days days = (year, month, day)"
  moreover have "fits 32 days" using s by (simp add: supported_date_days_def temporal_consts fits_def)
  ultimately show "date_days year month day = Some days"
    using civil_from_days_valid [of days year month day] days_from_civil_from_days [of days year month day]
    by (simp add: date_days_def)
qed

lemma civil_parts_era_year:
  assumes "civil_parts days era yoe doy mp"
  shows "era_year (days + 719468 - era * 146097) (yoe div 100) (yoe mod 100 div 4) (yoe mod 4) doy"
proof -
  let ?a = "yoe div 100" and ?b = "yoe mod 100 div 4" and ?c = "yoe mod 4"
  have p: "days + 719468 = era * 146097 + (365 * yoe + yoe div 4 - yoe div 100) + doy"
    "0 \<le> yoe" "yoe \<le> 399" "0 \<le> doy" "doy \<le> 365" "doy = 365 \<Longrightarrow> leap_year (yoe + 1)"
    using assms by (auto simp: civil_parts_def)
  have y: "yoe = 100 * ?a + 4 * ?b + ?c" by (rule year_digits)
  have b: "0 \<le> ?a" "?a \<le> 3" "0 \<le> ?b" "?b \<le> 24" "0 \<le> ?c" "?c \<le> 3"
    using p(2,3) by auto
  have q: "yoe div 4 = 25 * ?a + ?b" by (rule year_digits_div4 [OF y b(5,6)])
  have "?c = 3 \<and> (?b < 24 \<or> ?a = 3)" if "doy = 365"
  proof -
    have l: "(yoe + 1) mod 4 = 0" "(yoe + 1) mod 100 \<noteq> 0 \<or> (yoe + 1) mod 400 = 0"
      using p(6) [OF that] by (auto simp: leap_year_def)
    have "?c = 3" using l(1) by presburger
    moreover have "?a = 3" if "?b = 24"
    proof -
      have "yoe + 1 = 100 * (?a + 1)" using y unfolding \<open>?c = 3\<close> that by simp
      then have "(yoe + 1) mod 100 = 0" by (simp only: mod_mult_self1_is_0)
      with l(2) have "(yoe + 1) mod 400 = 0" by simp
      then have "yoe + 1 \<ge> 400" using p(2) zmod_le_nonneg_dividend [of "yoe + 1" 400]
        by (metis add.commute mod_pos_pos_trivial not_le zle_add1_eq_le less_irrefl linorder_not_less add_increasing zero_le_one)
      then show ?thesis using p(3) y \<open>?c = 3\<close> that by linarith
    qed
    ultimately show ?thesis using b by linarith
  qed
  moreover have "365 * yoe + yoe div 4 - ?a = 36524 * ?a + 1461 * ?b + 365 * ?c"
    unfolding q by (subst (1) y) simp
  ultimately show ?thesis unfolding era_year_def using p(1,4,5) b by linarith
qed

lemma civil_parts_unique:
  assumes p: "civil_parts days era yoe doy mp" and p': "civil_parts days era' yoe' doy' mp'"
  shows "era = era' \<and> yoe = yoe' \<and> doy = doy' \<and> mp = mp'"
proof -
  have r: "0 \<le> 365 * y + y div 4 - y div 100 + d" if "civil_parts days e y d m" for e y d m
    using that div_bounds [of 4 y] div_bounds [of 100 y] by (auto simp: civil_parts_def)
  have e: "(days + 719468) div 146097 = e" if q: "civil_parts days e y d m" for e y d m
    by (rule div_unique) (use q r [OF q] in \<open>auto simp: civil_parts_def\<close>)
  have "era = era'" using e [OF p] e [OF p'] by simp
  moreover have "yoe = yoe'"
    using era_year_guess [OF civil_parts_era_year [OF p]] era_year_guess [OF civil_parts_era_year [OF p']]
    unfolding year_digits [symmetric] \<open>era = era'\<close> by simp
  ultimately show ?thesis using p p' by (auto simp: civil_parts_def)
qed

text \<open>The proleptic Gregorian calendar, as the specification of the dates that exist.\<close>

definition days_in_month :: "int \<Rightarrow> nat \<Rightarrow> nat" where
  "days_in_month y m =
     (if m = 2 then (if leap_year y then 29 else 28) else if m \<in> {4, 6, 9, 11} then 30 else 31)"

definition gregorian :: "int \<Rightarrow> nat \<Rightarrow> nat \<Rightarrow> bool" where
  "gregorian y m d \<longleftrightarrow> 1 \<le> m \<and> m \<le> 12 \<and> 1 \<le> d \<and> d \<le> days_in_month y m"

lemma leap_year_era: "leap_year (y + era * 400) = leap_year y"
proof -
  have "(y + era * 400) mod 4 = y mod 4" "(y + era * 400) mod 100 = y mod 100" "(y + era * 400) mod 400 = y mod 400"
    by (simp_all add: mod_add_eq [symmetric] mod_mult_right_eq [symmetric])
  then show ?thesis by (simp add: leap_year_def)
qed

lemma civil_parts_gregorian:
  assumes p: "civil_parts days era yoe doy mp"
  shows "gregorian (yoe + era * 400 + (if month_of mp \<le> 2 then 1 else 0)) (month_of mp)
           (nat (doy - (153 * mp + 2) div 5 + 1))"
proof -
  note mb = month_bounds [OF p]
  have m: "153 * mp \<le> 5 * doy + 2" "5 * doy + 2 < 153 * mp + 153" "doy \<le> 365" "\<not> leap_year (yoe + 1) \<Longrightarrow> doy \<le> 364"
    using p div_bounds [of 153 "5 * doy + 2"] by (auto simp: civil_parts_def order.order_iff_strict)
  have leap: "leap_year (yoe + era * 400 + 1) = leap_year (yoe + 1)"
    using leap_year_era [of "yoe + 1" era] by (simp add: algebra_simps)
  have "mp = 0 \<or> mp = 1 \<or> mp = 2 \<or> mp = 3 \<or> mp = 4 \<or> mp = 5 \<or> mp = 6 \<or> mp = 7 \<or> mp = 8 \<or> mp = 9 \<or> mp = 10 \<or> mp = 11"
    using mb(1,2) by presburger
  then show ?thesis
    using m by (elim disjE) (auto simp: gregorian_def month_of_def days_in_month_def leap)
qed

lemma gregorian_civil_parts:
  assumes g: "gregorian year month day"
  defines "mp \<equiv> int (if month > 2 then month - 3 else month + 9)"
    and "y \<equiv> year - (if month \<le> 2 then 1 else 0)"
  defines "doy \<equiv> (153 * mp + 2) div 5 + int day - 1"
  shows "civil_parts (days_from_civil year month day) (y div 400) (y mod 400) doy mp"
    and "month_of mp = month"
proof -
  let ?q = "y mod 400" and ?e = "y div 400"
  have q: "0 \<le> ?q" "?q \<le> 399" by (auto simp: zle_diff1_eq [symmetric])
  have year: "year = ?q + ?e * 400 + (if month \<le> 2 then 1 else 0)" by (simp add: y_def)
  have "month = 1 \<or> month = 2 \<or> month = 3 \<or> month = 4 \<or> month = 5 \<or> month = 6 \<or> month = 7 \<or> month = 8 \<or> month = 9
    \<or> month = 10 \<or> month = 11 \<or> month = 12"
    using conjunct1 [OF g [unfolded gregorian_def]] conjunct1 [OF conjunct2 [OF g [unfolded gregorian_def]]]
    by presburger
  then have m: "0 \<le> doy \<and> doy \<le> 365 \<and> mp * 153 \<le> 5 * doy + 2 \<and> 5 * doy + 2 < mp * 153 + 153
      \<and> (doy = 365 \<longrightarrow> month = 2 \<and> leap_year year) \<and> month_of mp = month"
    using g by (elim disjE) (auto simp: gregorian_def days_in_month_def mp_def doy_def month_of_def split: if_splits)
  have leap: "leap_year (?q + 1)" if "doy = 365"
  proof -
    from m that have "month = 2" "leap_year year" by simp_all
    moreover have "year = ?q + 1 + ?e * 400" unfolding y_def using \<open>month = 2\<close> by simp
    ultimately have "leap_year (?q + 1 + ?e * 400)" by (simp only:)
    then show ?thesis by (simp only: leap_year_era)
  qed
  define s where "s = 365 * ?q + ?q div 4 - ?q div 100"
  have "s + doy < 146097"
    using q m div_bounds [of 4 ?q] div_bounds [of 100 ?q] by (cases "?q = 399") (auto simp: s_def)
  moreover have "(5 * doy + 2) div 153 = mp" by (rule div_unique) (use m in auto)
  moreover have "days_from_civil year month day + 719468 = ?e * 146097 + s + doy"
    using days_from_civil_parts [OF q, of month ?e day, folded year mp_def s_def doy_def] g
    unfolding gregorian_def doy_def by linarith
  ultimately show "civil_parts (days_from_civil year month day) (y div 400) (y mod 400) doy mp"
    using q m leap by (simp add: civil_parts_def s_def)
  show "month_of mp = month" using m by simp
qed

lemma civil_from_days_iff:
  "civil_from_days days = (year, month, day) \<longleftrightarrow> gregorian year month day \<and> days_from_civil year month day = days"
proof
  assume c: "civil_from_days days = (year, month, day)"
  obtain era yoe doy mp where p: "civil_parts days era yoe doy mp"
    and cd: "civil_from_days days = (yoe + era * 400 + (if month_of mp \<le> 2 then 1 else 0), month_of mp,
                             nat (doy - (153 * mp + 2) div 5 + 1))"
    by (rule civil_from_days_parts [of days])
  from trans [OF c [symmetric] cd] civil_parts_gregorian [OF p] have "gregorian year month day" by simp
  with days_from_civil_from_days [OF c] show "gregorian year month day \<and> days_from_civil year month day = days" by simp
next
  assume g: "gregorian year month day \<and> days_from_civil year month day = days"
  note gp = gregorian_civil_parts [OF conjunct1 [OF g], unfolded conjunct2 [OF g]]
  obtain era yoe doy mp where p: "civil_parts days era yoe doy mp"
    and cd: "civil_from_days days = (yoe + era * 400 + (if month_of mp \<le> 2 then 1 else 0), month_of mp,
                             nat (doy - (153 * mp + 2) div 5 + 1))"
    by (rule civil_from_days_parts [of days])
  from civil_parts_unique [OF p gp(1)] gp(2) cd show "civil_from_days days = (year, month, day)"
    by auto
qed

section \<open>Counting days\<close>

definition year_length :: "int \<Rightarrow> int" where
  "year_length y = (if leap_year y then 366 else 365)"

definition hit :: "int \<Rightarrow> int \<Rightarrow> int" where
  "hit n y = (if y mod n = 0 then 1 else 0)"

lemma div_pred:
  fixes y n :: int
  assumes n: "0 < n"
  shows "y div n = (y - 1) div n + hit n y"
proof -
  let ?q = "y div n"
  have y: "?q * n + y mod n = y" by simp
  have r: "0 \<le> y mod n" "y mod n < n" using n by simp_all
  show ?thesis
  proof (cases "y mod n = 0")
    case True
    have "(?q - 1) * n = ?q * n - n" by (simp add: left_diff_distrib)
    with y True n have "(y - 1) div n = ?q - 1" by (intro div_unique) linarith+
    with True show ?thesis by (simp add: hit_def)
  next
    case False
    with y r have "(y - 1) div n = ?q" by (intro div_unique) linarith+
    with False show ?thesis by (simp add: hit_def)
  qed
qed

lemma leap_year_count: "(if leap_year y then 1 else 0) = hit 4 y - hit 100 y + hit 400 y"
proof -
  have count: "(if P \<and> (\<not> Q \<or> R) then 1 else 0) = (if P then 1 else 0) - (if Q then 1 else 0) + (if R then (1::int) else 0)"
    if "R \<Longrightarrow> Q" "Q \<Longrightarrow> P" for P Q R using that by auto
  have "y mod 400 mod 100 = y mod 100" "y mod 100 mod 4 = y mod 4" by (rule mod_mod_cancel; simp)+
  then have "y mod 400 = 0 \<Longrightarrow> y mod 100 = 0" "y mod 100 = 0 \<Longrightarrow> y mod 4 = 0" by (metis mod_0)+
  then show ?thesis unfolding leap_year_def hit_def by (rule count)
qed

definition leaps :: "int \<Rightarrow> int" where
  "leaps y = y div 4 - y div 100 + y div 400"

lemma leaps_step: "leaps y = leaps (y - 1) + (if leap_year y then 1 else 0)"
  unfolding leap_year_count leaps_def
  by (simp only: div_pred [of 4 y] div_pred [of 100 y] div_pred [of 400 y] zero_less_numeral)

lemma sum_year_length: "1 \<le> y \<Longrightarrow> (\<Sum>k \<in> {1..<y}. year_length k) = 365 * (y - 1) + leaps (y - 1)"
proof (induction y rule: int_ge_induct)
  case base
  then show ?case by (simp add: leaps_def)
next
  case (step i)
  have "{1..<i + 1} = insert i {1..<i}" using step by auto
  with step leaps_step [of i] show ?case by (simp add: year_length_def)
qed

lemma leaps_era: "leaps (yoe + era * 400) = 97 * era + yoe div 4 - yoe div 100 + yoe div 400"
proof -
  have "yoe + era * 400 = yoe + (era * 100) * 4" "yoe + era * 400 = yoe + (era * 4) * 100" by simp_all
  then have "(yoe + era * 400) div 4 = era * 100 + yoe div 4" "(yoe + era * 400) div 100 = era * 4 + yoe div 100"
    by (metis div_mult_self1 add.commute zero_neq_numeral)+
  then show ?thesis by (simp add: leaps_def)
qed

definition days_before_month :: "int \<Rightarrow> nat \<Rightarrow> int" where
  "days_before_month y m = (\<Sum>k \<in> {1..<m}. int (days_in_month y k))"

lemma days_before_month_shift:
  assumes "1 \<le> m" "m \<le> 12"
  shows "days_before_month y m = (153 * int (if m > 2 then m - 3 else m + 9) + 2) div 5
    + (if m \<le> 2 then - 306 else 59 + (if leap_year y then 1 else 0))"
proof -
  have "m = 1 \<or> m = 2 \<or> m = 3 \<or> m = 4 \<or> m = 5 \<or> m = 6 \<or> m = 7 \<or> m = 8 \<or> m = 9 \<or> m = 10 \<or> m = 11 \<or> m = 12"
    using assms by presburger
  then show ?thesis
    by (elim disjE)
      (simp_all add: days_before_month_def days_in_month_def atLeastLessThanSuc eval_nat_numeral)
qed

lemma days_from_civil_counts:
  assumes g: "gregorian y m d" and y: "1 \<le> y"
  shows "days_from_civil y m d = SUPPORTED_DATE_MIN_DAYS + (\<Sum>k \<in> {1..<y}. year_length k)
           + days_before_month y m + int d - 1"
proof -
  have m: "1 \<le> m" "m \<le> 12" using g by (simp_all add: gregorian_def)
  define z where "z = y - (if m \<le> 2 then 1 else 0)"
  define yoe where "yoe = z mod 400"
  define era where "era = z div 400"
  have q: "0 \<le> yoe" "yoe \<le> 399" by (auto simp: yoe_def zle_diff1_eq [symmetric])
  have z: "z = yoe + era * 400" by (simp add: yoe_def era_def)
  have "yoe div 400 = 0" using q by simp
  then have "era * 146097 + (365 * yoe + yoe div 4 - yoe div 100) = 365 * z + leaps z"
    unfolding z leaps_era by simp
  moreover have "y = yoe + era * 400 + (if m \<le> 2 then 1 else 0)" using z by (simp add: z_def)
  ultimately have "days_from_civil y m d = 365 * z + leaps z
      + ((153 * int (if m > 2 then m - 3 else m + 9) + 2) div 5 + int d - 1) - 719468"
    using days_from_civil_parts [OF q m(1), of era d] by simp
  moreover have "leaps z = leaps (y - 1) + (if m \<le> 2 then 0 else if leap_year y then 1 else 0)"
    using leaps_step [of y] by (simp add: z_def)
  ultimately show ?thesis
    unfolding sum_year_length [OF y] days_before_month_shift [OF m] SUPPORTED_DATE_MIN_DAYS_def
    by (cases "m \<le> 2") (simp_all add: z_def)
qed

text \<open>
  C5. \<open>date_days\<close> accepts exactly the dates that exist in the Gregorian calendar in the years 1 to
  9999 (29 February only in leap years), and the number it returns counts the days of the
  preceding years and months from the first supported day.
\<close>

theorem date_days_counts_gregorian_days:
  "date_days y m d = Some n \<longleftrightarrow>
     1 \<le> y \<and> y \<le> 9999 \<and> gregorian y m d
     \<and> n = SUPPORTED_DATE_MIN_DAYS + (\<Sum>k \<in> {1..<y}. year_length k) + days_before_month y m + int d - 1"
proof -
  have "date_days y m d = Some n \<longleftrightarrow> (1 \<le> y \<and> y \<le> 9999) \<and> gregorian y m d \<and> days_from_civil y m d = n"
    using civil_from_days_valid(5) [of n y m d] by (auto simp: date_days_iff civil_from_days_iff)
  then show ?thesis by (auto simp: days_from_civil_counts)
qed

text \<open>
  Every supported day has exactly one calendar date and \<open>date_parts\<close> gives it: the two
  conversions are inverse on the supported range, and outside it there are no parts.
\<close>

theorem date_parts_inverse:
  "date_parts n = Some p \<longleftrightarrow> date_days (dp_year p) (dp_month p) (dp_day p) = Some n"
  by (cases p) (auto simp: date_parts_def date_days_iff split: prod.splits)

end
