(* ===== verification/Temporal_Text.thy ===== *)
theory Temporal_Text
  imports Calendar
begin

text \<open>
  Correctness of the canonical text codecs and of the closed arithmetic of
  \<open>crates/marrow-temporal\<close>: each parser accepts exactly what its formatter writes.
\<close>

section \<open>Text round trips\<close>

lemma parse_digit_field_iff:
  "0 < length bs \<Longrightarrow> length bs \<le> 9 \<Longrightarrow> parse_digit_field bs = Some n \<longleftrightarrow> n < 10 ^ length bs \<and> bs = fixed (length bs) n"
proof -
  assume l: "0 < length bs" "length bs \<le> 9"
  have "dec_val bs < 10 ^ length bs \<Longrightarrow> dec_val bs \<le> 2 ^ 32 - 1"
    using power_increasing [OF l(2), of "10::nat"] by simp
  then have "list_all is_digit bs \<Longrightarrow> parse_digit_field bs = Some (dec_val bs)"
    using l dec_val_less [of bs] by (auto simp: parse_digit_field_def parse_unsigned_digits)
  moreover have "parse_digit_field bs = Some n \<Longrightarrow> list_all is_digit bs"
    by (simp add: parse_digit_field_def split: if_splits)
  ultimately show ?thesis
    using dec_val_less fixed_dec_val digits_fixed dec_val_fixed by (metis option.inject)
qed

lemma parse_digit_field_fixed [simp]:
  "0 < w \<Longrightarrow> w \<le> 9 \<Longrightarrow> n < 10 ^ w \<Longrightarrow> parse_digit_field (fixed w n) = Some n"
  using parse_digit_field_iff [of "fixed w n" n] by simp

text \<open>The canonical date text, with fixed-width fields.\<close>

definition date_text :: "nat \<Rightarrow> nat \<Rightarrow> nat \<Rightarrow> bytes" where
  "date_text y m d = fixed 4 y @ [ascii_dash] @ fixed 2 m @ [ascii_dash] @ fixed 2 d"

lemma length_date_text [simp]: "length (date_text y m d) = 10"
  by (simp add: date_text_def)

lemma list_split_at: "i < length bs \<Longrightarrow> bs = take i bs @ [bs ! i] @ drop (Suc i) bs"
  by (simp add: id_take_nth_drop)

lemma split_date_text:
  "length bs = 10 \<Longrightarrow> bs = slice 0 4 bs @ [bs ! 4] @ slice 5 7 bs @ [bs ! 7] @ slice 8 10 bs"
  using list_split_at [of 4 bs] list_split_at [of 2 "drop 5 bs"] by (simp add: slice_def)

lemma parse_date_text:
  "parse_date bs = Some d \<longleftrightarrow>
     (\<exists>y m dd. bs = date_text y m dd \<and> y < 10 ^ 4 \<and> m < 10 ^ 2 \<and> dd < 10 ^ 2 \<and> date_days (int y) m dd = Some d)"
  (is "_ \<longleftrightarrow> ?rhs")
proof
  assume p: "parse_date bs = Some d"
  then have l: "length bs = 10" and sep: "bs ! 4 = ascii_dash" "bs ! 7 = ascii_dash"
    by (auto simp: parse_date_def split: if_splits)
  then have sl: "length (slice 0 4 bs) = 4" "length (slice 5 7 bs) = 2" "length (slice 8 10 bs) = 2"
    by (simp_all add: slice_def)
  from p l sep obtain y m dd where *: "parse_digit_field (slice 0 4 bs) = Some y"
    "parse_digit_field (slice 5 7 bs) = Some m" "parse_digit_field (slice 8 10 bs) = Some dd"
    "date_days (int y) m dd = Some d"
    by (auto simp: parse_date_def bind_eq_Some_conv)
  then have "slice 0 4 bs = fixed 4 y \<and> y < 10 ^ 4" "slice 5 7 bs = fixed 2 m \<and> m < 10 ^ 2"
    "slice 8 10 bs = fixed 2 dd \<and> dd < 10 ^ 2"
    using sl by (simp_all add: parse_digit_field_iff)
  then show ?rhs using split_date_text [OF l] sep * unfolding date_text_def by metis
next
  assume ?rhs
  then obtain y m dd where bs: "bs = date_text y m dd" and b: "y < 10 ^ 4" "m < 10 ^ 2" "dd < 10 ^ 2"
    and d: "date_days (int y) m dd = Some d" by blast
  have "slice 0 4 bs = fixed 4 y" "slice 5 7 bs = fixed 2 m" "slice 8 10 bs = fixed 2 dd"
    "bs ! 4 = ascii_dash" "bs ! 7 = ascii_dash" "length bs = 10"
    by (simp_all add: bs date_text_def slice_def nth_append)
  then show "parse_date bs = Some d"
    using b d by (simp add: parse_date_def)
qed

lemma format_date_parts_text:
  assumes "civil_from_days days = (year, month, day)" "supported_date_days days"
  shows "format_date_parts year month day = date_text (nat year) month day"
    "nat year < 10 ^ 4" "month < 10 ^ 2" "day < 10 ^ 2" "int (nat year) = year"
proof -
  note v = civil_from_days_valid [OF assms(1)]
  show b: "nat year < 10 ^ 4" "month < 10 ^ 2" "day < 10 ^ 2" "int (nat year) = year"
    using v assms(2) by auto
  show "format_date_parts year month day = date_text (nat year) month day"
    by (simp only: format_date_parts_def date_text_def zpad_fixed [OF b(1)] zpad_fixed [OF b(2)]
        zpad_fixed [OF b(3)] zero_less_numeral)
qed

lemma format_date_iff:
  "format_date days = Some bs \<longleftrightarrow> supported_date_days days \<and>
     (\<exists>y m d. civil_from_days days = (y, m, d) \<and> bs = format_date_parts y m d)"
  by (auto simp: format_date_def date_parts_def split: option.splits prod.splits)

lemma parse_date_iff_format: "parse_date bs = Some days \<longleftrightarrow> format_date days = Some bs"
proof
  assume "parse_date bs = Some days"
  then obtain y m d where "bs = date_text y m d" "supported_date_days days" "civil_from_days days = (int y, m, d)"
    by (auto simp: parse_date_text date_days_iff)
  then show "format_date days = Some bs"
    using format_date_parts_text [of days "int y" m d] by (auto simp: format_date_iff)
next
  assume "format_date days = Some bs"
  then obtain y m d where s: "supported_date_days days" "civil_from_days days = (y, m, d)"
    "bs = format_date_parts y m d" by (auto simp: format_date_iff)
  note f = format_date_parts_text [OF s(2,1)]
  show "parse_date bs = Some days"
    unfolding parse_date_text
    by (rule exI [of _ "nat y"], rule exI [of _ m], rule exI [of _ d]) (use s f in \<open>simp add: date_days_iff\<close>)
qed

section \<open>Fractions\<close>

lemma parse_canonical_fraction_trim:
  assumes "0 < n" "n < 10 ^ 9"
  shows "parse_canonical_fraction (trim_end_zeros (zpad 9 n)) = Some (int n)"
proof -
  let ?t = "trim_end_zeros (fixed 9 n)"
  have s: "?t @ replicate (9 - length ?t) ch_zero = fixed 9 n"
    using trim_end_split [of "fixed 9 n"] by simp
  have "?t \<noteq> []"
  proof
    assume "?t = []"
    with s have "fixed 9 n = replicate 9 ch_zero" by simp
    then have "dec_val (fixed 9 n) = 0" using leading_zeros_val [of 9 "[]"] by simp
    with assms show False by simp
  qed
  moreover have "parse_signed (- (2 ^ 127)) (2 ^ 127 - 1) (fixed 9 n) = Some (int n)"
    using assms parse_signed_digits [OF digits_fixed [of 9 n]] by (auto simp flip: length_0_conv)
  ultimately show ?thesis
    using assms trim_end_last [of "fixed 9 n"] trim_end_length [of "fixed 9 n"] s
    by (simp add: parse_canonical_fraction_def zpad_fixed trim_end_digits)
qed


lemma parse_canonical_fraction_inv:
  assumes "parse_canonical_fraction fr = Some v"
  obtains n where "v = int n" "0 < n" "n < 10 ^ 9" "fr = trim_end_zeros (zpad 9 n)"
proof -
  let ?p = "fr @ replicate (9 - length fr) ch_zero"
  have f: "fr \<noteq> []" "length fr \<le> 9" "last fr \<noteq> ch_zero" "list_all is_digit fr"
    using assms by (auto simp: parse_canonical_fraction_def split: if_splits)
  then have d: "list_all is_digit ?p" "length ?p = 9" by (auto simp: list_all_iff)
  have v: "v = int (dec_val ?p)"
    using assms f d(1) by (auto simp: parse_canonical_fraction_def parse_signed_digits split: if_splits)
  have less: "dec_val ?p < 10 ^ 9" using dec_val_less [OF d(1)] d(2) by simp
  then have z: "zpad 9 (dec_val ?p) = ?p" using fixed_dec_val [OF d(1)] d(2) by (simp add: zpad_fixed)
  have t: "trim_end_zeros ?p = fr" by (rule trim_end_append_zeros) (use f in auto)
  have "dec_val ?p \<noteq> 0"
  proof
    assume "dec_val ?p = 0"
    with z have "?p = replicate 8 ch_zero @ [ch_zero]" by (simp add: zpad_def)
    then have "set ?p \<subseteq> {ch_zero}" by auto
    then show False using f(3) last_in_set [OF f(1)] by (simp add: subset_iff)
  qed
  then show thesis using that [OF v _ less] z t by simp
qed

definition fraction_text :: "nat \<Rightarrow> bytes" where
  "fraction_text n = (if n > 0 then ascii_dot # trim_end_zeros (zpad 9 n) else [])"

lemma fraction_text_0 [simp]: "fraction_text 0 = []"
  by (simp add: fraction_text_def)

lemma push_nanos_fraction_text: "push_nanos_fraction out n = out @ fraction_text n"
  by (simp add: push_nanos_fraction_def fraction_text_def)

lemma fraction_digits: "n < 10 ^ 9 \<Longrightarrow> list_all is_digit (trim_end_zeros (zpad 9 n))"
  by (simp add: zpad_fixed trim_end_digits)

lemma ascii_is_digit [simp]: "\<not> is_digit ascii_dash" "\<not> is_digit ascii_dot" "\<not> is_digit ascii_S" "\<not> is_digit ascii_Z"
  by (simp_all add: ascii_defs)

lemma split_once_fraction:
  assumes "list_all is_digit s" "n < 10 ^ 9"
  shows "split_once ascii_dot (s @ fraction_text n) = (if n > 0 then Some (s, trim_end_zeros (zpad 9 n)) else None)"
proof -
  have dot: "\<forall>b \<in> set s. b \<noteq> ascii_dot" using assms by (metis ascii_is_digit(2) list_all_iff)
  then have "takeWhile (\<lambda>b. b \<noteq> ascii_dot) (s @ r) = s @ takeWhile (\<lambda>b. b \<noteq> ascii_dot) r"
    "dropWhile (\<lambda>b. b \<noteq> ascii_dot) (s @ r) = dropWhile (\<lambda>b. b \<noteq> ascii_dot) r" for r
    by (simp_all add: takeWhile_append2 dropWhile_append2)
  with dot show ?thesis by (auto simp: split_once_def fraction_text_def)
qed

lemma split_once_Some:
  assumes "split_once c bs = Some (s, r)"
  shows "bs = s @ c # r"
proof -
  from assms have *: "c \<in> set bs" "s = takeWhile (\<lambda>b. b \<noteq> c) bs" "r = tl (dropWhile (\<lambda>b. b \<noteq> c) bs)"
    by (auto simp: split_once_def split: if_splits)
  then have "dropWhile (\<lambda>b. b \<noteq> c) bs \<noteq> []" by (simp add: dropWhile_eq_Nil_conv)
  then have "dropWhile (\<lambda>b. b \<noteq> c) bs = c # r"
    using hd_dropWhile [of "\<lambda>b. b \<noteq> c" bs] * by (metis list.collapse)
  then show ?thesis using * by (metis takeWhile_dropWhile_id)
qed


text \<open>The canonical duration text, from its sign, whole seconds and sub-second nanoseconds.\<close>

definition duration_text :: "bool \<Rightarrow> nat \<Rightarrow> nat \<Rightarrow> bytes" where
  "duration_text neg s f =
     (if neg then [ascii_dash] else []) @ [ascii_P, ascii_T] @ dec s @ fraction_text f @ [ascii_S]"

lemma format_duration_text:
  "format_duration nanos =
     duration_text (nanos < 0) (nat \<bar>nanos\<bar> div 10 ^ 9) (nat \<bar>nanos\<bar> mod 10 ^ 9)"
  by (simp add: format_duration_def duration_text_def push_nanos_fraction_text NANOS_PER_SEC_def Let_def)

lemma duration_text_ascii: "f < 10 ^ 9 \<Longrightarrow> utf8_valid (duration_text neg s f)"
  using digits_dec [of s] fraction_digits [of f]
  by (intro utf8_valid_ascii)
    (auto simp: duration_text_def fraction_text_def list_all_iff ascii_defs intro: digit_ascii)

lemma split_duration_text:
  assumes "f < 10 ^ 9"
  shows "split_duration (duration_text neg s f) =
     Some (neg, dec s, if f > 0 then Some (trim_end_zeros (zpad 9 f)) else None)"
proof -
  have sp: "strip_prefix [ascii_dash] (duration_text neg s f) = (if neg then Some (duration_text False s f) else None)"
    by (simp add: strip_prefix_def duration_text_def ascii_defs)
  have pt: "strip_prefix [ascii_P, ascii_T] (duration_text False s f) = Some (dec s @ fraction_text f @ [ascii_S])"
    by (simp add: strip_prefix_def duration_text_def)
  have suf: "strip_suffix ascii_S (dec s @ fraction_text f @ [ascii_S]) = Some (dec s @ fraction_text f)"
    by (simp add: strip_suffix_def butlast_append)
  have u: "from_utf8 (duration_text neg s f) = Some (duration_text neg s f)"
    using assms by (simp add: from_utf8_def duration_text_ascii)
  show ?thesis
    unfolding split_duration_def u bind.simps sp Let_def
    using assms by (cases neg) (simp_all add: pt suf split_once_fraction)
qed

lemma strip_prefix_Some: "strip_prefix p bs = Some r \<Longrightarrow> bs = p @ r"
  by (auto simp: strip_prefix_def prefix_def split: if_splits)

lemma strip_suffix_Some: "strip_suffix c bs = Some r \<Longrightarrow> bs = r @ [c]"
  by (auto simp: strip_suffix_def split: if_splits)

lemma split_duration_Some:
  assumes "split_duration bs = Some (neg, s, fr)"
  shows "bs = (if neg then [ascii_dash] else []) @ [ascii_P, ascii_T] @ s
          @ (case fr of None \<Rightarrow> [] | Some f \<Rightarrow> ascii_dot # f) @ [ascii_S]"
proof -
  obtain rest where r: "bs = (if neg then [ascii_dash] else []) @ rest"
    "Option.bind (strip_prefix [ascii_P, ascii_T] rest) (\<lambda>tail.
        Option.bind (strip_suffix ascii_S tail) (\<lambda>body.
          Some (neg, (case split_once ascii_dot body of
                             Some (seconds, fraction) \<Rightarrow> (seconds, Some fraction)
                           | None \<Rightarrow> (body, None))))) = Some (neg, s, fr)"
    using assms
    by (auto simp: split_duration_def from_utf8_def bind_eq_Some_conv strip_prefix_def
        prefix_def split: if_splits)
  then obtain body where b: "rest = [ascii_P, ascii_T] @ body @ [ascii_S]"
    "(case split_once ascii_dot body of
       Some (seconds, fraction) \<Rightarrow> (seconds, Some fraction) | None \<Rightarrow> (body, None)) = (s, fr)"
    by (auto simp: bind_eq_Some_conv dest!: strip_prefix_Some strip_suffix_Some)
  then have "body = s @ (case fr of None \<Rightarrow> [] | Some f \<Rightarrow> ascii_dot # f)"
    by (cases "split_once ascii_dot body") (auto dest: split_once_Some)
  with r b show ?thesis by simp
qed

lemma signed_magnitude_iff:
  "signed_magnitude neg m = Some v \<longleftrightarrow> fits 128 v \<and> m = nat \<bar>v\<bar> \<and> neg = (v < 0)"
  by (auto simp: signed_magnitude_def fits_def)

lemma parse_duration_text:
  assumes "f < 10 ^ 9"
  shows "parse_duration (duration_text neg s f) = Some v \<longleftrightarrow>
     fits 128 v \<and> s * 10 ^ 9 + f = nat \<bar>v\<bar> \<and> neg = (v < 0)"
proof -
  have lead: "\<not> (length (dec s) > 1 \<and> hd (dec s) = ch_zero)"
    using hd_dec [of s] by (cases "s = 0") auto
  have num: "parse_unsigned (2 ^ 128 - 1) (dec s) = (if s < 2 ^ 128 then Some s else None)"
    by (auto simp: parse_unsigned_digits)
  have frac: "(case (if f > 0 then Some (trim_end_zeros (zpad 9 f)) else None) of None \<Rightarrow> Some 0
       | Some fraction \<Rightarrow> map_option nat (parse_canonical_fraction fraction)) = Some f"
    using assms by (simp add: parse_canonical_fraction_trim)
  have "parse_duration (duration_text neg s f) =
     Option.bind (if s < 2 ^ 128 then Some s else None) (\<lambda>seconds.
     Option.bind (checked_u128 (seconds * nat NANOS_PER_SEC)) (\<lambda>product.
     Option.bind (checked_u128 (product + f)) (signed_magnitude neg)))"
    unfolding parse_duration_def split_duration_text [OF assms] bind.simps prod.case num frac
    using lead by auto
  also have "\<dots> = (if s * 10 ^ 9 + f < 2 ^ 128 then signed_magnitude neg (s * 10 ^ 9 + f) else None)"
    by (auto simp: checked_u128_def NANOS_PER_SEC_def)
  finally show ?thesis by (auto simp: signed_magnitude_iff fits_def)
qed

lemma parse_duration_inv:
  assumes "parse_duration bs = Some v"
  obtains neg s f where "bs = duration_text neg s f" "f < 10 ^ 9"
proof -
  obtain neg st ft where sp: "split_duration bs = Some (neg, st, ft)"
    and st: "st \<noteq> []" "list_all is_digit st" "\<not> (length st > 1 \<and> hd st = ch_zero)"
    and ft: "ft \<noteq> None \<longrightarrow> (\<exists>w. parse_canonical_fraction (the ft) = Some w)"
    using assms
    by (auto simp: parse_duration_def bind_eq_Some_conv split: if_splits option.splits)
  have "length st = 1 \<or> hd st \<noteq> ch_zero"
    using st(1,3) by (cases st rule: remdups_adj.cases) auto
  then have "st = dec (dec_val st)" using dec_dec_val [OF st(2,1)] by simp
  moreover obtain f where "f < 10 ^ 9" "(case ft of None \<Rightarrow> [] | Some f \<Rightarrow> ascii_dot # f) = fraction_text f"
  proof (cases ft)
    case None
    then show thesis by (intro that [of 0]) (simp_all add: fraction_text_def)
  next
    case (Some fr)
    with ft obtain w where "parse_canonical_fraction fr = Some w" by auto
    then obtain n where "0 < n" "n < 10 ^ 9" "fr = trim_end_zeros (zpad 9 n)"
      by (rule parse_canonical_fraction_inv)
    with Some show thesis by (intro that [of n]) (simp_all add: fraction_text_def)
  qed
  ultimately show thesis
    using that [of neg "dec_val st" f] split_duration_Some [OF sp] by (simp add: duration_text_def)
qed

lemma parse_duration_iff_format: "parse_duration bs = Some v \<longleftrightarrow> fits 128 v \<and> format_duration v = bs"
proof
  assume p: "parse_duration bs = Some v"
  then obtain neg s f where b: "bs = duration_text neg s f" "f < 10 ^ 9" by (rule parse_duration_inv)
  with p have v: "fits 128 v" "s * 10 ^ 9 + f = nat \<bar>v\<bar>" "neg = (v < 0)" by (simp_all add: parse_duration_text)
  have "(s * 10 ^ 9 + f) div 10 ^ 9 = s" "(s * 10 ^ 9 + f) mod 10 ^ 9 = f" using b(2) by simp_all
  then show "fits 128 v \<and> format_duration v = bs" using v b(1) by (simp only: format_duration_text simp_thms)
next
  assume "fits 128 v \<and> format_duration v = bs"
  then show "parse_duration bs = Some v"
    using parse_duration_text [of "nat \<bar>v\<bar> mod 10 ^ 9" "v < 0" "nat \<bar>v\<bar> div 10 ^ 9" v]
    by (auto simp: format_duration_text)
qed


definition time_text :: "nat \<Rightarrow> nat \<Rightarrow> nat \<Rightarrow> nat \<Rightarrow> bytes" where
  "time_text h m s f = fixed 2 h @ [ascii_colon] @ fixed 2 m @ [ascii_colon] @ fixed 2 s @ fraction_text f"

lemma split_time_text:
  "length bs \<ge> 8 \<Longrightarrow> bs = slice 0 2 bs @ [bs ! 2] @ slice 3 5 bs @ [bs ! 5] @ slice 6 8 bs @ drop 8 bs"
  using list_split_at [of 2 bs] list_split_at [of 2 "drop 3 bs"] append_take_drop_id [of 2 "drop 6 bs"]
  by (simp add: slice_def)

lemma parse_time_iff:
  "parse_time bs = Some t \<longleftrightarrow>
     (\<exists>h m s f. bs = time_text h m s f \<and> h \<le> 23 \<and> m \<le> 59 \<and> s \<le> 59 \<and> f < 10 ^ 9
        \<and> t = int (h * 3600 + m * 60 + s) * NANOS_PER_SEC + int f)" (is "_ \<longleftrightarrow> ?rhs")
proof
  assume p: "parse_time bs = Some t"
  then have l: "length bs \<ge> 8" and sep: "bs ! 2 = ascii_colon" "bs ! 5 = ascii_colon"
    by (auto simp: parse_time_def split: if_splits)
  then have sl: "length (slice 0 2 bs) = 2" "length (slice 3 5 bs) = 2" "length (slice 6 8 bs) = 2"
    by (simp_all add: slice_def)
  from p obtain h m s v where *: "parse_digit_field (slice 0 2 bs) = Some h"
    "parse_digit_field (slice 3 5 bs) = Some m" "parse_digit_field (slice 6 8 bs) = Some s"
    "h \<le> 23" "m \<le> 59" "s \<le> 59" "t = int (h * 3600 + m * 60 + s) * NANOS_PER_SEC + v"
    and fr: "(if length bs = 8 then Some 0 else if bs ! 8 \<noteq> ascii_dot then None
              else parse_canonical_fraction (drop 9 bs)) = Some v"
    by (auto simp: parse_time_def bind_eq_Some_conv not_less split: if_splits)
  then have fx: "slice 0 2 bs = fixed 2 h" "slice 3 5 bs = fixed 2 m" "slice 6 8 bs = fixed 2 s"
    using sl by (simp_all add: parse_digit_field_iff)
  obtain f where f: "v = int f" "f < 10 ^ 9" "drop 8 bs = fraction_text f"
  proof (cases "length bs = 8")
    case True
    with fr show thesis by (intro that [of 0]) simp_all
  next
    case False
    with fr have "parse_canonical_fraction (drop 9 bs) = Some v" "bs ! 8 = ascii_dot"
      by (auto split: if_splits)
    moreover have "drop 8 bs = bs ! 8 # drop 9 bs" using l False Cons_nth_drop_Suc [of 8 bs] by simp
    ultimately show thesis using that
      by (elim parse_canonical_fraction_inv) (auto simp: fraction_text_def)
  qed
  then show ?rhs using split_time_text [OF l] sep * fx unfolding time_text_def by metis
next
  assume ?rhs
  then obtain h m s f where bs: "bs = time_text h m s f" and b: "h \<le> 23" "m \<le> 59" "s \<le> 59" "f < 10 ^ 9"
    and t: "t = int (h * 3600 + m * 60 + s) * NANOS_PER_SEC + int f" by blast
  have parts: "slice 0 2 bs = fixed 2 h" "slice 3 5 bs = fixed 2 m" "slice 6 8 bs = fixed 2 s"
    "bs ! 2 = ascii_colon" "bs ! 5 = ascii_colon" "length bs = 8 + length (fraction_text f)"
    "drop 8 bs = fraction_text f"
    by (simp_all add: bs time_text_def slice_def nth_append)
  have "(if length bs = 8 then Some 0 else if bs ! 8 \<noteq> ascii_dot then None
              else parse_canonical_fraction (drop 9 bs)) = Some (int f)"
  proof (cases "f = 0")
    case False
    then have fr: "fraction_text f = ascii_dot # trim_end_zeros (zpad 9 f)" by (simp add: fraction_text_def)
    have "bs ! 8 = ascii_dot" using parts(7) fr by (metis nth_Cons_0 nth_drop add_0_right le_add1 parts(6))
    moreover have "drop 9 bs = trim_end_zeros (zpad 9 f)"
      using parts(7) fr by (metis drop_Suc_Cons drop0 drop_drop numeral_plus_numeral add_One semiring_norm(5) semiring_norm(2) add.commute numeral_One plus_1_eq_Suc)
    moreover have "length bs \<noteq> 8" using parts(6) fr by simp
    ultimately show ?thesis using b(4) False by (simp add: parse_canonical_fraction_trim)
  qed (use parts(6) in simp)
  then show "parse_time bs = Some t"
    using b t parts(1-6) by (simp add: parse_time_def)
qed

definition instant_text :: "nat \<Rightarrow> nat \<Rightarrow> nat \<Rightarrow> bytes \<Rightarrow> bytes" where
  "instant_text y m d time = date_text y m d @ [ascii_T] @ time @ [ascii_Z]"

lemma length_time_text: "8 \<le> length (time_text h m s f)"
  by (simp add: time_text_def)

lemma parse_instant_split:
  "parse_instant bs = Some v \<longleftrightarrow>
     (\<exists>dt tt days t. bs = dt @ [ascii_T] @ tt @ [ascii_Z] \<and> parse_date dt = Some days \<and> parse_time tt = Some t
        \<and> v = days * NANOS_PER_DAY + t)" (is "_ \<longleftrightarrow> ?rhs")
proof
  assume p: "parse_instant bs = Some v"
  then have c: "20 \<le> length bs" "bs ! 10 = ascii_T" "last bs = ascii_Z"
    by (auto simp: parse_instant_def split: if_splits)
  from p c obtain days t where *: "parse_date (slice 0 10 bs) = Some days"
    "parse_time (slice 11 (length bs - 1) bs) = Some t" "v = days * NANOS_PER_DAY + t"
    by (auto simp: parse_instant_def bind_eq_Some_conv)
  let ?d = "drop 11 bs"
  have "?d \<noteq> []" using c by simp
  then have "?d = butlast ?d @ [last ?d]" by (rule append_butlast_last_id [symmetric])
  moreover have "butlast ?d = slice 11 (length bs - 1) bs"
    by (simp add: slice_def butlast_conv_take)
  moreover have "last ?d = ascii_Z" using c by (simp add: last_drop)
  ultimately have "bs = slice 0 10 bs @ [ascii_T] @ slice 11 (length bs - 1) bs @ [ascii_Z]"
    using list_split_at [of 10 bs] c by (simp add: slice_def)
  with * show ?rhs by blast
next
  assume ?rhs
  then obtain dt tt days t where bs: "bs = dt @ [ascii_T] @ tt @ [ascii_Z]"
    and d: "parse_date dt = Some days" and t: "parse_time tt = Some t" and v: "v = days * NANOS_PER_DAY + t"
    by blast
  have l: "length dt = 10" "8 \<le> length tt"
    using d t length_time_text by (auto simp: parse_date_text parse_time_iff)
  then have "length bs \<ge> 20" "bs ! 10 = ascii_T" "last bs = ascii_Z" "slice 0 10 bs = dt"
    "slice 11 (length bs - 1) bs = tt"
    by (auto simp: bs slice_def nth_append)
  with d t v show "parse_instant bs = Some v" by (simp add: parse_instant_def)
qed

text \<open>A time of day is its hours, minutes, seconds and sub-second nanoseconds.\<close>

definition day_nanos :: "nat \<Rightarrow> nat \<Rightarrow> nat \<Rightarrow> nat \<Rightarrow> int" where
  "day_nanos h m s f = int (h * 3600 + m * 60 + s) * NANOS_PER_SEC + int f"

lemma day_nanos_range:
  "h \<le> 23 \<Longrightarrow> m \<le> 59 \<Longrightarrow> s \<le> 59 \<Longrightarrow> f < 10 ^ 9 \<Longrightarrow> 0 \<le> day_nanos h m s f \<and> day_nanos h m s f < NANOS_PER_DAY"
  by (auto simp: day_nanos_def temporal_consts)

lemma day_nanos_inverse:
  assumes "t = day_nanos h m s f" "h \<le> 23" "m \<le> 59" "s \<le> 59" "f < 10 ^ 9"
  shows "t sdiv NANOS_PER_SEC = int (h * 3600 + m * 60 + s)"
    "nat (t - NANOS_PER_SEC * (t sdiv NANOS_PER_SEC)) = f"
    "(h * 3600 + m * 60 + s) div 3600 = h" "(h * 3600 + m * 60 + s) mod 3600 div 60 = m"
    "(h * 3600 + m * 60 + s) mod 60 = s"
proof -
  have t: "0 \<le> t" using day_nanos_range assms by simp
  have "t div NANOS_PER_SEC = int (h * 3600 + m * 60 + s)"
    by (rule div_unique) (use assms in \<open>simp_all add: day_nanos_def NANOS_PER_SEC_def\<close>)
  then show q: "t sdiv NANOS_PER_SEC = int (h * 3600 + m * 60 + s)"
    using t by (simp add: sdiv_nonneg NANOS_PER_SEC_def)
  show "nat (t - NANOS_PER_SEC * (t sdiv NANOS_PER_SEC)) = f"
    unfolding q by (simp add: assms(1) day_nanos_def)
  have e: "h * 3600 + m * 60 + s = (m * 60 + s) + 3600 * h" by simp
  show "(h * 3600 + m * 60 + s) div 3600 = h" unfolding e using assms by simp
  show "(h * 3600 + m * 60 + s) mod 3600 div 60 = m" unfolding e using assms by simp
  have e: "h * 3600 + m * 60 + s = s + 60 * (h * 60 + m)" by simp
  show "(h * 3600 + m * 60 + s) mod 60 = s" unfolding e mod_mult_self2 using assms by simp
qed

lemma day_nanos_cover:
  assumes "0 \<le> t" "t < NANOS_PER_DAY"
  obtains h m s f where "t = day_nanos h m s f" "h \<le> 23" "m \<le> 59" "s \<le> 59" "f < 10 ^ 9"
proof -
  define n where "n = nat (t div NANOS_PER_SEC)"
  define f where "f = nat (t mod NANOS_PER_SEC)"
  have n: "int n = t div NANOS_PER_SEC" "n < 86400" "int f = t mod NANOS_PER_SEC" "f < 10 ^ 9"
    using assms by (auto simp: n_def f_def temporal_consts nat_less_iff)
  have hms: "n div 3600 * 3600 + n mod 3600 div 60 * 60 + n mod 60 = n"
  proof -
    have "n mod 3600 mod 60 = n mod 60" by (simp add: mod_mod_cancel)
    then show ?thesis using div_mult_mod_eq [of n 3600] div_mult_mod_eq [of "n mod 3600" 60] by linarith
  qed
  show thesis
  proof (rule that [of "n div 3600" "n mod 3600 div 60" "n mod 60" f])
    show "t = day_nanos (n div 3600) (n mod 3600 div 60) (n mod 60) f"
      unfolding day_nanos_def hms n by simp
    have "n mod 3600 < 3600" "n mod 60 < 60" by simp_all
    then show "n mod 3600 div 60 \<le> 59" "n mod 60 \<le> 59" by linarith+
  qed (use n in linarith)+
qed

lemma supported_instant_days: "supported_instant_nanos v \<longleftrightarrow> supported_date_days (v div NANOS_PER_DAY)"
  using div_bounds [of NANOS_PER_DAY v]
  by (auto simp: supported_instant_nanos_def supported_date_days_def temporal_consts)

lemma format_instant_text:
  assumes "v = days * NANOS_PER_DAY + day_nanos h m s f" "h \<le> 23" "m \<le> 59" "s \<le> 59" "f < 10 ^ 9"
  shows "format_instant v =
    map_option (\<lambda>dt. dt @ [ascii_T] @ time_text h m s f @ [ascii_Z]) (format_date days)"
proof -
  note r = day_nanos_range [OF assms(2-5)] and inv = day_nanos_inverse [OF refl assms(2-5)]
  have d: "v div NANOS_PER_DAY = days" by (rule div_unique) (use r assms(1) in simp_all)
  have m: "v mod NANOS_PER_DAY = day_nanos h m s f" using r assms(1) by (simp add: mod_pos_pos_trivial)
  have z: "zpad 2 h = fixed 2 h" "zpad 2 m = fixed 2 m" "zpad 2 s = fixed 2 s"
    using assms by (simp_all add: zpad_fixed)
  show ?thesis
    unfolding format_instant_def format_date_def date_parts_def supported_instant_days d m Let_def inv nat_int z inv(2) [unfolded inv(1)]
      push_nanos_fraction_text time_text_def
    by (simp split: prod.splits)
qed

lemma parse_instant_iff_format: "parse_instant bs = Some v \<longleftrightarrow> format_instant v = Some bs"
proof
  assume "parse_instant bs = Some v"
  then obtain dt tt days t where *: "bs = dt @ [ascii_T] @ tt @ [ascii_Z]" "format_date days = Some dt"
    "parse_time tt = Some t" "v = days * NANOS_PER_DAY + t"
    by (auto simp: parse_instant_split parse_date_iff_format)
  then obtain h m s f where "tt = time_text h m s f" "h \<le> 23" "m \<le> 59" "s \<le> 59" "f < 10 ^ 9" "t = day_nanos h m s f"
    by (auto simp: parse_time_iff day_nanos_def)
  with * show "format_instant v = Some bs" by (simp add: format_instant_text)
next
  assume fm: "format_instant v = Some bs"
  have "0 \<le> v mod NANOS_PER_DAY" "v mod NANOS_PER_DAY < NANOS_PER_DAY" by (simp_all add: temporal_consts)
  then obtain h m s f where t: "v mod NANOS_PER_DAY = day_nanos h m s f" "h \<le> 23" "m \<le> 59" "s \<le> 59" "f < 10 ^ 9"
    by (rule day_nanos_cover)
  then have v: "v = v div NANOS_PER_DAY * NANOS_PER_DAY + day_nanos h m s f" by (metis div_mult_mod_eq)
  with fm format_instant_text [OF v t(2-5)] obtain dt where
    "format_date (v div NANOS_PER_DAY) = Some dt" "bs = dt @ [ascii_T] @ time_text h m s f @ [ascii_Z]"
    by auto
  moreover have "parse_time (time_text h m s f) = Some (day_nanos h m s f)"
    unfolding parse_time_iff day_nanos_def using t(2-5) by blast
  ultimately show "parse_instant bs = Some v"
    using v by (auto simp: parse_instant_split parse_date_iff_format)
qed

section \<open>Properties\<close>

text \<open>
  C4. The three text codecs are exact: each parser accepts a byte string as a value precisely when
  the formatter writes that string for that value. Durations cover the whole \<open>i128\<close> range,
  dates and instants the years 1 to 9999.
\<close>

theorem temporal_text_exact:
  "(parse_date bs = Some d \<longleftrightarrow> format_date d = Some bs)
   \<and> (parse_duration bs = Some n \<longleftrightarrow> fits 128 n \<and> format_duration n = bs)
   \<and> (parse_instant bs = Some i \<longleftrightarrow> format_instant i = Some bs)"
  by (simp add: parse_date_iff_format parse_duration_iff_format parse_instant_iff_format)

text \<open>
  The arithmetic is closed: each operation returns the exact mathematical result whenever it
  lies in the supported domain and \<open>None\<close> otherwise, and adding back the days between two dates
  gives the second date.
\<close>

theorem temporal_arithmetic_closed:
  "(add_days d k = Some r \<longleftrightarrow> r = d + k \<and> supported_date_days r)
   \<and> (add_days d (days_between d e) = (if supported_date_days e then Some e else None))
   \<and> (duration_add a b = Some s \<longleftrightarrow> s = a + b \<and> fits 128 s)
   \<and> (duration_sub a b = Some s \<longleftrightarrow> s = a - b \<and> fits 128 s)
   \<and> (instant_add_duration a b = Some s \<longleftrightarrow> s = a + b \<and> supported_instant_nanos s)
   \<and> (instant_sub_duration a b = Some s \<longleftrightarrow> s = a - b \<and> supported_instant_nanos s)"
proof -
  have "supported_date_days n \<Longrightarrow> fits 64 n \<and> fits 32 n" for n
    by (simp add: supported_date_days_def temporal_consts fits_def)
  moreover have "supported_instant_nanos n \<Longrightarrow> fits 128 n" for n
    by (simp add: supported_instant_nanos_def temporal_consts fits_def)
  ultimately show ?thesis
    by (auto simp: add_days_def days_between_def duration_add_def duration_sub_def
        instant_add_duration_def instant_sub_duration_def checked_def)
qed

end
