(* ===== verification/Ordered_Codec.thy ===== *)
theory Ordered_Codec
  imports Prelude
begin

text \<open>
  The contract of an order-preserving, self-delimiting codec, as the physical key layout relies
  on it: encodings of different values separate in value order whatever follows them, and the
  decoder reads back exactly the encodings. From it follow, once for every codec that meets it,
  injectivity, prefix-freeness and the column-major order of concatenated tuples.
\<close>

text \<open>Reading \<open>n\<close> values one after the other, requiring that nothing is left over.\<close>

fun decode_many :: "(bytes \<Rightarrow> ('k \<times> nat) option) \<Rightarrow> bytes \<Rightarrow> nat \<Rightarrow> 'k list option" where
  "decode_many dec rest 0 = (if rest = [] then Some [] else None)"
| "decode_many dec rest (Suc n) =
     (case dec rest of
        None \<Rightarrow> None
      | Some (k, used) \<Rightarrow>
          if used \<le> length rest then map_option ((#) k) (decode_many dec (drop used rest) n) else None)"

locale exact_codec =
  fixes enc :: "'k \<Rightarrow> bytes"
    and dec :: "bytes \<Rightarrow> ('k \<times> nat) option"
    and wf :: "'k \<Rightarrow> bool"
  assumes dec_enc: "wf k \<Longrightarrow> dec (enc k @ rest) = Some (k, length (enc k))"
    and dec_inv: "dec bs = Some (k, n)
                    \<Longrightarrow> \<exists>rest. bs = enc k @ rest \<and> n = length (enc k) \<and> wf k"
begin

lemma dec_iff: "dec bs = Some (k, n) \<longleftrightarrow> wf k \<and> n = length (enc k) \<and> prefix (enc k) bs"
  by (auto simp: prefix_def dec_enc dest: dec_inv)

lemma dec_self_delimiting: "wf k \<Longrightarrow> wf l \<Longrightarrow> enc k @ u = enc l @ v \<Longrightarrow> k = l \<and> u = v"
  using dec_enc [of k u] dec_enc [of l v] by auto

lemma decode_many_enc:
  "list_all wf ks \<Longrightarrow> decode_many dec (concat (map enc ks)) (length ks) = Some ks"
  by (induction ks) (auto simp: dec_enc)

lemma decode_many_iff:
  "decode_many dec bs n = Some ks
    \<longleftrightarrow> length ks = n \<and> list_all wf ks \<and> bs = concat (map enc ks)"
proof
  show "decode_many dec bs n = Some ks
    \<Longrightarrow> length ks = n \<and> list_all wf ks \<and> bs = concat (map enc ks)"
  proof (induction n arbitrary: bs ks)
    case (Suc n)
    then obtain k used ks' where "dec bs = Some (k, used)" "ks = k # ks'"
      "decode_many dec (drop used bs) n = Some ks'"
      by (auto split: option.splits if_splits)
    with Suc.IH [of "drop used bs" ks'] dec_inv [of bs k used] show ?case by auto
  qed (auto split: if_splits)
qed (auto simp: decode_many_enc)

end

locale ordered_codec = exact_codec enc dec wf
  for enc :: "'k::linorder \<Rightarrow> bytes"
    and dec :: "bytes \<Rightarrow> ('k \<times> nat) option"
    and wf :: "'k \<Rightarrow> bool" +
  assumes enc_not_Nil: "enc k \<noteq> []"
    and enc_separates: "k < l \<Longrightarrow> lex_lt (enc k) (enc l)"
begin

lemma enc_cases: "k = l \<or> lex_lt (enc k) (enc l) \<or> lex_lt (enc l) (enc k)"
  using enc_separates [of k l] enc_separates [of l k] by (cases k l rule: linorder_cases) auto

lemma enc_append_inject: "enc k @ u = enc l @ v \<longleftrightarrow> k = l \<and> u = v"
  using enc_cases [of k l] by (auto dest: lex_lt_append_less [of _ _ u v] lex_lt_append_less [of _ _ v u])

lemma enc_inject: "enc k = enc l \<longleftrightarrow> k = l"
  using enc_append_inject [of k "[]" l "[]"] by simp

lemma enc_append_less: "enc k @ u < enc l @ v \<longleftrightarrow> k < l \<or> k = l \<and> u < v"
  using enc_separates [of k l] enc_separates [of l k]
  by (cases k l rule: linorder_cases)
    (auto dest: lex_lt_append_less [of _ _ u v] lex_lt_append_less [of _ _ v u])

lemma enc_less_iff: "enc k < enc l \<longleftrightarrow> k < l"
  using enc_append_less [of k "[]" l "[]"] by simp

lemma enc_append_prefix: "prefix (enc k @ u) (enc l @ v) \<longleftrightarrow> k = l \<and> prefix u v"
  using enc_cases [of k l] lex_lt_not_prefix [of "enc k @ u" "enc l @ v"]
    lex_lt_not_prefix [of "enc l @ v" "enc k @ u"]
  by (auto dest: lex_lt_append [of _ _ u v] lex_lt_append [of _ _ v u])

abbreviation enc_tuple :: "'k list \<Rightarrow> bytes" where
  "enc_tuple ks \<equiv> concat (map enc ks)"

lemma enc_tuple_inject: "enc_tuple ks = enc_tuple ls \<longleftrightarrow> ks = ls"
proof (induction ks arbitrary: ls)
  case Nil
  then show ?case by (cases ls) (auto simp: enc_not_Nil)
next
  case (Cons k ks)
  then show ?case by (cases ls) (auto simp: enc_not_Nil enc_append_inject)
qed

lemma enc_tuple_less: "enc_tuple ks < enc_tuple ls \<longleftrightarrow> ks < ls"
proof (induction ks arbitrary: ls)
  case Nil
  then show ?case by (cases ls) (auto simp: enc_not_Nil)
next
  case (Cons k ks)
  then show ?case by (cases ls) (auto simp: enc_append_less)
qed

lemma enc_tuple_prefix: "prefix (enc_tuple ks) (enc_tuple ls) \<longleftrightarrow> prefix ks ls"
proof (induction ks arbitrary: ls)
  case (Cons k ks)
  then show ?case by (cases ls) (auto simp: enc_not_Nil enc_append_prefix)
qed simp

lemma enc_tuple_separates:
  "length ks = length ls \<Longrightarrow> ks < ls \<Longrightarrow> lex_lt (enc_tuple ks) (enc_tuple ls)"
  by (induction ks ls rule: list_induct2) (auto simp: enc_separates lex_lt_append)

lemma enc_tuple_append_inject:
  "length ks = length ls \<Longrightarrow> enc_tuple ks @ u = enc_tuple ls @ v \<longleftrightarrow> ks = ls \<and> u = v"
  by (induction ks ls rule: list_induct2) (auto simp: enc_append_inject)

end

end
