(* ===== verification/Varint.thy ===== *)
theory Varint
  imports Ordered_Codec
begin

text \<open>
  Minimal unsigned LEB128 lengths, \<open>marrow-kernel/src/codec/varint.rs\<close>. The group arithmetic runs
  on 64-bit words as in the source; the lemmas read it through \<open>unat\<close>.
\<close>

definition MAX_GROUPS :: nat where "MAX_GROUPS = 10"

lemma unat_drop_7: "unat (drop_bit 7 (v::u64)) = unat v div 128"
  by (simp add: drop_bit_eq_div unat_div)

function leb128 :: "u64 \<Rightarrow> bytes" where
  "leb128 val =
     (let group = ucast (val AND 0x7f) :: byte; val' = drop_bit 7 val
      in if val' = 0 then [group] else (group OR 0x80) # leb128 val')"
  by pat_completeness auto
termination
proof (relation "measure unat")
  fix val val' :: u64 and group :: byte
  assume val': "val' = drop_bit 7 val" and "val' \<noteq> 0"
  then have "unat val' \<noteq> 0" by (metis unat_eq_zero)
  moreover have "unat val' = unat val div 128" by (simp only: val' unat_drop_7)
  ultimately show "(val', val) \<in> measure unat" by simp
qed simp

declare leb128.simps [simp del]

definition encode_len :: "u64 \<Rightarrow> bytes \<Rightarrow> bytes" where
  "encode_len val out = out @ leb128 val"

text \<open>
  The loop of \<open>decode_len\<close>: \<open>n\<close> groups may still be read, the next one at \<open>index\<close>; the list holds
  the bytes from \<open>index\<close> on.
\<close>

fun decode_len_loop :: "nat \<Rightarrow> nat \<Rightarrow> u64 \<Rightarrow> nat \<Rightarrow> bytes \<Rightarrow> (u64 \<times> nat) option" where
  "decode_len_loop 0 index val shift bs = None"
| "decode_len_loop (Suc n) index val shift [] = None"
| "decode_len_loop (Suc n) index val shift (byte # rest) =
     (let group = ucast (byte AND 0x7f) :: u64
      in if shift \<ge> 64 \<or> (shift = 63 \<and> group > 1) then None
         else let val = val OR push_bit shift group
              in if byte AND 0x80 = 0
                 then (if index > 0 \<and> group = 0 then None else Some (val, index + 1))
                 else decode_len_loop n (index + 1) val (shift + 7) rest)"

definition decode_len :: "bytes \<Rightarrow> (u64 \<times> nat) option" where
  "decode_len bs = decode_len_loop MAX_GROUPS 0 0 0 bs"

section \<open>Groups as numbers\<close>

lemma unat_and_7f [simp]:
  "unat ((v::u64) AND 0x7f) = unat v mod 128"
  "unat ((b::byte) AND 0x7f) = unat b mod 128"
proof -
  have "v AND 0x7f = v AND mask 7" "b AND 0x7f = b AND mask 7" by (simp_all add: mask_eq_exp_minus_1)
  then show "unat (v AND 0x7f) = unat v mod 128" "unat (b AND 0x7f) = unat b mod 128"
    by (simp_all only: take_bit_eq_mod unat_mod flip: take_bit_eq_mask) simp_all
qed

lemma unat_group: "unat (ucast ((v::u64) AND 0x7f) :: byte) = unat v mod 128"
  unfolding unsigned_ucast_eq unat_and_7f by (simp add: take_bit_nat_eq_self)

lemma unat_group_u64: "unat (ucast ((b::byte) AND 0x7f) :: u64) = unat b mod 128"
  unfolding unsigned_ucast_eq unat_and_7f by (simp add: take_bit_nat_eq_self)

lemma and_80_iff: "(b::byte) AND 0x80 = 0 \<longleftrightarrow> unat b < 128"
proof -
  have "b AND 0x80 = b AND 2 ^ 7" by simp
  then have "b AND 0x80 = 0 \<longleftrightarrow> \<not> bit b 7" by (simp only: and_exp_eq_0_iff_not_bit)
  also have "bit b 7 \<longleftrightarrow> bit (unat b) 7" by (simp add: bit_unsigned_iff)
  also have "\<dots> \<longleftrightarrow> odd (unat b div 128)" by (simp add: bit_iff_odd)
  also have "\<dots> \<longleftrightarrow> \<not> unat b < 128"
  proof -
    have "unat b < 256" by simp
    then have "unat b div 128 = 0 \<or> unat b div 128 = 1" by linarith
    then show ?thesis by (auto simp: div_eq_0_iff)
  qed
  finally show ?thesis by simp
qed

lemma unat_or_80: "unat (b::byte) < 128 \<Longrightarrow> unat (b OR 0x80) = unat b + 128"
proof -
  assume b: "unat b < 128"
  then have "b AND 0x80 = 0" by (simp add: and_80_iff)
  then have "b OR 0x80 = b + 0x80" by (simp add: disjunctive_add_eq_or)
  with b show ?thesis by (simp add: unat_word_ariths)
qed

lemma unat_or_push_bit:
  fixes v g :: u64
  assumes "unat v < 2 ^ s" "unat g * 2 ^ s < 2 ^ 64"
  shows "unat (v OR push_bit s g) = unat v + unat g * 2 ^ s"
proof -
  have pb: "unat (push_bit s g) = push_bit s (unat g)"
    using assms(2) unfolding unsigned_push_bit_eq by (simp add: push_bit_eq_mult take_bit_nat_eq_self)
  have v: "take_bit s (unat v) = unat v" using assms(1) by (simp add: take_bit_nat_eq_self)
  have "unat v AND push_bit s (unat g) = 0"
    by (subst v [symmetric]) (rule bit_eqI, simp add: bit_simps)
  then have "unat v OR push_bit s (unat g) = unat v + push_bit s (unat g)"
    by (simp add: disjunctive_add_eq_or)
  then show ?thesis unfolding unsigned_or_eq pb by (simp add: push_bit_eq_mult)
qed

section \<open>The loops\<close>

lemma unat_of_nat_u64: "n < 2 ^ 64 \<Longrightarrow> unat (word_of_nat n :: u64) = n"
  by (simp add: unat_of_nat take_bit_nat_eq_self)

lemma unat_u64_less: "unat (v::u64) < 2 ^ 64"
proof -
  have "unat v < 2 ^ LENGTH(64)" by (rule unsigned_less)
  then show ?thesis by simp
qed

lemma unat_of_nat_byte: "n < 256 \<Longrightarrow> unat (word_of_nat n :: byte) = n"
  by (simp add: unat_of_nat take_bit_nat_eq_self)

lemma leb128_last: "unat v < 128 \<Longrightarrow> leb128 v = [word_of_nat (unat v)]"
proof -
  assume v: "unat v < 128"
  then have "unat (drop_bit 7 v) = 0" by (simp add: unat_drop_7)
  then have "drop_bit 7 v = 0" by (simp only: unat_eq_0)
  moreover have "ucast (v AND 0x7f) = (word_of_nat (unat v) :: byte)"
    using v unfolding word_unat_eq_iff unat_group
    by (simp add: unsigned_ucast_eq take_bit_nat_eq_self)
  ultimately show ?thesis by (simp add: leb128.simps [of v] Let_def)
qed

lemma leb128_more:
  assumes "128 \<le> unat v"
  shows "leb128 v = word_of_nat (unat v mod 128 + 128) # leb128 (word_of_nat (unat v div 128))"
proof -
  have "unat (drop_bit 7 v) \<noteq> 0" using assms by (simp add: unat_drop_7)
  then have nz: "drop_bit 7 v \<noteq> 0" by (metis unat_0)
  have "drop_bit 7 v = word_of_nat (unat v div 128)"
    by (simp only: word_unat_eq_iff flip: unat_drop_7) simp
  moreover have "(ucast (v AND 0x7f) OR 0x80 :: byte) = word_of_nat (unat v mod 128 + 128)"
  proof -
    have "unat (ucast (v AND 0x7f) OR 0x80 :: byte) = unat v mod 128 + 128"
      by (subst unat_or_80) (simp_all add: unat_group)
    moreover have "unat (word_of_nat (unat v mod 128 + 128) :: byte) = unat v mod 128 + 128"
      by (rule unat_of_nat_byte) simp
    ultimately show ?thesis by (simp only: word_unat_eq_iff)
  qed
  ultimately show ?thesis using nz by (subst leb128.simps) (simp add: Let_def)
qed

lemma leb128_not_Nil [simp]: "leb128 v \<noteq> []"
  by (cases "unat v < 128") (simp_all add: leb128_last leb128_more)

text \<open>The group at index \<open>i\<close> has room for \<open>64 - 7 i\<close> bits; the tenth for one.\<close>

lemma group_fits:
  assumes "g < 128" "i \<le> 9" "i = 9 \<longrightarrow> g \<le> 1"
  shows "g * 2 ^ (7 * i) < (2::nat) ^ 64"
proof (cases "i = 9")
  case True
  with assms have "g * 2 ^ (7 * i) \<le> 1 * 2 ^ 63" by (intro mult_le_mono) simp_all
  then show ?thesis by simp
next
  case False
  with assms have "(2::nat) ^ (7 * i) \<le> 2 ^ 56" by (intro power_increasing) simp_all
  with assms have "g * 2 ^ (7 * i) \<le> 127 * 2 ^ 56" by (intro mult_le_mono) simp_all
  then show ?thesis by simp
qed

lemma decode_len_step:
  fixes acc :: u64
  assumes "unat acc < 2 ^ (7 * i)" "i \<le> 9" "i = 9 \<longrightarrow> unat b mod 128 \<le> 1"
  defines "acc' \<equiv> acc OR push_bit (7 * i) (ucast (b AND 0x7f))"
  shows "decode_len_loop (Suc n) i acc (7 * i) (b # rest) =
      (if unat b < 128 then (if i > 0 \<and> unat b = 0 then None else Some (acc', i + 1))
       else decode_len_loop n (i + 1) acc' (7 * (i + 1)) rest)"
    and "unat acc' = unat acc + unat b mod 128 * 2 ^ (7 * i)"
    and "unat acc' < 2 ^ (7 * (i + 1))"
proof -
  let ?g = "ucast (b AND 0x7f) :: u64"
  have g: "unat ?g = unat b mod 128" by (rule unat_group_u64)
  have guard: "\<not> (7 * i \<ge> 64 \<or> 7 * i = 63 \<and> ?g > 1)"
    using assms(2,3) by (auto simp: word_less_nat_alt unat_group_u64)
  have zero: "?g = 0 \<longleftrightarrow> unat b mod 128 = 0" unfolding g [symmetric] by (simp only: unat_eq_zero)
  show "decode_len_loop (Suc n) i acc (7 * i) (b # rest) =
      (if unat b < 128 then (if i > 0 \<and> unat b = 0 then None else Some (acc', i + 1))
       else decode_len_loop n (i + 1) acc' (7 * (i + 1)) rest)"
    using guard zero by (auto simp: Let_def and_80_iff acc'_def add.commute)
  show eq: "unat acc' = unat acc + unat b mod 128 * 2 ^ (7 * i)"
    unfolding acc'_def g [symmetric]
    by (rule unat_or_push_bit) (use assms g group_fits [of "unat b mod 128" i] in auto)
  have "unat b mod 128 \<le> 127" by (simp add: less_Suc_eq_le [symmetric])
  then have "unat b mod 128 * 2 ^ (7 * i) \<le> 127 * 2 ^ (7 * i)" by (rule mult_le_mono1)
  moreover have "(2::nat) ^ (7 * (i + 1)) = 128 * 2 ^ (7 * i)" by (simp add: power_add)
  ultimately show "unat acc' < 2 ^ (7 * (i + 1))" using eq assms(1) by linarith
qed

lemma room_tenth: "unat v < 2 ^ (64 - 7 * i) \<Longrightarrow> i = 9 \<Longrightarrow> unat v \<le> 1"
  by auto

lemma room_shrinks: "(n::nat) < 2 ^ (64 - 7 * i) \<Longrightarrow> 128 \<le> n \<Longrightarrow> i < 9 \<and> n div 128 < 2 ^ (64 - 7 * (i + 1))"
proof (cases "i < 9")
  case True
  assume "n < 2 ^ (64 - 7 * i)"
  also have "64 - 7 * i = 7 + (64 - 7 * (i + 1))" using True by simp
  finally have "n < 2 ^ (64 - 7 * (i + 1)) * 128" by (simp only: power_add) simp
  then show ?thesis using True by (simp only: less_mult_imp_div_less)
next
  case False
  assume "n < 2 ^ (64 - 7 * i)" "128 \<le> n"
  moreover have "(2::nat) ^ (64 - 7 * i) \<le> 2 ^ 1" using False by (intro power_increasing) auto
  ultimately show ?thesis by simp
qed

lemma decode_len_loop_enc:
  assumes "unat v < 2 ^ (64 - 7 * i)" "unat acc < 2 ^ (7 * i)" "i \<le> 9" "i > 0 \<longrightarrow> unat v \<noteq> 0"
  shows "\<exists>w. decode_len_loop (10 - i) i acc (7 * i) (leb128 v @ rest) = Some (w, i + length (leb128 v))
           \<and> unat w = unat acc + unat v * 2 ^ (7 * i)"
  using assms
proof (induction "unat v" arbitrary: v i acc rule: less_induct)
  case less
  have fuel: "10 - i = Suc (9 - i)" using less.prems by simp
  show ?case
  proof (cases "unat v < 128")
    case True
    let ?b = "word_of_nat (unat v) :: byte"
    have b: "unat ?b = unat v" using True by (intro unat_of_nat_byte) simp
    have mod: "unat ?b mod 128 = unat v" unfolding b using True by simp
    have tenth: "i = 9 \<longrightarrow> unat ?b mod 128 \<le> 1" unfolding mod using room_tenth less.prems(1) by blast
    note step = decode_len_step [OF less.prems(2,3) tenth]
    show ?thesis
      unfolding fuel leb128_last [OF True] append.simps step(1) b
      using True less.prems(4) step(2) unfolding mod by auto
  next
    case False
    let ?b = "word_of_nat (unat v mod 128 + 128) :: byte"
    let ?v = "word_of_nat (unat v div 128) :: u64"
    have b: "unat ?b = unat v mod 128 + 128" by (intro unat_of_nat_byte) simp
    have room: "i < 9" "unat v div 128 < 2 ^ (64 - 7 * (i + 1))"
      using room_shrinks [OF less.prems(1)] False by auto
    have v': "unat ?v = unat v div 128"
      by (intro unat_of_nat_u64 order.strict_trans1 [OF div_le_dividend]) (rule unat_u64_less)
    have mod: "unat ?b mod 128 = unat v mod 128" unfolding b by simp
    have tenth: "i = 9 \<longrightarrow> unat ?b mod 128 \<le> 1" using room by simp
    note step = decode_len_step [OF less.prems(2,3) tenth]
    have "\<exists>w. decode_len_loop (10 - (i + 1)) (i + 1) (acc OR push_bit (7 * i) (ucast (?b AND 0x7f))) (7 * (i + 1)) (leb128 ?v @ rest)
                = Some (w, i + 1 + length (leb128 ?v))
           \<and> unat w = unat (acc OR push_bit (7 * i) (ucast (?b AND 0x7f))) + unat ?v * 2 ^ (7 * (i + 1))"
    proof (rule less.hyps)
      show "unat ?v < unat v" "unat ?v < 2 ^ (64 - 7 * (i + 1))" "0 < i + 1 \<longrightarrow> unat ?v \<noteq> 0"
        unfolding v' using False room(2) by (simp_all add: div_greater_zero_iff)
      show "i + 1 \<le> 9" using room by simp
    qed (rule step(3))
    moreover have "unat v mod 128 * 2 ^ (7 * i) + unat v div 128 * 2 ^ (7 * (i + 1)) = unat v * 2 ^ (7 * i)"
    proof -
      have "unat v mod 128 * 2 ^ (7 * i) + unat v div 128 * 2 ^ (7 * (i + 1))
          = (unat v mod 128 + unat v div 128 * 128) * 2 ^ (7 * i)"
        unfolding distrib_right by (simp add: power_add)
      also have "unat v mod 128 + unat v div 128 * 128 = unat v" by (rule mod_div_mult_eq)
      finally show ?thesis .
    qed
    ultimately show ?thesis
      unfolding fuel leb128_more [OF False [unfolded not_less]] append.simps step(1) step(2) b mod v' by auto
  qed
qed

lemma decode_len_encode: "decode_len (leb128 v @ rest) = Some (v, length (leb128 v))"
proof -
  have "unat v < 2 ^ (64 - 7 * 0)" using unsigned_less [of v] by simp
  from decode_len_loop_enc [OF this, of 0 rest] show ?thesis
    by (auto simp: decode_len_def MAX_GROUPS_def word_unat_eq_iff)
qed

lemma decode_len_loop_inv:
  assumes "decode_len_loop n i acc (7 * i) bs = Some (w, m)" "n = 10 - i" "i \<le> 10" "unat acc < 2 ^ (7 * i)"
  shows "\<exists>v rest. bs = leb128 v @ rest \<and> m = i + length (leb128 v) \<and> (i > 0 \<longrightarrow> unat v \<noteq> 0)
           \<and> unat v < 2 ^ (64 - 7 * i) \<and> unat w = unat acc + unat v * 2 ^ (7 * i)"
  using assms
proof (induction n arbitrary: i acc bs)
  case (Suc n)
  from Suc.prems(1) obtain b r where bs: "bs = b # r" by (cases bs) auto
  have i: "i \<le> 9" using Suc.prems by simp
  have tenth: "i = 9 \<longrightarrow> unat b mod 128 \<le> 1"
    using Suc.prems(1) by (auto simp: bs Let_def word_less_nat_alt unat_group_u64 split: if_splits)
  note step = decode_len_step [OF Suc.prems(4) i tenth]
  let ?acc = "acc OR push_bit (7 * i) (ucast (b AND 0x7f))"
  show ?case
  proof (cases "unat b < 128")
    case True
    let ?v = "word_of_nat (unat b) :: u64"
    have v: "unat ?v = unat b" using True by (intro unat_of_nat_u64) simp
    have "unat b < 2 ^ (64 - 7 * i)"
    proof (cases "i = 9")
      case True
      with tenth \<open>unat b < 128\<close> show ?thesis by simp
    next
      case False
      with i have "(2::nat) ^ 7 \<le> 2 ^ (64 - 7 * i)" by (intro power_increasing) auto
      with True show ?thesis by simp
    qed
    moreover have "leb128 ?v = [b]" using leb128_last [of ?v] True by (simp only: v) simp
    ultimately show ?thesis using Suc.prems(1) step(1,2) True
      by (intro exI [of _ ?v] exI [of _ r]) (simp only: bs v, auto split: if_splits)
  next
    case False
    have loop: "decode_len_loop n (i + 1) ?acc (7 * (i + 1)) r = Some (w, m)"
      using Suc.prems(1) False unfolding bs step(1) by (simp only: if_False)
    have n: "n = 10 - (i + 1)" "i + 1 \<le> 10" using Suc.prems(2) i by simp_all
    from Suc.IH [OF loop n step(3)] obtain v rest where
      v: "r = leb128 v @ rest" "m = i + 1 + length (leb128 v)" "unat v \<noteq> 0"
      "unat v < 2 ^ (64 - 7 * (i + 1))" "unat w = unat ?acc + unat v * 2 ^ (7 * (i + 1))"
      by (metis zero_less_Suc Suc_eq_plus1)
    let ?n = "unat b mod 128 + 128 * unat v"
    let ?v = "word_of_nat ?n :: u64"
    have i8: "i < 9"
    proof (rule ccontr)
      assume "\<not> i < 9"
      then have "64 - 7 * (i + 1) = 0" by simp
      with v(3,4) show False by simp
    qed
    have "?n < 128 * 2 ^ (64 - 7 * (i + 1))"
      using v(4) by (simp add: mod_less_divisor less_le_trans [OF _ mult_le_mono2 [of "unat v + 1"]])
    also have "\<dots> = 2 ^ (64 - 7 * i)"
    proof -
      have "64 - 7 * i = 7 + (64 - 7 * (i + 1))" using i8 by simp
      then show ?thesis by (simp only: power_add) simp
    qed
    finally have n: "?n < 2 ^ (64 - 7 * i)" .
    also have "(2::nat) ^ (64 - 7 * i) \<le> 2 ^ 64" by (rule power_increasing) simp_all
    finally have un: "unat ?v = ?n" by (rule unat_of_nat_u64)
    have "leb128 ?v = b # leb128 v"
    proof -
      have "128 \<le> unat ?v" unfolding un using v(3) by simp
      moreover have "?n div 128 = unat v" "?n mod 128 = unat b mod 128" by simp_all
      moreover have "unat b mod 128 + 128 = unat b"
      proof -
        have "unat b mod 128 = (unat b - 128) mod 128" using False by (simp add: le_mod_geq)
        also have "\<dots> = unat b - 128" using unat_byte_less [of b] by (intro mod_less) linarith
        finally show ?thesis using False by simp
      qed
      ultimately show ?thesis by (simp only: leb128_more un) simp
    qed
    moreover have "unat w = unat acc + ?n * 2 ^ (7 * i)"
      unfolding v(5) step(2) by (simp add: power_add algebra_simps)
    ultimately show ?thesis using v(1,2,3) n
      by (intro exI [of _ ?v] exI [of _ rest]) (simp only: un bs, simp)
  qed
qed simp


section \<open>The length codec is exact\<close>

lemma decode_len_inv:
  assumes "decode_len bs = Some (v, n)"
  shows "\<exists>rest. bs = leb128 v @ rest \<and> n = length (leb128 v)"
proof -
  from assms have "decode_len_loop 10 0 0 (7 * 0) bs = Some (v, n)"
    by (simp add: decode_len_def MAX_GROUPS_def)
  from decode_len_loop_inv [OF this] show ?thesis by (auto simp flip: word_unat_eq_iff)
qed

interpretation lengths: exact_codec leb128 decode_len "\<lambda>_. True"
  by unfold_locales (auto simp: decode_len_encode dest: decode_len_inv)

text \<open>
  C3. A length decodes exactly from its one minimal encoding: what \<open>encode_len\<close> appends reads back
  whatever follows it, and a truncated, padded, overlong or overflowing run is never accepted.
\<close>

theorem decode_len_exact:
  "decode_len bs = Some (v, n) \<longleftrightarrow> n = length (encode_len v []) \<and> prefix (encode_len v []) bs"
  using lengths.dec_iff [of bs v n] by (simp add: encode_len_def)

end
