(* ===== verification/Key_Codec.thy ===== *)
theory Key_Codec
  imports Ordered_Codec
begin

text \<open>
  The order-preserving key codec, \<open>marrow-kernel/src/codec/key.rs\<close>: typed key values, their
  order, the tag-prefixed byte encoding with its \<open>0x00\<close> escape framing, the decoder, and the
  encoding of composite key tuples. The locale at the end states what the physical layer relies
  on: an encoder whose images separate in key order and a decoder that reads them back.
\<close>

section \<open>Scalar kinds and key values\<close>

datatype ScalarKind = SkBool | SkInt | SkStr | SkBytes | SkDate | SkDuration | SkInstant

datatype KeyScalar =
    KInt i64
  | KBool bool
  | KStr bytes
  | KDate i32
  | KDuration i128
  | KInstant i128
  | KBytes bytes

fun key_scalar_kind :: "KeyScalar \<Rightarrow> ScalarKind" where
  "key_scalar_kind (KBool _) = SkBool"
| "key_scalar_kind (KInt _) = SkInt"
| "key_scalar_kind (KStr _) = SkStr"
| "key_scalar_kind (KBytes _) = SkBytes"
| "key_scalar_kind (KDate _) = SkDate"
| "key_scalar_kind (KDuration _) = SkDuration"
| "key_scalar_kind (KInstant _) = SkInstant"

datatype KeyKind = KkBool | KkInt | KkDate | KkInstant | KkDuration | KkStr | KkBytes

text \<open>The derived \<open>Ord\<close> of \<open>KeyKind\<close> is declaration order.\<close>

fun kind_rank :: "KeyKind \<Rightarrow> nat" where
  "kind_rank KkBool = 0"
| "kind_rank KkInt = 1"
| "kind_rank KkDate = 2"
| "kind_rank KkInstant = 3"
| "kind_rank KkDuration = 4"
| "kind_rank KkStr = 5"
| "kind_rank KkBytes = 6"

fun key_kind :: "KeyScalar \<Rightarrow> KeyKind" where
  "key_kind (KBool _) = KkBool"
| "key_kind (KInt _) = KkInt"
| "key_kind (KDate _) = KkDate"
| "key_kind (KInstant _) = KkInstant"
| "key_kind (KDuration _) = KkDuration"
| "key_kind (KStr _) = KkStr"
| "key_kind (KBytes _) = KkBytes"

definition KEY_BOOL :: byte where "KEY_BOOL = 0x01"
definition KEY_INT :: byte where "KEY_INT = 0x02"
definition KEY_DATE :: byte where "KEY_DATE = 0x03"
definition KEY_INSTANT :: byte where "KEY_INSTANT = 0x04"
definition KEY_DURATION :: byte where "KEY_DURATION = 0x05"
definition KEY_STR :: byte where "KEY_STR = 0x07"
definition KEY_BYTES :: byte where "KEY_BYTES = 0x08"

lemmas key_tags = KEY_BOOL_def KEY_INT_def KEY_DATE_def KEY_INSTANT_def KEY_DURATION_def
  KEY_STR_def KEY_BYTES_def

fun kind_tag :: "KeyKind \<Rightarrow> byte" where
  "kind_tag KkBool = KEY_BOOL"
| "kind_tag KkInt = KEY_INT"
| "kind_tag KkDate = KEY_DATE"
| "kind_tag KkInstant = KEY_INSTANT"
| "kind_tag KkDuration = KEY_DURATION"
| "kind_tag KkStr = KEY_STR"
| "kind_tag KkBytes = KEY_BYTES"

definition order_tag :: "KeyScalar \<Rightarrow> byte" where
  "order_tag k = kind_tag (key_kind k)"

fun key_cmp :: "KeyScalar \<Rightarrow> KeyScalar \<Rightarrow> ordering" where
  "key_cmp (KBool l) (KBool r) = cmp l r"
| "key_cmp (KInt l) (KInt r) = cmp (sint l) (sint r)"
| "key_cmp (KDate l) (KDate r) = cmp (sint l) (sint r)"
| "key_cmp (KInstant l) (KInstant r) = cmp (sint l) (sint r)"
| "key_cmp (KDuration l) (KDuration r) = cmp (sint l) (sint r)"
| "key_cmp (KStr l) (KStr r) = cmp l r"
| "key_cmp (KBytes l) (KBytes r) = cmp l r"
| "key_cmp l r = cmp (kind_rank (key_kind l)) (kind_rank (key_kind r))"

section \<open>Encoding\<close>

fun encode_escaped_bytes :: "bytes \<Rightarrow> bytes" where
  "encode_escaped_bytes [] = [0x00, 0x00]"
| "encode_escaped_bytes (b # bs) =
     (if b = 0x00 then b # 0x01 # encode_escaped_bytes bs else b # encode_escaped_bytes bs)"

fun encode_key_payload :: "KeyScalar \<Rightarrow> bytes" where
  "encode_key_payload (KBool v) = [if v then 1 else 0]"
| "encode_key_payload (KInt v) = be_bytes (flip_sign v)"
| "encode_key_payload (KDate v) = be_bytes (flip_sign v)"
| "encode_key_payload (KDuration v) = be_bytes (flip_sign v)"
| "encode_key_payload (KInstant v) = be_bytes (flip_sign v)"
| "encode_key_payload (KStr v) = encode_escaped_bytes v"
| "encode_key_payload (KBytes v) = encode_escaped_bytes v"

definition encode_key_into :: "KeyScalar \<Rightarrow> bytes \<Rightarrow> bytes" where
  "encode_key_into k out = out @ order_tag k # encode_key_payload k"

definition encode_key_value :: "KeyScalar \<Rightarrow> bytes" where
  "encode_key_value k = encode_key_into k []"

definition encode_key_tuple :: "KeyScalar list \<Rightarrow> bytes" where
  "encode_key_tuple ks = fold encode_key_into ks []"

section \<open>Decoding\<close>

text \<open>The loop of \<open>decode_escaped_bytes\<close>, with the decoded bytes and the index as accumulators.\<close>

fun decode_escaped_loop :: "bytes \<Rightarrow> bytes \<Rightarrow> nat \<Rightarrow> (bytes \<times> nat) option" where
  "decode_escaped_loop [] acc i = None"
| "decode_escaped_loop (b # rest) acc i =
     (if b = 0x00 then
        (case rest of
           [] \<Rightarrow> None
         | c # rest' \<Rightarrow>
             if c = 0x00 then Some (acc, i + 2)
             else if c = 0x01 then decode_escaped_loop rest' (acc @ [0x00]) (i + 2)
             else None)
      else decode_escaped_loop rest (acc @ [b]) (i + 1))"

definition decode_escaped_bytes :: "bytes \<Rightarrow> (bytes \<times> nat) option" where
  "decode_escaped_bytes bs = decode_escaped_loop bs [] 0"

text \<open>\<open>bytes.get(a..b)\<close>: a slice, or nothing when it runs past the end.\<close>

definition get_range :: "bytes \<Rightarrow> nat \<Rightarrow> nat \<Rightarrow> bytes option" where
  "get_range bs a b = (if a \<le> b \<and> b \<le> length bs then Some (take (b - a) (drop a bs)) else None)"

definition decode_fixed :: "bytes \<Rightarrow> nat \<Rightarrow> ('a::len word \<Rightarrow> KeyScalar) \<Rightarrow> (KeyScalar \<times> nat) option" where
  "decode_fixed bs n C =
     (case get_range bs 1 (1 + n) of
        None \<Rightarrow> None
      | Some raw \<Rightarrow> Some (C (flip_sign (of_be_bytes raw)), 1 + n))"

definition decode_key_value :: "bytes \<Rightarrow> (KeyScalar \<times> nat) option" where
  "decode_key_value bs =
     (case bs of
        [] \<Rightarrow> None
      | tag # rest \<Rightarrow>
          if tag = KEY_BOOL then
            (case rest of
               [] \<Rightarrow> None
             | b # _ \<Rightarrow> if b = 0 then Some (KBool False, 2)
                        else if b = 1 then Some (KBool True, 2) else None)
          else if tag = KEY_INT then decode_fixed bs 8 KInt
          else if tag = KEY_DATE then decode_fixed bs 4 KDate
          else if tag = KEY_DURATION then decode_fixed bs 16 KDuration
          else if tag = KEY_INSTANT then decode_fixed bs 16 KInstant
          else if tag = KEY_STR then
            (case decode_escaped_bytes rest of
               None \<Rightarrow> None
             | Some (d, used) \<Rightarrow> (case from_utf8 d of None \<Rightarrow> None | Some s \<Rightarrow> Some (KStr s, 1 + used)))
          else if tag = KEY_BYTES then
            (case decode_escaped_bytes rest of
               None \<Rightarrow> None
             | Some (d, used) \<Rightarrow> Some (KBytes d, 1 + used))
          else None)"

text \<open>The invariant of Rust's \<open>String\<close>: a string key holds UTF-8.\<close>

fun key_wf :: "KeyScalar \<Rightarrow> bool" where
  "key_wf (KStr s) = utf8_valid s"
| "key_wf _ = True"

section \<open>Encodings separate in key order\<close>

lemma encode_key_value_simp [codec_simps]: "encode_key_value k = order_tag k # encode_key_payload k"
  by (simp add: encode_key_value_def encode_key_into_def)

lemma encode_key_value_not_Nil [simp]: "encode_key_value k \<noteq> []"
  by (simp add: encode_key_value_simp)

lemma fold_encode_key_into: "fold encode_key_into ks out = out @ concat (map encode_key_value ks)"
  by (induction ks arbitrary: out) (simp_all add: encode_key_into_def encode_key_value_simp)

lemma encode_key_tuple_concat: "encode_key_tuple ks = concat (map encode_key_value ks)"
  by (simp add: encode_key_tuple_def fold_encode_key_into)

lemma encode_key_tuple_simps [simp]:
  "encode_key_tuple [] = []"
  "encode_key_tuple (k # ks) = encode_key_value k @ encode_key_tuple ks"
  "encode_key_tuple (ks @ ls) = encode_key_tuple ks @ encode_key_tuple ls"
  by (simp_all add: encode_key_tuple_concat)

lemma byte_pos_iff: "(0::byte) < b \<longleftrightarrow> b \<noteq> 0"
  by (simp add: word_neq_0_conv)

lemma escaped_separates: "u < v \<Longrightarrow> lex_lt (encode_escaped_bytes u) (encode_escaped_bytes v)"
proof (induction u arbitrary: v)
  case Nil
  then obtain b v' where "v = b # v'" by (cases v) auto
  then show ?case by (auto simp: byte_pos_iff)
next
  case (Cons a u)
  then obtain b v' where v: "v = b # v'" by (cases v) auto
  with Cons.prems consider "a < b" | "a = b" "u < v'" by auto
  then show ?case
  proof cases
    case 1
    then show ?thesis using v by (auto simp: byte_pos_iff)
  qed (use v Cons.IH [of v'] in auto)
qed

lemma flip_sign_separates:
  fixes v w :: "'a::len word"
  shows "8 dvd LENGTH('a) \<Longrightarrow> sint v < sint w
    \<Longrightarrow> lex_lt (be_bytes (flip_sign v)) (be_bytes (flip_sign w))"
  by (rule be_bytes_mono) (simp_all add: flip_sign_less_iff)

lemma tag_rank: "kind_tag a < kind_tag b \<longleftrightarrow> kind_rank a < kind_rank b"
  by (cases a; cases b) (simp_all add: key_tags)

lemma key_cmp_Less_separates: "key_cmp k l = Less \<Longrightarrow> lex_lt (encode_key_value k) (encode_key_value l)"
  by (cases k; cases l)
    (auto simp: encode_key_value_simp order_tag_def flip_sign_separates escaped_separates key_tags)

lemma key_cmp_Equal [simp]: "key_cmp k l = Equal \<longleftrightarrow> k = l"
  by (cases k; cases l) auto

lemma key_cmp_swap: "key_cmp l k = (case key_cmp k l of Less \<Rightarrow> Greater | Equal \<Rightarrow> Equal | Greater \<Rightarrow> Less)"
  by (cases k; cases l) (auto simp: cmp_def)

lemma key_cmp_Greater_iff: "key_cmp k l = Greater \<longleftrightarrow> key_cmp l k = Less"
  using key_cmp_swap [of l k] key_cmp_Equal [of k l] by (auto split: ordering.splits simp del: key_cmp_Equal)

lemma key_cmp_bytes: "key_cmp k l = cmp (encode_key_value k) (encode_key_value l)"
proof (cases "key_cmp k l")
  case Less
  then show ?thesis by (auto simp: cmp_def dest: key_cmp_Less_separates lex_lt_less)
next
  case Equal
  then show ?thesis by (auto simp: cmp_def)
next
  case Greater
  then have "encode_key_value l < encode_key_value k"
    by (auto simp: key_cmp_Greater_iff dest: key_cmp_Less_separates lex_lt_less)
  with Greater show ?thesis by (auto simp: cmp_def)
qed

lemma encode_key_value_inject [simp]: "encode_key_value k = encode_key_value l \<longleftrightarrow> k = l"
  using key_cmp_bytes [of k l] by (metis cmp_Equal key_cmp_Equal)

text \<open>Key values are a linear order, so the library's sorting facts apply to lists of keys.\<close>

instantiation KeyScalar :: linorder
begin

definition less_KeyScalar :: "KeyScalar \<Rightarrow> KeyScalar \<Rightarrow> bool" where
  "k < l \<longleftrightarrow> key_cmp k l = Less"

definition less_eq_KeyScalar :: "KeyScalar \<Rightarrow> KeyScalar \<Rightarrow> bool" where
  "k \<le> l \<longleftrightarrow> key_cmp k l \<noteq> Greater"

instance
  by standard
    (auto simp: less_KeyScalar_def less_eq_KeyScalar_def key_cmp_bytes not_less le_less)

end

lemma key_less_separates: "k < l \<Longrightarrow> lex_lt (encode_key_value k) (encode_key_value l)"
  by (simp add: less_KeyScalar_def key_cmp_Less_separates)

lemma key_less_iff_bytes: "k < l \<longleftrightarrow> encode_key_value k < encode_key_value l"
  by (simp add: less_KeyScalar_def key_cmp_bytes)

lemma key_cmp_cmp: "key_cmp k l = cmp k l"
  by (auto simp: cmp_def less_KeyScalar_def key_cmp_bytes)

section \<open>Decoding reads encodings back, and only encodings\<close>

lemma decode_escaped_loop_encode:
  "decode_escaped_loop (encode_escaped_bytes v @ rest) acc i
     = Some (acc @ v, i + length (encode_escaped_bytes v))"
  by (induction v arbitrary: acc i) auto

lemma decode_escaped_encode [codec_simps]:
  "decode_escaped_bytes (encode_escaped_bytes v @ rest) = Some (v, length (encode_escaped_bytes v))"
  by (simp add: decode_escaped_bytes_def decode_escaped_loop_encode)

lemma decode_escaped_loop_inv:
  "decode_escaped_loop bs acc i = Some (d, n)
    \<Longrightarrow> \<exists>v rest. bs = encode_escaped_bytes v @ rest \<and> d = acc @ v \<and> n = i + length (encode_escaped_bytes v)"
proof (induction bs acc i rule: decode_escaped_loop.induct)
  case (2 b rest acc i)
  show ?case
  proof (cases "b = 0")
    case False
    with "2.prems" "2.IH"(2) obtain v r where
      "rest = encode_escaped_bytes v @ r" "d = acc @ b # v" "n = i + 1 + length (encode_escaped_bytes v)"
      by auto
    with False show ?thesis by (intro exI [of _ "b # v"] exI [of _ r]) auto
  next
    case True
    then obtain c rest' where rest: "rest = c # rest'" using "2.prems" by (cases rest) auto
    show ?thesis
    proof (cases "c = 0")
      case True
      with \<open>b = 0\<close> rest "2.prems" show ?thesis by (intro exI [of _ "[]"] exI [of _ rest']) auto
    next
      case False
      with \<open>b = 0\<close> rest "2.prems" have c: "c = 1" by (auto split: if_splits)
      with \<open>b = 0\<close> rest "2.prems" "2.IH"(1) [of c rest'] obtain v r where
        "rest' = encode_escaped_bytes v @ r" "d = acc @ 0 # v" "n = i + 2 + length (encode_escaped_bytes v)"
        by auto
      with \<open>b = 0\<close> c rest show ?thesis by (intro exI [of _ "0 # v"] exI [of _ r]) auto
    qed
  qed
qed simp

lemma decode_escaped_inv:
  "decode_escaped_bytes bs = Some (d, n)
    \<Longrightarrow> \<exists>rest. bs = encode_escaped_bytes d @ rest \<and> n = length (encode_escaped_bytes d)"
  using decode_escaped_loop_inv [of bs "[]" 0 d n] by (auto simp: decode_escaped_bytes_def)

lemma decode_fixed_encode:
  fixes v :: "'a::len word"
  assumes "8 dvd LENGTH('a)" "n = LENGTH('a) div 8"
  shows "decode_fixed (t # be_bytes (flip_sign v) @ rest) n C = Some (C v, 1 + n)"
  using assms by (simp add: decode_fixed_def get_range_def of_be_be_bytes)

lemma decode_fixed_inv:
  fixes C :: "'a::len word \<Rightarrow> KeyScalar"
  assumes "decode_fixed (t # bs) n C = Some (k, m)" "8 dvd LENGTH('a)" "n = LENGTH('a) div 8"
  shows "\<exists>v rest. k = C v \<and> bs = be_bytes (flip_sign v) @ rest \<and> m = 1 + n"
proof -
  from assms(1) have "n \<le> length bs" "k = C (flip_sign (of_be_bytes (take n bs)))" "m = 1 + n"
    by (auto simp: decode_fixed_def get_range_def split: if_splits)
  moreover from this assms have "be_bytes (of_be_bytes (take n bs) :: 'a word) = take n bs"
    by (simp add: be_bytes_of_be)
  ultimately show ?thesis
    by (intro exI [of _ "flip_sign (of_be_bytes (take n bs))"] exI [of _ "drop n bs"]) simp
qed

lemma decode_encode_key [codec_simps]:
  "key_wf k \<Longrightarrow> decode_key_value (encode_key_value k @ rest) = Some (k, length (encode_key_value k))"
  by (cases k)
    (simp_all add: decode_key_value_def encode_key_value_simp order_tag_def key_tags decode_fixed_encode
      decode_escaped_encode from_utf8_def)

lemma decode_key_inv:
  assumes "decode_key_value bs = Some (k, n)"
  shows "\<exists>rest. bs = encode_key_value k @ rest \<and> n = length (encode_key_value k) \<and> key_wf k"
proof (cases bs)
  case Nil
  with assms show ?thesis by (simp add: decode_key_value_def)
next
  case (Cons t r)
  note d = assms [unfolded decode_key_value_def Cons list.case]
  consider "t = KEY_BOOL" | "t = KEY_INT" | "t = KEY_DATE" | "t = KEY_DURATION" | "t = KEY_INSTANT"
    | "t = KEY_STR" | "t = KEY_BYTES"
    using d by (auto split: if_splits)
  then show ?thesis
  proof cases
    case 1
    with d show ?thesis
      by (auto simp: Cons encode_key_value_simp order_tag_def split: list.splits if_splits)
  next
    case 2
    with d have "decode_fixed (t # r) 8 KInt = Some (k, n)" by (simp add: key_tags)
    then have "\<exists>v rest. k = KInt v \<and> r = be_bytes (flip_sign v) @ rest \<and> n = 1 + 8"
      by (rule decode_fixed_inv) simp_all
    with 2 show ?thesis by (auto simp: Cons encode_key_value_simp order_tag_def)
  next
    case 3
    with d have "decode_fixed (t # r) 4 KDate = Some (k, n)" by (simp add: key_tags)
    then have "\<exists>v rest. k = KDate v \<and> r = be_bytes (flip_sign v) @ rest \<and> n = 1 + 4"
      by (rule decode_fixed_inv) simp_all
    with 3 show ?thesis by (auto simp: Cons encode_key_value_simp order_tag_def)
  next
    case 4
    with d have "decode_fixed (t # r) 16 KDuration = Some (k, n)" by (simp add: key_tags)
    then have "\<exists>v rest. k = KDuration v \<and> r = be_bytes (flip_sign v) @ rest \<and> n = 1 + 16"
      by (rule decode_fixed_inv) simp_all
    with 4 show ?thesis by (auto simp: Cons encode_key_value_simp order_tag_def)
  next
    case 5
    with d have "decode_fixed (t # r) 16 KInstant = Some (k, n)" by (simp add: key_tags)
    then have "\<exists>v rest. k = KInstant v \<and> r = be_bytes (flip_sign v) @ rest \<and> n = 1 + 16"
      by (rule decode_fixed_inv) simp_all
    with 5 show ?thesis by (auto simp: Cons encode_key_value_simp order_tag_def)
  next
    case 6
    with d show ?thesis
      by (auto simp: Cons encode_key_value_simp order_tag_def key_tags from_utf8_def
          dest!: decode_escaped_inv split: option.splits prod.splits if_splits)
  next
    case 7
    with d show ?thesis
      by (auto simp: Cons encode_key_value_simp order_tag_def key_tags
          dest!: decode_escaped_inv split: option.splits prod.splits)
  qed
qed

section \<open>The key codec is an ordered codec\<close>

interpretation keys: ordered_codec encode_key_value decode_key_value key_wf
  by unfold_locales (auto simp: key_less_separates decode_encode_key dest: decode_key_inv)

lemmas tuple_less_iff = keys.enc_tuple_less [folded encode_key_tuple_concat]
lemmas tuple_inject = keys.enc_tuple_inject [folded encode_key_tuple_concat]
lemmas tuple_prefix_iff = keys.enc_tuple_prefix [folded encode_key_tuple_concat]
lemmas tuple_separates = keys.enc_tuple_separates [folded encode_key_tuple_concat]
lemmas tuple_append_inject = keys.enc_tuple_append_inject [folded encode_key_tuple_concat]
lemmas decode_tuple_iff = keys.decode_many_iff [folded encode_key_tuple_concat]

text \<open>
  C1. The byte order of key encodings is the typed key order, in both directions and for every
  pair of keys, of the same kind or not.
\<close>

theorem key_encoding_preserves_order:
  "cmp (encode_key_value k) (encode_key_value l) = key_cmp k l"
  by (simp add: key_cmp_bytes)

text \<open>
  C2. The decoder accepts a byte string exactly when an encoding of a well-formed key stands at
  its front, returns that key and consumes exactly its encoding: decoding inverts encoding and
  accepts nothing else.
\<close>

theorem decode_key_value_exact:
  "decode_key_value bs = Some (k, n)
    \<longleftrightarrow> key_wf k \<and> n = length (encode_key_value k) \<and> prefix (encode_key_value k) bs"
  by (rule keys.dec_iff)

text \<open>
  Composite tuples sort byte-wise in column-major order, and one tuple's bytes are a prefix of
  another's only when the tuple itself is: no column bleeds into the next.
\<close>

theorem key_tuple_order_and_framing:
  "cmp (encode_key_tuple ks) (encode_key_tuple ls) = cmp ks ls
   \<and> (prefix (encode_key_tuple ks) (encode_key_tuple ls) \<longleftrightarrow> prefix ks ls)"
  by (simp add: cmp_def tuple_less_iff tuple_inject tuple_prefix_iff)

end
