(* ===== verification/Value_Codec.thy ===== *)
theory Value_Codec
  imports Key_Codec Varint Temporal_Text
begin

text \<open>
  The scalar value codec of \<open>crates/marrow-kernel/src/codec/value.rs\<close>: runtime scalars, their key
  projection, their canonical saved text and its strict decoder. A \<open>String\<close> is its bytes; every
  Rust \<open>String\<close> is valid UTF-8, which is the well-formedness predicate \<open>scalar_wf\<close>.
\<close>

datatype RuntimeScalar =
    RBool bool
  | RInt i64
  | RStr bytes
  | RBytes bytes
  | RDate i32
  | RDuration i128
  | RInstant i128

datatype ValueError =
    DateOutOfRange i32
  | InstantOutOfRange i128
  | ValueTooLarge
  | Unstorable
  | ValueTooDeep

fun scalar_ty :: "RuntimeScalar \<Rightarrow> ScalarKind" where
  "scalar_ty (RBool _) = SkBool"
| "scalar_ty (RInt _) = SkInt"
| "scalar_ty (RStr _) = SkStr"
| "scalar_ty (RBytes _) = SkBytes"
| "scalar_ty (RDate _) = SkDate"
| "scalar_ty (RDuration _) = SkDuration"
| "scalar_ty (RInstant _) = SkInstant"

fun validate_scalar_key :: "KeyScalar \<Rightarrow> ValueError + unit" where
  "validate_scalar_key (KDate days) =
     (if \<not> supported_date_days (sint days) then Inl (DateOutOfRange days) else Inr ())"
| "validate_scalar_key (KInstant nanos) =
     (if \<not> supported_instant_nanos (sint nanos) then Inl (InstantOutOfRange nanos) else Inr ())"
| "validate_scalar_key _ = Inr ()"

definition scalar_key_matches_type :: "KeyScalar \<Rightarrow> ScalarKind \<Rightarrow> bool" where
  "scalar_key_matches_type key expected \<longleftrightarrow>
     key_scalar_kind key = expected \<and> validate_scalar_key key = Inr ()"

fun scalar_key :: "RuntimeScalar \<Rightarrow> KeyScalar" where
  "scalar_key (RInt v) = KInt v"
| "scalar_key (RBool v) = KBool v"
| "scalar_key (RStr v) = KStr v"
| "scalar_key (RBytes v) = KBytes v"
| "scalar_key (RDate v) = KDate v"
| "scalar_key (RDuration v) = KDuration v"
| "scalar_key (RInstant v) = KInstant v"

definition as_key :: "RuntimeScalar \<Rightarrow> ValueError + KeyScalar option" where
  "as_key s = (let key = scalar_key s in rbind (validate_scalar_key key) (\<lambda>_. Inr (Some key)))"

fun encode_value :: "RuntimeScalar \<Rightarrow> ValueError + bytes" where
  "encode_value (RBool v) = Inr [if v then 49 else 48]"
| "encode_value (RInt v) = Inr (dec_int (sint v))"
| "encode_value (RStr text) = Inr text"
| "encode_value (RBytes bs) = Inr bs"
| "encode_value (RDate days) = ok_or (format_date (sint days)) (DateOutOfRange days)"
| "encode_value (RDuration nanos) = Inr (format_duration (sint nanos))"
| "encode_value (RInstant nanos) = ok_or (format_instant (sint nanos)) (InstantOutOfRange nanos)"

definition parse_canonical_int :: "bytes \<Rightarrow> int option" where
  "parse_canonical_int bs =
     Option.bind (from_utf8 bs) (\<lambda>text.
     Option.bind (parse_signed (- (2 ^ 63)) (2 ^ 63 - 1) text) (\<lambda>v.
       if dec_int v = text then Some v else None))"

fun decode_value :: "bytes \<Rightarrow> ScalarKind \<Rightarrow> RuntimeScalar option" where
  "decode_value bs SkBool =
     (if bs = [48] then Some (RBool False) else if bs = [49] then Some (RBool True) else None)"
| "decode_value bs SkInt = map_option (\<lambda>v. RInt (word_of_int v)) (parse_canonical_int bs)"
| "decode_value bs SkStr = map_option RStr (from_utf8 bs)"
| "decode_value bs SkBytes = Some (RBytes bs)"
| "decode_value bs SkDate = map_option (\<lambda>d. RDate (word_of_int d)) (parse_date bs)"
| "decode_value bs SkDuration = map_option (\<lambda>d. RDuration (word_of_int d)) (parse_duration bs)"
| "decode_value bs SkInstant = map_option (\<lambda>d. RInstant (word_of_int d)) (parse_instant bs)"

fun scalar_wf :: "RuntimeScalar \<Rightarrow> bool" where
  "scalar_wf (RStr text) = utf8_valid text"
| "scalar_wf _ = True"

section \<open>Exactness\<close>

lemma fits_sint: "fits LENGTH('a) (sint w)" for w :: "'a::len word"
  using sint_ge [of w] sint_lt [of w] by (simp add: fits_def)

lemma sint_word_of_int_fits: "fits LENGTH('a) i \<Longrightarrow> sint (word_of_int i :: 'a::len word) = i"
  by (simp add: fits_def signed_of_int signed_take_bit_int_eq_self)

lemmas fits_sints = fits_sint [where 'a = 32, simplified] fits_sint [where 'a = 64, simplified]
  fits_sint [where 'a = 128, simplified]

lemmas sint_of_fits = sint_word_of_int_fits [where 'a = 32, simplified]
  sint_word_of_int_fits [where 'a = 64, simplified] sint_word_of_int_fits [where 'a = 128, simplified]

lemma word_of_int_eq_iff_sint:
  "fits LENGTH('a) i \<Longrightarrow> (w = word_of_int i) \<longleftrightarrow> i = sint (w :: 'a::len word)"
  using sint_word_of_int_fits by (metis sint_inject)

lemma parse_canonical_int_iff: "parse_canonical_int bs = Some v \<longleftrightarrow> fits 64 v \<and> dec_int v = bs"
proof
  assume "parse_canonical_int bs = Some v"
  then show "fits 64 v \<and> dec_int v = bs"
    by (auto simp: parse_canonical_int_def from_utf8_def bind_eq_Some_conv parse_signed_def fits_def
        split: if_splits prod.splits)
next
  assume "fits 64 v \<and> dec_int v = bs"
  moreover have "utf8_valid (dec_int v)" by (rule utf8_valid_ascii) (rule dec_int_ascii)
  ultimately show "parse_canonical_int bs = Some v"
    using parse_signed_dec_int [of "- (2 ^ 63)" v "2 ^ 63 - 1"]
    by (auto simp: parse_canonical_int_def from_utf8_def fits_def)
qed

lemma supported_fits:
  "supported_date_days d \<Longrightarrow> fits 32 d" "supported_instant_nanos n \<Longrightarrow> fits 128 n"
  by (simp_all add: supported_date_days_def supported_instant_nanos_def temporal_consts fits_def)

lemma format_fits: "format_date d = Some bs \<Longrightarrow> fits 32 d" "format_instant n = Some bs \<Longrightarrow> fits 128 n"
  by (auto simp: format_date_iff format_instant_def intro: supported_fits split: if_splits)

lemma decode_value_iff:
  "decode_value bs k = Some v \<longleftrightarrow> scalar_wf v \<and> scalar_ty v = k \<and> encode_value v = Inr bs"
proof (cases k)
  case SkBool
  then show ?thesis by (cases v) (auto split: if_splits)
next
  case SkInt
  then show ?thesis
    by (cases v) (auto simp: parse_canonical_int_iff fits_sints sint_of_fits intro!: exI)
next
  case SkStr
  then show ?thesis by (cases v) (auto simp: from_utf8_def split: if_splits)
next
  case SkDate
  then show ?thesis
    by (cases v) (auto simp: parse_date_iff_format sint_of_fits format_fits intro!: exI)
next
  case SkDuration
  then show ?thesis
    by (cases v) (auto simp: parse_duration_iff_format fits_sints sint_of_fits intro!: exI)
next
  case SkInstant
  then show ?thesis
    by (cases v) (auto simp: parse_instant_iff_format sint_of_fits format_fits intro!: exI)
qed (cases v; auto)

text \<open>
  C6. The scalar value codec is exact under every type: bytes decode to a scalar of the type exactly
  when they are that scalar's own encoding, so each value has one saved form and a non-canonical
  spelling is never accepted.
\<close>

theorem decode_value_exact:
  "decode_value bs k = Some v \<longleftrightarrow> scalar_wf v \<and> scalar_ty v = k \<and> encode_value v = Inr bs"
  by (rule decode_value_iff)

text \<open>
  A scalar has a key projection exactly when it has a saved form: the date and instant range
  refusals of \<open>as_key\<close> and \<open>encode_value\<close> are the same, and the projected key keeps the
  scalar's type and passes the key type check.
\<close>

theorem as_key_agrees_with_encode_value:
  "(case as_key s of
      Inl e \<Rightarrow> encode_value s = Inl e
    | Inr k \<Rightarrow> \<exists>key bs. k = Some key \<and> encode_value s = Inr bs \<and> scalar_key_matches_type key (scalar_ty s))"
  by (cases s)
    (auto simp: as_key_def Let_def scalar_key_matches_type_def format_date_def date_parts_def
      format_instant_def split: prod.splits)

end
