(* ===== verification/Equality.thy ===== *)
theory Equality
  imports Value_Codec
begin

text \<open>
  The closed value domain of \<open>crates/marrow-kernel/src/equality.rs\<close> and its two relations: value
  equality and the collection key order. The element-wise loops over zipped slices, guarded by a
  length test, are list recursions that fail on a length mismatch.
\<close>

datatype ValueDomain =
    VUnit
  | VScalar RuntimeScalar
  | VProduct u16 "ValueDomain option list"
  | VSum u16 u16 "ValueDomain list"
  | VList u16 "ValueDomain list"
  | VMap u16 "(KeyScalar \<times> ValueDomain) list"
  | VIdentity u16 "KeyScalar list"

datatype KeyDomain = KdUnit | KdScalar KeyScalar

fun value_equality :: "ValueDomain \<Rightarrow> ValueDomain \<Rightarrow> bool"
  and fields_equal :: "ValueDomain option list \<Rightarrow> ValueDomain option list \<Rightarrow> bool"
  and payload_equal :: "ValueDomain list \<Rightarrow> ValueDomain list \<Rightarrow> bool"
  and entries_equal :: "(KeyScalar \<times> ValueDomain) list \<Rightarrow> (KeyScalar \<times> ValueDomain) list \<Rightarrow> bool"
where
  "value_equality VUnit VUnit = True"
| "value_equality (VScalar x) (VScalar y) = (x = y)"
| "value_equality (VProduct ta fa) (VProduct tb fb) = (ta = tb \<and> fields_equal fa fb)"
| "value_equality (VSum ta va pa) (VSum tb vb pb) = (ta = tb \<and> va = vb \<and> payload_equal pa pb)"
| "value_equality (VList ia xa) (VList ib xb) = (ia = ib \<and> payload_equal xa xb)"
| "value_equality (VMap ia ea) (VMap ib eb) = (ia = ib \<and> entries_equal ea eb)"
| "value_equality (VIdentity ra ka) (VIdentity rb kb) = (ra = rb \<and> ka = kb)"
| "value_equality _ _ = False"
| "fields_equal [] [] = True"
| "fields_equal (None # a) (None # b) = fields_equal a b"
| "fields_equal (Some x # a) (Some y # b) = (value_equality x y \<and> fields_equal a b)"
| "fields_equal _ _ = False"
| "payload_equal [] [] = True"
| "payload_equal (x # a) (y # b) = (value_equality x y \<and> payload_equal a b)"
| "payload_equal _ _ = False"
| "entries_equal [] [] = True"
| "entries_equal ((ka, va) # a) ((kb, vb) # b) = (ka = kb \<and> value_equality va vb \<and> entries_equal a b)"
| "entries_equal _ _ = False"

fun collection_key_order :: "KeyDomain \<Rightarrow> KeyDomain \<Rightarrow> ordering" where
  "collection_key_order KdUnit KdUnit = Equal"
| "collection_key_order KdUnit (KdScalar _) = Less"
| "collection_key_order (KdScalar _) KdUnit = Greater"
| "collection_key_order (KdScalar x) (KdScalar y) = key_cmp x y"

lemma value_equality_eq:
  "value_equality a b \<longleftrightarrow> a = b" "fields_equal fa fb \<longleftrightarrow> fa = fb" "payload_equal pa pb \<longleftrightarrow> pa = pb"
  "entries_equal ea eb \<longleftrightarrow> ea = eb"
  by (induction a b and fa fb and pa pb and ea eb rule: value_equality_fields_equal_payload_equal_entries_equal.induct)
    auto

text \<open>
  C7. Value equality is structural identity: two values are equal exactly when they are the same
  point of the domain, so equality is an equivalence and a present slot never equals a vacant one.
\<close>

theorem value_equality_is_identity:
  "value_equality a b \<longleftrightarrow> a = b"
  by (rule value_equality_eq)

text \<open>The byte string a key sorts by: nothing for \<open>unit\<close>, the durable key encoding for a scalar.\<close>

fun key_domain_bytes :: "KeyDomain \<Rightarrow> bytes" where
  "key_domain_bytes KdUnit = []"
| "key_domain_bytes (KdScalar k) = encode_key_value k"

text \<open>
  The collection key order is a strict total order with \<open>unit\<close> first, and on scalar keys it is
  the byte order of the durable key encoding: in-memory collections and durable traversal agree.
\<close>

theorem collection_key_order_total:
  "collection_key_order a b = cmp (key_domain_bytes a) (key_domain_bytes b)
   \<and> (collection_key_order a b = Equal \<longleftrightarrow> a = b)"
  by (cases a; cases b) (auto simp: key_cmp_bytes keys.enc_inject cmp_def keys.enc_not_Nil)

end
