(* ===== verification/Value_Shape.thy ===== *)
theory Value_Shape
  imports Equality
begin

text \<open>
  Value shapes and their builder, from \<open>crates/marrow-kernel/src/codec/value.rs\<close>. The builder is the
  state machine of the source: a stack of open frames (the innermost frame first), the finished
  top-level shapes, the count of suppressed opens and the first latched refusal. A stream of
  commands is a list of \<open>ShapeCommand\<close>, one per public method. The \<open>u32\<close> depth metric is a
  natural number, which the invariant bounds by \<open>MAX_DURABLE_VALUE_DEPTH\<close>.
\<close>

definition MAX_LEAF_BYTES :: nat where "MAX_LEAF_BYTES = 64 * 1024"
definition MAX_DURABLE_VALUE_BYTES :: nat where "MAX_DURABLE_VALUE_BYTES = 2 ^ 20"
definition MAX_DURABLE_VALUE_DEPTH :: nat where "MAX_DURABLE_VALUE_DEPTH = 32"

datatype ValueShape = ValueShape (shape_node: ShapeNode) (shape_depth: nat)
and ShapeNode =
    NScalar ScalarKind
  | NProduct u16 "ValueShape list"
  | NSum u16 "ValueShape list list"

definition scalar_shape :: "ScalarKind \<Rightarrow> ValueShape" where
  "scalar_shape k = ValueShape (NScalar k) 0"

fun shape_scalar_kind :: "ValueShape \<Rightarrow> ScalarKind option" where
  "shape_scalar_kind (ValueShape (NScalar k) _) = Some k"
| "shape_scalar_kind _ = None"

datatype ShapeBuildError = TooDeep | Misplaced | NotOneShape

datatype ShapeFrame =
    FProduct u16 "ValueShape list"
  | FSum u16 "ValueShape list list"
  | FVariant "ValueShape list"

record ValueShapeBuilder =
  sb_stack :: "ShapeFrame list"
  sb_finished :: "ValueShape list"
  sb_suppressed :: nat
  sb_error :: "ShapeBuildError option"

definition builder_new :: ValueShapeBuilder where
  "builder_new = \<lparr>sb_stack = [], sb_finished = [], sb_suppressed = 0, sb_error = None\<rparr>"

definition sb_fail :: "ShapeBuildError \<Rightarrow> ValueShapeBuilder \<Rightarrow> ValueShapeBuilder" where
  "sb_fail e b = (case sb_error b of None \<Rightarrow> b\<lparr>sb_error := Some e\<rparr> | Some _ \<Rightarrow> b)"

fun is_variant :: "ShapeFrame \<Rightarrow> bool" where
  "is_variant (FVariant _) = True"
| "is_variant _ = False"

fun is_sum :: "ShapeFrame \<Rightarrow> bool" where
  "is_sum (FSum _ _) = True"
| "is_sum _ = False"

definition open_composites :: "ValueShapeBuilder \<Rightarrow> nat" where
  "open_composites b = length (filter (\<lambda>f. \<not> is_variant f) (sb_stack b))"

definition top_is_sum :: "ValueShapeBuilder \<Rightarrow> bool" where
  "top_is_sum b = (case sb_stack b of f # _ \<Rightarrow> is_sum f | [] \<Rightarrow> False)"

definition sb_place :: "ValueShape \<Rightarrow> ValueShapeBuilder \<Rightarrow> ValueShapeBuilder" where
  "sb_place shape b =
     (if sb_suppressed b > 0 then b
      else case sb_stack b of
          FProduct ty fs # rest \<Rightarrow> b\<lparr>sb_stack := FProduct ty (fs @ [shape]) # rest\<rparr>
        | FVariant payload # rest \<Rightarrow> b\<lparr>sb_stack := FVariant (payload @ [shape]) # rest\<rparr>
        | FSum _ _ # _ \<Rightarrow> sb_fail Misplaced b
        | [] \<Rightarrow> b\<lparr>sb_finished := sb_finished b @ [shape]\<rparr>)"

definition sb_open :: "ShapeFrame \<Rightarrow> ValueShapeBuilder \<Rightarrow> ValueShapeBuilder" where
  "sb_open frame b =
     (if sb_suppressed b > 0 then b\<lparr>sb_suppressed := sb_suppressed b + 1\<rparr>
      else if open_composites b + 1 > MAX_DURABLE_VALUE_DEPTH
      then sb_fail TooDeep (b\<lparr>sb_suppressed := 1\<rparr>)
      else if top_is_sum b then sb_fail Misplaced b
      else b\<lparr>sb_stack := frame # sb_stack b\<rparr>)"

definition sb_scalar :: "ScalarKind \<Rightarrow> ValueShapeBuilder \<Rightarrow> ValueShapeBuilder" where
  "sb_scalar k b = sb_place (scalar_shape k) b"

definition sb_shape :: "ValueShape \<Rightarrow> ValueShapeBuilder \<Rightarrow> ValueShapeBuilder" where
  "sb_shape shape b =
     (if sb_suppressed b > 0 then b
      else if open_composites b + shape_depth shape > MAX_DURABLE_VALUE_DEPTH then sb_fail TooDeep b
      else sb_place shape b)"

definition sb_open_product :: "u16 \<Rightarrow> ValueShapeBuilder \<Rightarrow> ValueShapeBuilder" where
  "sb_open_product ty b = sb_open (FProduct ty []) b"

definition sb_open_sum :: "u16 \<Rightarrow> ValueShapeBuilder \<Rightarrow> ValueShapeBuilder" where
  "sb_open_sum ty b = sb_open (FSum ty []) b"

definition sb_open_variant :: "ValueShapeBuilder \<Rightarrow> ValueShapeBuilder" where
  "sb_open_variant b =
     (if sb_suppressed b > 0 then b\<lparr>sb_suppressed := sb_suppressed b + 1\<rparr>
      else if \<not> top_is_sum b then sb_fail Misplaced b
      else b\<lparr>sb_stack := FVariant [] # sb_stack b\<rparr>)"

definition max_depth :: "ValueShape list \<Rightarrow> nat" where
  "max_depth ss = foldr (\<lambda>s. max (shape_depth s)) ss 0"

definition sb_close :: "ValueShapeBuilder \<Rightarrow> ValueShapeBuilder" where
  "sb_close b =
     (if sb_suppressed b > 0 then b\<lparr>sb_suppressed := sb_suppressed b - 1\<rparr>
      else case sb_stack b of
          [] \<Rightarrow> sb_fail Misplaced b
        | FProduct ty fs # rest \<Rightarrow>
            sb_place (ValueShape (NProduct ty fs) (1 + max_depth fs)) (b\<lparr>sb_stack := rest\<rparr>)
        | FSum ty variants # rest \<Rightarrow>
            sb_place (ValueShape (NSum ty variants) (1 + max_depth (concat variants))) (b\<lparr>sb_stack := rest\<rparr>)
        | FVariant payload # rest \<Rightarrow>
            (case rest of
               FSum ty variants # outer \<Rightarrow> b\<lparr>sb_stack := FSum ty (variants @ [payload]) # outer\<rparr>
             | _ \<Rightarrow> sb_fail Misplaced (b\<lparr>sb_stack := rest\<rparr>)))"

definition sb_finish :: "ValueShapeBuilder \<Rightarrow> ShapeBuildError + ValueShape" where
  "sb_finish b =
     (case sb_error b of
        Some e \<Rightarrow> Inl e
      | None \<Rightarrow>
          if sb_stack b \<noteq> [] \<or> sb_suppressed b > 0 then Inl NotOneShape
          else case sb_finished b of [s] \<Rightarrow> Inr s | _ \<Rightarrow> Inl NotOneShape)"

datatype ShapeCommand =
    CScalar ScalarKind
  | CShape ValueShape
  | COpenProduct u16
  | COpenSum u16
  | COpenVariant
  | CClose

fun sb_step :: "ShapeCommand \<Rightarrow> ValueShapeBuilder \<Rightarrow> ValueShapeBuilder" where
  "sb_step (CScalar k) = sb_scalar k"
| "sb_step (CShape s) = sb_shape s"
| "sb_step (COpenProduct ty) = sb_open_product ty"
| "sb_step (COpenSum ty) = sb_open_sum ty"
| "sb_step COpenVariant = sb_open_variant"
| "sb_step CClose = sb_close"

definition sb_run :: "ShapeCommand list \<Rightarrow> ValueShapeBuilder \<Rightarrow> ValueShapeBuilder" where
  "sb_run cs b = fold sb_step cs b"

definition build_shape :: "ShapeCommand list \<Rightarrow> ShapeBuildError + ValueShape" where
  "build_shape cs = sb_finish (sb_run cs builder_new)"

section \<open>The depth bound is an invariant of every command stream\<close>

text \<open>A shape is sound when its recorded depth is the nesting of composites it really has.\<close>

fun shape_ok :: "ValueShape \<Rightarrow> bool" and node_ok :: "ShapeNode \<Rightarrow> nat \<Rightarrow> bool" where
  "shape_ok (ValueShape n d) = node_ok n d"
| "node_ok (NScalar k) d = (d = 0)"
| "node_ok (NProduct ty fs) d = ((\<forall>f \<in> set fs. shape_ok f) \<and> d = 1 + max_depth fs)"
| "node_ok (NSum ty vs) d = ((\<forall>p \<in> set vs. \<forall>f \<in> set p. shape_ok f) \<and> d = 1 + max_depth (concat vs))"

fun frame_shapes :: "ShapeFrame \<Rightarrow> ValueShape list" where
  "frame_shapes (FProduct ty fs) = fs"
| "frame_shapes (FSum ty vs) = concat vs"
| "frame_shapes (FVariant p) = p"

definition composites :: "ShapeFrame list \<Rightarrow> nat" where
  "composites st = length (filter (\<lambda>f. \<not> is_variant f) st)"

fun stack_ok :: "ShapeFrame list \<Rightarrow> bool" where
  "stack_ok [] = True"
| "stack_ok (f # st) \<longleftrightarrow>
     (\<forall>s \<in> set (frame_shapes f). shape_ok s \<and> composites (f # st) + shape_depth s \<le> MAX_DURABLE_VALUE_DEPTH)
     \<and> composites (f # st) \<le> MAX_DURABLE_VALUE_DEPTH
     \<and> (is_variant f \<longrightarrow> (case st of g # _ \<Rightarrow> is_sum g | [] \<Rightarrow> False)) \<and> stack_ok st"

definition builder_ok :: "ValueShapeBuilder \<Rightarrow> bool" where
  "builder_ok b \<longleftrightarrow>
     stack_ok (sb_stack b)
     \<and> (\<forall>s \<in> set (sb_finished b). shape_ok s \<and> shape_depth s \<le> MAX_DURABLE_VALUE_DEPTH)
     \<and> (sb_suppressed b > 0 \<longrightarrow> sb_error b \<noteq> None)"

lemma composites_simps [simp]:
  "composites [] = 0" "composites (f # st) = (if is_variant f then 0 else 1) + composites st"
  by (simp_all add: composites_def)

lemma open_composites_eq: "open_composites b = composites (sb_stack b)"
  by (simp add: open_composites_def composites_def)

lemma max_depth_le: "max_depth ss \<le> n \<longleftrightarrow> (\<forall>s \<in> set ss. shape_depth s \<le> n)"
  by (induction ss) (auto simp: max_depth_def)

lemma sb_fail_simps [simp]:
  "sb_stack (sb_fail e b) = sb_stack b" "sb_finished (sb_fail e b) = sb_finished b"
  "sb_suppressed (sb_fail e b) = sb_suppressed b" "sb_error (sb_fail e b) \<noteq> None"
  "sb_error b = Some x \<Longrightarrow> sb_error (sb_fail e b) = Some x"
  by (auto simp: sb_fail_def split: option.splits)

lemma builder_ok_fail [intro]: "builder_ok b \<Longrightarrow> builder_ok (sb_fail e b)"
  by (simp add: builder_ok_def)

lemma builder_ok_place:
  assumes "builder_ok b" "shape_ok s" "composites (sb_stack b) + shape_depth s \<le> MAX_DURABLE_VALUE_DEPTH"
  shows "builder_ok (sb_place s b)"
  using assms
  by (auto simp: sb_place_def split: list.splits ShapeFrame.splits) (auto simp: builder_ok_def)

lemma builder_ok_open:
  assumes "builder_ok b" "frame_shapes f = []" "\<not> is_variant f"
  shows "builder_ok (sb_open f b)"
  using assms by (auto simp: sb_open_def open_composites_eq) (auto simp: builder_ok_def)

lemma stack_ok_max_depth:
  assumes "stack_ok (f # st)"
  shows "composites (f # st) + max_depth (frame_shapes f) \<le> MAX_DURABLE_VALUE_DEPTH"
proof -
  have "max_depth (frame_shapes f) \<le> MAX_DURABLE_VALUE_DEPTH - composites (f # st)"
    using assms by (auto simp: max_depth_le)
  then show ?thesis using assms by auto
qed

lemma builder_ok_close:
  assumes ok: "builder_ok b"
  shows "builder_ok (sb_close b)"
proof (cases "sb_suppressed b > 0")
  case True
  then show ?thesis using ok by (auto simp: sb_close_def builder_ok_def)
next
  case False
  show ?thesis
  proof (cases "sb_stack b")
    case Nil
    then show ?thesis using ok False by (auto simp: sb_close_def)
  next
    case (Cons f st)
    with ok have so: "stack_ok (f # st)" by (simp add: builder_ok_def)
    have rest: "builder_ok (b\<lparr>sb_stack := st\<rparr>)" using ok Cons by (simp add: builder_ok_def)
    note md = stack_ok_max_depth [OF so]
    show ?thesis
    proof (cases f)
      case (FProduct ty fs)
      then show ?thesis using so md False Cons
        by (simp add: sb_close_def) (rule builder_ok_place [OF rest]; simp)
    next
      case (FSum ty vs)
      then show ?thesis using so md False Cons
        by (simp add: sb_close_def) (rule builder_ok_place [OF rest]; auto)
    next
      case (FVariant p)
      with so obtain g outer ty vs where "st = g # outer" "g = FSum ty vs"
        by (cases st; cases "hd st") auto
      then show ?thesis using so rest False Cons FVariant by (auto simp: sb_close_def builder_ok_def)
    qed
  qed
qed

fun command_ok :: "ShapeCommand \<Rightarrow> bool" where
  "command_ok (CShape s) = shape_ok s"
| "command_ok _ = True"

lemma builder_ok_step: "builder_ok b \<Longrightarrow> command_ok c \<Longrightarrow> builder_ok (sb_step c b)"
proof (induction c)
  case (CScalar k)
  have "composites st \<le> MAX_DURABLE_VALUE_DEPTH" if "stack_ok st" for st
    using that by (cases st) auto
  with CScalar show ?case
    by (auto simp: sb_scalar_def scalar_shape_def builder_ok_def [of b] intro!: builder_ok_place)
next
  case (CShape s)
  then show ?case by (auto simp: sb_shape_def open_composites_eq intro: builder_ok_place)
next
  case COpenVariant
  then show ?case
    by (auto simp: sb_open_variant_def top_is_sum_def split: list.splits) (auto simp: builder_ok_def)
qed (auto simp: sb_open_product_def sb_open_sum_def intro!: builder_ok_open builder_ok_close)

lemma builder_ok_new [simp]: "builder_ok builder_new"
  by (simp add: builder_ok_def builder_new_def)

lemma builder_ok_run: "list_all command_ok cs \<Longrightarrow> builder_ok b \<Longrightarrow> builder_ok (sb_run cs b)"
  by (induction cs arbitrary: b) (auto simp: sb_run_def builder_ok_step)

lemma build_shape_ok:
  assumes "list_all command_ok cs" "build_shape cs = Inr s"
  shows "shape_ok s \<and> shape_depth s \<le> MAX_DURABLE_VALUE_DEPTH"
  using builder_ok_run [OF assms(1) builder_ok_new] assms(2)
  by (auto simp: build_shape_def sb_finish_def builder_ok_def split: option.splits if_splits list.splits)

section \<open>Every sound shape within the bound can be built\<close>

fun emit :: "ValueShape \<Rightarrow> ShapeCommand list" where
  "emit (ValueShape (NScalar k) d) = [CScalar k]"
| "emit (ValueShape (NProduct ty fs) d) = COpenProduct ty # concat (map emit fs) @ [CClose]"
| "emit (ValueShape (NSum ty vs) d) =
     COpenSum ty # concat (map (\<lambda>p. COpenVariant # concat (map emit p) @ [CClose]) vs) @ [CClose]"

lemma sb_run_simps [simp]:
  "sb_run [] b = b" "sb_run (c # cs) b = sb_run cs (sb_step c b)" "sb_run (cs @ ds) b = sb_run ds (sb_run cs b)"
  by (simp_all add: sb_run_def)

text \<open>The builder accepts a shape of depth \<open>d\<close> at its current position.\<close>

definition has_room :: "ValueShapeBuilder \<Rightarrow> nat \<Rightarrow> bool" where
  "has_room b d \<longleftrightarrow>
     sb_suppressed b = 0 \<and> \<not> top_is_sum b \<and> composites (sb_stack b) + d \<le> MAX_DURABLE_VALUE_DEPTH"

definition emits :: "ValueShape \<Rightarrow> bool" where
  "emits s \<longleftrightarrow> (\<forall>b. has_room b (shape_depth s) \<longrightarrow> sb_run (emit s) b = sb_place s b)"

lemma run_members:
  assumes "\<forall>s \<in> set ss. emits s \<and> composites (f [] # st) + shape_depth s \<le> MAX_DURABLE_VALUE_DEPTH"
    and "sb_suppressed b = 0" and "f = FProduct ty \<or> f = FVariant"
  shows "sb_run (concat (map emit ss)) (b\<lparr>sb_stack := f acc # st\<rparr>) = b\<lparr>sb_stack := f (acc @ ss) # st\<rparr>"
  using assms(1)
proof (induction ss arbitrary: acc)
  case (Cons s ss)
  let ?b = "b\<lparr>sb_stack := f acc # st\<rparr>"
  have "has_room ?b (shape_depth s)"
    using Cons.prems assms(2,3) by (auto simp: has_room_def top_is_sum_def)
  then have "sb_run (emit s) ?b = sb_place s ?b" using Cons.prems by (auto simp: emits_def)
  also have "\<dots> = b\<lparr>sb_stack := f (acc @ [s]) # st\<rparr>" using assms(2,3) by (auto simp: sb_place_def)
  finally show ?case using Cons.IH [of "acc @ [s]"] Cons.prems by simp
qed simp

lemma run_variants:
  assumes "\<forall>p \<in> set vs. \<forall>s \<in> set p. emits s \<and> composites (FSum ty [] # st) + shape_depth s \<le> MAX_DURABLE_VALUE_DEPTH"
    and "sb_suppressed b = 0"
  shows "sb_run (concat (map (\<lambda>p. COpenVariant # concat (map emit p) @ [CClose]) vs)) (b\<lparr>sb_stack := FSum ty acc # st\<rparr>)
         = b\<lparr>sb_stack := FSum ty (acc @ vs) # st\<rparr>"
  using assms(1)
proof (induction vs arbitrary: acc)
  case (Cons p vs)
  have open_v: "sb_step COpenVariant (b\<lparr>sb_stack := FSum ty acc # st\<rparr>)
      = b\<lparr>sb_stack := FVariant [] # FSum ty acc # st\<rparr>"
    using assms(2) by (simp add: sb_open_variant_def top_is_sum_def)
  have "sb_run (concat (map emit p)) (b\<lparr>sb_stack := FVariant [] # FSum ty acc # st\<rparr>)
      = b\<lparr>sb_stack := FVariant ([] @ p) # FSum ty acc # st\<rparr>"
    using Cons.prems assms(2) by (intro run_members) auto
  with open_v have "sb_run (COpenVariant # concat (map emit p) @ [CClose]) (b\<lparr>sb_stack := FSum ty acc # st\<rparr>)
      = b\<lparr>sb_stack := FSum ty (acc @ [p]) # st\<rparr>"
    using assms(2) by (simp add: sb_close_def del: sb_step.simps(5))
  with Cons show ?case by simp
qed simp

lemma shape_depth_le_max: "s \<in> set ss \<Longrightarrow> shape_depth s \<le> max_depth ss"
  using max_depth_le by blast

lemma emits_ok: "shape_ok s \<Longrightarrow> emits s"
proof (induction s rule: emit.induct)
  case (1 k d)
  then show ?case by (simp add: emits_def sb_scalar_def scalar_shape_def)
next
  case (2 ty fs d)
  show ?case unfolding emits_def
  proof (intro allI impI)
    fix b
    assume r: "has_room b (shape_depth (ValueShape (NProduct ty fs) d))"
    with 2 have o: "sb_open_product ty b = b\<lparr>sb_stack := FProduct ty [] # sb_stack b\<rparr>"
      by (auto simp: has_room_def sb_open_product_def sb_open_def open_composites_eq)
    have "sb_run (concat (map emit fs)) (b\<lparr>sb_stack := FProduct ty [] # sb_stack b\<rparr>)
        = b\<lparr>sb_stack := FProduct ty ([] @ fs) # sb_stack b\<rparr>"
      using 2 r shape_depth_le_max [of _ fs] by (intro run_members) (fastforce simp: has_room_def)+
    with o r 2 show "sb_run (emit (ValueShape (NProduct ty fs) d)) b = sb_place (ValueShape (NProduct ty fs) d) b"
      by (simp add: sb_close_def has_room_def)
  qed
next
  case (3 ty vs d)
  show ?case unfolding emits_def
  proof (intro allI impI)
    fix b
    assume r: "has_room b (shape_depth (ValueShape (NSum ty vs) d))"
    with 3 have o: "sb_open_sum ty b = b\<lparr>sb_stack := FSum ty [] # sb_stack b\<rparr>"
      by (auto simp: has_room_def sb_open_sum_def sb_open_def open_composites_eq)
    have "\<forall>p \<in> set vs. \<forall>s \<in> set p. emits s \<and> composites (FSum ty [] # sb_stack b) + shape_depth s \<le> MAX_DURABLE_VALUE_DEPTH"
      using 3 r shape_depth_le_max [of _ "concat vs"] by (fastforce simp: has_room_def)
    then have "sb_run (concat (map (\<lambda>p. COpenVariant # concat (map emit p) @ [CClose]) vs)) (b\<lparr>sb_stack := FSum ty [] # sb_stack b\<rparr>)
        = b\<lparr>sb_stack := FSum ty ([] @ vs) # sb_stack b\<rparr>"
      using r by (intro run_variants) (simp_all add: has_room_def)
    with o r 3 show "sb_run (emit (ValueShape (NSum ty vs) d)) b = sb_place (ValueShape (NSum ty vs) d) b"
      by (simp add: sb_close_def has_room_def)
  qed
qed

lemma emit_no_shape: "CShape s \<notin> set (emit t)"
  by (induction t rule: emit.induct) auto

lemma build_emit:
  assumes "shape_ok s" "shape_depth s \<le> MAX_DURABLE_VALUE_DEPTH"
  shows "build_shape (emit s) = Inr s"
proof -
  have "has_room builder_new (shape_depth s)"
    using assms by (simp add: has_room_def builder_new_def top_is_sum_def)
  with emits_ok [OF assms(1)] have "sb_run (emit s) builder_new = sb_place s builder_new" by (simp add: emits_def)
  then show ?thesis by (simp add: build_shape_def sb_place_def builder_new_def sb_finish_def)
qed

text \<open>
  The shapes a client can obtain: those that come out of a builder run whose placed sub-shapes,
  if any, were obtained the same way.
\<close>

inductive buildable :: "ValueShape \<Rightarrow> bool" where
  build: "\<forall>t. CShape t \<in> set cs \<longrightarrow> buildable t \<Longrightarrow> build_shape cs = Inr s \<Longrightarrow> buildable s"

lemma buildable_ok: "buildable s \<Longrightarrow> shape_ok s \<and> shape_depth s \<le> MAX_DURABLE_VALUE_DEPTH"
proof (induction rule: buildable.induct)
  case (build cs s)
  have "command_ok c" if "c \<in> set cs" for c
    using build(1) that by (cases c) auto
  then show ?case using build_shape_ok [of cs s] build(2) by (auto simp: list_all_iff)
qed

text \<open>
  The builder mints exactly the sound shapes within the depth bound: no command stream, however
  hostile, yields a shape nested past 32 composites or with a wrong depth record, and every sound
  shape within the bound is reachable.
\<close>

theorem buildable_iff_within_bound:
  "buildable s \<longleftrightarrow> shape_ok s \<and> shape_depth s \<le> MAX_DURABLE_VALUE_DEPTH"
  using buildable_ok buildable.build [of "emit s" s] build_emit emit_no_shape by blast

end
