(* ===== verification/Domain_Codec.thy ===== *)
theory Domain_Codec
  imports Value_Shape
begin

text \<open>
  The composite value codec of \<open>crates/marrow-kernel/src/codec/value.rs\<close>: \<open>encode_domain\<close> and the
  shape-driven \<open>decode_domain\<close>. The two loops of \<open>write_composite\<close> and of \<open>read_composite\<close> over
  members are the list functions \<open>write_fields\<close>, \<open>write_payload\<close> and \<open>read_members\<close>; \<open>usize\<close> is 64 bits
  wide.
\<close>

fun write_composite :: "ValueDomain \<Rightarrow> bytes \<Rightarrow> nat \<Rightarrow> ValueError + bytes"
  and write_fields :: "ValueDomain option list \<Rightarrow> bytes \<Rightarrow> nat \<Rightarrow> ValueError + bytes"
  and write_payload :: "ValueDomain list \<Rightarrow> bytes \<Rightarrow> nat \<Rightarrow> ValueError + bytes"
  and write_member :: "ValueDomain \<Rightarrow> bytes \<Rightarrow> nat \<Rightarrow> ValueError + bytes"
where
  "write_composite (VProduct ty fs) out depth =
     (if depth > MAX_DURABLE_VALUE_DEPTH then Inl ValueTooDeep else write_fields fs out depth)"
| "write_composite (VSum ty variant payload) out depth =
     (if depth > MAX_DURABLE_VALUE_DEPTH then Inl ValueTooDeep
      else write_payload payload (encode_len (ucast variant) out) depth)"
| "write_composite _ out depth =
     (if depth > MAX_DURABLE_VALUE_DEPTH then Inl ValueTooDeep else Inl Unstorable)"
| "write_fields [] out depth = Inr out"
| "write_fields (None # fs) out depth = Inl Unstorable"
| "write_fields (Some field # fs) out depth =
     rbind (write_member field out depth) (\<lambda>out'. write_fields fs out' depth)"
| "write_payload [] out depth = Inr out"
| "write_payload (leaf # payload) out depth =
     rbind (write_member leaf out depth) (\<lambda>out'. write_payload payload out' depth)"
| "write_member (VScalar scalar) out depth =
     rbind (encode_value scalar) (\<lambda>bs.
       if length bs > MAX_LEAF_BYTES then Inl ValueTooLarge
       else Inr (encode_len (word_of_nat (length bs)) out @ bs))"
| "write_member (VProduct ty fs) out depth = write_composite (VProduct ty fs) out (depth + 1)"
| "write_member (VSum ty variant payload) out depth = write_composite (VSum ty variant payload) out (depth + 1)"
| "write_member _ out depth = Inl Unstorable"

definition encode_domain :: "ValueDomain \<Rightarrow> ValueError + bytes" where
  "encode_domain v =
     rbind (case v of
              VScalar scalar \<Rightarrow> encode_value scalar
            | VProduct _ _ \<Rightarrow> write_composite v [] 1
            | VSum _ _ _ \<Rightarrow> write_composite v [] 1
            | _ \<Rightarrow> Inl Unstorable) (\<lambda>bs.
       if length bs > MAX_DURABLE_VALUE_BYTES then Inl ValueTooLarge else Inr bs)"

text \<open>\<open>bytes.get(n..)\<close>: the rest of a slice, if \<open>n\<close> is not past its end.\<close>

definition get_from :: "bytes \<Rightarrow> nat \<Rightarrow> bytes option" where
  "get_from bs n = (if n \<le> length bs then Some (drop n bs) else None)"

fun read_composite :: "bytes \<Rightarrow> ValueShape \<Rightarrow> nat \<Rightarrow> (ValueDomain \<times> nat) option"
  and read_members :: "bytes \<Rightarrow> nat \<Rightarrow> ValueShape list \<Rightarrow> nat \<Rightarrow> (ValueDomain list \<times> nat) option"
  and read_variant :: "bytes \<Rightarrow> nat \<Rightarrow> ValueShape list list \<Rightarrow> nat \<Rightarrow> nat \<Rightarrow> (ValueDomain list \<times> nat) option"
  and read_member :: "bytes \<Rightarrow> ValueShape \<Rightarrow> nat \<Rightarrow> (ValueDomain \<times> nat) option"
where
  "read_composite bs (ValueShape (NScalar k) d) depth = None"
| "read_composite bs (ValueShape (NProduct ty fs) d) depth =
     (if depth > MAX_DURABLE_VALUE_DEPTH then None
      else Option.bind (read_members bs 0 fs depth) (\<lambda>(slots, used).
             Some (VProduct ty (map Some slots), used)))"
| "read_composite bs (ValueShape (NSum ty variants) d) depth =
     (if depth > MAX_DURABLE_VALUE_DEPTH then None
      else Option.bind (decode_len bs) (\<lambda>(index, used).
           Option.bind (read_variant bs used variants (unat index) depth) (\<lambda>(payload, used').
             Some (VSum ty (word_of_nat (unat index)) payload, used'))))"
| "read_members bs used [] depth = Some ([], used)"
| "read_members bs used (field # fs) depth =
     Option.bind (get_from bs used) (\<lambda>rest.
     Option.bind (read_member rest field depth) (\<lambda>(v, n).
     Option.bind (read_members bs (used + n) fs depth) (\<lambda>(vs, used').
       Some (v # vs, used'))))"
| "read_variant bs used [] index depth = None"
| "read_variant bs used (p # variants) index depth =
     (if index = 0 then read_members bs used p depth else read_variant bs used variants (index - 1) depth)"
| "read_member bs (ValueShape (NScalar k) d) depth =
     Option.bind (decode_len bs) (\<lambda>(len, prefix).
       if unat len > MAX_LEAF_BYTES then None
       else Option.bind (get_range bs prefix (prefix + unat len)) (\<lambda>leaf.
            Option.bind (decode_value leaf k) (\<lambda>scalar.
              Some (VScalar scalar, prefix + unat len))))"
| "read_member bs (ValueShape (NProduct ty fs) d) depth =
     read_composite bs (ValueShape (NProduct ty fs) d) (depth + 1)"
| "read_member bs (ValueShape (NSum ty variants) d) depth =
     read_composite bs (ValueShape (NSum ty variants) d) (depth + 1)"

definition decode_domain :: "bytes \<Rightarrow> ValueShape \<Rightarrow> ValueDomain option" where
  "decode_domain bs shape =
     (case shape_scalar_kind shape of
        Some k \<Rightarrow> map_option VScalar (decode_value bs k)
      | None \<Rightarrow> Option.bind (read_composite bs shape 1) (\<lambda>(v, used).
                  if used = length bs then Some v else None))"

section \<open>Values and shapes\<close>

text \<open>
  The values a shape admits: a present scalar of the kind, a dense product, or a declared variant
  with its payload.
\<close>

fun matches :: "ValueShape \<Rightarrow> ValueDomain \<Rightarrow> bool"
  and matches_all :: "ValueShape list \<Rightarrow> ValueDomain list \<Rightarrow> bool"
  and matches_variant :: "ValueShape list list \<Rightarrow> nat \<Rightarrow> ValueDomain list \<Rightarrow> bool"
where
  "matches (ValueShape (NScalar k) d) v = (\<exists>s. v = VScalar s \<and> scalar_wf s \<and> scalar_ty s = k)"
| "matches (ValueShape (NProduct ty fs) d) v = (\<exists>vs. v = VProduct ty (map Some vs) \<and> matches_all fs vs)"
| "matches (ValueShape (NSum ty variants) d) v =
     (\<exists>i vs. v = VSum ty i vs \<and> matches_variant variants (unat i) vs)"
| "matches_all [] vs = (vs = [])"
| "matches_all (s # ss) vs = (\<exists>w ws. vs = w # ws \<and> matches s w \<and> matches_all ss ws)"
| "matches_variant [] i vs = False"
| "matches_variant (p # ps) i vs = (if i = 0 then matches_all p vs else matches_variant ps (i - 1) vs)"

text \<open>A sum shape whose variants a \<open>u16\<close> can index.\<close>

fun indexable :: "ValueShape \<Rightarrow> bool" where
  "indexable (ValueShape (NScalar k) d) = True"
| "indexable (ValueShape (NProduct ty fs) d) = list_all indexable fs"
| "indexable (ValueShape (NSum ty vs) d) = (length vs \<le> 65536 \<and> list_all (list_all indexable) vs)"

section \<open>The writer appends\<close>

lemma encode_len_append: "encode_len n out = out @ leb128 n"
  by (simp add: encode_len_def)

fun prepend :: "bytes \<Rightarrow> ValueError + bytes \<Rightarrow> ValueError + bytes" where
  "prepend out (Inl e) = Inl e"
| "prepend out (Inr bs) = Inr (out @ bs)"

lemma prepend_Nil [simp]: "prepend [] r = r" by (cases r) auto
lemma prepend_prepend [simp]: "prepend a (prepend b r) = prepend (a @ b) r" by (cases r) auto

definition appends :: "(bytes \<Rightarrow> ValueError + bytes) \<Rightarrow> bool" where
  "appends f \<longleftrightarrow> (\<exists>r. \<forall>q. f q = prepend q r)"

lemma appendsD: "appends f \<Longrightarrow> f q = prepend q (f [])"
  by (auto simp: appends_def)

lemma appends_rbind: "appends f \<Longrightarrow> appends g \<Longrightarrow> appends (\<lambda>q. rbind (f q) g)"
proof -
  assume "appends f" "appends g"
  then obtain r s where rs: "\<forall>q. f q = prepend q r" "\<forall>q. g q = prepend q s" by (auto simp: appends_def)
  then have "rbind (f q) g = prepend q (rbind r (\<lambda>b. prepend b s))" for q
    by (cases r; cases s) auto
  then show ?thesis unfolding appends_def by blast
qed

lemma appends_shift: "appends f \<Longrightarrow> appends (\<lambda>q. f (q @ l))"
  unfolding appends_def by (metis prepend_prepend)

lemma appends_Inl [simp]: "appends (\<lambda>q. Inl e)" and appends_Inr [simp]: "appends (\<lambda>q. Inr (q @ l))" "appends (\<lambda>q. Inr q)"
  unfolding appends_def by (metis prepend.simps append_Nil2)+

lemma appends_if: "(\<not> c \<Longrightarrow> appends f) \<Longrightarrow> appends (\<lambda>q. if c then Inl e else f q)"
  by (cases c) simp_all

lemma appends_leaf:
  "appends (\<lambda>q. rbind (encode_value s) (\<lambda>b.
     if length b > MAX_LEAF_BYTES then Inl ValueTooLarge else Inr (encode_len (word_of_nat (length b)) q @ b)))"
  by (cases "encode_value s") (simp_all add: encode_len_append appends_if)

lemma write_appends:
  "appends (\<lambda>q. write_composite v q depth)" "appends (\<lambda>q. write_fields fs q depth)"
  "appends (\<lambda>q. write_payload ps q depth)" "appends (\<lambda>q. write_member w q depth)"
proof (induction v "out::bytes" depth and fs "out::bytes" depth and ps "out::bytes" depth and w "out::bytes" depth
    rule: write_composite_write_fields_write_payload_write_member.induct)
  case (2 ty variant payload out depth)
  then show ?case
    using appends_shift [OF 2, of "leb128 (ucast variant)"]
    by (cases "depth > MAX_DURABLE_VALUE_DEPTH") (simp_all add: encode_len_append)
qed (simp_all add: appends_rbind appends_leaf appends_if)

lemmas write_append = write_appends [THEN appendsD]

lemma write_fields_dense: "write_fields (map Some vs) out depth = write_payload vs out depth"
  by (induction vs arbitrary: out) auto

lemma write_payload_Cons:
  "write_payload (v # vs) [] depth = Inr bs \<longleftrightarrow>
     (\<exists>a b. write_member v [] depth = Inr a \<and> write_payload vs [] depth = Inr b \<and> bs = a @ b)"
proof (cases "write_member v [] depth")
  case (Inr a)
  then show ?thesis using write_append(3) [of vs a depth] by (cases "write_payload vs [] depth") auto
qed simp

lemma write_sum:
  "write_composite (VSum ty i vs) [] depth = Inr bs \<longleftrightarrow>
     depth \<le> MAX_DURABLE_VALUE_DEPTH
     \<and> (\<exists>b. write_payload vs [] depth = Inr b \<and> bs = leb128 (ucast i) @ b)"
  using write_append(3) [of vs "leb128 (ucast i)" depth]
  by (cases "write_payload vs [] depth") (auto simp: encode_len_append)

section \<open>The reader inverts the writer\<close>

text \<open>What a reader at the front of \<open>bs\<close> must return when the writer produced \<open>r\<close>.\<close>

definition at_front :: "ValueError + bytes \<Rightarrow> bytes \<Rightarrow> nat \<Rightarrow> bool" where
  "at_front r bs n \<longleftrightarrow> (\<exists>e. r = Inr e \<and> n = length e \<and> prefix e bs)"

lemma u16_index:
  "i < 65536 \<Longrightarrow> unat (word_of_nat i :: u16) = i"
  "unat (ucast (j::u16) :: u64) = unat j"
proof -
  have "unat j < 2 ^ 16" using unsigned_less [of j] by simp
  then have "take_bit 64 (unat j) = unat j" by (intro take_bit_nat_eq_self) simp
  then show "unat (ucast j :: u64) = unat j" by (simp add: unsigned_ucast_eq)
qed (simp add: unat_of_nat take_bit_nat_eq_self)

lemma prefix_append_drop: "prefix (a @ b) xs \<longleftrightarrow> prefix a xs \<and> prefix b (drop (length a) xs)"
  by (auto simp: prefix_def)

lemma write_member_scalar:
  "write_member (VScalar s) [] depth = Inr e \<longleftrightarrow>
     (\<exists>b. encode_value s = Inr b \<and> length b \<le> MAX_LEAF_BYTES \<and> e = leb128 (word_of_nat (length b)) @ b)"
  by (cases "encode_value s") (auto simp: encode_len_append simp del: rbind_Inr_iff)

lemma matches_variant_iff: "matches_variant ps i vs \<longleftrightarrow> i < length ps \<and> matches_all (ps ! i) vs"
  by (induction ps arbitrary: i) (auto simp: nth_Cons split: nat.splits)

lemma read_member_scalar:
  "read_member bs (ValueShape (NScalar k) d) depth = Some (v, n) \<longleftrightarrow>
     matches (ValueShape (NScalar k) d) v \<and> at_front (write_member v [] depth) bs n"
proof
  assume "read_member bs (ValueShape (NScalar k) d) depth = Some (v, n)"
  then obtain len p leaf s where *: "decode_len bs = Some (len, p)" "unat len \<le> MAX_LEAF_BYTES"
    "get_range bs p (p + unat len) = Some leaf" "decode_value leaf k = Some s" "v = VScalar s" "n = p + unat len"
    by (auto simp: bind_eq_Some_conv split: if_splits)
  then have p: "p = length (leb128 len)" "prefix (leb128 len) bs"
    and s: "scalar_wf s" "scalar_ty s = k" "encode_value s = Inr leaf"
    by (simp_all add: lengths.dec_iff decode_value_iff)
  have leaf: "length leaf = unat len" "leaf = take (unat len) (drop p bs)"
    using *(3) by (auto simp: get_range_def split: if_splits)
  then have "prefix (leb128 len @ leaf) bs" using p by (simp add: prefix_append_drop take_is_prefix)
  moreover have "write_member v [] depth = Inr (leb128 len @ leaf)"
    unfolding *(5) write_member_scalar using s leaf(1) *(2) by (intro exI [of _ leaf]) simp
  ultimately show "matches (ValueShape (NScalar k) d) v \<and> at_front (write_member v [] depth) bs n"
    using s * p leaf(1) by (auto simp: at_front_def)
next
  assume "matches (ValueShape (NScalar k) d) v \<and> at_front (write_member v [] depth) bs n"
  then obtain s b where *: "v = VScalar s" "scalar_wf s" "scalar_ty s = k" "encode_value s = Inr b"
    "length b \<le> MAX_LEAF_BYTES" "n = length (leb128 (word_of_nat (length b))) + length b"
    "prefix (leb128 (word_of_nat (length b)) @ b) bs"
    by (auto simp: at_front_def write_member_scalar simp del: write_member.simps)
  let ?l = "word_of_nat (length b) :: u64"
  have l: "unat ?l = length b" using *(5) by (simp add: unat_of_nat take_bit_nat_eq_self MAX_LEAF_BYTES_def)
  have p: "prefix (leb128 ?l) bs" "prefix b (drop (length (leb128 ?l)) bs)"
    using *(7) by (simp_all add: prefix_append_drop)
  then have "get_range bs (length (leb128 ?l)) (length (leb128 ?l) + length b) = Some b"
    using prefix_length_le [OF *(7)] by (auto simp: get_range_def prefix_def)
  moreover have "decode_value b k = Some s" using * by (simp add: decode_value_iff)
  moreover have "decode_len bs = Some (?l, length (leb128 ?l))" using p by (simp add: lengths.dec_iff)
  ultimately show "read_member bs (ValueShape (NScalar k) d) depth = Some (v, n)"
    using * l by simp
qed

lemma read_members_Cons:
  assumes u: "used \<le> length bs"
    and m: "\<And>v n. read_member (drop used bs) s depth = Some (v, n) \<longleftrightarrow>
              matches s v \<and> at_front (write_member v [] depth) (drop used bs) n"
    and ms: "\<And>x a vs n. read_member (drop used bs) s depth = Some (x, a) \<Longrightarrow> used + a \<le> length bs \<Longrightarrow>
              read_members bs (used + a) ss depth = Some (vs, n) \<longleftrightarrow>
              (\<exists>k. n = used + a + k \<and> matches_all ss vs \<and> at_front (write_payload vs [] depth) (drop (used + a) bs) k)"
  shows "read_members bs used (s # ss) depth = Some (vs, n) \<longleftrightarrow>
           (\<exists>k. n = used + k \<and> matches_all (s # ss) vs \<and> at_front (write_payload vs [] depth) (drop used bs) k)" (is "?l \<longleftrightarrow> ?r")
proof
  assume ?l
  then obtain v a ws where *: "read_member (drop used bs) s depth = Some (v, a)"
    "read_members bs (used + a) ss depth = Some (ws, n)" "vs = v # ws"
    using u by (auto simp: get_from_def bind_eq_Some_conv)
  then obtain e where e: "matches s v" "write_member v [] depth = Inr e" "a = length e" "prefix e (drop used bs)"
    by (auto simp: m at_front_def)
  have ua: "used + a \<le> length bs" using prefix_length_le [OF e(4)] e(3) u by simp
  with * obtain k f where f: "n = used + a + k" "matches_all ss ws" "write_payload ws [] depth = Inr f" "k = length f"
    "prefix f (drop (used + a) bs)"
    by (auto simp: ms [OF *(1) ua] at_front_def)
  have "prefix (e @ f) (drop used bs)" using e f by (simp add: prefix_append_drop add.commute)
  then show ?r
    using e f * by (auto simp: at_front_def write_payload_Cons simp del: write_payload.simps)
next
  assume ?r
  then obtain v ws e f where *: "vs = v # ws" "matches s v" "matches_all ss ws" "write_member v [] depth = Inr e"
    "write_payload ws [] depth = Inr f" "n = used + (length e + length f)" "prefix (e @ f) (drop used bs)"
    by (auto simp: at_front_def write_payload_Cons simp del: write_payload.simps)
  have p: "prefix e (drop used bs)" "prefix f (drop (used + length e) bs)"
    using *(7) by (simp_all add: prefix_append_drop add.commute)
  have "used + length e \<le> length bs" using prefix_length_le [OF p(1)] u by simp
  moreover have rm: "read_member (drop used bs) s depth = Some (v, length e)" using * p by (simp add: m at_front_def)
  ultimately have "read_members bs (used + length e) ss depth = Some (ws, n)"
    using * p by (simp add: ms [OF rm] at_front_def)
  moreover note rm
  ultimately show ?l using u *(1) by (simp add: get_from_def)
qed

lemma read_sum_iff:
  assumes d: "\<not> depth > MAX_DURABLE_VALUE_DEPTH" and len: "length variants \<le> 65536"
    and rv: "\<And>index used vs n. decode_len bs = Some (index, used) \<Longrightarrow> used \<le> length bs \<Longrightarrow>
       read_variant bs used variants (unat index) depth = Some (vs, n) \<longleftrightarrow>
       (\<exists>k. n = used + k \<and> matches_variant variants (unat index) vs
            \<and> at_front (write_payload vs [] depth) (drop used bs) k)"
  shows "read_composite bs (ValueShape (NSum ty variants) dd) depth = Some (v, n) \<longleftrightarrow>
     matches (ValueShape (NSum ty variants) dd) v \<and> at_front (write_composite v [] depth) bs n" (is "?l \<longleftrightarrow> ?r")
proof
  assume ?l
  then obtain index used vs where *: "decode_len bs = Some (index, used)"
    "read_variant bs used variants (unat index) depth = Some (vs, n)" "v = VSum ty (word_of_nat (unat index)) vs"
    using d by (auto simp: bind_eq_Some_conv)
  from *(1) have p: "used = length (leb128 index)" "prefix (leb128 index) bs" by (simp_all add: lengths.dec_iff)
  then have "used \<le> length bs" using prefix_length_le by simp
  with * rv obtain e where e: "n = used + length e" "matches_variant variants (unat index) vs"
    "write_payload vs [] depth = Inr e" "prefix e (drop used bs)"
    by (auto simp: at_front_def)
  then have i: "unat (word_of_nat (unat index) :: u16) = unat index"
    using len by (intro u16_index) (simp add: matches_variant_iff)
  then have ix: "ucast (word_of_nat (unat index) :: u16) = index"
    by (simp add: word_unat_eq_iff u16_index del: of_nat_unat)
  have "prefix (leb128 index @ e) bs" using p e by (simp add: prefix_append_drop)
  then show ?r using e i ix * p d by (auto simp: at_front_def write_sum simp del: write_composite.simps)
next
  assume ?r
  then obtain i vs e where *: "v = VSum ty i vs" "matches_variant variants (unat i) vs"
    "write_payload vs [] depth = Inr e" "n = length (leb128 (ucast i)) + length e" "prefix (leb128 (ucast i) @ e) bs"
    by (auto simp: at_front_def write_sum simp del: write_composite.simps)
  let ?i = "ucast i :: u64"
  have p: "prefix (leb128 ?i) bs" "prefix e (drop (length (leb128 ?i)) bs)" using *(5) by (simp_all add: prefix_append_drop)
  then have dl: "decode_len bs = Some (?i, length (leb128 ?i))" by (simp add: lengths.dec_iff)
  have "read_variant bs (length (leb128 ?i)) variants (unat ?i) depth = Some (vs, n)"
    using rv [OF dl prefix_length_le [OF p(1)]] * p by (auto simp: at_front_def u16_index)
  moreover have "(word_of_nat (unat ?i) :: u16) = i" by (simp add: u16_index del: of_nat_unat) simp
  ultimately show ?l using d dl * by simp
qed

lemma read_iff:
  "indexable s \<Longrightarrow> read_composite bs s depth = Some (v, n) \<longleftrightarrow>
     shape_scalar_kind s = None \<and> matches s v \<and> at_front (write_composite v [] depth) bs n"
  "list_all indexable ss \<Longrightarrow> used \<le> length bs \<Longrightarrow> read_members bs used ss depth = Some (vs, n) \<longleftrightarrow>
     (\<exists>k. n = used + k \<and> matches_all ss vs \<and> at_front (write_payload vs [] depth) (drop used bs) k)"
  "list_all (list_all indexable) ps \<Longrightarrow> used \<le> length bs \<Longrightarrow> read_variant bs used ps i depth = Some (vs, n) \<longleftrightarrow>
     (\<exists>k. n = used + k \<and> matches_variant ps i vs \<and> at_front (write_payload vs [] depth) (drop used bs) k)"
  "indexable t \<Longrightarrow> read_member bs t depth = Some (v, n) \<longleftrightarrow>
     matches t v \<and> at_front (write_member v [] depth) bs n"
proof (induction bs s depth and bs used ss depth and bs used ps i depth and bs t depth
    arbitrary: v n and vs n and vs n and v n
    rule: read_composite_read_members_read_variant_read_member.induct)
  case (2 bs ty fs d depth)
  then show ?case
    by (cases "depth > MAX_DURABLE_VALUE_DEPTH")
      (auto simp: at_front_def bind_eq_Some_conv write_fields_dense)
next
  case (3 bs ty variants d depth)
  have vs: "length variants \<le> 65536" "list_all (list_all indexable) variants" using "3.prems" by simp_all
  show ?case
  proof (cases "depth > MAX_DURABLE_VALUE_DEPTH")
    case False
    show ?thesis
      using "3.IH" [OF False _ _ vs(2)] read_sum_iff [OF False vs(1)] by auto
  qed (auto simp: at_front_def)
next
  case (4 bs used depth)
  then show ?case by (auto simp: at_front_def)
next
  case (5 bs used field fs depth)
  have ix: "indexable field" "list_all indexable fs" using "5.prems" by simp_all
  show ?case
  proof (rule read_members_Cons)
    show "read_member (drop used bs) field depth = Some (v, n) \<longleftrightarrow>
        matches field v \<and> at_front (write_member v [] depth) (drop used bs) n" for v n
      using "5.IH"(1) ix "5.prems"(2) by (simp add: get_from_def)
    show "read_members bs (used + a) fs depth = Some (vs, n) \<longleftrightarrow>
        (\<exists>k. n = used + a + k \<and> matches_all fs vs \<and> at_front (write_payload vs [] depth) (drop (used + a) bs) k)"
      if "read_member (drop used bs) field depth = Some (x, a)" "used + a \<le> length bs" for x a vs n
      using "5.IH"(2) ix that "5.prems"(2) by (simp add: get_from_def)
  qed (use "5.prems" in simp)
next
  case (8 bs k d depth)
  then show ?case using read_member_scalar by blast
next
  case (9 bs ty fs d depth)
  then show ?case by auto
next
  case (10 bs ty variants d depth)
  then show ?case by auto
qed auto

section \<open>Properties\<close>

lemma prefix_same_length: "prefix a b \<Longrightarrow> length b = length a \<Longrightarrow> a = b"
  by (auto simp: prefix_def)

lemma capped_Inr: "rbind r (\<lambda>b. if length b > n then Inl e else Inr b) = Inr x \<longleftrightarrow> r = Inr x \<and> length x \<le> n"
  by (cases r) auto

lemma domain_iff:
  assumes "indexable s" "length bs \<le> MAX_DURABLE_VALUE_BYTES"
  shows "decode_domain bs s = Some v \<longleftrightarrow> matches s v \<and> encode_domain v = Inr bs"
proof (cases "shape_scalar_kind s")
  case (Some k)
  then obtain d where s: "s = ValueShape (NScalar k) d" by (cases s rule: shape_scalar_kind.cases) auto
  show ?thesis
  proof (cases v)
    case (VScalar z)
    with s assms(2) show ?thesis
      by (cases "encode_value z")
        (auto simp: decode_domain_def decode_value_iff encode_domain_def simp del: rbind_Inr_iff)
  qed (auto simp: s decode_domain_def)
next
  case None
  have "decode_domain bs s = Some v \<longleftrightarrow> matches s v \<and> write_composite v [] 1 = Inr bs"
    using None read_iff(1) [OF assms(1), of bs 1 v "length bs"]
    by (auto simp: decode_domain_def at_front_def bind_eq_Some_conv dest!: prefix_same_length intro: exI [of _ "length bs"])
  moreover have "encode_domain v = Inr bs \<longleftrightarrow> write_composite v [] 1 = Inr bs" if "matches s v"
    using that None assms(2)
    by (cases s rule: shape_scalar_kind.cases) (auto simp: encode_domain_def capped_Inr simp del: write_composite.simps rbind_Inr_iff)
  ultimately show ?thesis by auto
qed


text \<open>
  C8. The composite codec is exact: within the size cap, a cell decodes under a shape to a value
  exactly when the value matches the shape and the cell is the value's own encoding. So every
  stored value reads back, one value has one encoding, and a non-minimal length, an undeclared
  variant, an over-long leaf, an over-deep value or trailing bytes never decode. The shape's sums
  have at most 65536 variants, as their \<open>u16\<close> index requires.
\<close>

theorem domain_codec_exact:
  assumes "indexable s" "length bs \<le> MAX_DURABLE_VALUE_BYTES"
  shows "decode_domain bs s = Some v \<longleftrightarrow> matches s v \<and> encode_domain v = Inr bs"
  using assms by (rule domain_iff)

text \<open>A record of an optional integer, holding \<open>some(42)\<close>.\<close>

definition sample_shape :: ValueShape where
  "sample_shape = ValueShape (NProduct 7 [ValueShape (NSum 3 [[], [scalar_shape SkInt]]) 1, scalar_shape SkBool]) 2"

definition sample_value :: ValueDomain where
  "sample_value = VProduct 7 [Some (VSum 3 1 [VScalar (RInt 42)]), Some (VScalar (RBool True))]"

theorem domain_codec_exact_witness:
  "decode_domain [1, 2, 52, 50, 1, 49] sample_shape = Some sample_value"
proof -
  have "encode_domain sample_value = Inr [1, 2, 52, 50, 1, 49]"
    by (simp add: encode_domain_def sample_value_def encode_len_append MAX_DURABLE_VALUE_DEPTH_def MAX_LEAF_BYTES_def
        MAX_DURABLE_VALUE_BYTES_def leb128.simps dec_int_def dec.simps digit_byte_def)
  moreover have "matches sample_shape sample_value"
  proof -
    have "matches (ValueShape (NSum 3 [[], [scalar_shape SkInt]]) 1) (VSum 3 1 [VScalar (RInt 42)])"
      by (simp add: scalar_shape_def)
    then have "matches_all [ValueShape (NSum 3 [[], [scalar_shape SkInt]]) 1, scalar_shape SkBool]
        [VSum 3 1 [VScalar (RInt 42)], VScalar (RBool True)]"
      by (simp add: scalar_shape_def del: matches.simps(3))
    then show ?thesis
      unfolding sample_shape_def sample_value_def matches.simps
      by (intro exI [of _ "[VSum 3 1 [VScalar (RInt 42)], VScalar (RBool True)]"]) simp
  qed
  moreover have "indexable sample_shape" by (simp add: sample_shape_def scalar_shape_def)
  ultimately show ?thesis
    using domain_codec_exact [of sample_shape "[1, 2, 52, 50, 1, 49]" sample_value]
    by (simp add: MAX_DURABLE_VALUE_BYTES_def)
qed

text \<open>
  Every encoding is within the caps, and an over-deep value is refused whatever its size.
\<close>

lemma encode_domain_capped: "encode_domain v = Inr bs \<Longrightarrow> length bs \<le> MAX_DURABLE_VALUE_BYTES"
  by (simp add: encode_domain_def capped_Inr del: rbind_Inr_iff)

text \<open>
  The bound on the variant count is needed: the decoder narrows the variant index to \<open>u16\<close> without a
  check, so under a shape with more variants a cell is read back as another variant.
\<close>

lemma read_variant_nth: "i < length ps \<Longrightarrow> read_variant bs used ps i depth = read_members bs used (ps ! i) depth"
  by (induction ps arbitrary: i) (auto simp: nth_Cons split: nat.splits)

text \<open>A sum shape with \<open>n\<close> variants that carry no payload.\<close>

definition plain_sum :: "u16 \<Rightarrow> nat \<Rightarrow> ValueShape" where
  "plain_sum ty n = ValueShape (NSum ty (replicate n [])) 1"

lemma plain_sum_buildable: "buildable (plain_sum ty n)"
  using buildable.build [OF _ build_emit [of "plain_sum ty n"]] emit_no_shape
  by (simp add: plain_sum_def max_depth_def MAX_DURABLE_VALUE_DEPTH_def)

lemma decode_plain_sum:
  assumes "i < n" "i < 2 ^ 64"
  shows "decode_domain (leb128 (word_of_nat i)) (plain_sum ty n) = Some (VSum ty (word_of_nat i) [])"
proof -
  have "decode_len (leb128 (word_of_nat i)) = Some (word_of_nat i, length (leb128 (word_of_nat i)))"
    using lengths.dec_enc [of "word_of_nat i" "[]"] by simp
  moreover have "unat (word_of_nat i :: u64) = i" using assms(2) by (simp add: unat_of_nat take_bit_eq_mod)
  moreover have "(ucast (word_of_nat i :: u64) :: u16) = word_of_nat i"
    using assms(2) by (simp add: unsigned_of_nat take_bit_eq_mod)
  ultimately show ?thesis
    using assms(1) by (simp add: decode_domain_def plain_sum_def read_variant_nth MAX_DURABLE_VALUE_DEPTH_def)
qed

lemma decode_len_loop_groups: "decode_len_loop n i acc shift bs = Some (w, m) \<Longrightarrow> m \<le> i + n"
  by (induction n i acc shift bs rule: decode_len_loop.induct) (fastforce simp: Let_def split: if_splits)+

lemma leb128_short: "length (leb128 v) \<le> 10"
  using lengths.dec_enc [of v "[]"] by (auto simp: decode_len_def MAX_GROUPS_def dest: decode_len_loop_groups)

text \<open>
  C17. The variant index of a decoded sum is truncated to sixteen bits. A shape with more than 65536
  variants is accepted by the builder; under it the cell of any variant index \<open>i\<close> from 65536 on decodes to
  the variant \<open>i mod 65536\<close>, which is also what the cell of that smaller index decodes to. Two distinct
  cells hold the same value, and its encoding is the smaller one's.
\<close>

lemma variant_index_wraps:
  assumes "65536 \<le> i" "i < n" "i < 2 ^ 64"
  shows "buildable (plain_sum ty n)
     \<and> decode_domain (leb128 (word_of_nat i)) (plain_sum ty n) = Some (VSum ty (word_of_nat (i mod 65536)) [])
     \<and> decode_domain (leb128 (word_of_nat (i mod 65536))) (plain_sum ty n) = Some (VSum ty (word_of_nat (i mod 65536)) [])
     \<and> encode_domain (VSum ty (word_of_nat (i mod 65536)) []) = Inr (leb128 (word_of_nat (i mod 65536)))
     \<and> leb128 (word_of_nat (i mod 65536)) \<noteq> leb128 (word_of_nat i)"
proof -
  have small: "i mod 65536 < n" "i mod 65536 < 2 ^ 64" "i mod 65536 < 65536"
    using assms mod_less_divisor [of 65536 i] by simp_all
  have narrow: "(word_of_nat i :: u16) = word_of_nat (i mod 65536)"
    by (rule word_unat_eq_iff [THEN iffD2]) (simp add: unat_of_nat take_bit_eq_mod)
  have widen: "ucast (word_of_nat (i mod 65536) :: u16) = (word_of_nat (i mod 65536) :: u64)"
    using small(3) by (simp add: unsigned_of_nat take_bit_eq_mod)
  have "(word_of_nat (i mod 65536) :: u64) \<noteq> word_of_nat i"
    using small assms by (simp add: word_unat_eq_iff unat_of_nat take_bit_eq_mod)
  then have "leb128 (word_of_nat (i mod 65536)) \<noteq> leb128 (word_of_nat i)"
    by (metis append_Nil2 decode_len_encode option.inject prod.inject)
  moreover have "encode_domain (VSum ty (word_of_nat (i mod 65536)) []) = Inr (leb128 (word_of_nat (i mod 65536)))"
    using leb128_short [of "word_of_nat (i mod 65536)"]
    by (simp add: encode_domain_def encode_len_append widen MAX_DURABLE_VALUE_DEPTH_def MAX_DURABLE_VALUE_BYTES_def)
  ultimately show ?thesis
    using plain_sum_buildable decode_plain_sum [OF assms(2,3)] decode_plain_sum [OF small(1,2)] by (simp add: narrow)
qed

text \<open>Index 65541 of a sum with 65600 variants reads as variant 5.\<close>

lemma variant_index_wraps_witness:
  "buildable (plain_sum 7 65600) \<and> decode_domain (leb128 65541) (plain_sum 7 65600) = Some (VSum 7 5 [])
   \<and> decode_domain (leb128 5) (plain_sum 7 65600) = Some (VSum 7 5 [])
   \<and> encode_domain (VSum 7 5 []) = Inr (leb128 5) \<and> leb128 5 \<noteq> leb128 65541"
  using variant_index_wraps [of 65541 65600 7] by simp

end
