(* ===== verification/Engine.thy ===== *)
theory Engine
  imports Prelude
begin

text \<open>
  The ordered-byte engine seam of \<open>crates/marrow-store/src/engine.rs\<close>: the limits, the paging rule,
  the error type and the two traits. A trait is a record of its methods over the state of the view
  or transaction; a method that takes \<open>&mut self\<close> returns the new state beside its result.

  The locale \<open>lawful_engine\<close> is the contract the kernel relies on: \<open>cells\<close> reads the ordered map a
  state holds, and the laws say what a successful call returns and stages. Of a read that returns an
  error only that the error is one of \<open>errs\<close> is known, of a write that does nothing.
\<close>

type_synonym Cell = "bytes \<times> bytes"

datatype StoreOp = OpOpen | OpProvision | OpServicePreparation | OpRecovery | OpRecoveryRead | OpAudit
  | OpBeginRead | OpBeginWrite | OpRead | OpScanAfter | OpPut | OpRemove | OpCommit | OpSyncParentDir

datatype StoreLimit = KeyLength | ValueLength | CommitWitnessGeneration

datatype StoreError =
    Io StoreOp string
  | PermissionDenied string
  | Locked string
  | FormatVersion u32 u32
  | StoreCorruption string
  | RecoveryRequired
  | LimitExceeded StoreLimit
  | ReadOnly StoreOp

datatype CommitOutcome = Confirmed | CommitAborted | CommitIndeterminate

definition MAX_KEY_LEN :: nat where "MAX_KEY_LEN = 4096"
definition MAX_VALUE_LEN :: nat where "MAX_VALUE_LEN = 2 ^ 20"
definition SCAN_MAX_RECORDS :: nat where "SCAN_MAX_RECORDS = 64"
definition SCAN_MAX_AGGREGATE_BYTES :: nat where "SCAN_MAX_AGGREGATE_BYTES = 2 ^ 20"

definition cell_within_limits :: "bytes \<Rightarrow> bytes \<Rightarrow> bool" where
  "cell_within_limits key v \<longleftrightarrow> length key \<le> MAX_KEY_LEN \<and> length v \<le> MAX_VALUE_LEN"

text \<open>\<open>usize::saturating_add\<close> on a 64-bit platform.\<close>

definition saturating_add :: "nat \<Rightarrow> nat \<Rightarrow> nat" where
  "saturating_add a b = min (a + b) (2 ^ 64 - 1)"

definition batch_is_full :: "nat \<Rightarrow> nat \<Rightarrow> nat \<Rightarrow> bool" where
  "batch_is_full records bytes_so_far next_size \<longleftrightarrow>
     records > 0 \<and> (records \<ge> SCAN_MAX_RECORDS
                    \<or> saturating_add bytes_so_far next_size > SCAN_MAX_AGGREGATE_BYTES)"

definition check_cell_limits :: "bytes \<Rightarrow> bytes \<Rightarrow> StoreError + unit" where
  "check_cell_limits key v =
     (if length key > MAX_KEY_LEN then Inl (LimitExceeded KeyLength)
      else if length v > MAX_VALUE_LEN then Inl (LimitExceeded ValueLength)
      else Inr ())"

lemma check_cell_limits_iff: "check_cell_limits key v = Inr () \<longleftrightarrow> cell_within_limits key v"
  by (simp add: check_cell_limits_def cell_within_limits_def)

section \<open>The shared forward collector\<close>

fun collect_loop :: "Cell list \<Rightarrow> bytes \<Rightarrow> Cell list \<Rightarrow> nat \<Rightarrow> Cell list" where
  "collect_loop [] p out aggregate = out"
| "collect_loop ((key, v) # entries) p out aggregate =
     (if \<not> prefix p key then out
      else let size = length key + length v
           in if batch_is_full (length out) aggregate size then out
              else collect_loop entries p (out @ [(key, v)]) (saturating_add aggregate size))"

definition collect_after :: "Cell list \<Rightarrow> bytes \<Rightarrow> Cell list" where
  "collect_after entries p = collect_loop entries p [] 0"

section \<open>The engine traits\<close>

record 's engine =
  eng_get :: "'s \<Rightarrow> bytes \<Rightarrow> StoreError + bytes option"
  eng_scan_after :: "'s \<Rightarrow> bytes \<Rightarrow> bytes \<Rightarrow> StoreError + Cell list"
  eng_put :: "bytes \<Rightarrow> bytes \<Rightarrow> 's \<Rightarrow> (StoreError + unit) \<times> 's"
  eng_remove :: "bytes \<Rightarrow> 's \<Rightarrow> (StoreError + unit) \<times> 's"

text \<open>
  A page after a cursor: some first part, in ascending order, of the cells under the prefix
  strictly after the cursor; empty only when there is none.
\<close>

definition page_of :: "(bytes \<rightharpoonup> bytes) \<Rightarrow> bytes \<Rightarrow> bytes \<Rightarrow> Cell list \<Rightarrow> bool" where
  "page_of m p c page \<longleftrightarrow>
     sorted_wrt (<) (map fst page)
     \<and> (\<forall>(k, v) \<in> set page. m k = Some v \<and> prefix p k \<and> c < k)
     \<and> (\<forall>k \<in> dom m. prefix p k \<and> c < k \<longrightarrow> page \<noteq> [] \<and> (k \<le> fst (last page) \<longrightarrow> k \<in> fst ` set page))"

lemma page_of_Nil: "page_of m p c [] \<longleftrightarrow> (\<forall>k \<in> dom m. prefix p k \<longrightarrow> \<not> c < k)"
  by (auto simp: page_of_def)

lemma page_of_first:
  assumes "page_of m p c ((k, v) # page)"
  shows "m k = Some v" "prefix p k" "c < k" "\<And>l. l \<in> dom m \<Longrightarrow> prefix p l \<Longrightarrow> c < l \<Longrightarrow> k \<le> l"
proof -
  show "m k = Some v" "prefix p k" "c < k" using assms by (auto simp: page_of_def)
  fix l assume l: "l \<in> dom m" "prefix p l" "c < l"
  have s: "sorted_wrt (<) (k # map fst page)" using assms by (simp add: page_of_def)
  show "k \<le> l"
  proof (cases "l \<le> fst (last ((k, v) # page))")
    case True
    with l assms have "l \<in> fst ` set ((k, v) # page)" unfolding page_of_def by blast
    with s show ?thesis by (auto simp: le_less)
  next
    case False
    moreover have "k \<le> fst (last ((k, v) # page))"
      using s by (cases "page = []") (auto simp: le_less dest: last_in_set)
    ultimately show ?thesis by simp
  qed
qed

locale lawful_view =
  fixes E :: "'s engine" and cells :: "'s \<Rightarrow> (bytes \<rightharpoonup> bytes)" and ok :: "'s \<Rightarrow> bool" and errs :: "StoreError set"
  assumes get_law: "ok s \<Longrightarrow> eng_get E s k = Inr v \<Longrightarrow> v = cells s k"
    and scan_law: "ok s \<Longrightarrow> prefix p c \<Longrightarrow> eng_scan_after E s p c = Inr page \<Longrightarrow> page_of (cells s) p c page"
    and get_errs: "eng_get E s k = Inl e \<Longrightarrow> e \<in> errs"
    and scan_errs: "eng_scan_after E s p c = Inl e \<Longrightarrow> e \<in> errs"
    and finite_cells: "ok s \<Longrightarrow> finite (dom (cells s))"

locale lawful_engine = lawful_view +
  assumes put_law: "ok s \<Longrightarrow> eng_put E k v s = (Inr (), s') \<Longrightarrow> ok s' \<and> cells s' = (cells s)(k \<mapsto> v)"
    and remove_law: "ok s \<Longrightarrow> eng_remove E k s = (Inr (), s') \<Longrightarrow> ok s' \<and> cells s' = (cells s)(k := None)"

section \<open>The collector returns a page\<close>

lemma collect_loop_take:
  "\<exists>n. collect_loop entries p out aggregate = out @ take n (takeWhile (\<lambda>(k, v). prefix p k) entries)
       \<and> (out = [] \<longrightarrow> takeWhile (\<lambda>(k, v). prefix p k) entries \<noteq> [] \<longrightarrow> 0 < n)"
proof (induction entries p out aggregate rule: collect_loop.induct)
  case (2 key v entries p out aggregate)
  show ?case
  proof (cases "prefix p key \<and> \<not> batch_is_full (length out) aggregate (length key + length v)")
    case True
    with 2 obtain n where "collect_loop entries p (out @ [(key, v)]) (saturating_add aggregate (length key + length v))
        = (out @ [(key, v)]) @ take n (takeWhile (\<lambda>(k, v). prefix p k) entries)" by auto
    with True show ?thesis by (intro exI [of _ "Suc n"]) simp
  next
    case False
    then show ?thesis by (intro exI [of _ 0]) (auto simp: batch_is_full_def Let_def)
  qed
qed simp

lemma collect_after_take:
  "\<exists>n. collect_after entries p = take n (takeWhile (\<lambda>(k, v). prefix p k) entries)
       \<and> (takeWhile (\<lambda>(k, v). prefix p k) entries \<noteq> [] \<longrightarrow> 0 < n)"
  using collect_loop_take [of entries p "[]" 0] by (simp add: collect_after_def)

text \<open>
  Each page is within the limits: at most 64 cells, and more than one cell only while the total
  stays within the aggregate limit.
\<close>

definition cells_bytes :: "Cell list \<Rightarrow> nat" where
  "cells_bytes cs = sum_list (map (\<lambda>(k, v). length k + length v) cs)"

lemma collect_loop_limits:
  assumes "length out \<le> SCAN_MAX_RECORDS" "length out \<le> 1 \<or> cells_bytes out \<le> SCAN_MAX_AGGREGATE_BYTES"
    "aggregate = min (cells_bytes out) (2 ^ 64 - 1)"
  shows "length (collect_loop entries p out aggregate) \<le> SCAN_MAX_RECORDS
     \<and> (length (collect_loop entries p out aggregate) \<le> 1
        \<or> cells_bytes (collect_loop entries p out aggregate) \<le> SCAN_MAX_AGGREGATE_BYTES)"
  using assms
proof (induction entries p out aggregate rule: collect_loop.induct)
  case (2 key v entries p out aggregate)
  show ?case
  proof (cases "prefix p key \<and> \<not> batch_is_full (length out) aggregate (length key + length v)")
    case True
    let ?out = "out @ [(key, v)]" and ?size = "length key + length v"
    have size: "cells_bytes ?out = cells_bytes out + ?size" by (simp add: cells_bytes_def)
    have nf: "out = [] \<or> length out < SCAN_MAX_RECORDS \<and> saturating_add aggregate ?size \<le> SCAN_MAX_AGGREGATE_BYTES"
      using True by (auto simp: batch_is_full_def)
    have a: "length ?out \<le> SCAN_MAX_RECORDS" using nf by (auto simp: SCAN_MAX_RECORDS_def)
    have b: "length ?out \<le> 1 \<or> cells_bytes ?out \<le> SCAN_MAX_AGGREGATE_BYTES"
      using nf "2.prems"(3) size by (auto simp: saturating_add_def SCAN_MAX_AGGREGATE_BYTES_def min_def split: if_splits)
    have c: "saturating_add aggregate ?size = min (cells_bytes ?out) (2 ^ 64 - 1)"
      using "2.prems"(3) size by (simp add: saturating_add_def min_def)
    have "\<not> \<not> prefix p key" "\<not> batch_is_full (length out) aggregate ?size" using True by auto
    from "2.IH" [OF this(1) refl this(2) a b c] show ?thesis using True by (simp add: Let_def)
  next
    case False
    then show ?thesis using "2.prems" by (auto simp: Let_def)
  qed
qed simp

end
