(* ===== verification/Mem_Engine.thy ===== *)
theory Mem_Engine
  imports Engine
begin

text \<open>
  The in-memory engine of \<open>crates/marrow-store/src/mem.rs\<close>. A \<open>BTreeMap\<close> is its list of cells in
  ascending key order without repetition; \<open>range\<close> from an excluded bound keeps the cells after it. A
  transaction holds the base map it will replace and its working copy; committing swaps the working
  copy in, dropping discards it.
\<close>

type_synonym BTree = "Cell list"

fun btree_insert :: "bytes \<Rightarrow> bytes \<Rightarrow> BTree \<Rightarrow> BTree" where
  "btree_insert k v [] = [(k, v)]"
| "btree_insert k v ((l, w) # m) =
     (if k < l then (k, v) # (l, w) # m else if k = l then (k, v) # m else (l, w) # btree_insert k v m)"

definition btree_remove :: "bytes \<Rightarrow> BTree \<Rightarrow> BTree" where
  "btree_remove k m = filter (\<lambda>(l, w). l \<noteq> k) m"

definition range_after :: "bytes \<Rightarrow> BTree \<Rightarrow> BTree" where
  "range_after cursor m = filter (\<lambda>(l, w). cursor < l) m"

record MemoryEngine =
  entries :: BTree

record MemTxn =
  txn_base :: BTree
  txn_working :: BTree

definition memory_engine_new :: MemoryEngine where
  "memory_engine_new = \<lparr>entries = []\<rparr>"

definition mem_collect_after :: "BTree \<Rightarrow> bytes \<Rightarrow> bytes \<Rightarrow> StoreError + Cell list" where
  "mem_collect_after m p cursor = Inr (collect_after (range_after cursor m) p)"

definition mem_view :: "MemoryEngine engine" where
  "mem_view =
     \<lparr>eng_get = \<lambda>s k. Inr (map_of (entries s) k),
      eng_scan_after = \<lambda>s. mem_collect_after (entries s),
      eng_put = \<lambda>k v s. (Inl (ReadOnly OpPut), s),
      eng_remove = \<lambda>k s. (Inl (ReadOnly OpRemove), s)\<rparr>"

definition mem_read_view :: "MemoryEngine \<Rightarrow> StoreError + MemoryEngine" where
  "mem_read_view e = Inr e"

definition mem_begin :: "MemoryEngine \<Rightarrow> StoreError + MemTxn" where
  "mem_begin e = Inr \<lparr>txn_base = entries e, txn_working = entries e\<rparr>"

definition mem_require_write_access :: "MemoryEngine \<Rightarrow> StoreOp \<Rightarrow> StoreError + unit" where
  "mem_require_write_access e op = Inr ()"

definition mem_audit_integrity :: "MemoryEngine \<Rightarrow> StoreError + unit" where
  "mem_audit_integrity e = Inr ()"

definition mem_get :: "MemTxn \<Rightarrow> bytes \<Rightarrow> StoreError + bytes option" where
  "mem_get t k = Inr (map_of (txn_working t) k)"

definition mem_scan_after :: "MemTxn \<Rightarrow> bytes \<Rightarrow> bytes \<Rightarrow> StoreError + Cell list" where
  "mem_scan_after t = mem_collect_after (txn_working t)"

definition mem_put :: "bytes \<Rightarrow> bytes \<Rightarrow> MemTxn \<Rightarrow> (StoreError + unit) \<times> MemTxn" where
  "mem_put k v t =
     (case check_cell_limits k v of
        Inl e \<Rightarrow> (Inl e, t)
      | Inr _ \<Rightarrow> (Inr (), t\<lparr>txn_working := btree_insert k v (txn_working t)\<rparr>))"

definition mem_remove :: "bytes \<Rightarrow> MemTxn \<Rightarrow> (StoreError + unit) \<times> MemTxn" where
  "mem_remove k t = (Inr (), t\<lparr>txn_working := btree_remove k (txn_working t)\<rparr>)"

text \<open>Committing consumes the transaction and leaves its working copy in the engine.\<close>

definition mem_commit :: "MemTxn \<Rightarrow> CommitOutcome \<times> MemoryEngine" where
  "mem_commit t = (Confirmed, \<lparr>entries = txn_working t\<rparr>)"

definition mem_drop :: "MemTxn \<Rightarrow> MemoryEngine" where
  "mem_drop t = \<lparr>entries = txn_base t\<rparr>"

definition mem_txn :: "MemTxn engine" where
  "mem_txn = \<lparr>eng_get = mem_get, eng_scan_after = mem_scan_after, eng_put = mem_put, eng_remove = mem_remove\<rparr>"

section \<open>The ordered map\<close>

definition btree_ok :: "BTree \<Rightarrow> bool" where
  "btree_ok m \<longleftrightarrow> sorted_wrt (<) (map fst m)"

lemma set_btree_insert: "fst ` set (btree_insert k v m) = insert k (fst ` set m)"
  by (induction k v m rule: btree_insert.induct) auto

lemma btree_ok_insert: "btree_ok m \<Longrightarrow> btree_ok (btree_insert k v m)"
proof (induction k v m rule: btree_insert.induct)
  case (2 k v l w m)
  have "\<forall>x \<in> fst ` set (btree_insert k v m). l < x" if "l < k"
    using 2 that by (auto simp: btree_ok_def set_btree_insert)
  with 2 show ?case by (auto simp: btree_ok_def not_less)
qed (simp add: btree_ok_def)

lemma map_of_btree_insert: "btree_ok m \<Longrightarrow> map_of (btree_insert k v m) = (map_of m)(k \<mapsto> v)"
proof (induction k v m rule: btree_insert.induct)
  case (2 k v l w m)
  have "k \<notin> fst ` set ((l, w) # m)" if "k < l" using 2 that by (auto simp: btree_ok_def)
  then have "k < l \<Longrightarrow> map_of ((l, w) # m) k = None" by (metis map_of_eq_None_iff)
  with 2 show ?case by (auto simp: btree_ok_def fun_eq_iff)
qed simp

lemma btree_ok_remove: "btree_ok m \<Longrightarrow> btree_ok (btree_remove k m)"
  by (auto simp: btree_ok_def btree_remove_def sorted_wrt_map intro: sorted_wrt_filter)

lemma map_of_btree_remove: "map_of (btree_remove k m) = (map_of m)(k := None)"
  by (induction m) (auto simp: btree_remove_def fun_eq_iff)

lemma btree_ok_distinct: "btree_ok m \<Longrightarrow> distinct (map fst m)"
  by (simp add: btree_ok_def strict_sorted_iff)

lemma filter_takeWhile_prefix:
  assumes "btree_ok m" "prefix p c"
  shows "takeWhile (\<lambda>(k, v). prefix p k) (range_after c m) = filter (\<lambda>(k, v). prefix p k \<and> c < k) m"
  using assms(1)
proof (induction m)
  case (Cons a m)
  obtain k v where a: "a = (k, v)" by fastforce
  have IH: "takeWhile (\<lambda>(k, v). prefix p k) (range_after c m) = filter (\<lambda>(k, v). prefix p k \<and> c < k) m"
    using Cons by (simp add: btree_ok_def)
  have "filter (\<lambda>(k, v). prefix p k \<and> c < k) m = []" if "c < k" "\<not> prefix p k"
  proof -
    have "\<not> prefix p l" if "(l, w) \<in> set m" for l w
    proof
      assume "prefix p l"
      then have "l < k" using prefix_contiguous [OF assms(2) \<open>c < k\<close> \<open>\<not> prefix p k\<close>] lex_lt_less by blast
      moreover have "k < l" using Cons.prems a that by (force simp: btree_ok_def)
      ultimately show False by simp
    qed
    then show ?thesis by (auto simp: filter_empty_conv)
  qed
  with IH a show ?case by (auto simp: range_after_def)
qed (simp add: range_after_def)

lemma last_less_tail: "sorted_wrt (<) (xs @ ys) \<Longrightarrow> xs \<noteq> [] \<Longrightarrow> k \<in> set ys \<Longrightarrow> last xs < k" for k :: "'a::linorder"
  by (simp add: sorted_wrt_append)

text \<open>A scan that starts inside its prefix returns a page of the map.\<close>

lemma take_filter_page:
  assumes "btree_ok m" "n > 0 \<or> filter (\<lambda>(k, v). prefix p k \<and> c < k) m = []"
  shows "page_of (map_of m) p c (take n (filter (\<lambda>(k, v). prefix p k \<and> c < k) m))"
proof -
  let ?f = "filter (\<lambda>(k, v). prefix p k \<and> c < k) m"
  have s: "sorted_wrt (<) (map fst ?f)"
    using assms(1) by (auto simp: btree_ok_def sorted_wrt_map intro: sorted_wrt_filter)
  have "k \<in> fst ` set (take n ?f)" if "k \<in> fst ` set ?f" "take n ?f \<noteq> []" "k \<le> fst (last (take n ?f))" for k
  proof (rule ccontr)
    assume n: "k \<notin> fst ` set (take n ?f)"
    have f: "?f = take n ?f @ drop n ?f" by simp
    then have "k \<in> fst ` set (drop n ?f)" using that(1) n by (metis (no_types, lifting) Un_iff image_Un set_append)
    moreover have "sorted_wrt (<) (map fst (take n ?f) @ map fst (drop n ?f))" using s f by (metis map_append)
    ultimately have "last (map fst (take n ?f)) < k"
      using that(2) last_less_tail [of "map fst (take n ?f)" "map fst (drop n ?f)" k]
      by (simp only: set_map map_is_Nil_conv simp_thms)
    then have "fst (last (take n ?f)) < k" using that(2) by (simp add: last_map)
    with that(3) show False by simp
  qed
  note closed = this
  have sorted: "sorted_wrt (<) (map fst (take n ?f))" using s by (simp add: take_map [symmetric] sorted_wrt_take)
  have sound: "\<forall>(k, v) \<in> set (take n ?f). map_of m k = Some v \<and> prefix p k \<and> c < k"
    using btree_ok_distinct [OF assms(1)] by (auto dest!: in_set_takeD)
  have complete: "take n ?f \<noteq> [] \<and> (k \<le> fst (last (take n ?f)) \<longrightarrow> k \<in> fst ` set (take n ?f))"
    if "k \<in> dom (map_of m)" "prefix p k" "c < k" for k
  proof -
    have k: "k \<in> fst ` set ?f" using that by (force dest: map_of_SomeD)
    then have "?f \<noteq> []" by (metis empty_iff empty_set image_empty)
    with assms(2) have "take n ?f \<noteq> []" by (simp only: take_eq_Nil) simp
    with closed [OF k] show ?thesis by blast
  qed
  show ?thesis unfolding page_of_def using sorted sound complete by blast
qed

lemma mem_collect_page:
  assumes "btree_ok m" "prefix p c" "mem_collect_after m p c = Inr page"
  shows "page_of (map_of m) p c page"
proof -
  obtain n where "collect_after (range_after c m) p = take n (takeWhile (\<lambda>(k, v). prefix p k) (range_after c m))"
    "takeWhile (\<lambda>(k, v). prefix p k) (range_after c m) \<noteq> [] \<longrightarrow> 0 < n"
    using collect_after_take by blast
  with assms take_filter_page [OF assms(1), of n p c] show ?thesis
    by (auto simp: mem_collect_after_def filter_takeWhile_prefix)
qed

section \<open>The memory engine meets the contract\<close>

definition txn_cells :: "MemTxn \<Rightarrow> (bytes \<rightharpoonup> bytes)" where
  "txn_cells t = map_of (txn_working t)"

definition txn_ok :: "MemTxn \<Rightarrow> bool" where
  "txn_ok t \<longleftrightarrow> btree_ok (txn_working t)"

lemmas mem_defs = mem_txn_def mem_get_def mem_scan_after_def mem_put_def mem_remove_def txn_cells_def txn_ok_def

lemma mem_collect_total [simp]: "mem_collect_after m p c \<noteq> Inl e"
  by (simp add: mem_collect_after_def)

interpretation mem: lawful_engine mem_txn txn_cells txn_ok "{}"
  by unfold_locales
    (auto simp: mem_defs mem_collect_page finite_dom_map_of btree_ok_insert map_of_btree_insert
      btree_ok_remove map_of_btree_remove split: sum.splits)

section \<open>Properties\<close>

text \<open>
  A scan inside its prefix returns the first cells under the prefix after the cursor, in
  ascending order and without a gap, at least one when there is one, and within the page limits:
  at most 64 cells, and more than one only within the aggregate byte limit.
\<close>

theorem scan_after_returns_bounded_page:
  assumes "txn_ok t" "prefix p c" "mem_scan_after t p c = Inr page"
  shows "page_of (txn_cells t) p c page \<and> length page \<le> SCAN_MAX_RECORDS
         \<and> (length page \<le> 1 \<or> cells_bytes page \<le> SCAN_MAX_AGGREGATE_BYTES)"
proof -
  have "page = collect_loop (range_after c (txn_working t)) p [] 0"
    using assms(3) by (simp add: mem_scan_after_def mem_collect_after_def collect_after_def)
  with collect_loop_limits [of "[]" 0 "range_after c (txn_working t)" p] mem_collect_page [of "txn_working t" p c page] assms
  show ?thesis by (simp add: mem_defs cells_bytes_def)
qed

theorem scan_after_returns_bounded_page_witness:
  "page_of (txn_cells \<lparr>txn_base = [], txn_working = [([1], [5]), ([1, 2], [6]), ([2], [7])]\<rparr>) [1] [1] [([1, 2], [6])]"
  using scan_after_returns_bounded_page
    [of "\<lparr>txn_base = [], txn_working = [([1], [5]), ([1, 2], [6]), ([2], [7])]\<rparr>" "[1]" "[1]" "[([1, 2], [6])]"]
  by (simp add: txn_ok_def btree_ok_def mem_scan_after_def mem_collect_after_def collect_after_def range_after_def
      batch_is_full_def)

text \<open>The writes of a transaction, as a client issues them, and what they mean on a map.\<close>

datatype TxnWrite = WPut bytes bytes | WRemove bytes

fun mem_write :: "TxnWrite \<Rightarrow> MemTxn \<Rightarrow> MemTxn" where
  "mem_write (WPut k v) t = snd (mem_put k v t)"
| "mem_write (WRemove k) t = snd (mem_remove k t)"

fun write_map :: "TxnWrite \<Rightarrow> (bytes \<rightharpoonup> bytes) \<Rightarrow> (bytes \<rightharpoonup> bytes)" where
  "write_map (WPut k v) m = (if cell_within_limits k v then m(k \<mapsto> v) else m)"
| "write_map (WRemove k) m = m(k := None)"

lemma mem_write_refines:
  "txn_ok t \<Longrightarrow> txn_ok (mem_write w t) \<and> txn_cells (mem_write w t) = write_map w (txn_cells t)
     \<and> txn_base (mem_write w t) = txn_base t"
  by (cases w)
    (auto simp: mem_defs btree_ok_insert map_of_btree_insert btree_ok_remove map_of_btree_remove
      check_cell_limits_iff [symmetric] split: sum.splits)

lemma mem_writes_refine:
  "txn_ok t \<Longrightarrow> txn_ok (fold mem_write ws t) \<and> txn_cells (fold mem_write ws t) = fold write_map ws (txn_cells t)
     \<and> txn_base (fold mem_write ws t) = txn_base t"
  by (induction ws arbitrary: t) (auto simp: mem_write_refines)

text \<open>
  C9. A memory transaction is atomic: whatever writes it stages, dropping it leaves the engine as
  it was and committing installs exactly the staged map, in which an over-limit cell was refused
  without a trace.
\<close>

theorem mem_transaction_atomic:
  assumes "btree_ok (entries e)" "mem_begin e = Inr t"
  shows "mem_drop (fold mem_write ws t) = e
    \<and> (\<exists>e'. mem_commit (fold mem_write ws t) = (Confirmed, e') \<and> btree_ok (entries e')
            \<and> map_of (entries e') = fold write_map ws (map_of (entries e)))"
  using assms mem_writes_refine [of t ws]
  by (auto simp: mem_begin_def mem_drop_def mem_commit_def txn_ok_def txn_cells_def)

theorem mem_transaction_atomic_witness:
  "mem_drop (fold mem_write [WPut [7] [1], WRemove [9]] \<lparr>txn_base = [([9], [2])], txn_working = [([9], [2])]\<rparr>)
     = \<lparr>entries = [([9], [2])]\<rparr>"
  using mem_transaction_atomic [of "\<lparr>entries = [([9], [2])]\<rparr>"
      "\<lparr>txn_base = [([9], [2])], txn_working = [([9], [2])]\<rparr>" "[WPut [7] [1], WRemove [9]]"]
  by (simp add: btree_ok_def mem_begin_def)

end
