(* ===== verification/Physical.thy ===== *)
theory Physical
  imports Key_Codec
begin

text \<open>
  The physical cell layout of \<open>crates/marrow-kernel/src/durable/physical.rs\<close>: how entries, fields,
  groups, managed-index rows and metadata become byte keys, and how a scanned key is classified. A
  node number is a \<open>u32\<close>, written big-endian in four bytes; an index identity is sixteen bytes.

  The lemmas show that the layout is injective and that its families are disjoint, and where the
  cells of an entry lie in the byte order: marker, then own payload, then the cursor, then the next
  entry of the family.
\<close>

type_synonym NodeNumber = u32

definition push_component :: "bytes \<Rightarrow> NodeNumber \<Rightarrow> bytes" where
  "push_component out number = out @ be_bytes number"

definition ENTRY_FAMILY :: byte where "ENTRY_FAMILY = 0x01"
definition ENTRY_TAG :: byte where "ENTRY_TAG = 0x20"
definition FIELD_TAG :: byte where "FIELD_TAG = 0x10"
definition GROUP_TAG :: byte where "GROUP_TAG = 0x28"
definition MARKER_TERMINATOR :: byte where "MARKER_TERMINATOR = 0x00"
definition CURSOR_SENTINEL :: byte where "CURSOR_SENTINEL = 0xFF"
definition META_FAMILY :: byte where "META_FAMILY = 0x10"
definition INDEX_FAMILY :: byte where "INDEX_FAMILY = 0x02"
definition MARKER_VALUE :: bytes where "MARKER_VALUE = [0x01]"

lemmas layout_tags = ENTRY_FAMILY_def ENTRY_TAG_def FIELD_TAG_def GROUP_TAG_def MARKER_TERMINATOR_def
  CURSOR_SENTINEL_def META_FAMILY_def INDEX_FAMILY_def

definition entry_family_prefix :: "NodeNumber \<Rightarrow> bytes" where
  "entry_family_prefix family = push_component [ENTRY_FAMILY, ENTRY_TAG] family"

definition child_marker :: "bytes \<Rightarrow> KeyScalar list \<Rightarrow> bytes" where
  "child_marker out keys = out @ encode_key_tuple keys @ [MARKER_TERMINATOR]"

definition marker_key :: "NodeNumber \<Rightarrow> KeyScalar list \<Rightarrow> bytes" where
  "marker_key family keys = child_marker (entry_family_prefix family) keys"

definition stem_field_leaf :: "bytes \<Rightarrow> NodeNumber \<Rightarrow> bytes" where
  "stem_field_leaf stem field = push_component (stem @ [FIELD_TAG]) field"

definition field_leaf_range :: "bytes \<Rightarrow> bytes" where
  "field_leaf_range stem = stem @ [FIELD_TAG]"

definition stem_cursor :: "bytes \<Rightarrow> bytes" where
  "stem_cursor stem = (if stem = [] then [] else butlast stem @ [CURSOR_SENTINEL])"

definition group_stem :: "bytes \<Rightarrow> NodeNumber \<Rightarrow> bytes" where
  "group_stem stem grp = push_component (stem @ [GROUP_TAG]) grp"

definition meta_key :: "bytes \<Rightarrow> bytes" where
  "meta_key name = META_FAMILY # encode_escaped_bytes name"

definition index_cell_key :: "NodeNumber \<Rightarrow> bytes \<Rightarrow> KeyScalar list \<Rightarrow> bytes" where
  "index_cell_key root index_id projected =
     push_component [INDEX_FAMILY] root @ index_id @ encode_key_tuple projected"

definition index_cell_value :: "KeyScalar list \<Rightarrow> bytes" where
  "index_cell_value source_key = encode_key_tuple source_key"

definition decode_index_source_key :: "bytes \<Rightarrow> nat \<Rightarrow> KeyScalar list option" where
  "decode_index_source_key bs arity = decode_many decode_key_value bs arity"

definition strip_prefix_of :: "bytes \<Rightarrow> bytes \<Rightarrow> bytes option" where
  "strip_prefix_of p bs = (if prefix p bs then Some (drop (length p) bs) else None)"

datatype CellKind = Marker KeyScalar | Orphan | Foreign

definition classify_under_prefix :: "bytes \<Rightarrow> bytes \<Rightarrow> CellKind" where
  "classify_under_prefix p cell_key =
     (case strip_prefix_of p cell_key of
        None \<Rightarrow> Foreign
      | Some rest \<Rightarrow>
          (case decode_key_value rest of
             None \<Rightarrow> Orphan
           | Some (key, used) \<Rightarrow> if drop used rest = [MARKER_TERMINATOR] then Marker key else Orphan))"

datatype BelowMarker = OwnField | OwnGroup | CorruptBelow | ForeignBelow

definition below_marker :: "bytes \<Rightarrow> bytes \<Rightarrow> BelowMarker" where
  "below_marker stem cell_key =
     (case strip_prefix_of stem cell_key of
        Some (b # _) \<Rightarrow> if b = FIELD_TAG then OwnField else if b = GROUP_TAG then OwnGroup else CorruptBelow
      | _ \<Rightarrow> ForeignBelow)"

record Layer =
  layer_prefix :: bytes

definition layer_new :: "NodeNumber \<Rightarrow> KeyScalar list \<Rightarrow> Layer" where
  "layer_new family ancestor_keys =
     \<lparr>layer_prefix = entry_family_prefix family @ encode_key_tuple ancestor_keys\<rparr>"

definition layer_seek_from :: "Layer \<Rightarrow> KeyScalar \<Rightarrow> bytes" where
  "layer_seek_from layer from_key = layer_prefix layer @ encode_key_value from_key"

definition child_cursor :: "Layer \<Rightarrow> KeyScalar \<Rightarrow> bytes" where
  "child_cursor layer key = stem_cursor (child_marker (layer_prefix layer) [key])"

definition layer_classify :: "Layer \<Rightarrow> bytes \<Rightarrow> CellKind" where
  "layer_classify layer cell_key = classify_under_prefix (layer_prefix layer) cell_key"

record IndexLayer =
  index_prefix :: bytes

definition index_layer_new :: "NodeNumber \<Rightarrow> bytes \<Rightarrow> KeyScalar list \<Rightarrow> IndexLayer" where
  "index_layer_new root index_id fixed_cols = \<lparr>index_prefix = index_cell_key root index_id fixed_cols\<rparr>"

definition index_seek_from :: "IndexLayer \<Rightarrow> KeyScalar \<Rightarrow> bytes" where
  "index_seek_from layer from_key = index_prefix layer @ encode_key_value from_key"

definition skip_cursor :: "IndexLayer \<Rightarrow> KeyScalar \<Rightarrow> bytes" where
  "skip_cursor layer component = index_prefix layer @ encode_key_value component @ [CURSOR_SENTINEL]"

definition next_component :: "IndexLayer \<Rightarrow> bytes \<Rightarrow> KeyScalar option" where
  "next_component layer cell_key =
     (case strip_prefix_of (index_prefix layer) cell_key of
        None \<Rightarrow> None
      | Some rest \<Rightarrow> (case decode_key_value rest of None \<Rightarrow> None | Some (component, _) \<Rightarrow> Some component))"

section \<open>Injectivity\<close>

lemma number_inject [simp]: "be_bytes (m::u32) = be_bytes n \<longleftrightarrow> m = n"
proof -
  have "8 dvd LENGTH(32)" by simp
  then show ?thesis by (metis of_be_be_bytes)
qed

lemma number_append_inject [simp]: "be_bytes (m::u32) @ u = be_bytes n @ v \<longleftrightarrow> m = n \<and> u = v"
  by simp

text \<open>A key encoding opens with its kind's tag, which lies strictly between the terminator and the sentinel.\<close>

lemma encode_key_value_head:
  "\<exists>r. encode_key_value k = order_tag k # r" "0 < order_tag k" "order_tag k < CURSOR_SENTINEL"
  by (cases k; simp add: encode_key_value_simp order_tag_def key_tags layout_tags)+

lemma tuple_Nil [simp]: "encode_key_tuple [] = []"
  and tuple_Cons [simp]: "encode_key_tuple (k # ks) = encode_key_value k @ encode_key_tuple ks"
  by (simp_all add: encode_key_tuple_concat)

lemma tuple_append: "encode_key_tuple (ks @ ls) = encode_key_tuple ks @ encode_key_tuple ls"
  by (simp add: encode_key_tuple_concat)

lemma tuple_terminated_inject:
  "encode_key_tuple ks @ MARKER_TERMINATOR # u = encode_key_tuple ls @ MARKER_TERMINATOR # v \<longleftrightarrow> ks = ls \<and> u = v"
proof (induction ks arbitrary: ls)
  case Nil
  then show ?case
  proof (cases ls)
    case (Cons l ls')
    then show ?thesis using encode_key_value_head [of l] by (auto simp: MARKER_TERMINATOR_def)
  qed auto
next
  case (Cons k ks)
  show ?case
  proof (cases ls)
    case Nil
    then show ?thesis using encode_key_value_head [of k] by (auto simp: MARKER_TERMINATOR_def)
  next
    case (Cons l ls')
    with Cons.IH show ?thesis by (auto simp: keys.enc_append_inject)
  qed
qed

lemma marker_key_layout:
  "marker_key f ks = ENTRY_FAMILY # ENTRY_TAG # be_bytes f @ encode_key_tuple ks @ [MARKER_TERMINATOR]"
  by (simp add: marker_key_def child_marker_def entry_family_prefix_def push_component_def)

lemma field_leaf_layout: "stem_field_leaf stem n = stem @ FIELD_TAG # be_bytes n"
  by (simp add: stem_field_leaf_def push_component_def)

lemma group_stem_layout: "group_stem stem n = stem @ GROUP_TAG # be_bytes n"
  by (simp add: group_stem_def push_component_def)

lemma index_cell_layout: "index_cell_key r i ps = INDEX_FAMILY # be_bytes r @ i @ encode_key_tuple ps"
  by (simp add: index_cell_key_def push_component_def)

lemma marker_append_inject: "marker_key f ks @ u = marker_key g ls @ v \<longleftrightarrow> f = g \<and> ks = ls \<and> u = v"
  by (simp add: marker_key_layout number_append_inject tuple_terminated_inject)

lemma marker_inject [simp]: "marker_key f ks = marker_key g ls \<longleftrightarrow> f = g \<and> ks = ls"
  using marker_append_inject [of f ks "[]" g ls "[]"] by simp

lemma marker_append_Nil [simp]:
  "marker_key f ks = marker_key g ls @ v \<longleftrightarrow> f = g \<and> ks = ls \<and> v = []"
  "marker_key g ls @ v = marker_key f ks \<longleftrightarrow> f = g \<and> ks = ls \<and> v = []"
  using marker_append_inject [of f ks "[]" g ls v] marker_append_inject [of g ls v f ks "[]"] by auto

lemma prefix_marker_iff: "prefix (marker_key f ks) (marker_key g ls @ v) \<longleftrightarrow> f = g \<and> ks = ls"
  unfolding prefix_def by (metis marker_append_inject)

lemma field_leaf_inject [simp]: "stem_field_leaf s m = stem_field_leaf s n \<longleftrightarrow> m = n"
  by (simp add: field_leaf_layout)

lemma group_stem_inject: "group_stem s m @ u = group_stem s n @ v \<longleftrightarrow> m = n \<and> u = v"
  by (simp add: group_stem_layout number_append_inject)

text \<open>Every address the kernel uses, as one type.\<close>

datatype Address =
    AMarker NodeNumber "KeyScalar list"
  | AField NodeNumber "KeyScalar list" NodeNumber
  | AGroupField NodeNumber "KeyScalar list" NodeNumber NodeNumber
  | AIndex NodeNumber bytes "KeyScalar list"
  | AMeta bytes

fun address_key :: "Address \<Rightarrow> bytes" where
  "address_key (AMarker f ks) = marker_key f ks"
| "address_key (AField f ks n) = stem_field_leaf (marker_key f ks) n"
| "address_key (AGroupField f ks g n) = stem_field_leaf (group_stem (marker_key f ks) g) n"
| "address_key (AIndex r i ps) = index_cell_key r i ps"
| "address_key (AMeta name) = meta_key name"

fun address_ok :: "Address \<Rightarrow> bool" where
  "address_ok (AIndex r i ps) = (length i = 16)"
| "address_ok _ = True"

lemma entry_cell_cases:
  "address_key (AMarker f ks) = marker_key f ks @ []"
  "address_key (AField f ks n) = marker_key f ks @ FIELD_TAG # be_bytes n"
  "address_key (AGroupField f ks g n) = marker_key f ks @ GROUP_TAG # be_bytes g @ FIELD_TAG # be_bytes n"
  by (simp_all add: field_leaf_layout group_stem_layout)

lemma marker_not_other_family:
  "marker_key f ks @ u \<noteq> index_cell_key r i ps" "marker_key f ks \<noteq> index_cell_key r i ps"
  "marker_key f ks @ u \<noteq> meta_key name" "marker_key f ks \<noteq> meta_key name"
  "index_cell_key r i ps \<noteq> meta_key name"
  by (simp_all add: marker_key_layout index_cell_layout meta_key_def layout_tags)

lemmas families_disjoint = marker_not_other_family marker_not_other_family [symmetric]

lemma escaped_inject: "encode_escaped_bytes a = encode_escaped_bytes b \<longleftrightarrow> a = b"
  by (metis append_Nil2 decode_escaped_encode option.inject prod.inject)

lemma meta_key_inject: "meta_key a = meta_key b \<longleftrightarrow> a = b"
  by (simp add: meta_key_def escaped_inject)

lemma index_cell_inject:
  assumes "length i = 16" "length j = 16"
  shows "index_cell_key r i ps = index_cell_key q j qs \<longleftrightarrow> r = q \<and> i = j \<and> ps = qs"
proof -
  have "i @ encode_key_tuple ps = j @ encode_key_tuple qs \<longleftrightarrow> i = j \<and> ps = qs"
    using assms by (simp add: append_eq_append_conv tuple_inject)
  then show ?thesis by (simp only: index_cell_layout number_append_inject list.inject simp_thms)
qed

lemma address_key_inject:
  assumes "address_ok a" "address_ok b"
  shows "address_key a = address_key b \<longleftrightarrow> a = b"
  using assms
  by (cases a; cases b)
    (simp_all add: field_leaf_layout group_stem_layout marker_append_inject families_disjoint index_cell_inject
      meta_key_inject FIELD_TAG_def GROUP_TAG_def)

section \<open>Order and classification in a layer\<close>

lemma layer_prefix_new: "layer_prefix (layer_new f anc) = entry_family_prefix f @ encode_key_tuple anc"
  by (simp add: layer_new_def)

lemma layer_cell: "marker_key f (anc @ [k]) @ s = layer_prefix (layer_new f anc) @ encode_key_value k @ MARKER_TERMINATOR # s"
  by (simp add: layer_prefix_new marker_key_def child_marker_def tuple_append)

lemma layer_marker: "marker_key f (anc @ [k]) = layer_prefix (layer_new f anc) @ encode_key_value k @ [MARKER_TERMINATOR]"
  using layer_cell [of f anc k "[]"] by simp

lemma child_cursor_layout:
  "child_cursor (layer_new f anc) k = layer_prefix (layer_new f anc) @ encode_key_value k @ [CURSOR_SENTINEL]"
  by (simp add: child_cursor_def stem_cursor_def child_marker_def butlast_append)

lemma layer_prefix_below: "layer_prefix (layer_new f anc) < marker_key f (anc @ [k]) @ s"
  by (simp only: layer_cell) (rule less_append_self, simp)

lemma layer_seek_below: "layer_seek_from (layer_new f anc) l < marker_key f (anc @ [k]) @ s \<longleftrightarrow> l \<le> k"
  using keys.enc_append_less [of l "[]" k "MARKER_TERMINATOR # s"]
  by (simp add: layer_seek_from_def layer_cell le_less)

lemma child_cursor_below: "child_cursor (layer_new f anc) l < marker_key f (anc @ [k]) @ s \<longleftrightarrow> l < k"
  using keys.enc_append_less [of l "[CURSOR_SENTINEL]" k "MARKER_TERMINATOR # s"]
  by (simp add: child_cursor_layout layer_cell layout_tags)

lemma layer_cursors_inside [simp]:
  "prefix (layer_prefix (layer_new f anc)) (layer_seek_from (layer_new f anc) l)"
  "prefix (layer_prefix (layer_new f anc)) (child_cursor (layer_new f anc) l)"
  "prefix (layer_prefix (layer_new f anc)) (marker_key f (anc @ [k]) @ s)"
  "prefix (layer_prefix (layer_new f anc)) (marker_key f (anc @ [k]))"
  by (simp_all add: layer_seek_from_def child_cursor_layout layer_cell layer_marker)

lemma layer_classify_Marker:
  "layer_classify (layer_new f anc) c = Marker k \<longleftrightarrow> key_wf k \<and> c = marker_key f (anc @ [k])"
proof
  assume "layer_classify (layer_new f anc) c = Marker k"
  then show "key_wf k \<and> c = marker_key f (anc @ [k])"
    by (auto simp: layer_classify_def classify_under_prefix_def strip_prefix_of_def layer_marker keys.dec_iff
        prefix_def split: option.splits if_splits)
next
  assume "key_wf k \<and> c = marker_key f (anc @ [k])"
  then show "layer_classify (layer_new f anc) c = Marker k"
    by (simp add: layer_classify_def classify_under_prefix_def strip_prefix_of_def layer_marker keys.dec_enc)
qed

lemma layer_classify_Foreign:
  "layer_classify (layer_new f anc) c = Foreign \<longleftrightarrow> \<not> prefix (layer_prefix (layer_new f anc)) c"
  by (auto simp: layer_classify_def classify_under_prefix_def strip_prefix_of_def split: option.splits if_splits)

lemma layer_classify_Orphan:
  "layer_classify (layer_new f anc) c = Orphan \<longleftrightarrow>
     prefix (layer_prefix (layer_new f anc)) c \<and> (\<nexists>k. key_wf k \<and> c = marker_key f (anc @ [k]))"
  using layer_classify_Marker [of f anc c] layer_classify_Foreign [of f anc c]
  by (cases "layer_classify (layer_new f anc) c") auto

text \<open>What a cell of each kind of address is below the marker of an entry.\<close>

lemma below_marker_cell:
  "below_marker (marker_key f ks) (marker_key g ls @ b # r) =
     (if g = f \<and> ls = ks then if b = FIELD_TAG then OwnField else if b = GROUP_TAG then OwnGroup else CorruptBelow
      else ForeignBelow)"
  by (auto simp: below_marker_def strip_prefix_of_def prefix_marker_iff)

lemma below_marker_outside:
  "\<not> prefix (marker_key f ks) c \<Longrightarrow> below_marker (marker_key f ks) c = ForeignBelow"
  by (simp add: below_marker_def strip_prefix_of_def)

lemma below_marker_address:
  "below_marker (marker_key f ks) (address_key a) =
     (case a of
        AField g ls n \<Rightarrow> if g = f \<and> ls = ks then OwnField else ForeignBelow
      | AGroupField g ls m n \<Rightarrow> if g = f \<and> ls = ks then OwnGroup else ForeignBelow
      | _ \<Rightarrow> ForeignBelow)"
proof (cases a)
  case (AMarker g ls)
  then show ?thesis
    by (auto simp: below_marker_def strip_prefix_of_def prefix_def)
next
  case (AIndex r i ps)
  then show ?thesis by (auto intro!: below_marker_outside simp: prefix_def families_disjoint)
next
  case (AMeta name)
  then show ?thesis by (auto intro!: below_marker_outside simp: prefix_def families_disjoint)
qed (simp_all add: below_marker_cell field_leaf_layout group_stem_layout layout_tags)

lemma below_marker_Corrupt:
  "below_marker (marker_key f ks) c = CorruptBelow \<longleftrightarrow>
     (\<exists>b r. c = marker_key f ks @ b # r \<and> b \<notin> {FIELD_TAG, GROUP_TAG})"
  by (auto simp: below_marker_cell below_marker_def strip_prefix_of_def prefix_def split: list.splits if_splits)

section \<open>Order in an index layer\<close>

lemma index_cell_extends:
  "index_cell_key r i (fixed_cols @ k # rest) = index_prefix (index_layer_new r i fixed_cols) @ encode_key_value k @ encode_key_tuple rest"
  by (simp add: index_layer_new_def index_cell_layout tuple_append)

lemma tuple_below_sentinel: "\<not> [CURSOR_SENTINEL] < encode_key_tuple ks"
proof (cases ks)
  case (Cons k ks')
  then show ?thesis using encode_key_value_head [of k] by auto
qed simp

lemma index_prefix_below:
  "index_prefix (index_layer_new r i fixed_cols) < index_cell_key r i (fixed_cols @ k # rest)"
  by (simp only: index_cell_extends) (rule less_append_self, simp add: keys.enc_not_Nil)

lemma skip_cursor_below:
  "skip_cursor (index_layer_new r i fixed_cols) l < index_cell_key r i (fixed_cols @ k # rest) \<longleftrightarrow> l < k"
  using keys.enc_append_less [of l "[CURSOR_SENTINEL]" k "encode_key_tuple rest"] tuple_below_sentinel [of rest]
  by (simp add: skip_cursor_def index_cell_extends)

lemma index_seek_below:
  "index_seek_from (index_layer_new r i fixed_cols) l < index_cell_key r i (fixed_cols @ k # rest)
     \<longleftrightarrow> l < k \<or> l = k \<and> rest \<noteq> []"
  using keys.enc_append_less [of l "[]" k "encode_key_tuple rest"] tuple_inject [of rest "[]"]
  by (simp add: index_seek_from_def index_cell_extends)

lemma index_cursors_inside [simp]:
  "prefix (index_prefix (index_layer_new r i fixed_cols)) (skip_cursor (index_layer_new r i fixed_cols) l)"
  "prefix (index_prefix (index_layer_new r i fixed_cols)) (index_seek_from (index_layer_new r i fixed_cols) l)"
  "prefix (index_prefix (index_layer_new r i fixed_cols)) (index_cell_key r i (fixed_cols @ k # rest))"
  by (simp_all add: skip_cursor_def index_seek_from_def index_cell_extends)

lemma next_component_cell:
  "key_wf k \<Longrightarrow> next_component (index_layer_new r i fixed_cols) (index_cell_key r i (fixed_cols @ k # rest)) = Some k"
  by (simp add: next_component_def strip_prefix_of_def index_cell_extends keys.dec_enc)

lemma index_source_roundtrip:
  "decode_index_source_key bs n = Some ks \<longleftrightarrow> length ks = n \<and> list_all key_wf ks \<and> bs = index_cell_value ks"
  by (simp add: decode_index_source_key_def index_cell_value_def decode_tuple_iff)

section \<open>Properties\<close>

text \<open>
  C10. The layout is injective over every kind of cell: two addresses share a byte key only when
  they are the same address, whatever the key columns hold. No value of a key can make one entry's
  cell collide with another entry, field, group, index row or metadata cell.
\<close>

theorem physical_layout_injective:
  assumes "address_ok a" "address_ok b"
  shows "address_key a = address_key b \<longleftrightarrow> a = b"
  using assms by (rule address_key_inject)

theorem physical_layout_injective_witness:
  "address_key (AIndex 3 (replicate 16 7) [KInt 5]) \<noteq> address_key (AMarker 3 [KInt 5])"
  using physical_layout_injective [of "AIndex 3 (replicate 16 7) [KInt 5]" "AMarker 3 [KInt 5]"] by simp

text \<open>
  In the byte order an entry's marker comes first, its own payload follows it, the traversal
  cursor follows the payload, and the next entry of the layer follows the cursor; the inclusive
  seek for a key lies just below that key's marker. One cursor thus skips exactly one entry.
\<close>

theorem layer_cursor_skips_one_entry:
  "marker_key f (anc @ [k]) < stem_field_leaf (marker_key f (anc @ [k])) n
   \<and> stem_field_leaf (marker_key f (anc @ [k])) n < child_cursor (layer_new f anc) k
   \<and> stem_field_leaf (group_stem (marker_key f (anc @ [k])) g) n < child_cursor (layer_new f anc) k
   \<and> (child_cursor (layer_new f anc) k < marker_key f (anc @ [l]) \<longleftrightarrow> k < l)
   \<and> (layer_seek_from (layer_new f anc) k < marker_key f (anc @ [l]) \<longleftrightarrow> k \<le> l)"
proof -
  have "marker_key f (anc @ [k]) @ s < child_cursor (layer_new f anc) k" for s
    by (simp add: layer_cell child_cursor_layout layout_tags)
  then show ?thesis
    using child_cursor_below [of f anc k l "[]"] layer_seek_below [of f anc k l "[]"]
    by (simp add: field_leaf_layout group_stem_layout less_append_self)
qed

text \<open>
  C11. Classification inverts the layout. Under a layer a scanned cell is reported as the marker of a key
  exactly when it is that key's marker cell, as foreign exactly when it lies outside the layer, and as an
  orphan exactly when it lies inside and is the marker of no key. Below an entry's marker, of all the
  addresses of the store exactly the entry's own field leaves are reported as its fields and its own group
  leaves as its groups, every other address is foreign, and the cells with another tag are corrupt.
  The source key stored at an index cell decodes exactly from its own encoding.
\<close>

theorem classification_inverts_layout:
  "(layer_classify (layer_new f anc) c = Marker k \<longleftrightarrow> key_wf k \<and> c = marker_key f (anc @ [k]))
   \<and> (layer_classify (layer_new f anc) c = Foreign \<longleftrightarrow> \<not> prefix (entry_family_prefix f @ encode_key_tuple anc) c)
   \<and> (layer_classify (layer_new f anc) c = Orphan \<longleftrightarrow>
        prefix (entry_family_prefix f @ encode_key_tuple anc) c \<and> (\<nexists>l. key_wf l \<and> c = marker_key f (anc @ [l])))
   \<and> (below_marker (marker_key f ks) (address_key a) = OwnField \<longleftrightarrow> (\<exists>n. a = AField f ks n))
   \<and> (below_marker (marker_key f ks) (address_key a) = OwnGroup \<longleftrightarrow> (\<exists>g n. a = AGroupField f ks g n))
   \<and> below_marker (marker_key f ks) (address_key a) \<noteq> CorruptBelow
   \<and> (below_marker (marker_key f ks) c = CorruptBelow \<longleftrightarrow>
        (\<exists>b r. c = marker_key f ks @ b # r \<and> b \<notin> {FIELD_TAG, GROUP_TAG}))
   \<and> (decode_index_source_key bs n = Some ks \<longleftrightarrow> length ks = n \<and> list_all key_wf ks \<and> bs = index_cell_value ks)"
  using layer_classify_Marker layer_classify_Foreign layer_classify_Orphan
    below_marker_address [of f ks a] below_marker_Corrupt index_source_roundtrip
  by (simp add: layer_prefix_new split: Address.splits)

end
