(* ===== verification/Schema.thy ===== *)
theory Schema
  imports Value_Shape
begin

text \<open>
  The store schema of \<open>crates/marrow-kernel/src/durable/schema.rs\<close> and its builder. As for value
  shapes, the builder is a state machine over a flat stream of commands; its open containers are a
  stack with the innermost first. The one arm the source marks \<open>unreachable!\<close> sets \<open>ssb_panicked\<close>,
  which the invariant shows stays false. Names are strings, index identities sixteen bytes; the set
  of claimed identities is a list.
\<close>

definition MAX_DURABLE_DEPTH :: nat where "MAX_DURABLE_DEPTH = 16"

record FieldSchema =
  fd_name :: string
  fd_shape :: ValueShape
  fd_required :: bool

record GroupSchema =
  gp_name :: string
  gp_fields :: "FieldSchema list"

datatype BranchSchema =
  BranchSchema (br_name: string) (br_key: "ScalarKind list") (br_fields: "FieldSchema list")
    (br_branches: "BranchSchema list")

datatype IndexComponent = IcKey u16 | IcField u16

record IndexSchema =
  ix_id :: bytes
  ix_unique :: bool
  ix_projection :: "IndexComponent list"

record StoreSchema =
  ss_root_name :: string
  ss_key :: "ScalarKind list"
  ss_fields :: "FieldSchema list"
  ss_groups :: "GroupSchema list"
  ss_branches :: "BranchSchema list"
  ss_indexes :: "IndexSchema list"

text \<open>A position resolved against the table that declares it, and its lookup in a row, which panics out of range.\<close>

definition resolve_pos :: "'a list \<Rightarrow> u16 \<Rightarrow> u16 option" where
  "resolve_pos table position = (if unat position < length table then Some position else None)"

definition pos_of :: "u16 \<Rightarrow> 'a list \<Rightarrow> 'e halt + 'a" where
  "pos_of position row = nth_or_panic row (unat position)"

datatype SchemaBuildError = ScTooDeep | ScMisplaced | Unclosed | UnresolvedIndexComponent
  | NonScalarIndexComponent | EmptyIndexProjection | DuplicateIndexId | TooManyIndexes | KeylessRoot

datatype SchemaFrame =
    SfGroup string "FieldSchema list"
  | SfBranch string "ScalarKind list" "FieldSchema list" "BranchSchema list"

record StoreSchemaBuilder =
  ssb_root_name :: string
  ssb_key :: "ScalarKind list"
  ssb_fields :: "FieldSchema list"
  ssb_groups :: "GroupSchema list"
  ssb_branches :: "BranchSchema list"
  ssb_indexes :: "IndexSchema list"
  ssb_index_ids :: "bytes list"
  ssb_stack :: "SchemaFrame list"
  ssb_suppressed :: nat
  ssb_error :: "SchemaBuildError option"
  ssb_panicked :: bool

definition ssb_root :: "string \<Rightarrow> ScalarKind list \<Rightarrow> StoreSchemaBuilder" where
  "ssb_root name key =
     \<lparr>ssb_root_name = name, ssb_key = key, ssb_fields = [], ssb_groups = [], ssb_branches = [],
      ssb_indexes = [], ssb_index_ids = [], ssb_stack = [], ssb_suppressed = 0, ssb_error = None,
      ssb_panicked = False\<rparr>"

definition ssb_fail :: "SchemaBuildError \<Rightarrow> StoreSchemaBuilder \<Rightarrow> StoreSchemaBuilder" where
  "ssb_fail e b = (case ssb_error b of None \<Rightarrow> b\<lparr>ssb_error := Some e\<rparr> | Some _ \<Rightarrow> b)"

definition member_depth :: "StoreSchemaBuilder \<Rightarrow> nat" where
  "member_depth b = length (ssb_stack b) + 1"

definition ssb_field :: "string \<Rightarrow> ValueShape \<Rightarrow> bool \<Rightarrow> StoreSchemaBuilder \<Rightarrow> StoreSchemaBuilder" where
  "ssb_field name shape required b =
     (if ssb_suppressed b > 0 then b
      else if member_depth b > MAX_DURABLE_DEPTH then ssb_fail ScTooDeep b
      else let field = \<lparr>fd_name = name, fd_shape = shape, fd_required = required\<rparr>
           in case ssb_stack b of
                SfGroup n fs # st \<Rightarrow> b\<lparr>ssb_stack := SfGroup n (fs @ [field]) # st\<rparr>
              | SfBranch n k fs bs # st \<Rightarrow> b\<lparr>ssb_stack := SfBranch n k (fs @ [field]) bs # st\<rparr>
              | [] \<Rightarrow> b\<lparr>ssb_fields := ssb_fields b @ [field]\<rparr>)"

definition ssb_scalar_field :: "string \<Rightarrow> ScalarKind \<Rightarrow> bool \<Rightarrow> StoreSchemaBuilder \<Rightarrow> StoreSchemaBuilder" where
  "ssb_scalar_field name kind required b = ssb_field name (scalar_shape kind) required b"

definition ssb_open_group :: "string \<Rightarrow> StoreSchemaBuilder \<Rightarrow> StoreSchemaBuilder" where
  "ssb_open_group name b =
     (if ssb_suppressed b > 0 then b\<lparr>ssb_suppressed := ssb_suppressed b + 1\<rparr>
      else if ssb_stack b \<noteq> [] then ssb_fail ScMisplaced b
      else if member_depth b > MAX_DURABLE_DEPTH then ssb_fail ScTooDeep (b\<lparr>ssb_suppressed := 1\<rparr>)
      else b\<lparr>ssb_stack := SfGroup name [] # ssb_stack b\<rparr>)"

definition ssb_close_group :: "StoreSchemaBuilder \<Rightarrow> StoreSchemaBuilder" where
  "ssb_close_group b =
     (if ssb_suppressed b > 0 then b\<lparr>ssb_suppressed := ssb_suppressed b - 1\<rparr>
      else case ssb_stack b of
          SfGroup n fs # st \<Rightarrow>
            b\<lparr>ssb_stack := st, ssb_groups := ssb_groups b @ [\<lparr>gp_name = n, gp_fields = fs\<rparr>]\<rparr>
        | _ \<Rightarrow> ssb_fail ScMisplaced b)"

definition ssb_open_branch :: "string \<Rightarrow> ScalarKind list \<Rightarrow> StoreSchemaBuilder \<Rightarrow> StoreSchemaBuilder" where
  "ssb_open_branch name key b =
     (if ssb_suppressed b > 0 then b\<lparr>ssb_suppressed := ssb_suppressed b + 1\<rparr>
      else if (case ssb_stack b of SfGroup _ _ # _ \<Rightarrow> True | _ \<Rightarrow> False) then ssb_fail ScMisplaced b
      else if member_depth b > MAX_DURABLE_DEPTH then ssb_fail ScTooDeep (b\<lparr>ssb_suppressed := 1\<rparr>)
      else b\<lparr>ssb_stack := SfBranch name key [] [] # ssb_stack b\<rparr>)"

definition ssb_close_branch :: "StoreSchemaBuilder \<Rightarrow> StoreSchemaBuilder" where
  "ssb_close_branch b =
     (if ssb_suppressed b > 0 then b\<lparr>ssb_suppressed := ssb_suppressed b - 1\<rparr>
      else case ssb_stack b of
          SfBranch n k fs bs # st \<Rightarrow>
            (let branch = BranchSchema n k fs bs
             in case st of
                  SfBranch n' k' fs' bs' # st' \<Rightarrow> b\<lparr>ssb_stack := SfBranch n' k' fs' (bs' @ [branch]) # st'\<rparr>
                | SfGroup _ _ # _ \<Rightarrow> b\<lparr>ssb_stack := st, ssb_panicked := True\<rparr>
                | [] \<Rightarrow> b\<lparr>ssb_stack := [], ssb_branches := ssb_branches b @ [branch]\<rparr>)
        | _ \<Rightarrow> ssb_fail ScMisplaced b)"

fun check_component :: "ScalarKind list \<Rightarrow> FieldSchema list \<Rightarrow> IndexComponent \<Rightarrow> SchemaBuildError option" where
  "check_component key fs (IcKey column) =
     (if unat column \<ge> length key then Some UnresolvedIndexComponent else None)"
| "check_component key fs (IcField position) =
     (if unat position \<ge> length fs then Some UnresolvedIndexComponent
      else if shape_scalar_kind (fd_shape (fs ! unat position)) = None then Some NonScalarIndexComponent
      else None)"

fun first_refusal :: "('a \<Rightarrow> 'e option) \<Rightarrow> 'a list \<Rightarrow> 'e option" where
  "first_refusal f [] = None"
| "first_refusal f (x # xs) = (case f x of Some e \<Rightarrow> Some e | None \<Rightarrow> first_refusal f xs)"

definition ssb_index :: "bytes \<Rightarrow> bool \<Rightarrow> IndexComponent list \<Rightarrow> StoreSchemaBuilder \<Rightarrow> StoreSchemaBuilder" where
  "ssb_index ident uniq projection b =
     (if ssb_suppressed b > 0 then b
      else if ssb_stack b \<noteq> [] then ssb_fail ScMisplaced b
      else if projection = [] then ssb_fail EmptyIndexProjection b
      else if length (ssb_indexes b) > 65535 then ssb_fail TooManyIndexes b
      else if ident \<in> set (ssb_index_ids b) then ssb_fail DuplicateIndexId b
      else let b' = b\<lparr>ssb_index_ids := ident # ssb_index_ids b\<rparr>
           in case first_refusal (check_component (ssb_key b) (ssb_fields b)) projection of
                Some e \<Rightarrow> ssb_fail e b'
              | None \<Rightarrow> b'\<lparr>ssb_indexes := ssb_indexes b
                          @ [\<lparr>ix_id = ident, ix_unique = uniq, ix_projection = projection\<rparr>]\<rparr>)"

definition ssb_finish :: "StoreSchemaBuilder \<Rightarrow> SchemaBuildError + StoreSchema" where
  "ssb_finish b =
     (case ssb_error b of
        Some e \<Rightarrow> Inl e
      | None \<Rightarrow>
          if ssb_stack b \<noteq> [] \<or> ssb_suppressed b > 0 then Inl Unclosed
          else if ssb_key b = [] then Inl KeylessRoot
          else Inr \<lparr>ss_root_name = ssb_root_name b, ss_key = ssb_key b, ss_fields = ssb_fields b,
                    ss_groups = ssb_groups b, ss_branches = ssb_branches b, ss_indexes = ssb_indexes b\<rparr>)"

datatype SchemaCommand =
    CField string ValueShape bool
  | CScalarField string ScalarKind bool
  | COpenGroup string
  | CCloseGroup
  | COpenBranch string "ScalarKind list"
  | CCloseBranch
  | CIndex bytes bool "IndexComponent list"

fun ssb_step :: "SchemaCommand \<Rightarrow> StoreSchemaBuilder \<Rightarrow> StoreSchemaBuilder" where
  "ssb_step (CField n s r) = ssb_field n s r"
| "ssb_step (CScalarField n k r) = ssb_scalar_field n k r"
| "ssb_step (COpenGroup n) = ssb_open_group n"
| "ssb_step CCloseGroup = ssb_close_group"
| "ssb_step (COpenBranch n k) = ssb_open_branch n k"
| "ssb_step CCloseBranch = ssb_close_branch"
| "ssb_step (CIndex i u p) = ssb_index i u p"

definition build_schema :: "string \<Rightarrow> ScalarKind list \<Rightarrow> SchemaCommand list \<Rightarrow> SchemaBuildError + StoreSchema" where
  "build_schema name key cs = ssb_finish (fold ssb_step cs (ssb_root name key))"

section \<open>Well-formed schemas\<close>

text \<open>
  The nesting a branch adds: itself, and one more for a field of its own, or what its sub-branches
  add.
\<close>

fun branch_height :: "BranchSchema \<Rightarrow> nat" where
  "branch_height (BranchSchema n k fs bs) =
     1 + max (if fs = [] then 0 else 1) (foldr (\<lambda>b. max (branch_height b)) bs 0)"

text \<open>A component names a key column of the root, or a field of the root that holds a scalar.\<close>

fun component_ok :: "ScalarKind list \<Rightarrow> FieldSchema list \<Rightarrow> IndexComponent \<Rightarrow> bool" where
  "component_ok key fs (IcKey column) = (unat column < length key)"
| "component_ok key fs (IcField position) =
     (unat position < length fs \<and> (\<exists>kind d. fd_shape (fs ! unat position) = ValueShape (NScalar kind) d))"

definition index_ok :: "ScalarKind list \<Rightarrow> FieldSchema list \<Rightarrow> IndexSchema \<Rightarrow> bool" where
  "index_ok key fs ix \<longleftrightarrow> ix_projection ix \<noteq> [] \<and> (\<forall>c \<in> set (ix_projection ix). component_ok key fs c)"

definition schema_ok :: "StoreSchema \<Rightarrow> bool" where
  "schema_ok s \<longleftrightarrow>
     ss_key s \<noteq> []
     \<and> (\<forall>b \<in> set (ss_branches s). branch_height b \<le> MAX_DURABLE_DEPTH)
     \<and> (\<forall>ix \<in> set (ss_indexes s). index_ok (ss_key s) (ss_fields s) ix)
     \<and> distinct (map ix_id (ss_indexes s)) \<and> length (ss_indexes s) \<le> 65536"

fun frame_ok :: "nat \<Rightarrow> SchemaFrame \<Rightarrow> bool" where
  "frame_ok depth (SfGroup n fs) = (depth = 1)"
| "frame_ok depth (SfBranch n k fs bs) =
     (depth + (if fs = [] then 0 else 1) \<le> MAX_DURABLE_DEPTH
      \<and> (\<forall>b \<in> set bs. depth + branch_height b \<le> MAX_DURABLE_DEPTH))"

fun frames_ok :: "SchemaFrame list \<Rightarrow> bool" where
  "frames_ok [] = True"
| "frames_ok (f # st) \<longleftrightarrow>
     frame_ok (length st + 1) f \<and> (case st of SfGroup _ _ # _ \<Rightarrow> False | _ \<Rightarrow> True) \<and> frames_ok st"

definition ssb_ok :: "StoreSchemaBuilder \<Rightarrow> bool" where
  "ssb_ok b \<longleftrightarrow>
     frames_ok (ssb_stack b) \<and> \<not> ssb_panicked b
     \<and> (\<forall>b' \<in> set (ssb_branches b). branch_height b' \<le> MAX_DURABLE_DEPTH)
     \<and> (\<forall>ix \<in> set (ssb_indexes b). index_ok (ssb_key b) (ssb_fields b) ix \<and> ix_id ix \<in> set (ssb_index_ids b))
     \<and> distinct (map ix_id (ssb_indexes b)) \<and> length (ssb_indexes b) \<le> 65536"

lemma max_height_le: "foldr (\<lambda>b. max (branch_height b)) bs 0 \<le> n \<longleftrightarrow> (\<forall>b \<in> set bs. branch_height b \<le> n)"
  by (induction bs) auto

lemma branch_height_frame:
  assumes "frame_ok depth (SfBranch n k fs bs)" "1 \<le> depth"
  shows "depth - 1 + branch_height (BranchSchema n k fs bs) \<le> MAX_DURABLE_DEPTH"
proof -
  have "foldr (\<lambda>b. max (branch_height b)) bs 0 \<le> MAX_DURABLE_DEPTH - depth"
    using assms by (auto simp: max_height_le)
  then show ?thesis using assms by auto
qed

lemma shape_scalar_kind_None: "shape_scalar_kind s = None \<longleftrightarrow> (\<nexists>kind d. s = ValueShape (NScalar kind) d)"
  by (cases s rule: shape_scalar_kind.cases) auto

text \<open>The builder's check of a component decides whether the component is well-formed.\<close>

lemma check_component_iff: "check_component key fs c = None \<longleftrightarrow> component_ok key fs c"
  by (cases c) (auto simp: shape_scalar_kind_None)

lemma index_ok_checked:
  "index_ok key fs ix \<longleftrightarrow> ix_projection ix \<noteq> [] \<and> (\<forall>c \<in> set (ix_projection ix). check_component key fs c = None)"
  by (simp add: index_ok_def check_component_iff)

lemma component_ok_append: "component_ok key fs c \<Longrightarrow> component_ok key (fs @ gs) c"
  by (cases c) (auto simp: nth_append)

lemma index_ok_append: "index_ok key fs ix \<Longrightarrow> index_ok key (fs @ gs) ix"
  by (auto simp: index_ok_def component_ok_append)

lemma first_refusal_None: "first_refusal f xs = None \<longleftrightarrow> (\<forall>x \<in> set xs. f x = None)"
  by (induction xs) (auto split: option.splits)

lemma ssb_fail_ok [simp]: "ssb_ok (ssb_fail e b) = ssb_ok b"
  by (auto simp: ssb_ok_def ssb_fail_def split: option.splits)

lemma ssb_ok_field: "ssb_ok b \<Longrightarrow> ssb_ok (ssb_field n s r b)"
  by (auto simp: ssb_field_def member_depth_def Let_def split: list.splits SchemaFrame.splits)
    (auto simp: ssb_ok_def index_ok_append)

lemma ssb_ok_index: "ssb_ok b \<Longrightarrow> ssb_ok (ssb_index i u p b)"
proof -
  assume ok: "ssb_ok b"
  have "ssb_ok (b\<lparr>ssb_index_ids := i # ssb_index_ids b\<rparr>)" using ok by (auto simp: ssb_ok_def)
  moreover have "ssb_ok (b\<lparr>ssb_index_ids := i # ssb_index_ids b,
      ssb_indexes := ssb_indexes b @ [\<lparr>ix_id = i, ix_unique = u, ix_projection = p\<rparr>]\<rparr>)"
    if "p \<noteq> []" "i \<notin> set (ssb_index_ids b)" "length (ssb_indexes b) \<le> 65535"
      "first_refusal (check_component (ssb_key b) (ssb_fields b)) p = None"
    using ok that by (auto simp: ssb_ok_def index_ok_checked first_refusal_None)
  ultimately show ?thesis
    using ok by (auto simp: ssb_index_def Let_def split: option.splits)
qed

lemma ssb_ok_close_branch: "ssb_ok b \<Longrightarrow> ssb_ok (ssb_close_branch b)"
proof (cases "ssb_suppressed b > 0")
  case False
  assume ok: "ssb_ok b"
  show ?thesis
  proof (cases "ssb_stack b")
    case Nil
    then show ?thesis using ok False by (simp add: ssb_close_branch_def)
  next
    case (Cons f st)
    then have fr: "frame_ok (length st + 1) f" "frames_ok st" using ok by (simp_all add: ssb_ok_def)
    show ?thesis
    proof (cases f)
      case (SfBranch n k fs bs)
      have h: "length st + branch_height (BranchSchema n k fs bs) \<le> MAX_DURABLE_DEPTH"
        using branch_height_frame [of "length st + 1" n k fs bs] fr SfBranch by simp
      show ?thesis
      proof (cases st)
        case Nil
        then show ?thesis using ok False Cons SfBranch h
          by (auto simp: ssb_close_branch_def ssb_ok_def simp del: branch_height.simps)
      next
        case (Cons g st')
        then show ?thesis using ok False \<open>ssb_stack b = f # st\<close> SfBranch h fr
          by (cases g) (auto simp: ssb_close_branch_def ssb_ok_def simp del: branch_height.simps)
      qed
    qed (use ok False Cons in \<open>simp add: ssb_close_branch_def\<close>)
  qed
qed (simp add: ssb_close_branch_def ssb_ok_def)

lemma ssb_ok_step: "ssb_ok b \<Longrightarrow> ssb_ok (ssb_step c b)"
proof (induction c)
  case (COpenGroup n)
  then show ?case by (auto simp: ssb_open_group_def) (auto simp: ssb_ok_def)
next
  case CCloseGroup
  then show ?case
    by (auto simp: ssb_close_group_def split: list.splits SchemaFrame.splits) (auto simp: ssb_ok_def)
next
  case (COpenBranch n k)
  then show ?case
    by (auto simp: ssb_open_branch_def member_depth_def split: list.splits SchemaFrame.splits) (auto simp: ssb_ok_def)
qed (simp_all add: ssb_ok_field ssb_scalar_field_def ssb_ok_index ssb_ok_close_branch)

lemma ssb_ok_run: "ssb_ok b \<Longrightarrow> ssb_ok (fold ssb_step cs b)"
  by (induction cs arbitrary: b) (auto simp: ssb_ok_step)

lemma ssb_ok_root [simp]: "ssb_ok (ssb_root name key)"
  by (simp add: ssb_ok_def ssb_root_def)

lemma build_schema_ok: "build_schema name key cs = Inr s \<Longrightarrow> schema_ok s"
  using ssb_ok_run [OF ssb_ok_root [of name key], of cs]
  by (auto simp: build_schema_def ssb_finish_def ssb_ok_def schema_ok_def split: option.splits if_splits)

section \<open>Every well-formed schema is built\<close>

text \<open>The command stream of a schema: its fields, groups, branches and indexes in declaration order.\<close>

definition field_command :: "FieldSchema \<Rightarrow> SchemaCommand" where
  "field_command f = CField (fd_name f) (fd_shape f) (fd_required f)"

definition group_commands :: "GroupSchema \<Rightarrow> SchemaCommand list" where
  "group_commands g = COpenGroup (gp_name g) # map field_command (gp_fields g) @ [CCloseGroup]"

fun branch_commands :: "BranchSchema \<Rightarrow> SchemaCommand list" where
  "branch_commands (BranchSchema n k fs bs) =
     COpenBranch n k # map field_command fs @ concat (map branch_commands bs) @ [CCloseBranch]"

definition index_command :: "IndexSchema \<Rightarrow> SchemaCommand" where
  "index_command ix = CIndex (ix_id ix) (ix_unique ix) (ix_projection ix)"

definition schema_commands :: "StoreSchema \<Rightarrow> SchemaCommand list" where
  "schema_commands s =
     map field_command (ss_fields s) @ concat (map group_commands (ss_groups s))
     @ concat (map branch_commands (ss_branches s)) @ map index_command (ss_indexes s)"

lemma field_eta: "\<lparr>fd_name = fd_name f, fd_shape = fd_shape f, fd_required = fd_required f\<rparr> = f" by simp

lemma field_runs:
  assumes "ssb_suppressed b = 0"
  shows "ssb_stack b = [] \<Longrightarrow> fold ssb_step (map field_command fs) b = b\<lparr>ssb_fields := ssb_fields b @ fs\<rparr>"
    and "ssb_stack b = SfGroup n hs # st \<Longrightarrow> length st + 1 < MAX_DURABLE_DEPTH \<Longrightarrow>
           fold ssb_step (map field_command fs) b = b\<lparr>ssb_stack := SfGroup n (hs @ fs) # st\<rparr>"
    and "ssb_stack b = SfBranch n k hs bs # st \<Longrightarrow> fs = [] \<or> length st + 1 < MAX_DURABLE_DEPTH \<Longrightarrow>
           fold ssb_step (map field_command fs) b = b\<lparr>ssb_stack := SfBranch n k (hs @ fs) bs # st\<rparr>"
  using assms
  by (induction fs arbitrary: b hs)
    (auto simp: field_command_def ssb_field_def member_depth_def MAX_DURABLE_DEPTH_def Let_def field_eta)

lemma group_runs:
  assumes "ssb_suppressed b = 0" "ssb_stack b = []"
  shows "fold ssb_step (concat (map group_commands gs)) b = b\<lparr>ssb_groups := ssb_groups b @ gs\<rparr>"
  using assms
proof (induction gs arbitrary: b)
  case (Cons g gs)
  then show ?case
    using field_runs(2) [of "b\<lparr>ssb_stack := [SfGroup (gp_name g) []]\<rparr>" "gp_name g" "[]" "[]" "gp_fields g"]
    by (simp add: group_commands_def ssb_open_group_def ssb_close_group_def member_depth_def MAX_DURABLE_DEPTH_def)
qed simp

text \<open>A closed branch joins the branches of the open branch, or those of the root.\<close>

fun with_branches :: "BranchSchema list \<Rightarrow> StoreSchemaBuilder \<Rightarrow> StoreSchemaBuilder" where
  "with_branches bs b =
     (case ssb_stack b of
        SfBranch n k fs cs # st \<Rightarrow> b\<lparr>ssb_stack := SfBranch n k fs (cs @ bs) # st\<rparr>
      | _ \<Rightarrow> b\<lparr>ssb_branches := ssb_branches b @ bs\<rparr>)"

definition branch_host :: "StoreSchemaBuilder \<Rightarrow> bool" where
  "branch_host b \<longleftrightarrow> ssb_suppressed b = 0 \<and> (case ssb_stack b of SfGroup _ _ # _ \<Rightarrow> False | _ \<Rightarrow> True)"

lemma branches_run:
  "branch_host b \<Longrightarrow> length (ssb_stack b) + branch_height c \<le> MAX_DURABLE_DEPTH \<Longrightarrow>
     fold ssb_step (branch_commands c) b = with_branches [c] b"
proof (induction c arbitrary: b)
  case (BranchSchema n k fs bs)
  let ?top = "\<lambda>fs bs. SfBranch n k fs bs # ssb_stack b"
  have height: "length (ssb_stack b) + 1 + branch_height c \<le> MAX_DURABLE_DEPTH" if "c \<in> set bs" for c
  proof -
    have "branch_height c \<le> foldr (\<lambda>b. max (branch_height b)) bs 0" using that max_height_le by blast
    then show ?thesis using BranchSchema.prems(2) by simp
  qed
  have one: "fold ssb_step (branch_commands c) (b\<lparr>ssb_stack := ?top fs ds\<rparr>) = b\<lparr>ssb_stack := ?top fs (ds @ [c])\<rparr>"
    if "c \<in> set bs" for c ds
    using BranchSchema.IH [OF that, of "b\<lparr>ssb_stack := ?top fs ds\<rparr>"] height [OF that] BranchSchema.prems(1)
    by (simp add: branch_host_def)
  have subs: "fold ssb_step (concat (map branch_commands cs)) (b\<lparr>ssb_stack := ?top fs ds\<rparr>) = b\<lparr>ssb_stack := ?top fs (ds @ cs)\<rparr>"
    if "set cs \<subseteq> set bs" for cs ds
    using that by (induction cs arbitrary: ds) (simp_all add: one)
  have "fs = [] \<or> length (ssb_stack b) + 1 < MAX_DURABLE_DEPTH" using BranchSchema.prems(2) by (auto split: if_splits)
  then have "fold ssb_step (map field_command fs) (b\<lparr>ssb_stack := ?top [] []\<rparr>) = b\<lparr>ssb_stack := ?top fs []\<rparr>"
    using field_runs(3) [of "b\<lparr>ssb_stack := ?top [] []\<rparr>" n k "[]" "[]" "ssb_stack b" fs] BranchSchema.prems(1)
    by (simp add: branch_host_def)
  with subs [of bs "[]"] BranchSchema.prems show ?case
    by (auto simp: branch_host_def ssb_open_branch_def ssb_close_branch_def member_depth_def Let_def
        split: list.splits SchemaFrame.splits)
qed

lemma root_branches_run:
  assumes "ssb_suppressed b = 0" "ssb_stack b = []" "\<forall>c \<in> set bs. branch_height c \<le> MAX_DURABLE_DEPTH"
  shows "fold ssb_step (concat (map branch_commands bs)) b = b\<lparr>ssb_branches := ssb_branches b @ bs\<rparr>"
  using assms by (induction bs arbitrary: b) (simp_all add: branches_run branch_host_def)

lemma indexes_run:
  assumes "ssb_suppressed b = 0" "ssb_stack b = []" "\<forall>ix \<in> set ixs. index_ok (ssb_key b) (ssb_fields b) ix"
    "distinct (map ix_id ixs)" "ix_id ` set ixs \<inter> set (ssb_index_ids b) = {}" "length (ssb_indexes b) + length ixs \<le> 65536"
  shows "fold ssb_step (map index_command ixs) b =
     b\<lparr>ssb_indexes := ssb_indexes b @ ixs, ssb_index_ids := rev (map ix_id ixs) @ ssb_index_ids b\<rparr>"
  using assms
proof (induction ixs arbitrary: b)
  case (Cons ix ixs)
  have "first_refusal (check_component (ssb_key b) (ssb_fields b)) (ix_projection ix) = None" "ix_projection ix \<noteq> []"
    using Cons.prems(3) by (simp_all add: index_ok_checked first_refusal_None)
  then have "ssb_step (index_command ix) b =
      b\<lparr>ssb_indexes := ssb_indexes b @ [ix], ssb_index_ids := ix_id ix # ssb_index_ids b\<rparr>"
    using Cons.prems by (simp add: index_command_def ssb_index_def Let_def)
  then show ?case using Cons.prems by (simp add: Cons.IH disjoint_iff)
qed simp

lemma schema_commands_build:
  assumes "schema_ok s"
  shows "build_schema (ss_root_name s) (ss_key s) (schema_commands s) = Inr s"
  using assms
  by (simp add: build_schema_def schema_commands_def schema_ok_def ssb_root_def field_runs(1) group_runs root_branches_run
      indexes_run ssb_finish_def)

lemma build_schema_named: "build_schema name key cs = Inr s \<Longrightarrow> ss_root_name s = name \<and> ss_key s = key"
proof -
  have "ssb_root_name (fold ssb_step cs b) = ssb_root_name b \<and> ssb_key (fold ssb_step cs b) = ssb_key b" for b
  proof (induction cs arbitrary: b)
    case (Cons c cs)
    have "ssb_root_name (ssb_step c b) = ssb_root_name b \<and> ssb_key (ssb_step c b) = ssb_key b"
      by (cases c) (auto simp: ssb_field_def ssb_scalar_field_def ssb_open_group_def ssb_close_group_def ssb_open_branch_def
          ssb_close_branch_def ssb_index_def ssb_fail_def Let_def split: list.splits SchemaFrame.splits option.splits)
    with Cons show ?case by simp
  qed simp
  then show "build_schema name key cs = Inr s \<Longrightarrow> ss_root_name s = name \<and> ss_key s = key"
    by (auto simp: build_schema_def ssb_finish_def ssb_root_def split: option.splits if_splits)
qed

text \<open>
  C12. Whatever command stream drives it, the schema builder never reaches its unreachable arm and never
  opens more than sixteen nested containers. Some command stream yields a schema exactly when the schema is
  well-formed: a keyed root with the builder's name and key, branches within the depth bound, and at most
  65536 managed indexes with distinct identities and non-empty projections, whose every component names a
  declared key column or a declared field of scalar shape.
\<close>

theorem schema_builder_sound:
  "\<not> ssb_panicked (fold ssb_step cs (ssb_root name key))
   \<and> length (ssb_stack (fold ssb_step cs (ssb_root name key))) \<le> MAX_DURABLE_DEPTH
   \<and> ((\<exists>cs. build_schema name key cs = Inr s) \<longleftrightarrow> schema_ok s \<and> ss_root_name s = name \<and> ss_key s = key)"
proof -
  have "length st \<le> MAX_DURABLE_DEPTH" if "frames_ok st" for st
    using that by (cases st; cases "hd st") (auto simp: MAX_DURABLE_DEPTH_def)
  then have "\<not> ssb_panicked (fold ssb_step cs (ssb_root name key))"
    "length (ssb_stack (fold ssb_step cs (ssb_root name key))) \<le> MAX_DURABLE_DEPTH"
    using ssb_ok_run [OF ssb_ok_root [of name key], of cs] by (simp_all add: ssb_ok_def)
  moreover have "(\<exists>cs. build_schema name key cs = Inr s) \<longleftrightarrow> schema_ok s \<and> ss_root_name s = name \<and> ss_key s = key"
    using build_schema_ok build_schema_named schema_commands_build by blast
  ultimately show ?thesis by blast
qed

end
