(* ===== verification/Sites.thy ===== *)
theory Sites
  imports Schema
begin

text \<open>
  The checked site table of \<open>crates/marrow-kernel/src/durable/site.rs\<close> and the node counts of
  \<open>durable/mod.rs\<close> that bound it. A site names its target by positions; the projection builder
  resolves every position against the completed roots, and a published projection holds only
  resolved ones. A typed position (\<open>RootPos\<close>, \<open>FieldPos\<close>, ...) is its number; node counts are
  unbounded naturals, as no table of schemas in memory reaches \<open>2^64\<close> nodes.
\<close>

section \<open>Node counts\<close>

definition MAX_STORE_NODES :: nat where "MAX_STORE_NODES = 65536"

fun branch_node_count :: "BranchSchema list \<Rightarrow> nat" where
  "branch_node_count [] = 0"
| "branch_node_count (BranchSchema n k fs bs # rest) =
     (1 + length fs + branch_node_count bs) + branch_node_count rest"

definition root_node_count :: "StoreSchema \<Rightarrow> nat" where
  "root_node_count schema =
     1 + length (ss_fields schema) + sum_list (map (\<lambda>g. 1 + length (gp_fields g)) (ss_groups schema))
     + branch_node_count (ss_branches schema)"

section \<open>Targets and sites\<close>

datatype SiteTarget =
    StWholePayload
  | StFieldLeaf u16
  | StBranchEntry "u16 list"
  | StBranchField "u16 list" u16
  | StGroupEntry u16
  | StIndexScan u16
  | StIndexLookup u16

datatype CheckedTarget =
    WholePayload
  | FieldLeaf u16
  | BranchEntry "u16 list"
  | BranchField "u16 list" u16
  | GroupEntry u16
  | IndexScan u16
  | IndexLookup u16

record Site =
  site_root :: u16
  site_target :: CheckedTarget

datatype SiteSlot = Resolved Site | Parked

record StoreProjection =
  sp_roots :: "StoreSchema list"
  sp_sites :: "SiteSlot list"

datatype PendingSite = Named u16 SiteTarget | PendingParked

record StoreProjectionBuilder =
  spb_roots :: "StoreSchema list"
  spb_sites :: "PendingSite list"

datatype ProjectionBuildError = UnknownRoot | UnknownField | UnknownBranch | UnknownGroup | UnknownIndex
  | EmptyBranchPath | TooManySites | TooManyNodes

definition spb_default :: StoreProjectionBuilder where
  "spb_default = \<lparr>spb_roots = [], spb_sites = []\<rparr>"

definition spb_root :: "StoreSchema \<Rightarrow> StoreProjectionBuilder \<Rightarrow> StoreProjectionBuilder" where
  "spb_root schema b = b\<lparr>spb_roots := spb_roots b @ [schema]\<rparr>"

definition spb_site :: "u16 \<Rightarrow> SiteTarget \<Rightarrow> StoreProjectionBuilder \<Rightarrow> StoreProjectionBuilder" where
  "spb_site root target b = b\<lparr>spb_sites := spb_sites b @ [Named root target]\<rparr>"

definition spb_parked_site :: "StoreProjectionBuilder \<Rightarrow> StoreProjectionBuilder" where
  "spb_parked_site b = b\<lparr>spb_sites := spb_sites b @ [PendingParked]\<rparr>"

definition reproject :: "StoreProjection \<Rightarrow> StoreProjectionBuilder" where
  "reproject p = \<lparr>spb_roots = sp_roots p, spb_sites = []\<rparr>"

section \<open>Resolution\<close>

fun resolve_hops :: "BranchSchema list \<Rightarrow> u16 list \<Rightarrow> ProjectionBuildError halt + u16 list" where
  "resolve_hops level [] = Inr []"
| "resolve_hops level (step # path) =
     rbind (ok_or (resolve_pos level step) (Raise UnknownBranch)) (\<lambda>pos.
     rbind (pos_of pos level) (\<lambda>branch.
     rbind (resolve_hops (br_branches branch) path) (\<lambda>resolved. Inr (pos # resolved))))"

definition resolve_path :: "StoreSchema \<Rightarrow> u16 list \<Rightarrow> ProjectionBuildError halt + u16 list" where
  "resolve_path schema path =
     (if path = [] then Inl (Raise EmptyBranchPath) else resolve_hops (ss_branches schema) path)"

text \<open>The branch a path descends to; \<open>None\<close> for the empty path.\<close>

fun descend :: "BranchSchema list \<Rightarrow> BranchSchema option \<Rightarrow> u16 list \<Rightarrow> 'e halt + BranchSchema option" where
  "descend level branch [] = Inr branch"
| "descend level branch (pos # path) =
     rbind (pos_of pos level) (\<lambda>next. descend (br_branches next) (Some next) path)"

definition field_pos_at :: "StoreSchema \<Rightarrow> u16 list \<Rightarrow> u16 \<Rightarrow> 'e halt + u16 option" where
  "field_pos_at schema path field =
     rbind (descend (ss_branches schema) None path) (\<lambda>branch.
       Inr (case branch of
              Some b \<Rightarrow> resolve_pos (br_fields b) field
            | None \<Rightarrow> resolve_pos (ss_fields schema) field))"

fun resolve_target :: "StoreSchema \<Rightarrow> SiteTarget \<Rightarrow> ProjectionBuildError halt + CheckedTarget" where
  "resolve_target schema StWholePayload = Inr WholePayload"
| "resolve_target schema (StFieldLeaf field) =
     rbind (ok_or (resolve_pos (ss_fields schema) field) (Raise UnknownField)) (\<lambda>p. Inr (FieldLeaf p))"
| "resolve_target schema (StBranchEntry path) =
     rbind (resolve_path schema path) (\<lambda>p. Inr (BranchEntry p))"
| "resolve_target schema (StBranchField branch field) =
     rbind (resolve_path schema branch) (\<lambda>path.
     rbind (field_pos_at schema path field) (\<lambda>f.
     rbind (ok_or f (Raise UnknownField)) (\<lambda>p. Inr (BranchField path p))))"
| "resolve_target schema (StGroupEntry g) =
     rbind (ok_or (resolve_pos (ss_groups schema) g) (Raise UnknownGroup)) (\<lambda>p. Inr (GroupEntry p))"
| "resolve_target schema (StIndexScan i) =
     rbind (ok_or (resolve_pos (ss_indexes schema) i) (Raise UnknownIndex)) (\<lambda>p. Inr (IndexScan p))"
| "resolve_target schema (StIndexLookup i) =
     rbind (ok_or (resolve_pos (ss_indexes schema) i) (Raise UnknownIndex)) (\<lambda>p. Inr (IndexLookup p))"

definition resolve :: "StoreSchema list \<Rightarrow> u16 \<Rightarrow> SiteTarget \<Rightarrow> ProjectionBuildError halt + Site" where
  "resolve roots root target =
     rbind (ok_or (resolve_pos roots root) (Raise UnknownRoot)) (\<lambda>r.
     rbind (pos_of r roots) (\<lambda>schema.
     rbind (resolve_target schema target) (\<lambda>t.
       Inr \<lparr>site_root = r, site_target = t\<rparr>)))"

fun resolve_pending :: "StoreSchema list \<Rightarrow> PendingSite \<Rightarrow> ProjectionBuildError halt + SiteSlot" where
  "resolve_pending roots (Named root target) = rbind (resolve roots root target) (\<lambda>s. Inr (Resolved s))"
| "resolve_pending roots PendingParked = Inr Parked"

definition spb_finish :: "StoreProjectionBuilder \<Rightarrow> ProjectionBuildError halt + StoreProjection" where
  "spb_finish b =
     (if sum_list (map root_node_count (spb_roots b)) > MAX_STORE_NODES then Inl (Raise TooManyNodes)
      else if length (spb_sites b) > 65535 + 1 then Inl (Raise TooManySites)
      else rbind (traverse (resolve_pending (spb_roots b)) (spb_sites b)) (\<lambda>sites.
             Inr \<lparr>sp_roots = spb_roots b, sp_sites = sites\<rparr>))"

section \<open>What a valid target is\<close>

text \<open>
  The specification: a path is valid when each position names a branch of the level the previous one
  reached, and a target when its positions name what the schema declares.
\<close>

fun branch_at :: "BranchSchema list \<Rightarrow> u16 list \<Rightarrow> BranchSchema option" where
  "branch_at level [] = None"
| "branch_at level (pos # path) =
     (if unat pos < length level
      then if path = [] then Some (level ! unat pos) else branch_at (br_branches (level ! unat pos)) path
      else None)"

fun target_valid :: "StoreSchema \<Rightarrow> SiteTarget \<Rightarrow> bool" where
  "target_valid schema StWholePayload = True"
| "target_valid schema (StFieldLeaf f) = (unat f < length (ss_fields schema))"
| "target_valid schema (StBranchEntry path) = (branch_at (ss_branches schema) path \<noteq> None)"
| "target_valid schema (StBranchField path f) =
     (case branch_at (ss_branches schema) path of None \<Rightarrow> False | Some b \<Rightarrow> unat f < length (br_fields b))"
| "target_valid schema (StGroupEntry g) = (unat g < length (ss_groups schema))"
| "target_valid schema (StIndexScan i) = (unat i < length (ss_indexes schema))"
| "target_valid schema (StIndexLookup i) = (unat i < length (ss_indexes schema))"

fun checked :: "SiteTarget \<Rightarrow> CheckedTarget" where
  "checked StWholePayload = WholePayload"
| "checked (StFieldLeaf f) = FieldLeaf f"
| "checked (StBranchEntry path) = BranchEntry path"
| "checked (StBranchField path f) = BranchField path f"
| "checked (StGroupEntry g) = GroupEntry g"
| "checked (StIndexScan i) = IndexScan i"
| "checked (StIndexLookup i) = IndexLookup i"

fun pending_valid :: "StoreSchema list \<Rightarrow> PendingSite \<Rightarrow> bool" where
  "pending_valid roots (Named root target) = (unat root < length roots \<and> target_valid (roots ! unat root) target)"
| "pending_valid roots PendingParked = True"

fun published :: "PendingSite \<Rightarrow> SiteSlot" where
  "published (Named root target) = Resolved \<lparr>site_root = root, site_target = checked target\<rparr>"
| "published PendingParked = Parked"

section \<open>Resolution meets it\<close>

lemma pos_of_in [simp]: "unat p < length xs \<Longrightarrow> pos_of p xs = Inr (xs ! unat p)"
  by (simp add: pos_of_def)

lemma resolve_pos_eq: "resolve_pos xs p = (if unat p < length xs then Some p else None)"
  by (simp add: resolve_pos_def)

lemma ok_or_resolve_pos:
  "ok_or (resolve_pos xs p) e = (if unat p < length xs then Inr p else Inl e)"
  by (simp add: resolve_pos_eq)

lemma resolve_hops_eq:
  "resolve_hops level path =
     (if path = [] \<or> branch_at level path \<noteq> None then Inr path else Inl (Raise UnknownBranch))"
proof (induction level path rule: resolve_hops.induct)
  case (2 level step path)
  show ?case
  proof (cases "unat step < length level")
    case True
    with 2 show ?thesis by (auto simp: ok_or_resolve_pos)
  qed (simp add: ok_or_resolve_pos)
qed simp

lemma descend_branch_at:
  "path \<noteq> [] \<Longrightarrow> branch_at level path = Some b \<Longrightarrow> descend level c path = Inr (Some b)"
  by (induction level path arbitrary: c rule: branch_at.induct) (auto split: if_splits)

lemma resolve_target_never_panics:
  "resolve_target schema target \<noteq> Inl Panic"
proof (cases target)
  case (StBranchField path f)
  then show ?thesis
    by (cases "branch_at (ss_branches schema) path")
      (auto simp: resolve_path_def resolve_hops_eq field_pos_at_def descend_branch_at ok_or_resolve_pos)
qed (auto simp: ok_or_resolve_pos resolve_path_def resolve_hops_eq)

lemma resolve_target_valid:
  "resolve_target schema target = Inr t \<longleftrightarrow> target_valid schema target \<and> t = checked target"
proof (cases target)
  case (StBranchEntry path)
  then show ?thesis by (auto simp: resolve_path_def resolve_hops_eq)
next
  case (StBranchField path f)
  then show ?thesis
    by (cases "path = []"; cases "branch_at (ss_branches schema) path")
      (auto simp: resolve_path_def resolve_hops_eq field_pos_at_def descend_branch_at ok_or_resolve_pos)
qed (auto simp: ok_or_resolve_pos)

lemma resolve_pending_valid:
  "resolve_pending roots p = Inr slot \<longleftrightarrow> pending_valid roots p \<and> slot = published p"
proof (cases p)
  case (Named root target)
  show ?thesis
    by (cases "unat root < length roots")
      (auto simp: Named resolve_def ok_or_resolve_pos resolve_target_valid simp del: resolve_target.simps)
qed auto

lemma resolve_pending_never_panics: "resolve_pending roots p \<noteq> Inl Panic"
proof (cases p)
  case (Named root target)
  show ?thesis
  proof (cases "unat root < length roots")
    case True
    then show ?thesis
      using resolve_target_never_panics [of "roots ! unat root" target]
      by (cases "resolve_target (roots ! unat root) target") (auto simp: Named resolve_def ok_or_resolve_pos)
  qed (simp add: Named resolve_def ok_or_resolve_pos)
qed simp

lemma traverse_iff_all:
  assumes "\<And>x y. f x = Inr y \<longleftrightarrow> P x \<and> y = g x"
  shows "traverse f xs = Inr ys \<longleftrightarrow> list_all P xs \<and> ys = map g xs"
  by (induction xs arbitrary: ys) (auto simp: assms)

lemma traverse_never:
  assumes "\<And>x. f x \<noteq> Inl e"
  shows "traverse f xs \<noteq> Inl e"
proof (induction xs)
  case (Cons x xs)
  then show ?case using assms [of x] by (cases "f x"; cases "traverse f xs") auto
qed simp

lemma spb_finish_Inr:
  "spb_finish b = Inr p \<longleftrightarrow>
     sum_list (map root_node_count (spb_roots b)) \<le> MAX_STORE_NODES
     \<and> length (spb_sites b) \<le> 65536
     \<and> list_all (pending_valid (spb_roots b)) (spb_sites b)
     \<and> p = \<lparr>sp_roots = spb_roots b, sp_sites = map published (spb_sites b)\<rparr>"
  by (auto simp: spb_finish_def traverse_iff_all [OF resolve_pending_valid])

lemma spb_finish_never_panics: "spb_finish b \<noteq> Inl Panic"
  using traverse_never [of "resolve_pending (spb_roots b)" Panic "spb_sites b"] resolve_pending_never_panics
  by (cases "traverse (resolve_pending (spb_roots b)) (spb_sites b)") (auto simp: spb_finish_def)

text \<open>
  C13. The projection builder never panics, and publishes a projection exactly when the node and
  site limits hold and every named position names something its schema declares: the published
  table keeps the roots, the order of the slots, the parked ones and each target as it was named.
\<close>

theorem projection_published_iff_valid:
  "spb_finish b \<noteq> Inl Panic
   \<and> (spb_finish b = Inr p \<longleftrightarrow>
        sum_list (map root_node_count (spb_roots b)) \<le> MAX_STORE_NODES
        \<and> length (spb_sites b) \<le> 65536
        \<and> list_all (pending_valid (spb_roots b)) (spb_sites b)
        \<and> p = \<lparr>sp_roots = spb_roots b, sp_sites = map published (spb_sites b)\<rparr>)"
  by (simp only: spb_finish_never_panics spb_finish_Inr) simp

end
