(* ===== verification/Numbering.thy ===== *)
theory Numbering
  imports Sites Physical
begin

text \<open>
  The store-local cell-key numbers of \<open>crates/marrow-kernel/src/durable/mod.rs\<close>. The structural walk
  takes its numbers from an allocator, a closure with state: a function from the closure's state to
  an error or a number with the next state. The walk is shared by fresh numbering, whose closure
  counts, and accepted numbering, whose closure consumes a given sequence.
\<close>

type_synonym ('st, 'e) alloc = "'st \<Rightarrow> 'e + NodeNumber \<times> 'st"

record GroupNumbering =
  gn_number :: NodeNumber
  gn_fields :: "NodeNumber list"

datatype BranchNumbering =
  BranchNumbering (bn_number: NodeNumber) (bn_fields: "NodeNumber list") (bn_branches: "BranchNumbering list")

record RootNumbering =
  rn_root :: NodeNumber
  rn_fields :: "NodeNumber list"
  rn_groups :: "GroupNumbering list"
  rn_branches :: "BranchNumbering list"

record NumberedProjection =
  np_projection :: StoreProjection
  np_numbering :: "RootNumbering list"

datatype NumberingError = Count | Duplicate NodeNumber | HighWater NodeNumber u32

section \<open>The structural walk\<close>

text \<open>\<open>iter().map(f).collect::<Result<_, _>>()\<close> with the allocator's state threaded through.\<close>

fun collect_st :: "('a \<Rightarrow> 'st \<Rightarrow> 'e + 'b \<times> 'st) \<Rightarrow> 'a list \<Rightarrow> 'st \<Rightarrow> 'e + 'b list \<times> 'st" where
  "collect_st f [] st = Inr ([], st)"
| "collect_st f (x # xs) st =
     rbind (f x st) (\<lambda>(y, st). rbind (collect_st f xs st) (\<lambda>(ys, st). Inr (y # ys, st)))"

definition number_fields :: "('st, 'e) alloc \<Rightarrow> FieldSchema list \<Rightarrow> 'st \<Rightarrow> 'e + NodeNumber list \<times> 'st" where
  "number_fields alloc = collect_st (\<lambda>_. alloc)"

definition number_group :: "('st, 'e) alloc \<Rightarrow> GroupSchema \<Rightarrow> 'st \<Rightarrow> 'e + GroupNumbering \<times> 'st" where
  "number_group alloc g st =
     rbind (alloc st) (\<lambda>(n, st).
     rbind (number_fields alloc (gp_fields g) st) (\<lambda>(fs, st).
       Inr (\<lparr>gn_number = n, gn_fields = fs\<rparr>, st)))"

fun number_branches :: "('st, 'e) alloc \<Rightarrow> BranchSchema list \<Rightarrow> 'st \<Rightarrow> 'e + BranchNumbering list \<times> 'st" where
  "number_branches alloc [] st = Inr ([], st)"
| "number_branches alloc (BranchSchema name key fs bs # rest) st =
     rbind (alloc st) (\<lambda>(n, st).
     rbind (number_fields alloc fs st) (\<lambda>(ns, st).
     rbind (number_branches alloc bs st) (\<lambda>(subs, st).
     rbind (number_branches alloc rest st) (\<lambda>(others, st).
       Inr (BranchNumbering n ns subs # others, st)))))"

definition number_root :: "('st, 'e) alloc \<Rightarrow> StoreSchema \<Rightarrow> 'st \<Rightarrow> 'e + RootNumbering \<times> 'st" where
  "number_root alloc schema st =
     rbind (alloc st) (\<lambda>(n, st).
     rbind (number_fields alloc (ss_fields schema) st) (\<lambda>(fs, st).
     rbind (collect_st (number_group alloc) (ss_groups schema) st) (\<lambda>(gs, st).
     rbind (number_branches alloc (ss_branches schema) st) (\<lambda>(bs, st).
       Inr (\<lparr>rn_root = n, rn_fields = fs, rn_groups = gs, rn_branches = bs\<rparr>, st)))))"

definition number_projection :: "('st, 'e) alloc \<Rightarrow> StoreProjection \<Rightarrow> 'st \<Rightarrow> 'e + RootNumbering list \<times> 'st" where
  "number_projection alloc p = collect_st (number_root alloc) (sp_roots p)"

section \<open>Fresh and accepted numbers\<close>

text \<open>The counting closure: \<open>checked_add(1).expect(..)\<close> panics at \<open>u32::MAX\<close>.\<close>

definition alloc_fresh :: "(u32, unit halt) alloc" where
  "alloc_fresh next = (if next = - 1 then Inl Panic else Inr (next, next + 1))"

definition number_store :: "StoreProjection \<Rightarrow> unit halt + RootNumbering list" where
  "number_store p = rbind (number_projection alloc_fresh p 0) (\<lambda>(numbering, _). Inr numbering)"

definition np_fresh :: "StoreProjection \<Rightarrow> unit halt + NumberedProjection" where
  "np_fresh p = rbind (number_store p) (\<lambda>numbering. Inr \<lparr>np_projection = p, np_numbering = numbering\<rparr>)"

fun alloc_accepted :: "u32 \<Rightarrow> (NodeNumber list \<times> NodeNumber list, NumberingError) alloc" where
  "alloc_accepted next_number ([], used) = Inl Count"
| "alloc_accepted next_number (number # remaining, used) =
     (if number \<ge> next_number then Inl (HighWater number next_number)
      else if number \<in> set used then Inl (Duplicate number)
      else Inr (number, (remaining, number # used)))"

definition np_accepted :: "StoreProjection \<Rightarrow> NodeNumber list \<Rightarrow> u32 \<Rightarrow> NumberingError + NumberedProjection" where
  "np_accepted p numbers next_number =
     (if length numbers > MAX_STORE_NODES then Inl Count
      else rbind (number_projection (alloc_accepted next_number) p (numbers, [])) (\<lambda>(numbering, (remaining, used)).
             if remaining \<noteq> [] then Inl Count
             else Inr \<lparr>np_projection = p, np_numbering = numbering\<rparr>))"

section \<open>The walk is a sequence of allocations\<close>

text \<open>
  A numbering read in preorder: a node, its fields, its groups, then its branches. The walk is as
  many calls of the allocator as there are nodes, and its tree read in preorder is what they return.
\<close>

fun branch_preorder :: "BranchNumbering list \<Rightarrow> NodeNumber list" where
  "branch_preorder [] = []"
| "branch_preorder (BranchNumbering n fs bs # rest) = n # fs @ branch_preorder bs @ branch_preorder rest"

definition root_preorder :: "RootNumbering \<Rightarrow> NodeNumber list" where
  "root_preorder r = rn_root r # rn_fields r @ concat (map (\<lambda>g. gn_number g # gn_fields g) (rn_groups r))
                     @ branch_preorder (rn_branches r)"

definition preorder :: "RootNumbering list \<Rightarrow> NodeNumber list" where
  "preorder rs = concat (map root_preorder rs)"

definition node_count :: "StoreProjection \<Rightarrow> nat" where
  "node_count p = sum_list (map root_node_count (sp_roots p))"

fun alloc_n :: "('st, 'e) alloc \<Rightarrow> nat \<Rightarrow> 'st \<Rightarrow> 'e + NodeNumber list \<times> 'st" where
  "alloc_n alloc 0 st = Inr ([], st)"
| "alloc_n alloc (Suc n) st =
     rbind (alloc st) (\<lambda>(x, st). rbind (alloc_n alloc n st) (\<lambda>(xs, st). Inr (x # xs, st)))"

fun read_as :: "('a \<Rightarrow> 'b) \<Rightarrow> 'e + 'a \<times> 'st \<Rightarrow> 'e + 'b \<times> 'st" where
  "read_as f (Inl e) = Inl e"
| "read_as f (Inr (x, st)) = Inr (f x, st)"

lemma read_as_rbind:
  "read_as f (rbind r (\<lambda>(x, st). k x st)) = rbind r (\<lambda>(x, st). read_as f (k x st))"
  by (cases r) auto

lemma rbind_read_as: "rbind (read_as f r) (\<lambda>(x, st). k x st) = rbind r (\<lambda>(x, st). k (f x) st)"
  by (cases r) auto

lemma rbind_assoc_st:
  "rbind (rbind r (\<lambda>(x, st). k x st)) (\<lambda>(y, st). l y st) = rbind r (\<lambda>(x, st). rbind (k x st) (\<lambda>(y, st). l y st))"
  by (cases r) auto

lemma rbind_cong_st: "(\<And>x st. k x st = l x st) \<Longrightarrow> rbind r (\<lambda>(x, st). k x st) = rbind r (\<lambda>(x, st). l x st)"
  by (cases r) auto

lemma read_as_id [simp]: "read_as (\<lambda>x. x) r = r"
  by (cases r) auto

lemma alloc_n_add:
  "alloc_n alloc (m + n) st =
     rbind (alloc_n alloc m st) (\<lambda>(xs, st). rbind (alloc_n alloc n st) (\<lambda>(ys, st). Inr (xs @ ys, st)))"
proof (induction m arbitrary: st)
  case 0
  then show ?case using read_as_id [of "alloc_n alloc n st"] by (cases "alloc_n alloc n st") auto
next
  case (Suc m)
  show ?case by (simp only: add_Suc alloc_n.simps Suc rbind_assoc_st) (simp add: rbind_assoc_st)
qed

text \<open>A step \<open>walks\<close> when it is \<open>n x\<close> allocations whose numbers \<open>flat\<close> reads off its result.\<close>

definition walks :: "('st, 'e) alloc \<Rightarrow> ('a \<Rightarrow> 'st \<Rightarrow> 'e + 'b \<times> 'st) \<Rightarrow> ('a \<Rightarrow> nat) \<Rightarrow> ('b \<Rightarrow> NodeNumber list) \<Rightarrow> bool" where
  "walks alloc f n flat \<longleftrightarrow> (\<forall>x st. read_as flat (f x st) = alloc_n alloc (n x) st)"

lemma walksD: "walks alloc f n flat \<Longrightarrow> alloc_n alloc (n x) st = read_as flat (f x st)"
  by (simp add: walks_def)

lemma walks_collect:
  assumes "walks alloc f n flat"
  shows "walks alloc (collect_st f) (\<lambda>xs. sum_list (map n xs)) (\<lambda>ys. concat (map flat ys))"
  unfolding walks_def
proof (intro allI)
  fix xs st show "read_as (\<lambda>ys. concat (map flat ys)) (collect_st f xs st) = alloc_n alloc (sum_list (map n xs)) st"
  proof (induction xs arbitrary: st)
    case (Cons x xs)
    show ?case
      by (simp add: read_as_rbind alloc_n_add walksD [OF assms] rbind_read_as flip: Cons)
  qed simp
qed

lemma walks_fields: "walks alloc (number_fields alloc) length (\<lambda>ns. ns)"
proof -
  have "read_as (\<lambda>n. [n]) (alloc st) = alloc_n alloc 1 st" for st
    by (cases "alloc st") auto
  then have "walks alloc (\<lambda>_::FieldSchema. alloc) (\<lambda>_. 1) (\<lambda>n. [n])" by (simp add: walks_def)
  from walks_collect [OF this] show ?thesis by (simp add: number_fields_def sum_list_triv)
qed

lemma walks_group: "walks alloc (number_group alloc) (\<lambda>g. Suc (length (gp_fields g))) (\<lambda>g. gn_number g # gn_fields g)"
  by (simp add: walks_def number_group_def read_as_rbind walksD [OF walks_fields])

lemma walks_branches: "walks alloc (number_branches alloc) branch_node_count branch_preorder"
  unfolding walks_def
proof (intro allI)
  fix bs st show "read_as branch_preorder (number_branches alloc bs st) = alloc_n alloc (branch_node_count bs) st"
  proof (induction bs arbitrary: st rule: branch_node_count.induct)
    case (2 n k fs bs rest)
    show ?case
      by (simp add: read_as_rbind alloc_n_add walksD [OF walks_fields] rbind_read_as rbind_assoc_st
          add.assoc flip: 2)
  qed simp
qed

lemma walks_root: "walks alloc (number_root alloc) root_node_count root_preorder"
  unfolding walks_def number_root_def root_node_count_def root_preorder_def
  by (simp add: read_as_rbind alloc_n_add walksD [OF walks_fields] walksD [OF walks_collect [OF walks_group]]
      walksD [OF walks_branches] rbind_read_as rbind_assoc_st add.assoc)

lemma walks_projection: "walks alloc (number_projection alloc) node_count preorder"
  using walks_collect [OF walks_root, of alloc]
  by (simp add: walks_def number_projection_def node_count_def preorder_def [abs_def])

section \<open>What the two allocators return\<close>

lemma alloc_fresh_n:
  "unat st + n < 2 ^ 32 \<Longrightarrow>
   alloc_n alloc_fresh n st = Inr (map (\<lambda>i. st + word_of_nat i) [0..<n], st + word_of_nat n)"
proof (induction n arbitrary: st)
  case (Suc n)
  have "unat (- 1 :: u32) = 2 ^ 32 - 1" by (simp add: unsigned_minus_1_eq_mask mask_eq_exp_minus_1)
  with Suc.prems have ne: "st \<noteq> - 1" by auto
  then have "unat (st + 1) = unat st + 1" by (metis Suc_eq_plus1 add.commute unatSuc add.right_neutral add_eq_0_iff)
  with Suc have "alloc_n alloc_fresh n (st + 1) = Inr (map (\<lambda>i. (st + 1) + word_of_nat i) [0..<n], (st + 1) + word_of_nat n)"
    by simp
  moreover have "[0..<Suc n] = 0 # map Suc [0..<n]" by (simp only: map_Suc_upt upt_conv_Cons [OF zero_less_Suc])
  moreover have "alloc_fresh st = Inr (st, st + 1)" using ne by (simp add: alloc_fresh_def)
  ultimately show ?case by (simp add: add.assoc o_def del: upt_Suc)
qed simp

lemma alloc_accepted_n:
  "alloc_n (alloc_accepted next) n (rem, used) = Inr (ns, (rem', used')) \<longleftrightarrow>
     rem = ns @ rem' \<and> length ns = n \<and> distinct ns \<and> set ns \<inter> set used = {} \<and> list_all (\<lambda>x. x < next) ns
     \<and> used' = rev ns @ used"
proof (induction n arbitrary: rem used ns)
  case (Suc n)
  show ?case
  proof (cases rem)
    case (Cons x xs)
    then show ?thesis using Suc by (auto simp: not_le Cons_eq_append_conv split: if_splits)
  qed auto
qed auto

text \<open>The tree a walk returns has the shape of the schema it walked.\<close>

fun branches_mirror :: "BranchSchema list \<Rightarrow> BranchNumbering list \<Rightarrow> bool" where
  "branches_mirror [] [] = True"
| "branches_mirror (BranchSchema n k fs bs # rest) (BranchNumbering m ms subs # others) \<longleftrightarrow>
     length ms = length fs \<and> branches_mirror bs subs \<and> branches_mirror rest others"
| "branches_mirror _ _ = False"

definition root_mirrors :: "StoreSchema \<Rightarrow> RootNumbering \<Rightarrow> bool" where
  "root_mirrors s r \<longleftrightarrow>
     length (rn_fields r) = length (ss_fields s)
     \<and> list_all2 (\<lambda>g n. length (gn_fields n) = length (gp_fields g)) (ss_groups s) (rn_groups r)
     \<and> branches_mirror (ss_branches s) (rn_branches r)"

definition mirrors :: "StoreSchema list \<Rightarrow> RootNumbering list \<Rightarrow> bool" where
  "mirrors ss rs \<longleftrightarrow> list_all2 root_mirrors ss rs"

lemma collect_st_list_all2:
  assumes "\<And>x st y st'. f x st = Inr (y, st') \<Longrightarrow> P x y"
  shows "collect_st f xs st = Inr (ys, st') \<Longrightarrow> list_all2 P xs ys"
  by (induction xs arbitrary: st ys) (auto dest: assms)

lemma number_fields_length: "number_fields alloc fs st = Inr (ns, st') \<Longrightarrow> length ns = length fs"
  unfolding number_fields_def
  by (drule collect_st_list_all2 [of _ "\<lambda>_ _. True", rotated]) (auto dest: list_all2_lengthD)

lemma number_branches_mirror:
  "number_branches alloc bs st = Inr (ns, st') \<Longrightarrow> branches_mirror bs ns"
  by (induction alloc bs st arbitrary: ns st' rule: number_branches.induct)
    (auto simp: number_fields_length)

lemma number_root_mirrors: "number_root alloc s st = Inr (r, st') \<Longrightarrow> root_mirrors s r"
  by (auto simp: number_root_def root_mirrors_def number_group_def number_fields_length number_branches_mirror
      intro!: collect_st_list_all2 [where f = "number_group alloc"])

lemma number_projection_mirrors:
  "number_projection alloc p st = Inr (rs, st') \<Longrightarrow> mirrors (sp_roots p) rs"
  by (auto simp: number_projection_def mirrors_def intro: collect_st_list_all2 number_root_mirrors)

lemma number_projection_preorder:
  "number_projection alloc p st = Inr (rs, st') \<Longrightarrow> alloc_n alloc (node_count p) st = Inr (preorder rs, st')"
  using walksD [OF walks_projection, of alloc p st] by simp

lemma alloc_n_projection:
  "alloc_n alloc (node_count p) st = Inr (ns, st') \<Longrightarrow>
     \<exists>rs. number_projection alloc p st = Inr (rs, st') \<and> preorder rs = ns"
  using walksD [OF walks_projection, of alloc p st] by (cases "number_projection alloc p st") auto

lemma number_store_fresh:
  assumes "node_count p < 2 ^ 32"
  shows "\<exists>nb. number_store p = Inr nb \<and> mirrors (sp_roots p) nb \<and> preorder nb = map word_of_nat [0..<node_count p]"
proof -
  have "alloc_n alloc_fresh (node_count p) 0 = Inr (map word_of_nat [0..<node_count p], word_of_nat (node_count p))"
    using alloc_fresh_n [of 0 "node_count p"] assms by simp
  from alloc_n_projection [OF this] show ?thesis
    by (auto simp: number_store_def dest: number_projection_mirrors)
qed

lemma distinct_word_of_nat_upt: "n < 2 ^ 32 \<Longrightarrow> distinct (map (word_of_nat :: nat \<Rightarrow> u32) [0..<n])"
  by (auto simp: distinct_map inj_on_def word_of_nat_eq_iff take_bit_nat_eq_self)

lemma np_accepted_Inr:
  assumes "np_accepted p numbers next = Inr np"
  shows "np_projection np = p \<and> mirrors (sp_roots p) (np_numbering np) \<and> preorder (np_numbering np) = numbers
     \<and> length numbers = node_count p \<and> length numbers \<le> MAX_STORE_NODES \<and> distinct numbers
     \<and> list_all (\<lambda>n. n < next) numbers"
proof -
  from assms obtain nb used where nb: "number_projection (alloc_accepted next) p (numbers, []) = Inr (nb, ([], used))"
    and np: "np = \<lparr>np_projection = p, np_numbering = nb\<rparr>" and len: "length numbers \<le> MAX_STORE_NODES"
    by (auto simp: np_accepted_def split: if_splits)
  from number_projection_preorder [OF nb] number_projection_mirrors [OF nb] np len
  show ?thesis by (simp add: alloc_accepted_n)
qed

lemma np_accepted_complete:
  assumes "length numbers = node_count p" "length numbers \<le> MAX_STORE_NODES" "distinct numbers"
    "list_all (\<lambda>n. n < next) numbers"
  shows "\<exists>np. np_accepted p numbers next = Inr np"
proof -
  have "alloc_n (alloc_accepted next) (node_count p) (numbers, []) = Inr (numbers, ([], rev numbers))"
    using assms by (simp add: alloc_accepted_n)
  from alloc_n_projection [OF this] assms(2) show ?thesis by (auto simp: np_accepted_def)
qed

section \<open>Properties\<close>

text \<open>
  Numbering a published projection never panics: it numbers the nodes of the roots in preorder
  0, 1, 2, ... without repetition, in trees shaped as the schemas.
\<close>

theorem fresh_numbers_are_preorder:
  assumes "spb_finish b = Inr p"
  shows "\<exists>nb. number_store p = Inr nb \<and> mirrors (sp_roots p) nb
              \<and> preorder nb = map word_of_nat [0..<node_count p] \<and> distinct (preorder nb)"
proof -
  have "node_count p < 2 ^ 32"
    using assms by (simp add: spb_finish_Inr node_count_def MAX_STORE_NODES_def)
  with number_store_fresh [OF this] distinct_word_of_nat_upt [OF this] show ?thesis by auto
qed

theorem fresh_numbers_are_preorder_witness:
  "\<exists>nb. number_store \<lparr>sp_roots = [\<lparr>ss_root_name = ''books'', ss_key = [SkInt], ss_fields = [], ss_groups = [],
        ss_branches = [BranchSchema ''notes'' [SkInt] [] []], ss_indexes = []\<rparr>], sp_sites = []\<rparr> = Inr nb
      \<and> preorder nb = [0, 1]"
  using fresh_numbers_are_preorder
    [of "\<lparr>spb_roots = [\<lparr>ss_root_name = ''books'', ss_key = [SkInt], ss_fields = [], ss_groups = [],
          ss_branches = [BranchSchema ''notes'' [SkInt] [] []], ss_indexes = []\<rparr>], spb_sites = []\<rparr>"
        "\<lparr>sp_roots = [\<lparr>ss_root_name = ''books'', ss_key = [SkInt], ss_fields = [], ss_groups = [],
          ss_branches = [BranchSchema ''notes'' [SkInt] [] []], ss_indexes = []\<rparr>], sp_sites = []\<rparr>"]
  by (auto simp: spb_finish_def MAX_STORE_NODES_def root_node_count_def node_count_def)

text \<open>
  C14. An accepted number sequence is admitted exactly when it has one number per node, within the
  node limit, without repetition and below the high-water mark; the admitted tree has the shape of
  the projection and reads back, in preorder, as the sequence.
\<close>

theorem accepted_numbers_are_a_bijection:
  "case np_accepted p numbers next of
     Inl e \<Rightarrow> \<not> (length numbers = node_count p \<and> length numbers \<le> MAX_STORE_NODES \<and> distinct numbers
                   \<and> list_all (\<lambda>n. n < next) numbers)
   | Inr np \<Rightarrow> length numbers = node_count p \<and> length numbers \<le> MAX_STORE_NODES \<and> distinct numbers
              \<and> list_all (\<lambda>n. n < next) numbers \<and> np_projection np = p
              \<and> mirrors (sp_roots p) (np_numbering np) \<and> preorder (np_numbering np) = numbers"
proof (cases "np_accepted p numbers next")
  case (Inl e)
  then have "\<not> (\<exists>np. np_accepted p numbers next = Inr np)" by simp
  with np_accepted_complete [of numbers p "next"] show ?thesis unfolding Inl sum.case by blast
next
  case (Inr np)
  from np_accepted_Inr [OF Inr] show ?thesis unfolding Inr sum.case by blast
qed

end
