(* ===== verification/Resolve.thy ===== *)
theory Resolve
  imports Numbering
begin

text \<open>
  Authorized sites: the resolved tokens of \<open>crates/marrow-kernel/src/durable/mod.rs\<close> every kernel
  operation takes, and their resolution from a checked site, the schema and the numbering in
  \<open>durable/store/resolve.rs\<close>. Every lookup of a position is one the source writes as an index or as
  \<open>unreachable!\<close>, and a miss is a panic; the theorems show that none occurs.
\<close>

record ResolvedField =
  rf_number :: NodeNumber
  rf_shape :: ValueShape
  rf_required :: bool

record ResolvedGroup =
  rg_number :: NodeNumber
  rg_fields :: "ResolvedField list"

record FieldPayload =
  fp_number :: NodeNumber
  fp_shape :: ValueShape
  fp_required :: bool
  fp_record :: "ResolvedField list"

datatype AuthTarget =
    AtEntry "ResolvedField list" "ResolvedGroup list"
  | AtField FieldPayload
  | AtGroup NodeNumber "ResolvedField list"
  | AtIndex bytes bool "ScalarKind list"

record BranchHop =
  hop_number :: NodeNumber
  hop_key :: "ScalarKind list"

record AuthorizedSite =
  as_root_number :: NodeNumber
  as_root_index :: u16
  as_columns :: "ScalarKind list"
  as_branch :: "BranchHop list"
  as_target :: AuthTarget

definition key_arity :: "AuthorizedSite \<Rightarrow> nat" where
  "key_arity site = length (as_columns site) + sum_list (map (\<lambda>hop. length (hop_key hop)) (as_branch site))"

definition index_read :: "AuthorizedSite \<Rightarrow> (bytes \<times> bool \<times> ScalarKind list) option" where
  "index_read site = (case as_target site of AtIndex i u p \<Rightarrow> Some (i, u, p) | _ \<Rightarrow> None)"

definition index_projection_len :: "AuthorizedSite \<Rightarrow> nat option" where
  "index_projection_len site = map_option (\<lambda>(_, _, projection). length projection) (index_read site)"

definition field_auth_target :: "ResolvedField \<Rightarrow> ResolvedField list \<Rightarrow> AuthTarget" where
  "field_auth_target f rec =
     AtField \<lparr>fp_number = rf_number f, fp_shape = rf_shape f, fp_required = rf_required f, fp_record = rec\<rparr>"

section \<open>Resolution\<close>

definition resolve_fields :: "FieldSchema list \<Rightarrow> NodeNumber list \<Rightarrow> ResolvedField list" where
  "resolve_fields fs numbers =
     map (\<lambda>(f, n). \<lparr>rf_number = n, rf_shape = fd_shape f, rf_required = fd_required f\<rparr>) (zip fs numbers)"

definition resolve_groups :: "GroupSchema list \<Rightarrow> GroupNumbering list \<Rightarrow> ResolvedGroup list" where
  "resolve_groups gs numberings =
     map (\<lambda>(g, n). \<lparr>rg_number = gn_number n, rg_fields = resolve_fields (gp_fields g) (gn_fields n)\<rparr>)
       (zip gs numberings)"

fun index_component_kind :: "StoreSchema \<Rightarrow> IndexComponent \<Rightarrow> unit halt + ScalarKind" where
  "index_component_kind schema (IcKey column) = nth_or_panic (ss_key schema) (unat column)"
| "index_component_kind schema (IcField field) =
     rbind (nth_or_panic (ss_fields schema) (unat field)) (\<lambda>f.
       ok_or (shape_scalar_kind (fd_shape f)) Panic)"

fun resolve_branch_hops :: "BranchSchema list \<Rightarrow> BranchNumbering list \<Rightarrow> FieldSchema list \<Rightarrow> NodeNumber list \<Rightarrow>
    u16 list \<Rightarrow> unit halt + BranchHop list \<times> ResolvedField list" where
  "resolve_branch_hops branches branch_numbers fs field_numbers [] = Inr ([], resolve_fields fs field_numbers)"
| "resolve_branch_hops branches branch_numbers fs field_numbers (pos # path) =
     rbind (pos_of pos branches) (\<lambda>branch.
     rbind (pos_of pos branch_numbers) (\<lambda>branch_numbering.
     rbind (resolve_branch_hops (br_branches branch) (bn_branches branch_numbering)
              (br_fields branch) (bn_fields branch_numbering) path) (\<lambda>(hops, record_fields).
       Inr (\<lparr>hop_number = bn_number branch_numbering, hop_key = br_key branch\<rparr> # hops, record_fields))))"

definition resolve_branch_path :: "StoreSchema \<Rightarrow> RootNumbering \<Rightarrow> u16 list \<Rightarrow>
    unit halt + BranchHop list \<times> ResolvedField list" where
  "resolve_branch_path schema numbering path =
     resolve_branch_hops (ss_branches schema) (rn_branches numbering) (ss_fields schema) (rn_fields numbering) path"

definition resolve_index_site :: "StoreSchema \<Rightarrow> RootNumbering \<Rightarrow> u16 \<Rightarrow> u16 \<Rightarrow> unit halt + AuthorizedSite" where
  "resolve_index_site schema numbering root_index position =
     rbind (pos_of position (ss_indexes schema)) (\<lambda>index.
     rbind (traverse (index_component_kind schema) (ix_projection index)) (\<lambda>projection.
       Inr \<lparr>as_root_number = rn_root numbering, as_root_index = root_index, as_columns = ss_key schema,
            as_branch = [], as_target = AtIndex (ix_id index) (ix_unique index) projection\<rparr>))"

definition resolve_group_site :: "StoreSchema \<Rightarrow> RootNumbering \<Rightarrow> u16 \<Rightarrow> u16 \<Rightarrow> unit halt + AuthorizedSite" where
  "resolve_group_site schema numbering root_index position =
     rbind (pos_of position (ss_groups schema)) (\<lambda>g.
     rbind (pos_of position (rn_groups numbering)) (\<lambda>n.
       Inr \<lparr>as_root_number = rn_root numbering, as_root_index = root_index, as_columns = ss_key schema,
            as_branch = [], as_target = AtGroup (gn_number n) (resolve_fields (gp_fields g) (gn_fields n))\<rparr>))"

definition node_site :: "StoreSchema \<Rightarrow> RootNumbering \<Rightarrow> u16 \<Rightarrow> BranchHop list \<Rightarrow> AuthTarget \<Rightarrow> AuthorizedSite" where
  "node_site schema numbering root_index branch target =
     \<lparr>as_root_number = rn_root numbering, as_root_index = root_index, as_columns = ss_key schema,
      as_branch = branch, as_target = target\<rparr>"

fun resolve_site :: "StoreSchema \<Rightarrow> RootNumbering \<Rightarrow> u16 \<Rightarrow> CheckedTarget \<Rightarrow> unit halt + AuthorizedSite" where
  "resolve_site schema numbering root_index (IndexScan position) =
     resolve_index_site schema numbering root_index position"
| "resolve_site schema numbering root_index (IndexLookup position) =
     resolve_index_site schema numbering root_index position"
| "resolve_site schema numbering root_index (GroupEntry position) =
     resolve_group_site schema numbering root_index position"
| "resolve_site schema numbering root_index WholePayload =
     Inr (node_site schema numbering root_index []
            (AtEntry (resolve_fields (ss_fields schema) (rn_fields numbering))
                     (resolve_groups (ss_groups schema) (rn_groups numbering))))"
| "resolve_site schema numbering root_index (FieldLeaf index) =
     (let container_fields = resolve_fields (ss_fields schema) (rn_fields numbering)
      in rbind (pos_of index container_fields) (\<lambda>f.
           Inr (node_site schema numbering root_index [] (field_auth_target f container_fields))))"
| "resolve_site schema numbering root_index (BranchEntry path) =
     rbind (resolve_branch_path schema numbering path) (\<lambda>(branch, container_fields).
       Inr (node_site schema numbering root_index branch (AtEntry container_fields [])))"
| "resolve_site schema numbering root_index (BranchField path index) =
     rbind (resolve_branch_path schema numbering path) (\<lambda>(branch, container_fields).
     rbind (pos_of index container_fields) (\<lambda>f.
       Inr (node_site schema numbering root_index branch (field_auth_target f container_fields))))"

fun authorized_slot :: "StoreProjection \<Rightarrow> RootNumbering list \<Rightarrow> SiteSlot \<Rightarrow> unit halt + AuthorizedSite option" where
  "authorized_slot p numbering (Resolved site) =
     rbind (pos_of (site_root site) (sp_roots p)) (\<lambda>schema.
     rbind (pos_of (site_root site) numbering) (\<lambda>root_numbering.
     rbind (resolve_site schema root_numbering (site_root site) (site_target site)) (\<lambda>s. Inr (Some s))))"
| "authorized_slot p numbering Parked = Inr None"

definition authorized_sites :: "StoreProjection \<Rightarrow> RootNumbering list \<Rightarrow> unit halt + AuthorizedSite option list" where
  "authorized_sites p numbering = traverse (authorized_slot p numbering) (sp_sites p)"

section \<open>Well-formed sites\<close>

text \<open>
  What the operations rely on: the numbers of one record are distinct, so are those of its groups,
  and a field site names a field of its record.
\<close>

definition record_wf :: "ResolvedField list \<Rightarrow> bool" where
  "record_wf fs \<longleftrightarrow> distinct (map rf_number fs)"

fun target_wf :: "AuthTarget \<Rightarrow> bool" where
  "target_wf (AtEntry fs gs) \<longleftrightarrow>
     record_wf fs \<and> distinct (map rg_number gs) \<and> list_all (\<lambda>g. record_wf (rg_fields g)) gs"
| "target_wf (AtField p) \<longleftrightarrow>
     record_wf (fp_record p)
     \<and> \<lparr>rf_number = fp_number p, rf_shape = fp_shape p, rf_required = fp_required p\<rparr> \<in> set (fp_record p)"
| "target_wf (AtGroup n fs) \<longleftrightarrow> record_wf fs"
| "target_wf (AtIndex i u ks) \<longleftrightarrow> ks \<noteq> []"

definition site_wf :: "AuthorizedSite \<Rightarrow> bool" where
  "site_wf site \<longleftrightarrow> as_columns site \<noteq> [] \<and> target_wf (as_target site)"

lemma map_zip_snd: "map (\<lambda>p. f (snd p)) (zip xs ys) = map f (take (length xs) ys)"
  by (induction xs ys rule: list_induct2') auto

lemma record_wf_resolve: "distinct ns \<Longrightarrow> record_wf (resolve_fields fs ns)"
proof -
  have "map rf_number (resolve_fields fs ns) = take (length fs) ns"
    by (simp add: resolve_fields_def o_def split_def map_zip_snd [where f = "\<lambda>n. n", simplified])
  then show "distinct ns \<Longrightarrow> record_wf (resolve_fields fs ns)" by (simp add: record_wf_def)
qed

lemma length_resolve_fields [simp]: "length ns = length fs \<Longrightarrow> length (resolve_fields fs ns) = length fs"
  by (simp add: resolve_fields_def)

lemma distinct_branch_preorder:
  fixes p :: u16
  shows "branches_mirror bs ns \<Longrightarrow> unat p < length bs \<Longrightarrow> distinct (branch_preorder ns) \<Longrightarrow>
     unat p < length ns \<and> branches_mirror (br_branches (bs ! unat p)) (bn_branches (ns ! unat p))
     \<and> length (bn_fields (ns ! unat p)) = length (br_fields (bs ! unat p))
     \<and> distinct (bn_fields (ns ! unat p)) \<and> distinct (branch_preorder (bn_branches (ns ! unat p)))"
proof (induction "unat p" arbitrary: bs ns p)
  case 0
  then show ?case by (cases "(bs, ns)" rule: branches_mirror.cases) auto
next
  case (Suc q)
  have "unat p < 2 ^ 16" by (rule order_less_le_trans [OF unsigned_less]) simp
  then have q: "q < 2 ^ 16" using Suc.hyps(2) by simp
  then have "unat (word_of_nat q :: u16) = q" by (simp add: unat_of_nat take_bit_nat_eq_self)
  then obtain r :: u16 where r: "q = unat r" by metis
  show ?case
    using Suc.hyps(1) [OF r] Suc.prems
    by (cases "(bs, ns)" rule: branches_mirror.cases) (auto simp: Suc.hyps(2) [symmetric] r)
qed

lemma resolve_branch_hops_total:
  assumes "branch_at bs path = Some b" "branches_mirror bs ns" "distinct (branch_preorder ns)"
  shows "\<exists>hops ms. resolve_branch_hops bs ns fs fns path = Inr (hops, resolve_fields (br_fields b) ms)
           \<and> length ms = length (br_fields b) \<and> distinct ms"
  using assms
proof (induction bs path arbitrary: ns fs fns rule: branch_at.induct)
  case (2 level pos path)
  from "2.prems"(1) have pos: "unat pos < length level" by (auto split: if_splits)
  note d = distinct_branch_preorder [OF "2.prems"(2) pos "2.prems"(3)]
  show ?case
  proof (cases "path = []")
    case True
    with "2.prems"(1) pos d show ?thesis by auto
  next
    case False
    with "2.prems"(1) pos have "branch_at (br_branches (level ! unat pos)) path = Some b" by simp
    from "2.IH" [OF pos False this] d pos show ?thesis by (auto split: prod.splits) blast
  qed
qed simp

lemma distinct_groups_preorder:
  assumes "distinct (concat (map (\<lambda>g. gn_number g # gn_fields g) gs))"
  shows "distinct (map gn_number gs)" "g \<in> set gs \<Longrightarrow> distinct (gn_fields g)"
  using assms by (induction gs) auto

lemma distinct_root_preorder:
  assumes "distinct (root_preorder r)"
  shows "distinct (rn_fields r)" "distinct (map gn_number (rn_groups r))"
    "\<And>g. g \<in> set (rn_groups r) \<Longrightarrow> distinct (gn_fields g)" "distinct (branch_preorder (rn_branches r))"
  using assms distinct_groups_preorder [of "rn_groups r"] by (simp_all add: root_preorder_def)

lemma index_kinds_total:
  "(\<forall>c \<in> set cs. check_component (ss_key s) (ss_fields s) c = None) \<Longrightarrow>
     \<exists>ks. traverse (index_component_kind s) cs = Inr ks \<and> length ks = length cs"
proof (induction cs)
  case (Cons c cs)
  then obtain ks where "traverse (index_component_kind s) cs = Inr ks" "length ks = length cs" by auto
  moreover have "\<exists>k. index_component_kind s c = Inr k"
    using Cons.prems by (cases c) (auto split: if_splits)
  ultimately show ?case by auto
qed simp

text \<open>The targets a published projection carries, seen from their checked form.\<close>

fun target_in :: "StoreSchema \<Rightarrow> CheckedTarget \<Rightarrow> bool" where
  "target_in s WholePayload = True"
| "target_in s (FieldLeaf f) = (unat f < length (ss_fields s))"
| "target_in s (BranchEntry path) = (branch_at (ss_branches s) path \<noteq> None)"
| "target_in s (BranchField path f) =
     (case branch_at (ss_branches s) path of None \<Rightarrow> False | Some b \<Rightarrow> unat f < length (br_fields b))"
| "target_in s (GroupEntry g) = (unat g < length (ss_groups s))"
| "target_in s (IndexScan i) = (unat i < length (ss_indexes s))"
| "target_in s (IndexLookup i) = (unat i < length (ss_indexes s))"

lemma target_in_checked: "target_in s (checked t) = target_valid s t"
  by (cases t) auto

lemma field_auth_wf:
  assumes "record_wf fs" "unat f < length fs"
  shows "target_wf (field_auth_target (fs ! unat f) fs)"
proof -
  obtain n sh rq where e: "fs ! unat f = \<lparr>rf_number = n, rf_shape = sh, rf_required = rq\<rparr>" by (cases "fs ! unat f")
  have "fs ! unat f \<in> set fs" using assms(2) by simp
  with e assms(1) show ?thesis by (simp add: field_auth_target_def)
qed

lemma resolve_site_total:
  assumes "schema_ok s" "root_mirrors s r" "distinct (root_preorder r)" "target_in s t"
  shows "\<exists>site. resolve_site s r i t = Inr site \<and> site_wf site"
proof -
  note d = distinct_root_preorder [OF assms(3)]
  note wf = record_wf_resolve
  have key: "ss_key s \<noteq> []" using assms(1) by (simp add: schema_ok_def)
  have len: "length (rn_fields r) = length (ss_fields s)" using assms(2) by (simp add: root_mirrors_def)
  have glen: "length (rn_groups r) = length (ss_groups s)"
    using assms(2) by (auto simp: root_mirrors_def dest: list_all2_lengthD)
  have branch: "\<exists>hops ms. resolve_branch_path s r path = Inr (hops, resolve_fields (br_fields b) ms)
           \<and> length ms = length (br_fields b) \<and> distinct ms" if "branch_at (ss_branches s) path = Some b" for path b
    unfolding resolve_branch_path_def
    using resolve_branch_hops_total [OF that _ d(4)] assms(2) by (simp add: root_mirrors_def)
  have index: "\<exists>site. resolve_index_site s r i p = Inr site \<and> site_wf site" if "unat p < length (ss_indexes s)" for p
  proof -
    have ix: "index_ok (ss_key s) (ss_fields s) (ss_indexes s ! unat p)"
      using assms(1) that by (simp add: schema_ok_def)
    then obtain ks where "traverse (index_component_kind s) (ix_projection (ss_indexes s ! unat p)) = Inr ks"
      "length ks = length (ix_projection (ss_indexes s ! unat p))"
      using index_kinds_total [of "ix_projection (ss_indexes s ! unat p)" s] by (auto simp: index_ok_checked)
    with ix that key show ?thesis by (auto simp: resolve_index_site_def site_wf_def index_ok_checked)
  qed
  show ?thesis
  proof (cases t)
    case WholePayload
    have "distinct (map rg_number (resolve_groups (ss_groups s) (rn_groups r)))"
      using d(2) glen by (simp add: resolve_groups_def o_def split_def map_zip_snd)
    moreover have "list_all (\<lambda>g. record_wf (rg_fields g)) (resolve_groups (ss_groups s) (rn_groups r))"
      using d(3) by (auto simp: resolve_groups_def list_all_iff intro!: wf dest!: set_zip_rightD)
    ultimately show ?thesis using WholePayload key wf [OF d(1)] by (simp add: node_site_def site_wf_def)
  next
    case (FieldLeaf f)
    then show ?thesis
      using assms(4) key wf [OF d(1), of "ss_fields s"] len by (simp add: node_site_def site_wf_def field_auth_wf Let_def)
  next
    case (GroupEntry g)
    then have "unat g < length (rn_groups r)" using assms(4) glen by simp
    then show ?thesis
      using GroupEntry assms(4) key d(3) by (auto simp: resolve_group_site_def site_wf_def intro!: wf)
  next
    case (BranchEntry path)
    then show ?thesis using assms(4) branch [of path] key by (auto simp: node_site_def site_wf_def intro!: wf)
  next
    case (BranchField path f)
    then show ?thesis
      using assms(4) branch [of path] key
      by (auto simp: node_site_def site_wf_def intro!: wf field_auth_wf split: option.splits)
  qed (use assms(4) index in auto)
qed

lemma authorized_slot_total:
  assumes "mirrors (sp_roots p) nb" "list_all schema_ok (sp_roots p)" "distinct (preorder nb)"
    "pending_valid (sp_roots p) pending"
  shows "\<exists>s. authorized_slot p nb (published pending) = Inr s \<and> (s = None \<longleftrightarrow> pending = PendingParked)
              \<and> (case s of None \<Rightarrow> True | Some site \<Rightarrow> site_wf site)"
proof (cases pending)
  case (Named root target)
  let ?s = "sp_roots p ! unat root" and ?r = "nb ! unat root"
  have root: "unat root < length (sp_roots p)" "target_in ?s (checked target)"
    using assms(4) Named by (simp_all add: target_in_checked)
  have len: "length nb = length (sp_roots p)" using assms(1) by (auto simp: mirrors_def dest: list_all2_lengthD)
  have "root_mirrors ?s ?r" using assms(1) root len by (simp add: mirrors_def list_all2_nthD)
  moreover have "schema_ok ?s" using assms(2) root by (simp add: list_all_length)
  moreover have "distinct (root_preorder ?r)"
  proof -
    have "root_preorder ?r \<in> set (map root_preorder nb)" using root len by simp
    then show ?thesis using assms(3) unfolding preorder_def distinct_concat_iff by blast
  qed
  ultimately obtain site where "resolve_site ?s ?r root (checked target) = Inr site" "site_wf site"
    using resolve_site_total root by blast
  then show ?thesis using Named root len by simp
qed simp

lemma traverse_total:
  assumes "\<And>x. x \<in> set xs \<Longrightarrow> \<exists>y. f x = Inr y \<and> P x y"
  shows "\<exists>ys. traverse f xs = Inr ys \<and> list_all2 P xs ys"
  using assms by (induction xs) force+

definition slot_authorized :: "PendingSite \<Rightarrow> AuthorizedSite option \<Rightarrow> bool" where
  "slot_authorized pending s \<longleftrightarrow>
     (s = None \<longleftrightarrow> pending = PendingParked) \<and> (case s of None \<Rightarrow> True | Some site \<Rightarrow> site_wf site)"

lemma authorized_sites_total:
  assumes "spb_finish b = Inr p" "list_all schema_ok (spb_roots b)" "number_store p = Inr nb"
  shows "\<exists>auth. authorized_sites p nb = Inr auth \<and> list_all2 slot_authorized (spb_sites b) auth"
proof -
  have p: "sp_roots p = spb_roots b" "sp_sites p = map published (spb_sites b)"
    "list_all (pending_valid (sp_roots p)) (spb_sites b)" "node_count p < 2 ^ 32"
    using assms(1) by (simp_all add: spb_finish_Inr node_count_def MAX_STORE_NODES_def)
  have nb: "mirrors (sp_roots p) nb" "distinct (preorder nb)"
    using number_store_fresh [OF p(4)] distinct_word_of_nat_upt [OF p(4)] assms(3) by auto
  have "\<exists>s. (authorized_slot p nb \<circ> published) x = Inr s \<and> slot_authorized x s" if "x \<in> set (spb_sites b)" for x
    using authorized_slot_total [OF nb(1) _ nb(2), of x] p assms(2) that
    by (simp add: slot_authorized_def list_all_iff)
  from traverse_total [of "spb_sites b" "authorized_slot p nb \<circ> published" slot_authorized, OF this]
  have "\<exists>ys. traverse (authorized_slot p nb \<circ> published) (spb_sites b) = Inr ys \<and> list_all2 slot_authorized (spb_sites b) ys" .
  moreover have "traverse (f \<circ> g) xs = traverse f (map g xs)" for f :: "SiteSlot \<Rightarrow> unit halt + AuthorizedSite option" and g and xs :: "PendingSite list"
    by (induction xs) simp_all
  ultimately show ?thesis by (simp add: authorized_sites_def p)
qed

text \<open>
  C15. Opening a session over a published projection with its fresh numbers resolves the whole site
  table without reaching a panic: a parked slot stays empty, and every other slot holds a site whose
  record and group numbers are distinct and whose field, if it names one, is a field of its record.
\<close>

theorem session_sites_resolve:
  assumes "spb_finish b = Inr p" "list_all schema_ok (spb_roots b)" "number_store p = Inr nb"
  shows "\<exists>auth. authorized_sites p nb = Inr auth \<and> list_all2 slot_authorized (spb_sites b) auth"
  using assms by (rule authorized_sites_total)

text \<open>A concrete store for the witnesses: books with a required title, indexed uniquely by it.\<close>

definition sample_schema :: StoreSchema where
  "sample_schema =
     \<lparr>ss_root_name = ''books'', ss_key = [SkInt],
      ss_fields = [\<lparr>fd_name = ''title'', fd_shape = scalar_shape SkStr, fd_required = True\<rparr>],
      ss_groups = [], ss_branches = [],
      ss_indexes = [\<lparr>ix_id = replicate 16 7, ix_unique = True, ix_projection = [IcField 0]\<rparr>]\<rparr>"

definition sample_pending :: "PendingSite list" where
  "sample_pending = [Named 0 StWholePayload, PendingParked, Named 0 (StFieldLeaf 0), Named 0 (StIndexLookup 0)]"

definition sample_projection :: StoreProjection where
  "sample_projection = \<lparr>sp_roots = [sample_schema], sp_sites = map published sample_pending\<rparr>"

definition sample_numbering :: RootNumbering where
  "sample_numbering = \<lparr>rn_root = 0, rn_fields = [1], rn_groups = [], rn_branches = []\<rparr>"

lemma sample_schema_ok: "schema_ok sample_schema"
  by (simp add: schema_ok_def sample_schema_def index_ok_def scalar_shape_def)

lemma sample_published: "spb_finish \<lparr>spb_roots = [sample_schema], spb_sites = sample_pending\<rparr> = Inr sample_projection"
  by (simp add: spb_finish_Inr sample_projection_def sample_pending_def sample_schema_def root_node_count_def
      MAX_STORE_NODES_def)

lemma sample_numbered: "number_store sample_projection = Inr [sample_numbering]"
  by (simp add: number_store_def number_projection_def number_root_def number_fields_def alloc_fresh_def
      sample_projection_def sample_schema_def sample_numbering_def)

theorem session_sites_resolve_witness:
  "\<exists>auth. authorized_sites sample_projection [sample_numbering] = Inr auth
          \<and> list_all2 slot_authorized sample_pending auth"
  using session_sites_resolve [OF sample_published _ sample_numbered] sample_schema_ok by simp

end
