(* ===== verification/Kernel.thy ===== *)
theory Kernel
  imports Resolve Domain_Codec Engine
begin

text \<open>
  The vocabulary of the durable path kernel (\<open>crates/marrow-kernel/src/durable/mod.rs\<close>): the values it
  exchanges, its faults, and the addressing helpers of \<open>durable/store/address.rs\<close> that turn a site and
  a key path into a marker stem. A kernel operation returns \<open>KernelFault halt + 'a\<close>: a fault, a panic
  (an \<open>unreachable!\<close> of the source) or a result. An operation on a transaction also passes the
  state of the session's engine transaction, an option that is \<open>None\<close> once the transaction is consumed.
\<close>

datatype EntryValue =
  EntryValue (ev_fields: "ValueDomain option list") (ev_groups: "EntryValue list")

datatype Presence = Present | Absent
datatype CreateOutcome = Created | AlreadyPresent
datatype EraseOutcome = Erased | Missing
datatype NextKey = Next KeyScalar | End

datatype KernelFault = Corruption | Incomplete | Poisoned | ValueRange | UniqueIndexViolation
  | EngineFault StoreError

record BoundedKeys =
  bk_keys :: "KeyScalar list"
  bk_more :: bool

text \<open>A positive \<open>u32\<close> bound.\<close>

definition bounded_limit :: "u32 \<Rightarrow> u32 option" where
  "bounded_limit count = (if count = 0 then None else Some count)"

definition limit_get :: "u32 \<Rightarrow> nat" where
  "limit_get limit = unat limit"

type_synonym 'a kernel = "KernelFault halt + 'a"

abbreviation fault :: "KernelFault \<Rightarrow> 'a kernel" where
  "fault f \<equiv> Inl (Raise f)"

definition engine_result :: "StoreError + 'a \<Rightarrow> 'a kernel" where
  "engine_result r = map_err (\<lambda>e. Raise (EngineFault e)) r"

lemma engine_result_simps [simp]:
  "engine_result (Inr a) = Inr a" "engine_result (Inl e) = fault (EngineFault e)"
  by (simp_all add: engine_result_def)

lemma engine_result_Inr [simp]: "engine_result r = Inr a \<longleftrightarrow> r = Inr a"
  by (simp add: engine_result_def)

section \<open>Addressing\<close>

definition take_columns :: "KeyScalar list \<Rightarrow> ScalarKind list \<Rightarrow> KeyScalar list kernel" where
  "take_columns cols kinds =
     (if length cols < length kinds then fault Corruption
      else if list_all2 scalar_key_matches_type (take (length kinds) cols) kinds
           then Inr (drop (length kinds) cols) else fault Corruption)"

fun take_hops :: "NodeNumber \<Rightarrow> KeyScalar list \<Rightarrow> BranchHop list \<Rightarrow> (NodeNumber \<times> KeyScalar list) kernel" where
  "take_hops family cols [] = Inr (family, cols)"
| "take_hops family cols (hop # hops) =
     rbind (take_columns cols (hop_key hop)) (\<lambda>cols'. take_hops (hop_number hop) cols' hops)"

definition node_stem :: "AuthorizedSite \<Rightarrow> KeyScalar list \<Rightarrow> bytes kernel" where
  "node_stem site keys =
     rbind (take_columns keys (as_columns site)) (\<lambda>cols.
     rbind (take_hops (as_root_number site) cols (as_branch site)) (\<lambda>(family, rest).
       if rest = [] then Inr (marker_key family keys) else fault Corruption))"

definition site_record :: "AuthorizedSite \<Rightarrow> ResolvedField list kernel" where
  "site_record site =
     (case as_target site of AtEntry fs gs \<Rightarrow> Inr fs | AtField p \<Rightarrow> Inr (fp_record p) | _ \<Rightarrow> Inl Panic)"

text \<open>\<open>iter().position(..)\<close>: the index of the first element with the property.\<close>

fun index_of :: "('a \<Rightarrow> bool) \<Rightarrow> 'a list \<Rightarrow> nat option" where
  "index_of P [] = None"
| "index_of P (x # xs) = (if P x then Some 0 else map_option Suc (index_of P xs))"

definition field_index_in_record :: "AuthorizedSite \<Rightarrow> ResolvedField list \<Rightarrow> nat kernel" where
  "field_index_in_record site rec =
     (case as_target site of
        AtField p \<Rightarrow> ok_or (index_of (\<lambda>f. rf_number f = fp_number p) rec) Panic
      | _ \<Rightarrow> Inl Panic)"

definition field_target :: "AuthorizedSite \<Rightarrow> (NodeNumber \<times> bool) kernel" where
  "field_target site =
     (case as_target site of AtField p \<Rightarrow> Inr (fp_number p, fp_required p) | _ \<Rightarrow> Inl Panic)"

definition node_shape :: "AuthorizedSite \<Rightarrow> (ResolvedField list \<times> ResolvedGroup list) kernel" where
  "node_shape site = (case as_target site of AtEntry fs gs \<Rightarrow> Inr (fs, gs) | _ \<Rightarrow> Inl Panic)"

definition read_raw :: "'s engine \<Rightarrow> 's \<Rightarrow> bytes \<Rightarrow> bytes option kernel" where
  "read_raw E s key = engine_result (eng_get E s key)"

definition group_target :: "AuthorizedSite \<Rightarrow> (NodeNumber \<times> ResolvedField list) kernel" where
  "group_target site = (case as_target site of AtGroup n fs \<Rightarrow> Inr (n, fs) | _ \<Rightarrow> Inl Panic)"

section \<open>Stems\<close>

text \<open>
  A stem exists exactly when the key path splits into the declared columns of the root and of each
  branch hop with nothing left over; it is then the marker of the addressed family under all keys.
\<close>

definition site_family :: "AuthorizedSite \<Rightarrow> NodeNumber" where
  "site_family site = (if as_branch site = [] then as_root_number site else hop_number (last (as_branch site)))"

definition site_columns :: "AuthorizedSite \<Rightarrow> ScalarKind list" where
  "site_columns site = as_columns site @ concat (map hop_key (as_branch site))"

definition keys_fit :: "ScalarKind list \<Rightarrow> KeyScalar list \<Rightarrow> bool" where
  "keys_fit kinds keys \<longleftrightarrow> list_all2 scalar_key_matches_type keys kinds"

lemma keys_fit_Nil [simp]: "keys_fit [] cols \<longleftrightarrow> cols = []"
  by (simp add: keys_fit_def)

lemma keys_fit_append:
  "keys_fit (ks @ ls) cols \<longleftrightarrow> keys_fit ks (take (length ks) cols) \<and> keys_fit ls (drop (length ks) cols)"
proof -
  have "keys_fit ks us \<Longrightarrow> length us = length ks" for us by (simp add: keys_fit_def list_all2_lengthD)
  moreover have "keys_fit (ks @ ls) (us @ vs) \<longleftrightarrow> keys_fit ks us \<and> keys_fit ls vs" if "length us = length ks" for us vs
    using that by (simp add: keys_fit_def list_all2_append)
  moreover have "keys_fit (ks @ ls) cols \<Longrightarrow> length (take (length ks) cols) = length ks"
    by (auto simp: keys_fit_def dest: list_all2_lengthD)
  ultimately show ?thesis by (metis append_take_drop_id)
qed

lemma take_columns_eq:
  "take_columns cols kinds =
     (if keys_fit kinds (take (length kinds) cols) then Inr (drop (length kinds) cols) else fault Corruption)"
  by (auto simp: take_columns_def keys_fit_def dest!: list_all2_lengthD)

lemma take_hops_eq:
  "rbind (take_hops family cols hops) (\<lambda>(f, rest). if rest = [] then Inr (g f) else fault Corruption) =
     (if keys_fit (concat (map hop_key hops)) cols
      then Inr (g (if hops = [] then family else hop_number (last hops))) else fault Corruption)"
proof (induction hops arbitrary: family cols)
  case Nil
  then show ?case by simp
next
  case (Cons hop hops)
  show ?case
    using Cons [of "hop_number hop" "drop (length (hop_key hop)) cols"]
    by (auto simp: take_columns_eq keys_fit_append simp del: rbind_Inr_iff)
qed

lemma node_stem_eq:
  "node_stem site keys =
     (if keys_fit (site_columns site) keys then Inr (marker_key (site_family site) keys) else fault Corruption)"
proof -
  have "node_stem site keys =
      (if keys_fit (as_columns site) (take (length (as_columns site)) keys)
       then rbind (take_hops (as_root_number site) (drop (length (as_columns site)) keys) (as_branch site))
              (\<lambda>(f, rest). if rest = [] then Inr (marker_key f keys) else fault Corruption)
       else fault Corruption)"
    by (simp add: node_stem_def take_columns_eq)
  then show ?thesis
    unfolding take_hops_eq
    by (simp add: site_columns_def site_family_def keys_fit_append)
qed

end
