(* ===== verification/Plan.thy ===== *)
theory Plan
  imports Kernel
begin

text \<open>
  The consequence planner of \<open>crates/marrow-kernel/src/durable/plan.rs\<close>: the cell operations a node or
  group write implies, and the index operations a root write implies. The planner is stateless; its
  plans are lists in the order the session applies them.

  The lemmas read a plan off as the cells it puts, show the footprint of a node has no repeated
  key, and give the effect of a plan on a map.
\<close>

datatype CellWrite = Put bytes bytes | Remove bytes

datatype IndexOp = IoRemove bytes | IoPut bytes bytes | IoUniquePut bytes bytes

definition node_field_leaf :: "bytes \<Rightarrow> NodeNumber \<Rightarrow> bytes" where
  "node_field_leaf stem field = stem_field_leaf stem field"

definition group_cells :: "bytes \<Rightarrow> ResolvedField list \<Rightarrow> bytes list" where
  "group_cells gstem fs = map (\<lambda>f. node_field_leaf gstem (rf_number f)) fs"

definition node_cells :: "bytes \<Rightarrow> ResolvedField list \<Rightarrow> ResolvedGroup list \<Rightarrow> bytes list" where
  "node_cells stem fs gs =
     stem # map (\<lambda>f. node_field_leaf stem (rf_number f)) fs
     @ concat (map (\<lambda>g. group_cells (group_stem stem (rg_number g)) (rg_fields g)) gs)"

text \<open>The loop over \<open>values.iter().enumerate()\<close>; \<open>fields[index]\<close> is read only for a present slot.\<close>

fun write_slots :: "bytes \<Rightarrow> ResolvedField list \<Rightarrow> nat \<Rightarrow> ValueDomain option list \<Rightarrow> CellWrite list kernel" where
  "write_slots stem fs i [] = Inr []"
| "write_slots stem fs i (None # vs) = write_slots stem fs (Suc i) vs"
| "write_slots stem fs i (Some v # vs) =
     rbind (map_err (\<lambda>_. Raise ValueRange) (encode_domain v)) (\<lambda>bs.
     rbind (nth_or_panic fs i) (\<lambda>f.
     rbind (write_slots stem fs (Suc i) vs) (\<lambda>ws.
       Inr (Put (node_field_leaf stem (rf_number f)) bs # ws))))"

definition group_write :: "bytes \<Rightarrow> ResolvedField list \<Rightarrow> EntryValue \<Rightarrow> CellWrite list kernel" where
  "group_write gstem fs v = write_slots gstem fs 0 (ev_fields v)"

definition node_write :: "bytes \<Rightarrow> ResolvedField list \<Rightarrow> ResolvedGroup list \<Rightarrow> EntryValue \<Rightarrow> CellWrite list kernel" where
  "node_write stem fs gs entry =
     rbind (write_slots stem fs 0 (ev_fields entry)) (\<lambda>ws.
     rbind (traverse (\<lambda>(g, sub). group_write (group_stem stem (rg_number g)) (rg_fields g) sub)
              (zip gs (ev_groups entry))) (\<lambda>gws.
       Inr (Put stem MARKER_VALUE # ws @ concat gws)))"

definition node_erase :: "bytes \<Rightarrow> ResolvedField list \<Rightarrow> ResolvedGroup list \<Rightarrow> CellWrite list" where
  "node_erase stem fs gs = map Remove (node_cells stem fs gs)"

definition group_erase :: "bytes \<Rightarrow> ResolvedField list \<Rightarrow> CellWrite list" where
  "group_erase gstem fs = map Remove (group_cells gstem fs)"

section \<open>Index rows\<close>

text \<open>An absent projected field ends the loop with \<open>None\<close> before later components are looked at.\<close>

fun project_components :: "IndexComponent list \<Rightarrow> KeyScalar list \<Rightarrow> ValueDomain option list \<Rightarrow>
    KeyScalar list option kernel" where
  "project_components [] keys fs = Inr (Some [])"
| "project_components (IcKey column # cs) keys fs =
     (if unat column < length keys
      then rbind (project_components cs keys fs) (\<lambda>row. Inr (map_option ((#) (keys ! unat column)) row))
      else fault Corruption)"
| "project_components (IcField field # cs) keys fs =
     (case (if unat field < length fs then fs ! unat field else None) of
        None \<Rightarrow> Inr None
      | Some (VScalar scalar) \<Rightarrow>
          (case as_key scalar of
             Inr (Some k) \<Rightarrow> rbind (project_components cs keys fs) (\<lambda>row. Inr (map_option ((#) k) row))
           | _ \<Rightarrow> fault Corruption)
      | Some _ \<Rightarrow> fault Corruption)"

definition project_row :: "IndexSchema \<Rightarrow> KeyScalar list \<Rightarrow> ValueDomain option list option \<Rightarrow>
    KeyScalar list option kernel" where
  "project_row index keys fs =
     (case fs of None \<Rightarrow> Inr None | Some vs \<Rightarrow> project_components (ix_projection index) keys vs)"

definition row_ops :: "NodeNumber \<Rightarrow> IndexSchema \<Rightarrow> KeyScalar list \<Rightarrow> KeyScalar list option \<Rightarrow>
    KeyScalar list option \<Rightarrow> IndexOp list" where
  "row_ops root index keys old_row new_row =
     (if old_row = new_row then []
      else (case old_row of None \<Rightarrow> [] | Some row \<Rightarrow> [IoRemove (index_cell_key root (ix_id index) row)])
           @ (case new_row of
                None \<Rightarrow> []
              | Some row \<Rightarrow>
                  (let cell = index_cell_key root (ix_id index) row; v = index_cell_value keys
                   in [if ix_unique index then IoUniquePut cell v else IoPut cell v])))"

fun index_writes :: "NodeNumber \<Rightarrow> IndexSchema list \<Rightarrow> KeyScalar list \<Rightarrow> ValueDomain option list option \<Rightarrow>
    ValueDomain option list option \<Rightarrow> IndexOp list kernel" where
  "index_writes root [] keys old new = Inr []"
| "index_writes root (index # indexes) keys old new =
     rbind (project_row index keys old) (\<lambda>old_row.
     rbind (project_row index keys new) (\<lambda>new_row.
     rbind (index_writes root indexes keys old new) (\<lambda>ops.
       Inr (row_ops root index keys old_row new_row @ ops))))"

section \<open>The footprint of a node\<close>

lemma leaf_simps:
  "node_field_leaf stem n = stem @ FIELD_TAG # be_bytes n"
  "group_stem stem n = stem @ GROUP_TAG # be_bytes n"
  by (simp_all add: node_field_leaf_def field_leaf_layout group_stem_layout)

lemma distinct_group_cells: "record_wf fs \<Longrightarrow> distinct (group_cells stem fs)"
  by (auto simp: group_cells_def record_wf_def leaf_simps distinct_map inj_on_def)

lemma distinct_grouped_cells:
  "distinct (map rg_number gs) \<Longrightarrow> list_all (\<lambda>g. record_wf (rg_fields g)) gs \<Longrightarrow>
     distinct (concat (map (\<lambda>g. group_cells (group_stem stem (rg_number g)) (rg_fields g)) gs))"
proof (induction gs)
  case (Cons g gs)
  have "set (group_cells (group_stem stem (rg_number g)) (rg_fields g))
      \<inter> set (group_cells (group_stem stem (rg_number h)) (rg_fields h)) = {}" if "h \<in> set gs" for h
    using Cons.prems(1) that by (auto simp: group_cells_def leaf_simps)
  then show ?case using Cons by (auto simp: distinct_group_cells)
qed simp

lemma distinct_node_cells:
  assumes "target_wf (AtEntry fs gs)"
  shows "distinct (node_cells stem fs gs)"
proof -
  have "map (\<lambda>f. node_field_leaf stem (rf_number f)) fs = group_cells stem fs" by (simp add: group_cells_def)
  moreover have "set (group_cells stem fs) \<inter> set (group_cells (group_stem stem n) hs) = {}" for n hs
    by (auto simp: group_cells_def leaf_simps layout_tags)
  moreover have "stem \<notin> set (group_cells stem fs)" "stem \<notin> set (group_cells (group_stem stem n) hs)" for n hs
    by (auto simp: group_cells_def leaf_simps)
  ultimately show ?thesis
    using assms distinct_group_cells [of fs stem] distinct_grouped_cells [of gs stem]
    by (auto simp: node_cells_def)
qed

section \<open>What a plan puts\<close>

text \<open>The bytes of an encodable value.\<close>

definition encoded :: "ValueDomain \<Rightarrow> bytes" where
  "encoded v = (case encode_domain v of Inr bs \<Rightarrow> bs | Inl _ \<Rightarrow> [])"

definition encodable :: "ValueDomain option \<Rightarrow> bool" where
  "encodable v \<longleftrightarrow> (case v of None \<Rightarrow> True | Some x \<Rightarrow> \<exists>bs. encode_domain x = Inr bs)"

definition record_puts :: "bytes \<Rightarrow> ResolvedField list \<Rightarrow> ValueDomain option list \<Rightarrow> Cell list" where
  "record_puts stem fs vs =
     concat (map (\<lambda>(f, v). case v of None \<Rightarrow> [] | Some x \<Rightarrow> [(node_field_leaf stem (rf_number f), encoded x)])
       (zip fs vs))"

definition node_puts :: "bytes \<Rightarrow> ResolvedField list \<Rightarrow> ResolvedGroup list \<Rightarrow> EntryValue \<Rightarrow> Cell list" where
  "node_puts stem fs gs entry =
     (stem, MARKER_VALUE) # record_puts stem fs (ev_fields entry)
     @ concat (map (\<lambda>(g, sub). record_puts (group_stem stem (rg_number g)) (rg_fields g) (ev_fields sub))
         (zip gs (ev_groups entry)))"

definition puts :: "Cell list \<Rightarrow> CellWrite list" where
  "puts = map (\<lambda>(k, v). Put k v)"

lemma puts_simps [simp]: "puts [] = []" "puts ((k, v) # ps) = Put k v # puts ps" "puts (ps @ qs) = puts ps @ puts qs"
  "puts (concat pss) = concat (map puts pss)"
  by (auto simp: puts_def map_concat)

lemma write_slots_Inr:
  "write_slots stem fs i vs = Inr ws \<Longrightarrow> i + length vs \<le> length fs \<Longrightarrow>
     ws = puts (record_puts stem (drop i fs) vs) \<and> list_all encodable vs"
proof (induction stem fs i vs arbitrary: ws rule: write_slots.induct)
  case (2 stem fs i vs)
  then show ?case by (simp add: record_puts_def Cons_nth_drop_Suc [symmetric] encodable_def)
next
  case (3 stem fs i v vs)
  then have "drop i fs = fs ! i # drop (Suc i) fs" by (simp add: Cons_nth_drop_Suc)
  with 3 show ?case by (auto simp: record_puts_def encodable_def encoded_def)
qed (simp add: record_puts_def)

lemma write_slots_total:
  "list_all encodable vs \<Longrightarrow> i + length vs \<le> length fs \<Longrightarrow> \<exists>ws. write_slots stem fs i vs = Inr ws"
proof (induction stem fs i vs rule: write_slots.induct)
  case (3 stem fs i v vs)
  from "3.prems" obtain bs where bs: "encode_domain v = Inr bs" by (auto simp: encodable_def)
  then have "map_err (\<lambda>_. Raise ValueRange) (encode_domain v) = (Inr bs :: bytes kernel)" by simp
  moreover have "nth_or_panic fs i = (Inr (fs ! i) :: ResolvedField kernel)" using "3.prems" by simp
  ultimately obtain ws where "write_slots stem fs (Suc i) vs = Inr ws" using 3 by auto
  with bs "3.prems" show ?case by simp
qed auto

lemma traverse_groups_Inr:
  assumes "traverse (\<lambda>(g, sub). group_write (group_stem stem (rg_number g)) (rg_fields g) sub) ps = Inr wss"
    "list_all (\<lambda>(g, sub). length (ev_fields sub) = length (rg_fields g)) ps"
  shows "wss = map (\<lambda>(g, sub). puts (record_puts (group_stem stem (rg_number g)) (rg_fields g) (ev_fields sub))) ps
     \<and> list_all (\<lambda>(g, sub). list_all encodable (ev_fields sub)) ps"
  using assms
proof (induction ps arbitrary: wss)
  case (Cons p ps)
  obtain g sub where p: "p = (g, sub)" by fastforce
  from Cons.prems obtain ws wss' where
    ws: "write_slots (group_stem stem (rg_number g)) (rg_fields g) 0 (ev_fields sub) = Inr ws"
    and wss': "traverse (\<lambda>(g, sub). group_write (group_stem stem (rg_number g)) (rg_fields g) sub) ps = Inr wss'"
    and wss: "wss = ws # wss'"
    by (auto simp: p group_write_def)
  from Cons.prems(2) have "0 + length (ev_fields sub) \<le> length (rg_fields g)" by (simp add: p)
  from write_slots_Inr [OF ws this] Cons.IH [OF wss'] Cons.prems(2) show ?case by (simp add: p wss)
qed simp

definition entry_fits :: "ResolvedField list \<Rightarrow> ResolvedGroup list \<Rightarrow> EntryValue \<Rightarrow> bool" where
  "entry_fits fs gs entry \<longleftrightarrow>
     length (ev_fields entry) = length fs
     \<and> list_all2 (\<lambda>g sub. length (ev_fields sub) = length (rg_fields g) \<and> ev_groups sub = []) gs (ev_groups entry)"

lemma node_write_Inr:
  assumes "node_write stem fs gs entry = Inr ws" "entry_fits fs gs entry"
  shows "ws = puts (node_puts stem fs gs entry)"
proof -
  from assms(1) obtain ws1 wss where w: "write_slots stem fs 0 (ev_fields entry) = Inr ws1"
    "traverse (\<lambda>(g, sub). group_write (group_stem stem (rg_number g)) (rg_fields g) sub) (zip gs (ev_groups entry)) = Inr wss"
    "ws = Put stem MARKER_VALUE # ws1 @ concat wss"
    by (auto simp: node_write_def)
  have "list_all (\<lambda>(g, sub). length (ev_fields sub) = length (rg_fields g)) (zip gs (ev_groups entry))"
    using assms(2) by (auto simp: entry_fits_def list_all_iff list_all2_iff)
  from traverse_groups_Inr [OF w(2) this] write_slots_Inr [OF w(1)] w(3) assms(2)
  show ?thesis by (simp add: node_puts_def entry_fits_def o_def split_def)
qed

end
