(* ===== verification/Read_Ops.thy ===== *)
theory Read_Ops
  imports Plan Mem_Engine
begin

text \<open>
  The stateless reads of \<open>crates/marrow-kernel/src/durable/store/read_ops.rs\<close> over any engine view.
  Reading a record scans its leaves page by page until a page is empty; over an arbitrary engine
  that loop need not end, so it is a partial function into option and \<open>None\<close> means that it does not
  return. Under the laws of an engine view it always returns, and what it returns is the abstract
  reading \<open>record_at\<close> of the map the view holds.
\<close>

fun obind :: "('e + 'a) option \<Rightarrow> ('a \<Rightarrow> ('e + 'b) option) \<Rightarrow> ('e + 'b) option" where
  "obind None f = None"
| "obind (Some (Inl e)) f = Some (Inl e)"
| "obind (Some (Inr a)) f = f a"

fun otraverse :: "('a \<Rightarrow> ('e + 'b) option) \<Rightarrow> 'a list \<Rightarrow> ('e + 'b list) option" where
  "otraverse f [] = Some (Inr [])"
| "otraverse f (x # xs) = obind (f x) (\<lambda>y. obind (otraverse f xs) (\<lambda>ys. Some (Inr (y # ys))))"

definition probe_slot :: "'s engine \<Rightarrow> 's \<Rightarrow> bytes \<Rightarrow> Presence kernel" where
  "probe_slot E s stem =
     rbind (read_raw E s stem) (\<lambda>marker.
       if marker \<noteq> None then Inr Present
       else rbind (engine_result (eng_scan_after E s stem stem)) (\<lambda>page.
              if page = [] then Inr Absent else fault Corruption))"

definition op_presence :: "'s engine \<Rightarrow> 's \<Rightarrow> AuthorizedSite \<Rightarrow> KeyScalar list \<Rightarrow> Presence kernel" where
  "op_presence E s site keys =
     rbind (node_stem site keys) (\<lambda>stem.
     rbind (case as_target site of
              AtEntry _ _ \<Rightarrow> Inr stem
            | AtField payload \<Rightarrow> Inr (stem_field_leaf stem (fp_number payload))
            | _ \<Rightarrow> Inl Panic) (\<lambda>physical_key.
     rbind (read_raw E s physical_key) (\<lambda>v.
       Inr (case v of Some _ \<Rightarrow> Present | None \<Rightarrow> Absent))))"

definition op_read_field :: "'s engine \<Rightarrow> 's \<Rightarrow> AuthorizedSite \<Rightarrow> KeyScalar list \<Rightarrow> ValueDomain option kernel" where
  "op_read_field E s site keys =
     (case as_target site of
        AtField payload \<Rightarrow>
          rbind (node_stem site keys) (\<lambda>stem.
          rbind (read_raw E s (stem_field_leaf stem (fp_number payload))) (\<lambda>v.
            case v of
              None \<Rightarrow> Inr None
            | Some bs \<Rightarrow> rbind (ok_or (decode_domain bs (fp_shape payload)) (Raise Corruption)) (\<lambda>x. Inr (Some x))))
      | _ \<Rightarrow> Inl Panic)"

section \<open>Reading a record\<close>

text \<open>The declared-field-to-position map, and the fold of one page into the slots.\<close>

definition leaf_positions :: "bytes \<Rightarrow> ResolvedField list \<Rightarrow> (bytes \<rightharpoonup> nat)" where
  "leaf_positions stem fs =
     fold (\<lambda>(i, f) m. m(stem_field_leaf stem (rf_number f) \<mapsto> i)) (enumerate 0 fs) Map.empty"

fun read_page :: "(bytes \<rightharpoonup> nat) \<Rightarrow> ResolvedField list \<Rightarrow> Cell list \<Rightarrow> ValueDomain option list \<Rightarrow>
    ValueDomain option list kernel" where
  "read_page position fs [] vals = Inr vals"
| "read_page position fs ((key, bs) # page) vals =
     rbind (ok_or (position key) (Raise Corruption)) (\<lambda>index.
     rbind (nth_or_panic fs index) (\<lambda>f.
     rbind (ok_or (decode_domain bs (rf_shape f)) (Raise Corruption)) (\<lambda>v.
       read_page position fs page (vals[index := Some v]))))"

partial_function (option) leaf_loop :: "'s engine \<Rightarrow> 's \<Rightarrow> bytes \<Rightarrow> (bytes \<rightharpoonup> nat) \<Rightarrow> ResolvedField list \<Rightarrow> bytes \<Rightarrow>
    ValueDomain option list \<Rightarrow> (ValueDomain option list kernel) option" where
  "leaf_loop E s rng position fs cursor vals =
     (case eng_scan_after E s rng cursor of
        Inl e \<Rightarrow> Some (fault (EngineFault e))
      | Inr page \<Rightarrow>
          if page = [] then Some (Inr vals)
          else (case read_page position fs page vals of
                  Inl e \<Rightarrow> Some (Inl e)
                | Inr vals' \<Rightarrow> leaf_loop E s rng position fs (fst (last page)) vals'))"

fun require_present :: "ResolvedField list \<Rightarrow> ValueDomain option list \<Rightarrow> bool" where
  "require_present [] vs = True"
| "require_present (f # fs) (v # vs) = ((rf_required f \<longrightarrow> v \<noteq> None) \<and> require_present fs vs)"
| "require_present (f # fs) [] = True"

definition read_record_leaves :: "'s engine \<Rightarrow> 's \<Rightarrow> bytes \<Rightarrow> ResolvedField list \<Rightarrow>
    (ValueDomain option list kernel) option" where
  "read_record_leaves E s stem fs =
     obind (leaf_loop E s (field_leaf_range stem) (leaf_positions stem fs) fs (field_leaf_range stem)
              (replicate (length fs) None)) (\<lambda>vals.
       Some (if require_present fs vals then Inr vals else fault Corruption))"

definition op_read_entry :: "'s engine \<Rightarrow> 's \<Rightarrow> AuthorizedSite \<Rightarrow> KeyScalar list \<Rightarrow> (EntryValue option kernel) option" where
  "op_read_entry E s site keys =
     obind (Some (node_stem site keys)) (\<lambda>stem.
     obind (Some (node_shape site)) (\<lambda>(fs, gs).
     obind (Some (probe_slot E s stem)) (\<lambda>presence.
       if presence = Absent then Some (Inr None)
       else obind (read_record_leaves E s stem fs) (\<lambda>vals.
            obind (otraverse (\<lambda>g.
                     obind (read_record_leaves E s (group_stem stem (rg_number g)) (rg_fields g)) (\<lambda>vs.
                       Some (Inr (EntryValue vs [])))) gs) (\<lambda>group_values.
              Some (Inr (Some (EntryValue vals group_values))))))))"

definition op_read_group :: "'s engine \<Rightarrow> 's \<Rightarrow> AuthorizedSite \<Rightarrow> KeyScalar list \<Rightarrow> (EntryValue option kernel) option" where
  "op_read_group E s site keys =
     obind (Some (node_stem site keys)) (\<lambda>stem.
     obind (Some (group_target site)) (\<lambda>(number, fs).
     obind (Some (probe_slot E s stem)) (\<lambda>presence.
       if presence = Absent then Some (Inr None)
       else obind (read_record_leaves E s (group_stem stem number) fs) (\<lambda>vs.
              Some (Inr (Some (EntryValue vs [])))))))"

section \<open>The abstract reading\<close>

text \<open>
  What a map says of a record: the leaf of each field, decoded by its shape. The record is corrupt
  when a cell of its leaf range is not the leaf of a declared field, when a leaf does not decode,
  or when a required leaf is absent.
\<close>

definition leaf_value :: "(bytes \<rightharpoonup> bytes) \<Rightarrow> bytes \<Rightarrow> ResolvedField \<Rightarrow> ValueDomain option" where
  "leaf_value m stem f = Option.bind (m (stem_field_leaf stem (rf_number f))) (\<lambda>bs. decode_domain bs (rf_shape f))"

definition leaf_ok :: "(bytes \<rightharpoonup> bytes) \<Rightarrow> bytes \<Rightarrow> ResolvedField \<Rightarrow> bool" where
  "leaf_ok m stem f \<longleftrightarrow>
     (case m (stem_field_leaf stem (rf_number f)) of
        None \<Rightarrow> \<not> rf_required f
      | Some bs \<Rightarrow> decode_domain bs (rf_shape f) \<noteq> None)"

definition record_clean :: "(bytes \<rightharpoonup> bytes) \<Rightarrow> bytes \<Rightarrow> ResolvedField list \<Rightarrow> bool" where
  "record_clean m stem fs \<longleftrightarrow>
     (\<forall>k \<in> dom m. prefix (field_leaf_range stem) k \<and> k \<noteq> field_leaf_range stem
                  \<longrightarrow> k \<in> set (group_cells stem fs)) \<and> list_all (leaf_ok m stem) fs"

definition record_at :: "(bytes \<rightharpoonup> bytes) \<Rightarrow> bytes \<Rightarrow> ResolvedField list \<Rightarrow> ValueDomain option list kernel" where
  "record_at m stem fs = (if record_clean m stem fs then Inr (map (leaf_value m stem) fs) else fault Corruption)"

section \<open>The scan loop computes the abstract reading\<close>

lemma index_of_Some:
  "index_of P xs = Some i \<longleftrightarrow> i < length xs \<and> P (xs ! i) \<and> (\<forall>j < i. \<not> P (xs ! j))"
proof (induction xs arbitrary: i)
  case (Cons x xs)
  then show ?case by (cases i) (auto simp: All_less_Suc2)
qed simp

lemma index_of_None: "index_of P xs = None \<longleftrightarrow> (\<forall>x \<in> set xs. \<not> P x)"
  by (induction xs) auto

lemma index_of_distinct:
  "distinct (map g xs) \<Longrightarrow> index_of (\<lambda>x. g x = k) xs = Some i \<longleftrightarrow> i < length xs \<and> g (xs ! i) = k"
  by (auto simp: index_of_Some distinct_conv_nth)

lemma fold_positions:
  "distinct (map g fs) \<Longrightarrow>
     fold (\<lambda>(i, f) m. m(g f \<mapsto> i)) (enumerate n fs) m k =
       (case index_of (\<lambda>f. g f = k) fs of Some i \<Rightarrow> Some (n + i) | None \<Rightarrow> m k)"
proof (induction fs arbitrary: n m)
  case (Cons f fs)
  have "index_of (\<lambda>f. g f = k) fs = None" if "g f = k"
    using Cons.prems that by (simp add: index_of_None) (metis image_eqI)
  with Cons show ?case by (auto split: option.splits)
qed simp

lemma record_wf_leaves: "record_wf fs \<Longrightarrow> distinct (map (\<lambda>f. stem_field_leaf stem (rf_number f)) fs)"
  by (auto simp: record_wf_def distinct_map inj_on_def)

lemma leaf_positions_Some:
  assumes "record_wf fs"
  shows "leaf_positions stem fs k = Some i \<longleftrightarrow> i < length fs \<and> k = stem_field_leaf stem (rf_number (fs ! i))"
  using index_of_distinct [OF record_wf_leaves [OF assms, of stem], of k i]
  by (auto simp: leaf_positions_def fold_positions [OF record_wf_leaves [OF assms]] split: option.splits)

text \<open>A cell is readable when it is the leaf of a declared field and decodes under its shape.\<close>

definition cell_readable :: "(bytes \<rightharpoonup> bytes) \<Rightarrow> bytes \<Rightarrow> ResolvedField list \<Rightarrow> bytes \<Rightarrow> bool" where
  "cell_readable m stem fs k \<longleftrightarrow>
     (\<exists>f \<in> set fs. k = stem_field_leaf stem (rf_number f) \<and> leaf_value m stem f \<noteq> None)"

definition absorbed :: "(bytes \<rightharpoonup> bytes) \<Rightarrow> bytes \<Rightarrow> ResolvedField list \<Rightarrow> bytes set \<Rightarrow> ValueDomain option list \<Rightarrow>
    ValueDomain option list" where
  "absorbed m stem fs ks vals =
     map2 (\<lambda>f v. if stem_field_leaf stem (rf_number f) \<in> ks then leaf_value m stem f else v) fs vals"

lemma length_absorbed [simp]: "length (absorbed m stem fs ks vals) = min (length fs) (length vals)"
  by (simp add: absorbed_def)

lemma absorbed_absorbed: "absorbed m stem fs ks (absorbed m stem fs ls vals) = absorbed m stem fs (ks \<union> ls) vals"
  by (rule nth_equalityI) (auto simp: absorbed_def)

lemma absorbed_none [simp]: "length vals = length fs \<Longrightarrow> absorbed m stem fs {} vals = vals"
  by (rule nth_equalityI) (simp_all add: absorbed_def)

lemma read_page_eq:
  assumes "record_wf fs" "\<forall>(k, v) \<in> set page. m k = Some v" "length vals = length fs"
  shows "read_page (leaf_positions stem fs) fs page vals =
     (if \<forall>k \<in> fst ` set page. cell_readable m stem fs k then Inr (absorbed m stem fs (fst ` set page) vals)
      else fault Corruption)"
  using assms(2,3)
proof (induction page arbitrary: vals)
  case Nil
  then show ?case by simp
next
  case (Cons c page)
  obtain k v where c: "c = (k, v)" by fastforce
  have mk: "m k = Some v" using Cons.prems(1) c by auto
  show ?case
  proof (cases "leaf_positions stem fs k")
    case None
    then have "k \<noteq> stem_field_leaf stem (rf_number f)" if "f \<in> set fs" for f
      using that leaf_positions_Some [OF assms(1), of stem k] by (metis in_set_conv_nth option.distinct(1))
    then show ?thesis using None c by (auto simp: cell_readable_def)
  next
    case (Some i)
    then have i: "i < length fs" "k = stem_field_leaf stem (rf_number (fs ! i))"
      using leaf_positions_Some [OF assms(1)] by auto
    have other: "k = stem_field_leaf stem (rf_number (fs ! j)) \<longleftrightarrow> j = i" if "j < length fs" for j
      using i that record_wf_leaves [OF assms(1), of stem] by (auto simp: distinct_conv_nth)
    have val: "leaf_value m stem (fs ! i) = decode_domain v (rf_shape (fs ! i))" using mk i by (simp add: leaf_value_def)
    have readable: "cell_readable m stem fs k \<longleftrightarrow> decode_domain v (rf_shape (fs ! i)) \<noteq> None"
    proof
      assume "cell_readable m stem fs k"
      then obtain j where "j < length fs" "k = stem_field_leaf stem (rf_number (fs ! j))" "leaf_value m stem (fs ! j) \<noteq> None"
        unfolding cell_readable_def by (metis in_set_conv_nth)
      with val other show "decode_domain v (rf_shape (fs ! i)) \<noteq> None" by metis
    next
      assume "decode_domain v (rf_shape (fs ! i)) \<noteq> None"
      with val i show "cell_readable m stem fs k" unfolding cell_readable_def by (metis nth_mem)
    qed
    show ?thesis
    proof (cases "decode_domain v (rf_shape (fs ! i))")
      case None
      then show ?thesis using Some i readable c by simp
    next
      case (Some x)
      have "absorbed m stem fs (fst ` set page) (vals[i := Some x]) = absorbed m stem fs (insert k (fst ` set page)) vals"
      proof (rule nth_equalityI)
        fix j assume "j < length (absorbed m stem fs (fst ` set page) (vals[i := Some x]))"
        then have j: "j < length fs" by simp
        then show "absorbed m stem fs (fst ` set page) (vals[i := Some x]) ! j = absorbed m stem fs (insert k (fst ` set page)) vals ! j"
          using other [OF j] val Some Cons.prems(2) i by (cases "j = i") (auto simp: absorbed_def)
      qed simp
      then show ?thesis
        using Cons.IH [of "vals[i := Some x]"] Cons.prems c Some \<open>leaf_positions stem fs k = Some i\<close> i readable by auto
    qed
  qed
qed

text \<open>A result agrees with a specification up to the failures of the engine.\<close>

definition up_to_engine :: "StoreError set \<Rightarrow> 'a kernel \<Rightarrow> 'a kernel \<Rightarrow> bool" where
  "up_to_engine errs r spec \<longleftrightarrow> r = spec \<or> (\<exists>e \<in> errs. r = fault (EngineFault e))"

lemma up_to_engine_refl [simp]: "up_to_engine errs r r"
  by (simp add: up_to_engine_def)

lemma up_to_engine_fault [simp]: "e \<in> errs \<Longrightarrow> up_to_engine errs (fault (EngineFault e)) spec"
  by (simp add: up_to_engine_def)

lemma up_to_no_failure [simp]: "up_to_engine {} r spec \<longleftrightarrow> r = spec"
  by (simp add: up_to_engine_def)

definition cells_after :: "(bytes \<rightharpoonup> bytes) \<Rightarrow> bytes \<Rightarrow> bytes \<Rightarrow> bytes set" where
  "cells_after m p c = {k \<in> dom m. prefix p k \<and> c < k}"

lemma cells_after_page:
  assumes "page_of m p c page" "page \<noteq> []"
  shows "cells_after m p c = fst ` set page \<union> cells_after m p (fst (last page))"
    "fst (last page) \<in> cells_after m p c" "cells_after m p (fst (last page)) \<subseteq> cells_after m p c - {fst (last page)}"
proof -
  have in_page: "k \<in> dom m \<and> prefix p k \<and> c < k" if "k \<in> fst ` set page" for k
    using assms(1) that by (auto simp: page_of_def)
  show l: "fst (last page) \<in> cells_after m p c"
    using in_page [of "fst (last page)"] assms(2) by (simp add: cells_after_def)
  then show "cells_after m p (fst (last page)) \<subseteq> cells_after m p c - {fst (last page)}"
    by (auto simp: cells_after_def)
  have "k \<in> fst ` set page \<or> fst (last page) < k" if "k \<in> dom m" "prefix p k" "c < k" for k
    using assms(1) that unfolding page_of_def by (meson not_le)
  then show "cells_after m p c = fst ` set page \<union> cells_after m p (fst (last page))"
    using in_page l by (auto simp: cells_after_def)
qed

definition slots_spec :: "(bytes \<rightharpoonup> bytes) \<Rightarrow> bytes \<Rightarrow> ResolvedField list \<Rightarrow> bytes set \<Rightarrow> ValueDomain option list \<Rightarrow>
    ValueDomain option list kernel" where
  "slots_spec m stem fs ks vals =
     (if \<forall>k \<in> ks. cell_readable m stem fs k then Inr (absorbed m stem fs ks vals) else fault Corruption)"

lemma leaf_in_range:
  "prefix (field_leaf_range stem) (stem_field_leaf stem n)" "field_leaf_range stem < stem_field_leaf stem n"
proof -
  have e: "stem_field_leaf stem n = field_leaf_range stem @ be_bytes n" by (simp add: field_leaf_layout field_leaf_range_def)
  show "prefix (field_leaf_range stem) (stem_field_leaf stem n)" by (simp add: e)
  have "length (be_bytes n) = 4" by simp
  then have "be_bytes n \<noteq> []" by (metis list.size(3) zero_neq_numeral)
  then show "field_leaf_range stem < stem_field_leaf stem n" by (simp add: e less_append_self)
qed

lemma require_present_map: "require_present fs (map g fs) \<longleftrightarrow> (\<forall>f \<in> set fs. rf_required f \<longrightarrow> g f \<noteq> None)"
  by (induction fs) auto

lemma cell_readable_leaf:
  assumes "record_wf fs" "f \<in> set fs"
  shows "cell_readable m stem fs (stem_field_leaf stem (rf_number f)) \<longleftrightarrow> leaf_value m stem f \<noteq> None"
  using assms by (auto simp: cell_readable_def record_wf_def distinct_map dest: inj_onD)

lemma record_clean_iff:
  assumes "record_wf fs"
  shows "record_clean m stem fs \<longleftrightarrow>
     (\<forall>k \<in> cells_after m (field_leaf_range stem) (field_leaf_range stem). cell_readable m stem fs k)
     \<and> require_present fs (map (leaf_value m stem) fs)" (is "?clean \<longleftrightarrow> (\<forall>k \<in> ?A. _) \<and> ?req")
proof -
  have leaf: "stem_field_leaf stem (rf_number f) \<in> ?A \<longleftrightarrow> m (stem_field_leaf stem (rf_number f)) \<noteq> None" for f
    using leaf_in_range by (auto simp: cells_after_def)
  have A: "?A = {k \<in> dom m. prefix (field_leaf_range stem) k \<and> k \<noteq> field_leaf_range stem}"
    using prefix_less_eq by (auto simp: cells_after_def le_less)
  have ok: "leaf_ok m stem f \<longleftrightarrow>
      (stem_field_leaf stem (rf_number f) \<in> ?A \<longrightarrow> leaf_value m stem f \<noteq> None) \<and> (rf_required f \<longrightarrow> leaf_value m stem f \<noteq> None)" for f
    by (auto simp: leaf_ok_def leaf leaf_value_def split: option.splits)
  have cells: "set (group_cells stem fs) = (\<lambda>f. stem_field_leaf stem (rf_number f)) ` set fs"
    by (auto simp: group_cells_def node_field_leaf_def)
  have declared: "cell_readable m stem fs k \<Longrightarrow> k \<in> set (group_cells stem fs)" for k
    by (auto simp: cell_readable_def cells)
  have "(\<forall>k \<in> ?A. cell_readable m stem fs k) \<longleftrightarrow>
      ?A \<subseteq> set (group_cells stem fs) \<and> (\<forall>f \<in> set fs. stem_field_leaf stem (rf_number f) \<in> ?A \<longrightarrow> leaf_value m stem f \<noteq> None)"
    using declared cell_readable_leaf [OF assms, of _ m stem] unfolding cells by blast
  moreover have "?clean \<longleftrightarrow> ?A \<subseteq> set (group_cells stem fs) \<and> (\<forall>f \<in> set fs. leaf_ok m stem f)"
    unfolding record_clean_def A by (auto simp: list_all_iff)
  ultimately show ?thesis unfolding ok require_present_map by blast
qed

lemma slots_spec_record_at:
  assumes "record_wf fs"
  shows "rbind (slots_spec m stem fs (cells_after m (field_leaf_range stem) (field_leaf_range stem)) (replicate (length fs) None))
       (\<lambda>vals. if require_present fs vals then Inr vals else fault Corruption) = record_at m stem fs"
proof -
  let ?A = "cells_after m (field_leaf_range stem) (field_leaf_range stem)"
  have leaf: "stem_field_leaf stem (rf_number f) \<in> ?A \<longleftrightarrow> m (stem_field_leaf stem (rf_number f)) \<noteq> None" for f
    using leaf_in_range by (auto simp: cells_after_def)
  have "absorbed m stem fs ?A (replicate (length fs) None) = map (leaf_value m stem) fs"
    by (rule nth_equalityI) (auto simp: absorbed_def leaf leaf_value_def)
  then show ?thesis
    by (simp add: slots_spec_def record_at_def record_clean_iff [OF assms] del: rbind_Inr_iff)
qed

text \<open>An operation that returns, with a result that agrees with a specification.\<close>

definition returns :: "StoreError set \<Rightarrow> ('a kernel) option \<Rightarrow> 'a kernel \<Rightarrow> bool" where
  "returns errs result spec \<longleftrightarrow> (\<exists>r. result = Some r \<and> up_to_engine errs r spec)"

lemma returns_Some: "up_to_engine errs r spec \<Longrightarrow> returns errs (Some r) spec"
  by (simp add: returns_def)

lemma returns_bind:
  "returns errs r spec \<Longrightarrow> (\<And>a. spec = Inr a \<Longrightarrow> returns errs (f a) (g a)) \<Longrightarrow> returns errs (obind r f) (rbind spec g)"
  by (cases spec) (auto simp: returns_def up_to_engine_def)

lemma returns_if:
  "(P \<Longrightarrow> returns errs a a') \<Longrightarrow> (\<not> P \<Longrightarrow> returns errs b b') \<Longrightarrow> returns errs (if P then a else b) (if P then a' else b')"
  by simp

lemma returns_traverse:
  "(\<And>x. x \<in> set xs \<Longrightarrow> returns errs (f x) (g x)) \<Longrightarrow> returns errs (otraverse f xs) (traverse g xs)"
proof (induction xs)
  case (Cons x xs)
  show ?case
    unfolding otraverse.simps traverse.simps
    by (intro returns_bind returns_Some) (use Cons in simp_all)
qed (simp add: returns_def)

definition slot_at :: "(bytes \<rightharpoonup> bytes) \<Rightarrow> bytes \<Rightarrow> Presence kernel" where
  "slot_at m stem =
     (if m stem \<noteq> None then Inr Present
      else if \<exists>k \<in> dom m. strict_prefix stem k then fault Corruption else Inr Absent)"

definition entry_at :: "(bytes \<rightharpoonup> bytes) \<Rightarrow> bytes \<Rightarrow> ResolvedField list \<Rightarrow> ResolvedGroup list \<Rightarrow> EntryValue option kernel" where
  "entry_at m stem fs gs =
     rbind (slot_at m stem) (\<lambda>presence.
       if presence = Absent then Inr None
       else rbind (record_at m stem fs) (\<lambda>vals.
            rbind (traverse (\<lambda>g. rbind (record_at m (group_stem stem (rg_number g)) (rg_fields g)) (\<lambda>vs.
                     Inr (EntryValue vs []))) gs) (\<lambda>group_values.
              Inr (Some (EntryValue vals group_values)))))"

definition group_at :: "(bytes \<rightharpoonup> bytes) \<Rightarrow> bytes \<Rightarrow> NodeNumber \<Rightarrow> ResolvedField list \<Rightarrow> EntryValue option kernel" where
  "group_at m stem number fs =
     rbind (slot_at m stem) (\<lambda>presence.
       if presence = Absent then Inr None
       else rbind (record_at m (group_stem stem number) fs) (\<lambda>vs. Inr (Some (EntryValue vs []))))"

context lawful_view
begin

lemma leaf_loop_returns:
  assumes "ok s" "record_wf fs" "prefix rng c" "length vals = length fs"
  shows "\<exists>r. leaf_loop E s rng (leaf_positions stem fs) fs c vals = Some r
             \<and> up_to_engine errs r (slots_spec (cells s) stem fs (cells_after (cells s) rng c) vals)"
  using assms(3,4)
proof (induction "card (cells_after (cells s) rng c)" arbitrary: c vals rule: less_induct)
  case less
  have fin: "finite (cells_after (cells s) rng c)"
    using finite_cells [OF assms(1)] by (simp add: cells_after_def)
  show ?case
  proof (cases "eng_scan_after E s rng c")
    case (Inl e)
    then show ?thesis using scan_errs by (simp add: leaf_loop.simps)
  next
    case (Inr page)
    then have page: "page_of (cells s) rng c page" using scan_law [OF assms(1) less.prems(1)] by simp
    show ?thesis
    proof (cases "page = []")
      case True
      with page have "cells_after (cells s) rng c = {}" by (auto simp: page_of_Nil cells_after_def)
      then show ?thesis using Inr True less.prems(2)
        by (simp add: leaf_loop.simps slots_spec_def)
    next
      case False
      note after = cells_after_page [OF page False]
      have smaller: "card (cells_after (cells s) rng (fst (last page))) < card (cells_after (cells s) rng c)"
        using after(2,3) by (intro psubset_card_mono [OF fin]) auto
      have inside: "prefix rng (fst (last page))" using after(2) by (simp add: cells_after_def)
      have "\<forall>(k, v) \<in> set page. cells s k = Some v" using page by (auto simp: page_of_def)
      note step = read_page_eq [OF assms(2) this less.prems(2), of stem]
      show ?thesis
      proof (cases "\<forall>k \<in> fst ` set page. cell_readable (cells s) stem fs k")
        case True
        let ?vals = "absorbed (cells s) stem fs (fst ` set page) vals"
        from less.hyps [OF smaller inside, of ?vals] less.prems(2) obtain r where
          r: "leaf_loop E s rng (leaf_positions stem fs) fs (fst (last page)) ?vals = Some r"
          "up_to_engine errs r (slots_spec (cells s) stem fs (cells_after (cells s) rng (fst (last page))) ?vals)"
          by auto
        have "slots_spec (cells s) stem fs (cells_after (cells s) rng (fst (last page))) ?vals
            = slots_spec (cells s) stem fs (cells_after (cells s) rng c) vals"
          using True by (subst after(1)) (auto simp: slots_spec_def absorbed_absorbed Un_commute)
        with r True step Inr False show ?thesis by (subst leaf_loop.simps) simp
      next
        case unreadable: False
        then have "slots_spec (cells s) stem fs (cells_after (cells s) rng c) vals = fault Corruption"
          by (subst after(1)) (auto simp: slots_spec_def)
        then show ?thesis using unreadable step Inr False by (subst leaf_loop.simps) auto
      qed
    qed
  qed
qed

lemma read_record_returns:
  assumes "ok s" "record_wf fs"
  shows "returns errs (read_record_leaves E s stem fs) (record_at (cells s) stem fs)"
  unfolding read_record_leaves_def slots_spec_record_at [OF assms(2), symmetric]
  by (rule returns_bind)
    (use leaf_loop_returns [OF assms, of "field_leaf_range stem" "field_leaf_range stem" "replicate (length fs) None" stem]
      in \<open>auto simp: returns_def\<close>)

lemma probe_slot_agrees: "ok s \<Longrightarrow> up_to_engine errs (probe_slot E s stem) (slot_at (cells s) stem)"
proof -
  assume ok: "ok s"
  show ?thesis
  proof (cases "eng_get E s stem")
    case (Inl e)
    then show ?thesis using get_errs by (simp add: probe_slot_def read_raw_def)
  next
    case (Inr v)
    then have v: "v = cells s stem" using get_law ok by blast
    show ?thesis
    proof (cases "eng_scan_after E s stem stem")
      case (Inl e)
      then show ?thesis using scan_errs Inr v by (auto simp: probe_slot_def read_raw_def slot_at_def)
    next
      case (Inr page)
      then have page: "page_of (cells s) stem stem page" using scan_law [OF ok, of stem stem page] by simp
      have below: "strict_prefix stem k \<longleftrightarrow> prefix stem k \<and> stem < k" for k :: bytes
        by (auto simp: strict_prefix_def le_less dest: prefix_less_eq)
      have "page = [] \<longleftrightarrow> \<not> (\<exists>k \<in> dom (cells s). strict_prefix stem k)"
      proof (cases page)
        case Nil
        then show ?thesis using page by (auto simp: page_of_Nil below)
      next
        case (Cons c rest)
        then show ?thesis using page_of_first [of "cells s" stem stem "fst c" "snd c" rest] page below by auto
      qed
      then show ?thesis using \<open>eng_get E s stem = Inr v\<close> Inr v
        by (auto simp: probe_slot_def read_raw_def slot_at_def up_to_engine_def)
    qed
  qed
qed

lemma op_read_entry_returns:
  assumes "ok s" "target_wf (as_target site)"
  shows "returns errs (op_read_entry E s site keys)
           (rbind (node_stem site keys) (\<lambda>stem. rbind (node_shape site) (\<lambda>(fs, gs). entry_at (cells s) stem fs gs)))"
proof -
  have wf: "record_wf fs \<and> list_all (\<lambda>g. record_wf (rg_fields g)) gs" if "node_shape site = Inr (fs, gs)" for fs gs
    using assms(2) that by (auto simp: node_shape_def split: AuthTarget.splits)
  show ?thesis
    unfolding op_read_entry_def entry_at_def
    by (auto intro!: returns_bind returns_Some probe_slot_agrees returns_if returns_traverse read_record_returns assms(1)
        simp del: obind.simps rbind.simps dest!: wf simp: list_all_iff split: prod.splits)
qed

lemma op_read_group_returns:
  assumes "ok s" "target_wf (as_target site)"
  shows "returns errs (op_read_group E s site keys)
           (rbind (node_stem site keys) (\<lambda>stem. rbind (group_target site) (\<lambda>(n, fs). group_at (cells s) stem n fs)))"
proof -
  have wf: "record_wf fs" if "group_target site = Inr (n, fs)" for n fs
    using assms(2) that by (auto simp: group_target_def split: AuthTarget.splits)
  show ?thesis
    unfolding op_read_group_def group_at_def
    by (auto intro!: returns_bind returns_Some probe_slot_agrees returns_if read_record_returns assms(1)
        simp del: obind.simps rbind.simps dest!: wf split: prod.splits)
qed

end

end
