(* ===== verification/Traverse.thy ===== *)
theory Traverse
  imports Read_Ops Mem_Engine
begin

text \<open>
  Bounded traversal: \<open>crates/marrow-kernel/src/durable/store/traverse.rs\<close> over one entry family and
  \<open>durable/store/index_ops.rs\<close> over one managed index. Both freeze at most \<open>limit\<close> keys and probe for
  one more. The loops push a key per turn until \<open>keys.len() == limit\<close>, so they recurse on the room
  left, \<open>limit - keys.len()\<close>.

  Over a clean family the frozen keys are the first keys of the family, in key order, from the
  inclusive lower bound on, and the extra bit says whether there is another one.
\<close>

datatype LayerSeek = Start | After KeyScalar | From KeyScalar

definition seek_cursor :: "Layer \<Rightarrow> ScalarKind \<Rightarrow> LayerSeek \<Rightarrow> bytes kernel" where
  "seek_cursor layer kind seek =
     (case seek of
        Start \<Rightarrow> Inr (layer_prefix layer)
      | After key \<Rightarrow> Inr (child_cursor layer key)
      | From key \<Rightarrow> if \<not> scalar_key_matches_type key kind then fault Corruption
                    else Inr (layer_seek_from layer key))"

definition layer_step :: "'s engine \<Rightarrow> 's \<Rightarrow> Layer \<Rightarrow> ScalarKind \<Rightarrow> LayerSeek \<Rightarrow> NextKey kernel" where
  "layer_step E s layer kind seek =
     rbind (seek_cursor layer kind seek) (\<lambda>cursor.
     rbind (engine_result (eng_scan_after E s (layer_prefix layer) cursor)) (\<lambda>page.
       case page of
         [] \<Rightarrow> Inr End
       | (cell_key, _) # _ \<Rightarrow>
           (case layer_classify layer cell_key of
              Marker key \<Rightarrow> if scalar_key_matches_type key kind then Inr (Next key) else fault Corruption
            | Orphan \<Rightarrow> fault Corruption
            | Foreign \<Rightarrow> Inr End)))"

fun take_parent_hops :: "KeyScalar list \<Rightarrow> BranchHop list \<Rightarrow> KeyScalar list kernel" where
  "take_parent_hops cols [] = Inr cols"
| "take_parent_hops cols (hop # hops) = rbind (take_columns cols (hop_key hop)) (\<lambda>cols'. take_parent_hops cols' hops)"

definition layer_of :: "AuthorizedSite \<Rightarrow> KeyScalar list \<Rightarrow> (Layer \<times> ScalarKind) kernel" where
  "layer_of site ancestor_keys =
     (if as_branch site = [] then
        if ancestor_keys \<noteq> [] then fault Corruption
        else if length (as_columns site) \<noteq> 1 then fault Corruption
        else Inr (layer_new (as_root_number site) [], as_columns site ! 0)
      else let traversed = last (as_branch site); parent_hops = butlast (as_branch site)
           in if length (hop_key traversed) \<noteq> 1 then fault Corruption
              else rbind (take_columns ancestor_keys (as_columns site)) (\<lambda>cols.
                   rbind (take_parent_hops cols parent_hops) (\<lambda>rest.
                     if rest \<noteq> [] then fault Corruption
                     else Inr (layer_new (hop_number traversed) ancestor_keys, hop_key traversed ! 0))))"

fun iterate_loop :: "'s engine \<Rightarrow> 's \<Rightarrow> Layer \<Rightarrow> ScalarKind \<Rightarrow> nat \<Rightarrow> LayerSeek \<Rightarrow> KeyScalar list \<Rightarrow> BoundedKeys kernel" where
  "iterate_loop E s layer kind 0 seek keys =
     rbind (layer_step E s layer kind seek) (\<lambda>n.
       case n of End \<Rightarrow> Inr \<lparr>bk_keys = keys, bk_more = False\<rparr> | Next _ \<Rightarrow> Inr \<lparr>bk_keys = keys, bk_more = True\<rparr>)"
| "iterate_loop E s layer kind (Suc room) seek keys =
     rbind (layer_step E s layer kind seek) (\<lambda>n.
       case n of
         End \<Rightarrow> Inr \<lparr>bk_keys = keys, bk_more = False\<rparr>
       | Next key \<Rightarrow> iterate_loop E s layer kind room (After key) (keys @ [key]))"

definition op_iterate_bounded :: "'s engine \<Rightarrow> 's \<Rightarrow> AuthorizedSite \<Rightarrow> KeyScalar list \<Rightarrow> KeyScalar option \<Rightarrow> u32 \<Rightarrow>
    BoundedKeys kernel" where
  "op_iterate_bounded E s site ancestor_keys from_key limit =
     rbind (layer_of site ancestor_keys) (\<lambda>(layer, kind).
       iterate_loop E s layer kind (limit_get limit)
         (case from_key of Some k \<Rightarrow> From k | None \<Rightarrow> Start) [])"

definition op_family_populated :: "'s engine \<Rightarrow> 's \<Rightarrow> AuthorizedSite \<Rightarrow> KeyScalar list \<Rightarrow> Presence kernel" where
  "op_family_populated E s site ancestor_keys =
     rbind (layer_of site ancestor_keys) (\<lambda>(layer, kind).
     rbind (layer_step E s layer kind Start) (\<lambda>n.
       Inr (case n of Next _ \<Rightarrow> Present | End \<Rightarrow> Absent)))"

section \<open>Index reads\<close>

definition index_target :: "AuthorizedSite \<Rightarrow> (bytes \<times> bool \<times> ScalarKind list) kernel" where
  "index_target site = (case index_read site of Some parts \<Rightarrow> Inr parts | None \<Rightarrow> fault Corruption)"

fun check_keys :: "KeyScalar list \<Rightarrow> ScalarKind list \<Rightarrow> unit kernel" where
  "check_keys (v # vs) (k # ks) = (if \<not> scalar_key_matches_type v k then fault Corruption else check_keys vs ks)"
| "check_keys _ _ = Inr ()"

definition index_step :: "'s engine \<Rightarrow> 's \<Rightarrow> IndexLayer \<Rightarrow> ScalarKind \<Rightarrow> bytes \<Rightarrow> NextKey kernel" where
  "index_step E s layer next_kind cursor =
     rbind (engine_result (eng_scan_after E s (index_prefix layer) cursor)) (\<lambda>page.
       case page of
         [] \<Rightarrow> Inr End
       | (cell_key, _) # _ \<Rightarrow>
           (case next_component layer cell_key of
              None \<Rightarrow> fault Corruption
            | Some component \<Rightarrow>
                if \<not> scalar_key_matches_type component next_kind then fault Corruption else Inr (Next component)))"

fun index_loop :: "'s engine \<Rightarrow> 's \<Rightarrow> IndexLayer \<Rightarrow> ScalarKind \<Rightarrow> nat \<Rightarrow> bytes \<Rightarrow> KeyScalar list \<Rightarrow> BoundedKeys kernel" where
  "index_loop E s layer next_kind 0 cursor keys =
     rbind (index_step E s layer next_kind cursor) (\<lambda>n.
       case n of End \<Rightarrow> Inr \<lparr>bk_keys = keys, bk_more = False\<rparr> | Next _ \<Rightarrow> Inr \<lparr>bk_keys = keys, bk_more = True\<rparr>)"
| "index_loop E s layer next_kind (Suc room) cursor keys =
     rbind (index_step E s layer next_kind cursor) (\<lambda>n.
       case n of
         End \<Rightarrow> Inr \<lparr>bk_keys = keys, bk_more = False\<rparr>
       | Next component \<Rightarrow>
           index_loop E s layer next_kind room (skip_cursor layer component) (keys @ [component]))"

definition op_index_scan :: "'s engine \<Rightarrow> 's \<Rightarrow> AuthorizedSite \<Rightarrow> KeyScalar list \<Rightarrow> KeyScalar option \<Rightarrow> u32 \<Rightarrow>
    BoundedKeys kernel" where
  "op_index_scan E s site pre from_key limit =
     rbind (index_target site) (\<lambda>(ident, uniq, projection).
       if uniq then fault Corruption
       else if length pre \<ge> length projection then fault Corruption
       else rbind (check_keys pre (take (length pre) projection)) (\<lambda>_.
         let next_kind = projection ! length pre; layer = index_layer_new (as_root_number site) ident pre
         in case from_key of
              None \<Rightarrow> index_loop E s layer next_kind (limit_get limit) (index_prefix layer) []
            | Some k \<Rightarrow>
                if \<not> scalar_key_matches_type k next_kind then fault Corruption
                else rbind (engine_result (eng_get E s (index_seek_from layer k))) (\<lambda>row.
                       let keys = (if row \<noteq> None then [k] else [])
                       in index_loop E s layer next_kind (limit_get limit - length keys) (index_seek_from layer k) keys)))"

definition op_index_lookup :: "'s engine \<Rightarrow> 's \<Rightarrow> AuthorizedSite \<Rightarrow> KeyScalar list \<Rightarrow> KeyScalar list option kernel" where
  "op_index_lookup E s site key =
     rbind (index_target site) (\<lambda>(ident, uniq, projection).
       if \<not> uniq then fault Corruption
       else if length key \<noteq> length projection then fault Corruption
       else rbind (check_keys key projection) (\<lambda>_.
            rbind (engine_result (eng_get E s (index_cell_key (as_root_number site) ident key))) (\<lambda>v.
              case v of
                None \<Rightarrow> Inr None
              | Some bs \<Rightarrow>
                  (case decode_index_source_key bs (length (as_columns site)) of
                     Some source \<Rightarrow> rbind (check_keys source (as_columns site)) (\<lambda>_. Inr (Some source))
                   | None \<Rightarrow> fault Corruption))))"

section \<open>Clean families\<close>

text \<open>
  The keys present in a layer, and cleanliness: every cell of the family under the ancestors lies
  at or below the marker of a present key of the declared kind.
\<close>

definition layer_keys :: "(bytes \<rightharpoonup> bytes) \<Rightarrow> NodeNumber \<Rightarrow> KeyScalar list \<Rightarrow> KeyScalar set" where
  "layer_keys m f anc = {k. m (marker_key f (anc @ [k])) \<noteq> None}"

definition layer_clean :: "(bytes \<rightharpoonup> bytes) \<Rightarrow> NodeNumber \<Rightarrow> KeyScalar list \<Rightarrow> ScalarKind \<Rightarrow> bool" where
  "layer_clean m f anc kind \<longleftrightarrow>
     (\<forall>c \<in> dom m. prefix (layer_prefix (layer_new f anc)) c \<longrightarrow>
        (\<exists>k s. c = marker_key f (anc @ [k]) @ s \<and> key_wf k \<and> scalar_key_matches_type k kind \<and> k \<in> layer_keys m f anc))"

lemma finite_layer_keys: "finite (dom m) \<Longrightarrow> finite (layer_keys m f anc)"
proof -
  assume "finite (dom m)"
  then have "finite ((\<lambda>k. marker_key f (anc @ [k])) -` dom m)"
    by (rule finite_vimageI) (simp add: inj_on_def)
  then show ?thesis by (rule rev_finite_subset) (auto simp: layer_keys_def)
qed

text \<open>The keys a seek admits.\<close>

fun admits :: "LayerSeek \<Rightarrow> KeyScalar \<Rightarrow> bool" where
  "admits Start k = True"
| "admits (After l) k = (l < k)"
| "admits (From l) k = (l \<le> k)"

fun seek_ok :: "ScalarKind \<Rightarrow> LayerSeek \<Rightarrow> bool" where
  "seek_ok kind (From l) = scalar_key_matches_type l kind"
| "seek_ok kind _ = True"

lemma seek_cursor_ok:
  assumes "seek_ok kind seek"
  shows "\<exists>c. seek_cursor (layer_new f anc) kind seek = Inr c \<and> prefix (layer_prefix (layer_new f anc)) c
            \<and> (\<forall>k s. c < marker_key f (anc @ [k]) @ s \<longleftrightarrow> admits seek k)"
  using assms by (cases seek) (auto simp: seek_cursor_def layer_prefix_below layer_seek_below child_cursor_below)

lemma admits_After: "admits (After l) = (\<lambda>k. l < k)"
  by (simp add: fun_eq_iff)

lemma marker_le_iff: "marker_key f (anc @ [k]) \<le> marker_key f (anc @ [l]) \<longleftrightarrow> k \<le> l"
proof -
  have "marker_key f (anc @ [a]) < marker_key f (anc @ [b])" if "a < b" for a b
  proof -
    have "\<not> layer_seek_from (layer_new f anc) b < marker_key f (anc @ [a]) @ []"
      "layer_seek_from (layer_new f anc) b < marker_key f (anc @ [b]) @ []"
      using that by (simp_all only: layer_seek_below not_le)
    then show ?thesis by simp
  qed
  then show ?thesis by (metis antisym_conv2 leD le_less_linear order_less_imp_le)
qed

lemma sorted_head:
  fixes xs :: "'a::linorder list"
  assumes "sorted_wrt (<) xs" "x \<in> set xs" "\<And>y. y \<in> set xs \<Longrightarrow> x \<le> y"
  shows "\<exists>ys. xs = x # ys"
  using assms by (cases xs) force+

lemma sorted_next:
  fixes xs :: "'a::linorder list"
  assumes "sorted_wrt (<) xs" "filter P xs = x # ys" "\<And>a b. P a \<Longrightarrow> a < b \<Longrightarrow> P b"
  shows "filter (\<lambda>y. x < y) xs = ys"
  using assms(1,2)
proof (induction xs)
  case (Cons a xs)
  show ?case
  proof (cases "P a")
    case True
    with Cons.prems have "x = a" "ys = filter P xs" by auto
    moreover have "filter P xs = xs" using Cons.prems(1) assms(3) True by (auto simp: filter_id_conv)
    moreover have "filter (\<lambda>y. a < y) xs = xs" using Cons.prems(1) by (auto simp: filter_id_conv)
    ultimately show ?thesis by simp
  next
    case False
    with Cons.prems have f: "filter P xs = x # ys" by simp
    then have "P x" "x \<in> set xs" by (auto simp: filter_eq_Cons_iff)
    with Cons.prems(1) have "\<not> x < a" by auto
    with Cons f show ?thesis by simp
  qed
qed simp

definition next_of :: "KeyScalar list \<Rightarrow> NextKey" where
  "next_of ks = (case ks of [] \<Rightarrow> End | k # _ \<Rightarrow> Next k)"

definition bounded :: "nat \<Rightarrow> KeyScalar list \<Rightarrow> KeyScalar list \<Rightarrow> BoundedKeys" where
  "bounded n keys ks = \<lparr>bk_keys = keys @ take n ks, bk_more = (n < length ks)\<rparr>"

lemma up_to_engine_bind:
  "up_to_engine errs r spec \<Longrightarrow> (\<And>a. spec = Inr a \<Longrightarrow> up_to_engine errs (f a) (g a)) \<Longrightarrow>
     up_to_engine errs (rbind r f) (rbind spec g)"
  by (cases spec) (auto simp: up_to_engine_def)

lemma up_to_engine_result: "(\<And>e. r = Inl e \<Longrightarrow> e \<in> errs) \<Longrightarrow> up_to_engine errs (engine_result r) (engine_result r)"
  by simp

context lawful_view
begin

lemma layer_step_agrees:
  assumes "ok s" "layer_clean (cells s) f anc kind" "seek_ok kind seek"
  shows "up_to_engine errs (layer_step E s (layer_new f anc) kind seek)
           (Inr (next_of (filter (admits seek) (sorted_list_of_set (layer_keys (cells s) f anc)))))"
proof -
  let ?L = "sorted_list_of_set (layer_keys (cells s) f anc)" and ?p = "layer_prefix (layer_new f anc)"
  have set_L: "set ?L = layer_keys (cells s) f anc"
    using finite_layer_keys [OF finite_cells [OF assms(1)]] by simp
  obtain c where c: "seek_cursor (layer_new f anc) kind seek = Inr c" "prefix ?p c"
    "\<And>k s. c < marker_key f (anc @ [k]) @ s \<longleftrightarrow> admits seek k"
    using seek_cursor_ok [OF assms(3)] by blast
  show ?thesis
  proof (cases "eng_scan_after E s ?p c")
    case (Inl e)
    then show ?thesis using scan_errs c by (simp add: layer_step_def)
  next
    case (Inr page)
    note page = scan_law [OF assms(1) c(2) Inr]
    show ?thesis
    proof (cases page)
      case Nil
      have "\<not> admits seek k" if "k \<in> layer_keys (cells s) f anc" for k
      proof
        assume "admits seek k"
        then have "c < marker_key f (anc @ [k])" using c(3) [of k "[]"] by simp
        moreover have "marker_key f (anc @ [k]) \<in> dom (cells s)" using that by (auto simp: layer_keys_def)
        ultimately show False using page unfolding Nil page_of_Nil by (meson layer_cursors_inside(4))
      qed
      then have "filter (admits seek) ?L = []" by (simp add: filter_empty_conv set_L)
      then show ?thesis using Inr Nil c by (simp add: layer_step_def next_of_def)
    next
      case (Cons cell rest)
      obtain ck v where cell: "cell = (ck, v)" by fastforce
      note first = page_of_first [OF page [unfolded Cons cell]]
      obtain k t where k: "ck = marker_key f (anc @ [k]) @ t" "key_wf k" "scalar_key_matches_type k kind"
        "k \<in> layer_keys (cells s) f anc"
        using assms(2) first(1,2) unfolding layer_clean_def by (meson domI)
      have adm: "admits seek k" using first(3) c(3) [of k t] k(1) by simp
      have below: "ck \<le> marker_key f (anc @ [l])" if "l \<in> layer_keys (cells s) f anc" "admits seek l" for l
        using that first(4) [of "marker_key f (anc @ [l])"] c(3) [of l "[]"] by (auto simp: layer_keys_def)
      then have ck: "ck = marker_key f (anc @ [k])"
        using adm k prefix_less_eq [of "marker_key f (anc @ [k])" ck] by (metis antisym prefix_def)
      have "\<exists>ys. filter (admits seek) ?L = k # ys"
        by (rule sorted_head) (use below adm k ck set_L in \<open>auto simp: marker_le_iff intro: sorted_wrt_filter\<close>)
      then show ?thesis
        using Inr Cons cell c k(2,3) ck layer_classify_Marker [of f anc ck k] by (auto simp: layer_step_def next_of_def)
    qed
  qed
qed

lemma admits_mono: "admits seek k \<Longrightarrow> k < l \<Longrightarrow> admits seek l"
  by (cases seek) auto

lemma iterate_loop_agrees:
  assumes "ok s" "layer_clean (cells s) f anc kind"
  shows "seek_ok kind seek \<Longrightarrow>
     up_to_engine errs (iterate_loop E s (layer_new f anc) kind n seek keys)
       (Inr (bounded n keys (filter (admits seek) (sorted_list_of_set (layer_keys (cells s) f anc)))))"
proof (induction n arbitrary: seek keys)
  case 0
  let ?ks = "filter (admits seek) (sorted_list_of_set (layer_keys (cells s) f anc))"
  have "(Inr (bounded 0 keys ?ks) :: BoundedKeys kernel) =
      rbind (Inr (next_of ?ks)) (\<lambda>n. case n of End \<Rightarrow> Inr \<lparr>bk_keys = keys, bk_more = False\<rparr>
        | Next _ \<Rightarrow> Inr \<lparr>bk_keys = keys, bk_more = True\<rparr>)"
    by (cases ?ks) (simp_all add: next_of_def bounded_def)
  then show ?case
    unfolding iterate_loop.simps
    by (simp only:) (rule up_to_engine_bind [OF layer_step_agrees [OF assms 0]], simp)
next
  case (Suc n)
  let ?L = "sorted_list_of_set (layer_keys (cells s) f anc)"
  let ?ks = "filter (admits seek) ?L"
  have tail: "filter (admits (After k)) ?L = ks" if "?ks = k # ks" for k ks
  proof -
    have "filter (\<lambda>y. k < y) ?L = ks"
      by (rule sorted_next [where P = "admits seek"]) (use that in \<open>auto intro: admits_mono\<close>)
    then show ?thesis by (simp add: admits_After)
  qed
  have "(Inr (bounded (Suc n) keys ?ks) :: BoundedKeys kernel) =
      rbind (Inr (next_of ?ks)) (\<lambda>m. case m of End \<Rightarrow> Inr \<lparr>bk_keys = keys, bk_more = False\<rparr>
        | Next k \<Rightarrow> Inr (bounded n (keys @ [k]) (filter (admits (After k)) ?L)))"
    using tail by (cases ?ks) (simp_all add: next_of_def bounded_def)
  then show ?case
    unfolding iterate_loop.simps
    by (simp only:) (rule up_to_engine_bind [OF layer_step_agrees [OF assms Suc.prems]],
      use Suc.IH in \<open>simp split: NextKey.split\<close>)
qed

end

lemma layer_of_family:
  "layer_of site anc = Inr (layer, kind) \<Longrightarrow> layer = layer_new (site_family site) anc"
  by (auto simp: layer_of_def site_family_def Let_def split: if_splits)

definition lower_bound :: "KeyScalar option \<Rightarrow> KeyScalar \<Rightarrow> bool" where
  "lower_bound from_key k = (case from_key of None \<Rightarrow> True | Some l \<Rightarrow> l \<le> k)"

lemma lower_bound_simps [simp]: "lower_bound None = (\<lambda>k. True)" "lower_bound (Some l) = (\<lambda>k. l \<le> k)"
  by (simp_all add: lower_bound_def fun_eq_iff)

definition from_ok :: "ScalarKind \<Rightarrow> KeyScalar option \<Rightarrow> bool" where
  "from_ok kind from_key = (case from_key of None \<Rightarrow> True | Some l \<Rightarrow> scalar_key_matches_type l kind)"

section \<open>Properties\<close>

text \<open>
  C16. Bounded traversal is exact over a clean family: the frozen keys are the first \<open>limit\<close> keys
  present in the layer at or above the lower bound, in ascending key order, and the extra bit is set
  exactly when there is one more. Other families, the payload of the entries and child entries have
  no influence.
\<close>

theorem iterate_bounded_exact:
  assumes "txn_ok t" "layer_of site anc = Inr (layer, kind)"
    "layer_clean (txn_cells t) (site_family site) anc kind" "from_ok kind from_key"
    "ks = filter (lower_bound from_key) (sorted_list_of_set (layer_keys (txn_cells t) (site_family site) anc))"
  shows "op_iterate_bounded mem_txn t site anc from_key limit
           = Inr \<lparr>bk_keys = take (unat limit) ks, bk_more = (unat limit < length ks)\<rparr>"
proof -
  let ?seek = "case from_key of Some k \<Rightarrow> From k | None \<Rightarrow> Start"
  have "seek_ok kind ?seek" using assms(4) by (auto simp: from_ok_def split: option.splits)
  from mem.iterate_loop_agrees [OF assms(1,3) this, of "unat limit" "[]"]
  have "iterate_loop mem_txn t layer kind (unat limit) ?seek []
      = Inr (bounded (unat limit) [] (filter (admits ?seek) (sorted_list_of_set (layer_keys (txn_cells t) (site_family site) anc))))"
    using layer_of_family [OF assms(2)] by simp
  moreover have "admits ?seek = lower_bound from_key"
    by (auto simp: lower_bound_def fun_eq_iff split: option.splits)
  ultimately show ?thesis by (simp add: op_iterate_bounded_def assms(2,5) limit_get_def bounded_def)
qed

definition sample_cells :: BTree where
  "sample_cells = [(marker_key 0 [KBool False], MARKER_VALUE), (marker_key 0 [KBool True], MARKER_VALUE)]"

definition flag_site :: AuthorizedSite where
  "flag_site = \<lparr>as_root_number = 0, as_root_index = 0, as_columns = [SkBool], as_branch = [], as_target = AtEntry [] []\<rparr>"

theorem iterate_bounded_exact_witness:
  "op_iterate_bounded mem_txn \<lparr>txn_base = [], txn_working = sample_cells\<rparr> flag_site [] None 1
     = Inr \<lparr>bk_keys = [KBool False], bk_more = True\<rparr>"
proof -
  let ?t = "\<lparr>txn_base = [], txn_working = sample_cells\<rparr>"
  have c: "txn_cells ?t = [marker_key 0 [KBool False] \<mapsto> MARKER_VALUE, marker_key 0 [KBool True] \<mapsto> MARKER_VALUE]"
    by (auto simp: txn_cells_def sample_cells_def fun_eq_iff)
  then have keys: "layer_keys (txn_cells ?t) 0 [] = {KBool False, KBool True}"
    by (auto simp: layer_keys_def split: if_splits)
  have ok: "txn_ok ?t"
    by (simp add: txn_ok_def btree_ok_def sample_cells_def marker_key_layout encode_key_value_simp order_tag_def)
  have of_layer: "layer_of flag_site [] = Inr (layer_new 0 [], SkBool)"
    by (simp add: layer_of_def flag_site_def)
  have fam: "site_family flag_site = 0" by (simp add: site_family_def flag_site_def)
  have "layer_clean (txn_cells ?t) 0 [] SkBool"
    unfolding layer_clean_def keys
    by (auto simp: c scalar_key_matches_type_def split: if_splits)
  moreover have "sorted_list_of_set {KBool False, KBool True} = [KBool False, KBool True]"
    by (simp add: less_eq_KeyScalar_def)
  ultimately show ?thesis
    using iterate_bounded_exact [OF ok of_layer, of None "[KBool False, KBool True]" 1] keys
    by (simp add: fam from_ok_def lower_bound_def)
qed

section \<open>Index scans\<close>

text \<open>
  The next components present under a held prefix, and cleanliness: every cell under it is a row
  with a component of the declared kind and \<open>n\<close> further columns.
\<close>

definition components :: "(bytes \<rightharpoonup> bytes) \<Rightarrow> NodeNumber \<Rightarrow> bytes \<Rightarrow> KeyScalar list \<Rightarrow> KeyScalar set" where
  "components m r i pre = {k. \<exists>rest. m (index_cell_key r i (pre @ k # rest)) \<noteq> None}"

definition index_clean :: "(bytes \<rightharpoonup> bytes) \<Rightarrow> NodeNumber \<Rightarrow> bytes \<Rightarrow> KeyScalar list \<Rightarrow> ScalarKind \<Rightarrow> nat \<Rightarrow> bool" where
  "index_clean m r i pre kind n \<longleftrightarrow>
     (\<forall>c \<in> dom m. prefix (index_prefix (index_layer_new r i pre)) c \<longrightarrow>
        (\<exists>k rest. c = index_cell_key r i (pre @ k # rest) \<and> key_wf k \<and> scalar_key_matches_type k kind \<and> length rest = n))"

lemma index_row_inject [simp]: "index_cell_key r i a = index_cell_key r i b \<longleftrightarrow> a = b"
  by (simp add: index_cell_layout tuple_inject)

lemma component_row:
  assumes "index_clean m r i pre kind n" "k \<in> components m r i pre"
  shows "\<exists>rest. index_cell_key r i (pre @ k # rest) \<in> dom m \<and> length rest = n \<and> key_wf k \<and> scalar_key_matches_type k kind"
proof -
  obtain rest where "index_cell_key r i (pre @ k # rest) \<in> dom m" using assms(2) by (auto simp: components_def)
  moreover from this obtain k' rest' where "pre @ k # rest = pre @ k' # rest'" "key_wf k'" "scalar_key_matches_type k' kind" "length rest' = n"
    using assms(1) unfolding index_clean_def by (metis index_cursors_inside(3) index_row_inject)
  ultimately show ?thesis by auto
qed

lemma finite_components:
  assumes "finite (dom m)" "index_clean m r i pre kind n"
  shows "finite (components m r i pre)"
proof (rule finite_surj [OF assms(1)])
  show "components m r i pre \<subseteq> (\<lambda>c. the (next_component (index_layer_new r i pre) c)) ` dom m"
  proof
    fix k assume "k \<in> components m r i pre"
    from component_row [OF assms(2) this] obtain rest where
      "index_cell_key r i (pre @ k # rest) \<in> dom m" "key_wf k" by blast
    then show "k \<in> (\<lambda>c. the (next_component (index_layer_new r i pre) c)) ` dom m"
      by (intro image_eqI [of _ _ "index_cell_key r i (pre @ k # rest)"]) (simp_all add: next_component_cell)
  qed
qed

lemma index_row_le: "k < l \<Longrightarrow> index_cell_key r i (pre @ k # rest) < index_cell_key r i (pre @ l # rest')"
  using skip_cursor_below [of r i pre k l rest'] skip_cursor_below [of r i pre k k rest] by simp

context lawful_view
begin

lemma index_step_agrees:
  assumes "ok s" "index_clean (cells s) r i pre kind n" "prefix (index_prefix (index_layer_new r i pre)) c"
    "\<And>k rest. length rest = n \<Longrightarrow> c < index_cell_key r i (pre @ k # rest) \<longleftrightarrow> P k"
  shows "up_to_engine errs (index_step E s (index_layer_new r i pre) kind c)
           (Inr (next_of (filter P (sorted_list_of_set (components (cells s) r i pre)))))"
proof (cases "eng_scan_after E s (index_prefix (index_layer_new r i pre)) c")
  case (Inl e)
  then show ?thesis using scan_errs by (simp add: index_step_def)
next
  case (Inr page)
  let ?L = "sorted_list_of_set (components (cells s) r i pre)"
  have set_L: "set ?L = components (cells s) r i pre"
    using finite_components [OF finite_cells [OF assms(1)] assms(2)] by simp
  have row: "\<exists>rest. index_cell_key r i (pre @ k # rest) \<in> dom (cells s) \<and> length rest = n
      \<and> (c < index_cell_key r i (pre @ k # rest) \<longleftrightarrow> P k)" if "k \<in> components (cells s) r i pre" for k
    using component_row [OF assms(2) that] assms(4) by blast
  note page = scan_law [OF assms(1,3) Inr]
  show ?thesis
  proof (cases page)
    case Nil
    then have "\<not> P k" if "k \<in> components (cells s) r i pre" for k
      using page row [OF that] unfolding Nil page_of_Nil by (meson index_cursors_inside(3))
    then have "filter P ?L = []" by (simp add: filter_empty_conv set_L)
    then show ?thesis using Inr Nil by (simp add: index_step_def next_of_def)
  next
    case (Cons cell others)
    obtain ck v where cell: "cell = (ck, v)" by fastforce
    note first = page_of_first [OF page [unfolded Cons cell]]
    obtain k rest where k: "ck = index_cell_key r i (pre @ k # rest)" "key_wf k" "scalar_key_matches_type k kind" "length rest = n"
      using assms(2) first(1,2) unfolding index_clean_def by (meson domI)
    have P: "P k" using first(3) assms(4) [OF k(4), of k] k(1) by simp
    have comp: "k \<in> components (cells s) r i pre" using first(1) k(1) by (auto simp: components_def)
    have least: "k \<le> l" if l: "l \<in> components (cells s) r i pre" "P l" for l
    proof (rule ccontr)
      assume "\<not> k \<le> l"
      obtain rest' where "index_cell_key r i (pre @ l # rest') \<in> dom (cells s)" "c < index_cell_key r i (pre @ l # rest')"
        using row [OF l(1)] l(2) by blast
      then have "ck \<le> index_cell_key r i (pre @ l # rest')" using first(4) by simp
      with index_row_le [of l k r i pre rest' rest] \<open>\<not> k \<le> l\<close> k(1) show False by (auto simp: not_le)
    qed
    have "\<exists>ys. filter P ?L = k # ys"
      by (rule sorted_head) (use least P comp set_L in \<open>auto intro: sorted_wrt_filter\<close>)
    then show ?thesis
      using Inr Cons cell k by (auto simp: index_step_def next_of_def next_component_cell)
  qed
qed

lemma index_loop_agrees:
  assumes "ok s" "index_clean (cells s) r i pre kind n"
  shows "prefix (index_prefix (index_layer_new r i pre)) c \<Longrightarrow>
     (\<And>k rest. length rest = n \<Longrightarrow> c < index_cell_key r i (pre @ k # rest) \<longleftrightarrow> P k) \<Longrightarrow>
     (\<And>a b. P a \<Longrightarrow> a < b \<Longrightarrow> P b) \<Longrightarrow>
     up_to_engine errs (index_loop E s (index_layer_new r i pre) kind room c keys)
       (Inr (bounded room keys (filter P (sorted_list_of_set (components (cells s) r i pre)))))"
proof (induction room arbitrary: c P keys)
  case 0
  let ?ks = "filter P (sorted_list_of_set (components (cells s) r i pre))"
  have "(Inr (bounded 0 keys ?ks) :: BoundedKeys kernel) =
      rbind (Inr (next_of ?ks)) (\<lambda>n. case n of End \<Rightarrow> Inr \<lparr>bk_keys = keys, bk_more = False\<rparr>
        | Next _ \<Rightarrow> Inr \<lparr>bk_keys = keys, bk_more = True\<rparr>)"
    by (cases ?ks) (simp_all add: next_of_def bounded_def)
  then show ?case
    unfolding index_loop.simps
    by (simp only:) (rule up_to_engine_bind [OF index_step_agrees [OF assms 0(1,2)]], simp_all)
next
  case (Suc room)
  let ?L = "sorted_list_of_set (components (cells s) r i pre)"
  let ?ks = "filter P ?L"
  have tail: "filter (\<lambda>l. k < l) ?L = ks" if "?ks = k # ks" for k ks
    by (rule sorted_next [OF _ that]) (use Suc.prems(3) in auto)
  have "(Inr (bounded (Suc room) keys ?ks) :: BoundedKeys kernel) =
      rbind (Inr (next_of ?ks)) (\<lambda>m. case m of End \<Rightarrow> Inr \<lparr>bk_keys = keys, bk_more = False\<rparr>
        | Next k \<Rightarrow> Inr (bounded room (keys @ [k]) (filter (\<lambda>l. k < l) ?L)))"
    using tail by (cases ?ks) (simp_all add: next_of_def bounded_def)
  then show ?case
    unfolding index_loop.simps
    by (simp only:) (rule up_to_engine_bind [OF index_step_agrees [OF assms Suc.prems(1,2)]],
      auto split: NextKey.split intro!: Suc.IH simp: skip_cursor_below)
qed

end

lemma filter_le_Cons:
  fixes xs :: "'a::linorder list"
  shows "sorted_wrt (<) xs \<Longrightarrow> filter (\<lambda>k. l \<le> k) xs = (if l \<in> set xs then [l] else []) @ filter (\<lambda>k. l < k) xs"
proof (induction xs)
  case (Cons x xs)
  have "filter (\<lambda>k. l \<le> k) xs = xs" "filter (\<lambda>k. l < k) xs = xs" if "l \<le> x"
    using Cons.prems that by (auto simp: filter_id_conv)
  with Cons show ?case by (auto simp: not_le le_less)
qed simp

definition scan_ok :: "AuthorizedSite \<Rightarrow> bytes \<Rightarrow> ScalarKind list \<Rightarrow> KeyScalar list \<Rightarrow> bool" where
  "scan_ok site ident projection pre \<longleftrightarrow>
     as_target site = AtIndex ident False projection \<and> length pre < length projection
     \<and> check_keys pre (take (length pre) projection) = Inr ()"

text \<open>
  A progressive index scan is exact over a clean index: it freezes the first \<open>limit\<close> distinct
  values of the component after the held prefix at or above the lower bound, in ascending order,
  each once however many rows share it, and reports whether there is one more. The inclusive bound
  holds also when it completes the projection, where its row equals the seek key itself.
\<close>

theorem index_scan_exact:
  assumes "txn_ok t" "scan_ok site ident projection pre"
    "index_clean (txn_cells t) (as_root_number site) ident pre (projection ! length pre) (length projection - length pre - 1)"
    "from_ok (projection ! length pre) from_key" "limit \<noteq> 0"
    "ks = filter (lower_bound from_key) (sorted_list_of_set (components (txn_cells t) (as_root_number site) ident pre))"
  shows "op_index_scan mem_txn t site pre from_key limit
           = Inr \<lparr>bk_keys = take (unat limit) ks, bk_more = (unat limit < length ks)\<rparr>"
proof -
  let ?r = "as_root_number site" and ?n = "length projection - length pre - 1" and ?kind = "projection ! length pre"
  let ?layer = "index_layer_new ?r ident pre" and ?L = "sorted_list_of_set (components (txn_cells t) ?r ident pre)"
  have set_L: "set ?L = components (txn_cells t) ?r ident pre"
    using finite_components [OF mem.finite_cells [OF assms(1)] assms(3)] by simp
  have lim: "0 < unat limit" using assms(5) by (simp add: unat_gt_0)
  note loop = mem.index_loop_agrees [OF assms(1,3), unfolded up_to_no_failure]
  have read: "index_read site = Some (ident, False, projection)" using assms(2) by (simp add: scan_ok_def index_read_def)
  show ?thesis
  proof (cases from_key)
    case None
    have "index_loop mem_txn t ?layer ?kind (unat limit) (index_prefix ?layer) [] = Inr (bounded (unat limit) [] (filter (\<lambda>k. True) ?L))"
      by (rule loop) (simp_all add: index_prefix_below)
    then show ?thesis using assms(2,6) None read
      by (simp add: op_index_scan_def index_target_def scan_ok_def bounded_def limit_get_def)
  next
    case (Some l)
    let ?row = "txn_cells t (index_seek_from ?layer l)"
    have seek: "index_seek_from ?layer l = index_cell_key ?r ident (pre @ [l])"
      by (simp add: index_seek_from_def index_layer_new_def index_cell_layout tuple_append)
    have ks: "ks = (if l \<in> set ?L then [l] else []) @ filter (\<lambda>k. l < k) ?L"
      using assms(6) Some filter_le_Cons [of ?L l] by simp
    have row: "?row \<noteq> None \<longleftrightarrow> ?n = 0 \<and> l \<in> set ?L"
    proof
      assume "?row \<noteq> None"
      then have d: "index_cell_key ?r ident (pre @ l # []) \<in> dom (txn_cells t)" by (simp add: seek domIff)
      then have "l \<in> components (txn_cells t) ?r ident pre" by (auto simp: components_def)
      moreover from d obtain k rest where "pre @ [l] = pre @ k # rest" "length rest = ?n"
        using assms(3) unfolding index_clean_def by (metis index_cursors_inside(3) index_row_inject)
      ultimately show "?n = 0 \<and> l \<in> set ?L" by (simp add: set_L)
    next
      assume "?n = 0 \<and> l \<in> set ?L"
      then show "?row \<noteq> None" using component_row [OF assms(3), of l] by (auto simp: set_L seek)
    qed
    define keys where "keys = (if ?row \<noteq> None then [l] else [])"
    have "index_loop mem_txn t ?layer ?kind (unat limit - length keys) (index_seek_from ?layer l) keys
        = Inr (bounded (unat limit - length keys) keys (filter (\<lambda>k. l < k \<or> l = k \<and> ?n \<noteq> 0) ?L))"
      by (rule loop) (auto simp: index_seek_below index_cursors_inside)
    moreover have "bounded (unat limit - length keys) keys (filter (\<lambda>k. l < k \<or> l = k \<and> ?n \<noteq> 0) ?L)
        = bounded (unat limit) [] ks"
    proof (cases "?n = 0")
      case True
      then show ?thesis using ks row lim by (cases "unat limit") (auto simp: bounded_def keys_def)
    next
      case False
      then have "filter (\<lambda>k. l < k \<or> l = k \<and> ?n \<noteq> 0) ?L = ks"
        using assms(6) Some by (auto simp: le_less intro!: filter_cong)
      then show ?thesis using row False by (simp add: bounded_def keys_def)
    qed
    moreover have "eng_get mem_txn t (index_seek_from ?layer l) = Inr ?row"
      by (simp add: mem_txn_def mem_get_def txn_cells_def)
    ultimately show ?thesis using assms(2,4) Some read
      by (simp add: op_index_scan_def index_target_def scan_ok_def bounded_def limit_get_def from_ok_def Let_def keys_def)
  qed
qed

definition sample_rows :: BTree where
  "sample_rows = map (\<lambda>row. (index_cell_key 0 (replicate 16 7) row, []))
     [[KBool False, KBool False], [KBool False, KBool True], [KBool True, KBool False]]"

definition sample_index_site :: AuthorizedSite where
  "sample_index_site = \<lparr>as_root_number = 0, as_root_index = 0, as_columns = [SkBool], as_branch = [],
     as_target = AtIndex (replicate 16 7) False [SkBool, SkBool]\<rparr>"

theorem index_scan_exact_witness:
  "op_index_scan mem_txn \<lparr>txn_base = [], txn_working = sample_rows\<rparr> sample_index_site [] None 1
     = Inr \<lparr>bk_keys = [KBool False], bk_more = True\<rparr>"
proof -
  let ?t = "\<lparr>txn_base = [], txn_working = sample_rows\<rparr>" and ?id = "replicate 16 7 :: bytes"
  have dom: "dom (txn_cells ?t) = index_cell_key 0 ?id `
      {[KBool False, KBool False], [KBool False, KBool True], [KBool True, KBool False]}"
    by (auto simp: txn_cells_def sample_rows_def dom_map_of_conv_image_fst)
  have comps: "components (txn_cells ?t) 0 ?id [] = {KBool False, KBool True}"
  proof -
    have "components (txn_cells ?t) 0 ?id [] = {k. \<exists>rest. index_cell_key 0 ?id (k # rest) \<in> dom (txn_cells ?t)}"
      by (simp add: components_def domIff)
    then show ?thesis unfolding dom by auto
  qed
  have ok: "txn_ok ?t"
    by (simp add: txn_ok_def btree_ok_def sample_rows_def index_cell_layout encode_key_value_simp order_tag_def)
  have scan: "scan_ok sample_index_site ?id [SkBool, SkBool] []" by (simp add: scan_ok_def sample_index_site_def)
  have clean: "index_clean (txn_cells ?t) 0 ?id [] SkBool 1"
    unfolding index_clean_def dom by (auto simp: scalar_key_matches_type_def)
  show ?thesis
    using index_scan_exact [OF ok scan, of None 1 "[KBool False, KBool True]"] clean comps
    by (simp add: sample_index_site_def from_ok_def less_eq_KeyScalar_def)
qed

end
