(* ===== verification/Txn_Session.thy ===== *)
theory Txn_Session
  imports Traverse
begin

text \<open>
  The transaction session of \<open>crates/marrow-kernel/src/durable/store/txn_session.rs\<close>: the completeness
  law of payload writes, the mutations, and managed-index maintenance. A mutation runs on the engine
  transaction the session holds: a function from the optional transaction state to a result and the
  new state. Using a consumed transaction is a panic (\<open>expect\<close>).
\<close>

type_synonym ('s, 'a) txn_op = "'s option \<Rightarrow> 'a kernel \<times> 's option"

definition of_kernel :: "'a kernel \<Rightarrow> ('s, 'a) txn_op" where
  "of_kernel r st = (r, st)"

definition obey :: "('s, 'a) txn_op \<Rightarrow> ('a \<Rightarrow> ('s, 'b) txn_op) \<Rightarrow> ('s, 'b) txn_op" where
  "obey m f st = (case m st of (Inl e, st') \<Rightarrow> (Inl e, st') | (Inr a, st') \<Rightarrow> f a st')"

definition txn_read :: "('s \<Rightarrow> 'a kernel) \<Rightarrow> ('s, 'a) txn_op" where
  "txn_read f st = (case st of None \<Rightarrow> (Inl Panic, None) | Some s \<Rightarrow> (f s, Some s))"

definition txn_put :: "'s engine \<Rightarrow> bytes \<Rightarrow> bytes \<Rightarrow> ('s, unit) txn_op" where
  "txn_put E key v st =
     (case st of None \<Rightarrow> (Inl Panic, None)
      | Some s \<Rightarrow> (case eng_put E key v s of (r, s') \<Rightarrow> (engine_result r, Some s')))"

definition txn_remove :: "'s engine \<Rightarrow> bytes \<Rightarrow> ('s, unit) txn_op" where
  "txn_remove E key st =
     (case st of None \<Rightarrow> (Inl Panic, None)
      | Some s \<Rightarrow> (case eng_remove E key s of (r, s') \<Rightarrow> (engine_result r, Some s')))"

section \<open>The completeness law\<close>

definition require_record_complete :: "ResolvedField list \<Rightarrow> ValueDomain option list \<Rightarrow> unit kernel" where
  "require_record_complete fs vs =
     (if length vs \<noteq> length fs then fault Incomplete
      else if list_all (\<lambda>(f, v). v \<noteq> None \<or> \<not> rf_required f) (zip fs vs) then Inr () else fault Incomplete)"

fun require_groups_complete :: "ResolvedGroup list \<Rightarrow> EntryValue list \<Rightarrow> unit kernel" where
  "require_groups_complete (g # gs) (v # vs) =
     rbind (require_record_complete (rg_fields g) (ev_fields v)) (\<lambda>_.
       if ev_groups v \<noteq> [] then fault Incomplete else require_groups_complete gs vs)"
| "require_groups_complete _ _ = Inr ()"

definition require_complete :: "ResolvedField list \<Rightarrow> ResolvedGroup list \<Rightarrow> EntryValue \<Rightarrow> unit kernel" where
  "require_complete fs gs entry =
     rbind (require_record_complete fs (ev_fields entry)) (\<lambda>_.
       if length (ev_groups entry) \<noteq> length gs then fault Incomplete
       else require_groups_complete gs (ev_groups entry))"

section \<open>Applying plans\<close>

fun apply_writes :: "'s engine \<Rightarrow> CellWrite list \<Rightarrow> ('s, unit) txn_op" where
  "apply_writes E [] = of_kernel (Inr ())"
| "apply_writes E (Put key v # ops) = obey (txn_put E key v) (\<lambda>_. apply_writes E ops)"
| "apply_writes E (Remove key # ops) = obey (txn_remove E key) (\<lambda>_. apply_writes E ops)"

fun apply_index_ops :: "'s engine \<Rightarrow> IndexOp list \<Rightarrow> ('s, unit) txn_op" where
  "apply_index_ops E [] = of_kernel (Inr ())"
| "apply_index_ops E (IoRemove cell # ops) = obey (txn_remove E cell) (\<lambda>_. apply_index_ops E ops)"
| "apply_index_ops E (IoPut cell v # ops) = obey (txn_put E cell v) (\<lambda>_. apply_index_ops E ops)"
| "apply_index_ops E (IoUniquePut cell v # ops) =
     obey (txn_read (\<lambda>s. read_raw E s cell)) (\<lambda>existing.
       if existing \<noteq> None \<and> existing \<noteq> Some v then of_kernel (fault UniqueIndexViolation)
       else obey (txn_put E cell v) (\<lambda>_. apply_index_ops E ops))"

section \<open>Index maintenance\<close>

definition indexes_of :: "IndexSchema list list \<Rightarrow> AuthorizedSite \<Rightarrow> IndexSchema list kernel" where
  "indexes_of indexes site = nth_or_panic indexes (unat (as_root_index site))"

definition maintains_root :: "IndexSchema list list \<Rightarrow> AuthorizedSite \<Rightarrow> bool kernel" where
  "maintains_root indexes site =
     rbind (indexes_of indexes site) (\<lambda>ixs. Inr (ixs \<noteq> [] \<and> as_branch site = []))"

fun projected_field :: "IndexComponent \<Rightarrow> nat option" where
  "projected_field (IcField field) = Some (unat field)"
| "projected_field (IcKey _) = None"

definition projected_positions_of :: "IndexSchema list \<Rightarrow> nat list" where
  "projected_positions_of ixs =
     remdups_adj (sort (concat (map (\<lambda>ix. List.map_filter projected_field (ix_projection ix)) ixs)))"

definition indexes_projecting :: "IndexSchema list list \<Rightarrow> AuthorizedSite \<Rightarrow> nat \<Rightarrow> IndexSchema list kernel" where
  "indexes_projecting indexes site position =
     rbind (indexes_of indexes site) (\<lambda>ixs.
       Inr (filter (\<lambda>ix. list_ex (\<lambda>c. projected_field c = Some position) (ix_projection ix)) ixs))"

fun read_positions :: "'s engine \<Rightarrow> 's \<Rightarrow> bytes \<Rightarrow> ResolvedField list \<Rightarrow> nat list \<Rightarrow> ValueDomain option list \<Rightarrow>
    ValueDomain option list kernel" where
  "read_positions E s stem rec [] fs = Inr fs"
| "read_positions E s stem rec (position # positions) fs =
     rbind (nth_or_panic rec position) (\<lambda>f.
     rbind (read_raw E s (stem_field_leaf stem (rf_number f))) (\<lambda>v.
       case v of
         None \<Rightarrow> read_positions E s stem rec positions fs
       | Some bs \<Rightarrow>
           rbind (ok_or (decode_domain bs (rf_shape f)) (Raise Corruption)) (\<lambda>x.
             read_positions E s stem rec positions (fs[position := Some x]))))"

definition read_projected :: "'s engine \<Rightarrow> 's \<Rightarrow> bytes \<Rightarrow> ResolvedField list \<Rightarrow> nat list \<Rightarrow> ValueDomain option list kernel" where
  "read_projected E s stem rec positions = read_positions E s stem rec positions (replicate (length rec) None)"

record FieldMaintenance =
  fm_indexes :: "IndexSchema list"
  fm_old :: "ValueDomain option list"
  fm_position :: nat

definition field_maintenance_before :: "'s engine \<Rightarrow> IndexSchema list list \<Rightarrow> AuthorizedSite \<Rightarrow> bytes \<Rightarrow>
    ('s, FieldMaintenance option) txn_op" where
  "field_maintenance_before E indexes site stem =
     obey (of_kernel (maintains_root indexes site)) (\<lambda>maintains.
       if \<not> maintains then of_kernel (Inr None)
       else obey (of_kernel (site_record site)) (\<lambda>rec.
            obey (of_kernel (field_index_in_record site rec)) (\<lambda>position.
            obey (of_kernel (indexes_projecting indexes site position)) (\<lambda>ixs.
              if ixs = [] then of_kernel (Inr None)
              else obey (txn_read (\<lambda>s. read_projected E s stem rec (projected_positions_of ixs))) (\<lambda>old.
                     of_kernel (Inr (Some \<lparr>fm_indexes = ixs, fm_old = old, fm_position = position\<rparr>)))))))"

definition maintain_field_write :: "'s engine \<Rightarrow> AuthorizedSite \<Rightarrow> KeyScalar list \<Rightarrow> FieldMaintenance option \<Rightarrow>
    ValueDomain option \<Rightarrow> ('s, unit) txn_op" where
  "maintain_field_write E site keys maintenance new_value =
     (case maintenance of
        None \<Rightarrow> of_kernel (Inr ())
      | Some fm \<Rightarrow>
          if fm_position fm < length (fm_old fm)
          then obey (of_kernel (index_writes (as_root_number site) (fm_indexes fm) keys (Some (fm_old fm))
                       (Some ((fm_old fm)[fm_position fm := new_value])))) (\<lambda>ops.
                 apply_index_ops E ops)
          else of_kernel (Inl Panic))"

definition maintain_indexes :: "'s engine \<Rightarrow> IndexSchema list list \<Rightarrow> AuthorizedSite \<Rightarrow> KeyScalar list \<Rightarrow>
    ValueDomain option list option \<Rightarrow> ValueDomain option list option \<Rightarrow> ('s, unit) txn_op" where
  "maintain_indexes E indexes site keys old new =
     obey (of_kernel (indexes_of indexes site)) (\<lambda>ixs.
     obey (of_kernel (index_writes (as_root_number site) ixs keys old new)) (\<lambda>ops.
       apply_index_ops E ops))"

definition old_projected :: "'s engine \<Rightarrow> IndexSchema list list \<Rightarrow> AuthorizedSite \<Rightarrow> bytes \<Rightarrow> ResolvedField list \<Rightarrow>
    bool \<Rightarrow> ('s, ValueDomain option list) txn_op" where
  "old_projected E indexes site stem fs maintains =
     (if maintains
      then obey (of_kernel (indexes_of indexes site)) (\<lambda>ixs.
             txn_read (\<lambda>s. read_projected E s stem fs (projected_positions_of ixs)))
      else of_kernel (Inr []))"

section \<open>The mutations\<close>

definition create_entry :: "'s engine \<Rightarrow> IndexSchema list list \<Rightarrow> AuthorizedSite \<Rightarrow> KeyScalar list \<Rightarrow> EntryValue \<Rightarrow>
    ('s, CreateOutcome) txn_op" where
  "create_entry E indexes site keys entry =
     obey (of_kernel (node_shape site)) (\<lambda>(fs, gs).
     obey (of_kernel (require_complete fs gs entry)) (\<lambda>_.
     obey (of_kernel (node_stem site keys)) (\<lambda>stem.
     obey (txn_read (\<lambda>s. probe_slot E s stem)) (\<lambda>presence.
       case presence of
         Present \<Rightarrow> of_kernel (Inr AlreadyPresent)
       | Absent \<Rightarrow>
           obey (of_kernel (node_write stem fs gs entry)) (\<lambda>ops.
           obey (apply_writes E ops) (\<lambda>_.
           obey (of_kernel (maintains_root indexes site)) (\<lambda>maintains.
           obey (if maintains then maintain_indexes E indexes site keys None (Some (ev_fields entry))
                 else of_kernel (Inr ())) (\<lambda>_.
             of_kernel (Inr Created)))))))))"

definition replace_entry :: "'s engine \<Rightarrow> IndexSchema list list \<Rightarrow> AuthorizedSite \<Rightarrow> KeyScalar list \<Rightarrow> EntryValue \<Rightarrow>
    ('s, unit) txn_op" where
  "replace_entry E indexes site keys entry =
     obey (of_kernel (node_shape site)) (\<lambda>(fs, gs).
     obey (of_kernel (require_complete fs gs entry)) (\<lambda>_.
     obey (of_kernel (node_stem site keys)) (\<lambda>stem.
     obey (txn_read (\<lambda>s. read_raw E s stem)) (\<lambda>marker.
       if marker = None then of_kernel (fault Corruption)
       else obey (of_kernel (maintains_root indexes site)) (\<lambda>maintains.
            obey (old_projected E indexes site stem fs maintains) (\<lambda>old.
            obey (of_kernel (node_write stem fs gs entry)) (\<lambda>ops.
            obey (apply_writes E (node_erase stem fs gs @ ops)) (\<lambda>_.
              if maintains then maintain_indexes E indexes site keys (Some old) (Some (ev_fields entry))
              else of_kernel (Inr ())))))))))"

definition erase_entry :: "'s engine \<Rightarrow> IndexSchema list list \<Rightarrow> AuthorizedSite \<Rightarrow> KeyScalar list \<Rightarrow>
    ('s, EraseOutcome) txn_op" where
  "erase_entry E indexes site keys =
     obey (of_kernel (node_stem site keys)) (\<lambda>stem.
     obey (of_kernel (node_shape site)) (\<lambda>(fs, gs).
     obey (txn_read (\<lambda>s. read_raw E s stem)) (\<lambda>marker.
     obey (of_kernel (maintains_root indexes site)) (\<lambda>maintains.
     obey (old_projected E indexes site stem fs maintains) (\<lambda>old.
     obey (apply_writes E (node_erase stem fs gs)) (\<lambda>_.
     obey (if maintains
           then maintain_indexes E indexes site keys (if marker \<noteq> None then Some old else None) None
           else of_kernel (Inr ())) (\<lambda>_.
       of_kernel (Inr (if marker \<noteq> None then Erased else Missing)))))))))"

definition set_field :: "'s engine \<Rightarrow> IndexSchema list list \<Rightarrow> AuthorizedSite \<Rightarrow> KeyScalar list \<Rightarrow> ValueDomain \<Rightarrow>
    ('s, unit) txn_op" where
  "set_field E indexes site keys v =
     obey (of_kernel (node_stem site keys)) (\<lambda>stem.
     obey (txn_read (\<lambda>s. read_raw E s stem)) (\<lambda>marker.
       if marker = None then of_kernel (fault Corruption)
       else obey (of_kernel (field_target site)) (\<lambda>(number, _).
            obey (of_kernel (map_err (\<lambda>_. Raise ValueRange) (encode_domain v))) (\<lambda>bs.
            obey (field_maintenance_before E indexes site stem) (\<lambda>maintenance.
            obey (txn_put E (stem_field_leaf stem number) bs) (\<lambda>_.
              maintain_field_write E site keys maintenance (Some v)))))))"

definition erase_field :: "'s engine \<Rightarrow> IndexSchema list list \<Rightarrow> AuthorizedSite \<Rightarrow> KeyScalar list \<Rightarrow>
    ('s, EraseOutcome) txn_op" where
  "erase_field E indexes site keys =
     obey (of_kernel (field_target site)) (\<lambda>(number, required).
       if required then of_kernel (fault Incomplete)
       else obey (of_kernel (node_stem site keys)) (\<lambda>stem.
            obey (txn_read (\<lambda>s. read_raw E s (stem_field_leaf stem number))) (\<lambda>existing.
            obey (field_maintenance_before E indexes site stem) (\<lambda>maintenance.
            obey (txn_remove E (stem_field_leaf stem number)) (\<lambda>_.
            obey (maintain_field_write E site keys maintenance None) (\<lambda>_.
              of_kernel (Inr (if existing \<noteq> None then Erased else Missing))))))))"

definition replace_group :: "'s engine \<Rightarrow> AuthorizedSite \<Rightarrow> KeyScalar list \<Rightarrow> EntryValue \<Rightarrow> ('s, unit) txn_op" where
  "replace_group E site keys v =
     obey (of_kernel (group_target site)) (\<lambda>(number, fs).
     obey (of_kernel (require_record_complete fs (ev_fields v))) (\<lambda>_.
       if ev_groups v \<noteq> [] then of_kernel (fault Incomplete)
       else obey (of_kernel (node_stem site keys)) (\<lambda>stem.
            obey (txn_read (\<lambda>s. read_raw E s stem)) (\<lambda>marker.
              if marker = None then of_kernel (fault Corruption)
              else obey (of_kernel (group_write (group_stem stem number) fs v)) (\<lambda>ops.
                     apply_writes E (group_erase (group_stem stem number) fs @ ops))))))"

fun any_present :: "'s engine \<Rightarrow> bytes list \<Rightarrow> ('s, bool) txn_op" where
  "any_present E [] = of_kernel (Inr False)"
| "any_present E (cell # cells) =
     obey (txn_read (\<lambda>s. read_raw E s cell)) (\<lambda>v.
     obey (any_present E cells) (\<lambda>later. of_kernel (Inr (v \<noteq> None \<or> later))))"

definition erase_group :: "'s engine \<Rightarrow> AuthorizedSite \<Rightarrow> KeyScalar list \<Rightarrow> ('s, EraseOutcome) txn_op" where
  "erase_group E site keys =
     obey (of_kernel (group_target site)) (\<lambda>(number, fs).
       if list_ex rf_required fs then of_kernel (fault Incomplete)
       else obey (of_kernel (node_stem site keys)) (\<lambda>stem.
            obey (any_present E (group_cells (group_stem stem number) fs)) (\<lambda>existed.
            obey (apply_writes E (group_erase (group_stem stem number) fs)) (\<lambda>_.
              of_kernel (Inr (if existed then Erased else Missing))))))"

end
