(* ===== verification/Session_Effects.thy ===== *)
theory Session_Effects
  imports Txn_Session
begin

text \<open>
  What the session's plans do to the cells of a lawful engine, and how a written payload reads back.
  An operation that succeeds leaves the map its plan describes: \<open>plan_map\<close> for cell writes, \<open>index_map\<close>
  for index operations. The cells of a node's own footprint then determine the abstract entry.
\<close>

section \<open>Plans on maps\<close>

definition write_cell :: "CellWrite \<Rightarrow> (bytes \<rightharpoonup> bytes) \<Rightarrow> (bytes \<rightharpoonup> bytes)" where
  "write_cell w m = (case w of Put k v \<Rightarrow> m(k \<mapsto> v) | Remove k \<Rightarrow> m(k := None))"

definition plan_map :: "CellWrite list \<Rightarrow> (bytes \<rightharpoonup> bytes) \<Rightarrow> (bytes \<rightharpoonup> bytes)" where
  "plan_map = fold write_cell"

definition index_cell :: "IndexOp \<Rightarrow> (bytes \<rightharpoonup> bytes) \<Rightarrow> (bytes \<rightharpoonup> bytes)" where
  "index_cell op m = (case op of IoRemove k \<Rightarrow> m(k := None) | IoPut k v \<Rightarrow> m(k \<mapsto> v) | IoUniquePut k v \<Rightarrow> m(k \<mapsto> v))"

definition index_map :: "IndexOp list \<Rightarrow> (bytes \<rightharpoonup> bytes) \<Rightarrow> (bytes \<rightharpoonup> bytes)" where
  "index_map = fold index_cell"

text \<open>Every unique put finds its cell vacant or already its own.\<close>

definition unique_ok :: "IndexOp \<Rightarrow> (bytes \<rightharpoonup> bytes) \<Rightarrow> bool" where
  "unique_ok op m = (case op of IoUniquePut k v \<Rightarrow> m k = None \<or> m k = Some v | _ \<Rightarrow> True)"

fun unique_free :: "IndexOp list \<Rightarrow> (bytes \<rightharpoonup> bytes) \<Rightarrow> bool" where
  "unique_free [] m = True"
| "unique_free (op # ops) m = (unique_ok op m \<and> unique_free ops (index_cell op m))"

lemma plan_map_simps [simp]:
  "plan_map [] m = m" "plan_map (Put k v # ws) m = plan_map ws (m(k \<mapsto> v))"
  "plan_map (Remove k # ws) m = plan_map ws (m(k := None))"
  by (simp_all add: plan_map_def write_cell_def)

lemma index_map_simps [simp]: "index_map [] m = m" "index_map (op # ops) m = index_map ops (index_cell op m)"
  by (simp_all add: index_map_def)

lemma index_cell_simps [simp]:
  "index_cell (IoRemove k) m = m(k := None)" "index_cell (IoPut k v) m = m(k \<mapsto> v)"
  "index_cell (IoUniquePut k v) m = m(k \<mapsto> v)"
  by (simp_all add: index_cell_def)

lemma unique_ok_simps [simp]:
  "unique_ok (IoRemove k) m" "unique_ok (IoPut k v) m" "unique_ok (IoUniquePut k v) m \<longleftrightarrow> m k = None \<or> m k = Some v"
  by (simp_all add: unique_ok_def)

lemma plan_map_append: "plan_map (ws @ us) m = plan_map us (plan_map ws m)"
proof (induction ws arbitrary: m)
  case (Cons w ws)
  then show ?case by (cases w) (simp_all del: fun_upd_apply)
qed simp

lemma plan_map_removes: "plan_map (map Remove ks) m = (\<lambda>k. if k \<in> set ks then None else m k)"
  by (induction ks arbitrary: m) (auto simp: fun_eq_iff)

lemma plan_map_puts: "plan_map (puts ps) m = m ++ map_of (rev ps)"
proof (induction ps arbitrary: m)
  case (Cons p ps)
  then show ?case by (cases p) (auto simp: fun_eq_iff map_add_def split: option.splits)
qed simp

lemma map_of_rev_distinct: "distinct (map fst ps) \<Longrightarrow> map_of (rev ps) = map_of ps"
proof (induction ps)
  case (Cons p ps)
  obtain k v where p: "p = (k, v)" by fastforce
  have "map_of ps k = None" using Cons.prems p by (simp add: map_of_eq_None_iff)
  then show ?case using Cons p by (auto simp: fun_eq_iff map_add_def split: option.splits)
qed simp

section \<open>Successful runs\<close>

lemma of_kernel_run [simp]: "of_kernel r st = (r, st)"
  by (simp add: of_kernel_def)

lemma obey_Inr:
  "obey m f st = (Inr b, st') \<longleftrightarrow> (\<exists>a st1. m st = (Inr a, st1) \<and> f a st1 = (Inr b, st'))"
  by (auto simp: obey_def split: prod.splits sum.splits)

lemma obey_of_kernel [simp]:
  "obey (of_kernel (Inr a)) f st = f a st" "obey (of_kernel (Inl e)) f st = (Inl e, st)"
  by (simp_all add: obey_def)

lemma txn_read_Inr: "txn_read f st = (Inr a, st') \<longleftrightarrow> (\<exists>s. st = Some s \<and> st' = Some s \<and> f s = Inr a)"
  by (auto simp: txn_read_def split: option.splits)

lemma txn_put_Inr:
  "txn_put E k v st = (Inr u, st') \<longleftrightarrow> (\<exists>s s'. st = Some s \<and> st' = Some s' \<and> eng_put E k v s = (Inr (), s'))"
  by (auto simp: txn_put_def split: option.splits prod.splits)

lemma txn_remove_Inr:
  "txn_remove E k st = (Inr u, st') \<longleftrightarrow> (\<exists>s s'. st = Some s \<and> st' = Some s' \<and> eng_remove E k s = (Inr (), s'))"
  by (auto simp: txn_remove_def split: option.splits prod.splits)

lemmas run_Inr = obey_Inr txn_read_Inr txn_put_Inr txn_remove_Inr

context lawful_engine
begin

lemma apply_writes_effect:
  "ok s \<Longrightarrow> apply_writes E ws (Some s) = (Inr u, st) \<Longrightarrow>
     \<exists>s'. st = Some s' \<and> ok s' \<and> cells s' = plan_map ws (cells s)"
proof (induction ws arbitrary: s)
  case (Cons w ws)
  then show ?case
  proof (cases w)
    case (Put k v)
    with Cons.prems obtain s1 where "eng_put E k v s = (Inr (), s1)" "apply_writes E ws (Some s1) = (Inr u, st)"
      by (auto simp: run_Inr)
    then show ?thesis using Cons.IH [of s1] put_law [OF Cons.prems(1), of k v s1] Put by (simp del: fun_upd_apply)
  next
    case (Remove k)
    with Cons.prems obtain s1 where "eng_remove E k s = (Inr (), s1)" "apply_writes E ws (Some s1) = (Inr u, st)"
      by (auto simp: run_Inr)
    then show ?thesis using Cons.IH [of s1] remove_law [OF Cons.prems(1), of k s1] Remove by (simp del: fun_upd_apply)
  qed
qed auto

lemma apply_index_effect:
  "ok s \<Longrightarrow> apply_index_ops E ops (Some s) = (Inr u, st) \<Longrightarrow>
     \<exists>s'. st = Some s' \<and> ok s' \<and> cells s' = index_map ops (cells s) \<and> unique_free ops (cells s)"
proof (induction ops arbitrary: s)
  case (Cons op ops)
  then show ?case
  proof (cases op)
    case (IoRemove k)
    with Cons.prems obtain s1 where "eng_remove E k s = (Inr (), s1)" "apply_index_ops E ops (Some s1) = (Inr u, st)"
      by (auto simp: run_Inr)
    then show ?thesis using Cons.IH [of s1] remove_law [OF Cons.prems(1), of k s1] IoRemove by (simp del: fun_upd_apply)
  next
    case (IoPut k v)
    with Cons.prems obtain s1 where "eng_put E k v s = (Inr (), s1)" "apply_index_ops E ops (Some s1) = (Inr u, st)"
      by (auto simp: run_Inr)
    then show ?thesis using Cons.IH [of s1] put_law [OF Cons.prems(1), of k v s1] IoPut by (simp del: fun_upd_apply)
  next
    case (IoUniquePut k v)
    with Cons.prems obtain w where w: "read_raw E s k = Inr w" "w = None \<or> w = Some v"
      and rest: "obey (txn_put E k v) (\<lambda>_. apply_index_ops E ops) (Some s) = (Inr u, st)"
      by (auto simp: obey_Inr txn_read_Inr split: if_splits)
    from w(1) have "w = cells s k" using get_law [OF Cons.prems(1)] by (auto simp: read_raw_def)
    moreover from rest obtain s1 where "eng_put E k v s = (Inr (), s1)" "apply_index_ops E ops (Some s1) = (Inr u, st)"
      by (auto simp: run_Inr)
    ultimately show ?thesis using Cons.IH [of s1] put_law [OF Cons.prems(1), of k v s1] IoUniquePut w(2) by (auto simp del: fun_upd_apply)
  qed
qed auto

end

section \<open>Reading a written record back\<close>

definition slot_typed :: "ResolvedField \<Rightarrow> ValueDomain option \<Rightarrow> bool" where
  "slot_typed f v \<longleftrightarrow> (case v of None \<Rightarrow> True | Some x \<Rightarrow> indexable (rf_shape f) \<and> matches (rf_shape f) x)"

definition slot_ok :: "ResolvedField \<Rightarrow> ValueDomain option \<Rightarrow> bool" where
  "slot_ok f v \<longleftrightarrow> slot_typed f v \<and> encodable v \<and> (v \<noteq> None \<or> \<not> rf_required f)"

lemma decode_encoded:
  assumes "slot_ok f (Some x)"
  shows "decode_domain (encoded x) (rf_shape f) = Some x"
proof -
  obtain bs where bs: "encode_domain x = Inr bs" using assms by (auto simp: slot_ok_def encodable_def)
  then have "length bs \<le> MAX_DURABLE_VALUE_BYTES" by (rule encode_domain_capped)
  then show ?thesis using domain_iff [of "rf_shape f" bs x] assms bs by (simp add: slot_ok_def slot_typed_def encoded_def)
qed

lemma record_puts_keys:
  "k \<in> fst ` set (record_puts stem fs vs) \<Longrightarrow> k \<in> set (group_cells stem fs)"
  by (auto simp: record_puts_def group_cells_def dest: set_zip_leftD split: option.splits)

lemma group_cells_range: "k \<in> set (group_cells stem fs) \<Longrightarrow> prefix (field_leaf_range stem) k"
  by (auto simp: group_cells_def leaf_simps field_leaf_range_def)

lemma record_puts_lookup:
  "record_wf fs \<Longrightarrow> length vs = length fs \<Longrightarrow> i < length fs \<Longrightarrow>
     map_of (record_puts stem fs vs) (node_field_leaf stem (rf_number (fs ! i))) = map_option encoded (vs ! i)"
proof (induction fs vs arbitrary: i rule: list_induct2')
  case (4 f fs v vs)
  have wf: "record_wf fs" using "4.prems"(1) by (simp add: record_wf_def)
  have puts: "record_puts stem (f # fs) (v # vs) =
      (case v of None \<Rightarrow> [] | Some x \<Rightarrow> [(node_field_leaf stem (rf_number f), encoded x)]) @ record_puts stem fs vs"
    by (simp add: record_puts_def)
  show ?case
  proof (cases i)
    case 0
    have "node_field_leaf stem (rf_number f) \<notin> set (group_cells stem fs)"
      using "4.prems"(1) by (auto simp: record_wf_def group_cells_def leaf_simps)
    then have "map_of (record_puts stem fs vs) (node_field_leaf stem (rf_number f)) = None"
      using record_puts_keys by (fastforce simp: map_of_eq_None_iff)
    then show ?thesis using 0 puts by (cases v) simp_all
  next
    case (Suc j)
    have "node_field_leaf stem (rf_number (fs ! j)) \<noteq> node_field_leaf stem (rf_number f)"
      using "4.prems" Suc by (simp add: record_wf_def leaf_simps) (metis image_eqI nth_mem)
    then show ?thesis using Suc puts "4.IH" [OF wf] "4.prems" by (cases v) simp_all
  qed
qed simp_all

lemma leaf_strict: "strict_prefix (field_leaf_range stem) (stem_field_leaf stem n)"
  using leaf_in_range [of stem n] by (auto simp: strict_prefix_def)

lemma record_at_puts:
  assumes "record_wf fs" "list_all2 slot_ok fs vs"
    "\<And>k. strict_prefix (field_leaf_range stem) k \<Longrightarrow> m k = map_of (record_puts stem fs vs) k"
  shows "record_at m stem fs = Inr vs"
proof -
  have len: "length vs = length fs" using assms(2) by (simp add: list_all2_lengthD)
  have leaf: "m (stem_field_leaf stem (rf_number (fs ! i))) = map_option encoded (vs ! i)" if "i < length fs" for i
    using that assms(3) [OF leaf_strict] record_puts_lookup [OF assms(1) len that, of stem]
    by (simp add: node_field_leaf_def)
  have slot: "slot_ok (fs ! i) (vs ! i)" if "i < length fs" for i using assms(2) that by (simp add: list_all2_nthD)
  have val: "leaf_value m stem (fs ! i) = vs ! i" "leaf_ok m stem (fs ! i)" if "i < length fs" for i
    using leaf [OF that] slot [OF that] decode_encoded [of "fs ! i" "the (vs ! i)"]
    by (cases "vs ! i"; simp add: leaf_value_def leaf_ok_def slot_ok_def)+
  have "record_clean m stem fs"
    unfolding record_clean_def
  proof (intro conjI ballI impI)
    fix k assume k: "k \<in> dom m" "prefix (field_leaf_range stem) k \<and> k \<noteq> field_leaf_range stem"
    then have "strict_prefix (field_leaf_range stem) k" by (auto simp: strict_prefix_def)
    from assms(3) [OF this] k(1) have "k \<in> fst ` set (record_puts stem fs vs)"
      by (simp add: domIff map_of_eq_None_iff)
    then show "k \<in> set (group_cells stem fs)" by (rule record_puts_keys)
  qed (use val in \<open>auto simp: list_all_length\<close>)
  moreover have "map (leaf_value m stem) fs = vs" by (rule nth_equalityI) (simp_all add: len val)
  ultimately show ?thesis by (simp add: record_at_def)
qed

section \<open>Reading a written entry back\<close>

definition entry_ok :: "ResolvedField list \<Rightarrow> ResolvedGroup list \<Rightarrow> EntryValue \<Rightarrow> bool" where
  "entry_ok fs gs entry \<longleftrightarrow>
     list_all2 slot_ok fs (ev_fields entry)
     \<and> list_all2 (\<lambda>g sub. list_all2 slot_ok (rg_fields g) (ev_fields sub) \<and> ev_groups sub = []) gs (ev_groups entry)"

definition group_puts :: "bytes \<Rightarrow> ResolvedGroup list \<Rightarrow> EntryValue list \<Rightarrow> Cell list" where
  "group_puts stem gs subs =
     concat (map (\<lambda>(g, sub). record_puts (group_stem stem (rg_number g)) (rg_fields g) (ev_fields sub)) (zip gs subs))"

lemma node_puts_groups:
  "node_puts stem fs gs entry = (stem, MARKER_VALUE) # record_puts stem fs (ev_fields entry) @ group_puts stem gs (ev_groups entry)"
  by (simp add: node_puts_def group_puts_def)

text \<open>The leaf ranges of a record and of its groups are apart from one another and from the marker.\<close>

lemma record_puts_other:
  "\<not> prefix (field_leaf_range stem) k \<Longrightarrow> map_of (record_puts stem fs vs) k = None"
  using record_puts_keys [of k stem fs vs] group_cells_range by (auto simp: map_of_eq_None_iff)

lemma ranges_apart:
  "prefix (field_leaf_range stem) k \<Longrightarrow> \<not> prefix (field_leaf_range (group_stem stem n)) k"
  "prefix (field_leaf_range (group_stem stem m)) k \<Longrightarrow> prefix (field_leaf_range (group_stem stem n)) k \<longleftrightarrow> m = n"
  "\<not> prefix (field_leaf_range stem) stem" "\<not> prefix (field_leaf_range (group_stem stem n)) stem"
proof -
  have four: "length (be_bytes (n::u32)) = 4" for n by simp
  show "prefix (field_leaf_range stem) k \<Longrightarrow> \<not> prefix (field_leaf_range (group_stem stem n)) k"
    by (auto simp: field_leaf_range_def leaf_simps prefix_def layout_tags)
  show "prefix (field_leaf_range (group_stem stem m)) k \<Longrightarrow> prefix (field_leaf_range (group_stem stem n)) k \<longleftrightarrow> m = n"
    by (auto simp: field_leaf_range_def leaf_simps prefix_def)
  show "\<not> prefix (field_leaf_range stem) stem" "\<not> prefix (field_leaf_range (group_stem stem n)) stem"
    by (auto simp: field_leaf_range_def leaf_simps prefix_def)
qed

lemma group_puts_other:
  "(\<And>g. g \<in> set gs \<Longrightarrow> \<not> prefix (field_leaf_range (group_stem stem (rg_number g))) k) \<Longrightarrow> map_of (group_puts stem gs subs) k = None"
  by (induction gs subs rule: list_induct2') (simp_all add: group_puts_def record_puts_other map_add_def)

lemma group_puts_own:
  assumes "distinct (map rg_number gs)" "length subs = length gs" "i < length gs"
    "prefix (field_leaf_range (group_stem stem (rg_number (gs ! i)))) k"
  shows "map_of (group_puts stem gs subs) k
       = map_of (record_puts (group_stem stem (rg_number (gs ! i))) (rg_fields (gs ! i)) (ev_fields (subs ! i))) k"
  using assms
proof (induction gs subs arbitrary: i rule: list_induct2')
  case (4 g gs sub subs)
  have split: "group_puts stem (g # gs) (sub # subs) =
      record_puts (group_stem stem (rg_number g)) (rg_fields g) (ev_fields sub) @ group_puts stem gs subs"
    by (simp add: group_puts_def)
  show ?case
  proof (cases i)
    case 0
    have "map_of (group_puts stem gs subs) k = None"
      using "4.prems" 0 by (intro group_puts_other) (auto simp: ranges_apart(2))
    then show ?thesis using 0 split by (simp add: map_add_def split: option.splits)
  next
    case (Suc j)
    then have "rg_number (gs ! j) \<noteq> rg_number g" using "4.prems" by simp (metis image_eqI nth_mem)
    then have "map_of (record_puts (group_stem stem (rg_number g)) (rg_fields g) (ev_fields sub)) k = None"
      using "4.prems"(4) Suc by (intro record_puts_other) (auto simp: ranges_apart(2))
    then show ?thesis using 4 Suc split by (simp add: map_add_def)
  qed
qed simp_all

lemma traverse_nth: "length ys = length xs \<Longrightarrow> (\<And>i. i < length xs \<Longrightarrow> f (xs ! i) = Inr (ys ! i)) \<Longrightarrow> traverse f xs = Inr ys"
proof (induction xs arbitrary: ys)
  case (Cons x xs)
  then obtain z zs where ys: "ys = z # zs" by (cases ys) auto
  with Cons.prems have "f x = Inr z" "\<And>i. i < length xs \<Longrightarrow> f (xs ! i) = Inr (zs ! i)" by force+
  with Cons.IH [of zs] Cons.prems(1) ys show ?case by simp
qed simp

text \<open>The cells a reading of the entry looks at: the marker and everything past each leaf range's start.\<close>

definition footprint :: "bytes \<Rightarrow> ResolvedGroup list \<Rightarrow> bytes \<Rightarrow> bool" where
  "footprint stem gs k \<longleftrightarrow>
     k = stem \<or> strict_prefix (field_leaf_range stem) k
     \<or> (\<exists>g \<in> set gs. strict_prefix (field_leaf_range (group_stem stem (rg_number g))) k)"

lemma entry_at_puts:
  assumes "target_wf (AtEntry fs gs)" "entry_ok fs gs entry"
    "\<And>k. footprint stem gs k \<Longrightarrow> m k = map_of (node_puts stem fs gs entry) k"
  shows "entry_at m stem fs gs = Inr (Some entry)"
proof -
  let ?subs = "ev_groups entry"
  have len: "length ?subs = length gs" using assms(2) by (auto simp: entry_ok_def dest: list_all2_lengthD)
  have marker: "m stem = Some MARKER_VALUE" using assms(3) [of stem] by (simp add: node_puts_def footprint_def)
  have top: "record_at m stem fs = Inr (ev_fields entry)"
  proof (rule record_at_puts)
    fix k assume strict: "strict_prefix (field_leaf_range stem) k"
    then have k: "prefix (field_leaf_range stem) k" by simp
    then have "k \<noteq> stem" using ranges_apart(3) by auto
    moreover have "map_of (group_puts stem gs ?subs) k = None" using ranges_apart(1) [OF k] by (intro group_puts_other) auto
    ultimately show "m k = map_of (record_puts stem fs (ev_fields entry)) k"
      using assms(3) [of k] strict by (auto simp: footprint_def node_puts_groups map_add_def split: option.splits)
  qed (use assms(1,2) in \<open>auto simp: entry_ok_def\<close>)
  have sub: "record_at m (group_stem stem (rg_number (gs ! i))) (rg_fields (gs ! i)) = Inr (ev_fields (?subs ! i))"
    if i: "i < length gs" for i
  proof (rule record_at_puts)
    fix k assume strict: "strict_prefix (field_leaf_range (group_stem stem (rg_number (gs ! i)))) k"
    then have k: "prefix (field_leaf_range (group_stem stem (rg_number (gs ! i)))) k" by simp
    then have "k \<noteq> stem" using ranges_apart(4) by auto
    moreover have "map_of (record_puts stem fs (ev_fields entry)) k = None"
      using k ranges_apart(1) by (intro record_puts_other) auto
    ultimately show "m k = map_of (record_puts (group_stem stem (rg_number (gs ! i))) (rg_fields (gs ! i)) (ev_fields (?subs ! i))) k"
      using assms(3) [of k] group_puts_own [OF _ len i k] assms(1) nth_mem [OF i] strict
      by (fastforce simp: footprint_def node_puts_groups map_add_def)
  qed (use assms(1,2) i in \<open>auto simp: entry_ok_def list_all_length list_all2_conv_all_nth\<close>)
  have "traverse (\<lambda>g. rbind (record_at m (group_stem stem (rg_number g)) (rg_fields g)) (\<lambda>vs. Inr (EntryValue vs []))) gs = Inr ?subs"
  proof -
    have "rbind (record_at m (group_stem stem (rg_number (gs ! i))) (rg_fields (gs ! i))) (\<lambda>vs. Inr (EntryValue vs []))
        = (Inr (?subs ! i) :: EntryValue kernel)" if "i < length gs" for i
    proof -
      have "ev_groups (?subs ! i) = []" using assms(2) that by (auto simp: entry_ok_def list_all2_conv_all_nth)
      then show ?thesis using sub [OF that] by (cases "?subs ! i") simp
    qed
    then show ?thesis using len by (intro traverse_nth) auto
  qed
  then show ?thesis by (cases entry) (simp add: entry_at_def slot_at_def marker top del: rbind_Inr_iff)
qed

end
