(* ===== verification/Session_Props.thy ===== *)
theory Session_Props
  imports Session_Effects
begin

text \<open>
  The contract of the session's mutations over a lawful engine: what a successful create, replace,
  erase, field write and group write leave in the cells, that the written payload reads back, and
  that nothing outside the node's own footprint and the root's index rows changes.
\<close>

section \<open>Index maintenance as a relation on maps\<close>

fun op_key :: "IndexOp \<Rightarrow> bytes" where
  "op_key (IoRemove k) = k"
| "op_key (IoPut k v) = k"
| "op_key (IoUniquePut k v) = k"

lemma index_map_frame: "k \<notin> op_key ` set ops \<Longrightarrow> index_map ops m k = m k"
proof (induction ops arbitrary: m)
  case (Cons op ops)
  then have "index_cell op m k = m k" by (cases op) auto
  then show ?case using Cons by simp
qed simp

definition index_effect :: "NodeNumber \<Rightarrow> IndexSchema list \<Rightarrow> KeyScalar list \<Rightarrow> ValueDomain option list option \<Rightarrow>
    ValueDomain option list option \<Rightarrow> (bytes \<rightharpoonup> bytes) \<Rightarrow> (bytes \<rightharpoonup> bytes) \<Rightarrow> bool" where
  "index_effect root ixs keys old new m m' \<longleftrightarrow>
     (\<exists>ops. index_writes root ixs keys old new = Inr ops \<and> unique_free ops m \<and> m' = index_map ops m)"

lemma index_effect_none [simp]: "index_effect root [] keys old new m m' \<longleftrightarrow> m' = m"
  by (simp add: index_effect_def)

lemma row_ops_keys:
  "op \<in> set (row_ops root ix keys a b) \<Longrightarrow> \<exists>row. op_key op = index_cell_key root (ix_id ix) row"
  by (auto simp: row_ops_def Let_def split: if_splits option.splits)

lemma index_writes_keys:
  "index_writes root ixs keys old new = Inr ops \<Longrightarrow> op \<in> set ops \<Longrightarrow>
     \<exists>ix \<in> set ixs. \<exists>row. op_key op = index_cell_key root (ix_id ix) row"
proof (induction ixs arbitrary: ops)
  case (Cons ix ixs)
  then show ?case using row_ops_keys by fastforce
qed simp

text \<open>Maintenance changes only rows of the maintained indexes, so no entry or metadata cell.\<close>

lemma index_effect_frame:
  assumes "index_effect root ixs keys old new m m'" "\<And>ix row. ix \<in> set ixs \<Longrightarrow> k \<noteq> index_cell_key root (ix_id ix) row"
  shows "m' k = m k"
proof -
  obtain ops where ops: "index_writes root ixs keys old new = Inr ops" "m' = index_map ops m"
    using assms(1) by (auto simp: index_effect_def)
  have "k \<notin> op_key ` set ops" using index_writes_keys [OF ops(1)] assms(2) by blast
  then show ?thesis using ops(2) by (simp add: index_map_frame)
qed

lemma index_effect_entries: "index_effect root ixs keys old new m m' \<Longrightarrow> m' (marker_key f ks @ t) = m (marker_key f ks @ t)"
  by (erule index_effect_frame) (simp add: families_disjoint)

text \<open>The indexes a write at a site maintains: those of its root, for a root entry only.\<close>

definition maintained :: "IndexSchema list list \<Rightarrow> AuthorizedSite \<Rightarrow> IndexSchema list" where
  "maintained indexes site = (if as_branch site = [] then indexes ! unat (as_root_index site) else [])"

text \<open>A field write maintains the indexes of its root that project the field.\<close>

definition projecting :: "IndexSchema list list \<Rightarrow> AuthorizedSite \<Rightarrow> nat \<Rightarrow> IndexSchema list" where
  "projecting indexes site position =
     filter (\<lambda>ix. list_ex (\<lambda>c. projected_field c = Some position) (ix_projection ix)) (maintained indexes site)"

lemma maintains_root_Inr:
  "maintains_root indexes site = Inr b \<longleftrightarrow>
     unat (as_root_index site) < length indexes \<and> b = (maintained indexes site \<noteq> [])"
  by (auto simp: maintains_root_def indexes_of_def maintained_def)

section \<open>Completeness\<close>

lemma require_record_Inr:
  "require_record_complete fs vs = Inr u \<longleftrightarrow> list_all2 (\<lambda>f v. v \<noteq> None \<or> \<not> rf_required f) fs vs"
  by (auto simp: require_record_complete_def list_all2_iff list_all_iff)

lemma require_groups_Inr:
  "length gs = length vs \<Longrightarrow> require_groups_complete gs vs = Inr u \<longleftrightarrow>
     list_all2 (\<lambda>g v. require_record_complete (rg_fields g) (ev_fields v) = Inr () \<and> ev_groups v = []) gs vs"
  by (induction gs vs rule: list_induct2) auto

lemma require_complete_Inr:
  "require_complete fs gs entry = Inr u \<longleftrightarrow>
     require_record_complete fs (ev_fields entry) = Inr ()
     \<and> list_all2 (\<lambda>g v. require_record_complete (rg_fields g) (ev_fields v) = Inr () \<and> ev_groups v = []) gs (ev_groups entry)"
  by (auto simp: require_complete_def require_groups_Inr dest: list_all2_lengthD)

lemma require_complete_only_Incomplete:
  "require_complete fs gs entry \<noteq> Inr () \<Longrightarrow> require_complete fs gs entry = fault Incomplete"
proof -
  have r: "require_record_complete fs vs = Inr () \<or> require_record_complete fs vs = fault Incomplete" for fs vs
    by (auto simp: require_record_complete_def)
  have g: "require_groups_complete gs vs = Inr () \<or> require_groups_complete gs vs = fault Incomplete" for gs vs
  proof (induction gs vs rule: require_groups_complete.induct)
    case (1 g gs v vs)
    then show ?case using r [of "rg_fields g" "ev_fields v"] by auto
  qed auto
  show "require_complete fs gs entry \<noteq> Inr () \<Longrightarrow> require_complete fs gs entry = fault Incomplete"
    using r [of fs "ev_fields entry"] g [of gs "ev_groups entry"] by (auto simp: require_complete_def simp del: rbind_Inr_iff)
qed

definition entry_typed :: "ResolvedField list \<Rightarrow> ResolvedGroup list \<Rightarrow> EntryValue \<Rightarrow> bool" where
  "entry_typed fs gs entry \<longleftrightarrow>
     list_all2 slot_typed fs (ev_fields entry)
     \<and> list_all2 (\<lambda>g sub. list_all2 slot_typed (rg_fields g) (ev_fields sub)) gs (ev_groups entry)"

lemma entry_fits_complete: "require_complete fs gs entry = Inr () \<Longrightarrow> entry_fits fs gs entry"
  by (auto simp: require_complete_Inr require_record_Inr entry_fits_def dest: list_all2_lengthD
      elim!: list_all2_mono)

lemma node_write_encodable:
  assumes "node_write stem fs gs entry = Inr ws" "entry_fits fs gs entry"
  shows "list_all encodable (ev_fields entry)"
    "list_all2 (\<lambda>g sub. list_all encodable (ev_fields sub)) gs (ev_groups entry)"
proof -
  from assms(1) obtain ws1 wss where w: "write_slots stem fs 0 (ev_fields entry) = Inr ws1"
    "traverse (\<lambda>(g, sub). group_write (group_stem stem (rg_number g)) (rg_fields g) sub) (zip gs (ev_groups entry)) = Inr wss"
    by (auto simp: node_write_def)
  show "list_all encodable (ev_fields entry)"
    using write_slots_Inr [OF w(1)] assms(2) by (simp add: entry_fits_def)
  have len: "length (ev_groups entry) = length gs" using assms(2) by (auto simp: entry_fits_def dest: list_all2_lengthD)
  have "list_all (\<lambda>(g, sub). length (ev_fields sub) = length (rg_fields g)) (zip gs (ev_groups entry))"
    using assms(2) by (auto simp: entry_fits_def list_all_iff list_all2_iff)
  from traverse_groups_Inr [OF w(2) this] len
  show "list_all2 (\<lambda>g sub. list_all encodable (ev_fields sub)) gs (ev_groups entry)"
    by (auto simp: list_all2_iff list_all_iff)
qed

lemma slots_combine:
  "list_all2 (\<lambda>f v. v \<noteq> None \<or> \<not> rf_required f) fs vs \<Longrightarrow> list_all2 slot_typed fs vs \<Longrightarrow> list_all encodable vs \<Longrightarrow>
     list_all2 slot_ok fs vs"
  by (induction fs vs rule: list_induct2') (auto simp: slot_ok_def)

lemma entry_ok_written:
  assumes "node_write stem fs gs entry = Inr ws" "require_complete fs gs entry = Inr ()" "entry_typed fs gs entry"
  shows "entry_ok fs gs entry"
proof -
  note enc = node_write_encodable [OF assms(1) entry_fits_complete [OF assms(2)]]
  have "list_all2 (\<lambda>g sub. list_all2 slot_ok (rg_fields g) (ev_fields sub) \<and> ev_groups sub = []) gs (ev_groups entry)"
    using assms(2,3) enc(2) slots_combine
    by (auto simp: require_complete_Inr require_record_Inr entry_typed_def list_all2_conv_all_nth [of _ gs])
  then show ?thesis
    using assms(2,3) enc(1) slots_combine by (auto simp: entry_ok_def require_complete_Inr require_record_Inr entry_typed_def)
qed

section \<open>Effects of the mutations\<close>

lemma subseq_distinct: "subseq xs ys \<Longrightarrow> distinct ys \<Longrightarrow> distinct xs"
  by (auto simp: subseq_conv_nths intro: distinct_nthsI)

lemma record_puts_subseq: "subseq (map fst (record_puts st hs vs)) (group_cells st hs)"
proof (induction hs vs rule: list_induct2')
  case (4 f hs v vs)
  then show ?case by (cases v) (auto simp: record_puts_def group_cells_def)
qed (simp_all add: record_puts_def)

lemma plan_map_record_puts:
  "record_wf hs \<Longrightarrow> plan_map (puts (record_puts st hs vs)) m = m ++ map_of (record_puts st hs vs)"
  using subseq_distinct [OF record_puts_subseq distinct_group_cells] by (simp add: plan_map_puts map_of_rev_distinct)

lemma node_puts_distinct: "target_wf (AtEntry fs gs) \<Longrightarrow> distinct (map fst (node_puts stem fs gs entry))"
proof -
  assume wf: "target_wf (AtEntry fs gs)"
  have "subseq (map fst (group_puts stem gs subs)) (concat (map (\<lambda>g. group_cells (group_stem stem (rg_number g)) (rg_fields g)) gs))" for subs
  proof (induction gs subs rule: list_induct2')
    case (4 g gs sub subs)
    then show ?case using record_puts_subseq by (auto simp: group_puts_def intro!: list_emb_append_mono)
  qed (simp_all add: group_puts_def)
  then have "subseq (map fst (node_puts stem fs gs entry)) (node_cells stem fs gs)"
    using record_puts_subseq [of stem fs "ev_fields entry"]
    by (auto simp: node_puts_groups node_cells_def group_cells_def intro!: list_emb_append_mono)
  then show ?thesis using distinct_node_cells [OF wf] by (rule subseq_distinct)
qed

lemma plan_map_node_write:
  assumes "node_write stem fs gs entry = Inr ws" "entry_fits fs gs entry" "target_wf (AtEntry fs gs)"
  shows "plan_map ws m = m ++ map_of (node_puts stem fs gs entry)"
  using node_write_Inr [OF assms(1,2)] node_puts_distinct [OF assms(3), of stem entry]
  by (simp add: plan_map_puts map_of_rev_distinct)

lemma obey_guard:
  "(if c then of_kernel (Inl e) else m) st = (Inr a, st') \<longleftrightarrow> \<not> c \<and> m st = (Inr a, st')"
  by simp

lemma not_Present [simp]: "p \<noteq> Present \<longleftrightarrow> p = Absent"
  by (cases p) simp_all

context lawful_engine
begin

lemma read_raw_Inr: "ok s \<Longrightarrow> read_raw E s k = Inr v \<Longrightarrow> v = cells s k"
  using get_law by (auto simp: read_raw_def)

lemma probe_slot_Inr: "ok s \<Longrightarrow> probe_slot E s stem = Inr p \<Longrightarrow> slot_at (cells s) stem = Inr p"
  using probe_slot_agrees [of s stem] by (auto simp: up_to_engine_def)

lemma maintain_indexes_effect:
  assumes "ok s" "maintain_indexes E indexes site keys old new (Some s) = (Inr u, st)" "as_branch site = []"
  shows "\<exists>s'. st = Some s' \<and> ok s' \<and> index_effect (as_root_number site) (maintained indexes site) keys old new (cells s) (cells s')"
proof -
  from assms(2) obtain ixs ops where "indexes_of indexes site = Inr ixs"
    "index_writes (as_root_number site) ixs keys old new = Inr ops" "apply_index_ops E ops (Some s) = (Inr u, st)"
    by (auto simp: maintain_indexes_def obey_Inr)
  then show ?thesis
    using apply_index_effect [OF assms(1), of ops u st] assms(3)
    by (auto simp: index_effect_def maintained_def indexes_of_def)
qed

lemma maintenance_effect:
  assumes "ok s" "maintains_root indexes site = Inr b"
    "(if b then maintain_indexes E indexes site keys old new else of_kernel (Inr ())) (Some s) = (Inr u, st)"
  shows "\<exists>s'. st = Some s' \<and> ok s' \<and> index_effect (as_root_number site) (maintained indexes site) keys old new (cells s) (cells s')"
proof (cases b)
  case True
  then have "as_branch site = []" using assms(2) by (auto simp: maintains_root_Inr maintained_def split: if_splits)
  then show ?thesis using maintain_indexes_effect [OF assms(1), of indexes site keys old new u st] assms(3) True by simp
next
  case False
  then show ?thesis using assms by (auto simp: maintains_root_Inr)
qed

lemma create_entry_effect:
  assumes "ok s" "as_target site = AtEntry fs gs" "create_entry E indexes site keys entry (Some s) = (Inr Created, st)"
  shows "\<exists>stem ws s'. node_stem site keys = Inr stem \<and> require_complete fs gs entry = Inr ()
     \<and> slot_at (cells s) stem = Inr Absent \<and> node_write stem fs gs entry = Inr ws \<and> st = Some s' \<and> ok s'
     \<and> index_effect (as_root_number site) (maintained indexes site) keys None (Some (ev_fields entry))
         (plan_map ws (cells s)) (cells s')"
proof -
  from assms(2,3) obtain stem ws st1 b where *: "require_complete fs gs entry = Inr ()" "node_stem site keys = Inr stem"
    "probe_slot E s stem = Inr Absent" "node_write stem fs gs entry = Inr ws" "apply_writes E ws (Some s) = (Inr (), st1)"
    "maintains_root indexes site = Inr b"
    "(if b then maintain_indexes E indexes site keys None (Some (ev_fields entry)) else of_kernel (Inr ())) st1 = (Inr (), st)"
    by (auto simp: create_entry_def node_shape_def obey_Inr txn_read_Inr split: Presence.splits if_splits)
  from apply_writes_effect [OF assms(1) *(5)] obtain s1 where s1: "st1 = Some s1" "ok s1" "cells s1 = plan_map ws (cells s)" by blast
  from maintenance_effect [OF s1(2) *(6) *(7) [unfolded s1(1)]] s1 * probe_slot_Inr [OF assms(1) *(3)] show ?thesis by auto
qed

lemma create_entry_present:
  assumes "create_entry E indexes site keys entry (Some s) = (Inr AlreadyPresent, st)"
  shows "st = Some s"
  using assms
  by (auto simp: create_entry_def obey_Inr txn_read_Inr split: Presence.splits prod.splits)

lemma old_projected_Inr:
  "old_projected E indexes site stem fs b (Some s) = (Inr old, st) \<Longrightarrow>
     st = Some s \<and> (b \<longrightarrow> (\<exists>ixs. indexes_of indexes site = Inr ixs
                          \<and> read_projected E s stem fs (projected_positions_of ixs) = Inr old))"
  by (auto simp: old_projected_def obey_Inr txn_read_Inr split: if_splits)

lemma replace_entry_effect:
  assumes "ok s" "as_target site = AtEntry fs gs" "replace_entry E indexes site keys entry (Some s) = (Inr u, st)"
  shows "\<exists>stem ws s' old. node_stem site keys = Inr stem \<and> require_complete fs gs entry = Inr ()
     \<and> cells s stem \<noteq> None \<and> node_write stem fs gs entry = Inr ws \<and> st = Some s' \<and> ok s'
     \<and> (maintained indexes site \<noteq> [] \<longrightarrow>
          read_projected E s stem fs (projected_positions_of (maintained indexes site)) = Inr old)
     \<and> index_effect (as_root_number site) (maintained indexes site) keys (Some old) (Some (ev_fields entry))
         (plan_map (node_erase stem fs gs @ ws) (cells s)) (cells s')"
proof -
  from assms(2,3) obtain stem marker b old st0 ws st1 where *: "require_complete fs gs entry = Inr ()" "node_stem site keys = Inr stem"
    "read_raw E s stem = Inr marker" "marker \<noteq> None" "maintains_root indexes site = Inr b"
    "old_projected E indexes site stem fs b (Some s) = (Inr old, st0)"
    "node_write stem fs gs entry = Inr ws" "apply_writes E (node_erase stem fs gs @ ws) st0 = (Inr (), st1)"
    "(if b then maintain_indexes E indexes site keys (Some old) (Some (ev_fields entry)) else of_kernel (Inr ())) st1 = (Inr (), st)"
    by (cases st) (fastforce simp: replace_entry_def node_shape_def obey_Inr txn_read_Inr obey_guard)+
  note old = old_projected_Inr [OF *(6)]
  from apply_writes_effect [OF assms(1), of "node_erase stem fs gs @ ws" "()" st1] *(8) old obtain s1 where s1: "st1 = Some s1" "ok s1"
    "cells s1 = plan_map (node_erase stem fs gs @ ws) (cells s)" by blast
  have "cells s stem \<noteq> None" using read_raw_Inr [OF assms(1) *(3)] *(4) by simp
  moreover have "read_projected E s stem fs (projected_positions_of (maintained indexes site)) = Inr old" if "maintained indexes site \<noteq> []"
    using old *(5) that by (auto simp: maintains_root_Inr indexes_of_def maintained_def split: if_splits)
  ultimately show ?thesis
    using maintenance_effect [OF s1(2) *(5) *(9) [unfolded s1(1)]] s1 * by metis
qed

lemma erase_entry_effect:
  assumes "ok s" "as_target site = AtEntry fs gs" "erase_entry E indexes site keys (Some s) = (Inr out, st)"
  shows "\<exists>stem s' old. node_stem site keys = Inr stem \<and> st = Some s' \<and> ok s'
     \<and> out = (if cells s stem \<noteq> None then Erased else Missing)
     \<and> (maintained indexes site \<noteq> [] \<longrightarrow>
          read_projected E s stem fs (projected_positions_of (maintained indexes site)) = Inr old)
     \<and> index_effect (as_root_number site) (maintained indexes site) keys (if cells s stem \<noteq> None then Some old else None) None
         (plan_map (node_erase stem fs gs) (cells s)) (cells s')"
proof -
  from assms(2,3) obtain stem marker b old st0 st1 where *: "node_stem site keys = Inr stem"
    "read_raw E s stem = Inr marker" "maintains_root indexes site = Inr b"
    "old_projected E indexes site stem fs b (Some s) = (Inr old, st0)"
    "apply_writes E (node_erase stem fs gs) st0 = (Inr (), st1)"
    "(if b then maintain_indexes E indexes site keys (if marker \<noteq> None then Some old else None) None else of_kernel (Inr ())) st1 = (Inr (), st)"
    "out = (if marker \<noteq> None then Erased else Missing)"
    by (auto simp: erase_entry_def node_shape_def obey_Inr txn_read_Inr)
  note old = old_projected_Inr [OF *(4)]
  from apply_writes_effect [OF assms(1), of "node_erase stem fs gs" "()" st1] *(5) old obtain s1 where s1: "st1 = Some s1" "ok s1"
    "cells s1 = plan_map (node_erase stem fs gs) (cells s)" by blast
  have "marker = cells s stem" using read_raw_Inr [OF assms(1) *(2)] by simp
  moreover have "read_projected E s stem fs (projected_positions_of (maintained indexes site)) = Inr old" if "maintained indexes site \<noteq> []"
    using old *(3) that by (auto simp: maintains_root_Inr indexes_of_def maintained_def split: if_splits)
  ultimately show ?thesis
    using maintenance_effect [OF s1(2) *(3) *(6) [unfolded s1(1)]] s1 * by metis
qed

lemma field_maintenance_Inr:
  assumes "as_target site = AtField p" "field_maintenance_before E indexes site stem (Some s) = (Inr mt, st)"
  shows "st = Some s \<and> (\<forall>position. index_of (\<lambda>f. rf_number f = fp_number p) (fp_record p) = Some position \<longrightarrow>
     (if projecting indexes site position = [] then mt = None
      else \<exists>old. read_projected E s stem (fp_record p) (projected_positions_of (projecting indexes site position)) = Inr old
                \<and> mt = Some \<lparr>fm_indexes = projecting indexes site position, fm_old = old, fm_position = position\<rparr>))"
proof -
  from assms(2) obtain b where b: "maintains_root indexes site = Inr b" by (auto simp: field_maintenance_before_def obey_Inr)
  show ?thesis
  proof (cases b)
    case False
    then show ?thesis using assms b by (auto simp: field_maintenance_before_def obey_Inr maintains_root_Inr projecting_def)
  next
    case True
    then have root: "as_branch site = []" using b by (auto simp: maintains_root_Inr maintained_def split: if_splits)
    from assms b True obtain pos ixs where
      pos: "index_of (\<lambda>f. rf_number f = fp_number p) (fp_record p) = Some pos" "indexes_projecting indexes site pos = Inr ixs"
      and run: "(if ixs = [] then of_kernel (Inr None) else
          obey (txn_read (\<lambda>s. read_projected E s stem (fp_record p) (projected_positions_of ixs))) (\<lambda>old.
            of_kernel (Inr (Some \<lparr>fm_indexes = ixs, fm_old = old, fm_position = pos\<rparr>)))) (Some s) = (Inr mt, st)"
      by (auto simp: field_maintenance_before_def obey_Inr site_record_def field_index_in_record_def)
    have "ixs = projecting indexes site pos"
      using pos(2) root by (auto simp: indexes_projecting_def indexes_of_def projecting_def maintained_def)
    then show ?thesis using run pos(1) by (auto simp: obey_Inr txn_read_Inr split: if_splits)
  qed
qed

lemma maintain_field_effect:
  assumes "ok s" "maintain_field_write E site keys (Some \<lparr>fm_indexes = ixs, fm_old = old, fm_position = i\<rparr>) new (Some s) = (Inr u, st)"
  shows "\<exists>s'. st = Some s' \<and> ok s' \<and> index_effect (as_root_number site) ixs keys (Some old) (Some (old[i := new])) (cells s) (cells s')"
proof -
  from assms(2) obtain ops where "index_writes (as_root_number site) ixs keys (Some old) (Some (old[i := new])) = Inr ops"
    "apply_index_ops E ops (Some s) = (Inr u, st)"
    by (auto simp: maintain_field_write_def obey_Inr split: if_splits)
  then show ?thesis using apply_index_effect [OF assms(1), of ops u st] by (auto simp: index_effect_def)
qed

lemma field_write_effect:
  assumes "as_target site = AtField p" "index_of (\<lambda>f. rf_number f = fp_number p) (fp_record p) = Some i"
    "field_maintenance_before E indexes site stem (Some s) = (Inr mt, st0)"
    "ok s1" "maintain_field_write E site keys mt new (Some s1) = (Inr u, st)"
  shows "\<exists>s' old. st = Some s' \<and> ok s'
     \<and> (projecting indexes site i \<noteq> [] \<longrightarrow>
          read_projected E s stem (fp_record p) (projected_positions_of (projecting indexes site i)) = Inr old)
     \<and> index_effect (as_root_number site) (projecting indexes site i) keys (Some old) (Some (old[i := new])) (cells s1) (cells s')"
proof (cases "projecting indexes site i = []")
  case True
  then have "mt = None" using field_maintenance_Inr [OF assms(1,3)] assms(2) by simp
  then show ?thesis using True assms(4,5) by (auto simp: maintain_field_write_def)
next
  case False
  then obtain old where "read_projected E s stem (fp_record p) (projected_positions_of (projecting indexes site i)) = Inr old"
    "mt = Some \<lparr>fm_indexes = projecting indexes site i, fm_old = old, fm_position = i\<rparr>"
    using field_maintenance_Inr [OF assms(1,3)] assms(2) by auto
  then show ?thesis using maintain_field_effect [OF assms(4), of site keys] assms(5) by blast
qed

lemma set_field_effect:
  assumes "ok s" "as_target site = AtField p" "index_of (\<lambda>f. rf_number f = fp_number p) (fp_record p) = Some i"
    "set_field E indexes site keys v (Some s) = (Inr u, st)"
  shows "\<exists>stem bs s' old. node_stem site keys = Inr stem \<and> cells s stem \<noteq> None \<and> encode_domain v = Inr bs \<and> st = Some s' \<and> ok s'
     \<and> (projecting indexes site i \<noteq> [] \<longrightarrow>
          read_projected E s stem (fp_record p) (projected_positions_of (projecting indexes site i)) = Inr old)
     \<and> index_effect (as_root_number site) (projecting indexes site i) keys (Some old) (Some (old[i := Some v]))
         ((cells s)(stem_field_leaf stem (fp_number p) \<mapsto> bs)) (cells s')"
proof -
  from assms(2,4) obtain stem marker bs mt st0 st1 where *: "node_stem site keys = Inr stem" "read_raw E s stem = Inr marker"
    "marker \<noteq> None" "encode_domain v = Inr bs" "field_maintenance_before E indexes site stem (Some s) = (Inr mt, st0)"
    "txn_put E (stem_field_leaf stem (fp_number p)) bs st0 = (Inr (), st1)"
    "maintain_field_write E site keys mt (Some v) st1 = (Inr u, st)"
    by (auto simp: set_field_def field_target_def obey_Inr txn_read_Inr obey_guard)
  have "st0 = Some s" using field_maintenance_Inr [OF assms(2) *(5)] by simp
  with *(6) obtain s1 where s1: "st1 = Some s1" "eng_put E (stem_field_leaf stem (fp_number p)) bs s = (Inr (), s1)"
    by (auto simp: txn_put_Inr)
  note put = put_law [OF assms(1) s1(2)]
  from field_write_effect [OF assms(2,3) *(5) _ *(7) [unfolded s1(1)]] put *(1-4) read_raw_Inr [OF assms(1) *(2)]
  show ?thesis by metis
qed

lemma erase_field_effect:
  assumes "ok s" "as_target site = AtField p" "index_of (\<lambda>f. rf_number f = fp_number p) (fp_record p) = Some i"
    "erase_field E indexes site keys (Some s) = (Inr out, st)"
  shows "\<exists>stem s' old. node_stem site keys = Inr stem \<and> \<not> fp_required p \<and> st = Some s' \<and> ok s'
     \<and> out = (if cells s (stem_field_leaf stem (fp_number p)) \<noteq> None then Erased else Missing)
     \<and> (projecting indexes site i \<noteq> [] \<longrightarrow>
          read_projected E s stem (fp_record p) (projected_positions_of (projecting indexes site i)) = Inr old)
     \<and> index_effect (as_root_number site) (projecting indexes site i) keys (Some old) (Some (old[i := None]))
         ((cells s)(stem_field_leaf stem (fp_number p) := None)) (cells s')"
proof -
  from assms(2,4) obtain stem existing mt st0 st1 where *: "node_stem site keys = Inr stem" "\<not> fp_required p"
    "read_raw E s (stem_field_leaf stem (fp_number p)) = Inr existing"
    "field_maintenance_before E indexes site stem (Some s) = (Inr mt, st0)"
    "txn_remove E (stem_field_leaf stem (fp_number p)) st0 = (Inr (), st1)"
    "maintain_field_write E site keys mt None st1 = (Inr (), st)" "out = (if existing \<noteq> None then Erased else Missing)"
    by (auto simp: erase_field_def field_target_def obey_Inr txn_read_Inr obey_guard)
  have "st0 = Some s" using field_maintenance_Inr [OF assms(2) *(4)] by simp
  with *(5) obtain s1 where s1: "st1 = Some s1" "eng_remove E (stem_field_leaf stem (fp_number p)) s = (Inr (), s1)"
    by (auto simp: txn_remove_Inr)
  note removed = remove_law [OF assms(1) s1(2)]
  from field_write_effect [OF assms(2,3) *(4) _ *(6) [unfolded s1(1)]] removed *(1,2,7) read_raw_Inr [OF assms(1) *(3)]
  show ?thesis by metis
qed

lemma replace_group_effect:
  assumes "ok s" "as_target site = AtGroup n fs" "replace_group E site keys v (Some s) = (Inr u, st)"
  shows "\<exists>stem ws s'. node_stem site keys = Inr stem \<and> cells s stem \<noteq> None \<and> require_record_complete fs (ev_fields v) = Inr ()
     \<and> ev_groups v = [] \<and> group_write (group_stem stem n) fs v = Inr ws \<and> st = Some s' \<and> ok s'
     \<and> cells s' = plan_map (group_erase (group_stem stem n) fs @ ws) (cells s)"
proof -
  from assms(2,3) obtain stem marker ws where *: "require_record_complete fs (ev_fields v) = Inr ()" "ev_groups v = []"
    "node_stem site keys = Inr stem" "read_raw E s stem = Inr marker" "marker \<noteq> None"
    "group_write (group_stem stem n) fs v = Inr ws"
    "apply_writes E (group_erase (group_stem stem n) fs @ ws) (Some s) = (Inr u, st)"
    by (auto simp: replace_group_def group_target_def obey_Inr txn_read_Inr obey_guard)
  from apply_writes_effect [OF assms(1) *(7)] * read_raw_Inr [OF assms(1) *(4)] show ?thesis by auto
qed

lemma any_present_Inr: "ok s \<Longrightarrow> any_present E ks (Some s) = (Inr b, st) \<Longrightarrow> st = Some s \<and> b = (\<exists>k \<in> set ks. cells s k \<noteq> None)"
proof (induction ks arbitrary: b st)
  case (Cons k ks)
  then obtain v st1 b1 where "read_raw E s k = Inr v" "any_present E ks (Some s) = (Inr b1, st1)" "b = (v \<noteq> None \<or> b1)" "st = st1"
    by (auto simp: obey_Inr txn_read_Inr)
  then show ?case using Cons.IH [of b1 st1] Cons.prems(1) read_raw_Inr by auto
qed simp

lemma erase_group_effect:
  assumes "ok s" "as_target site = AtGroup n fs" "erase_group E site keys (Some s) = (Inr out, st)"
  shows "\<exists>stem s'. node_stem site keys = Inr stem \<and> list_all (\<lambda>f. \<not> rf_required f) fs \<and> st = Some s' \<and> ok s'
     \<and> out = (if \<exists>k \<in> set (group_cells (group_stem stem n) fs). cells s k \<noteq> None then Erased else Missing)
     \<and> cells s' = plan_map (group_erase (group_stem stem n) fs) (cells s)"
proof -
  from assms(2,3) obtain stem b st0 where *: "\<not> list_ex rf_required fs" "node_stem site keys = Inr stem"
    "any_present E (group_cells (group_stem stem n) fs) (Some s) = (Inr b, st0)"
    "apply_writes E (group_erase (group_stem stem n) fs) st0 = (Inr (), st)" "out = (if b then Erased else Missing)"
    by (auto simp: erase_group_def group_target_def obey_Inr obey_guard)
  from any_present_Inr [OF assms(1) *(3)] apply_writes_effect [OF assms(1), of "group_erase (group_stem stem n) fs" "()" st] * show ?thesis
    by (auto simp: list_all_iff list_ex_iff)
qed

end

end
