(* ===== verification/Session_Refine.thy ===== *)
theory Session_Refine
  imports Session_Props
begin

text \<open>
  The session as a map from nodes to entries. A read of a node depends on the cells under its marker
  alone; a successful create, replace or erase changes the abstract entry of one node and leaves
  every other node as it reads. The laws are proved over every lawful engine and stated for the
  transactions of the memory engine.
\<close>

section \<open>Frames of the abstract reading\<close>

lemma slot_at_cong: "(\<And>k. prefix stem k \<Longrightarrow> m' k = m k) \<Longrightarrow> slot_at m' stem = slot_at m stem"
  by (auto simp: slot_at_def domIff strict_prefix_def)

lemma record_at_cong: "(\<And>k. prefix (field_leaf_range stem) k \<Longrightarrow> m' k = m k) \<Longrightarrow> record_at m' stem fs = record_at m stem fs"
proof -
  assume same: "\<And>k. prefix (field_leaf_range stem) k \<Longrightarrow> m' k = m k"
  then have leaf: "m' (stem_field_leaf stem n) = m (stem_field_leaf stem n)" for n using leaf_in_range(1) by blast
  have "leaf_value m' stem = leaf_value m stem" "leaf_ok m' stem = leaf_ok m stem"
    by (simp_all add: fun_eq_iff leaf_value_def leaf_ok_def leaf)
  moreover have "record_clean m' stem fs = record_clean m stem fs"
    using same calculation(2) by (auto simp: record_clean_def domIff)
  ultimately show ?thesis by (simp add: record_at_def)
qed

lemma range_under: "prefix (field_leaf_range stem) k \<Longrightarrow> prefix stem k"
  "prefix (field_leaf_range (group_stem stem n)) k \<Longrightarrow> prefix stem k"
  by (auto simp: field_leaf_range_def leaf_simps prefix_def)

lemma entry_at_cong:
  assumes "\<And>k. prefix stem k \<Longrightarrow> m' k = m k"
  shows "entry_at m' stem fs gs = entry_at m stem fs gs"
proof -
  have "record_at m' stem fs = record_at m stem fs" using assms range_under(1) by (intro record_at_cong) auto
  moreover have "record_at m' (group_stem stem n) hs = record_at m (group_stem stem n) hs" for n hs
    using assms range_under(2) by (intro record_at_cong) auto
  moreover have "slot_at m' stem = slot_at m stem" using assms by (rule slot_at_cong)
  ultimately show ?thesis by (simp only: entry_at_def)
qed

lemma group_at_cong:
  assumes "\<And>k. prefix stem k \<Longrightarrow> m' k = m k"
  shows "group_at m' stem n fs = group_at m stem n fs"
proof -
  have "record_at m' (group_stem stem n) fs = record_at m (group_stem stem n) fs"
    using assms range_under(2) by (intro record_at_cong) auto
  moreover have "slot_at m' stem = slot_at m stem" using assms by (rule slot_at_cong)
  ultimately show ?thesis by (simp only: group_at_def)
qed

text \<open>The cells of a node are all under its marker, and the markers of two nodes have no cell in common.\<close>

lemma node_cells_under: "k \<in> set (node_cells stem fs gs) \<Longrightarrow> prefix stem k"
  by (auto simp: node_cells_def group_cells_def leaf_simps prefix_def)

lemma node_puts_cells: "k \<in> fst ` set (node_puts stem fs gs entry) \<Longrightarrow> k \<in> set (node_cells stem fs gs)"
proof -
  assume "k \<in> fst ` set (node_puts stem fs gs entry)"
  then consider "k = stem" | "k \<in> fst ` set (record_puts stem fs (ev_fields entry))"
    | g sub where "(g, sub) \<in> set (zip gs (ev_groups entry))"
        "k \<in> fst ` set (record_puts (group_stem stem (rg_number g)) (rg_fields g) (ev_fields sub))"
    by (force simp: node_puts_def)
  then show ?thesis
  proof cases
    case 3
    then show ?thesis using record_puts_keys set_zip_leftD by (fastforce simp: node_cells_def)
  qed (use record_puts_keys in \<open>auto simp: node_cells_def group_cells_def\<close>)
qed

lemma stems_apart: "prefix (marker_key f ks) k \<Longrightarrow> prefix (marker_key g ls) k \<Longrightarrow> f = g \<and> ks = ls"
  by (auto simp: prefix_def marker_append_inject)

definition only_under :: "bytes \<Rightarrow> (bytes \<rightharpoonup> bytes) \<Rightarrow> (bytes \<rightharpoonup> bytes) \<Rightarrow> bool" where
  "only_under stem m m' \<longleftrightarrow> (\<forall>f ks t. \<not> prefix stem (marker_key f ks @ t) \<longrightarrow> m' (marker_key f ks @ t) = m (marker_key f ks @ t))"

lemma only_under_reads:
  assumes "only_under (marker_key f ks) m m'" "marker_key g ls \<noteq> marker_key f ks"
  shows "entry_at m' (marker_key g ls) fs gs = entry_at m (marker_key g ls) fs gs"
    "group_at m' (marker_key g ls) n hs = group_at m (marker_key g ls) n hs"
    "slot_at m' (marker_key g ls) = slot_at m (marker_key g ls)"
proof -
  have "m' k = m k" if p: "prefix (marker_key g ls) k" for k
  proof -
    from p obtain t where k: "k = marker_key g ls @ t" by (rule prefixE)
    have "\<not> prefix (marker_key f ks) k" using stems_apart p assms(2) by blast
    then show ?thesis using assms(1) by (simp add: only_under_def k)
  qed
  then show "entry_at m' (marker_key g ls) fs gs = entry_at m (marker_key g ls) fs gs"
    "group_at m' (marker_key g ls) n hs = group_at m (marker_key g ls) n hs"
    "slot_at m' (marker_key g ls) = slot_at m (marker_key g ls)"
    by (blast intro: entry_at_cong group_at_cong slot_at_cong)+
qed

lemma index_effect_under:
  "index_effect root ixs keys old new m m' \<Longrightarrow> prefix (marker_key f ks) k \<Longrightarrow> m' k = m k"
  by (auto simp: prefix_def index_effect_entries)

lemma only_under_index:
  "index_effect root ixs keys old new m1 m' \<Longrightarrow> only_under stem m m1 \<Longrightarrow> only_under stem m m'"
  by (auto simp: only_under_def index_effect_entries)

section \<open>Sound nodes\<close>

text \<open>
  A node is sound when every cell under its marker belongs to its declared footprint and its payload
  reads without a fault: nothing at all for an absent entry, a complete and decodable one otherwise.
\<close>

definition node_clean :: "(bytes \<rightharpoonup> bytes) \<Rightarrow> bytes \<Rightarrow> ResolvedField list \<Rightarrow> ResolvedGroup list \<Rightarrow> bool" where
  "node_clean m stem fs gs \<longleftrightarrow> (\<forall>k \<in> dom m. prefix stem k \<longrightarrow> k \<in> set (node_cells stem fs gs))"

definition sound_node :: "(bytes \<rightharpoonup> bytes) \<Rightarrow> bytes \<Rightarrow> ResolvedField list \<Rightarrow> ResolvedGroup list \<Rightarrow> bool" where
  "sound_node m stem fs gs \<longleftrightarrow> node_clean m stem fs gs \<and> (\<exists>e. entry_at m stem fs gs = Inr e)"

lemma record_at_Inr: "record_at m stem fs = Inr vs \<longleftrightarrow> record_clean m stem fs \<and> vs = map (leaf_value m stem) fs"
  by (auto simp: record_at_def)

lemma slot_at_Inr:
  "slot_at m stem = Inr p \<longleftrightarrow> (if m stem \<noteq> None then p = Present else p = Absent \<and> (\<forall>k. prefix stem k \<longrightarrow> m k = None))"
  by (auto simp: slot_at_def strict_prefix_def domIff)

lemma slot_absent: "slot_at m stem = Inr Absent \<Longrightarrow> prefix stem k \<Longrightarrow> m k = None"
  unfolding slot_at_Inr by (metis Presence.distinct(1))

lemma traverse_records:
  "traverse (\<lambda>g. rbind (record_at m (group_stem stem (rg_number g)) (rg_fields g)) (\<lambda>vs. Inr (EntryValue vs []))) gs = Inr es \<longleftrightarrow>
     (\<forall>g \<in> set gs. record_clean m (group_stem stem (rg_number g)) (rg_fields g))
     \<and> es = map (\<lambda>g. EntryValue (map (leaf_value m (group_stem stem (rg_number g))) (rg_fields g)) []) gs"
  by (induction gs arbitrary: es) (auto simp: record_at_Inr)

definition node_value :: "(bytes \<rightharpoonup> bytes) \<Rightarrow> bytes \<Rightarrow> ResolvedField list \<Rightarrow> ResolvedGroup list \<Rightarrow> EntryValue" where
  "node_value m stem fs gs =
     EntryValue (map (leaf_value m stem) fs)
       (map (\<lambda>g. EntryValue (map (leaf_value m (group_stem stem (rg_number g))) (rg_fields g)) []) gs)"

definition node_readable :: "(bytes \<rightharpoonup> bytes) \<Rightarrow> bytes \<Rightarrow> ResolvedField list \<Rightarrow> ResolvedGroup list \<Rightarrow> bool" where
  "node_readable m stem fs gs \<longleftrightarrow>
     m stem \<noteq> None \<and> record_clean m stem fs \<and> (\<forall>g \<in> set gs. record_clean m (group_stem stem (rg_number g)) (rg_fields g))"

lemma entry_at_Some:
  "entry_at m stem fs gs = Inr (Some e) \<longleftrightarrow> node_readable m stem fs gs \<and> e = node_value m stem fs gs"
  by (auto simp: entry_at_def slot_at_Inr record_at_Inr traverse_records node_readable_def node_value_def split: if_splits)

lemma entry_at_None: "entry_at m stem fs gs = Inr None \<longleftrightarrow> (\<forall>k. prefix stem k \<longrightarrow> m k = None)"
  by (auto simp: entry_at_def slot_at_Inr split: if_splits)

lemma sound_node_cong:
  assumes "\<And>k. prefix stem k \<Longrightarrow> m' k = m k"
  shows "sound_node m' stem fs gs \<longleftrightarrow> sound_node m stem fs gs"
proof -
  have "node_clean m' stem fs gs \<longleftrightarrow> node_clean m stem fs gs" using assms by (auto simp: node_clean_def domIff)
  then show ?thesis using entry_at_cong [OF assms] by (simp add: sound_node_def)
qed

text \<open>A store maps each entry family to the shape of its nodes; it is sound when all its nodes are.\<close>

type_synonym shapes = "NodeNumber \<Rightarrow> ResolvedField list \<times> ResolvedGroup list"

definition sound_store :: "shapes \<Rightarrow> (bytes \<rightharpoonup> bytes) \<Rightarrow> bool" where
  "sound_store shape m \<longleftrightarrow> (\<forall>f ks. sound_node m (marker_key f ks) (fst (shape f)) (snd (shape f)))"

lemma sound_store_update:
  assumes "sound_store shape m" "only_under (marker_key f ks) m m'"
    "sound_node m' (marker_key f ks) (fst (shape f)) (snd (shape f))"
  shows "sound_store shape m'"
  unfolding sound_store_def
proof (intro allI)
  fix g ls
  show "sound_node m' (marker_key g ls) (fst (shape g)) (snd (shape g))"
  proof (cases "marker_key g ls = marker_key f ks")
    case True
    then show ?thesis using assms(3) by simp
  next
    case False
    have "m' k = m k" if p: "prefix (marker_key g ls) k" for k
    proof -
      from p obtain t where k: "k = marker_key g ls @ t" by (rule prefixE)
      have "\<not> prefix (marker_key f ks) k" using stems_apart p False by blast
      then show ?thesis using assms(2) by (simp add: only_under_def k)
    qed
    then have "sound_node m' (marker_key g ls) (fst (shape g)) (snd (shape g)) \<longleftrightarrow>
        sound_node m (marker_key g ls) (fst (shape g)) (snd (shape g))" by (rule sound_node_cong)
    then show ?thesis using assms(1) by (simp add: sound_store_def)
  qed
qed

lemma sound_store_empty: "sound_store shape Map.empty"
  by (simp add: sound_store_def sound_node_def node_clean_def entry_at_None exI [of _ None])

section \<open>Whole-entry mutations\<close>

lemma footprint_under: "footprint stem gs k \<Longrightarrow> prefix stem k"
  unfolding footprint_def strict_prefix_def
  by (elim disjE bexE conjE; (erule range_under(1) | erule range_under(2))?) simp

lemma node_stem_marker: "node_stem site keys = Inr stem \<Longrightarrow> stem = marker_key (site_family site) keys"
  by (simp add: node_stem_eq split: if_splits)

text \<open>A plan that removes the footprint and then puts a payload leaves exactly that payload.\<close>

lemma written_node:
  assumes "target_wf (AtEntry fs gs)" "entry_ok fs gs entry"
    "\<And>k. prefix stem k \<Longrightarrow> m' k = (if k \<in> set (node_cells stem fs gs) then map_of (node_puts stem fs gs entry) k else None)"
  shows "entry_at m' stem fs gs = Inr (Some entry)" "node_clean m' stem fs gs"
proof -
  have "map_of (node_puts stem fs gs entry) k = None" if "k \<notin> set (node_cells stem fs gs)" for k
    using that node_puts_cells by (fastforce simp: map_of_eq_None_iff)
  then have "m' k = map_of (node_puts stem fs gs entry) k" if "prefix stem k" for k using assms(3) [OF that] by auto
  then show "entry_at m' stem fs gs = Inr (Some entry)" using entry_at_puts [OF assms(1,2)] footprint_under by blast
  show "node_clean m' stem fs gs" using assms(3) by (auto simp: node_clean_def domIff split: if_splits)
qed

lemma node_puts_under: "\<not> prefix stem k \<Longrightarrow> map_of (node_puts stem fs gs entry) k = None"
  using node_puts_cells node_cells_under by (fastforce simp: map_of_eq_None_iff)

context lawful_engine
begin

lemma create_entry_refines:
  assumes "ok s" "as_target site = AtEntry fs gs" "target_wf (AtEntry fs gs)" "entry_typed fs gs entry"
    "create_entry E indexes site keys entry (Some s) = (Inr Created, st)"
  obtains s' where "st = Some s'" "ok s'" "keys_fit (site_columns site) keys"
    "entry_at (cells s) (marker_key (site_family site) keys) fs gs = Inr None"
    "entry_at (cells s') (marker_key (site_family site) keys) fs gs = Inr (Some entry)"
    "node_clean (cells s') (marker_key (site_family site) keys) fs gs"
    "only_under (marker_key (site_family site) keys) (cells s) (cells s')"
    "\<exists>m1. (\<forall>r i row. m1 (index_cell_key r i row) = cells s (index_cell_key r i row))
        \<and> index_effect (as_root_number site) (maintained indexes site) keys None (Some (ev_fields entry)) m1 (cells s')"
proof -
  let ?stem = "marker_key (site_family site) keys"
  from create_entry_effect [OF assms(1,2,5)] obtain stem ws s' where
    *: "node_stem site keys = Inr stem" "require_complete fs gs entry = Inr ()" "slot_at (cells s) stem = Inr Absent"
       "node_write stem fs gs entry = Inr ws" "st = Some s'" "ok s'"
       "index_effect (as_root_number site) (maintained indexes site) keys None (Some (ev_fields entry))
         (plan_map ws (cells s)) (cells s')" by blast
  note stem = node_stem_marker [OF *(1)]
  have absent: "cells s k = None" if "prefix ?stem k" for k using slot_absent [OF *(3)] that stem by simp
  have m1: "plan_map ws (cells s) = cells s ++ map_of (node_puts ?stem fs gs entry)"
    using plan_map_node_write [OF *(4) entry_fits_complete [OF *(2)] assms(3)] stem by simp
  have under: "cells s' k = (if k \<in> set (node_cells ?stem fs gs) then map_of (node_puts ?stem fs gs entry) k else None)"
    if "prefix ?stem k" for k
  proof -
    have "cells s' k = map_of (node_puts ?stem fs gs entry) k"
      using index_effect_under [OF *(7) that] absent [OF that] by (simp add: m1 map_add_def split: option.splits)
    moreover have "map_of (node_puts ?stem fs gs entry) k = None" if "k \<notin> set (node_cells ?stem fs gs)"
      using that node_puts_cells [of k ?stem fs gs entry] unfolding map_of_eq_None_iff by (rule contrapos_nn)
    ultimately show ?thesis by simp
  qed
  note w = written_node [OF assms(3) entry_ok_written [OF *(4,2) assms(4)] under]
  have "keys_fit (site_columns site) keys" using *(1) by (simp add: node_stem_eq split: if_splits)
  moreover have "only_under ?stem (cells s) (cells s')"
    by (rule only_under_index [OF *(7)]) (simp add: only_under_def m1 map_add_def node_puts_under)
  moreover have "plan_map ws (cells s) (index_cell_key r i row) = cells s (index_cell_key r i row)" for r i row
    using node_puts_under [of ?stem "index_cell_key r i row" fs gs entry] families_disjoint
    by (auto simp: m1 map_add_def prefix_def)
  ultimately show thesis using that *(5,6,7) w absent by (auto simp: entry_at_None)
qed

lemma replace_entry_refines:
  assumes "ok s" "as_target site = AtEntry fs gs" "target_wf (AtEntry fs gs)" "entry_typed fs gs entry"
    "node_clean (cells s) (marker_key (site_family site) keys) fs gs"
    "replace_entry E indexes site keys entry (Some s) = (Inr u, st)"
  obtains s' old m1 where "st = Some s'" "ok s'" "keys_fit (site_columns site) keys"
    "cells s (marker_key (site_family site) keys) \<noteq> None"
    "entry_at (cells s') (marker_key (site_family site) keys) fs gs = Inr (Some entry)"
    "node_clean (cells s') (marker_key (site_family site) keys) fs gs"
    "only_under (marker_key (site_family site) keys) (cells s) (cells s')"
    "maintained indexes site \<noteq> [] \<longrightarrow>
       read_projected E s (marker_key (site_family site) keys) fs (projected_positions_of (maintained indexes site)) = Inr old"
    "\<forall>r i row. m1 (index_cell_key r i row) = cells s (index_cell_key r i row)"
    "index_effect (as_root_number site) (maintained indexes site) keys (Some old) (Some (ev_fields entry)) m1 (cells s')"
proof -
  let ?stem = "marker_key (site_family site) keys"
  let ?m1 = "\<lambda>k. if k \<in> set (node_cells ?stem fs gs) then None else cells s k"
  from replace_entry_effect [OF assms(1,2,6)] obtain stem ws s' old where
    *: "node_stem site keys = Inr stem" "require_complete fs gs entry = Inr ()" "cells s stem \<noteq> None"
       "node_write stem fs gs entry = Inr ws" "st = Some s'" "ok s'"
       "maintained indexes site \<noteq> [] \<longrightarrow> read_projected E s stem fs (projected_positions_of (maintained indexes site)) = Inr old"
       "index_effect (as_root_number site) (maintained indexes site) keys (Some old) (Some (ev_fields entry))
         (plan_map (node_erase stem fs gs @ ws) (cells s)) (cells s')" by blast
  note stem = node_stem_marker [OF *(1)]
  have m1: "plan_map (node_erase stem fs gs @ ws) (cells s) = ?m1 ++ map_of (node_puts ?stem fs gs entry)"
    using plan_map_node_write [OF *(4) entry_fits_complete [OF *(2)] assms(3)] stem
    by (simp add: plan_map_append node_erase_def plan_map_removes)
  have under: "cells s' k = (if k \<in> set (node_cells ?stem fs gs) then map_of (node_puts ?stem fs gs entry) k else None)"
    if "prefix ?stem k" for k
  proof -
    have "cells s' k = (?m1 ++ map_of (node_puts ?stem fs gs entry)) k" using index_effect_under [OF *(8) that] m1 by simp
    moreover have "?m1 k = None" using assms(5) that by (auto simp: node_clean_def)
    moreover have "map_of (node_puts ?stem fs gs entry) k = None" if "k \<notin> set (node_cells ?stem fs gs)"
      using that node_puts_cells [of k ?stem fs gs entry] unfolding map_of_eq_None_iff by (rule contrapos_nn)
    ultimately show ?thesis by (simp add: map_add_def split: option.splits if_splits)
  qed
  note w = written_node [OF assms(3) entry_ok_written [OF *(4,2) assms(4)] under]
  have fit: "keys_fit (site_columns site) keys" using *(1) by (simp add: node_stem_eq split: if_splits)
  have frame: "(?m1 ++ map_of (node_puts ?stem fs gs entry)) k = cells s k" if "\<not> prefix ?stem k" for k
    using that node_puts_under [OF that] node_cells_under by (auto simp: map_add_def)
  have "only_under ?stem (cells s) (cells s')"
    by (rule only_under_index [OF *(8)]) (simp add: only_under_def m1 frame)
  moreover have "\<not> prefix ?stem (index_cell_key r i row)" for r i row using families_disjoint by (auto simp: prefix_def)
  ultimately show thesis
    using *(3,7,8) stem m1 frame by (intro that [OF *(5,6) fit _ w, of old "?m1 ++ map_of (node_puts ?stem fs gs entry)"]) simp_all
qed

lemma erase_entry_refines:
  assumes "ok s" "as_target site = AtEntry fs gs"
    "node_clean (cells s) (marker_key (site_family site) keys) fs gs"
    "erase_entry E indexes site keys (Some s) = (Inr out, st)"
  obtains s' old m1 where "st = Some s'" "ok s'" "keys_fit (site_columns site) keys"
    "out = (if cells s (marker_key (site_family site) keys) \<noteq> None then Erased else Missing)"
    "entry_at (cells s') (marker_key (site_family site) keys) fs gs = Inr None"
    "only_under (marker_key (site_family site) keys) (cells s) (cells s')"
    "maintained indexes site \<noteq> [] \<longrightarrow>
       read_projected E s (marker_key (site_family site) keys) fs (projected_positions_of (maintained indexes site)) = Inr old"
    "\<forall>r i row. m1 (index_cell_key r i row) = cells s (index_cell_key r i row)"
    "index_effect (as_root_number site) (maintained indexes site) keys
       (if cells s (marker_key (site_family site) keys) \<noteq> None then Some old else None) None m1 (cells s')"
proof -
  let ?stem = "marker_key (site_family site) keys"
  let ?m1 = "\<lambda>k. if k \<in> set (node_cells ?stem fs gs) then None else cells s k"
  from erase_entry_effect [OF assms(1,2,4)] obtain stem s' old where
    *: "node_stem site keys = Inr stem" "st = Some s'" "ok s'" "out = (if cells s stem \<noteq> None then Erased else Missing)"
       "maintained indexes site \<noteq> [] \<longrightarrow> read_projected E s stem fs (projected_positions_of (maintained indexes site)) = Inr old"
       "index_effect (as_root_number site) (maintained indexes site) keys (if cells s stem \<noteq> None then Some old else None) None
         (plan_map (node_erase stem fs gs) (cells s)) (cells s')" by blast
  note stem = node_stem_marker [OF *(1)]
  have m1: "plan_map (node_erase stem fs gs) (cells s) = ?m1"
    using stem by (simp add: node_erase_def plan_map_removes)
  have under: "cells s' k = None" if "prefix ?stem k" for k
    using index_effect_under [OF *(6) that] assms(3) that m1 by (auto simp: node_clean_def)
  have fit: "keys_fit (site_columns site) keys" using *(1) by (simp add: node_stem_eq split: if_splits)
  have frame: "?m1 k = cells s k" if "\<not> prefix ?stem k" for k
    using that node_cells_under by auto
  have "only_under ?stem (cells s) (cells s')"
    by (rule only_under_index [OF *(6)]) (simp add: only_under_def m1 frame)
  moreover have "\<not> prefix ?stem (index_cell_key r i row)" for r i row using families_disjoint by (auto simp: prefix_def)
  ultimately show thesis
    using under *(4,5,6) stem m1 frame by (intro that [OF *(2,3) fit, of old ?m1]) (simp_all add: entry_at_None)
qed

end

section \<open>Field and group mutations\<close>

definition set_slot :: "nat \<Rightarrow> ValueDomain option \<Rightarrow> EntryValue \<Rightarrow> EntryValue" where
  "set_slot i v e = EntryValue ((ev_fields e)[i := v]) (ev_groups e)"

definition set_group :: "nat \<Rightarrow> EntryValue \<Rightarrow> EntryValue \<Rightarrow> EntryValue" where
  "set_group j sub e = EntryValue (ev_fields e) ((ev_groups e)[j := sub])"

lemma record_update:
  assumes "record_wf fs" "record_clean m stem fs" "i < length fs"
    "\<And>k. prefix (field_leaf_range stem) k \<Longrightarrow> m' k = (m(stem_field_leaf stem (rf_number (fs ! i)) := w)) k"
    "case w of None \<Rightarrow> \<not> rf_required (fs ! i) | Some bs \<Rightarrow> decode_domain bs (rf_shape (fs ! i)) \<noteq> None"
  shows "record_clean m' stem fs"
    "map (leaf_value m' stem) fs = (map (leaf_value m stem) fs)[i := Option.bind w (\<lambda>bs. decode_domain bs (rf_shape (fs ! i)))]"
proof -
  let ?leaf = "\<lambda>f. stem_field_leaf stem (rf_number f)"
  have leaf: "m' (?leaf f) = (if rf_number f = rf_number (fs ! i) then w else m (?leaf f))" for f
    using assms(4) [OF leaf_in_range(1)] by simp
  have num: "rf_number (fs ! j) = rf_number (fs ! i) \<longleftrightarrow> j = i" if "j < length fs" for j
    using assms(1,3) that by (auto simp: record_wf_def distinct_conv_nth)
  have "leaf_ok m' stem (fs ! j)" if "j < length fs" for j
    using that assms(2,5) leaf [of "fs ! j"] num [OF that] by (auto simp: record_clean_def leaf_ok_def list_all_length split: option.splits)
  then have "list_all (leaf_ok m' stem) fs" by (simp add: list_all_length)
  moreover have "?leaf (fs ! i) \<in> set (group_cells stem fs)" using assms(3) by (simp add: group_cells_def node_field_leaf_def)
  ultimately show "record_clean m' stem fs"
    using assms(2,4) by (auto simp: record_clean_def domIff split: if_splits)
  show "map (leaf_value m' stem) fs = (map (leaf_value m stem) fs)[i := Option.bind w (\<lambda>bs. decode_domain bs (rf_shape (fs ! i)))]"
    using assms(3) by (intro nth_equalityI) (auto simp: leaf_value_def nth_list_update leaf num)
qed

lemma leaf_not_group_range: "\<not> prefix (field_leaf_range (group_stem stem n)) (stem_field_leaf stem l)"
  using ranges_apart(1) [OF leaf_in_range(1)] .

lemma field_update:
  assumes "record_wf fs" "node_readable m stem fs gs" "i < length fs"
    "\<And>k. prefix stem k \<Longrightarrow> m' k = (m(stem_field_leaf stem (rf_number (fs ! i)) := w)) k"
    "case w of None \<Rightarrow> \<not> rf_required (fs ! i) | Some bs \<Rightarrow> decode_domain bs (rf_shape (fs ! i)) \<noteq> None"
  shows "node_readable m' stem fs gs"
    "node_value m' stem fs gs = set_slot i (Option.bind w (\<lambda>bs. decode_domain bs (rf_shape (fs ! i)))) (node_value m stem fs gs)"
proof -
  note r = record_update [OF assms(1) _ assms(3) assms(4) [OF range_under(1)] assms(5)]
  have grp: "record_at m' (group_stem stem n) hs = record_at m (group_stem stem n) hs" for n hs
    using assms(4) [OF range_under(2)] leaf_not_group_range by (intro record_at_cong) auto
  then have "record_clean m' (group_stem stem n) hs = record_clean m (group_stem stem n) hs" for n hs
    by (metis record_at_Inr record_at_def sum.distinct(1))
  moreover have "m' stem = m stem" using assms(4) [of stem] by (simp add: field_leaf_layout)
  ultimately show "node_readable m' stem fs gs" using assms(2) r(1) by (simp add: node_readable_def)
  have "m' (stem_field_leaf (group_stem stem n) l) = m (stem_field_leaf (group_stem stem n) l)" for n l
    using assms(4) [OF range_under(2) [OF leaf_in_range(1)], of n l] leaf_not_group_range [of stem n] leaf_in_range(1)
    by (metis fun_upd_apply)
  then have "leaf_value m' (group_stem stem n) = leaf_value m (group_stem stem n)" for n
    by (simp add: fun_eq_iff leaf_value_def)
  then show "node_value m' stem fs gs = set_slot i (Option.bind w (\<lambda>bs. decode_domain bs (rf_shape (fs ! i)))) (node_value m stem fs gs)"
    using assms(2) r(2) by (simp add: node_value_def set_slot_def node_readable_def)
qed

text \<open>Rewriting the leaf range of one group changes that group alone.\<close>

lemma group_update:
  assumes "target_wf (AtEntry fs gs)" "node_readable m stem fs gs" "j < length gs"
    "\<And>k. prefix stem k \<Longrightarrow> \<not> prefix (field_leaf_range (group_stem stem (rg_number (gs ! j)))) k \<Longrightarrow> m' k = m k"
    "record_at m' (group_stem stem (rg_number (gs ! j))) (rg_fields (gs ! j)) = Inr vs"
  shows "node_readable m' stem fs gs" "node_value m' stem fs gs = set_group j (EntryValue vs []) (node_value m stem fs gs)"
proof -
  have top: "record_at m' stem fs = record_at m stem fs"
    using assms(4) [OF range_under(1)] ranges_apart(1) by (intro record_at_cong) blast
  have other: "record_at m' (group_stem stem (rg_number (gs ! i))) hs = record_at m (group_stem stem (rg_number (gs ! i))) hs"
    if "i < length gs" "i \<noteq> j" for i hs
  proof -
    have "rg_number (gs ! j) \<noteq> rg_number (gs ! i)" using assms(1,3) that by (auto simp: distinct_conv_nth)
    then show ?thesis using assms(4) [OF range_under(2)] ranges_apart(2) by (intro record_at_cong) metis
  qed
  have rec: "record_at m' (group_stem stem (rg_number (gs ! i))) (rg_fields (gs ! i))
      = (if i = j then Inr vs else record_at m (group_stem stem (rg_number (gs ! i))) (rg_fields (gs ! i)))"
    if "i < length gs" for i using other [OF that] assms(5) by simp
  have old: "record_at m (group_stem stem (rg_number (gs ! i))) (rg_fields (gs ! i))
      = Inr (map (leaf_value m (group_stem stem (rg_number (gs ! i)))) (rg_fields (gs ! i)))" if "i < length gs" for i
    using assms(2) that by (simp add: node_readable_def record_at_Inr)
  have "m' stem = m stem" using assms(4) [of stem] ranges_apart(4) by simp
  moreover have new: "record_clean m' (group_stem stem (rg_number (gs ! i))) (rg_fields (gs ! i))
      \<and> map (leaf_value m' (group_stem stem (rg_number (gs ! i)))) (rg_fields (gs ! i))
         = (if i = j then vs else map (leaf_value m (group_stem stem (rg_number (gs ! i)))) (rg_fields (gs ! i)))" if "i < length gs" for i
    using rec [OF that] old [OF that] by (cases "i = j") (auto simp: record_at_Inr)
  moreover have "record_clean m' stem fs \<and> map (leaf_value m' stem) fs = map (leaf_value m stem) fs"
    using top assms(2) by (metis node_readable_def record_at_Inr)
  ultimately show "node_readable m' stem fs gs" using assms(2) by (auto simp: node_readable_def in_set_conv_nth)
  show "node_value m' stem fs gs = set_group j (EntryValue vs []) (node_value m stem fs gs)"
    using new \<open>record_clean m' stem fs \<and> _\<close>
    by (auto simp: node_value_def set_group_def nth_list_update assms(3) intro!: nth_equalityI [where xs = "map _ gs"])
qed

definition field_of :: "FieldPayload \<Rightarrow> ResolvedField" where
  "field_of p = \<lparr>rf_number = fp_number p, rf_shape = fp_shape p, rf_required = fp_required p\<rparr>"

lemma field_position:
  assumes "target_wf (AtField p)"
  obtains i where "index_of (\<lambda>f. rf_number f = fp_number p) (fp_record p) = Some i" "i < length (fp_record p)"
    "fp_record p ! i = field_of p"
proof -
  from assms obtain i where i: "i < length (fp_record p)" "fp_record p ! i = field_of p"
    by (auto simp: field_of_def in_set_conv_nth)
  moreover from i have "index_of (\<lambda>f. rf_number f = fp_number p) (fp_record p) = Some i"
    using assms by (simp add: index_of_distinct record_wf_def field_of_def)
  ultimately show thesis using that by blast
qed

lemma field_leaf_under: "prefix stem (stem_field_leaf stem n)"
  using range_under(1) [OF leaf_in_range(1)] .

lemma readable_if_sound: "sound_node m stem fs gs \<Longrightarrow> m stem \<noteq> None \<Longrightarrow> node_readable m stem fs gs"
proof -
  assume "sound_node m stem fs gs" "m stem \<noteq> None"
  then obtain e where e: "entry_at m stem fs gs = Inr e" and "e \<noteq> None" using entry_at_None [of m stem fs gs] by (auto simp: sound_node_def)
  then show ?thesis using entry_at_Some by (cases e) auto
qed

lemma node_clean_update:
  assumes "node_clean m stem fs gs" "l \<in> set (node_cells stem fs gs)"
    "\<And>k. prefix stem k \<Longrightarrow> m' k = (m(l := w)) k"
  shows "node_clean m' stem fs gs"
  using assms by (auto simp: node_clean_def domIff split: if_splits)

lemma field_leaf_in_cells: "i < length fs \<Longrightarrow> stem_field_leaf stem (rf_number (fs ! i)) \<in> set (node_cells stem fs gs)"
  by (simp add: node_cells_def node_field_leaf_def)

lemma leaf_write_frame:
  assumes "index_effect root ixs keys old new (m(stem_field_leaf (marker_key f ks) n := w)) m'"
  shows "prefix (marker_key f ks) k \<Longrightarrow> m' k = (m(stem_field_leaf (marker_key f ks) n := w)) k"
    "only_under (marker_key f ks) m m'"
    "(m(stem_field_leaf (marker_key f ks) n := w)) (index_cell_key r i row) = m (index_cell_key r i row)"
proof -
  show "prefix (marker_key f ks) k \<Longrightarrow> m' k = (m(stem_field_leaf (marker_key f ks) n := w)) k"
    by (rule index_effect_under [OF assms])
  show "only_under (marker_key f ks) m m'"
    by (rule only_under_index [OF assms]) (use field_leaf_under in \<open>auto simp: only_under_def\<close>)
  show "(m(stem_field_leaf (marker_key f ks) n := w)) (index_cell_key r i row) = m (index_cell_key r i row)"
    using families_disjoint by (auto simp: field_leaf_layout)
qed

context lawful_engine
begin

lemma set_field_refines:
  assumes "ok s" "as_target site = AtField p" "target_wf (AtField p)" "slot_typed (field_of p) (Some v)"
    "sound_node (cells s) (marker_key (site_family site) keys) (fp_record p) gs"
    "set_field E indexes site keys v (Some s) = (Inr u, st)"
    "index_of (\<lambda>f. rf_number f = fp_number p) (fp_record p) = Some i"
  obtains s' e old m1 where "st = Some s'" "ok s'" "keys_fit (site_columns site) keys"
    "entry_at (cells s) (marker_key (site_family site) keys) (fp_record p) gs = Inr (Some e)"
    "entry_at (cells s') (marker_key (site_family site) keys) (fp_record p) gs = Inr (Some (set_slot i (Some v) e))"
    "node_clean (cells s') (marker_key (site_family site) keys) (fp_record p) gs"
    "only_under (marker_key (site_family site) keys) (cells s) (cells s')"
    "projecting indexes site i \<noteq> [] \<longrightarrow>
       read_projected E s (marker_key (site_family site) keys) (fp_record p) (projected_positions_of (projecting indexes site i)) = Inr old"
    "\<forall>r i row. m1 (index_cell_key r i row) = cells s (index_cell_key r i row)"
    "index_effect (as_root_number site) (projecting indexes site i) keys (Some old) (Some (old[i := Some v])) m1 (cells s')"
proof -
  let ?stem = "marker_key (site_family site) keys"
  from field_position [OF assms(3)] assms(7) have i: "i < length (fp_record p)" "fp_record p ! i = field_of p" by auto
  then have num: "rf_number (fp_record p ! i) = fp_number p" by (simp add: field_of_def)
  from set_field_effect [OF assms(1,2,7,6)] obtain stem bs s' old where
    *: "node_stem site keys = Inr stem" "cells s stem \<noteq> None" "encode_domain v = Inr bs" "st = Some s'" "ok s'"
      "projecting indexes site i \<noteq> [] \<longrightarrow>
          read_projected E s stem (fp_record p) (projected_positions_of (projecting indexes site i)) = Inr old"
      "index_effect (as_root_number site) (projecting indexes site i) keys (Some old) (Some (old[i := Some v]))
         ((cells s)(stem_field_leaf stem (fp_number p) \<mapsto> bs)) (cells s')" by blast
  note stem = node_stem_marker [OF *(1)]
  note frame = leaf_write_frame [OF *(7) [unfolded stem]]
  have dec: "decode_domain bs (rf_shape (fp_record p ! i)) = Some v"
    using assms(4) *(3) i encode_domain_capped [OF *(3)] domain_iff [of "fp_shape p" bs v]
    by (simp add: slot_typed_def field_of_def)
  have readable: "node_readable (cells s) ?stem (fp_record p) gs" using readable_if_sound assms(5) *(2) stem by simp
  note upd = field_update [OF _ readable i(1) frame(1) [folded num]]
  have "node_clean (cells s') ?stem (fp_record p) gs"
    using assms(5) by (intro node_clean_update [OF _ field_leaf_in_cells [OF i(1)] frame(1) [folded num]]) (simp_all add: sound_node_def)
  moreover have "keys_fit (site_columns site) keys" using *(1) by (simp add: node_stem_eq split: if_splits)
  moreover have "entry_at (cells s) ?stem (fp_record p) gs = Inr (Some (node_value (cells s) ?stem (fp_record p) gs))"
    "entry_at (cells s') ?stem (fp_record p) gs = Inr (Some (set_slot i (Some v) (node_value (cells s) ?stem (fp_record p) gs)))"
    using readable upd dec assms(3) by (simp_all add: entry_at_Some)
  ultimately show thesis using that *(4-7) frame(2,3) stem by blast
qed

lemma erase_field_refines:
  assumes "ok s" "as_target site = AtField p" "target_wf (AtField p)"
    "sound_node (cells s) (marker_key (site_family site) keys) (fp_record p) gs"
    "erase_field E indexes site keys (Some s) = (Inr out, st)"
    "index_of (\<lambda>f. rf_number f = fp_number p) (fp_record p) = Some i"
  obtains s' e old m1 where "st = Some s'" "ok s'" "keys_fit (site_columns site) keys"
    "out = (if cells s (stem_field_leaf (marker_key (site_family site) keys) (fp_number p)) \<noteq> None then Erased else Missing)"
    "entry_at (cells s) (marker_key (site_family site) keys) (fp_record p) gs = Inr e"
    "entry_at (cells s') (marker_key (site_family site) keys) (fp_record p) gs = Inr (map_option (set_slot i None) e)"
    "node_clean (cells s') (marker_key (site_family site) keys) (fp_record p) gs"
    "only_under (marker_key (site_family site) keys) (cells s) (cells s')"
    "projecting indexes site i \<noteq> [] \<longrightarrow>
       read_projected E s (marker_key (site_family site) keys) (fp_record p) (projected_positions_of (projecting indexes site i)) = Inr old"
    "\<forall>r i row. m1 (index_cell_key r i row) = cells s (index_cell_key r i row)"
    "index_effect (as_root_number site) (projecting indexes site i) keys (Some old) (Some (old[i := None])) m1 (cells s')"
proof -
  let ?stem = "marker_key (site_family site) keys"
  from field_position [OF assms(3)] assms(6) have i: "i < length (fp_record p)" "fp_record p ! i = field_of p" by auto
  then have num: "rf_number (fp_record p ! i) = fp_number p" by (simp add: field_of_def)
  from erase_field_effect [OF assms(1,2,6,5)] obtain stem s' old where
    *: "node_stem site keys = Inr stem" "\<not> fp_required p" "st = Some s'" "ok s'"
      "out = (if cells s (stem_field_leaf stem (fp_number p)) \<noteq> None then Erased else Missing)"
      "projecting indexes site i \<noteq> [] \<longrightarrow>
          read_projected E s stem (fp_record p) (projected_positions_of (projecting indexes site i)) = Inr old"
      "index_effect (as_root_number site) (projecting indexes site i) keys (Some old) (Some (old[i := None]))
         ((cells s)(stem_field_leaf stem (fp_number p) := None)) (cells s')" by blast
  note stem = node_stem_marker [OF *(1)]
  note frame = leaf_write_frame [OF *(7) [unfolded stem]]
  obtain e where e: "entry_at (cells s) ?stem (fp_record p) gs = Inr e" using assms(4) by (auto simp: sound_node_def)
  have "entry_at (cells s') ?stem (fp_record p) gs = Inr (map_option (set_slot i None) e)"
  proof (cases e)
    case None
    then show ?thesis using e frame(1) unfolding entry_at_None by (auto simp: entry_at_None)
  next
    case (Some e0)
    then have readable: "node_readable (cells s) ?stem (fp_record p) gs" "e0 = node_value (cells s) ?stem (fp_record p) gs"
      using e by (simp_all add: entry_at_Some)
    show ?thesis using field_update [OF _ readable(1) i(1) frame(1) [folded num]] assms(3) *(2) i(2) Some readable(2)
      by (simp add: entry_at_Some field_of_def)
  qed
  moreover have "node_clean (cells s') ?stem (fp_record p) gs"
    using assms(4) by (intro node_clean_update [OF _ field_leaf_in_cells [OF i(1)] frame(1) [folded num]]) (simp_all add: sound_node_def)
  moreover have "keys_fit (site_columns site) keys" using *(1) by (simp add: node_stem_eq split: if_splits)
  ultimately show thesis using that *(3-7) frame(2,3) stem e by blast
qed

lemma replace_group_refines:
  assumes "ok s" "as_target site = AtGroup n hs" "target_wf (AtEntry fs gs)" "j < length gs" "gs ! j = \<lparr>rg_number = n, rg_fields = hs\<rparr>"
    "list_all2 slot_typed hs (ev_fields v)"
    "sound_node (cells s) (marker_key (site_family site) keys) fs gs"
    "replace_group E site keys v (Some s) = (Inr u, st)"
  obtains s' e where "st = Some s'" "ok s'" "keys_fit (site_columns site) keys"
    "entry_at (cells s) (marker_key (site_family site) keys) fs gs = Inr (Some e)"
    "entry_at (cells s') (marker_key (site_family site) keys) fs gs = Inr (Some (set_group j v e))"
    "node_clean (cells s') (marker_key (site_family site) keys) fs gs"
    "only_under (marker_key (site_family site) keys) (cells s) (cells s')"
    "\<forall>r i row. cells s' (index_cell_key r i row) = cells s (index_cell_key r i row)"
proof -
  let ?stem = "marker_key (site_family site) keys"
  let ?g = "group_stem ?stem n"
  from replace_group_effect [OF assms(1,2,8)] obtain stem ws s' where
    *: "node_stem site keys = Inr stem" "cells s stem \<noteq> None" "require_record_complete hs (ev_fields v) = Inr ()" "ev_groups v = []"
       "group_write (group_stem stem n) hs v = Inr ws" "st = Some s'" "ok s'"
       "cells s' = plan_map (group_erase (group_stem stem n) hs @ ws) (cells s)" by blast
  note stem = node_stem_marker [OF *(1)]
  have wf: "record_wf hs" using assms(3-5) by (auto simp: list_all_length)
  have len: "length (ev_fields v) = length hs" using *(3) by (auto simp: require_record_Inr dest: list_all2_lengthD)
  from *(5) len have ws: "ws = puts (record_puts ?g hs (ev_fields v))" "list_all encodable (ev_fields v)"
    using write_slots_Inr [of ?g hs 0 "ev_fields v" ws] stem by (auto simp: group_write_def)
  have m': "cells s' k = (if k \<in> set (group_cells ?g hs) then map_of (record_puts ?g hs (ev_fields v)) k else cells s k)" for k
  proof -
    have "map_of (record_puts ?g hs (ev_fields v)) k = None" if "k \<notin> set (group_cells ?g hs)"
      using that record_puts_keys [of k ?g hs "ev_fields v"] unfolding map_of_eq_None_iff by (rule contrapos_nn)
    then show ?thesis using *(8) stem ws(1) wf
      by (auto simp: plan_map_append group_erase_def plan_map_removes plan_map_record_puts map_add_def split: option.splits)
  qed
  have readable: "node_readable (cells s) ?stem fs gs" using readable_if_sound assms(7) *(2) stem by simp
  have "record_at (cells s') ?g hs = Inr (ev_fields v)"
  proof (rule record_at_puts [OF wf])
    show "list_all2 slot_ok hs (ev_fields v)" using slots_combine *(3) assms(6) ws(2) by (simp add: require_record_Inr)
    fix k assume k: "strict_prefix (field_leaf_range ?g) k"
    have "cells s k = None" if "k \<notin> set (group_cells ?g hs)"
      using readable assms(4,5) k that by (force simp: node_readable_def record_clean_def strict_prefix_def domIff dest: nth_mem)
    moreover have "map_of (record_puts ?g hs (ev_fields v)) k = None" if "k \<notin> set (group_cells ?g hs)"
      using that record_puts_keys [of k ?g hs "ev_fields v"] unfolding map_of_eq_None_iff by (rule contrapos_nn)
    ultimately show "cells s' k = map_of (record_puts ?g hs (ev_fields v)) k" using m' [of k] by auto
  qed
  moreover have out: "cells s' k = cells s k" if "\<not> prefix (field_leaf_range ?g) k" for k
    using m' [of k] group_cells_range that by auto
  ultimately have upd: "node_readable (cells s') ?stem fs gs" "node_value (cells s') ?stem fs gs = set_group j v (node_value (cells s) ?stem fs gs)"
    using group_update [OF assms(3) readable assms(4), of "cells s'" "ev_fields v"] assms(5) *(4) by (cases v; simp)+
  have "set (group_cells ?g hs) \<subseteq> set (node_cells ?stem fs gs)"
    using nth_mem [OF assms(4)] assms(5) by (force simp: node_cells_def)
  then have "node_clean (cells s') ?stem fs gs"
    using assms(7) m' by (auto simp: sound_node_def node_clean_def domIff split: if_splits)
  moreover have "only_under ?stem (cells s) (cells s')" using out range_under(2) unfolding only_under_def by blast
  moreover have "keys_fit (site_columns site) keys" using *(1) by (simp add: node_stem_eq split: if_splits)
  moreover have "\<not> prefix (field_leaf_range ?g) (index_cell_key r i row)" for r i row
    using range_under(2) families_disjoint unfolding prefix_def by metis
  ultimately show thesis using that *(6,7) readable upd out by (simp add: entry_at_Some)
qed

lemma erase_group_refines:
  assumes "ok s" "as_target site = AtGroup n hs" "target_wf (AtEntry fs gs)" "j < length gs" "gs ! j = \<lparr>rg_number = n, rg_fields = hs\<rparr>"
    "sound_node (cells s) (marker_key (site_family site) keys) fs gs"
    "erase_group E site keys (Some s) = (Inr out, st)"
  obtains s' e where "st = Some s'" "ok s'" "keys_fit (site_columns site) keys"
    "entry_at (cells s) (marker_key (site_family site) keys) fs gs = Inr e"
    "entry_at (cells s') (marker_key (site_family site) keys) fs gs
       = Inr (map_option (set_group j (EntryValue (replicate (length hs) None) [])) e)"
    "node_clean (cells s') (marker_key (site_family site) keys) fs gs"
    "only_under (marker_key (site_family site) keys) (cells s) (cells s')"
    "\<forall>r i row. cells s' (index_cell_key r i row) = cells s (index_cell_key r i row)"
proof -
  let ?stem = "marker_key (site_family site) keys"
  let ?g = "group_stem ?stem n"
  from erase_group_effect [OF assms(1,2,7)] obtain stem s' where
    *: "node_stem site keys = Inr stem" "list_all (\<lambda>f. \<not> rf_required f) hs" "st = Some s'" "ok s'"
       "cells s' = plan_map (group_erase (group_stem stem n) hs) (cells s)" by blast
  have m': "cells s' k = (if k \<in> set (group_cells ?g hs) then None else cells s k)" for k
    using *(5) node_stem_marker [OF *(1)] by (simp add: group_erase_def plan_map_removes)
  have out: "cells s' k = cells s k" if "\<not> prefix (field_leaf_range ?g) k" for k
    using m' [of k] group_cells_range that by auto
  obtain e where e: "entry_at (cells s) ?stem fs gs = Inr e" using assms(6) by (auto simp: sound_node_def)
  have "entry_at (cells s') ?stem fs gs = Inr (map_option (set_group j (EntryValue (replicate (length hs) None) [])) e)"
  proof (cases e)
    case None
    then show ?thesis using e m' unfolding entry_at_None by (auto simp: entry_at_None)
  next
    case (Some e0)
    then have readable: "node_readable (cells s) ?stem fs gs" "e0 = node_value (cells s) ?stem fs gs"
      using e by (simp_all add: entry_at_Some)
    have leaf: "cells s' (stem_field_leaf ?g (rf_number f)) = None" if "f \<in> set hs" for f
      using m' that by (auto simp: group_cells_def node_field_leaf_def)
    have "record_clean (cells s) ?g hs" using readable(1) nth_mem [OF assms(4)] assms(5) by (auto simp: node_readable_def)
    then have "record_clean (cells s') ?g hs"
      using m' leaf *(2) by (auto simp: record_clean_def domIff list_all_iff leaf_ok_def split: if_splits)
    moreover have "map (leaf_value (cells s') ?g) hs = replicate (length hs) None"
      using leaf by (simp add: leaf_value_def map_replicate_const [symmetric])
    ultimately have "record_at (cells s') ?g hs = Inr (replicate (length hs) None)" by (simp add: record_at_Inr)
    then show ?thesis using group_update [OF assms(3) readable(1) assms(4), of "cells s'"] out assms(5) Some readable(2)
      by (simp add: entry_at_Some)
  qed
  moreover have "node_clean (cells s') ?stem fs gs"
    using assms(6) m' by (auto simp: sound_node_def node_clean_def domIff split: if_splits)
  moreover have "only_under ?stem (cells s) (cells s')" using out range_under(2) unfolding only_under_def by blast
  moreover have "keys_fit (site_columns site) keys" using *(1) by (simp add: node_stem_eq split: if_splits)
  moreover have "\<not> prefix (field_leaf_range ?g) (index_cell_key r i row)" for r i row
    using range_under(2) families_disjoint unfolding prefix_def by metis
  ultimately show thesis using that *(3,4) e out by blast
qed

end

end
