(* ===== verification/Session_Invariant.thy ===== *)
theory Session_Invariant
  imports Session_Refine
begin

text \<open>
  The session as a state machine: its steps are the successful mutations at the sites of its table,
  with typed values. The sites agree with the shapes of the store's nodes. Every step keeps the store sound, so a session that starts
  on a sound store never reads corruption, and each mutation is the update of one abstract entry.
\<close>

section \<open>Steps\<close>

definition site_shaped :: "shapes \<Rightarrow> AuthorizedSite \<Rightarrow> bool" where
  "site_shaped shape site \<longleftrightarrow>
     (let fs = fst (shape (site_family site)); gs = snd (shape (site_family site))
      in target_wf (AtEntry fs gs) \<and>
         (case as_target site of
            AtEntry hs ks \<Rightarrow> hs = fs \<and> ks = gs
          | AtField p \<Rightarrow> fp_record p = fs \<and> target_wf (AtField p)
          | AtGroup n hs \<Rightarrow> \<lparr>rg_number = n, rg_fields = hs\<rparr> \<in> set gs
          | AtIndex _ _ _ \<Rightarrow> True))"

inductive session_step :: "'s engine \<Rightarrow> IndexSchema list list \<Rightarrow> AuthorizedSite set \<Rightarrow> 's \<Rightarrow> 's \<Rightarrow> bool"
  for E indexes sites where
  create: "create_entry E indexes site keys entry (Some s) = (Inr out, Some s') \<Longrightarrow> site \<in> sites \<Longrightarrow>
     as_target site = AtEntry fs gs \<Longrightarrow> entry_typed fs gs entry \<Longrightarrow> session_step E indexes sites s s'"
| replace: "replace_entry E indexes site keys entry (Some s) = (Inr (), Some s') \<Longrightarrow> site \<in> sites \<Longrightarrow>
     as_target site = AtEntry fs gs \<Longrightarrow> entry_typed fs gs entry \<Longrightarrow> session_step E indexes sites s s'"
| erase: "erase_entry E indexes site keys (Some s) = (Inr gone, Some s') \<Longrightarrow> site \<in> sites \<Longrightarrow>
     as_target site = AtEntry fs gs \<Longrightarrow> session_step E indexes sites s s'"
| set_field: "set_field E indexes site keys v (Some s) = (Inr (), Some s') \<Longrightarrow> site \<in> sites \<Longrightarrow>
     as_target site = AtField p \<Longrightarrow> slot_typed (field_of p) (Some v) \<Longrightarrow> session_step E indexes sites s s'"
| erase_field: "erase_field E indexes site keys (Some s) = (Inr gone, Some s') \<Longrightarrow> site \<in> sites \<Longrightarrow>
     as_target site = AtField p \<Longrightarrow> session_step E indexes sites s s'"
| replace_group: "replace_group E site keys v (Some s) = (Inr (), Some s') \<Longrightarrow> site \<in> sites \<Longrightarrow>
     as_target site = AtGroup n hs \<Longrightarrow> list_all2 slot_typed hs (ev_fields v) \<Longrightarrow> session_step E indexes sites s s'"
| erase_group: "erase_group E site keys (Some s) = (Inr gone, Some s') \<Longrightarrow> site \<in> sites \<Longrightarrow>
     as_target site = AtGroup n hs \<Longrightarrow> session_step E indexes sites s s'"

lemma shaped_entry:
  "site_shaped shape site \<Longrightarrow> as_target site = AtEntry fs gs \<Longrightarrow> shape (site_family site) = (fs, gs) \<and> target_wf (AtEntry fs gs)"
  by (auto simp: site_shaped_def Let_def prod_eq_iff)

lemma shaped_field:
  "site_shaped shape site \<Longrightarrow> as_target site = AtField p \<Longrightarrow> fst (shape (site_family site)) = fp_record p \<and> target_wf (AtField p)"
  by (auto simp: site_shaped_def Let_def)

lemma shaped_group:
  assumes "site_shaped shape site" "as_target site = AtGroup n hs"
  obtains j fs gs where "shape (site_family site) = (fs, gs)" "j < length gs" "gs ! j = \<lparr>rg_number = n, rg_fields = hs\<rparr>"
    "target_wf (AtEntry fs gs)"
  using assms by (cases "shape (site_family site)") (auto simp: site_shaped_def in_set_conv_nth)

lemma sound_after:
  "sound_store shape m \<Longrightarrow> shape f = (fs, gs) \<Longrightarrow> only_under (marker_key f ks) m m' \<Longrightarrow>
     entry_at m' (marker_key f ks) fs gs = Inr e \<Longrightarrow> node_clean m' (marker_key f ks) fs gs \<Longrightarrow> sound_store shape m'"
  by (erule sound_store_update) (auto simp: sound_node_def)

lemma absent_clean: "entry_at m stem fs gs = Inr None \<Longrightarrow> node_clean m stem fs gs"
  by (auto simp: node_clean_def entry_at_None)

lemma sound_at: "sound_store shape m \<Longrightarrow> shape f = (fs, gs) \<Longrightarrow> sound_node m (marker_key f ks) fs gs"
  by (metis fst_conv snd_conv sound_store_def)

context lawful_engine
begin

lemma create_keeps_sound:
  assumes "create_entry E indexes site keys entry (Some s) = (Inr out, Some s')" "site_shaped shape site"
    "as_target site = AtEntry fs gs" "entry_typed fs gs entry" "ok s" "sound_store shape (cells s)"
  shows "ok s' \<and> sound_store shape (cells s')"
proof (cases out)
  case AlreadyPresent
  then show ?thesis using create_entry_present assms by blast
next
  case Created
  note shaped = shaped_entry [OF assms(2,3)]
  with create_entry_refines [OF assms(5,3) _ assms(4)] assms(1) Created show ?thesis
    using sound_after [OF assms(6)] by (metis option.inject)
qed

lemma replace_keeps_sound:
  assumes "replace_entry E indexes site keys entry (Some s) = (Inr (), Some s')" "site_shaped shape site"
    "as_target site = AtEntry fs gs" "entry_typed fs gs entry" "ok s" "sound_store shape (cells s)"
  shows "ok s' \<and> sound_store shape (cells s')"
proof -
  note shaped = shaped_entry [OF assms(2,3)]
  then have "node_clean (cells s) (marker_key (site_family site) keys) fs gs"
    using sound_at [OF assms(6)] by (simp add: sound_node_def)
  with replace_entry_refines [OF assms(5,3) _ assms(4) _ assms(1)] shaped show ?thesis
    using sound_after [OF assms(6)] by (metis option.inject)
qed

lemma erase_keeps_sound:
  assumes "erase_entry E indexes site keys (Some s) = (Inr gone, Some s')" "site_shaped shape site"
    "as_target site = AtEntry fs gs" "ok s" "sound_store shape (cells s)"
  shows "ok s' \<and> sound_store shape (cells s')"
proof -
  note shaped = shaped_entry [OF assms(2,3)]
  then have "node_clean (cells s) (marker_key (site_family site) keys) fs gs"
    using sound_at [OF assms(5)] by (simp add: sound_node_def)
  with erase_entry_refines [OF assms(4,3) _ assms(1)] show ?thesis
    using sound_after [OF assms(5)] shaped absent_clean by (metis option.inject)
qed

lemma set_field_keeps_sound:
  assumes "set_field E indexes site keys v (Some s) = (Inr (), Some s')" "site_shaped shape site"
    "as_target site = AtField p" "slot_typed (field_of p) (Some v)" "ok s" "sound_store shape (cells s)"
  shows "ok s' \<and> sound_store shape (cells s')"
proof -
  note shaped = shaped_field [OF assms(2,3)]
  obtain i where i: "index_of (\<lambda>f. rf_number f = fp_number p) (fp_record p) = Some i" using field_position shaped by blast
  from shaped have sh: "shape (site_family site) = (fp_record p, snd (shape (site_family site)))" by (metis prod.collapse)
  from set_field_refines [OF assms(5,3) _ assms(4) sound_at [OF assms(6) sh] assms(1) i] shaped show ?thesis
    using sound_after [OF assms(6) sh] by (metis option.inject)
qed

lemma erase_field_keeps_sound:
  assumes "erase_field E indexes site keys (Some s) = (Inr gone, Some s')" "site_shaped shape site"
    "as_target site = AtField p" "ok s" "sound_store shape (cells s)"
  shows "ok s' \<and> sound_store shape (cells s')"
proof -
  note shaped = shaped_field [OF assms(2,3)]
  obtain i where i: "index_of (\<lambda>f. rf_number f = fp_number p) (fp_record p) = Some i" using field_position shaped by blast
  from shaped have sh: "shape (site_family site) = (fp_record p, snd (shape (site_family site)))" by (metis prod.collapse)
  from erase_field_refines [OF assms(4,3) _ sound_at [OF assms(5) sh] assms(1) i] shaped show ?thesis
    using sound_after [OF assms(5) sh] by (metis option.inject)
qed

lemma replace_group_keeps_sound:
  assumes "replace_group E site keys v (Some s) = (Inr (), Some s')" "site_shaped shape site"
    "as_target site = AtGroup n hs" "list_all2 slot_typed hs (ev_fields v)" "ok s" "sound_store shape (cells s)"
  shows "ok s' \<and> sound_store shape (cells s')"
proof -
  from shaped_group [OF assms(2,3)] obtain j fs gs where
    j: "shape (site_family site) = (fs, gs)" "j < length gs" "gs ! j = \<lparr>rg_number = n, rg_fields = hs\<rparr>" "target_wf (AtEntry fs gs)" .
  from replace_group_refines [OF assms(5,3) j(4,2,3) assms(4) sound_at [OF assms(6) j(1)] assms(1)] show ?thesis
    using sound_after [OF assms(6) j(1)] by (metis option.inject)
qed

lemma erase_group_keeps_sound:
  assumes "erase_group E site keys (Some s) = (Inr gone, Some s')" "site_shaped shape site"
    "as_target site = AtGroup n hs" "ok s" "sound_store shape (cells s)"
  shows "ok s' \<and> sound_store shape (cells s')"
proof -
  from shaped_group [OF assms(2,3)] obtain j fs gs where
    j: "shape (site_family site) = (fs, gs)" "j < length gs" "gs ! j = \<lparr>rg_number = n, rg_fields = hs\<rparr>" "target_wf (AtEntry fs gs)" .
  from erase_group_refines [OF assms(4,3) j(4,2,3) sound_at [OF assms(5) j(1)] assms(1)] show ?thesis
    using sound_after [OF assms(5) j(1)] by (metis option.inject)
qed

lemmas keeps_sound = create_keeps_sound replace_keeps_sound erase_keeps_sound set_field_keeps_sound erase_field_keeps_sound
  replace_group_keeps_sound erase_group_keeps_sound

lemma step_keeps_sound:
  "session_step E indexes sites s s' \<Longrightarrow> \<forall>site \<in> sites. site_shaped shape site \<Longrightarrow> ok s \<Longrightarrow> sound_store shape (cells s) \<Longrightarrow>
     ok s' \<and> sound_store shape (cells s')"
  by (induction rule: session_step.induct; erule keeps_sound; (assumption | blast))

lemma steps_keep_sound:
  "(session_step E indexes sites)\<^sup>*\<^sup>* s t \<Longrightarrow> \<forall>site \<in> sites. site_shaped shape site \<Longrightarrow> ok s \<Longrightarrow> sound_store shape (cells s) \<Longrightarrow>
     ok t \<and> sound_store shape (cells t)"
  by (induction rule: rtranclp_induct) (auto dest: step_keeps_sound)

end

section \<open>Reads of the memory engine\<close>

lemma mem_read_entry:
  "txn_ok t \<Longrightarrow> as_target site = AtEntry fs gs \<Longrightarrow> target_wf (AtEntry fs gs) \<Longrightarrow>
     op_read_entry mem_txn t site keys = Some (rbind (node_stem site keys) (\<lambda>stem. entry_at (txn_cells t) stem fs gs))"
  using mem.op_read_entry_returns [of t site keys] by (simp add: returns_def node_shape_def)

text \<open>Every entry but the one named reads as before.\<close>

definition unchanged_elsewhere :: "MemTxn \<Rightarrow> MemTxn \<Rightarrow> AuthorizedSite \<Rightarrow> KeyScalar list \<Rightarrow> bool" where
  "unchanged_elsewhere t t' site keys \<longleftrightarrow>
     (\<forall>other ks. target_wf (as_target other) \<and> node_stem other ks \<noteq> node_stem site keys \<longrightarrow>
        op_read_entry mem_txn t' other ks = op_read_entry mem_txn t other ks)"

lemma unchanged_elsewhere_intro:
  assumes "txn_ok t" "txn_ok t'" "keys_fit (site_columns site) keys"
    "only_under (marker_key (site_family site) keys) (txn_cells t) (txn_cells t')"
  shows "unchanged_elsewhere t t' site keys"
  unfolding unchanged_elsewhere_def
proof (intro allI impI, elim conjE)
  fix other ks assume wf: "target_wf (as_target other)" and ne: "node_stem other ks \<noteq> node_stem site keys"
  show "op_read_entry mem_txn t' other ks = op_read_entry mem_txn t other ks"
  proof (cases "as_target other")
    case (AtEntry fs gs)
    have "marker_key (site_family other) ks \<noteq> marker_key (site_family site) keys" if "keys_fit (site_columns other) ks"
      using ne assms(3) that by (simp add: node_stem_eq)
    then show ?thesis using only_under_reads(1) [OF assms(4)] mem_read_entry [OF _ AtEntry] assms(1,2) wf AtEntry
      by (simp add: node_stem_eq)
  qed (cases "node_stem other ks"; simp add: op_read_entry_def node_shape_def)+
qed

end
