(* ===== verification/Session_Samples.thy ===== *)
theory Session_Samples
  imports Session_Invariant
begin

text \<open>
  When the memory engine's transactions succeed, and concrete sessions on a small store that the
  properties of the session are instantiated with.
\<close>

section \<open>Plans on the memory engine\<close>

lemma mem_put_ok:
  "length k \<le> MAX_KEY_LEN \<Longrightarrow> length v \<le> MAX_VALUE_LEN \<Longrightarrow>
     eng_put mem_txn k v t = (Inr (), t\<lparr>txn_working := btree_insert k v (txn_working t)\<rparr>)"
  by (simp add: mem_txn_def mem_put_def check_cell_limits_def)

lemma mem_get_ok: "eng_get mem_txn t k = Inr (map_of (txn_working t) k)"
  by (simp add: mem_txn_def mem_get_def)

text \<open>Plans within the cell limits, with their unique rows free, succeed on the memory engine.\<close>

fun write_fits :: "CellWrite \<Rightarrow> bool" where
  "write_fits (Put k v) = cell_within_limits k v"
| "write_fits (Remove k) = True"

fun op_fits :: "IndexOp \<Rightarrow> bool" where
  "op_fits (IoRemove k) = True"
| "op_fits (IoPut k v) = cell_within_limits k v"
| "op_fits (IoUniquePut k v) = cell_within_limits k v"

lemma mem_put_runs: "cell_within_limits k v \<Longrightarrow> \<exists>t'. txn_put mem_txn k v (Some t) = (Inr (), Some t')"
  by (simp add: txn_put_def mem_put_ok cell_within_limits_def)

lemma mem_remove_runs: "\<exists>t'. txn_remove mem_txn k (Some t) = (Inr (), Some t')"
  by (simp add: txn_remove_def mem_txn_def mem_remove_def)

lemma mem_put_cells: "txn_ok t \<Longrightarrow> txn_put mem_txn k v (Some t) = (Inr (), Some t') \<Longrightarrow> txn_ok t' \<and> txn_cells t' = (txn_cells t)(k \<mapsto> v)"
  using mem.put_law by (simp add: txn_put_Inr)

lemma mem_remove_cells: "txn_ok t \<Longrightarrow> txn_remove mem_txn k (Some t) = (Inr (), Some t') \<Longrightarrow> txn_ok t' \<and> txn_cells t' = (txn_cells t)(k := None)"
  using mem.remove_law by (simp add: txn_remove_Inr)

lemma mem_apply: "list_all write_fits ws \<Longrightarrow> \<exists>t'. apply_writes mem_txn ws (Some t) = (Inr (), Some t')"
proof (induction ws arbitrary: t)
  case (Cons w ws)
  then show ?case
  proof (cases w)
    case (Put k v)
    with Cons.prems obtain t1 where "txn_put mem_txn k v (Some t) = (Inr (), Some t1)" using mem_put_runs by fastforce
    then show ?thesis using Cons Put by (simp add: obey_def)
  next
    case (Remove k)
    obtain t1 where "txn_remove mem_txn k (Some t) = (Inr (), Some t1)" using mem_remove_runs by blast
    then show ?thesis using Cons Remove by (simp add: obey_def)
  qed
qed simp

lemma mem_apply_index:
  "txn_ok t \<Longrightarrow> list_all op_fits ops \<Longrightarrow> unique_free ops (txn_cells t) \<Longrightarrow> \<exists>t'. apply_index_ops mem_txn ops (Some t) = (Inr (), Some t')"
proof (induction ops arbitrary: t)
  case (Cons op ops)
  have read: "txn_read (\<lambda>s. read_raw mem_txn s k) (Some t) = (Inr (txn_cells t k), Some t)" for k
    by (simp add: txn_read_def read_raw_def mem_get_ok txn_cells_def)
  show ?case
  proof (cases op)
    case (IoRemove k)
    obtain t1 where "txn_remove mem_txn k (Some t) = (Inr (), Some t1)" using mem_remove_runs by blast
    then show ?thesis using Cons IoRemove mem_remove_cells by (simp add: obey_def)
  next
    case (IoPut k v)
    with Cons.prems obtain t1 where "txn_put mem_txn k v (Some t) = (Inr (), Some t1)" using mem_put_runs by fastforce
    then show ?thesis using Cons IoPut mem_put_cells by (simp add: obey_def)
  next
    case (IoUniquePut k v)
    with Cons.prems obtain t1 where "txn_put mem_txn k v (Some t) = (Inr (), Some t1)" using mem_put_runs by fastforce
    then show ?thesis using Cons IoUniquePut mem_put_cells read [of k] by (auto simp: obey_def)
  qed
qed simp

section \<open>A concrete session\<close>

text \<open>Flags keyed by a boolean, with one required boolean field indexed uniquely.\<close>

definition flag_field :: ResolvedField where
  "flag_field = \<lparr>rf_number = 1, rf_shape = scalar_shape SkBool, rf_required = True\<rparr>"

definition flag_shape :: shapes where
  "flag_shape f = (if f = 0 then ([flag_field], []) else ([], []))"

definition flag_entry_site :: AuthorizedSite where
  "flag_entry_site = \<lparr>as_root_number = 0, as_root_index = 0, as_columns = [SkBool], as_branch = [],
     as_target = AtEntry [flag_field] []\<rparr>"

definition flag_indexes :: "IndexSchema list list" where
  "flag_indexes = [[\<lparr>ix_id = replicate 16 7, ix_unique = True, ix_projection = [IcField 0]\<rparr>]]"

definition flag_entry :: "bool \<Rightarrow> EntryValue" where
  "flag_entry b = EntryValue [Some (VScalar (RBool b))] []"

definition no_cells :: MemTxn where
  "no_cells = \<lparr>txn_base = [], txn_working = []\<rparr>"

definition flag_cells :: "bool \<Rightarrow> bool \<Rightarrow> BTree" where
  "flag_cells k b =
     [(marker_key 0 [KBool k], MARKER_VALUE),
      (stem_field_leaf (marker_key 0 [KBool k]) 1, [if b then 49 else 48]),
      (index_cell_key 0 (replicate 16 7) [KBool b], index_cell_value [KBool k])]"

lemma flag_keys:
  "marker_key 0 [KBool k] < stem_field_leaf (marker_key 0 [KBool k]) n"
  "stem_field_leaf (marker_key 0 [KBool k]) n < index_cell_key 0 i [KBool b]"
  "marker_key 0 [KBool k] < index_cell_key 0 i [KBool b]"
  by (simp_all add: field_leaf_layout marker_key_layout index_cell_layout layout_tags encode_key_value_simp order_tag_def)

lemma flag_lengths:
  "length (marker_key 0 [KBool k]) \<le> MAX_KEY_LEN" "length (stem_field_leaf (marker_key 0 [KBool k]) n) \<le> MAX_KEY_LEN"
  "length (index_cell_key 0 (replicate 16 7) [KBool b]) \<le> MAX_KEY_LEN" "length (index_cell_value [KBool k]) \<le> MAX_VALUE_LEN"
  by (simp_all add: field_leaf_layout marker_key_layout index_cell_layout encode_key_value_simp index_cell_value_def MAX_KEY_LEN_def MAX_VALUE_LEN_def)

lemma flag_read: "txn_read (\<lambda>s. read_raw mem_txn s k) (Some t) = (Inr (txn_cells t k), Some t)"
  by (simp add: txn_read_def read_raw_def mem_get_ok txn_cells_def)

lemma flag_stem: "node_stem flag_entry_site [KBool k] = Inr (marker_key 0 [KBool k])"
  by (simp add: node_stem_eq keys_fit_def site_columns_def site_family_def flag_entry_site_def scalar_key_matches_type_def)

lemma flag_shape_of: "node_shape flag_entry_site = Inr ([flag_field], [])"
  by (simp add: node_shape_def flag_entry_site_def)

lemma flag_root:
  "maintains_root flag_indexes flag_entry_site = Inr True" "indexes_of flag_indexes flag_entry_site = Inr (flag_indexes ! 0)"
  "as_root_number flag_entry_site = 0"
  by (simp_all add: maintains_root_def indexes_of_def flag_indexes_def flag_entry_site_def)

lemma flag_writes:
  "node_write stem [flag_field] [] (flag_entry b) = Inr [Put stem MARKER_VALUE, Put (stem_field_leaf stem 1) [if b then 49 else 48]]"
  by (simp add: node_write_def flag_entry_def flag_field_def node_field_leaf_def encode_domain_def MAX_DURABLE_VALUE_BYTES_def)

lemma flag_created:
  "create_entry mem_txn flag_indexes flag_entry_site [KBool k] (flag_entry b) (Some no_cells)
     = (Inr Created, Some \<lparr>txn_base = [], txn_working = flag_cells k b\<rparr>)"
proof -
  let ?stem = "marker_key 0 [KBool k]"
  have probe: "probe_slot mem_txn no_cells ?stem = Inr Absent"
    by (simp add: probe_slot_def read_raw_def mem_txn_def mem_get_def no_cells_def mem_scan_after_def mem_collect_after_def
        range_after_def collect_after_def)
  have ops: "index_writes 0 (flag_indexes ! 0) [KBool k] None (Some (ev_fields (flag_entry b)))
      = Inr [IoUniquePut (index_cell_key 0 (replicate 16 7) [KBool b]) (index_cell_value [KBool k])]"
    by (simp add: flag_indexes_def project_row_def flag_entry_def row_ops_def as_key_def)
  have complete: "require_complete [flag_field] [] (flag_entry b) = Inr ()"
    by (simp add: require_complete_def require_record_complete_def flag_entry_def)
  have ne: "index_cell_key 0 i [KBool b] \<noteq> marker_key 0 [KBool k]" "index_cell_key 0 i [KBool b] \<noteq> stem_field_leaf (marker_key 0 [KBool k]) n" for i n
    using families_disjoint by (auto simp: field_leaf_layout)
  let ?t = "\<lparr>txn_base = [], txn_working = take 2 (flag_cells k b)\<rparr>"
  have small: "length MARKER_VALUE \<le> MAX_VALUE_LEN" "length [if b then 49 else 48 :: byte] \<le> MAX_VALUE_LEN"
    by (simp_all add: MARKER_VALUE_def MAX_VALUE_LEN_def)
  have order: "\<not> stem_field_leaf ?stem 1 < ?stem" "stem_field_leaf ?stem 1 \<noteq> ?stem" using flag_keys(1) [of k 1] by auto
  have index_order: "\<not> index_cell_key 0 i [KBool b] < ?stem" "\<not> index_cell_key 0 i [KBool b] < stem_field_leaf ?stem n" for i n
    using flag_keys(2,3) [of k] by (simp_all add: not_less less_imp_le)
  have applied: "apply_writes mem_txn [Put ?stem MARKER_VALUE, Put (stem_field_leaf ?stem 1) [if b then 49 else 48]] (Some no_cells)
      = (Inr (), Some ?t)"
    using flag_lengths small order
    by (simp add: obey_def txn_put_def mem_put_ok no_cells_def flag_cells_def del: One_nat_def)
  have maintained: "maintain_indexes mem_txn flag_indexes flag_entry_site [KBool k] None (Some (ev_fields (flag_entry b))) (Some ?t)
      = (Inr (), Some \<lparr>txn_base = [], txn_working = flag_cells k b\<rparr>)"
    using flag_lengths ne index_order
    by (simp add: maintain_indexes_def flag_root ops obey_def txn_read_def txn_put_def read_raw_def mem_put_ok mem_get_ok flag_cells_def)
  have read: "txn_read (\<lambda>s. probe_slot mem_txn s ?stem) (Some no_cells) = (Inr Absent, Some no_cells)"
    by (simp add: txn_read_def probe)
  show ?thesis
    by (simp only: create_entry_def flag_shape_of complete flag_stem flag_writes flag_root obey_of_kernel prod.case obey_def read applied
        maintained sum.case Presence.case if_True of_kernel_run)
qed
lemma flag_target: "as_target flag_entry_site = AtEntry [flag_field] []"
  by (simp add: flag_entry_site_def)

lemma flag_target_wf: "target_wf (AtEntry [flag_field] [])"
  by (simp add: record_wf_def)

lemma flag_family: "site_family flag_entry_site = 0"
  by (simp add: site_family_def flag_entry_site_def)

lemma flag_typed: "entry_typed [flag_field] [] (flag_entry b)"
  by (simp add: entry_typed_def flag_entry_def flag_field_def slot_typed_def scalar_shape_def)

lemma flag_shaped: "site_shaped flag_shape flag_entry_site"
  by (simp add: site_shaped_def flag_shape_def flag_entry_site_def site_family_def record_wf_def)

lemma no_cells_ok: "txn_ok no_cells" "txn_cells no_cells = Map.empty"
  by (simp_all add: txn_ok_def btree_ok_def no_cells_def txn_cells_def)

abbreviation flagged :: MemTxn where
  "flagged \<equiv> \<lparr>txn_base = [], txn_working = flag_cells True False\<rparr>"

lemma flagged_ok: "txn_ok flagged"
  using flag_keys [of True] by (simp add: txn_ok_def btree_ok_def flag_cells_def)

lemma flagged_cells:
  "txn_cells flagged (marker_key 0 [KBool True]) = Some MARKER_VALUE"
  "txn_cells flagged (stem_field_leaf (marker_key 0 [KBool True]) 1) = Some [48]"
  "txn_cells flagged (index_cell_key 0 (replicate 16 7) [KBool True]) = None"
  "txn_cells flagged (index_cell_key 0 (replicate 16 7) [KBool False]) = Some (index_cell_value [KBool True])"
  using flag_keys [of True] families_disjoint by (auto simp: txn_cells_def flag_cells_def index_cell_inject field_leaf_layout)

lemma flagged_clean: "node_clean (txn_cells flagged) (marker_key 0 [KBool True]) [flag_field] []"
  using families_disjoint by (auto simp: node_clean_def txn_cells_def flag_cells_def node_cells_def flag_field_def node_field_leaf_def
      prefix_def dom_map_of_conv_image_fst)

lemma flagged_sound: "sound_node (txn_cells flagged) (marker_key 0 [KBool True]) [flag_field] []"
  using mem.create_entry_refines [OF no_cells_ok(1) flag_target flag_target_wf flag_typed flag_created] flag_family
  by (metis option.inject sound_node_def)

lemma flag_old:
  "old_projected mem_txn flag_indexes flag_entry_site (marker_key 0 [KBool True]) [flag_field] True (Some flagged)
     = (Inr [Some (VScalar (RBool False))], Some flagged)"
proof -
  have "projected_positions_of (flag_indexes ! 0) = [0]"
    by (simp add: projected_positions_of_def flag_indexes_def List.map_filter_def)
  moreover have "decode_domain [48] (scalar_shape SkBool) = Some (VScalar (RBool False))"
    by (simp add: decode_domain_def scalar_shape_def)
  moreover have "read_raw mem_txn flagged (stem_field_leaf (marker_key 0 [KBool True]) 1) = Inr (Some [48])"
    using flagged_cells(2) by (simp add: read_raw_def mem_get_ok txn_cells_def)
  ultimately show ?thesis
    by (simp add: old_projected_def flag_root obey_def txn_read_def read_projected_def flag_field_def)
qed

lemma flag_plan_fits: "list_all write_fits (node_erase (marker_key 0 [KBool k]) [flag_field] [] @
    [Put (marker_key 0 [KBool k]) MARKER_VALUE, Put (stem_field_leaf (marker_key 0 [KBool k]) 1) [if b then 49 else 48]])"
  using flag_lengths by (simp add: node_erase_def list_all_iff cell_within_limits_def MARKER_VALUE_def MAX_VALUE_LEN_def)

lemma flag_replaced: "\<exists>t. replace_entry mem_txn flag_indexes flag_entry_site [KBool True] (flag_entry True) (Some flagged) = (Inr (), Some t)"
proof -
  let ?stem = "marker_key 0 [KBool True]"
  let ?ws = "node_erase ?stem [flag_field] [] @ [Put ?stem MARKER_VALUE, Put (stem_field_leaf ?stem 1) [if True then 49 else 48]]"
  let ?ops = "[IoRemove (index_cell_key 0 (replicate 16 7) [KBool False]),
      IoUniquePut (index_cell_key 0 (replicate 16 7) [KBool True]) (index_cell_value [KBool True])]"
  obtain t1 where t1: "apply_writes mem_txn ?ws (Some flagged) = (Inr (), Some t1)" using mem_apply [OF flag_plan_fits] by blast
  from mem.apply_writes_effect [OF flagged_ok t1] have ok: "txn_ok t1" and cells: "txn_cells t1 = plan_map ?ws (txn_cells flagged)" by auto
  have "txn_cells t1 (index_cell_key 0 (replicate 16 7) [KBool True]) = None"
    using flagged_cells(3) families_disjoint
    by (auto simp: cells node_erase_def node_cells_def plan_map_append plan_map_removes field_leaf_layout node_field_leaf_def)
  then obtain t2 where t2: "apply_index_ops mem_txn ?ops (Some t1) = (Inr (), Some t2)"
    using mem_apply_index [OF ok, of ?ops] flag_lengths by (auto simp: cell_within_limits_def)
  have ops: "index_writes 0 (flag_indexes ! 0) [KBool True] (Some [Some (VScalar (RBool False))]) (Some (ev_fields (flag_entry True))) = Inr ?ops"
    by (simp add: flag_indexes_def project_row_def flag_entry_def row_ops_def as_key_def)
  have complete: "require_complete [flag_field] [] (flag_entry True) = Inr ()"
    by (simp add: require_complete_def require_record_complete_def flag_entry_def)
  have "replace_entry mem_txn flag_indexes flag_entry_site [KBool True] (flag_entry True) (Some flagged) = (Inr (), Some t2)"
    by (simp only: replace_entry_def flag_shape_of complete flag_stem flag_writes flag_root maintain_indexes_def ops obey_of_kernel prod.case
        obey_def of_kernel_run flag_read flagged_cells flag_old t1 [unfolded if_True] t2 sum.case option.distinct if_True if_False)
  then show ?thesis by blast
qed

lemma flag_erased: "\<exists>t. erase_entry mem_txn flag_indexes flag_entry_site [KBool True] (Some flagged) = (Inr Erased, Some t)"
proof -
  let ?stem = "marker_key 0 [KBool True]"
  let ?ops = "[IoRemove (index_cell_key 0 (replicate 16 7) [KBool False])]"
  obtain t1 where t1: "apply_writes mem_txn (node_erase ?stem [flag_field] []) (Some flagged) = (Inr (), Some t1)"
    using mem_apply [of "node_erase ?stem [flag_field] []" flagged] by (auto simp: node_erase_def list_all_iff)
  from mem.apply_writes_effect [OF flagged_ok t1] have ok: "txn_ok t1" by auto
  obtain t2 where t2: "apply_index_ops mem_txn ?ops (Some t1) = (Inr (), Some t2)"
    using mem_apply_index [OF ok, of ?ops] by auto
  have ops: "index_writes 0 (flag_indexes ! 0) [KBool True] (Some [Some (VScalar (RBool False))]) None = Inr ?ops"
    by (simp add: flag_indexes_def project_row_def flag_entry_def row_ops_def as_key_def)
  have "erase_entry mem_txn flag_indexes flag_entry_site [KBool True] (Some flagged) = (Inr Erased, Some t2)"
    by (simp only: erase_entry_def flag_shape_of flag_stem flag_root maintain_indexes_def ops obey_of_kernel prod.case
        obey_def of_kernel_run flag_read flagged_cells flag_old t1 t2 sum.case option.distinct simp_thms if_True if_False)
  then show ?thesis by blast
qed

definition flag_payload :: FieldPayload where
  "flag_payload = \<lparr>fp_number = 1, fp_shape = scalar_shape SkBool, fp_required = True, fp_record = [flag_field]\<rparr>"

definition flag_field_site :: AuthorizedSite where
  "flag_field_site = flag_entry_site\<lparr>as_target := AtField flag_payload\<rparr>"

lemma flag_set: "\<exists>t. set_field mem_txn flag_indexes flag_field_site [KBool True] (VScalar (RBool True)) (Some flagged) = (Inr (), Some t)"
proof -
  let ?stem = "marker_key 0 [KBool True]"
  let ?ops = "[IoRemove (index_cell_key 0 (replicate 16 7) [KBool False]),
      IoUniquePut (index_cell_key 0 (replicate 16 7) [KBool True]) (index_cell_value [KBool True])]"
  let ?fm = "Some \<lparr>fm_indexes = flag_indexes ! 0, fm_old = [Some (VScalar (RBool False))], fm_position = 0\<rparr>"
  have enc: "encode_domain (VScalar (RBool True)) = Inr [49]" by (simp add: encode_domain_def MAX_DURABLE_VALUE_BYTES_def)
  have stem: "node_stem flag_field_site [KBool True] = Inr ?stem"
    using flag_stem [of True] by (simp add: node_stem_def flag_field_site_def)
  have target: "field_target flag_field_site = Inr (1, True)" by (simp add: field_target_def flag_field_site_def flag_payload_def)
  have before: "field_maintenance_before mem_txn flag_indexes flag_field_site ?stem (Some flagged) = (Inr ?fm, Some flagged)"
  proof -
    have "txn_read (\<lambda>s. read_projected mem_txn s ?stem [flag_field] (projected_positions_of (flag_indexes ! 0))) (Some flagged)
        = (Inr [Some (VScalar (RBool False))], Some flagged)"
      using flag_old by (simp add: old_projected_def flag_root)
    then show ?thesis
      by (simp add: field_maintenance_before_def flag_field_site_def maintains_root_def indexes_of_def flag_indexes_def flag_entry_site_def
          site_record_def field_index_in_record_def flag_payload_def flag_field_def indexes_projecting_def obey_def del: rbind_Inr_iff)
  qed
  have fits: "cell_within_limits (stem_field_leaf ?stem 1) [49]" using flag_lengths by (simp add: cell_within_limits_def MAX_VALUE_LEN_def)
  obtain t1 where t1: "txn_put mem_txn (stem_field_leaf ?stem 1) [49] (Some flagged) = (Inr (), Some t1)" using mem_put_runs [OF fits] by blast
  from mem_put_cells [OF flagged_ok t1] have ok: "txn_ok t1" "txn_cells t1 (index_cell_key 0 (replicate 16 7) [KBool True]) = None"
    using flagged_cells(3) families_disjoint by (auto simp: field_leaf_layout)
  then obtain t2 where t2: "apply_index_ops mem_txn ?ops (Some t1) = (Inr (), Some t2)"
    using mem_apply_index [OF ok(1), of ?ops] flag_lengths by (auto simp: cell_within_limits_def)
  have ops: "index_writes 0 (flag_indexes ! 0) [KBool True] (Some [Some (VScalar (RBool False))]) (Some [Some (VScalar (RBool True))]) = Inr ?ops"
    by (simp add: flag_indexes_def project_row_def row_ops_def as_key_def)
  have "maintain_field_write mem_txn flag_field_site [KBool True] ?fm (Some (VScalar (RBool True))) (Some t1) = (Inr (), Some t2)"
    using t2 ops by (simp add: maintain_field_write_def flag_field_site_def flag_entry_site_def)
  then have "set_field mem_txn flag_indexes flag_field_site [KBool True] (VScalar (RBool True)) (Some flagged) = (Inr (), Some t2)"
    using before t1 flagged_cells(1) flag_read target
    by (simp add: set_field_def stem enc obey_def)
  then show ?thesis by blast
qed

text \<open>An entry with one group of one optional field.\<close>

definition note_field :: ResolvedField where
  "note_field = \<lparr>rf_number = 3, rf_shape = scalar_shape SkBool, rf_required = False\<rparr>"

definition note_groups :: "ResolvedGroup list" where
  "note_groups = [\<lparr>rg_number = 2, rg_fields = [note_field]\<rparr>]"

definition note_site :: AuthorizedSite where
  "note_site = flag_entry_site\<lparr>as_target := AtGroup 2 [note_field]\<rparr>"

abbreviation noted :: MemTxn where
  "noted \<equiv> \<lparr>txn_base = [], txn_working = [(marker_key 0 [KBool True], MARKER_VALUE)]\<rparr>"

lemma noted_ok: "txn_ok noted"
  by (simp add: txn_ok_def btree_ok_def)

lemma noted_sound: "sound_node (txn_cells noted) (marker_key 0 [KBool True]) [] note_groups"
proof -
  have c: "txn_cells noted = [marker_key 0 [KBool True] \<mapsto> MARKER_VALUE]" by (simp add: txn_cells_def)
  have "record_clean (txn_cells noted) (group_stem (marker_key 0 [KBool True]) 2) [note_field]"
    by (auto simp: record_clean_def c leaf_ok_def note_field_def field_leaf_layout group_stem_layout field_leaf_range_def prefix_def)
  moreover have "record_clean (txn_cells noted) (marker_key 0 [KBool True]) []"
    by (auto simp: record_clean_def c field_leaf_range_def prefix_def)
  ultimately have "node_readable (txn_cells noted) (marker_key 0 [KBool True]) [] note_groups"
    by (simp add: node_readable_def c note_groups_def)
  then have "entry_at (txn_cells noted) (marker_key 0 [KBool True]) [] note_groups
      = Inr (Some (node_value (txn_cells noted) (marker_key 0 [KBool True]) [] note_groups))" by (simp add: entry_at_Some)
  then show ?thesis by (auto simp: sound_node_def node_clean_def c node_cells_def)
qed

lemma note_replaced:
  "\<exists>t. replace_group mem_txn note_site [KBool True] (EntryValue [Some (VScalar (RBool True))] []) (Some noted) = (Inr (), Some t)"
proof -
  let ?stem = "marker_key 0 [KBool True]"
  let ?g = "group_stem ?stem 2"
  let ?ws = "group_erase ?g [note_field] @ [Put (stem_field_leaf ?g 3) [49]]"
  have "list_all write_fits ?ws"
    by (simp add: group_erase_def group_cells_def cell_within_limits_def field_leaf_layout group_stem_layout marker_key_layout
        encode_key_value_simp MAX_KEY_LEN_def MAX_VALUE_LEN_def)
  then obtain t where t: "apply_writes mem_txn ?ws (Some noted) = (Inr (), Some t)" using mem_apply by blast
  have "group_target note_site = Inr (2, [note_field])" "node_stem note_site [KBool True] = Inr ?stem"
    using flag_stem [of True] by (simp_all add: group_target_def note_site_def node_stem_def)
  moreover have "group_write ?g [note_field] (EntryValue [Some (VScalar (RBool True))] []) = Inr [Put (stem_field_leaf ?g 3) [49]]"
    by (simp add: group_write_def encode_domain_def MAX_DURABLE_VALUE_BYTES_def note_field_def node_field_leaf_def)
  moreover have "require_record_complete [note_field] [Some (VScalar (RBool True))] = Inr ()"
    by (simp add: require_record_complete_def)
  moreover have "txn_cells noted ?stem = Some MARKER_VALUE" by (simp add: txn_cells_def)
  ultimately have "replace_group mem_txn note_site [KBool True] (EntryValue [Some (VScalar (RBool True))] []) (Some noted) = (Inr (), Some t)"
    using t flag_read [of ?stem noted] by (simp add: replace_group_def obey_def)
  then show ?thesis by blast
qed

end
