(* ===== verification/Index_Coherence.thy ===== *)
theory Index_Coherence
  imports Session_Invariant
begin

text \<open>
  Managed indexes stay coherent with the entries they index: the rows of an index are exactly the
  projections of the present entries of its root, each row holding the key of its one source entry.
\<close>

section \<open>One index as a map\<close>

text \<open>The change a write of one key makes to the rows of one index.\<close>

definition removed_row :: "KeyScalar list option \<Rightarrow> (KeyScalar list \<rightharpoonup> bytes) \<Rightarrow> (KeyScalar list \<rightharpoonup> bytes)" where
  "removed_row a C = (case a of None \<Rightarrow> C | Some x \<Rightarrow> C(x := None))"

definition row_update :: "bool \<Rightarrow> KeyScalar list \<Rightarrow> KeyScalar list option \<Rightarrow> KeyScalar list option \<Rightarrow>
    (KeyScalar list \<rightharpoonup> bytes) \<Rightarrow> (KeyScalar list \<rightharpoonup> bytes) \<Rightarrow> bool" where
  "row_update uniq keys a b C C' \<longleftrightarrow>
     (if a = b then C' = C
      else case b of
             None \<Rightarrow> C' = removed_row a C
           | Some y \<Rightarrow> C' = (removed_row a C)(y \<mapsto> index_cell_value keys)
               \<and> (uniq \<longrightarrow> removed_row a C y = None \<or> removed_row a C y = Some (index_cell_value keys)))"

text \<open>Rows and sources correspond: a row is present exactly when some key projects to it, and it holds that key.\<close>

definition rows_match :: "(KeyScalar list \<rightharpoonup> bytes) \<Rightarrow> (KeyScalar list \<Rightarrow> KeyScalar list option) \<Rightarrow> bool" where
  "rows_match C P \<longleftrightarrow> (\<forall>row v. C row = Some v \<longleftrightarrow> (\<exists>ks. v = index_cell_value ks \<and> P ks = Some row))"

lemma index_cell_value_inject [simp]: "index_cell_value ks = index_cell_value ls \<longleftrightarrow> ks = ls"
  using tuple_terminated_inject [of ks "[]" ls "[]"] by (auto simp: index_cell_value_def)

lemma rows_match_inj: "rows_match C P \<Longrightarrow> P ks = Some row \<Longrightarrow> P ls = Some row \<Longrightarrow> ks = ls"
  unfolding rows_match_def by (metis index_cell_value_inject option.inject)

lemma rows_match_row: "rows_match C P \<Longrightarrow> P ks = Some row \<Longrightarrow> C row = Some (index_cell_value ks)"
  unfolding rows_match_def by blast

lemma rows_match_none: "rows_match C P \<Longrightarrow> C row = None \<longleftrightarrow> (\<forall>ks. P ks \<noteq> Some row)"
  unfolding rows_match_def by (metis not_Some_eq)

lemma removed_row_match:
  assumes "rows_match C P"
  shows "rows_match (removed_row (P keys) C) (P(keys := None))"
proof (cases "P keys")
  case None
  then have "P(keys := None) = P" by auto
  then show ?thesis using assms None by (simp add: removed_row_def)
next
  case (Some x)
  have "(C(x := None)) row = Some v \<longleftrightarrow> (\<exists>ks. v = index_cell_value ks \<and> (P(keys := None)) ks = Some row)" for row v
  proof (cases "row = x")
    case True
    then show ?thesis using rows_match_inj [OF assms Some] by auto
  next
    case False
    then have "C row = Some v \<longleftrightarrow> (\<exists>ks. v = index_cell_value ks \<and> P ks = Some row \<and> ks \<noteq> keys)"
      using assms Some unfolding rows_match_def by auto
    then show ?thesis using False by auto
  qed
  then show ?thesis by (simp add: rows_match_def removed_row_def Some)
qed

lemma added_row_match:
  assumes "rows_match C P" "P keys = None" "\<And>ks. P ks \<noteq> Some y"
  shows "rows_match (C(y \<mapsto> index_cell_value keys)) (P(keys \<mapsto> y))"
  using assms unfolding rows_match_def by (auto split: if_splits) (metis option.distinct(1))

lemma row_update_match:
  assumes "rows_match C P" "row_update uniq keys (P keys) b C C'"
    "\<And>ks y. \<not> uniq \<Longrightarrow> b = Some y \<Longrightarrow> P ks = Some y \<Longrightarrow> ks = keys"
  shows "rows_match C' (P(keys := b))"
proof (cases "P keys = b")
  case True
  then have "P(keys := b) = P" by auto
  then show ?thesis using assms(1,2) True by (simp add: row_update_def)
next
  case False
  note removed = removed_row_match [OF assms(1), of keys]
  show ?thesis
  proof (cases b)
    case None
    then show ?thesis using assms(2) False removed by (auto simp: row_update_def)
  next
    case (Some y)
    have "(P(keys := None)) ks \<noteq> Some y" for ks
    proof
      assume k: "(P(keys := None)) ks = Some y"
      then have "ks \<noteq> keys" "P ks = Some y" by (auto split: if_splits)
      moreover have "removed_row (P keys) C y = Some (index_cell_value ks)" using rows_match_row [OF removed k] .
      ultimately show False using assms(2,3) False Some by (cases uniq) (auto simp: row_update_def)
    qed
    then have "rows_match ((removed_row (P keys) C)(y \<mapsto> index_cell_value keys)) ((P(keys := None))(keys \<mapsto> y))"
      by (intro added_row_match [OF removed]) simp_all
    then show ?thesis using assms(2) False Some by (simp add: row_update_def)
  qed
qed

section \<open>Index operations on the rows of an index\<close>

definition index_rows :: "(bytes \<rightharpoonup> bytes) \<Rightarrow> NodeNumber \<Rightarrow> IndexSchema \<Rightarrow> (KeyScalar list \<rightharpoonup> bytes)" where
  "index_rows m root ix row = m (index_cell_key root (ix_id ix) row)"

lemma unique_free_append: "unique_free (as @ bs) m \<longleftrightarrow> unique_free as m \<and> unique_free bs (index_map as m)"
  by (induction as arbitrary: m) auto

lemma index_map_append: "index_map (as @ bs) m = index_map bs (index_map as m)"
  by (simp add: index_map_def)

lemma row_ops_update:
  assumes "length (ix_id ix) = 16" "unique_free (row_ops root ix keys a b) m"
  shows "row_update (ix_unique ix) keys a b (index_rows m root ix) (index_rows (index_map (row_ops root ix keys a b) m) root ix)"
proof -
  have upd: "index_rows (m(index_cell_key root (ix_id ix) x := w)) root ix = (index_rows m root ix)(x := w)" for m x w
    by (auto simp: index_rows_def fun_eq_iff index_cell_inject [OF assms(1) assms(1)])
  show ?thesis
  proof (cases "a = b")
    case True
    then show ?thesis by (simp add: row_update_def row_ops_def)
  next
    case False
    then show ?thesis using assms(2)
      by (cases a; cases b) (auto simp: row_update_def row_ops_def Let_def removed_row_def upd index_rows_def
          index_cell_inject [OF assms(1) assms(1)] split: if_splits)
  qed
qed

lemma index_effect_rows:
  assumes "index_writes root ixs keys old new = Inr ops" "unique_free ops m" "distinct (map ix_id ixs)"
    "\<forall>ix \<in> set ixs. length (ix_id ix) = 16" "ix \<in> set ixs"
  shows "\<exists>a b. project_row ix keys old = Inr a \<and> project_row ix keys new = Inr b
     \<and> row_update (ix_unique ix) keys a b (index_rows m root ix) (index_rows (index_map ops m) root ix)"
  using assms
proof (induction ixs arbitrary: ops m)
  case (Cons i ixs)
  from Cons.prems(1) obtain a b rest where *: "project_row i keys old = Inr a" "project_row i keys new = Inr b"
    "index_writes root ixs keys old new = Inr rest" "ops = row_ops root i keys a b @ rest"
    by auto
  let ?m = "index_map (row_ops root i keys a b) m"
  have free: "unique_free (row_ops root i keys a b) m" "unique_free rest ?m"
    using Cons.prems(2) *(4) by (simp_all add: unique_free_append)
  show ?case
  proof (cases "ix = i")
    case True
    have "index_rows (index_map rest ?m) root i = index_rows ?m root i"
    proof
      fix row
      have "index_cell_key root (ix_id i) row \<notin> op_key ` set rest"
        using index_writes_keys [OF *(3)] Cons.prems(3,4) by (fastforce simp: index_cell_inject)
      then show "index_rows (index_map rest ?m) root i row = index_rows ?m root i row"
        by (simp add: index_rows_def index_map_frame)
    qed
    then show ?thesis using True *(1,2,4) row_ops_update [OF _ free(1)] Cons.prems(4) by (simp add: index_map_append)
  next
    case False
    with Cons.prems(3,5) have ne: "ix_id ix \<noteq> ix_id i" by (metis distinct.simps(2) image_eqI list.set_map list.simps(9) set_ConsD)
    have "index_rows ?m root ix = index_rows m root ix"
    proof
      fix row
      have "index_cell_key root (ix_id ix) row \<notin> op_key ` set (row_ops root i keys a b)"
        using row_ops_keys [of _ root i keys a b] ne Cons.prems(4,5) by (fastforce simp: index_cell_inject)
      then show "index_rows ?m root ix row = index_rows m root ix row" by (simp add: index_rows_def index_map_frame)
    qed
    with Cons.IH [OF *(3) free(2)] Cons.prems(3,4,5) False *(4) show ?thesis by (simp add: index_map_append)
  qed
qed simp

section \<open>Projections\<close>

text \<open>A slot past the end of the payload counts as absent.\<close>

definition slot :: "ValueDomain option list \<Rightarrow> nat \<Rightarrow> ValueDomain option" where
  "slot vs i = (if i < length vs then vs ! i else None)"

lemma project_components_cong:
  "(\<And>c i. c \<in> set cs \<Longrightarrow> projected_field c = Some i \<Longrightarrow> slot vs i = slot ws i) \<Longrightarrow>
     project_components cs keys vs = project_components cs keys ws"
proof (induction cs)
  case (Cons c cs)
  have IH: "project_components cs keys vs = project_components cs keys ws" using Cons by auto
  show ?case
  proof (cases c)
    case (IcField f)
    then have eq: "(if unat f < length vs then vs ! unat f else None) = (if unat f < length ws then ws ! unat f else None)"
      using Cons.prems [of c "unat f"] by (simp add: slot_def)
    show ?thesis unfolding IcField project_components.simps IH eq ..
  qed (simp add: IH)
qed simp

lemma project_components_keys:
  "project_components cs keys vs = Inr (Some row) \<Longrightarrow>
     list_all2 (\<lambda>c k. \<forall>i. c = IcKey i \<longrightarrow> unat i < length keys \<and> k = keys ! unat i) cs row"
proof (induction cs keys vs arbitrary: row rule: project_components.induct)
  case (2 column cs keys vs)
  then show ?case by (auto split: if_splits)
next
  case (3 f cs keys vs)
  then show ?case by (auto split: if_splits option.splits ValueDomain.splits sum.splits)
qed simp

text \<open>An index whose projection names every key column determines the source key from a row.\<close>

definition names_keys :: "nat \<Rightarrow> IndexSchema \<Rightarrow> bool" where
  "names_keys n ix \<longleftrightarrow> (\<forall>c < n. \<exists>i. IcKey i \<in> set (ix_projection ix) \<and> unat i = c)"

lemma names_keys_inj:
  assumes "names_keys n ix" "length ks = n" "length ls = n"
    "project_row ix ks vs = Inr (Some row)" "project_row ix ls ws = Inr (Some row)"
  shows "ks = ls"
proof (rule nth_equalityI)
  show "length ks = length ls" using assms(2,3) by simp
  fix c assume "c < length ks"
  with assms(1,2) obtain i where i: "IcKey i \<in> set (ix_projection ix)" "unat i = c" by (auto simp: names_keys_def)
  from assms(4,5) obtain v w where "project_components (ix_projection ix) ks v = Inr (Some row)"
    "project_components (ix_projection ix) ls w = Inr (Some row)"
    by (auto simp: project_row_def split: option.splits)
  note cols = project_components_keys [OF this(1)] project_components_keys [OF this(2)]
  from i obtain j where j: "j < length (ix_projection ix)" "ix_projection ix ! j = IcKey i" by (auto simp: in_set_conv_nth)
  from list_all2_nthD [OF cols(1) j(1)] list_all2_nthD [OF cols(2) j(1)] j(2) i(2) show "ks ! c = ls ! c" by simp
qed

section \<open>The stored projection of an entry\<close>

definition read_slots :: "(bytes \<rightharpoonup> bytes) \<Rightarrow> bytes \<Rightarrow> ResolvedField list \<Rightarrow> ValueDomain option list" where
  "read_slots m stem fs = map (leaf_value m stem) fs"

context lawful_engine
begin

lemma read_positions_Inr:
  "ok s \<Longrightarrow> read_positions E s stem fs positions acc = Inr out \<Longrightarrow> length acc = length fs \<Longrightarrow>
     length out = length fs
     \<and> (\<forall>i < length fs. out ! i = (if i \<in> set positions \<and> leaf_value (cells s) stem (fs ! i) \<noteq> None
                                  then leaf_value (cells s) stem (fs ! i) else acc ! i))"
proof (induction positions arbitrary: acc)
  case (Cons p positions)
  from Cons.prems(2) obtain v where v: "p < length fs" "read_raw E s (stem_field_leaf stem (rf_number (fs ! p))) = Inr v"
    by auto
  have val: "v = cells s (stem_field_leaf stem (rf_number (fs ! p)))" using read_raw_Inr [OF Cons.prems(1) v(2)] .
  show ?case
  proof (cases v)
    case None
    then have "leaf_value (cells s) stem (fs ! p) = None" using val by (simp add: leaf_value_def)
    then show ?thesis using Cons.IH [of acc] Cons.prems v None by auto
  next
    case (Some bs)
    with Cons.prems(2) v obtain x where x: "decode_domain bs (rf_shape (fs ! p)) = Some x"
      "read_positions E s stem fs positions (acc[p := Some x]) = Inr out"
      by auto
    then have "leaf_value (cells s) stem (fs ! p) = Some x" using val [symmetric] Some by (simp add: leaf_value_def)
    then show ?thesis using Cons.IH [OF Cons.prems(1) x(2)] Cons.prems(3) v(1) by (auto simp: nth_list_update)
  qed
qed auto

lemma read_projected_slots:
  assumes "ok s" "read_projected E s stem fs positions = Inr old"
  shows "length old = length fs" "i \<in> set positions \<Longrightarrow> slot old i = slot (read_slots (cells s) stem fs) i"
proof -
  note r = read_positions_Inr [OF assms(1) assms(2) [unfolded read_projected_def]]
  then show "length old = length fs" by simp
  show "i \<in> set positions \<Longrightarrow> slot old i = slot (read_slots (cells s) stem fs) i"
    using r by (auto simp: slot_def read_slots_def)
qed

end

section \<open>Coherence\<close>

definition entry_row :: "(bytes \<rightharpoonup> bytes) \<Rightarrow> NodeNumber \<Rightarrow> ScalarKind list \<Rightarrow> ResolvedField list \<Rightarrow> IndexSchema \<Rightarrow>
    KeyScalar list \<Rightarrow> KeyScalar list option" where
  "entry_row m root cols fs ix ks =
     (if keys_fit cols ks \<and> m (marker_key root ks) \<noteq> None
      then (case project_row ix ks (Some (read_slots m (marker_key root ks) fs)) of Inr row \<Rightarrow> row | Inl _ \<Rightarrow> None)
      else None)"

definition coherent :: "(bytes \<rightharpoonup> bytes) \<Rightarrow> NodeNumber \<Rightarrow> ScalarKind list \<Rightarrow> ResolvedField list \<Rightarrow> IndexSchema list \<Rightarrow> bool" where
  "coherent m root cols fs ixs \<longleftrightarrow> (\<forall>ix \<in> set ixs. rows_match (index_rows m root ix) (entry_row m root cols fs ix))"

text \<open>What the schema and the image verifier establish of the indexes of a root.\<close>

definition indexes_wf :: "ScalarKind list \<Rightarrow> IndexSchema list \<Rightarrow> bool" where
  "indexes_wf cols ixs \<longleftrightarrow>
     distinct (map ix_id ixs) \<and> (\<forall>ix \<in> set ixs. length (ix_id ix) = 16 \<and> (ix_unique ix \<or> names_keys (length cols) ix))"

lemma entry_row_names:
  assumes "names_keys (length cols) ix" "keys_fit cols ls" "project_row ix ls vs = Inr (Some row)"
    "entry_row m root cols fs ix ks = Some row"
  shows "ks = ls"
proof -
  have "project_row ix ks (Some (read_slots m (marker_key root ks) fs)) = Inr (Some row)" "keys_fit cols ks"
    using assms(4) by (auto simp: entry_row_def split: if_splits sum.splits)
  then show ?thesis using names_keys_inj [OF assms(1) _ _ _ assms(3)] assms(2) by (auto simp: keys_fit_def dest: list_all2_lengthD)
qed

lemma entry_row_cong:
  assumes "\<And>k. prefix (marker_key root ks) k \<Longrightarrow> m' k = m k"
  shows "entry_row m' root cols fs ix ks = entry_row m root cols fs ix ks"
proof -
  have "m' (marker_key root ks) = m (marker_key root ks)" using assms by simp
  moreover have "m' (stem_field_leaf (marker_key root ks) n) = m (stem_field_leaf (marker_key root ks) n)" for n
    using assms field_leaf_under by blast
  then have "read_slots m' (marker_key root ks) fs = read_slots m (marker_key root ks) fs"
    by (simp add: read_slots_def leaf_value_def)
  ultimately show ?thesis unfolding entry_row_def by (simp only:)
qed

lemma only_under_other:
  assumes "only_under (marker_key f ks) m m'" "marker_key g ls \<noteq> marker_key f ks" "prefix (marker_key g ls) k"
  shows "m' k = m k"
proof -
  from assms(3) obtain t where k: "k = marker_key g ls @ t" by (rule prefixE)
  have "\<not> prefix (marker_key f ks) k" using stems_apart assms(2,3) by blast
  then show ?thesis using assms(1) by (simp add: only_under_def k)
qed

lemma coherent_update:
  assumes "coherent m root cols fs ixs" "indexes_wf cols ixs" "keys_fit cols keys"
    "only_under (marker_key root keys) m m'"
    "\<forall>r i row. m1 (index_cell_key r i row) = m (index_cell_key r i row)"
    "index_effect root js keys old new m1 m'" "set js \<subseteq> set ixs" "distinct (map ix_id js)"
    "\<And>ix a. ix \<in> set js \<Longrightarrow> project_row ix keys old = Inr a \<Longrightarrow> a = entry_row m root cols fs ix keys"
    "\<And>ix b. ix \<in> set js \<Longrightarrow> project_row ix keys new = Inr b \<Longrightarrow> b = entry_row m' root cols fs ix keys"
    "\<And>ix. ix \<in> set ixs - set js \<Longrightarrow> entry_row m' root cols fs ix keys = entry_row m root cols fs ix keys"
  shows "coherent m' root cols fs ixs"
  unfolding coherent_def
proof
  fix ix assume ix: "ix \<in> set ixs"
  let ?P = "entry_row m root cols fs ix" and ?P' = "entry_row m' root cols fs ix"
  have match: "rows_match (index_rows m root ix) ?P" using assms(1) ix by (simp add: coherent_def)
  have "?P' ks = ?P ks" if "ks \<noteq> keys" for ks
    by (rule entry_row_cong, rule only_under_other [OF assms(4), of root ks]) (use that in auto)
  then have upd: "?P' = ?P(keys := ?P' keys)" by auto
  have rows: "index_rows m1 root ix = index_rows m root ix" using assms(5) by (simp add: index_rows_def fun_eq_iff)
  show "rows_match (index_rows m' root ix) ?P'"
  proof (cases "ix \<in> set js")
    case True
    obtain ops where ops: "index_writes root js keys old new = Inr ops" "unique_free ops m1" "m' = index_map ops m1"
      using assms(6) by (auto simp: index_effect_def)
    have "\<forall>ix \<in> set js. length (ix_id ix) = 16" using assms(2,7) by (auto simp: indexes_wf_def)
    from index_effect_rows [OF ops(1,2) assms(8) this True] obtain a b where
      ab: "project_row ix keys old = Inr a" "project_row ix keys new = Inr b"
        "row_update (ix_unique ix) keys a b (index_rows m root ix) (index_rows m' root ix)"
      using rows ops(3) by auto
    have "rows_match (index_rows m' root ix) (?P(keys := b))"
    proof (rule row_update_match [OF match])
      show "row_update (ix_unique ix) keys (?P keys) b (index_rows m root ix) (index_rows m' root ix)"
        using ab assms(9) [OF True ab(1)] by simp
      fix ks y assume "\<not> ix_unique ix" "b = Some y" "?P ks = Some y"
      then show "ks = keys" using entry_row_names [OF _ assms(3)] ab(2) assms(2) ix by (auto simp: indexes_wf_def)
    qed
    then show ?thesis using upd assms(10) [OF True ab(2)] by simp
  next
    case False
    then have "?P' = ?P" using upd assms(11) ix by (metis DiffI fun_upd_triv)
    moreover have "index_rows m' root ix = index_rows m root ix"
    proof
      fix row
      have "m' (index_cell_key root (ix_id ix) row) = m1 (index_cell_key root (ix_id ix) row)"
      proof (rule index_effect_frame [OF assms(6)])
        fix j r assume j: "j \<in> set js"
        then have "ix_id ix \<noteq> ix_id j" using False ix assms(2,7) by (metis (full_types) distinct_map indexes_wf_def inj_on_eq_iff subsetD)
        then show "index_cell_key root (ix_id ix) row \<noteq> index_cell_key root (ix_id j) r"
          using ix j assms(2,7) by (auto simp: indexes_wf_def index_cell_inject)
      qed
      then show "index_rows m' root ix row = index_rows m root ix row" using rows by (simp add: index_rows_def fun_eq_iff)
    qed
    ultimately show ?thesis using match by simp
  qed
qed

section \<open>Mutations keep the indexes of a root coherent\<close>

text \<open>
  The sites of a session relative to one root: a site on the root's own entries maintains all its
  indexes and has its key columns; a site on any other node never maintains an index of this root.
\<close>

record root_info =
  ri_root :: NodeNumber
  ri_columns :: "ScalarKind list"
  ri_fields :: "ResolvedField list"
  ri_indexes :: "IndexSchema list"

definition root_coherent :: "root_info \<Rightarrow> (bytes \<rightharpoonup> bytes) \<Rightarrow> bool" where
  "root_coherent R m \<longleftrightarrow> coherent m (ri_root R) (ri_columns R) (ri_fields R) (ri_indexes R)"

definition rooted :: "root_info \<Rightarrow> IndexSchema list list \<Rightarrow> AuthorizedSite \<Rightarrow> bool" where
  "rooted R indexes site \<longleftrightarrow>
     (if site_family site = ri_root R
      then as_root_number site = ri_root R \<and> maintained indexes site = ri_indexes R \<and> site_columns site = ri_columns R
      else maintained indexes site \<noteq> [] \<longrightarrow> as_root_number site \<noteq> ri_root R)"

lemma projected_positions:
  "i \<in> set (projected_positions_of ixs) \<longleftrightarrow> (\<exists>ix \<in> set ixs. \<exists>c \<in> set (ix_projection ix). projected_field c = Some i)"
  by (force simp: projected_positions_of_def List.map_filter_def)

lemma project_read:
  assumes "ix \<in> set ixs" "\<And>i. i \<in> set (projected_positions_of ixs) \<Longrightarrow> slot vs i = slot ws i"
  shows "project_row ix keys (Some vs) = project_row ix keys (Some ws)"
  unfolding project_row_def option.case
  by (rule project_components_cong) (use assms projected_positions in blast)

lemma project_absent:
  "c \<in> set cs \<Longrightarrow> projected_field c = Some i \<Longrightarrow> slot vs i = None \<Longrightarrow> project_components cs keys vs = Inr a \<Longrightarrow> a = None"
proof (induction cs keys vs arbitrary: a rule: project_components.induct)
  case (2 column cs keys vs)
  then show ?case by (auto split: if_splits)
next
  case (3 f cs keys vs)
  show ?case
  proof (cases "slot vs (unat f)")
    case None
    then show ?thesis using "3.prems" by (auto simp: slot_def split: if_splits option.splits)
  next
    case (Some x)
    with "3.prems" have "c \<in> set cs" by auto
    with 3 Some show ?thesis by (auto simp: slot_def split: if_splits option.splits ValueDomain.splits sum.splits)
  qed
qed simp

text \<open>A change elsewhere: no entry of the root and no row of its indexes is touched.\<close>

lemma coherent_elsewhere:
  assumes "root_coherent R m" "f \<noteq> ri_root R" "only_under (marker_key f ks) m m'"
    "\<And>i row. m' (index_cell_key (ri_root R) i row) = m (index_cell_key (ri_root R) i row)"
  shows "root_coherent R m'"
proof -
  have "entry_row m' (ri_root R) (ri_columns R) (ri_fields R) ix = entry_row m (ri_root R) (ri_columns R) (ri_fields R) ix" for ix
  proof
    fix ls
    show "entry_row m' (ri_root R) (ri_columns R) (ri_fields R) ix ls = entry_row m (ri_root R) (ri_columns R) (ri_fields R) ix ls"
      by (rule entry_row_cong, rule only_under_other [OF assms(3), of "ri_root R" ls]) (use assms(2) in auto)
  qed
  moreover have "index_rows m' (ri_root R) ix = index_rows m (ri_root R) ix" for ix
    using assms(4) by (simp add: index_rows_def fun_eq_iff)
  ultimately show ?thesis using assms(1) by (simp add: root_coherent_def coherent_def)
qed

lemma other_root_rows:
  assumes "index_effect r js keys old new m1 m'" "js = [] \<or> r \<noteq> root"
    "\<forall>r i row. m1 (index_cell_key r i row) = m (index_cell_key r i row)"
  shows "m' (index_cell_key root i row) = m (index_cell_key root i row)"
proof -
  have "m' (index_cell_key root i row) = m1 (index_cell_key root i row)"
    by (rule index_effect_frame [OF assms(1)]) (use assms(2) in \<open>auto simp: index_cell_layout\<close>)
  then show ?thesis using assms(3) by simp
qed

lemma entry_row_present:
  assumes "entry_at m (marker_key root ks) fs gs = Inr (Some e)" "keys_fit cols ks" "project_row ix ks (Some (ev_fields e)) = Inr b"
  shows "b = entry_row m root cols fs ix ks"
  using assms by (auto simp: entry_at_Some entry_row_def node_readable_def node_value_def read_slots_def)

lemma entry_row_absent: "m (marker_key root ks) = None \<Longrightarrow> entry_row m root cols fs ix ks = None"
  by (simp add: entry_row_def)

lemma entry_slots: "entry_at m stem fs gs = Inr (Some e) \<Longrightarrow> read_slots m stem fs = ev_fields e"
  by (auto simp: entry_at_Some node_value_def read_slots_def)

lemma maintenance_keeps_coherent:
  assumes "root_coherent R m" "indexes_wf (ri_columns R) (ri_indexes R)" "rooted R indexes site"
    "keys_fit (site_columns site) keys" "only_under (marker_key (site_family site) keys) m m'"
    "\<forall>r i row. m1 (index_cell_key r i row) = m (index_cell_key r i row)"
    "index_effect (as_root_number site) (filter Q (maintained indexes site)) keys old new m1 m'"
    "\<And>ix a. site_family site = ri_root R \<Longrightarrow> ix \<in> set (maintained indexes site) \<Longrightarrow> Q ix \<Longrightarrow> project_row ix keys old = Inr a \<Longrightarrow>
       a = entry_row m (ri_root R) (ri_columns R) (ri_fields R) ix keys"
    "\<And>ix b. site_family site = ri_root R \<Longrightarrow> ix \<in> set (maintained indexes site) \<Longrightarrow> Q ix \<Longrightarrow> project_row ix keys new = Inr b \<Longrightarrow>
       b = entry_row m' (ri_root R) (ri_columns R) (ri_fields R) ix keys"
    "\<And>ix. site_family site = ri_root R \<Longrightarrow> ix \<in> set (maintained indexes site) \<Longrightarrow> \<not> Q ix \<Longrightarrow>
       entry_row m' (ri_root R) (ri_columns R) (ri_fields R) ix keys = entry_row m (ri_root R) (ri_columns R) (ri_fields R) ix keys"
  shows "root_coherent R m'"
proof (cases "site_family site = ri_root R")
  case True
  then have site: "as_root_number site = ri_root R" "maintained indexes site = ri_indexes R" "site_columns site = ri_columns R"
    using assms(3) by (simp_all add: rooted_def)
  have "distinct (map ix_id (filter Q (ri_indexes R)))" using assms(2) by (simp add: indexes_wf_def distinct_map_filter)
  note wf = this
  show ?thesis unfolding root_coherent_def
  proof (rule coherent_update [OF assms(1) [unfolded root_coherent_def] assms(2) _ _ assms(6) assms(7) [unfolded site] _ wf])
    show "keys_fit (ri_columns R) keys" using assms(4) site by simp
    show "only_under (marker_key (ri_root R) keys) m m'" using assms(5) True by simp
  qed (use assms(8-10) [OF True] site in auto)
next
  case False
  then have "filter Q (maintained indexes site) = [] \<or> as_root_number site \<noteq> ri_root R" using assms(3) by (auto simp: rooted_def)
  from other_root_rows [OF assms(7) this assms(6)] show ?thesis using coherent_elsewhere [OF assms(1) False assms(5)] by blast
qed

context lawful_engine
begin

lemma projected_before:
  assumes "ok s" "ix \<in> set js" "js \<noteq> [] \<longrightarrow> read_projected E s stem fs (projected_positions_of js) = Inr old"
  shows "project_row ix keys (Some old) = project_row ix keys (Some (read_slots (cells s) stem fs))"
proof -
  from assms(2,3) have "read_projected E s stem fs (projected_positions_of js) = Inr old" by auto
  from read_projected_slots(2) [OF assms(1) this] show ?thesis using assms(2) by (intro project_read) auto
qed

lemma create_keeps_coherent:
  assumes "create_entry E indexes site keys entry (Some s) = (Inr out, Some s')" "site_shaped shape site" "rooted R indexes site"
    "as_target site = AtEntry fs gs" "entry_typed fs gs entry" "ok s" "root_coherent R (cells s)"
    "indexes_wf (ri_columns R) (ri_indexes R)" "fst (shape (ri_root R)) = ri_fields R"
  shows "root_coherent R (cells s')"
proof (cases out)
  case AlreadyPresent
  then show ?thesis using create_entry_present assms(1,7) by blast
next
  case Created
  note shaped = shaped_entry [OF assms(2,4)]
  have run: "create_entry E indexes site keys entry (Some s) = (Inr Created, Some s')" using assms(1) Created by simp
  obtain m1 where
    *: "keys_fit (site_columns site) keys" "entry_at (cells s) (marker_key (site_family site) keys) fs gs = Inr None"
    "entry_at (cells s') (marker_key (site_family site) keys) fs gs = Inr (Some entry)"
    "only_under (marker_key (site_family site) keys) (cells s) (cells s')"
    "\<forall>r i row. m1 (index_cell_key r i row) = cells s (index_cell_key r i row)"
    "index_effect (as_root_number site) (maintained indexes site) keys None (Some (ev_fields entry)) m1 (cells s')"
    by (rule create_entry_refines [OF assms(6,4) conjunct2 [OF shaped] assms(5) run]) (unfold option.inject, hypsubst, blast)
  show ?thesis
  proof (rule maintenance_keeps_coherent [OF assms(7,8,3) *(1,4,5), where Q = "\<lambda>_. True", simplified, OF *(6)])
    fix ix a assume "site_family site = ri_root R" "project_row ix keys None = Inr a"
    then show "a = entry_row (cells s) (ri_root R) (ri_columns R) (ri_fields R) ix keys"
      using *(2) by (simp add: project_row_def entry_at_None entry_row_absent)
  next
    fix ix b assume root: "site_family site = ri_root R" and b: "project_row ix keys (Some (ev_fields entry)) = Inr b"
    have "ri_fields R = fs" "site_columns site = ri_columns R" using root shaped assms(3,9) by (auto simp: rooted_def)
    then show "b = entry_row (cells s') (ri_root R) (ri_columns R) (ri_fields R) ix keys"
      using entry_row_present [OF *(3) _ b] *(1) root by simp
  qed
qed

lemma replace_keeps_coherent:
  assumes "replace_entry E indexes site keys entry (Some s) = (Inr (), Some s')" "site_shaped shape site" "rooted R indexes site"
    "as_target site = AtEntry fs gs" "entry_typed fs gs entry" "ok s" "sound_store shape (cells s)" "root_coherent R (cells s)"
    "indexes_wf (ri_columns R) (ri_indexes R)" "fst (shape (ri_root R)) = ri_fields R"
  shows "root_coherent R (cells s')"
proof -
  note shaped = shaped_entry [OF assms(2,4)]
  then have "node_clean (cells s) (marker_key (site_family site) keys) fs gs"
    using sound_at [OF assms(7)] by (simp add: sound_node_def)
  note clean = this
  obtain m1 old where
    *: "keys_fit (site_columns site) keys" "cells s (marker_key (site_family site) keys) \<noteq> None"
    "entry_at (cells s') (marker_key (site_family site) keys) fs gs = Inr (Some entry)"
    "only_under (marker_key (site_family site) keys) (cells s) (cells s')"
    "\<forall>r i row. m1 (index_cell_key r i row) = cells s (index_cell_key r i row)"
    "index_effect (as_root_number site) (maintained indexes site) keys (Some old) (Some (ev_fields entry)) m1 (cells s')"
    "maintained indexes site \<noteq> [] \<longrightarrow>
       read_projected E s (marker_key (site_family site) keys) fs (projected_positions_of (maintained indexes site)) = Inr old"
    by (rule replace_entry_refines [OF assms(6,4) conjunct2 [OF shaped] assms(5) clean assms(1)]) (unfold option.inject, hypsubst, blast)
  show ?thesis
  proof (rule maintenance_keeps_coherent [OF assms(8,9,3) *(1,4,5), where Q = "\<lambda>_. True", simplified, OF *(6)])
    fix ix a assume root: "site_family site = ri_root R" and ix: "ix \<in> set (maintained indexes site)"
      and a: "project_row ix keys (Some old) = Inr a"
    have "ri_fields R = fs" "site_columns site = ri_columns R" using root shaped assms(3,10) by (auto simp: rooted_def)
    then show "a = entry_row (cells s) (ri_root R) (ri_columns R) (ri_fields R) ix keys"
      using projected_before [OF assms(6) ix *(7)] a *(1,2) root by (auto simp: entry_row_def)
  next
    fix ix b assume root: "site_family site = ri_root R" and b: "project_row ix keys (Some (ev_fields entry)) = Inr b"
    have "ri_fields R = fs" "site_columns site = ri_columns R" using root shaped assms(3,10) by (auto simp: rooted_def)
    then show "b = entry_row (cells s') (ri_root R) (ri_columns R) (ri_fields R) ix keys"
      using entry_row_present [OF *(3) _ b] *(1) root by simp
  qed
qed

lemma erase_keeps_coherent:
  assumes "erase_entry E indexes site keys (Some s) = (Inr gone, Some s')" "site_shaped shape site" "rooted R indexes site"
    "as_target site = AtEntry fs gs" "ok s" "sound_store shape (cells s)" "root_coherent R (cells s)"
    "indexes_wf (ri_columns R) (ri_indexes R)" "fst (shape (ri_root R)) = ri_fields R"
  shows "root_coherent R (cells s')"
proof -
  let ?stem = "marker_key (site_family site) keys"
  note shaped = shaped_entry [OF assms(2,4)]
  then have "node_clean (cells s) ?stem fs gs" using sound_at [OF assms(6)] by (simp add: sound_node_def)
  note clean = this
  obtain m1 old where
    *: "keys_fit (site_columns site) keys" "entry_at (cells s') ?stem fs gs = Inr None"
    "only_under ?stem (cells s) (cells s')"
    "\<forall>r i row. m1 (index_cell_key r i row) = cells s (index_cell_key r i row)"
    "index_effect (as_root_number site) (maintained indexes site) keys (if cells s ?stem \<noteq> None then Some old else None) None m1 (cells s')"
    "maintained indexes site \<noteq> [] \<longrightarrow> read_projected E s ?stem fs (projected_positions_of (maintained indexes site)) = Inr old"
    by (rule erase_entry_refines [OF assms(5,4) clean assms(1)]) (unfold option.inject, hypsubst, blast)
  show ?thesis
  proof (rule maintenance_keeps_coherent [OF assms(7,8,3) *(1,3,4), where Q = "\<lambda>_. True", simplified, OF *(5)])
    fix ix a assume root: "site_family site = ri_root R" and ix: "ix \<in> set (maintained indexes site)"
      and a: "project_row ix keys (if cells s ?stem \<noteq> None then Some old else None) = Inr a"
    have "ri_fields R = fs" "site_columns site = ri_columns R" using root shaped assms(3,9) by (auto simp: rooted_def)
    then show "a = entry_row (cells s) (ri_root R) (ri_columns R) (ri_fields R) ix keys"
      using projected_before [OF assms(5) ix *(6)] a *(1) root
      by (cases "cells s ?stem") (auto simp: entry_row_def project_row_def)
  next
    fix ix b assume "site_family site = ri_root R" "project_row ix keys None = Inr b"
    then show "b = entry_row (cells s') (ri_root R) (ri_columns R) (ri_fields R) ix keys"
      using *(2) by (simp add: project_row_def entry_at_None entry_row_absent)
  qed
qed

lemma projected_slots_before:
  assumes "ok s" "ix \<in> set js" "js \<noteq> [] \<longrightarrow> read_projected E s stem fs (projected_positions_of js) = Inr old"
    "c \<in> set (ix_projection ix)" "projected_field c = Some p"
  shows "length old = length fs" "slot old p = slot (read_slots (cells s) stem fs) p"
proof -
  from assms(2,3) have r: "read_projected E s stem fs (projected_positions_of js) = Inr old" by auto
  show "length old = length fs" using read_projected_slots(1) [OF assms(1) r] .
  have "p \<in> set (projected_positions_of js)" using assms(2,4,5) by (auto simp: projected_positions)
  then show "slot old p = slot (read_slots (cells s) stem fs) p" using read_projected_slots(2) [OF assms(1) r] by blast
qed

end

text \<open>
  A field write rewrites the rows of the indexes that project the field; the row of any other index
  does not depend on it. Over an absent entry there is no row before or after.
\<close>

definition projects :: "nat \<Rightarrow> IndexSchema \<Rightarrow> bool" where
  "projects i ix \<longleftrightarrow> list_ex (\<lambda>c. projected_field c = Some i) (ix_projection ix)"

lemma projecting_filter: "projecting indexes site i = filter (projects i) (maintained indexes site)"
  by (simp add: projecting_def projects_def [abs_def])

lemma slot_update: "slot (vs[i := v]) p = (if p = i \<and> i < length vs then v else slot vs p)"
  by (auto simp: slot_def)

lemma project_row_slots:
  assumes "\<And>c p. c \<in> set (ix_projection ix) \<Longrightarrow> projected_field c = Some p \<Longrightarrow> slot vs p = slot ws p"
  shows "project_row ix keys (Some vs) = project_row ix keys (Some ws)"
  unfolding project_row_def option.case using assms by (rule project_components_cong)

lemma project_row_unprojected: "\<not> projects i ix \<Longrightarrow> project_row ix keys (Some (vs[i := v])) = project_row ix keys (Some vs)"
  by (rule project_row_slots) (auto simp: slot_update projects_def list_ex_iff)

lemma project_row_absent: "projects i ix \<Longrightarrow> slot vs i = None \<Longrightarrow> project_row ix keys (Some vs) = Inr a \<Longrightarrow> a = None"
  using project_absent by (auto simp: projects_def list_ex_iff project_row_def)

definition slot_written :: "(bytes \<rightharpoonup> bytes) \<Rightarrow> (bytes \<rightharpoonup> bytes) \<Rightarrow> bytes \<Rightarrow> ResolvedField list \<Rightarrow> ResolvedGroup list \<Rightarrow> nat \<Rightarrow>
    ValueDomain option \<Rightarrow> bool" where
  "slot_written m m' stem fs gs i v \<longleftrightarrow>
     (\<exists>e. entry_at m stem fs gs = Inr (Some e) \<and> entry_at m' stem fs gs = Inr (Some (set_slot i v e)))
     \<or> v = None \<and> entry_at m stem fs gs = Inr None \<and> entry_at m' stem fs gs = Inr None"

lemma slot_written_other:
  assumes "slot_written m m' (marker_key root keys) fs gs i v" "\<not> projects i ix"
  shows "entry_row m' root cols fs ix keys = entry_row m root cols fs ix keys"
  using assms(1) unfolding slot_written_def
proof (elim disjE exE conjE)
  fix e assume e: "entry_at m (marker_key root keys) fs gs = Inr (Some e)"
    "entry_at m' (marker_key root keys) fs gs = Inr (Some (set_slot i v e))"
  have "project_row ix keys (Some (ev_fields (set_slot i v e))) = project_row ix keys (Some (ev_fields e))"
    using project_row_unprojected [OF assms(2)] by (simp add: set_slot_def)
  moreover have "m (marker_key root keys) \<noteq> None" "m' (marker_key root keys) \<noteq> None"
    using e by (auto simp: entry_at_Some node_readable_def)
  ultimately show ?thesis using entry_slots [OF e(1)] entry_slots [OF e(2)] by (simp add: entry_row_def)
qed (simp add: entry_at_None entry_row_absent)

context lawful_engine
begin

lemma slot_written_old:
  assumes "ok s" "slot_written (cells s) m' (marker_key root keys) fs gs i v" "keys_fit cols keys" "ix \<in> set js" "projects i ix"
    "js \<noteq> [] \<longrightarrow> read_projected E s (marker_key root keys) fs (projected_positions_of js) = Inr old"
    "project_row ix keys (Some old) = Inr a"
  shows "a = entry_row (cells s) root cols fs ix keys"
proof (cases "cells s (marker_key root keys)")
  case None
  then have "entry_at (cells s) (marker_key root keys) fs gs = Inr None"
    using assms(2) by (auto simp: slot_written_def entry_at_Some node_readable_def)
  then have "read_slots (cells s) (marker_key root keys) fs = replicate (length fs) None"
    using field_leaf_under by (auto simp: entry_at_None read_slots_def leaf_value_def intro!: nth_equalityI)
  then have "slot (read_slots (cells s) (marker_key root keys) fs) i = None" by (simp add: slot_def)
  moreover have "project_row ix keys (Some (read_slots (cells s) (marker_key root keys) fs)) = Inr a"
    using projected_before [OF assms(1,4,6)] assms(7) by simp
  ultimately have "a = None" by (rule project_row_absent [OF assms(5)])
  then show ?thesis using None by (simp add: entry_row_absent)
next
  case (Some x)
  then show ?thesis using projected_before [OF assms(1,4,6)] assms(3,7) by (simp add: entry_row_def)
qed

lemma slot_written_new:
  assumes "ok s" "slot_written (cells s) m' (marker_key root keys) fs gs i v" "keys_fit cols keys" "ix \<in> set js" "projects i ix"
    "js \<noteq> [] \<longrightarrow> read_projected E s (marker_key root keys) fs (projected_positions_of js) = Inr old" "i < length fs"
    "project_row ix keys (Some (old[i := v])) = Inr b"
  shows "b = entry_row m' root cols fs ix keys"
proof -
  obtain c where c: "c \<in> set (ix_projection ix)" "projected_field c = Some i" using assms(5) by (auto simp: projects_def list_ex_iff)
  note len = projected_slots_before(1) [OF assms(1,4,6) c]
  from assms(2) show ?thesis unfolding slot_written_def
  proof (elim disjE exE conjE)
    fix e assume e: "entry_at (cells s) (marker_key root keys) fs gs = Inr (Some e)"
      "entry_at m' (marker_key root keys) fs gs = Inr (Some (set_slot i v e))"
    have "length (ev_fields e) = length fs" using entry_slots [OF e(1)] by (metis length_map read_slots_def)
    then have "project_row ix keys (Some (old[i := v])) = project_row ix keys (Some (ev_fields (set_slot i v e)))"
      using projected_slots_before(2) [OF assms(1,4,6)] entry_slots [OF e(1)] len
      by (intro project_row_slots) (simp add: set_slot_def slot_update)
    then show ?thesis using entry_row_present [OF e(2) assms(3)] assms(8) by simp
  next
    assume n: "v = None" "entry_at m' (marker_key root keys) fs gs = Inr None"
    then have "slot (old[i := v]) i = None" using len assms(7) by (simp add: slot_update)
    from project_row_absent [OF assms(5) this assms(8)] show ?thesis using n(2) by (simp add: entry_at_None entry_row_absent)
  qed
qed

lemma field_write_keeps_coherent:
  assumes "root_coherent R (cells s)" "indexes_wf (ri_columns R) (ri_indexes R)" "rooted R indexes site" "ok s"
    "keys_fit (site_columns site) keys" "only_under (marker_key (site_family site) keys) (cells s) (cells s')"
    "\<forall>r i row. m1 (index_cell_key r i row) = cells s (index_cell_key r i row)"
    "index_effect (as_root_number site) (projecting indexes site i) keys (Some old) (Some (old[i := v])) m1 (cells s')"
    "projecting indexes site i \<noteq> [] \<longrightarrow>
       read_projected E s (marker_key (site_family site) keys) fs (projected_positions_of (projecting indexes site i)) = Inr old"
    "i < length fs" "site_family site = ri_root R \<longrightarrow> ri_fields R = fs"
    "slot_written (cells s) (cells s') (marker_key (site_family site) keys) fs gs i v"
  shows "root_coherent R (cells s')"
proof (rule maintenance_keeps_coherent [OF assms(1-3,5-7) assms(8) [unfolded projecting_filter]])
  assume root: "site_family site = ri_root R"
  then have fit: "keys_fit (ri_columns R) keys" and fs: "ri_fields R = fs" using assms(3,5,11) by (simp_all add: rooted_def)
  note written = assms(12) [unfolded root] and read = assms(9) [unfolded root projecting_filter]
  {
    fix ix a assume "ix \<in> set (maintained indexes site)" "projects i ix" "project_row ix keys (Some old) = Inr a"
    then show "a = entry_row (cells s) (ri_root R) (ri_columns R) (ri_fields R) ix keys"
      unfolding fs by (intro slot_written_old [OF assms(4) written fit _ _ read]) simp_all
  next
    fix ix b assume "ix \<in> set (maintained indexes site)" "projects i ix" "project_row ix keys (Some (old[i := v])) = Inr b"
    then show "b = entry_row (cells s') (ri_root R) (ri_columns R) (ri_fields R) ix keys"
      unfolding fs by (intro slot_written_new [OF assms(4) written fit _ _ read assms(10)]) simp_all
  next
    fix ix assume "\<not> projects i ix"
    then show "entry_row (cells s') (ri_root R) (ri_columns R) (ri_fields R) ix keys = entry_row (cells s) (ri_root R) (ri_columns R) (ri_fields R) ix keys"
      unfolding fs by (rule slot_written_other [OF written])
  }
qed

lemma set_field_keeps_coherent:
  assumes "set_field E indexes site keys v (Some s) = (Inr (), Some s')" "site_shaped shape site" "rooted R indexes site"
    "as_target site = AtField p" "slot_typed (field_of p) (Some v)" "ok s" "sound_store shape (cells s)" "root_coherent R (cells s)"
    "indexes_wf (ri_columns R) (ri_indexes R)" "fst (shape (ri_root R)) = ri_fields R"
  shows "root_coherent R (cells s')"
proof -
  let ?stem = "marker_key (site_family site) keys" and ?gs = "snd (shape (site_family site))"
  note shaped = shaped_field [OF assms(2,4)]
  then have sh: "shape (site_family site) = (fp_record p, ?gs)" by (metis prod.collapse)
  obtain i where i: "index_of (\<lambda>f. rf_number f = fp_number p) (fp_record p) = Some i" "i < length (fp_record p)"
    using field_position shaped by blast
  obtain m1 old where *: "keys_fit (site_columns site) keys" "slot_written (cells s) (cells s') ?stem (fp_record p) ?gs i (Some v)"
    "only_under ?stem (cells s) (cells s')" "\<forall>r i row. m1 (index_cell_key r i row) = cells s (index_cell_key r i row)"
    "index_effect (as_root_number site) (projecting indexes site i) keys (Some old) (Some (old[i := Some v])) m1 (cells s')"
    "projecting indexes site i \<noteq> [] \<longrightarrow>
       read_projected E s ?stem (fp_record p) (projected_positions_of (projecting indexes site i)) = Inr old"
    by (rule set_field_refines [OF assms(6,4) conjunct2 [OF shaped] assms(5) sound_at [OF assms(7) sh] assms(1) i(1)])
      (unfold option.inject, hypsubst, unfold slot_written_def, blast)
  show ?thesis
    by (rule field_write_keeps_coherent [OF assms(8,9,3,6) *(1,3-6) i(2) _ *(2)]) (use shaped assms(10) in auto)
qed

lemma erase_field_keeps_coherent:
  assumes "erase_field E indexes site keys (Some s) = (Inr gone, Some s')" "site_shaped shape site" "rooted R indexes site"
    "as_target site = AtField p" "ok s" "sound_store shape (cells s)" "root_coherent R (cells s)"
    "indexes_wf (ri_columns R) (ri_indexes R)" "fst (shape (ri_root R)) = ri_fields R"
  shows "root_coherent R (cells s')"
proof -
  let ?stem = "marker_key (site_family site) keys" and ?gs = "snd (shape (site_family site))"
  note shaped = shaped_field [OF assms(2,4)]
  then have sh: "shape (site_family site) = (fp_record p, ?gs)" by (metis prod.collapse)
  obtain i where i: "index_of (\<lambda>f. rf_number f = fp_number p) (fp_record p) = Some i" "i < length (fp_record p)"
    using field_position shaped by blast
  obtain m1 old e where *: "keys_fit (site_columns site) keys" "only_under ?stem (cells s) (cells s')"
    "\<forall>r i row. m1 (index_cell_key r i row) = cells s (index_cell_key r i row)"
    "index_effect (as_root_number site) (projecting indexes site i) keys (Some old) (Some (old[i := None])) m1 (cells s')"
    "projecting indexes site i \<noteq> [] \<longrightarrow>
       read_projected E s ?stem (fp_record p) (projected_positions_of (projecting indexes site i)) = Inr old"
    "entry_at (cells s) ?stem (fp_record p) ?gs = Inr e"
    "entry_at (cells s') ?stem (fp_record p) ?gs = Inr (map_option (set_slot i None) e)"
    by (rule erase_field_refines [OF assms(5,4) conjunct2 [OF shaped] sound_at [OF assms(6) sh] assms(1) i(1)])
      (unfold option.inject, hypsubst, blast)
  have "slot_written (cells s) (cells s') ?stem (fp_record p) ?gs i None"
    using *(6,7) by (cases e) (auto simp: slot_written_def)
  then show ?thesis
    by (rule field_write_keeps_coherent [OF assms(7,8,3,5) *(1-5) i(2), rotated 1]) (use shaped assms(9) in auto)
qed

text \<open>Group writes touch no index row and no slot of the entry's own record.\<close>

lemma group_write_keeps_coherent:
  assumes "root_coherent R m" "only_under (marker_key f keys) m m'"
    "\<forall>r i row. m' (index_cell_key r i row) = m (index_cell_key r i row)"
    "f = ri_root R \<Longrightarrow> (m' (marker_key f keys) \<noteq> None) = (m (marker_key f keys) \<noteq> None)"
    "f = ri_root R \<Longrightarrow> read_slots m' (marker_key f keys) (ri_fields R) = read_slots m (marker_key f keys) (ri_fields R)"
  shows "root_coherent R m'"
proof -
  have "entry_row m' (ri_root R) (ri_columns R) (ri_fields R) ix ls = entry_row m (ri_root R) (ri_columns R) (ri_fields R) ix ls" for ix ls
  proof (cases "marker_key (ri_root R) ls = marker_key f keys")
    case True
    then show ?thesis using assms(4,5) by (auto simp: entry_row_def)
  next
    case False
    then show ?thesis by (intro entry_row_cong only_under_other [OF assms(2)])
  qed
  then have "entry_row m' (ri_root R) (ri_columns R) (ri_fields R) ix = entry_row m (ri_root R) (ri_columns R) (ri_fields R) ix" for ix
    by (simp add: fun_eq_iff)
  moreover have "index_rows m' (ri_root R) ix = index_rows m (ri_root R) ix" for ix using assms(3) by (simp add: index_rows_def fun_eq_iff)
  ultimately show ?thesis using assms(1) by (simp add: root_coherent_def coherent_def)
qed

lemma replace_group_keeps_coherent:
  assumes "replace_group E site keys v (Some s) = (Inr (), Some s')" "site_shaped shape site"
    "as_target site = AtGroup n hs" "list_all2 slot_typed hs (ev_fields v)" "ok s" "sound_store shape (cells s)" "root_coherent R (cells s)"
    "fst (shape (ri_root R)) = ri_fields R"
  shows "root_coherent R (cells s')"
proof -
  from shaped_group [OF assms(2,3)] obtain j fs gs where
    j: "shape (site_family site) = (fs, gs)" "j < length gs" "gs ! j = \<lparr>rg_number = n, rg_fields = hs\<rparr>" "target_wf (AtEntry fs gs)" .
  obtain e where *: "entry_at (cells s) (marker_key (site_family site) keys) fs gs = Inr (Some e)"
    "entry_at (cells s') (marker_key (site_family site) keys) fs gs = Inr (Some (set_group j v e))"
    "only_under (marker_key (site_family site) keys) (cells s) (cells s')"
    "\<forall>r i row. cells s' (index_cell_key r i row) = cells s (index_cell_key r i row)"
    by (rule replace_group_refines [OF assms(5,3) j(4,2,3) assms(4) sound_at [OF assms(6) j(1)] assms(1)])
      (unfold option.inject, hypsubst, blast)
  show ?thesis
    using entry_slots [OF *(1)] entry_slots [OF *(2)] *(1,2) j(1) assms(8)
    by (intro group_write_keeps_coherent [OF assms(7) *(3,4)]) (auto simp: set_group_def entry_at_Some node_readable_def)
qed

lemma erase_group_keeps_coherent:
  assumes "erase_group E site keys (Some s) = (Inr gone, Some s')" "site_shaped shape site"
    "as_target site = AtGroup n hs" "ok s" "sound_store shape (cells s)" "root_coherent R (cells s)"
    "fst (shape (ri_root R)) = ri_fields R"
  shows "root_coherent R (cells s')"
proof -
  let ?stem = "marker_key (site_family site) keys"
  from shaped_group [OF assms(2,3)] obtain j fs gs where
    j: "shape (site_family site) = (fs, gs)" "j < length gs" "gs ! j = \<lparr>rg_number = n, rg_fields = hs\<rparr>" "target_wf (AtEntry fs gs)" .
  obtain e where *: "entry_at (cells s) ?stem fs gs = Inr e"
    "entry_at (cells s') ?stem fs gs = Inr (map_option (set_group j (EntryValue (replicate (length hs) None) [])) e)"
    "only_under ?stem (cells s) (cells s')" "\<forall>r i row. cells s' (index_cell_key r i row) = cells s (index_cell_key r i row)"
    by (rule erase_group_refines [OF assms(4,3) j(4,2,3) sound_at [OF assms(5) j(1)] assms(1)])
      (unfold option.inject, hypsubst, blast)
  have "(cells s' ?stem \<noteq> None) = (cells s ?stem \<noteq> None) \<and> read_slots (cells s') ?stem fs = read_slots (cells s) ?stem fs"
  proof (cases e)
    case None
    then have "cells s k = None" "cells s' k = None" if "prefix ?stem k" for k using *(1,2) that by (simp_all add: entry_at_None)
    then show ?thesis using field_leaf_under by (simp add: read_slots_def leaf_value_def)
  next
    case (Some e0)
    then show ?thesis using *(1,2) entry_slots [of "cells s"] entry_slots [of "cells s'"]
      by (auto simp: set_group_def entry_at_Some node_readable_def node_value_def read_slots_def)
  qed
  then show ?thesis using j(1) assms(7) by (intro group_write_keeps_coherent [OF assms(6) *(3,4)]) auto
qed

lemma step_keeps_coherent:
  assumes "session_step E indexes sites s s'" "\<forall>site \<in> sites. site_shaped shape site \<and> rooted R indexes site" "ok s"
    "sound_store shape (cells s)" "root_coherent R (cells s)"
    "indexes_wf (ri_columns R) (ri_indexes R)" "fst (shape (ri_root R)) = ri_fields R"
  shows "root_coherent R (cells s')"
  using assms
proof (induction rule: session_step.induct)
  case create
  then show ?case using create_keeps_coherent by blast
next
  case replace
  then show ?case using replace_keeps_coherent by blast
next
  case erase
  then show ?case using erase_keeps_coherent by blast
next
  case set_field
  then show ?case using set_field_keeps_coherent by blast
next
  case erase_field
  then show ?case using erase_field_keeps_coherent by blast
next
  case replace_group
  then show ?case using replace_group_keeps_coherent by blast
next
  case erase_group
  then show ?case using erase_group_keeps_coherent by blast
qed

lemma steps_keep_coherent:
  assumes "(session_step E indexes sites)\<^sup>*\<^sup>* s t" "\<forall>site \<in> sites. site_shaped shape site \<and> rooted R indexes site" "ok s"
    "sound_store shape (cells s)" "root_coherent R (cells s)"
    "indexes_wf (ri_columns R) (ri_indexes R)" "fst (shape (ri_root R)) = ri_fields R"
  shows "root_coherent R (cells t)"
  using assms(1)
proof (induction rule: rtranclp_induct)
  case (step t u)
  have "ok t \<and> sound_store shape (cells t)" using steps_keep_sound [OF step(1)] assms(2-4) by blast
  then show ?case using step_keeps_coherent [OF step(2) assms(2)] step(3) assms(6,7) by blast
qed (rule assms(5))

end

lemma coherent_empty: "root_coherent R Map.empty"
  by (simp add: root_coherent_def coherent_def rows_match_def index_rows_def entry_row_def)

section \<open>Lookups through a unique index\<close>

lemma check_keys_fit: "length vs = length ks \<Longrightarrow> check_keys vs ks = Inr () \<longleftrightarrow> keys_fit ks vs"
  by (induction vs ks rule: list_induct2) (auto simp: keys_fit_def)

lemma mem_lookup:
  assumes "as_target site = AtIndex (ix_id ix) True kinds" "keys_fit kinds row"
  shows "op_index_lookup mem_txn t site row =
     (case index_rows (txn_cells t) (as_root_number site) ix row of
        None \<Rightarrow> Inr None
      | Some bs \<Rightarrow>
          (case decode_index_source_key bs (length (as_columns site)) of
             Some source \<Rightarrow> rbind (check_keys source (as_columns site)) (\<lambda>_. Inr (Some source))
           | None \<Rightarrow> fault Corruption))"
proof -
  have len: "length row = length kinds" using assms(2) by (simp add: keys_fit_def list_all2_lengthD)
  then have "check_keys row kinds = Inr ()" using check_keys_fit [OF len] assms(2) by simp
  then show ?thesis using assms(1) len
    by (simp add: op_index_lookup_def index_target_def index_read_def mem_txn_def mem_get_def index_rows_def txn_cells_def del: rbind_Inr_iff)
qed

end
