(* ===== verification/Session_Contract.thy ===== *)
theory Session_Contract
  imports Session_Samples Index_Coherence
begin

text \<open>
  The contract of each mutation in terms of the session's own reads, over the transactions of the
  memory engine: what the written node reads as afterwards, that every other entry reads as before,
  and what is refused before any cell is touched.
\<close>

section \<open>Soundness\<close>

text \<open>
  C18. Soundness is an invariant of the session: whatever sequence of successful creates, replaces,
  erases, field writes and group writes runs on a sound store, every node of the store keeps exactly
  the cells of its declared footprint, and every entry still reads, without a corruption fault.
\<close>

theorem session_keeps_store_sound:
  assumes "txn_ok s" "sound_store shape (txn_cells s)" "\<forall>site \<in> sites. site_shaped shape site"
    "(session_step mem_txn indexes sites)\<^sup>*\<^sup>* s t"
  shows "sound_store shape (txn_cells t)
     \<and> (\<forall>site keys fs gs. site_shaped shape site \<and> as_target site = AtEntry fs gs \<and> keys_fit (site_columns site) keys \<longrightarrow>
          (\<exists>e. op_read_entry mem_txn t site keys = Some (Inr e)))"
proof -
  have t: "txn_ok t" "sound_store shape (txn_cells t)" using mem.steps_keep_sound [OF assms(4,3,1,2)] by simp_all
  have "\<exists>e. op_read_entry mem_txn t site keys = Some (Inr e)"
    if "site_shaped shape site" "as_target site = AtEntry fs gs" "keys_fit (site_columns site) keys" for site keys fs gs
  proof -
    note shaped = shaped_entry [OF that(1,2)]
    then obtain e where "entry_at (txn_cells t) (marker_key (site_family site) keys) fs gs = Inr e"
      using sound_at [OF t(2), of "site_family site" fs gs keys] by (auto simp: sound_node_def)
    then show ?thesis using mem_read_entry [OF t(1) that(2)] shaped that(3) by (simp add: node_stem_eq)
  qed
  then show ?thesis using t(2) by blast
qed

theorem session_keeps_store_sound_witness:
  "sound_store flag_shape (txn_cells \<lparr>txn_base = [], txn_working = flag_cells True False\<rparr>)"
proof -
  have "session_step mem_txn flag_indexes {flag_entry_site} no_cells \<lparr>txn_base = [], txn_working = flag_cells True False\<rparr>"
    by (rule session_step.create [OF flag_created _ flag_target flag_typed]) simp
  then show ?thesis
    using session_keeps_store_sound [OF no_cells_ok(1), of flag_shape "{flag_entry_site}"] sound_store_empty no_cells_ok(2) flag_shaped
    by auto
qed

section \<open>Whole entries\<close>

text \<open>
  C19. A create that finds the slot occupied changes nothing. One that succeeds found the entry
  absent, the very payload it was given reads back, and every other entry reads as before.
\<close>

theorem create_then_read:
  assumes "txn_ok s" "as_target site = AtEntry fs gs" "target_wf (AtEntry fs gs)" "entry_typed fs gs entry"
    "create_entry mem_txn indexes site keys entry (Some s) = (Inr out, st)"
  shows "case out of
      AlreadyPresent \<Rightarrow> st = Some s
    | Created \<Rightarrow> op_read_entry mem_txn s site keys = Some (Inr None)
        \<and> (\<exists>s'. st = Some s' \<and> txn_ok s' \<and> op_read_entry mem_txn s' site keys = Some (Inr (Some entry))
                \<and> unchanged_elsewhere s s' site keys)"
proof (cases out)
  case AlreadyPresent
  then show ?thesis using mem.create_entry_present assms(5) by simp
next
  case Created
  from mem.create_entry_refines [OF assms(1-4), of indexes keys st] assms(5) Created obtain s' where
    "st = Some s'" "txn_ok s'" "keys_fit (site_columns site) keys"
    "entry_at (txn_cells s) (marker_key (site_family site) keys) fs gs = Inr None"
    "entry_at (txn_cells s') (marker_key (site_family site) keys) fs gs = Inr (Some entry)"
    "only_under (marker_key (site_family site) keys) (txn_cells s) (txn_cells s')" by metis
  then show ?thesis
    using Created mem_read_entry [OF _ assms(2,3)] assms(1) unchanged_elsewhere_intro by (simp add: node_stem_eq)
qed

theorem create_then_read_witness:
  "op_read_entry mem_txn \<lparr>txn_base = [], txn_working = flag_cells True False\<rparr> flag_entry_site [KBool True]
     = Some (Inr (Some (flag_entry False)))"
  using create_then_read [OF no_cells_ok(1) _ _ flag_typed flag_created]
  by (simp add: flag_entry_site_def record_wf_def)

text \<open>
  Replacing an entry of a sound node needs the entry to be present; afterwards the node reads
  as the new payload, with nothing left of the old one, and every other entry reads as before.
\<close>

theorem replace_then_read:
  assumes "txn_ok s" "as_target site = AtEntry fs gs" "target_wf (AtEntry fs gs)" "entry_typed fs gs entry"
    "node_clean (txn_cells s) (marker_key (site_family site) keys) fs gs"
    "replace_entry mem_txn indexes site keys entry (Some s) = (Inr (), st)"
  shows "op_presence mem_txn s site keys = Inr Present
     \<and> (\<exists>s'. st = Some s' \<and> txn_ok s' \<and> op_read_entry mem_txn s' site keys = Some (Inr (Some entry))
             \<and> unchanged_elsewhere s s' site keys)"
proof -
  from mem.replace_entry_refines [OF assms] obtain s' where s':
    "st = Some s'" "txn_ok s'" "keys_fit (site_columns site) keys" "txn_cells s (marker_key (site_family site) keys) \<noteq> None"
    "entry_at (txn_cells s') (marker_key (site_family site) keys) fs gs = Inr (Some entry)"
    "only_under (marker_key (site_family site) keys) (txn_cells s) (txn_cells s')" by metis
  have "op_presence mem_txn s site keys = Inr Present"
    using s'(3,4) assms(2) by (auto simp: op_presence_def node_stem_eq read_raw_def mem_txn_def mem_get_def txn_cells_def)
  then show ?thesis
    using s' mem_read_entry [OF _ assms(2,3)] assms(1) unchanged_elsewhere_intro by (simp add: node_stem_eq)
qed

theorem replace_then_read_witness:
  "\<exists>t. replace_entry mem_txn flag_indexes flag_entry_site [KBool True] (flag_entry True) (Some flagged) = (Inr (), Some t)
     \<and> op_read_entry mem_txn t flag_entry_site [KBool True] = Some (Inr (Some (flag_entry True)))"
proof -
  obtain t where t: "replace_entry mem_txn flag_indexes flag_entry_site [KBool True] (flag_entry True) (Some flagged) = (Inr (), Some t)"
    using flag_replaced by blast
  then show ?thesis
    using replace_then_read [OF flagged_ok flag_target flag_target_wf flag_typed _ t] flagged_clean flag_family by auto
qed

text \<open>
  C20. Erasing an entry of a sound node reports whether it was present, leaves the node absent, and
  leaves every other entry as it was.
\<close>

theorem erase_then_absent:
  assumes "txn_ok s" "as_target site = AtEntry fs gs" "target_wf (AtEntry fs gs)"
    "node_clean (txn_cells s) (marker_key (site_family site) keys) fs gs"
    "erase_entry mem_txn indexes site keys (Some s) = (Inr out, st)"
  shows "op_presence mem_txn s site keys = Inr (if out = Erased then Present else Absent)
     \<and> (\<exists>s'. st = Some s' \<and> txn_ok s' \<and> op_read_entry mem_txn s' site keys = Some (Inr None)
             \<and> unchanged_elsewhere s s' site keys)"
proof -
  from mem.erase_entry_refines [OF assms(1,2,4,5)] obtain s' where s':
    "st = Some s'" "txn_ok s'" "keys_fit (site_columns site) keys"
    "out = (if txn_cells s (marker_key (site_family site) keys) \<noteq> None then Erased else Missing)"
    "entry_at (txn_cells s') (marker_key (site_family site) keys) fs gs = Inr None"
    "only_under (marker_key (site_family site) keys) (txn_cells s) (txn_cells s')" by metis
  have "op_presence mem_txn s site keys = Inr (if out = Erased then Present else Absent)"
    using s'(3,4) assms(2)
    by (auto simp: op_presence_def node_stem_eq read_raw_def mem_txn_def mem_get_def txn_cells_def split: option.splits)
  then show ?thesis
    using s' mem_read_entry [OF _ assms(2,3)] assms(1) unchanged_elsewhere_intro by (simp add: node_stem_eq)
qed

theorem erase_then_absent_witness:
  "\<exists>t. erase_entry mem_txn flag_indexes flag_entry_site [KBool True] (Some flagged) = (Inr Erased, Some t)
     \<and> op_read_entry mem_txn t flag_entry_site [KBool True] = Some (Inr None)"
proof -
  obtain t where t: "erase_entry mem_txn flag_indexes flag_entry_site [KBool True] (Some flagged) = (Inr Erased, Some t)"
    using flag_erased by blast
  then show ?thesis
    using erase_then_absent [OF flagged_ok flag_target flag_target_wf _ t] flagged_clean flag_family by auto
qed

section \<open>Fields and groups\<close>

definition entry_site :: "AuthorizedSite \<Rightarrow> ResolvedField list \<Rightarrow> ResolvedGroup list \<Rightarrow> AuthorizedSite" where
  "entry_site site fs gs = site\<lparr>as_target := AtEntry fs gs\<rparr>"

lemma entry_site_simps [simp]:
  "as_target (entry_site site fs gs) = AtEntry fs gs" "site_family (entry_site site fs gs) = site_family site"
  "site_columns (entry_site site fs gs) = site_columns site" "node_stem (entry_site site fs gs) keys = node_stem site keys"
  by (simp_all add: entry_site_def site_family_def site_columns_def node_stem_def)

lemma mem_read_field:
  assumes "as_target site = AtField p" "keys_fit (site_columns site) keys"
    "leaf_value (txn_cells t) (marker_key (site_family site) keys) (field_of p) = Some v"
  shows "op_read_field mem_txn t site keys = Inr (Some v)"
  using assms
  by (auto simp: op_read_field_def node_stem_eq read_raw_def mem_txn_def mem_get_def txn_cells_def leaf_value_def field_of_def bind_eq_Some_conv)

text \<open>
  C21. A field write on a sound entry reads back as the written value; the entry is otherwise what
  it was, and so is every other entry.
\<close>

theorem set_field_then_read:
  assumes "txn_ok s" "as_target site = AtField p" "target_wf (AtField p)" "target_wf (AtEntry (fp_record p) gs)"
    "slot_typed (field_of p) (Some v)" "index_of (\<lambda>f. rf_number f = fp_number p) (fp_record p) = Some i"
    "sound_node (txn_cells s) (marker_key (site_family site) keys) (fp_record p) gs"
    "set_field mem_txn indexes site keys v (Some s) = (Inr (), st)"
  shows "\<exists>s' e. st = Some s' \<and> txn_ok s' \<and> op_read_field mem_txn s' site keys = Inr (Some v)
     \<and> op_read_entry mem_txn s (entry_site site (fp_record p) gs) keys = Some (Inr (Some e))
     \<and> op_read_entry mem_txn s' (entry_site site (fp_record p) gs) keys = Some (Inr (Some (set_slot i (Some v) e)))
     \<and> unchanged_elsewhere s s' site keys"
proof -
  from mem.set_field_refines [OF assms(1,2,3,5,7,8,6)] obtain s' e where s':
    "st = Some s'" "txn_ok s'" "keys_fit (site_columns site) keys"
    "entry_at (txn_cells s) (marker_key (site_family site) keys) (fp_record p) gs = Inr (Some e)"
    "entry_at (txn_cells s') (marker_key (site_family site) keys) (fp_record p) gs = Inr (Some (set_slot i (Some v) e))"
    "only_under (marker_key (site_family site) keys) (txn_cells s) (txn_cells s')" by metis
  from field_position [OF assms(3)] assms(6) have i: "i < length (fp_record p)" "fp_record p ! i = field_of p" by auto
  have e: "e = node_value (txn_cells s) (marker_key (site_family site) keys) (fp_record p) gs" using s'(4) by (simp add: entry_at_Some)
  have "length (ev_fields e) = length (fp_record p)" by (simp add: e node_value_def)
  moreover have "node_value (txn_cells s') (marker_key (site_family site) keys) (fp_record p) gs = set_slot i (Some v) e"
    using s'(5) by (simp add: entry_at_Some)
  ultimately have "ev_fields (node_value (txn_cells s') (marker_key (site_family site) keys) (fp_record p) gs) ! i = Some v"
    using i(1) by (simp add: set_slot_def)
  then have "op_read_field mem_txn s' site keys = Inr (Some v)"
    using mem_read_field [OF assms(2) s'(3)] i by (simp add: node_value_def)
  then show ?thesis
    using s' mem_read_entry [OF _ entry_site_simps(1) assms(4)] assms(1) unchanged_elsewhere_intro by (simp add: node_stem_eq)
qed

theorem set_field_then_read_witness:
  "\<exists>t. set_field mem_txn flag_indexes flag_field_site [KBool True] (VScalar (RBool True)) (Some flagged) = (Inr (), Some t)
     \<and> op_read_field mem_txn t flag_field_site [KBool True] = Inr (Some (VScalar (RBool True)))"
proof -
  obtain t where t: "set_field mem_txn flag_indexes flag_field_site [KBool True] (VScalar (RBool True)) (Some flagged) = (Inr (), Some t)"
    using flag_set by blast
  have *: "as_target flag_field_site = AtField flag_payload" "target_wf (AtField flag_payload)" "fp_record flag_payload = [flag_field]"
    "slot_typed (field_of flag_payload) (Some (VScalar (RBool True)))" "site_family flag_field_site = 0"
    "index_of (\<lambda>f. rf_number f = fp_number flag_payload) (fp_record flag_payload) = Some 0"
    by (simp_all add: flag_field_site_def flag_payload_def flag_field_def record_wf_def field_of_def slot_typed_def scalar_shape_def
        site_family_def flag_entry_site_def)
  have "sound_node (txn_cells flagged) (marker_key (site_family flag_field_site) [KBool True]) (fp_record flag_payload) []"
    using flagged_sound * by simp
  then show ?thesis
    using set_field_then_read [OF flagged_ok *(1,2) _ *(4,6) _ t, of "[]"] flag_target_wf *(3) t by auto
qed

text \<open>
  Replacing a group of a sound entry changes that group to the given value and nothing else of
  the entry, and every other entry reads as before.
\<close>

theorem replace_group_then_read:
  assumes "txn_ok s" "as_target site = AtGroup n hs" "target_wf (AtEntry fs gs)" "j < length gs"
    "gs ! j = \<lparr>rg_number = n, rg_fields = hs\<rparr>" "list_all2 slot_typed hs (ev_fields v)"
    "sound_node (txn_cells s) (marker_key (site_family site) keys) fs gs"
    "replace_group mem_txn site keys v (Some s) = (Inr (), st)"
  shows "\<exists>s' e. st = Some s' \<and> txn_ok s'
     \<and> op_read_entry mem_txn s (entry_site site fs gs) keys = Some (Inr (Some e))
     \<and> op_read_entry mem_txn s' (entry_site site fs gs) keys = Some (Inr (Some (set_group j v e)))
     \<and> unchanged_elsewhere s s' site keys"
proof -
  from mem.replace_group_refines [OF assms] obtain s' e where
    "st = Some s'" "txn_ok s'" "keys_fit (site_columns site) keys"
    "entry_at (txn_cells s) (marker_key (site_family site) keys) fs gs = Inr (Some e)"
    "entry_at (txn_cells s') (marker_key (site_family site) keys) fs gs = Inr (Some (set_group j v e))"
    "only_under (marker_key (site_family site) keys) (txn_cells s) (txn_cells s')" by metis
  then show ?thesis
    using mem_read_entry [OF _ entry_site_simps(1) assms(3)] assms(1) unchanged_elsewhere_intro by (simp add: node_stem_eq)
qed

theorem replace_group_then_read_witness:
  "\<exists>t e. replace_group mem_txn note_site [KBool True] (EntryValue [Some (VScalar (RBool True))] []) (Some noted) = (Inr (), Some t)
     \<and> op_read_entry mem_txn t (entry_site note_site [] note_groups) [KBool True]
        = Some (Inr (Some (set_group 0 (EntryValue [Some (VScalar (RBool True))] []) e)))"
proof -
  obtain t where t: "replace_group mem_txn note_site [KBool True] (EntryValue [Some (VScalar (RBool True))] []) (Some noted) = (Inr (), Some t)"
    using note_replaced by blast
  have "as_target note_site = AtGroup 2 [note_field]" "site_family note_site = 0"
    "target_wf (AtEntry [] note_groups)" "note_groups ! 0 = \<lparr>rg_number = 2, rg_fields = [note_field]\<rparr>" "0 < length note_groups"
    "list_all2 slot_typed [note_field] (ev_fields (EntryValue [Some (VScalar (RBool True))] []))"
    by (simp_all add: note_site_def note_groups_def note_field_def site_family_def flag_entry_site_def record_wf_def slot_typed_def scalar_shape_def)
  then show ?thesis using replace_group_then_read [OF noted_ok _ _ _ _ _ _ t] noted_sound t by fastforce
qed

section \<open>Refusals\<close>

text \<open>The completeness law: every slot has a value or is optional, at the entry and in its groups, which have none of their own.\<close>

definition record_complete :: "ResolvedField list \<Rightarrow> ValueDomain option list \<Rightarrow> bool" where
  "record_complete fs vs \<longleftrightarrow> list_all2 (\<lambda>f v. v \<noteq> None \<or> \<not> rf_required f) fs vs"

definition entry_complete :: "ResolvedField list \<Rightarrow> ResolvedGroup list \<Rightarrow> EntryValue \<Rightarrow> bool" where
  "entry_complete fs gs e \<longleftrightarrow>
     record_complete fs (ev_fields e)
     \<and> list_all2 (\<lambda>g sub. record_complete (rg_fields g) (ev_fields sub) \<and> ev_groups sub = []) gs (ev_groups e)"

lemma require_complete_eq: "require_complete fs gs e = (if entry_complete fs gs e then Inr () else fault Incomplete)"
  using require_complete_only_Incomplete [of fs gs e]
  by (auto simp: require_complete_Inr require_record_Inr entry_complete_def record_complete_def)

lemma require_record_eq: "require_record_complete fs vs = (if record_complete fs vs then Inr () else fault Incomplete)"
  by (auto simp: record_complete_def require_record_complete_def list_all2_iff list_all_iff)

text \<open>
  C22. An incomplete write is refused, on any engine and in any state of the transaction, before a
  cell is read or written: an incomplete entry or group payload, the erase of a required field, and
  the erase of a group with a required field.
\<close>

theorem incomplete_refused:
  "(as_target site = AtEntry fs gs \<longrightarrow> \<not> entry_complete fs gs e \<longrightarrow>
      create_entry E indexes site keys e st = (fault Incomplete, st) \<and> replace_entry E indexes site keys e st = (fault Incomplete, st))
   \<and> (as_target site = AtField p \<longrightarrow> fp_required p \<longrightarrow> erase_field E indexes site keys st = (fault Incomplete, st))
   \<and> (as_target site = AtGroup n hs \<longrightarrow> \<not> (record_complete hs (ev_fields e) \<and> ev_groups e = []) \<longrightarrow>
        replace_group E site keys e st = (fault Incomplete, st))
   \<and> (as_target site = AtGroup n hs \<longrightarrow> list_ex rf_required hs \<longrightarrow> erase_group E site keys st = (fault Incomplete, st))"
  by (auto simp: create_entry_def replace_entry_def erase_field_def replace_group_def erase_group_def node_shape_def field_target_def
      group_target_def require_complete_eq require_record_eq)

theorem incomplete_refused_witness:
  "create_entry mem_txn flag_indexes flag_entry_site [KBool True] (EntryValue [None] []) (Some no_cells) = (fault Incomplete, Some no_cells)"
  using incomplete_refused [of flag_entry_site "[flag_field]" "[]" "EntryValue [None] []" mem_txn flag_indexes "[KBool True]" "Some no_cells"]
  by (simp add: flag_target entry_complete_def record_complete_def flag_field_def)

section \<open>Managed indexes\<close>

text \<open>
  C23. Index maintenance is an invariant of the session: through any sequence of successful
  mutations, the rows of each index of a root are exactly the projections of the root's present
  entries, each row holding the key of its source; so no two entries share a row.
\<close>

theorem indexes_stay_coherent:
  assumes "txn_ok s" "sound_store shape (txn_cells s)" "root_coherent R (txn_cells s)"
    "indexes_wf (ri_columns R) (ri_indexes R)" "fst (shape (ri_root R)) = ri_fields R"
    "\<forall>site \<in> sites. site_shaped shape site \<and> rooted R indexes site"
    "(session_step mem_txn indexes sites)\<^sup>*\<^sup>* s t"
  shows "root_coherent R (txn_cells t)
     \<and> (\<forall>ix \<in> set (ri_indexes R). \<forall>ks ls row.
          entry_row (txn_cells t) (ri_root R) (ri_columns R) (ri_fields R) ix ks = Some row \<and>
          entry_row (txn_cells t) (ri_root R) (ri_columns R) (ri_fields R) ix ls = Some row \<longrightarrow> ks = ls)"
proof -
  have "root_coherent R (txn_cells t)" using mem.steps_keep_coherent [OF assms(7,6,1-5)] .
  then show ?thesis using rows_match_inj by (fastforce simp: root_coherent_def coherent_def)
qed

definition flag_root_info :: root_info where
  "flag_root_info = \<lparr>ri_root = 0, ri_columns = [SkBool], ri_fields = [flag_field], ri_indexes = flag_indexes ! 0\<rparr>"

lemma flag_rooted: "rooted flag_root_info flag_indexes flag_entry_site"
  by (simp add: rooted_def flag_root_info_def site_family_def maintained_def flag_entry_site_def site_columns_def)

lemma flag_indexes_wf: "indexes_wf (ri_columns flag_root_info) (ri_indexes flag_root_info)"
  by (simp add: indexes_wf_def flag_root_info_def flag_indexes_def)

lemma flag_step: "session_step mem_txn flag_indexes {flag_entry_site} no_cells \<lparr>txn_base = [], txn_working = flag_cells k b\<rparr>"
  by (rule session_step.create [OF flag_created _ flag_target flag_typed]) simp

lemma flag_fields: "fst (flag_shape (ri_root flag_root_info)) = ri_fields flag_root_info"
  by (simp add: flag_shape_def flag_root_info_def)

lemma flag_sites: "\<forall>site \<in> {flag_entry_site}. site_shaped flag_shape site \<and> rooted flag_root_info flag_indexes site"
  using flag_shaped flag_rooted by simp

lemma flag_empty: "sound_store flag_shape (txn_cells no_cells)" "root_coherent flag_root_info (txn_cells no_cells)"
  using sound_store_empty coherent_empty no_cells_ok(2) by simp_all

theorem indexes_stay_coherent_witness: "root_coherent flag_root_info (txn_cells flagged)"
  using indexes_stay_coherent [where R = flag_root_info and shape = flag_shape, OF no_cells_ok(1) _ _ flag_indexes_wf flag_fields]
    flag_empty flag_sites r_into_rtranclp [where r = "session_step mem_txn flag_indexes {flag_entry_site}", OF flag_step [of True False]]
  by blast

text \<open>
  Over a coherent root, a lookup through a unique index answers with an entry's key exactly
  when that entry is present and projects to the row looked up, and with nothing exactly when no
  entry does.
\<close>

theorem unique_lookup_finds_entry:
  assumes "root_coherent R (txn_cells t)" "ix \<in> set (ri_indexes R)"
    "as_target site = AtIndex (ix_id ix) True kinds" "as_root_number site = ri_root R" "as_columns site = ri_columns R"
    "keys_fit kinds row"
  shows "(op_index_lookup mem_txn t site row = Inr None \<longleftrightarrow>
            (\<forall>ks. entry_row (txn_cells t) (ri_root R) (ri_columns R) (ri_fields R) ix ks \<noteq> Some row))
     \<and> (\<forall>ks. op_index_lookup mem_txn t site row = Inr (Some ks) \<longleftrightarrow>
            list_all key_wf ks \<and> entry_row (txn_cells t) (ri_root R) (ri_columns R) (ri_fields R) ix ks = Some row)"
proof -
  let ?row = "entry_row (txn_cells t) (ri_root R) (ri_columns R) (ri_fields R) ix"
  note match = assms(1,2) [unfolded root_coherent_def coherent_def]
  then have match: "rows_match (index_rows (txn_cells t) (ri_root R) ix) ?row" by blast
  show ?thesis
  proof (cases "index_rows (txn_cells t) (ri_root R) ix row")
    case None
    then have "\<forall>ks. ?row ks \<noteq> Some row" using rows_match_none [OF match] by simp
    then show ?thesis using mem_lookup [OF assms(3,6)] None assms(4) by simp
  next
    case (Some bs)
    then obtain ks where ks: "bs = index_cell_value ks" "?row ks = Some row" using match by (auto simp: rows_match_def)
    then have only: "?row ls = Some row \<longleftrightarrow> ls = ks" for ls using rows_match_inj [OF match] by blast
    have fit: "keys_fit (ri_columns R) ks" using ks(2) by (auto simp: entry_row_def split: if_splits)
    then have len: "length ks = length (ri_columns R)" by (simp add: keys_fit_def list_all2_lengthD)
    then have dec: "decode_index_source_key bs (length (as_columns site)) = (if list_all key_wf ks then Some ks else None)"
      using index_source_roundtrip [of bs "length (as_columns site)"] ks(1) assms(5)
      by (metis (full_types) index_cell_value_inject not_Some_eq)
    have "check_keys ks (ri_columns R) = Inr ()" using check_keys_fit [OF len] fit by simp
    then show ?thesis using mem_lookup [OF assms(3,6)] Some assms(4,5) dec ks(2) only by auto
  qed
qed

theorem unique_lookup_finds_entry_witness:
  "op_index_lookup mem_txn flagged (flag_entry_site\<lparr>as_target := AtIndex (replicate 16 7) True [SkBool]\<rparr>) [KBool False]
     = Inr (Some [KBool True])"
proof -
  let ?ix = "\<lparr>ix_id = replicate 16 7, ix_unique = True, ix_projection = [IcField 0]\<rparr>"
  let ?site = "flag_entry_site\<lparr>as_target := AtIndex (replicate 16 7) True [SkBool]\<rparr>"
  have coh: "root_coherent flag_root_info (txn_cells flagged)"
    using mem.step_keeps_coherent [OF flag_step flag_sites no_cells_ok(1) flag_empty flag_indexes_wf flag_fields] .
  have "entry_row (txn_cells flagged) 0 [SkBool] [flag_field] ?ix [KBool True] = Some [KBool False]"
    using flagged_cells(1,2)
    by (simp add: entry_row_def keys_fit_def scalar_key_matches_type_def read_slots_def leaf_value_def flag_field_def
        decode_domain_def scalar_shape_def project_row_def as_key_def)
  then show ?thesis
    using unique_lookup_finds_entry [OF coh, of ?ix ?site "[SkBool]" "[KBool False]"]
    by (simp add: flag_root_info_def flag_indexes_def flag_entry_site_def keys_fit_def scalar_key_matches_type_def)
qed

end
