(* ===== verification/Commit_State.thy ===== *)
theory Commit_State
  imports Prelude
begin

text \<open>
  \<open>DurableCommitState\<close> of \<open>crates/marrow-codes/src/lib.rs\<close>: the classification of an interrupted commit that
  the kernel makes, the wire carries and the tools report.
\<close>

datatype DurableCommitState = KnownOld | KnownNew | Unknown

fun durable_str :: "DurableCommitState \<Rightarrow> bytes" where
  "durable_str KnownOld = text_bytes ''known_old''"
| "durable_str KnownNew = text_bytes ''known_new''"
| "durable_str Unknown = text_bytes ''unknown''"

definition durable_parse :: "bytes \<Rightarrow> DurableCommitState option" where
  "durable_parse s =
     (if s = text_bytes ''known_old'' then Some KnownOld else if s = text_bytes ''known_new'' then Some KnownNew
      else if s = text_bytes ''unknown'' then Some Unknown else None)"

lemma durable_parse_iff: "durable_parse s = Some d \<longleftrightarrow> s = durable_str d"
  by (cases d) (auto simp: durable_parse_def)

end
