(* ===== verification/Handle.thy ===== *)
theory Handle
  imports Session_Invariant Commit_State
begin

text \<open>
  The store handle of \<open>crates/marrow-kernel/src/durable/store/handle.rs\<close>, the sessions it opens
  (\<open>read_session.rs\<close>, \<open>txn_session.rs\<close>), the authority check and the commit protocol with its recovery
  fact (\<open>durable/mod.rs\<close>).

  A \<open>ByteEngine\<close> is a record of its methods over the engine's state \<open>'g\<close>, the state \<open>'v\<close> of a read view
  and the state \<open>'s\<close> of a write transaction. A transaction borrows the engine: its state carries what
  the engine was, and \<open>be_commit\<close> and \<open>be_drop\<close> hand the engine back. A transaction session borrows the
  whole handle; the handle inside it is the one that is returned when the session ends, with a stale
  engine as long as the transaction is live.
\<close>

section \<open>Engines\<close>

record ('g, 'v, 's) byte_engine =
  be_read_view :: "'g \<Rightarrow> StoreError + 'v"
  be_view :: "'v engine"
  be_begin :: "'g \<Rightarrow> StoreError \<times> 'g + 's"
  be_txn :: "'s engine"
  be_commit :: "'s \<Rightarrow> CommitOutcome \<times> 'g"
  be_drop :: "'s \<Rightarrow> 'g"
  be_require_write_access :: "'g \<Rightarrow> StoreOp \<Rightarrow> StoreError + unit"
  be_audit_integrity :: "'g \<Rightarrow> (StoreError + unit) \<times> 'g"

definition memory_byte_engine :: "(MemoryEngine, MemoryEngine, MemTxn) byte_engine" where
  "memory_byte_engine =
     \<lparr>be_read_view = mem_read_view, be_view = mem_view, be_begin = \<lambda>g. map_err (\<lambda>e. (e, g)) (mem_begin g),
      be_txn = mem_txn, be_commit = mem_commit, be_drop = mem_drop,
      be_require_write_access = mem_require_write_access,
      be_audit_integrity = \<lambda>g. (mem_audit_integrity g, g)\<rparr>"

section \<open>Authority\<close>

record DemandCoverage =
  dc_read :: bool
  dc_write :: bool

record InvocationGrant =
  ig_read :: bool
  ig_write :: bool

definition full_store :: InvocationGrant where
  "full_store = \<lparr>ig_read = True, ig_write = True\<rparr>"

datatype PrincipalPredicate = AnyPrincipal

fun narrow :: "PrincipalPredicate \<Rightarrow> DemandCoverage \<Rightarrow> DemandCoverage" where
  "narrow AnyPrincipal effective = effective"

datatype Denied = Denied

datatype SessionError = SessionDenied | SessionPoisoned | SessionEngine StoreError

definition resolve_authority :: "DemandCoverage \<Rightarrow> DemandCoverage \<Rightarrow> InvocationGrant \<Rightarrow> Denied + unit" where
  "resolve_authority demand ceiling grant =
     (let read_ok = \<not> dc_read demand \<or> dc_read ceiling \<and> ig_read grant;
          write_ok = \<not> dc_write demand \<or> dc_write ceiling \<and> ig_write grant
      in if read_ok \<and> write_ok then Inr () else Inl Denied)"

section \<open>The commit witness\<close>

text \<open>The bytes of \<open>"witness"\<close>.\<close>

definition WITNESS :: bytes where
  "WITNESS = [0x77, 0x69, 0x74, 0x6E, 0x65, 0x73, 0x73]"

definition WITNESS_VERSION :: byte where "WITNESS_VERSION = 0x01"
definition WITNESS_V1_BYTES :: nat where "WITNESS_V1_BYTES = 1 + 16"

definition witness_well_formed :: "bytes \<Rightarrow> bool" where
  "witness_well_formed bs \<longleftrightarrow> length bs = WITNESS_V1_BYTES \<and> bs ! 0 = WITNESS_VERSION"

text \<open>\<open>u128::checked_add(1)\<close>.\<close>

definition checked_succ :: "u128 \<Rightarrow> u128 option" where
  "checked_succ n = (if unat n + 1 < 2 ^ 128 then Some (n + 1) else None)"

definition next_witness :: "bytes option \<Rightarrow> StoreError + bytes" where
  "next_witness before =
     rbind (case before of
              None \<Rightarrow> Inr 0
            | Some bs \<Rightarrow>
                if witness_well_formed bs
                then ok_or (checked_succ (of_be_bytes (drop 1 bs))) (LimitExceeded CommitWitnessGeneration)
                else Inl (StoreCorruption ''the commit witness cell has an unknown encoding''))
       (\<lambda>generation. Inr (WITNESS_VERSION # be_bytes (generation :: u128)))"

section \<open>Recovery facts and commit results\<close>

record CommitRecoveryScope =
  crs_instance :: bytes
  crs_path :: string

definition scope_persistent :: "bytes \<Rightarrow> string \<Rightarrow> CommitRecoveryScope" where
  "scope_persistent inst path = \<lparr>crs_instance = inst, crs_path = path\<rparr>"

record CommitRecovery =
  cr_scope :: "CommitRecoveryScope option"
  cr_before :: "bytes option"
  cr_after :: bytes

record RecoveryIntent =
  ri_scope :: "CommitRecoveryScope option"
  ri_before :: "bytes option"
  ri_after :: bytes

datatype CommitResult = Committed | Aborted | Indeterminate CommitRecovery | SessionFinished

section \<open>The handle\<close>

record 'g DurableStore =
  ds_engine :: 'g
  ds_projection :: StoreProjection
  ds_numbering :: "RootNumbering list"
  ds_ceiling :: DemandCoverage
  ds_recovery_scope :: "CommitRecoveryScope option"
  ds_poisoned :: bool

definition from_numbered_with_optional_recovery_scope :: "'g \<Rightarrow> NumberedProjection \<Rightarrow> DemandCoverage \<Rightarrow>
    CommitRecoveryScope option \<Rightarrow> 'g DurableStore" where
  "from_numbered_with_optional_recovery_scope g layout ceiling scope =
     \<lparr>ds_engine = g, ds_projection = np_projection layout, ds_numbering = np_numbering layout,
      ds_ceiling = ceiling, ds_recovery_scope = scope, ds_poisoned = False\<rparr>"

definition from_numbered_with_ceiling_and_recovery_scope :: "'g \<Rightarrow> NumberedProjection \<Rightarrow> DemandCoverage \<Rightarrow>
    CommitRecoveryScope \<Rightarrow> 'g DurableStore" where
  "from_numbered_with_ceiling_and_recovery_scope g layout ceiling scope =
     from_numbered_with_optional_recovery_scope g layout ceiling (Some scope)"

definition from_projection_with_ceiling :: "'g \<Rightarrow> StoreProjection \<Rightarrow> DemandCoverage \<Rightarrow> unit halt + 'g DurableStore" where
  "from_projection_with_ceiling g projection ceiling =
     rbind (np_fresh projection) (\<lambda>layout.
       Inr (from_numbered_with_optional_recovery_scope g layout ceiling None))"

definition from_engine :: "('g, 'v, 's) byte_engine \<Rightarrow> 'g \<Rightarrow> StoreProjection \<Rightarrow> unit halt + 'g DurableStore" where
  "from_engine B g projection =
     from_projection_with_ceiling g projection
       \<lparr>dc_read = True, dc_write = (case be_require_write_access B g OpOpen of Inr _ \<Rightarrow> True | Inl _ \<Rightarrow> False)\<rparr>"

text \<open>The witness cell of a fresh read view: \<open>read_view().and_then(|view| view.get(..))\<close>.\<close>

definition read_witness :: "('g, 'v, 's) byte_engine \<Rightarrow> 'g \<Rightarrow> StoreError + bytes option" where
  "read_witness B g = rbind (be_read_view B g) (\<lambda>view. eng_get (be_view B) view (meta_key WITNESS))"

definition classify_recovery :: "('g, 'v, 's) byte_engine \<Rightarrow> CommitRecovery \<Rightarrow> 'g DurableStore \<Rightarrow>
    DurableCommitState \<times> 'g DurableStore" where
  "classify_recovery B recovery store =
     (if ds_poisoned store then (Unknown, store)
      else if ds_recovery_scope store = None \<or> ds_recovery_scope store \<noteq> cr_scope recovery
           then (Unknown, store\<lparr>ds_poisoned := True\<rparr>)
      else case read_witness B (ds_engine store) of
             Inl _ \<Rightarrow> (Unknown, store\<lparr>ds_poisoned := True\<rparr>)
           | Inr current \<Rightarrow>
               (let state = (if current = Some (cr_after recovery) then KnownNew
                             else if current = cr_before recovery then KnownOld else Unknown)
                in (state, store\<lparr>ds_poisoned := (state = Unknown)\<rparr>)))"

definition into_parts :: "'g DurableStore \<Rightarrow> 'g \<times> NumberedProjection" where
  "into_parts store =
     (ds_engine store, \<lparr>np_projection = ds_projection store, np_numbering = ds_numbering store\<rparr>)"

definition check_poison :: "'g DurableStore \<Rightarrow> SessionError halt + unit" where
  "check_poison store = (if ds_poisoned store then Inl (Raise SessionPoisoned) else Inr ())"

section \<open>Opening sessions\<close>

record 'v ReadSession =
  rs_view :: 'v
  rs_auth :: "AuthorizedSite option list"

record ('g, 's) TxnSession =
  ts_txn :: "'s option"
  ts_store :: "'g DurableStore"
  ts_auth :: "AuthorizedSite option list"
  ts_recovery :: "RecoveryIntent option"
  ts_indexes :: "IndexSchema list list"

text \<open>The checks that both kinds of session make before they touch the engine, and the site table.\<close>

definition session_setup :: "InvocationGrant \<Rightarrow> DemandCoverage \<Rightarrow> 'g DurableStore \<Rightarrow>
    SessionError halt + AuthorizedSite option list" where
  "session_setup grant demand store =
     rbind (check_poison store) (\<lambda>_.
     rbind (map_err (\<lambda>_. Raise SessionDenied) (resolve_authority demand (ds_ceiling store) grant)) (\<lambda>_.
       map_err (\<lambda>_. Panic) (authorized_sites (ds_projection store) (ds_numbering store))))"

definition read_session :: "('g, 'v, 's) byte_engine \<Rightarrow> InvocationGrant \<Rightarrow> DemandCoverage \<Rightarrow> 'g DurableStore \<Rightarrow>
    SessionError halt + 'v ReadSession" where
  "read_session B grant demand store =
     rbind (session_setup grant demand store) (\<lambda>auth.
     rbind (map_err (\<lambda>e. Raise (SessionEngine e)) (be_read_view B (ds_engine store))) (\<lambda>view.
       Inr \<lparr>rs_view = view, rs_auth = auth\<rparr>))"

text \<open>A refused opening hands the handle back beside the error.\<close>

definition txn_session :: "('g, 'v, 's) byte_engine \<Rightarrow> InvocationGrant \<Rightarrow> DemandCoverage \<Rightarrow> 'g DurableStore \<Rightarrow>
    SessionError halt \<times> 'g DurableStore + ('g, 's) TxnSession" where
  "txn_session B grant demand store =
     rbind (map_err (\<lambda>e. (e, store))
             (rbind (session_setup grant demand store) (\<lambda>auth.
              rbind (map_err (\<lambda>e. Raise (SessionEngine e)) (read_witness B (ds_engine store))) (\<lambda>before.
              rbind (map_err (\<lambda>e. Raise (SessionEngine e)) (next_witness before)) (\<lambda>after.
                Inr (auth, before, after))))))
       (\<lambda>(auth, before, after).
          rbind (map_err (\<lambda>(e, g). (Raise (SessionEngine e), store\<lparr>ds_engine := g\<rparr>)) (be_begin B (ds_engine store))) (\<lambda>txn.
            Inr \<lparr>ts_txn = Some txn, ts_store = store, ts_auth = auth,
                 ts_recovery = Some \<lparr>ri_scope = ds_recovery_scope store, ri_before = before, ri_after = after\<rparr>,
                 ts_indexes = map ss_indexes (sp_roots (ds_projection store))\<rparr>))"

section \<open>Commit\<close>

definition end_txn :: "'g \<Rightarrow> ('g, 's) TxnSession \<Rightarrow> ('g, 's) TxnSession" where
  "end_txn g ts = ts\<lparr>ts_txn := None, ts_store := (ts_store ts)\<lparr>ds_engine := g\<rparr>\<rparr>"

definition do_commit :: "('g, 'v, 's) byte_engine \<Rightarrow> ('g, 's) TxnSession \<Rightarrow>
    (unit halt + CommitResult) \<times> ('g, 's) TxnSession" where
  "do_commit B ts =
     (case ts_txn ts of
        None \<Rightarrow> (Inr SessionFinished, ts)
      | Some txn \<Rightarrow>
          if ds_poisoned (ts_store ts) then (Inr Aborted, ts)
          else case ts_recovery ts of
            None \<Rightarrow> (Inl Panic, ts)
          | Some intent \<Rightarrow>
              case eng_put (be_txn B) (meta_key WITNESS) (ri_after intent) txn of
                (Inl _, txn') \<Rightarrow> (Inr Aborted, end_txn (be_drop B txn') ts)
              | (Inr _, txn') \<Rightarrow>
                  case be_commit B txn' of
                    (Confirmed, g) \<Rightarrow> (Inr Committed, (end_txn g ts)\<lparr>ts_recovery := None\<rparr>)
                  | (CommitAborted, g) \<Rightarrow> (Inr Aborted, (end_txn g ts)\<lparr>ts_recovery := None\<rparr>)
                  | (CommitIndeterminate, g) \<Rightarrow>
                      (Inr (Indeterminate \<lparr>cr_scope = ri_scope intent, cr_before = ri_before intent,
                                           cr_after = ri_after intent\<rparr>),
                       (end_txn g ts)\<lparr>ts_recovery := None,
                         ts_store := (ts_store (end_txn g ts))\<lparr>ds_poisoned := True\<rparr>\<rparr>))"

text \<open>Dropping a session drops a live transaction and ends the borrow of the handle.\<close>

definition end_session :: "('g, 'v, 's) byte_engine \<Rightarrow> ('g, 's) TxnSession \<Rightarrow> 'g DurableStore" where
  "end_session B ts =
     (case ts_txn ts of None \<Rightarrow> ts_store ts | Some txn \<Rightarrow> (ts_store ts)\<lparr>ds_engine := be_drop B txn\<rparr>)"

section \<open>The session interface\<close>

text \<open>
  The \<open>Durable\<close> trait as a record of its methods over the session's state. The reads of an entry and
  of a group page through the store, so they may in principle not return.
\<close>

record 'd durable =
  d_site :: "u16 \<Rightarrow> 'd \<Rightarrow> AuthorizedSite kernel"
  d_presence :: "AuthorizedSite \<Rightarrow> KeyScalar list \<Rightarrow> 'd \<Rightarrow> Presence kernel"
  d_read_field :: "AuthorizedSite \<Rightarrow> KeyScalar list \<Rightarrow> 'd \<Rightarrow> ValueDomain option kernel"
  d_read_entry :: "AuthorizedSite \<Rightarrow> KeyScalar list \<Rightarrow> 'd \<Rightarrow> (EntryValue option kernel) option"
  d_read_group :: "AuthorizedSite \<Rightarrow> KeyScalar list \<Rightarrow> 'd \<Rightarrow> (EntryValue option kernel) option"
  d_read_group_present :: "AuthorizedSite \<Rightarrow> KeyScalar list \<Rightarrow> 'd \<Rightarrow> (EntryValue kernel) option"
  d_replace_group :: "AuthorizedSite \<Rightarrow> KeyScalar list \<Rightarrow> EntryValue \<Rightarrow> 'd \<Rightarrow> unit kernel \<times> 'd"
  d_erase_group :: "AuthorizedSite \<Rightarrow> KeyScalar list \<Rightarrow> 'd \<Rightarrow> EraseOutcome kernel \<times> 'd"
  d_iterate_bounded :: "AuthorizedSite \<Rightarrow> KeyScalar list \<Rightarrow> KeyScalar option \<Rightarrow> u32 \<Rightarrow> 'd \<Rightarrow> BoundedKeys kernel"
  d_index_scan :: "AuthorizedSite \<Rightarrow> KeyScalar list \<Rightarrow> KeyScalar option \<Rightarrow> u32 \<Rightarrow> 'd \<Rightarrow> BoundedKeys kernel"
  d_index_lookup :: "AuthorizedSite \<Rightarrow> KeyScalar list \<Rightarrow> 'd \<Rightarrow> KeyScalar list option kernel"
  d_family_populated :: "AuthorizedSite \<Rightarrow> KeyScalar list \<Rightarrow> 'd \<Rightarrow> Presence kernel"
  d_set_field :: "AuthorizedSite \<Rightarrow> KeyScalar list \<Rightarrow> ValueDomain \<Rightarrow> 'd \<Rightarrow> unit kernel \<times> 'd"
  d_create_entry :: "AuthorizedSite \<Rightarrow> KeyScalar list \<Rightarrow> EntryValue \<Rightarrow> 'd \<Rightarrow> CreateOutcome kernel \<times> 'd"
  d_replace_entry :: "AuthorizedSite \<Rightarrow> KeyScalar list \<Rightarrow> EntryValue \<Rightarrow> 'd \<Rightarrow> unit kernel \<times> 'd"
  d_erase_field :: "AuthorizedSite \<Rightarrow> KeyScalar list \<Rightarrow> 'd \<Rightarrow> EraseOutcome kernel \<times> 'd"
  d_erase_entry :: "AuthorizedSite \<Rightarrow> KeyScalar list \<Rightarrow> 'd \<Rightarrow> EraseOutcome kernel \<times> 'd"
  d_commit :: "'d \<Rightarrow> (unit halt + CommitResult) \<times> 'd"

definition site_in :: "AuthorizedSite option list \<Rightarrow> u16 \<Rightarrow> AuthorizedSite kernel" where
  "site_in auth index =
     (if unat index < length auth then ok_or (auth ! unat index) Panic else Inl Panic)"

definition group_present :: "(EntryValue option kernel) option \<Rightarrow> (EntryValue kernel) option" where
  "group_present r = map_option (\<lambda>k. rbind k (\<lambda>v. ok_or v (Raise Corruption))) r"

text \<open>A mutation of a read session is \<open>unreachable!\<close>.\<close>

definition no_mutation :: "'d \<Rightarrow> 'a kernel \<times> 'd" where
  "no_mutation d = (Inl Panic, d)"

definition read_durable :: "('g, 'v, 's) byte_engine \<Rightarrow> 'v ReadSession durable" where
  "read_durable B =
     \<lparr>d_site = \<lambda>index rs. site_in (rs_auth rs) index,
      d_presence = \<lambda>site keys rs. op_presence (be_view B) (rs_view rs) site keys,
      d_read_field = \<lambda>site keys rs. op_read_field (be_view B) (rs_view rs) site keys,
      d_read_entry = \<lambda>site keys rs. op_read_entry (be_view B) (rs_view rs) site keys,
      d_read_group = \<lambda>site keys rs. op_read_group (be_view B) (rs_view rs) site keys,
      d_read_group_present = \<lambda>site keys rs. group_present (op_read_group (be_view B) (rs_view rs) site keys),
      d_replace_group = \<lambda>_ _ _. no_mutation,
      d_erase_group = \<lambda>_ _. no_mutation,
      d_iterate_bounded = \<lambda>site keys from_key limit rs. op_iterate_bounded (be_view B) (rs_view rs) site keys from_key limit,
      d_index_scan = \<lambda>site pre from_key limit rs. op_index_scan (be_view B) (rs_view rs) site pre from_key limit,
      d_index_lookup = \<lambda>site key rs. op_index_lookup (be_view B) (rs_view rs) site key,
      d_family_populated = \<lambda>site keys rs. op_family_populated (be_view B) (rs_view rs) site keys,
      d_set_field = \<lambda>_ _ _. no_mutation,
      d_create_entry = \<lambda>_ _ _. no_mutation,
      d_replace_entry = \<lambda>_ _ _. no_mutation,
      d_erase_field = \<lambda>_ _. no_mutation,
      d_erase_entry = \<lambda>_ _. no_mutation,
      d_commit = \<lambda>rs. (Inr Committed, rs)\<rparr>"

text \<open>Reads and mutations of a transaction session need its transaction to be live.\<close>

definition on_txn :: "('g, 's) TxnSession \<Rightarrow> ('s \<Rightarrow> 'a kernel) \<Rightarrow> 'a kernel" where
  "on_txn ts f = fst (txn_read f (ts_txn ts))"

definition on_txn_paged :: "('g, 's) TxnSession \<Rightarrow> ('s \<Rightarrow> ('a kernel) option) \<Rightarrow> ('a kernel) option" where
  "on_txn_paged ts f = (case ts_txn ts of None \<Rightarrow> Some (Inl Panic) | Some txn \<Rightarrow> f txn)"

definition run_txn :: "('s, 'a) txn_op \<Rightarrow> ('g, 's) TxnSession \<Rightarrow> 'a kernel \<times> ('g, 's) TxnSession" where
  "run_txn oper ts = (case oper (ts_txn ts) of (r, txn) \<Rightarrow> (r, ts\<lparr>ts_txn := txn\<rparr>))"

definition txn_durable :: "('g, 'v, 's) byte_engine \<Rightarrow> ('g, 's) TxnSession durable" where
  "txn_durable B =
     \<lparr>d_site = \<lambda>index ts. site_in (ts_auth ts) index,
      d_presence = \<lambda>site keys ts. on_txn ts (\<lambda>s. op_presence (be_txn B) s site keys),
      d_read_field = \<lambda>site keys ts. on_txn ts (\<lambda>s. op_read_field (be_txn B) s site keys),
      d_read_entry = \<lambda>site keys ts. on_txn_paged ts (\<lambda>s. op_read_entry (be_txn B) s site keys),
      d_read_group = \<lambda>site keys ts. on_txn_paged ts (\<lambda>s. op_read_group (be_txn B) s site keys),
      d_read_group_present = \<lambda>site keys ts. group_present (on_txn_paged ts (\<lambda>s. op_read_group (be_txn B) s site keys)),
      d_replace_group = \<lambda>site keys v. run_txn (replace_group (be_txn B) site keys v),
      d_erase_group = \<lambda>site keys. run_txn (erase_group (be_txn B) site keys),
      d_iterate_bounded = \<lambda>site keys from_key limit ts. on_txn ts (\<lambda>s. op_iterate_bounded (be_txn B) s site keys from_key limit),
      d_index_scan = \<lambda>site pre from_key limit ts. on_txn ts (\<lambda>s. op_index_scan (be_txn B) s site pre from_key limit),
      d_index_lookup = \<lambda>site key ts. on_txn ts (\<lambda>s. op_index_lookup (be_txn B) s site key),
      d_family_populated = \<lambda>site keys ts. on_txn ts (\<lambda>s. op_family_populated (be_txn B) s site keys),
      d_set_field = \<lambda>site keys v ts. run_txn (set_field (be_txn B) (ts_indexes ts) site keys v) ts,
      d_create_entry = \<lambda>site keys entry ts. run_txn (create_entry (be_txn B) (ts_indexes ts) site keys entry) ts,
      d_replace_entry = \<lambda>site keys entry ts. run_txn (replace_entry (be_txn B) (ts_indexes ts) site keys entry) ts,
      d_erase_field = \<lambda>site keys ts. run_txn (erase_field (be_txn B) (ts_indexes ts) site keys) ts,
      d_erase_entry = \<lambda>site keys ts. run_txn (erase_entry (be_txn B) (ts_indexes ts) site keys) ts,
      d_commit = do_commit B\<rparr>"

end
