(* ===== verification/Logical_Audit.thy ===== *)
theory Logical_Audit
  imports Handle
begin

text \<open>
  The logical audit of \<open>crates/marrow-kernel/src/durable/audit.rs\<close>: one read-only walk over every cell of
  a store against its projection. The walker's state is a record; a step returns the new state or an
  engine error, and every index and \<open>expect\<close> of the source that could fail is a panic. The digest and
  the export sink are caller-supplied consumers: a function that updates the caller's state. A
  \<open>HashMap\<close> is a partial function, a \<open>sort_by\<close> the stable \<open>sort_key\<close>. The \<open>u64\<close> counters are naturals:
  they count cells of one store.
\<close>

definition MAX_REPORTED_FINDINGS :: nat where "MAX_REPORTED_FINDINGS = 256"

datatype AuditKind = AkEntry | AkIndex | AkOther

datatype AuditFault = Undecodable | OutsideSchema | RequiredMissing | OrphanLeaf | MarkerInvalid
  | IndexOrphan | IndexStale | IndexMissing | WitnessInvalid

datatype AuditSite =
    NodeSite u16 "u16 list" "KeyScalar list"
  | FieldSite u16 "u16 list" "KeyScalar list" "u16 option" u16
  | IndexCellSite u16 u16 "KeyScalar list"
  | UndeclaredIndex u16 bytes
  | CellSite bytes

record AuditFinding =
  af_fault :: AuditFault
  af_site :: AuditSite

record AuditSummary =
  sm_cells :: nat
  sm_entries :: nat
  sm_index_cells :: nat
  sm_findings :: nat

record AuditReport =
  ar_summary :: AuditSummary
  ar_findings :: "AuditFinding list"

definition is_clean :: "AuditReport \<Rightarrow> bool" where
  "is_clean report \<longleftrightarrow> sm_findings (ar_summary report) = 0"

datatype 'e WalkError = WalkStore StoreError | WalkConsumer 'e

section \<open>The fixed tables\<close>

record FieldSlot =
  fsl_shape :: ValueShape
  fsl_required :: bool

record GroupSlot =
  gsl_suffix :: bytes
  gsl_fields :: "FieldSlot list"
  gsl_by_suffix :: "bytes \<rightharpoonup> nat"

record FamilyShape =
  fam_root :: nat
  fam_number :: NodeNumber
  fam_prefix :: bytes
  fam_branch_path :: "u16 list"
  fam_key_segments :: "ScalarKind list list"
  fam_fields :: "FieldSlot list"
  fam_by_suffix :: "bytes \<rightharpoonup> nat"
  fam_groups :: "GroupSlot list"

datatype Component = CKey nat | CField nat

record IndexShape =
  ish_root :: u16
  ish_position :: u16
  ish_prefix :: bytes
  ish_id :: bytes
  ish_components :: "(Component \<times> ScalarKind) list"

record RootShape =
  rsh_family :: nat
  rsh_index_family :: bytes
  rsh_number :: NodeNumber
  rsh_field_numbers :: "NodeNumber list"
  rsh_indexes :: "nat list"

record Tables =
  tb_families :: "FamilyShape list"
  tb_roots :: "RootShape list"
  tb_indexes :: "IndexShape list"
  tb_witness :: bytes

fun component_of :: "IndexComponent \<Rightarrow> Component" where
  "component_of (IcKey column) = CKey (unat column)"
| "component_of (IcField field) = CField (unat field)"

definition index_shape :: "u16 \<Rightarrow> u16 \<Rightarrow> NodeNumber \<Rightarrow> StoreSchema \<Rightarrow> IndexSchema \<Rightarrow> unit halt + IndexShape" where
  "index_shape root position root_number schema index =
     rbind (traverse (\<lambda>c. rbind (index_component_kind schema c) (\<lambda>kind. Inr (component_of c, kind)))
              (ix_projection index)) (\<lambda>components.
       Inr \<lparr>ish_root = root, ish_position = position, ish_prefix = index_cell_key root_number (ix_id index) [],
            ish_id = ix_id index, ish_components = components\<rparr>)"

definition field_slots :: "FieldSchema list \<Rightarrow> FieldSlot list" where
  "field_slots fs = map (\<lambda>f. \<lparr>fsl_shape = fd_shape f, fsl_required = fd_required f\<rparr>) fs"

definition suffix_map :: "NodeNumber list \<Rightarrow> (bytes \<rightharpoonup> nat)" where
  "suffix_map numbers = fold (\<lambda>(i, n) m. m(stem_field_leaf [] n \<mapsto> i)) (enumerate 0 numbers) Map.empty"

definition group_slots :: "GroupSchema list \<Rightarrow> GroupNumbering list \<Rightarrow> GroupSlot list" where
  "group_slots groups numbers =
     map (\<lambda>(g, n). \<lparr>gsl_suffix = group_stem [] (gn_number n), gsl_fields = field_slots (gp_fields g),
                     gsl_by_suffix = suffix_map (gn_fields n)\<rparr>) (zip groups numbers)"

text \<open>\<open>append_branches\<close>, with the position of the first branch of the list.\<close>

fun append_branches :: "nat \<Rightarrow> u16 list \<Rightarrow> ScalarKind list list \<Rightarrow> nat \<Rightarrow> BranchSchema list \<Rightarrow> BranchNumbering list \<Rightarrow>
    FamilyShape list" where
  "append_branches root parent_path parent_keys position (BranchSchema bname bkey bfs bbs # branches) (numbering # numbers) =
     (let branch_path = parent_path @ [word_of_nat position];
          key_segments = parent_keys @ [bkey]
      in \<lparr>fam_root = root, fam_number = bn_number numbering, fam_prefix = entry_family_prefix (bn_number numbering),
          fam_branch_path = branch_path, fam_key_segments = key_segments, fam_fields = field_slots bfs,
          fam_by_suffix = suffix_map (bn_fields numbering), fam_groups = []\<rparr>
         # append_branches root branch_path key_segments 0 bbs (bn_branches numbering)
         @ append_branches root parent_path parent_keys (Suc position) branches numbers)"
| "append_branches root parent_path parent_keys position _ _ = []"

definition root_families :: "nat \<Rightarrow> StoreSchema \<Rightarrow> RootNumbering \<Rightarrow> FamilyShape list" where
  "root_families position schema numbers =
     \<lparr>fam_root = position, fam_number = rn_root numbers, fam_prefix = entry_family_prefix (rn_root numbers),
      fam_branch_path = [], fam_key_segments = [ss_key schema], fam_fields = field_slots (ss_fields schema),
      fam_by_suffix = suffix_map (rn_fields numbers), fam_groups = group_slots (ss_groups schema) (rn_groups numbers)\<rparr>
     # append_branches position [] [ss_key schema] 0 (ss_branches schema) (rn_branches numbers)"

definition root_indexes :: "nat \<Rightarrow> StoreSchema \<Rightarrow> RootNumbering \<Rightarrow> unit halt + IndexShape list" where
  "root_indexes position schema numbers =
     traverse (\<lambda>(index_pos, index). index_shape (word_of_nat position) (word_of_nat index_pos) (rn_root numbers) schema index)
       (enumerate 0 (ss_indexes schema))"

definition root_shape :: "nat \<Rightarrow> RootNumbering \<Rightarrow> RootShape" where
  "root_shape family numbers =
     (let any_index = index_cell_key (rn_root numbers) (replicate 16 0) []
      in \<lparr>rsh_family = family, rsh_index_family = take (length any_index - 16) any_index, rsh_number = rn_root numbers,
          rsh_field_numbers = rn_fields numbers, rsh_indexes = []\<rparr>)"

text \<open>The loop over the declared roots.\<close>

fun declare_roots :: "nat \<Rightarrow> (StoreSchema \<times> RootNumbering) list \<Rightarrow> FamilyShape list \<Rightarrow> IndexShape list \<Rightarrow> RootShape list \<Rightarrow>
    unit halt + FamilyShape list \<times> IndexShape list \<times> RootShape list" where
  "declare_roots position [] families indexes roots = Inr (families, indexes, roots)"
| "declare_roots position ((schema, numbers) # rest) families indexes roots =
     rbind (root_indexes position schema numbers) (\<lambda>ixs.
       declare_roots (Suc position) rest (families @ root_families position schema numbers) (indexes @ ixs)
         (roots @ [root_shape (length families) numbers]))"

definition update_or_panic :: "nat \<Rightarrow> ('a \<Rightarrow> 'a) \<Rightarrow> 'a list \<Rightarrow> 'e halt + 'a list" where
  "update_or_panic i f xs = rbind (nth_or_panic xs i) (\<lambda>x. Inr (xs[i := f x]))"

fun place_families :: "nat \<Rightarrow> FamilyShape list \<Rightarrow> RootShape list \<Rightarrow> unit halt + RootShape list" where
  "place_families position [] roots = Inr roots"
| "place_families position (family # families) roots =
     rbind (if fam_branch_path family = [] then update_or_panic (fam_root family) (\<lambda>r. r\<lparr>rsh_family := position\<rparr>) roots
            else Inr roots) (\<lambda>roots'. place_families (Suc position) families roots')"

fun place_indexes :: "nat \<Rightarrow> IndexShape list \<Rightarrow> RootShape list \<Rightarrow> unit halt + RootShape list" where
  "place_indexes position [] roots = Inr roots"
| "place_indexes position (index # indexes) roots =
     rbind (update_or_panic (unat (ish_root index)) (\<lambda>r. r\<lparr>rsh_indexes := rsh_indexes r @ [position]\<rparr>) roots) (\<lambda>roots'.
       place_indexes (Suc position) indexes roots')"

definition tables_new :: "StoreProjection \<Rightarrow> RootNumbering list \<Rightarrow> unit halt + Tables" where
  "tables_new projection numbering =
     rbind (declare_roots 0 (zip (sp_roots projection) numbering) [] [] []) (\<lambda>(families, indexes, roots).
       let families = sort_key fam_prefix families; indexes = sort_key ish_prefix indexes
       in rbind (place_families 0 families roots) (\<lambda>roots.
          rbind (place_indexes 0 indexes roots) (\<lambda>roots.
            Inr \<lparr>tb_families = families, tb_roots = roots, tb_indexes = indexes, tb_witness = meta_key WITNESS\<rparr>)))"

section \<open>Seeking\<close>

fun seek_loop :: "('a \<Rightarrow> bytes) \<Rightarrow> 'a list \<Rightarrow> nat \<Rightarrow> bytes \<Rightarrow> nat option \<times> nat" where
  "seek_loop prefix_of [] cursor key = (None, cursor)"
| "seek_loop prefix_of (item # items) cursor key =
     (if prefix (prefix_of item) key then (Some cursor, cursor)
      else if prefix_of item < key then seek_loop prefix_of items (Suc cursor) key
      else (None, cursor))"

text \<open>The result and the advanced cursor.\<close>

definition seek_prefix :: "('a \<Rightarrow> bytes) \<Rightarrow> 'a list \<Rightarrow> nat \<Rightarrow> bytes \<Rightarrow> nat option \<times> nat" where
  "seek_prefix prefix_of items cursor key = seek_loop prefix_of (drop cursor items) cursor key"

datatype Namespace = EntryNamespace nat | IndexNamespace nat

definition namespace :: "Tables \<Rightarrow> bytes \<Rightarrow> nat \<Rightarrow> nat \<Rightarrow> Namespace option \<times> nat \<times> nat" where
  "namespace tables key family_cursor index_cursor =
     (case seek_prefix fam_prefix (tb_families tables) family_cursor key of
        (Some family, family_cursor') \<Rightarrow> (Some (EntryNamespace family), family_cursor', index_cursor)
      | (None, family_cursor') \<Rightarrow>
          (case seek_prefix ish_prefix (tb_indexes tables) index_cursor key of
             (index, index_cursor') \<Rightarrow> (map_option IndexNamespace index, family_cursor', index_cursor')))"

fun decode_keys_from :: "bytes \<Rightarrow> ScalarKind list \<Rightarrow> KeyScalar list \<Rightarrow> nat \<Rightarrow> (KeyScalar list \<times> nat) option" where
  "decode_keys_from bs [] keys used = Some (keys, used)"
| "decode_keys_from bs (kind # kinds) keys used =
     (if used > length bs then None
      else case decode_key_value (drop used bs) of
             None \<Rightarrow> None
           | Some (column, n) \<Rightarrow>
               if \<not> scalar_key_matches_type column kind then None
               else decode_keys_from bs kinds (keys @ [column]) (used + n))"

definition decode_keys :: "bytes \<Rightarrow> ScalarKind list \<Rightarrow> (KeyScalar list \<times> nat) option" where
  "decode_keys bs kinds = decode_keys_from bs kinds [] 0"

section \<open>The walker\<close>

record Frame =
  fr_family :: nat
  fr_stem :: bytes
  fr_keys :: "KeyScalar list"
  fr_marker :: bool
  fr_own :: "bool list"
  fr_groups :: "bool list list"
  fr_projected :: "KeyScalar option list"
  fr_any_leaf :: bool

record 'd Walker =
  wk_frame :: "Frame option"
  wk_family_cursor :: nat
  wk_index_cursor :: nat
  wk_index_family_cursor :: nat
  wk_summary :: AuditSummary
  wk_findings :: "AuditFinding list"
  wk_digest :: 'd

type_synonym 'a walked = "StoreError halt + 'a"

definition finding :: "AuditFault \<Rightarrow> AuditSite \<Rightarrow> 'd Walker \<Rightarrow> 'd Walker" where
  "finding f site w =
     w\<lparr>wk_summary := (wk_summary w)\<lparr>sm_findings := sm_findings (wk_summary w) + 1\<rparr>,
       wk_findings := (if length (wk_findings w) < MAX_REPORTED_FINDINGS
                       then wk_findings w @ [\<lparr>af_fault = f, af_site = site\<rparr>] else wk_findings w)\<rparr>"

definition open_frame :: "'d Walker \<Rightarrow> Frame walked" where
  "open_frame w = ok_or (wk_frame w) Panic"

definition audit_node_site :: "Tables \<Rightarrow> 'd Walker \<Rightarrow> AuditSite walked" where
  "audit_node_site tables w =
     rbind (open_frame w) (\<lambda>frame.
     rbind (nth_or_panic (tb_families tables) (fr_family frame)) (\<lambda>family.
       Inr (NodeSite (word_of_nat (fam_root family)) (fam_branch_path family) (fr_keys frame))))"

definition site_of :: "Tables \<Rightarrow> Frame \<Rightarrow> nat option \<Rightarrow> nat \<Rightarrow> AuditSite walked" where
  "site_of tables frame grp field =
     rbind (nth_or_panic (tb_families tables) (fr_family frame)) (\<lambda>family.
       Inr (FieldSite (word_of_nat (fam_root family)) (fam_branch_path family) (fr_keys frame)
              (map_option word_of_nat grp) (word_of_nat field)))"

definition field_site :: "Tables \<Rightarrow> nat option \<Rightarrow> nat \<Rightarrow> 'd Walker \<Rightarrow> AuditSite walked" where
  "field_site tables grp field w = rbind (open_frame w) (\<lambda>frame. site_of tables frame grp field)"

definition own_leaf :: "Tables \<Rightarrow> 'd Walker \<Rightarrow> 'd Walker walked" where
  "own_leaf tables w =
     rbind (open_frame w) (\<lambda>frame.
       let first_orphan = (\<not> fr_marker frame \<and> \<not> fr_any_leaf frame);
           w = w\<lparr>wk_frame := Some (frame\<lparr>fr_any_leaf := True\<rparr>)\<rparr>
       in if first_orphan then rbind (audit_node_site tables w) (\<lambda>site. Inr (finding OrphanLeaf site w)) else Inr w)"

definition projected_key :: "ValueDomain option \<Rightarrow> KeyScalar option" where
  "projected_key decoded =
     (case decoded of
        Some (VScalar scalar) \<Rightarrow> (case as_key scalar of Inr key \<Rightarrow> key | Inl _ \<Rightarrow> None)
      | _ \<Rightarrow> None)"

text \<open>Recording the presence of a leaf in the open frame.\<close>

definition mark_leaf :: "nat option \<Rightarrow> nat \<Rightarrow> ValueDomain option \<Rightarrow> Frame \<Rightarrow> Frame walked" where
  "mark_leaf grp field decoded frame =
     (case grp of
        Some g \<Rightarrow>
          rbind (nth_or_panic (fr_groups frame) g) (\<lambda>flags.
          rbind (update_or_panic field (\<lambda>_. True) flags) (\<lambda>flags'.
            Inr (frame\<lparr>fr_groups := (fr_groups frame)[g := flags']\<rparr>)))
      | None \<Rightarrow>
          rbind (update_or_panic field (\<lambda>_. True) (fr_own frame)) (\<lambda>own.
            Inr (frame\<lparr>fr_own := own,
                       fr_projected := (if field < length (fr_projected frame)
                                        then (fr_projected frame)[field := projected_key decoded]
                                        else fr_projected frame)\<rparr>)))"

definition leaf :: "Tables \<Rightarrow> nat option \<Rightarrow> nat \<Rightarrow> bytes \<Rightarrow> 'd Walker \<Rightarrow> 'd Walker walked" where
  "leaf tables grp field v w =
     rbind (open_frame w) (\<lambda>frame.
     rbind (nth_or_panic (tb_families tables) (fr_family frame)) (\<lambda>shape.
     rbind (case grp of
              Some g \<Rightarrow> rbind (nth_or_panic (fam_groups shape) g) (\<lambda>slot. nth_or_panic (gsl_fields slot) field)
            | None \<Rightarrow> nth_or_panic (fam_fields shape) field) (\<lambda>slot.
       let decoded = decode_domain v (fsl_shape slot)
       in rbind (mark_leaf grp field decoded frame) (\<lambda>frame'.
            let w = w\<lparr>wk_frame := Some frame'\<rparr>
            in if decoded = None then rbind (field_site tables grp field w) (\<lambda>site. Inr (finding Undecodable site w))
               else Inr w))))"

text \<open>The first group whose namespace holds the leaf, and the leaf's position in it.\<close>

definition locate_group :: "GroupSlot list \<Rightarrow> bytes \<Rightarrow> (nat \<times> nat) option" where
  "locate_group groups rest =
     (case index_of (\<lambda>g. prefix (gsl_suffix g) rest) groups of
        None \<Rightarrow> None
      | Some i \<Rightarrow> map_option (\<lambda>field. (i, field)) (gsl_by_suffix (groups ! i) (drop (length (gsl_suffix (groups ! i))) rest)))"

definition slice_from :: "bytes \<Rightarrow> nat \<Rightarrow> 'e halt + bytes" where
  "slice_from bs n = (if n \<le> length bs then Inr (drop n bs) else Inl Panic)"

definition within_node :: "Tables \<Rightarrow> bytes \<Rightarrow> bytes \<Rightarrow> 'd Walker \<Rightarrow> 'd Walker walked" where
  "within_node tables key v w =
     rbind (open_frame w) (\<lambda>frame.
     rbind (nth_or_panic (tb_families tables) (fr_family frame)) (\<lambda>shape.
     rbind (slice_from key (length (fr_stem frame))) (\<lambda>rest.
       case below_marker (fr_stem frame) key of
         OwnField \<Rightarrow>
           rbind (own_leaf tables w) (\<lambda>w.
             case fam_by_suffix shape rest of
               Some field \<Rightarrow> leaf tables None field v w
             | None \<Rightarrow> Inr (finding OutsideSchema (CellSite key) w))
       | OwnGroup \<Rightarrow>
           rbind (own_leaf tables w) (\<lambda>w.
             case locate_group (fam_groups shape) rest of
               Some (grp, field) \<Rightarrow> leaf tables (Some grp) field v w
             | None \<Rightarrow> Inr (finding OutsideSchema (CellSite key) w))
       | _ \<Rightarrow> Inr (finding Undecodable (CellSite key) w))))"

definition enter_entry :: "Tables \<Rightarrow> nat \<Rightarrow> bytes \<Rightarrow> bytes \<Rightarrow> 'd Walker \<Rightarrow> 'd Walker walked" where
  "enter_entry tables family key v w =
     rbind (nth_or_panic (tb_families tables) family) (\<lambda>shape.
     rbind (nth_or_panic (tb_roots tables) (fam_root shape)) (\<lambda>root_sh.
     rbind (slice_from key (length (fam_prefix shape))) (\<lambda>rest.
       case decode_keys rest (concat (fam_key_segments shape)) of
         None \<Rightarrow> Inr (finding Undecodable (CellSite key) w)
       | Some (keys, _) \<Rightarrow>
           let stem = marker_key (fam_number shape) keys
           in if \<not> prefix stem key then Inr (finding Undecodable (CellSite key) w)
              else let marker = (key = stem);
                       w = w\<lparr>wk_frame := Some
                         \<lparr>fr_family = family, fr_stem = stem, fr_keys = keys, fr_marker = marker,
                          fr_own = replicate (length (fam_fields shape)) False,
                          fr_groups = map (\<lambda>g. replicate (length (gsl_fields g)) False) (fam_groups shape),
                          fr_projected = (if family = rsh_family root_sh \<and> rsh_indexes root_sh \<noteq> []
                                          then replicate (length (fam_fields shape)) None else []),
                          fr_any_leaf = False\<rparr>\<rparr>
                   in if marker
                      then let w = w\<lparr>wk_summary := (wk_summary w)\<lparr>sm_entries := sm_entries (wk_summary w) + 1\<rparr>\<rparr>
                           in if v \<noteq> MARKER_VALUE
                              then rbind (audit_node_site tables w) (\<lambda>site. Inr (finding MarkerInvalid site w))
                              else Inr w
                      else within_node tables key v w)))"

section \<open>Closing an entry\<close>

text \<open>The required leaves of one record, by position.\<close>

fun check_required :: "Tables \<Rightarrow> Frame \<Rightarrow> nat option \<Rightarrow> nat \<Rightarrow> FieldSlot list \<Rightarrow> bool list \<Rightarrow> 'd Walker \<Rightarrow> 'd Walker walked" where
  "check_required tables frame grp field [] flags w = Inr w"
| "check_required tables frame grp field (slot # slots) flags w =
     rbind (if fsl_required slot
            then rbind (nth_or_panic flags field) (\<lambda>present.
                   if \<not> present then rbind (site_of tables frame grp field) (\<lambda>site. Inr (finding RequiredMissing site w))
                   else Inr w)
            else Inr w) (\<lambda>w. check_required tables frame grp (Suc field) slots flags w)"

text \<open>
  The source indexes \<open>frame.groups[group]\<close> only for a required field; a group without one skips it.
\<close>

fun check_groups :: "Tables \<Rightarrow> Frame \<Rightarrow> nat \<Rightarrow> GroupSlot list \<Rightarrow> 'd Walker \<Rightarrow> 'd Walker walked" where
  "check_groups tables frame grp [] w = Inr w"
| "check_groups tables frame grp (slot # slots) w =
     rbind (if list_ex fsl_required (gsl_fields slot)
            then rbind (nth_or_panic (fr_groups frame) grp) (\<lambda>flags.
                   check_required tables frame (Some grp) 0 (gsl_fields slot) flags w)
            else Inr w) (\<lambda>w. check_groups tables frame (Suc grp) slots w)"

definition nth_opt :: "'a list \<Rightarrow> nat \<Rightarrow> 'a option" where
  "nth_opt xs i = (if i < length xs then Some (xs ! i) else None)"

fun component_value :: "KeyScalar list \<Rightarrow> KeyScalar option list \<Rightarrow> Component \<Rightarrow> KeyScalar option" where
  "component_value keys projected (CKey column) = nth_opt keys column"
| "component_value keys projected (CField field) = Option.bind (nth_opt projected field) (\<lambda>v. v)"

text \<open>\<open>collect::<Option<Vec<_>>>()\<close>.\<close>

fun collect_options :: "'a option list \<Rightarrow> 'a list option" where
  "collect_options [] = Some []"
| "collect_options (None # xs) = None"
| "collect_options (Some x # xs) = map_option ((#) x) (collect_options xs)"

definition get_raw :: "'v engine \<Rightarrow> 'v \<Rightarrow> bytes \<Rightarrow> bytes option walked" where
  "get_raw E view key = map_err Raise (eng_get E view key)"

fun check_index_loop :: "'v engine \<Rightarrow> 'v \<Rightarrow> Tables \<Rightarrow> NodeNumber \<Rightarrow> Frame \<Rightarrow> nat list \<Rightarrow> 'd Walker \<Rightarrow> 'd Walker walked" where
  "check_index_loop E view tables number frame [] w = Inr w"
| "check_index_loop E view tables number frame (index # indexes) w =
     rbind (nth_or_panic (tb_indexes tables) index) (\<lambda>shape.
     rbind (case collect_options (map (\<lambda>(c, _). component_value (fr_keys frame) (fr_projected frame) c) (ish_components shape)) of
              None \<Rightarrow> Inr w
            | Some vals \<Rightarrow>
                rbind (get_raw E view (index_cell_key number (ish_id shape) vals)) (\<lambda>cell.
                  Inr (if cell \<noteq> Some (index_cell_value (fr_keys frame))
                       then finding IndexMissing (IndexCellSite (ish_root shape) (ish_position shape) vals) w
                       else w))) (\<lambda>w.
       check_index_loop E view tables number frame indexes w))"

definition check_index_cells :: "'v engine \<Rightarrow> 'v \<Rightarrow> Tables \<Rightarrow> Frame \<Rightarrow> 'd Walker \<Rightarrow> 'd Walker walked" where
  "check_index_cells E view tables frame w =
     rbind (nth_or_panic (tb_families tables) (fr_family frame)) (\<lambda>family.
     rbind (nth_or_panic (tb_roots tables) (fam_root family)) (\<lambda>root.
       check_index_loop E view tables (rsh_number root) frame (rsh_indexes root) w))"

definition check_closed :: "'v engine \<Rightarrow> 'v \<Rightarrow> Tables \<Rightarrow> Frame \<Rightarrow> 'd Walker \<Rightarrow> 'd Walker walked" where
  "check_closed E view tables frame w =
     (if \<not> fr_marker frame then Inr w
      else rbind (nth_or_panic (tb_families tables) (fr_family frame)) (\<lambda>shape.
           rbind (check_required tables frame None 0 (fam_fields shape) (fr_own frame) w) (\<lambda>w.
           rbind (check_groups tables frame 0 (fam_groups shape) w) (\<lambda>w.
           rbind (nth_or_panic (tb_roots tables) (fam_root shape)) (\<lambda>root.
             if fr_family frame = rsh_family root then check_index_cells E view tables frame w else Inr w)))))"

definition close_entry :: "'v engine \<Rightarrow> 'v \<Rightarrow> Tables \<Rightarrow> 'd Walker \<Rightarrow> 'd Walker walked" where
  "close_entry E view tables w =
     (case wk_frame w of
        Some frame \<Rightarrow> check_closed E view tables frame (w\<lparr>wk_frame := None\<rparr>)
      | None \<Rightarrow> Inr w)"

section \<open>Index cells\<close>

definition component_agrees :: "'v engine \<Rightarrow> 'v \<Rightarrow> RootShape \<Rightarrow> FamilyShape \<Rightarrow> bytes \<Rightarrow> KeyScalar list \<Rightarrow> Component \<Rightarrow>
    KeyScalar \<Rightarrow> bool walked" where
  "component_agrees E view root root_sh stem source component projected =
     (case component of
        CKey column \<Rightarrow> Inr (nth_opt source column = Some projected)
      | CField field \<Rightarrow>
          rbind (nth_or_panic (rsh_field_numbers root) field) (\<lambda>number.
          rbind (get_raw E view (stem_field_leaf stem number)) (\<lambda>cell.
            case cell of
              None \<Rightarrow> Inr False
            | Some bs \<Rightarrow>
                rbind (nth_or_panic (fam_fields root_sh) field) (\<lambda>slot.
                  Inr (case decode_domain bs (fsl_shape slot) of
                         Some (VScalar scalar) \<Rightarrow> (case as_key scalar of Inr key \<Rightarrow> key | Inl _ \<Rightarrow> None) = Some projected
                       | _ \<Rightarrow> True)))))"

fun components_agree :: "'v engine \<Rightarrow> 'v \<Rightarrow> RootShape \<Rightarrow> FamilyShape \<Rightarrow> bytes \<Rightarrow> KeyScalar list \<Rightarrow>
    ((Component \<times> ScalarKind) \<times> KeyScalar) list \<Rightarrow> bool walked" where
  "components_agree E view root root_sh stem source [] = Inr True"
| "components_agree E view root root_sh stem source (((component, kind), projected) # rest) =
     rbind (component_agrees E view root root_sh stem source component projected) (\<lambda>agrees.
       if \<not> agrees then Inr False else components_agree E view root root_sh stem source rest)"

definition index_cell_step :: "'v engine \<Rightarrow> 'v \<Rightarrow> Tables \<Rightarrow> IndexShape \<Rightarrow> bytes \<Rightarrow> bytes \<Rightarrow> 'd Walker \<Rightarrow> 'd Walker walked" where
  "index_cell_step E view tables shape key v w =
     (let w = w\<lparr>wk_summary := (wk_summary w)\<lparr>sm_index_cells := sm_index_cells (wk_summary w) + 1\<rparr>\<rparr>
      in rbind (nth_or_panic (tb_roots tables) (unat (ish_root shape))) (\<lambda>root.
         rbind (slice_from key (length (ish_prefix shape))) (\<lambda>rest.
           case decode_keys rest (map snd (ish_components shape)) of
             Some (vals, used) \<Rightarrow>
               if used \<noteq> length rest then Inr (finding Undecodable (CellSite key) w)
               else let site = IndexCellSite (ish_root shape) (ish_position shape) vals
                    in rbind (nth_or_panic (tb_families tables) (rsh_family root)) (\<lambda>root_sh.
                       rbind (nth_or_panic (fam_key_segments root_sh) 0) (\<lambda>root_key.
                         case decode_index_source_key v (length root_key) of
                           Some source \<Rightarrow>
                             if \<not> list_all (\<lambda>(c, k). scalar_key_matches_type c k) (zip source root_key)
                             then Inr (finding Undecodable site w)
                             else let stem = marker_key (rsh_number root) source
                                  in rbind (get_raw E view stem) (\<lambda>marker.
                                       if marker = None then Inr (finding IndexOrphan site w)
                                       else rbind (components_agree E view root root_sh stem source (zip (ish_components shape) vals))
                                              (\<lambda>agrees. Inr (if \<not> agrees then finding IndexStale site w else w)))
                         | None \<Rightarrow> Inr (finding Undecodable site w)))
           | None \<Rightarrow> Inr (finding Undecodable (CellSite key) w))))"

section \<open>The walk\<close>

definition outside_site :: "Tables \<Rightarrow> bytes \<Rightarrow> 'd Walker \<Rightarrow> AuditSite \<times> 'd Walker" where
  "outside_site tables key w =
     (case seek_prefix rsh_index_family (tb_roots tables) (wk_index_family_cursor w) key of
        (place, cursor) \<Rightarrow>
          (case place of
             Some root \<Rightarrow>
               let rest = drop (length (rsh_index_family (tb_roots tables ! root))) key
               in if length rest \<ge> 16 then UndeclaredIndex (word_of_nat root) (take 16 rest) else CellSite key
           | None \<Rightarrow> CellSite key,
           w\<lparr>wk_index_family_cursor := cursor\<rparr>))"

definition top_level :: "'v engine \<Rightarrow> 'v \<Rightarrow> (bytes \<Rightarrow> bytes \<Rightarrow> 'd \<Rightarrow> 'd) \<Rightarrow> Tables \<Rightarrow> bytes \<Rightarrow> bytes \<Rightarrow> 'd Walker \<Rightarrow>
    (AuditKind \<times> 'd Walker) walked" where
  "top_level E view absorb tables key v w =
     (case namespace tables key (wk_family_cursor w) (wk_index_cursor w) of
        (found, family_cursor, index_cursor) \<Rightarrow>
          let w = w\<lparr>wk_family_cursor := family_cursor, wk_index_cursor := index_cursor\<rparr>
          in case found of
               Some (EntryNamespace family) \<Rightarrow>
                 rbind (enter_entry tables family key v (w\<lparr>wk_digest := absorb key v (wk_digest w)\<rparr>)) (\<lambda>w. Inr (AkEntry, w))
             | Some (IndexNamespace index) \<Rightarrow>
                 rbind (nth_or_panic (tb_indexes tables) index) (\<lambda>shape.
                 rbind (index_cell_step E view tables shape key v w) (\<lambda>w. Inr (AkIndex, w)))
             | None \<Rightarrow>
                 if key = tb_witness tables
                 then Inr (AkOther, if \<not> witness_well_formed v then finding WitnessInvalid (CellSite key) w else w)
                 else case outside_site tables key w of (site, w) \<Rightarrow> Inr (AkOther, finding OutsideSchema site w))"

definition cell_step :: "'v engine \<Rightarrow> 'v \<Rightarrow> (bytes \<Rightarrow> bytes \<Rightarrow> 'd \<Rightarrow> 'd) \<Rightarrow> Tables \<Rightarrow> bytes \<Rightarrow> bytes \<Rightarrow> 'd Walker \<Rightarrow>
    (AuditKind \<times> 'd Walker) walked" where
  "cell_step E view absorb tables key v w =
     (let w = w\<lparr>wk_summary := (wk_summary w)\<lparr>sm_cells := sm_cells (wk_summary w) + 1\<rparr>\<rparr>
      in if (case wk_frame w of Some frame \<Rightarrow> prefix (fr_stem frame) key | None \<Rightarrow> False)
         then rbind (within_node tables key v (w\<lparr>wk_digest := absorb key v (wk_digest w)\<rparr>)) (\<lambda>w. Inr (AkEntry, w))
         else rbind (close_entry E view tables w) (\<lambda>w. top_level E view absorb tables key v w))"

type_synonym ('c, 'e) consumer = "AuditKind \<Rightarrow> bytes \<Rightarrow> bytes \<Rightarrow> 'c \<Rightarrow> 'e + 'c"

definition walk_store_error :: "StoreError halt \<Rightarrow> 'e WalkError halt" where
  "walk_store_error h = (case h of Panic \<Rightarrow> Panic | Raise e \<Rightarrow> Raise (WalkStore e))"

fun walk_page :: "'v engine \<Rightarrow> 'v \<Rightarrow> (bytes \<Rightarrow> bytes \<Rightarrow> 'd \<Rightarrow> 'd) \<Rightarrow> Tables \<Rightarrow> ('c, 'e) consumer \<Rightarrow> Cell list \<Rightarrow> 'd Walker \<Rightarrow> 'c \<Rightarrow>
    'e WalkError halt + 'd Walker \<times> 'c" where
  "walk_page E view absorb tables consume [] w c = Inr (w, c)"
| "walk_page E view absorb tables consume ((key, v) # page) w c =
     rbind (map_err walk_store_error (cell_step E view absorb tables key v w)) (\<lambda>(kind, w).
     rbind (map_err (\<lambda>e. Raise (WalkConsumer e)) (consume kind key v c)) (\<lambda>c.
       walk_page E view absorb tables consume page w c))"

partial_function (option) walk_pages :: "'v engine \<Rightarrow> 'v \<Rightarrow> (bytes \<Rightarrow> bytes \<Rightarrow> 'd \<Rightarrow> 'd) \<Rightarrow> Tables \<Rightarrow> ('c, 'e) consumer \<Rightarrow> bytes \<Rightarrow>
    'd Walker \<Rightarrow> 'c \<Rightarrow> ('e WalkError halt + 'd Walker \<times> 'c) option" where
  "walk_pages E view absorb tables consume cursor w c =
     (case eng_scan_after E view [] cursor of
        Inl e \<Rightarrow> Some (Inl (Raise (WalkStore e)))
      | Inr page \<Rightarrow>
          if page = [] then Some (Inr (w, c))
          else (case walk_page E view absorb tables consume page w c of
                  Inl e \<Rightarrow> Some (Inl e)
                | Inr (w', c') \<Rightarrow> walk_pages E view absorb tables consume (fst (last page)) w' c'))"

definition walker_new :: "'d \<Rightarrow> 'd Walker" where
  "walker_new digest =
     \<lparr>wk_frame = None, wk_family_cursor = 0, wk_index_cursor = 0, wk_index_family_cursor = 0,
      wk_summary = \<lparr>sm_cells = 0, sm_entries = 0, sm_index_cells = 0, sm_findings = 0\<rparr>, wk_findings = [],
      wk_digest = digest\<rparr>"

text \<open>The report, beside the final states of the digest and of the consumer.\<close>

definition walk_cells :: "'v engine \<Rightarrow> 'v \<Rightarrow> (bytes \<Rightarrow> bytes \<Rightarrow> 'd \<Rightarrow> 'd) \<Rightarrow> Tables \<Rightarrow> ('c, 'e) consumer \<Rightarrow> 'd \<Rightarrow> 'c \<Rightarrow>
    ('e WalkError halt + AuditReport \<times> 'd \<times> 'c) option" where
  "walk_cells E view absorb tables consume digest c =
     obind (Some (rbind (map_err (\<lambda>e. Raise (WalkStore e)) (eng_get E view [])) (\<lambda>first.
              case first of
                None \<Rightarrow> Inr (walker_new digest, c)
              | Some v \<Rightarrow> walk_page E view absorb tables consume [([], v)] (walker_new digest) c))) (\<lambda>(w, c).
     obind (walk_pages E view absorb tables consume [] w c) (\<lambda>(w, c).
       Some (rbind (map_err walk_store_error (close_entry E view tables w)) (\<lambda>w.
         Inr (\<lparr>ar_summary = wk_summary w, ar_findings = wk_findings w\<rparr>, wk_digest w, c)))))"

text \<open>\<open>inspect\<close> cannot fail in its consumer, whose error type is empty; \<open>export\<close> forwards entry and index cells.\<close>

definition inspect :: "'v engine \<Rightarrow> 'v \<Rightarrow> (bytes \<Rightarrow> bytes \<Rightarrow> 'd \<Rightarrow> 'd) \<Rightarrow> Tables \<Rightarrow> 'd \<Rightarrow> (StoreError halt + AuditReport \<times> 'd) option" where
  "inspect E view absorb tables digest =
     map_option (\<lambda>r. rbind (map_err (\<lambda>h. case h of Raise (WalkStore e) \<Rightarrow> Raise e | _ \<Rightarrow> Panic) r)
                       (\<lambda>(report, digest, _). Inr (report, digest)))
       (walk_cells E view absorb tables (\<lambda>kind key v u. Inr u :: unit + unit) digest ())"

definition walk :: "'v engine \<Rightarrow> 'v \<Rightarrow> (bytes \<Rightarrow> bytes \<Rightarrow> 'd \<Rightarrow> 'd) \<Rightarrow> StoreProjection \<Rightarrow> RootNumbering list \<Rightarrow> 'd \<Rightarrow>
    (StoreError halt + AuditReport \<times> 'd) option" where
  "walk E view absorb projection numbering digest =
     (case tables_new projection numbering of
        Inl _ \<Rightarrow> Some (Inl Panic)
      | Inr tables \<Rightarrow> inspect E view absorb tables digest)"

definition export :: "'v engine \<Rightarrow> 'v \<Rightarrow> (bytes \<Rightarrow> bytes \<Rightarrow> 'd \<Rightarrow> 'd) \<Rightarrow> (bytes \<Rightarrow> bytes \<Rightarrow> 'c \<Rightarrow> 'e + 'c) \<Rightarrow> StoreProjection \<Rightarrow>
    RootNumbering list \<Rightarrow> 'd \<Rightarrow> 'c \<Rightarrow> ('e WalkError halt + AuditReport \<times> 'd \<times> 'c) option" where
  "export E view absorb sink projection numbering digest c =
     (case tables_new projection numbering of
        Inl _ \<Rightarrow> Some (Inl Panic)
      | Inr tables \<Rightarrow>
          walk_cells E view absorb tables
            (\<lambda>kind key v c. case kind of AkOther \<Rightarrow> Inr c | _ \<Rightarrow> sink key v c) digest c)"

section \<open>The handle's audits\<close>

definition logical_audit :: "('g, 'v, 's) byte_engine \<Rightarrow> (bytes \<Rightarrow> bytes \<Rightarrow> 'd \<Rightarrow> 'd) \<Rightarrow> 'd \<Rightarrow> 'g DurableStore \<Rightarrow>
    (SessionError halt + AuditReport \<times> 'd) option" where
  "logical_audit B absorb digest store =
     obind (Some (check_poison store)) (\<lambda>_.
     obind (Some (map_err (\<lambda>e. Raise (SessionEngine e)) (be_read_view B (ds_engine store)))) (\<lambda>view.
       map_option (map_err (\<lambda>h. case h of Panic \<Rightarrow> Panic | Raise e \<Rightarrow> Raise (SessionEngine e)))
         (walk (be_view B) view absorb (ds_projection store) (ds_numbering store) digest)))"

datatype 'e ExportError = ExportRead SessionError | ExportOutput 'e

definition export_cells :: "('g, 'v, 's) byte_engine \<Rightarrow> (bytes \<Rightarrow> bytes \<Rightarrow> 'd \<Rightarrow> 'd) \<Rightarrow> (bytes \<Rightarrow> bytes \<Rightarrow> 'c \<Rightarrow> 'e + 'c) \<Rightarrow> 'd \<Rightarrow> 'c \<Rightarrow>
    'g DurableStore \<Rightarrow> ('e ExportError halt + AuditReport \<times> 'd \<times> 'c) option" where
  "export_cells B absorb sink digest c store =
     (if ds_poisoned store then Some (Inl (Raise (ExportRead SessionPoisoned)))
      else case be_read_view B (ds_engine store) of
             Inl e \<Rightarrow> Some (Inl (Raise (ExportRead (SessionEngine e))))
           | Inr view \<Rightarrow>
               map_option (map_err (\<lambda>h. case h of
                     Panic \<Rightarrow> Panic
                   | Raise (WalkStore e) \<Rightarrow> Raise (ExportRead (SessionEngine e))
                   | Raise (WalkConsumer e) \<Rightarrow> Raise (ExportOutput e)))
                 (export (be_view B) view absorb sink (ds_projection store) (ds_numbering store) digest c))"

end
