(* ===== verification/Cell_Transfer.thy ===== *)
theory Cell_Transfer
  imports Logical_Audit
begin

text \<open>
  The private construction of an empty store body from a complete cell stream
  (\<open>crates/marrow-kernel/src/durable/transfer.rs\<close>) and the handle's \<open>restore\<close>. The input is a function on
  the state of its source: an error, the end of the input, or the next cell. The loop ends when the
  source does, so it is a partial function. Every outcome hands the engine back.
\<close>

datatype 'r RestoreError =
    RestoreInput 'r
  | RestoreStore StoreError
  | NotEmpty
  | CellLimit
  | Unordered
  | OutsideNamespace
  | RestoreAborted
  | RestoreIndeterminate
  | Invalid AuditReport

type_synonym ('i, 'r) source = "'i \<Rightarrow> ('r + Cell option) \<times> 'i"

fun put_batch :: "'s engine \<Rightarrow> Cell list \<Rightarrow> 's \<Rightarrow> (StoreError + unit) \<times> 's" where
  "put_batch E [] t = (Inr (), t)"
| "put_batch E ((key, v) # batch) t =
     (case eng_put E key v t of
        (Inl e, t') \<Rightarrow> (Inl e, t')
      | (Inr _, t') \<Rightarrow> put_batch E batch t')"

definition commit_batch :: "('g, 'v, 's) byte_engine \<Rightarrow> Cell list \<Rightarrow> 'g \<Rightarrow> ('r RestoreError + unit) \<times> 'g" where
  "commit_batch B batch g =
     (case be_begin B g of
        Inl (e, g') \<Rightarrow> (Inl (RestoreStore e), g')
      | Inr t \<Rightarrow>
          (case put_batch (be_txn B) batch t of
             (Inl e, t') \<Rightarrow> (Inl (RestoreStore e), be_drop B t')
           | (Inr _, t') \<Rightarrow>
               (case be_commit B t' of
                  (Confirmed, g') \<Rightarrow> (Inr (), g')
                | (CommitAborted, g') \<Rightarrow> (Inl RestoreAborted, g')
                | (CommitIndeterminate, g') \<Rightarrow> (Inl RestoreIndeterminate, g'))))"

record TransferState =
  tr_previous :: "bytes option"
  tr_family_cursor :: nat
  tr_index_cursor :: nat
  tr_batch :: "Cell list"
  tr_bytes :: nat

definition transfer_start :: TransferState where
  "transfer_start = \<lparr>tr_previous = None, tr_family_cursor = 0, tr_index_cursor = 0, tr_batch = [], tr_bytes = 0\<rparr>"

text \<open>
  The admission of one cell: the limits, the order, the namespace, and the commit of a full batch
  before the cell joins the next one.
\<close>

definition admit_cell :: "('g, 'v, 's) byte_engine \<Rightarrow> Tables \<Rightarrow> Cell \<Rightarrow> TransferState \<Rightarrow> 'g \<Rightarrow>
    ('r RestoreError + TransferState) \<times> 'g" where
  "admit_cell B tables cell st g =
     (case cell of (key, v) \<Rightarrow>
        if \<not> cell_within_limits key v then (Inl CellLimit, g)
        else if (case tr_previous st of Some before \<Rightarrow> before \<ge> key | None \<Rightarrow> False) then (Inl Unordered, g)
        else case namespace tables key (tr_family_cursor st) (tr_index_cursor st) of
               (None, _) \<Rightarrow> (Inl OutsideNamespace, g)
             | (Some _, family_cursor, index_cursor) \<Rightarrow>
                 (let size = length key + length v;
                      st = st\<lparr>tr_family_cursor := family_cursor, tr_index_cursor := index_cursor\<rparr>;
                      joined = (\<lambda>batch bytes_so_far. st\<lparr>tr_previous := Some key, tr_batch := batch @ [(key, v)],
                                  tr_bytes := bytes_so_far + size\<rparr>)
                  in if batch_is_full (length (tr_batch st)) (tr_bytes st) size
                     then (case commit_batch B (tr_batch st) g of
                             (Inl e, g') \<Rightarrow> (Inl e, g')
                           | (Inr _, g') \<Rightarrow> (Inr (joined [] 0), g'))
                     else (Inr (joined (tr_batch st) (tr_bytes st)), g)))"

partial_function (option) transfer_loop :: "('g, 'v, 's) byte_engine \<Rightarrow> Tables \<Rightarrow> ('i, 'r) source \<Rightarrow> TransferState \<Rightarrow> 'i \<Rightarrow> 'g \<Rightarrow>
    (('r RestoreError + TransferState) \<times> 'i \<times> 'g) option" where
  "transfer_loop B tables next_cell st i g =
     (case next_cell i of
        (Inl e, i') \<Rightarrow> Some (Inl (RestoreInput e), i', g)
      | (Inr None, i') \<Rightarrow> Some (Inr st, i', g)
      | (Inr (Some cell), i') \<Rightarrow>
          (case admit_cell B tables cell st g of
             (Inl e, g') \<Rightarrow> Some (Inl e, i', g')
           | (Inr st', g') \<Rightarrow> transfer_loop B tables next_cell st' i' g'))"

definition body_empty :: "('g, 'v, 's) byte_engine \<Rightarrow> 'g \<Rightarrow> 'r RestoreError + unit" where
  "body_empty B g =
     rbind (map_err RestoreStore (be_read_view B g)) (\<lambda>view.
     rbind (map_err RestoreStore (eng_get (be_view B) view [])) (\<lambda>first.
       if first \<noteq> None then Inl NotEmpty
       else rbind (map_err RestoreStore (eng_scan_after (be_view B) view [] [])) (\<lambda>page.
              if page \<noteq> [] then Inl NotEmpty else Inr ())))"

text \<open>The final batch, the integrity audit and the logical audit of the complete body.\<close>

definition transfer_finish :: "('g, 'v, 's) byte_engine \<Rightarrow> (bytes \<Rightarrow> bytes \<Rightarrow> 'd \<Rightarrow> 'd) \<Rightarrow> Tables \<Rightarrow> TransferState \<Rightarrow> 'd \<Rightarrow> 'g \<Rightarrow>
    (('r RestoreError halt + AuditReport \<times> 'd) \<times> 'g) option" where
  "transfer_finish B absorb tables st digest g =
     (case (if tr_batch st \<noteq> [] then commit_batch B (tr_batch st) g else (Inr (), g)) of
        (Inl e, g) \<Rightarrow> Some (Inl (Raise e), g)
      | (Inr _, g) \<Rightarrow>
          (case be_audit_integrity B g of
             (Inl e, g) \<Rightarrow> Some (Inl (Raise (RestoreStore e)), g)
           | (Inr _, g) \<Rightarrow>
               (case be_read_view B g of
                  Inl e \<Rightarrow> Some (Inl (Raise (RestoreStore e)), g)
                | Inr view \<Rightarrow>
                    map_option (\<lambda>r.
                      (case r of
                         Inl Panic \<Rightarrow> Inl Panic
                       | Inl (Raise e) \<Rightarrow> Inl (Raise (RestoreStore e))
                       | Inr (report, digest) \<Rightarrow>
                           if \<not> is_clean report then Inl (Raise (Invalid report)) else Inr (report, digest), g))
                      (inspect (be_view B) view absorb tables digest))))"

definition populate :: "('g, 'v, 's) byte_engine \<Rightarrow> (bytes \<Rightarrow> bytes \<Rightarrow> 'd \<Rightarrow> 'd) \<Rightarrow> Tables \<Rightarrow> ('i, 'r) source \<Rightarrow> 'i \<Rightarrow> 'd \<Rightarrow> 'g \<Rightarrow>
    (('r RestoreError halt + AuditReport \<times> 'd) \<times> 'i \<times> 'g) option" where
  "populate B absorb tables next_cell i digest g =
     (case body_empty B g of
        Inl e \<Rightarrow> Some (Inl (Raise e), i, g)
      | Inr _ \<Rightarrow>
          Option.bind (transfer_loop B tables next_cell transfer_start i g) (\<lambda>(r, i, g).
            case r of
              Inl e \<Rightarrow> Some (Inl (Raise e), i, g)
            | Inr st \<Rightarrow> map_option (\<lambda>(r, g). (r, i, g)) (transfer_finish B absorb tables st digest g)))"

text \<open>The handle is returned only on success.\<close>

definition restore :: "('g, 'v, 's) byte_engine \<Rightarrow> (bytes \<Rightarrow> bytes \<Rightarrow> 'd \<Rightarrow> 'd) \<Rightarrow> ('i, 'r) source \<Rightarrow> 'i \<Rightarrow> 'd \<Rightarrow> 'g DurableStore \<Rightarrow>
    ('r RestoreError halt + 'g DurableStore \<times> AuditReport \<times> 'd) option" where
  "restore B absorb next_cell i digest store =
     (case tables_new (ds_projection store) (ds_numbering store) of
        Inl _ \<Rightarrow> Some (Inl Panic)
      | Inr tables \<Rightarrow>
          map_option (\<lambda>(r, _, g). rbind r (\<lambda>(report, digest). Inr (store\<lparr>ds_engine := g\<rparr>, report, digest)))
            (populate B absorb tables next_cell i digest (ds_engine store)))"

end
