(* ===== verification/Audit_Walk.thy ===== *)
theory Audit_Walk
  imports Cell_Transfer
begin

text \<open>
  The paging of the audit walk: over a lawful view the walk always returns, and unless the engine
  fails it hands every cell of the store to the walker once, in ascending key order.
\<close>

section \<open>Outcomes\<close>

text \<open>
  The outcome of a step on an engine whose errors are in \<open>errs\<close>: it does not panic, fails only with such
  an error, and its result satisfies the predicate.
\<close>

definition yields :: "StoreError set \<Rightarrow> 'a walked \<Rightarrow> ('a \<Rightarrow> bool) \<Rightarrow> bool" where
  "yields errs r Q \<longleftrightarrow> (case r of Inl h \<Rightarrow> h \<in> Raise ` errs | Inr x \<Rightarrow> Q x)"

lemma yields_simps [simp]:
  "yields errs (Inr x) Q \<longleftrightarrow> Q x" "yields errs (Inl (Raise e)) Q \<longleftrightarrow> e \<in> errs" "\<not> yields errs (Inl Panic) Q"
  by (auto simp: yields_def)

lemma yields_bind: "yields errs r P \<Longrightarrow> (\<And>x. P x \<Longrightarrow> yields errs (f x) Q) \<Longrightarrow> yields errs (rbind r f) Q"
  by (cases r) (auto simp: yields_def)

lemma yields_mono: "yields errs r P \<Longrightarrow> (\<And>x. P x \<Longrightarrow> Q x) \<Longrightarrow> yields errs r Q"
  by (auto simp: yields_def split: sum.splits)

lemma yields_nth: "i < length xs \<Longrightarrow> Q (xs ! i) \<Longrightarrow> yields errs (nth_or_panic xs i) Q"
  by simp

section \<open>The cells in order\<close>

definition ordered_cells :: "(bytes \<rightharpoonup> bytes) \<Rightarrow> Cell list \<Rightarrow> bool" where
  "ordered_cells m L \<longleftrightarrow> sorted_wrt (<) (map fst L) \<and> map_of L = m"

lemma ordered_cells_set: "ordered_cells m L \<Longrightarrow> (k, v) \<in> set L \<longleftrightarrow> m k = Some v"
  unfolding ordered_cells_def using strict_sorted_iff by (metis map_of_eq_Some_iff)

lemma ordered_cells_unique:
  assumes "sorted_wrt (<) (map fst A)" "sorted_wrt (<) (map fst B)" "set A = set (B :: Cell list)"
  shows "A = B"
proof (rule map_sorted_distinct_set_unique)
  show "sorted (map fst A)" "distinct (map fst A)" "sorted (map fst B)" "distinct (map fst B)"
    using assms by (simp_all add: strict_sorted_iff)
  then show "inj_on fst (set A \<union> set B)" using assms(3) by (simp add: distinct_map)
qed fact

definition after :: "bytes \<Rightarrow> Cell list \<Rightarrow> Cell list" where
  "after cursor L = filter (\<lambda>(k, v). cursor < k) L"

lemma sorted_after: "sorted_wrt (<) (map fst L) \<Longrightarrow> sorted_wrt (<) (map fst (after c L))"
  by (auto simp: after_def sorted_wrt_map intro: sorted_wrt_filter)

lemma page_splits:
  assumes "ordered_cells m L" "page_of m [] c page" "page \<noteq> []"
  shows "after c L = page @ after (fst (last page)) L"
proof (rule ordered_cells_unique)
  let ?l = "fst (last page)"
  have page: "sorted_wrt (<) (map fst page)" "\<And>k v. (k, v) \<in> set page \<Longrightarrow> m k = Some v \<and> c < k"
    "\<And>k. k \<in> dom m \<Longrightarrow> c < k \<Longrightarrow> k \<le> ?l \<Longrightarrow> k \<in> fst ` set page"
    using assms(2) by (auto simp: page_of_def)
  have s: "sorted_wrt (<) (map fst L)" using assms(1) by (simp add: ordered_cells_def)
  have le: "k \<le> ?l" if "(k, v) \<in> set page" for k v
  proof -
    obtain init z where "page = init @ [z]" using assms(3) by (metis append_butlast_last_id)
    then show ?thesis using page(1) that by (auto simp: sorted_wrt_append intro: less_imp_le)
  qed
  show "sorted_wrt (<) (map fst (after c L))" by (rule sorted_after [OF s])
  show "sorted_wrt (<) (map fst (page @ after ?l L))"
    using page(1) sorted_after [OF s] le by (fastforce simp: sorted_wrt_append after_def)
  have "c < ?l" using page(2) assms(3) by (metis last_in_set prod.collapse)
  show "set (after c L) = set (page @ after ?l L)"
  proof (rule set_eqI)
    fix x :: Cell
    obtain k v where x: "x = (k, v)" by fastforce
    have "(k, v) \<in> set page" if "m k = Some v" "c < k" "k \<le> ?l"
    proof -
      have "k \<in> fst ` set page" using page(3) [OF _ that(2,3)] that(1) by blast
      then obtain w where "(k, w) \<in> set page" by force
      then show ?thesis using page(2) that(1) by (metis option.inject)
    qed
    then show "x \<in> set (after c L) \<longleftrightarrow> x \<in> set (page @ after ?l L)"
      using x page(2) \<open>c < ?l\<close> by (auto simp: after_def ordered_cells_set [OF assms(1)] not_le [symmetric])
  qed
qed

lemma page_last:
  assumes "ordered_cells m L" "page_of m [] c []"
  shows "after c L = []"
  using assms by (auto simp: page_of_Nil after_def filter_empty_conv ordered_cells_set [OF assms(1)])

lemma first_cell:
  assumes "ordered_cells m L"
  shows "L = (case m [] of None \<Rightarrow> [] | Some v \<Rightarrow> [([], v)]) @ after [] L"
proof (rule ordered_cells_unique)
  have s: "sorted_wrt (<) (map fst L)" using assms by (simp add: ordered_cells_def)
  show "sorted_wrt (<) (map fst L)" by (rule s)
  show "sorted_wrt (<) (map fst ((case m [] of None \<Rightarrow> [] | Some v \<Rightarrow> [([], v)]) @ after [] L))"
    using sorted_after [OF s, of "[]"] by (auto simp: after_def split: option.splits)
  have "x \<in> set L \<longleftrightarrow> x \<in> set ((case m [] of None \<Rightarrow> [] | Some v \<Rightarrow> [([], v)]) @ after [] L)" for x
  proof -
    obtain k v where x: "x = (k, v)" by fastforce
    show ?thesis
      by (cases k) (auto simp: x after_def ordered_cells_set [OF assms] split: option.splits)
  qed
  then show "set L = set ((case m [] of None \<Rightarrow> [] | Some v \<Rightarrow> [([], v)]) @ after [] L)" by blast
qed

section \<open>Paging\<close>

lemma walk_page_append:
  "walk_page E view absorb tables consume (xs @ ys) w c =
     rbind (walk_page E view absorb tables consume xs w c) (\<lambda>(w, c). walk_page E view absorb tables consume ys w c)"
proof (induction xs arbitrary: w c)
  case (Cons x xs)
  obtain key v where x: "x = (key, v)" by fastforce
  show ?case
  proof (cases "cell_step E view absorb tables key v w")
    case (Inr r)
    obtain kind w' where r: "r = (kind, w')" by fastforce
    then show ?thesis using Cons.IH Inr x by (cases "consume kind key v c") auto
  qed (simp add: x)
qed simp

text \<open>The whole walk: all cells in order, then the last open entry.\<close>

definition audit_run :: "'v engine \<Rightarrow> 'v \<Rightarrow> (bytes \<Rightarrow> bytes \<Rightarrow> 'd \<Rightarrow> 'd) \<Rightarrow> Tables \<Rightarrow> ('c, 'e) consumer \<Rightarrow> Cell list \<Rightarrow> 'd Walker \<Rightarrow> 'c \<Rightarrow>
    'e WalkError halt + AuditReport \<times> 'd \<times> 'c" where
  "audit_run E view absorb tables consume L w c =
     rbind (walk_page E view absorb tables consume L w c) (\<lambda>(w, c).
     rbind (map_err walk_store_error (close_entry E view tables w)) (\<lambda>w.
       Inr (\<lparr>ar_summary = wk_summary w, ar_findings = wk_findings w\<rparr>, wk_digest w, c)))"

lemma audit_run_append:
  "audit_run E view absorb tables consume (xs @ ys) w c =
     rbind (walk_page E view absorb tables consume xs w c) (\<lambda>(w, c). audit_run E view absorb tables consume ys w c)"
  by (cases "walk_page E view absorb tables consume xs w c") (auto simp: audit_run_def walk_page_append)

context lawful_view
begin

lemma yields_get: "ok s \<Longrightarrow> yields errs (get_raw E s k) (\<lambda>v. v = cells s k)"
  by (cases "eng_get E s k") (auto simp: get_raw_def dest: get_law get_errs)

text \<open>Every page brings the walk closer to its end, and the pages together are the whole store.\<close>

lemma walk_pages_all:
  assumes "ok view" "ordered_cells (cells view) L"
  shows "\<exists>r. walk_pages E view absorb tables consume c w st = Some r
     \<and> (r = walk_page E view absorb tables consume (after c L) w st \<or> (\<exists>e \<in> errs. r = Inl (Raise (WalkStore e))))"
proof (induction "length (after c L)" arbitrary: c w st rule: less_induct)
  case less
  show ?case
  proof (cases "eng_scan_after E view [] c")
    case (Inl e)
    then show ?thesis using scan_errs by (subst walk_pages.simps) auto
  next
    case (Inr page)
    then have page: "page_of (cells view) [] c page" using scan_law assms(1) by simp
    show ?thesis
    proof (cases "page = []")
      case True
      then have "after c L = []" using page_last [OF assms(2)] page by simp
      then show ?thesis using Inr True by (subst walk_pages.simps) simp
    next
      case False
      let ?l = "fst (last page)"
      have split: "after c L = page @ after ?l L" by (rule page_splits [OF assms(2) page False])
      have "length (after ?l L) < length (after c L)" using split False by simp
      from less [OF this]
      show ?thesis
        by (subst walk_pages.simps) (use Inr False in \<open>auto simp: split walk_page_append split: sum.splits\<close>)
    qed
  qed
qed

lemma finite_ordered_cells:
  assumes "ok view"
  obtains L where "ordered_cells (cells view) L"
proof -
  let ?ks = "sorted_list_of_set (dom (cells view))"
  let ?L = "map (\<lambda>k. (k, the (cells view k))) ?ks"
  have fin: "finite (dom (cells view))" by (rule finite_cells [OF assms])
  have "map_of ?L = cells view"
  proof
    fix k
    show "map_of ?L k = cells view k"
      using fin by (auto simp: map_of_map_restrict restrict_map_def comp_def domIff)
  qed
  then have "ordered_cells (cells view) ?L" by (simp add: ordered_cells_def comp_def)
  then show thesis by (rule that)
qed

lemma walk_cells_all:
  assumes "ok view" "ordered_cells (cells view) L"
  shows "\<exists>r. walk_cells E view absorb tables consume digest c = Some r
     \<and> (r = audit_run E view absorb tables consume L (walker_new digest) c \<or> (\<exists>e \<in> errs. r = Inl (Raise (WalkStore e))))"
proof (cases "eng_get E view []")
  case (Inl e)
  then show ?thesis using get_errs by (auto simp: walk_cells_def)
next
  case (Inr first)
  then have first: "first = cells view []" using get_law assms(1) by simp
  let ?head = "case first of None \<Rightarrow> [] | Some v \<Rightarrow> [([], v)]"
  have L: "L = ?head @ after [] L" using first_cell [OF assms(2)] first by simp
  have start: "(case first of None \<Rightarrow> Inr (walker_new digest, c)
      | Some v \<Rightarrow> walk_page E view absorb tables consume [([], v)] (walker_new digest) c)
      = walk_page E view absorb tables consume ?head (walker_new digest) c"
    by (cases first) simp_all
  show ?thesis
  proof (cases "walk_page E view absorb tables consume ?head (walker_new digest) c")
    case (Inl e)
    then have "audit_run E view absorb tables consume L (walker_new digest) c = Inl e"
      by (subst L, subst audit_run_append) simp
    moreover have "walk_cells E view absorb tables consume digest c = Some (Inl e)"
      using Inr Inl start by (simp add: walk_cells_def)
    ultimately show ?thesis by simp
  next
    case (Inr wc)
    obtain w c' where wc: "wc = (w, c')" by fastforce
    obtain r where r: "walk_pages E view absorb tables consume [] w c' = Some r"
      "r = walk_page E view absorb tables consume (after [] L) w c' \<or> (\<exists>e \<in> errs. r = Inl (Raise (WalkStore e)))"
      using walk_pages_all [OF assms, of absorb tables consume "[]" w c'] by (elim exE conjE)
    have "audit_run E view absorb tables consume L (walker_new digest) c =
        audit_run E view absorb tables consume (after [] L) w c'"
      using Inr wc by (subst (1) L, subst audit_run_append) (simp only: rbind.simps prod.case)
    moreover have "walk_cells E view absorb tables consume digest c =
        Some (rbind r (\<lambda>(w, c).
          rbind (map_err walk_store_error (close_entry E view tables w)) (\<lambda>w.
            Inr (\<lparr>ar_summary = wk_summary w, ar_findings = wk_findings w\<rparr>, wk_digest w, c))))"
      unfolding walk_cells_def \<open>eng_get E view [] = Inr first\<close> map_err.simps rbind.simps start Inr wc
      using r(1) by (cases r) (auto simp del: walk_page.simps)
    ultimately show ?thesis using r(2) by (auto simp: audit_run_def)
  qed
qed

end

end
