(* ===== verification/Audit_Steps.thy ===== *)
theory Audit_Steps
  imports Audit_Walk Session_Refine
begin

text \<open>
  The steps of the audit walker: none of them panics over well-formed tables, each only adds findings,
  and at an entry that is marked present a cell adds none exactly when it is a declared leaf whose bytes
  decode.
\<close>

section \<open>The parts of the walker's state\<close>

definition fnd :: "'d Walker \<Rightarrow> nat" where
  "fnd w = sm_findings (wk_summary w)"

text \<open>The cursors, the cell count and the digest.\<close>

definition ledger :: "'d Walker \<Rightarrow> nat \<times> nat \<times> nat \<times> 'd" where
  "ledger w = (wk_family_cursor w, wk_index_cursor w, sm_cells (wk_summary w), wk_digest w)"

lemma walker_simps [simp]:
  "fnd (finding f s w) = Suc (fnd w)" "ledger (finding f s w) = ledger w" "wk_frame (finding f s w) = wk_frame w"
  "fnd (w\<lparr>wk_frame := x\<rparr>) = fnd w" "ledger (w\<lparr>wk_frame := x\<rparr>) = ledger w"
  "fnd (w\<lparr>wk_summary := (wk_summary w)\<lparr>sm_entries := n\<rparr>\<rparr>) = fnd w"
  "ledger (w\<lparr>wk_summary := (wk_summary w)\<lparr>sm_entries := n\<rparr>\<rparr>) = ledger w"
  "fnd (w\<lparr>wk_summary := (wk_summary w)\<lparr>sm_index_cells := n\<rparr>\<rparr>) = fnd w"
  "ledger (w\<lparr>wk_summary := (wk_summary w)\<lparr>sm_index_cells := n\<rparr>\<rparr>) = ledger w"
  by (simp_all add: fnd_def ledger_def finding_def)

section \<open>Well-formed families and frames\<close>

definition group_slot_wf :: "GroupSlot \<Rightarrow> bool" where
  "group_slot_wf g \<longleftrightarrow> (\<forall>sfx i. gsl_by_suffix g sfx = Some i \<longrightarrow> i < length (gsl_fields g))"

definition family_wf :: "FamilyShape \<Rightarrow> bool" where
  "family_wf fam \<longleftrightarrow>
     (\<forall>sfx i. fam_by_suffix fam sfx = Some i \<longrightarrow> i < length (fam_fields fam)) \<and> list_all group_slot_wf (fam_groups fam)"

definition frame_shaped :: "Tables \<Rightarrow> Frame \<Rightarrow> bool" where
  "frame_shaped t fr \<longleftrightarrow>
     fr_family fr < length (tb_families t)
     \<and> prefix (fam_prefix (tb_families t ! fr_family fr)) (fr_stem fr)
     \<and> length (fr_own fr) = length (fam_fields (tb_families t ! fr_family fr))
     \<and> list_all2 (\<lambda>flags g. length flags = length (gsl_fields g)) (fr_groups fr) (fam_groups (tb_families t ! fr_family fr))"

definition walker_shaped :: "Tables \<Rightarrow> 'd Walker \<Rightarrow> bool" where
  "walker_shaped t w \<longleftrightarrow> (\<forall>fr. wk_frame w = Some fr \<longrightarrow> frame_shaped t fr)"

section \<open>Leaves\<close>

text \<open>Where the suffix of a cell below a marker is declared: in no group or in one, and at which position.\<close>

definition locate :: "FamilyShape \<Rightarrow> bytes \<Rightarrow> (nat option \<times> nat) option" where
  "locate fam rest =
     (case rest of
        [] \<Rightarrow> None
      | b # _ \<Rightarrow>
          if b = FIELD_TAG then map_option (Pair None) (fam_by_suffix fam rest)
          else if b = GROUP_TAG then map_option (\<lambda>(g, f). (Some g, f)) (locate_group (fam_groups fam) rest)
          else None)"

definition declared_slot :: "FamilyShape \<Rightarrow> nat option \<Rightarrow> nat \<Rightarrow> FieldSlot" where
  "declared_slot fam grp field = (case grp of None \<Rightarrow> fam_fields fam ! field | Some g \<Rightarrow> gsl_fields (fam_groups fam ! g) ! field)"

definition place_ok :: "FamilyShape \<Rightarrow> nat option \<Rightarrow> nat \<Rightarrow> bool" where
  "place_ok fam grp field \<longleftrightarrow>
     (case grp of None \<Rightarrow> field < length (fam_fields fam)
      | Some g \<Rightarrow> g < length (fam_groups fam) \<and> field < length (gsl_fields (fam_groups fam ! g)))"

lemma locate_group_ok:
  assumes "list_all group_slot_wf groups" "locate_group groups rest = Some (g, f)"
  shows "g < length groups \<and> f < length (gsl_fields (groups ! g)) \<and> prefix (gsl_suffix (groups ! g)) rest
     \<and> gsl_by_suffix (groups ! g) (drop (length (gsl_suffix (groups ! g))) rest) = Some f"
proof -
  from assms(2) have g: "index_of (\<lambda>g. prefix (gsl_suffix g) rest) groups = Some g"
    "gsl_by_suffix (groups ! g) (drop (length (gsl_suffix (groups ! g))) rest) = Some f"
    by (auto simp: locate_group_def split: option.splits)
  from iffD1 [OF index_of_Some g(1)] g(2) assms(1) show ?thesis by (auto simp: list_all_length group_slot_wf_def)
qed

lemma locate_place: "family_wf fam \<Longrightarrow> locate fam rest = Some (grp, f) \<Longrightarrow> place_ok fam grp f"
  by (auto simp: locate_def family_wf_def place_ok_def split: list.splits if_splits dest!: locate_group_ok)

definition mark :: "nat option \<Rightarrow> nat \<Rightarrow> ValueDomain option \<Rightarrow> Frame \<Rightarrow> Frame" where
  "mark grp field decoded fr =
     (case grp of
        Some g \<Rightarrow> fr\<lparr>fr_groups := (fr_groups fr)[g := (fr_groups fr ! g)[field := True]]\<rparr>
      | None \<Rightarrow> fr\<lparr>fr_own := (fr_own fr)[field := True],
                   fr_projected := (fr_projected fr)[field := projected_key decoded]\<rparr>)"

lemma mark_simps [simp]:
  "fr_family (mark grp f d fr) = fr_family fr" "fr_stem (mark grp f d fr) = fr_stem fr"
  "fr_keys (mark grp f d fr) = fr_keys fr" "fr_marker (mark grp f d fr) = fr_marker fr"
  "length (fr_projected (mark grp f d fr)) = length (fr_projected fr)"
  by (simp_all add: mark_def split: option.splits)

lemma length_nth_update: "i < length xss \<Longrightarrow> length (xss[g := (xss ! g)[f := b]] ! i) = length (xss ! i)"
  by (cases "i = g") simp_all

lemma mark_shaped: "frame_shaped t fr \<Longrightarrow> frame_shaped t (mark grp f d fr)"
  by (auto simp: frame_shaped_def mark_def list_all2_conv_all_nth length_nth_update split: option.splits)

lemma mark_leaf_eq:
  assumes "frame_shaped t fr" "place_ok (tb_families t ! fr_family fr) grp field"
  shows "mark_leaf grp field decoded fr = Inr (mark grp field decoded fr)"
  using assms
  by (cases fr)
    (auto simp: mark_leaf_def mark_def frame_shaped_def place_ok_def update_or_panic_def list_all2_conv_all_nth
      list_update_beyond split: option.splits)

lemma leaf_step:
  assumes "frame_shaped t fr" "place_ok (tb_families t ! fr_family fr) grp field" "wk_frame w = Some fr"
  shows "yields errs (leaf t grp field v w) (\<lambda>w'. ledger w' = ledger w
     \<and> wk_frame w' = Some (mark grp field (decode_domain v (fsl_shape (declared_slot (tb_families t ! fr_family fr) grp field))) fr)
     \<and> fnd w' = fnd w + (if decode_domain v (fsl_shape (declared_slot (tb_families t ! fr_family fr) grp field)) = None then 1 else 0))"
proof -
  let ?fam = "tb_families t ! fr_family fr"
  have fam: "fr_family fr < length (tb_families t)" using assms(1) by (simp add: frame_shaped_def)
  have slot: "(case grp of Some g \<Rightarrow> rbind (nth_or_panic (fam_groups ?fam) g) (\<lambda>slot. nth_or_panic (gsl_fields slot) field)
      | None \<Rightarrow> nth_or_panic (fam_fields ?fam) field) = (Inr (declared_slot ?fam grp field) :: FieldSlot walked)"
    using assms(2) by (auto simp: place_ok_def declared_slot_def split: option.splits)
  show ?thesis
    using assms(3) fam
    by (auto simp: leaf_def open_frame_def slot mark_leaf_eq [OF assms(1,2)] field_site_def site_of_def Let_def)
qed

lemma own_leaf_step:
  assumes "frame_shaped t fr" "wk_frame w = Some fr"
  shows "yields errs (own_leaf t w) (\<lambda>w'. ledger w' = ledger w \<and> wk_frame w' = Some (fr\<lparr>fr_any_leaf := True\<rparr>)
     \<and> fnd w' = fnd w + (if \<not> fr_marker fr \<and> \<not> fr_any_leaf fr then 1 else 0))"
  using assms by (auto simp: own_leaf_def open_frame_def audit_node_site_def frame_shaped_def Let_def)

text \<open>Whether a suffix is a declared leaf whose bytes decode.\<close>

definition leaf_fine :: "FamilyShape \<Rightarrow> bytes \<Rightarrow> bytes \<Rightarrow> bool" where
  "leaf_fine fam rest v \<longleftrightarrow>
     (case locate fam rest of None \<Rightarrow> False
      | Some (grp, f) \<Rightarrow> decode_domain v (fsl_shape (declared_slot fam grp f)) \<noteq> None)"

definition leaf_marked :: "FamilyShape \<Rightarrow> bytes \<Rightarrow> bytes \<Rightarrow> Frame \<Rightarrow> Frame" where
  "leaf_marked fam rest v fr =
     (case locate fam rest of None \<Rightarrow> fr
      | Some (grp, f) \<Rightarrow> mark grp f (decode_domain v (fsl_shape (declared_slot fam grp f))) fr)"

lemma below_marker_append:
  "below_marker stem (stem @ rest) =
     (case rest of b # _ \<Rightarrow> if b = FIELD_TAG then OwnField else if b = GROUP_TAG then OwnGroup else CorruptBelow
      | [] \<Rightarrow> ForeignBelow)"
  by (simp add: below_marker_def strip_prefix_of_def split: list.splits)

lemma within_node_step:
  assumes "frame_shaped t fr" "family_wf (tb_families t ! fr_family fr)" "wk_frame w = Some fr"
  shows "yields errs (within_node t (fr_stem fr @ rest) v w) (\<lambda>w'. ledger w' = ledger w \<and> walker_shaped t w' \<and> fnd w \<le> fnd w'
     \<and> (\<exists>fr'. wk_frame w' = Some fr' \<and> fr_stem fr' = fr_stem fr)
     \<and> (if fr_marker fr
        then (fnd w' = fnd w \<longleftrightarrow> leaf_fine (tb_families t ! fr_family fr) rest v)
             \<and> (leaf_fine (tb_families t ! fr_family fr) rest v \<longrightarrow>
                  wk_frame w' = Some (leaf_marked (tb_families t ! fr_family fr) rest v (fr\<lparr>fr_any_leaf := True\<rparr>)))
        else \<not> fr_any_leaf fr \<longrightarrow> fnd w < fnd w'))"
proof -
  let ?fam = "tb_families t ! fr_family fr" and ?fr = "fr\<lparr>fr_any_leaf := True\<rparr>"
  have fam: "fr_family fr < length (tb_families t)" using assms(1) by (simp add: frame_shaped_def)
  have shaped: "frame_shaped t ?fr" using assms(1) by (simp add: frame_shaped_def)
  show ?thesis
  proof (cases "\<exists>b r. rest = b # r \<and> (b = FIELD_TAG \<or> b = GROUP_TAG)")
    case True
    then obtain b r where rest: "rest = b # r" "b = FIELD_TAG \<or> b = GROUP_TAG" by blast
    have "within_node t (fr_stem fr @ rest) v w =
        rbind (own_leaf t w) (\<lambda>w. case locate ?fam rest of
          Some (grp, f) \<Rightarrow> leaf t grp f v w
        | None \<Rightarrow> Inr (finding OutsideSchema (CellSite (fr_stem fr @ rest)) w))"
      using rest fam assms(3)
      by (auto simp: within_node_def open_frame_def slice_from_def below_marker_append locate_def layout_tags
          intro!: arg_cong [where f = "rbind (own_leaf t w)"] split: option.splits)
    moreover have "yields errs (rbind (own_leaf t w) (\<lambda>w. case locate ?fam rest of
          Some (grp, f) \<Rightarrow> leaf t grp f v w
        | None \<Rightarrow> Inr (finding OutsideSchema (CellSite (fr_stem fr @ rest)) w)))
      (\<lambda>w'. ledger w' = ledger w \<and> wk_frame w' = Some (leaf_marked ?fam rest v ?fr)
        \<and> fnd w' = fnd w + (if \<not> fr_marker fr \<and> \<not> fr_any_leaf fr then 1 else 0) + (if leaf_fine ?fam rest v then 0 else 1))"
    proof (rule yields_bind [OF own_leaf_step [OF assms(1,3)]])
      fix w1 assume w1: "ledger w1 = ledger w \<and> wk_frame w1 = Some ?fr
        \<and> fnd w1 = fnd w + (if \<not> fr_marker fr \<and> \<not> fr_any_leaf fr then 1 else 0)"
      show "yields errs (case locate ?fam rest of
          Some (grp, f) \<Rightarrow> leaf t grp f v w1
        | None \<Rightarrow> Inr (finding OutsideSchema (CellSite (fr_stem fr @ rest)) w1))
        (\<lambda>w'. ledger w' = ledger w \<and> wk_frame w' = Some (leaf_marked ?fam rest v ?fr)
        \<and> fnd w' = fnd w + (if \<not> fr_marker fr \<and> \<not> fr_any_leaf fr then 1 else 0) + (if leaf_fine ?fam rest v then 0 else 1))"
      proof (cases "locate ?fam rest")
        case (Some p)
        obtain grp f where p: "p = (grp, f)" by fastforce
        have "place_ok (tb_families t ! fr_family ?fr) grp f" using locate_place [OF assms(2)] Some p by simp
        from yields_mono [OF leaf_step [OF shaped this, of w1 errs v]] w1 show ?thesis
          using Some p by (auto simp: leaf_marked_def leaf_fine_def)
      qed (use w1 in \<open>simp add: leaf_marked_def leaf_fine_def\<close>)
    qed
    moreover have "frame_shaped t (leaf_marked ?fam rest v ?fr)" "fr_stem (leaf_marked ?fam rest v ?fr) = fr_stem fr"
      using shaped mark_shaped by (auto simp: leaf_marked_def split: option.splits)
    ultimately show ?thesis by (auto elim!: yields_mono simp: walker_shaped_def split: if_splits)
  next
    case False
    then have "locate ?fam rest = None" by (auto simp: locate_def split: list.splits)
    moreover have "within_node t (fr_stem fr @ rest) v w = Inr (finding Undecodable (CellSite (fr_stem fr @ rest)) w)"
      using False fam assms(3)
      using below_marker_append [of "fr_stem fr" "[]"]
      by (cases rest) (auto simp: within_node_def open_frame_def slice_from_def below_marker_append)
    ultimately show ?thesis using assms(1,3) by (simp add: leaf_fine_def walker_shaped_def)
  qed
qed

section \<open>Entering an entry\<close>

lemma decode_keys_from_iff:
  "decode_keys_from bs kinds acc used = Some (keys, n) \<longleftrightarrow>
     (\<exists>ks. keys = acc @ ks \<and> keys_fit kinds ks \<and> list_all key_wf ks \<and> n = used + length (encode_key_tuple ks)
           \<and> (kinds = [] \<or> used \<le> length bs \<and> prefix (encode_key_tuple ks) (drop used bs)))"
proof (induction kinds arbitrary: acc used)
  case (Cons kind kinds)
  show ?case
  proof (cases "decode_key_value (drop used bs)")
    case None
    have "\<not> prefix (encode_key_tuple ks) (drop used bs)" if "keys_fit (kind # kinds) ks" "list_all key_wf ks" for ks
    proof
      assume p: "prefix (encode_key_tuple ks) (drop used bs)"
      have "ks \<noteq> []" using that(1) by (auto simp: keys_fit_def)
      then obtain k ls where "ks = k # ls" by (auto simp: neq_Nil_conv)
      with p that(2) have "decode_key_value (drop used bs) = Some (k, length (encode_key_value k))"
        by (auto simp: keys.dec_iff dest: append_prefixD)
      with None show False by simp
    qed
    then show ?thesis using None by auto
  next
    case (Some r)
    obtain column m where r: "r = (column, m)" by fastforce
    have column: "key_wf column" "m = length (encode_key_value column)" "prefix (encode_key_value column) (drop used bs)"
      using Some r by (simp_all add: keys.dec_iff)
    obtain tail where tail: "drop used bs = encode_key_value column @ tail" using column(3) by (auto simp: prefix_def)
    then have drop': "drop (used + m) bs = tail" using column(2) by (metis add.commute append_eq_conv_conj drop_drop)
    have head: "prefix (encode_key_tuple (k # ls)) (drop used bs) \<longleftrightarrow> k = column \<and> prefix (encode_key_tuple ls) tail" for k ls
      unfolding tail tuple_Cons by (rule keys.enc_append_prefix)
    have len: "used \<le> length bs \<Longrightarrow> used + m \<le> length bs"
    proof -
      assume "used \<le> length bs"
      moreover have "length (drop used bs) = m + length tail" using tail column(2) by simp
      ultimately show ?thesis by simp
    qed
    show ?thesis
    proof (cases "used \<le> length bs")
      case True
      show ?thesis
        using Some r True column Cons.IH [of "acc @ [column]" "used + m"] drop' len [OF True] head
        by (cases "scalar_key_matches_type column kind") (auto simp: keys_fit_def list_all2_Cons2)
    qed simp
  qed
qed (auto simp: keys_fit_def)

lemma decode_keys_iff:
  "decode_keys bs kinds = Some (keys, n) \<longleftrightarrow>
     keys_fit kinds keys \<and> list_all key_wf keys \<and> n = length (encode_key_tuple keys) \<and> prefix (encode_key_tuple keys) bs"
  by (auto simp: decode_keys_def decode_keys_from_iff keys_fit_def)

text \<open>A key under a family's prefix that names one of its entries.\<close>

definition entry_keys :: "FamilyShape \<Rightarrow> KeyScalar list \<Rightarrow> bool" where
  "entry_keys fam keys \<longleftrightarrow> keys_fit (concat (fam_key_segments fam)) keys \<and> list_all key_wf keys"

lemma decode_entry:
  assumes "key = entry_family_prefix n @ rest"
  shows "(case decode_keys rest (concat (fam_key_segments fam)) of None \<Rightarrow> None
          | Some (keys, _) \<Rightarrow> if prefix (marker_key n keys) key then Some keys else None) = Some keys
     \<longleftrightarrow> entry_keys fam keys \<and> prefix (marker_key n keys) key"
proof -
  have p: "prefix (marker_key n keys) key \<longleftrightarrow> prefix (encode_key_tuple keys @ [MARKER_TERMINATOR]) rest" for keys
    by (simp add: assms marker_key_def child_marker_def)
  show ?thesis
  proof (cases "decode_keys rest (concat (fam_key_segments fam))")
    case None
    then have "\<not> (entry_keys fam keys \<and> prefix (encode_key_tuple keys) rest)"
      using decode_keys_iff [of rest "concat (fam_key_segments fam)" keys "length (encode_key_tuple keys)"]
      by (auto simp: entry_keys_def)
    then show ?thesis using None by (auto simp: p dest: append_prefixD)
  next
    case (Some r)
    obtain ks m where r: "r = (ks, m)" by fastforce
    have ks: "entry_keys fam ks" "m = length (encode_key_tuple ks)" "prefix (encode_key_tuple ks) rest"
      using Some r by (auto simp: decode_keys_iff entry_keys_def)
    have "keys = ks" if "entry_keys fam keys" "prefix (marker_key n keys) key"
    proof -
      have "decode_keys rest (concat (fam_key_segments fam)) = Some (keys, length (encode_key_tuple keys))"
        using that by (auto simp: decode_keys_iff entry_keys_def p dest: append_prefixD)
      then show ?thesis using Some r by simp
    qed
    then show ?thesis using Some r ks by auto
  qed
qed

definition fresh_frame :: "Tables \<Rightarrow> nat \<Rightarrow> KeyScalar list \<Rightarrow> bool \<Rightarrow> Frame" where
  "fresh_frame t family keys marker =
     \<lparr>fr_family = family, fr_stem = marker_key (fam_number (tb_families t ! family)) keys, fr_keys = keys, fr_marker = marker,
      fr_own = replicate (length (fam_fields (tb_families t ! family))) False,
      fr_groups = map (\<lambda>g. replicate (length (gsl_fields g)) False) (fam_groups (tb_families t ! family)),
      fr_projected = (if family = rsh_family (tb_roots t ! fam_root (tb_families t ! family))
                         \<and> rsh_indexes (tb_roots t ! fam_root (tb_families t ! family)) \<noteq> []
                      then replicate (length (fam_fields (tb_families t ! family))) None else []),
      fr_any_leaf = False\<rparr>"

lemma fresh_frame_simps [simp]:
  "fr_family (fresh_frame t family keys marker) = family" "fr_keys (fresh_frame t family keys marker) = keys"
  "fr_stem (fresh_frame t family keys marker) = marker_key (fam_number (tb_families t ! family)) keys"
  "fr_marker (fresh_frame t family keys marker) = marker" "\<not> fr_any_leaf (fresh_frame t family keys marker)"
  by (simp_all add: fresh_frame_def)

lemma fresh_frame_shaped:
  "family < length (tb_families t) \<Longrightarrow> fam_prefix (tb_families t ! family) = entry_family_prefix (fam_number (tb_families t ! family)) \<Longrightarrow>
     frame_shaped t (fresh_frame t family keys marker)"
  by (simp add: frame_shaped_def fresh_frame_def list_all2_conv_all_nth marker_key_def child_marker_def)

lemma enter_entry_step:
  assumes "family < length (tb_families t)" "fam_root (tb_families t ! family) < length (tb_roots t)"
    "family_wf (tb_families t ! family)" "fam_prefix (tb_families t ! family) = entry_family_prefix (fam_number (tb_families t ! family))"
    "prefix (fam_prefix (tb_families t ! family)) key" "wk_frame w = None"
  shows "yields errs (enter_entry t family key v w) (\<lambda>w'. ledger w' = ledger w \<and> walker_shaped t w' \<and> fnd w \<le> fnd w'
     \<and> (fnd w' = fnd w \<longleftrightarrow> v = MARKER_VALUE
          \<and> (\<exists>keys. entry_keys (tb_families t ! family) keys \<and> key = marker_key (fam_number (tb_families t ! family)) keys))
     \<and> (\<forall>keys. fnd w' = fnd w \<longrightarrow> key = marker_key (fam_number (tb_families t ! family)) keys \<longrightarrow>
          wk_frame w' = Some (fresh_frame t family keys True)))"
proof -
  let ?fam = "tb_families t ! family"
  let ?n = "fam_number ?fam"
  obtain rest where rest: "key = entry_family_prefix ?n @ rest" using assms(4,5) by (auto simp: prefix_def)
  define found where "found = (case decode_keys rest (concat (fam_key_segments ?fam)) of None \<Rightarrow> None
          | Some (keys, _) \<Rightarrow> if prefix (marker_key ?n keys) key then Some keys else None)"
  have found: "found = Some keys \<longleftrightarrow> entry_keys ?fam keys \<and> prefix (marker_key ?n keys) key" for keys
    unfolding found_def by (rule decode_entry [OF rest])
  have enter: "enter_entry t family key v w =
      (case found of None \<Rightarrow> Inr (finding Undecodable (CellSite key) w)
       | Some keys \<Rightarrow>
           let w = w\<lparr>wk_frame := Some (fresh_frame t family keys (key = marker_key ?n keys))\<rparr>
           in if key = marker_key ?n keys
              then let w = w\<lparr>wk_summary := (wk_summary w)\<lparr>sm_entries := sm_entries (wk_summary w) + 1\<rparr>\<rparr>
                   in if v \<noteq> MARKER_VALUE
                      then rbind (audit_node_site t w) (\<lambda>site. Inr (finding MarkerInvalid site w)) else Inr w
              else within_node t key v w)"
    using assms(1,2,4)
    by (auto simp: enter_entry_def slice_from_def rest found_def fresh_frame_def Let_def split: option.splits)
  show ?thesis
  proof (cases found)
    case None
    then have "\<not> (entry_keys ?fam keys \<and> key = marker_key ?n keys)" for keys using found [of keys] by auto
    then show ?thesis using None assms(6) by (auto simp: enter walker_shaped_def)
  next
    case (Some keys)
    then have keys: "entry_keys ?fam keys" "prefix (marker_key ?n keys) key" using found by auto
    show ?thesis
    proof (cases "key = marker_key ?n keys")
      case True
      let ?w = "w\<lparr>wk_frame := Some (fresh_frame t family keys True)\<rparr>"
      let ?w1 = "?w\<lparr>wk_summary := (wk_summary ?w)\<lparr>sm_entries := sm_entries (wk_summary ?w) + 1\<rparr>\<rparr>"
      have "enter_entry t family key v w =
          (if v \<noteq> MARKER_VALUE then rbind (audit_node_site t ?w1) (\<lambda>site. Inr (finding MarkerInvalid site ?w1)) else Inr ?w1)"
        unfolding enter Some by (simp add: True Let_def)
      moreover have "ledger ?w1 = ledger w" "fnd ?w1 = fnd w" by (simp_all add: ledger_def fnd_def)
      moreover have "audit_node_site t ?w1 = Inr (NodeSite (word_of_nat (fam_root ?fam)) (fam_branch_path ?fam) keys)"
        using assms(1) by (simp add: audit_node_site_def open_frame_def)
      ultimately show ?thesis
        using keys(1) fresh_frame_shaped [OF assms(1,4)] True by (auto simp: walker_shaped_def)
    next
      case False
      let ?fr = "fresh_frame t family keys False" and ?w = "w\<lparr>wk_frame := Some (fresh_frame t family keys False)\<rparr>"
      obtain r where r: "key = fr_stem ?fr @ r" using keys(2) by (auto simp: prefix_def fresh_frame_def)
      have "enter_entry t family key v w = within_node t key v ?w" unfolding enter Some by (simp add: False)
      then have "enter_entry t family key v w = within_node t (fr_stem ?fr @ r) v ?w" using r by simp
      moreover have "family_wf (tb_families t ! fr_family ?fr)" "wk_frame ?w = Some ?fr"
        using assms(3) by (simp_all add: fresh_frame_def)
      moreover have "\<not> (\<exists>ks. key = marker_key ?n ks)" using False r marker_append_inject [of ?n keys r ?n _ "[]"]
        by (auto simp: fresh_frame_def)
      ultimately show ?thesis
        using yields_mono [OF within_node_step [OF fresh_frame_shaped [OF assms(1,4)], of keys False ?w errs r v]]
        by (auto simp: fresh_frame_def)
    qed
  qed
qed

section \<open>Closing an entry\<close>

text \<open>A check adds findings and changes nothing else; it adds none exactly when its condition holds.\<close>

definition checks :: "StoreError set \<Rightarrow> ('d Walker \<Rightarrow> 'd Walker walked) \<Rightarrow> bool \<Rightarrow> bool" where
  "checks errs step good \<longleftrightarrow>
     (\<forall>w. yields errs (step w) (\<lambda>w'. ledger w' = ledger w \<and> wk_frame w' = wk_frame w \<and> fnd w \<le> fnd w'
        \<and> (fnd w' = fnd w \<longleftrightarrow> good)))"

lemma checksD:
  "checks errs step good \<Longrightarrow> yields errs (step w) (\<lambda>w'. ledger w' = ledger w \<and> wk_frame w' = wk_frame w \<and> fnd w \<le> fnd w'
     \<and> (fnd w' = fnd w \<longleftrightarrow> good))"
  by (simp add: checks_def)

lemma checks_skip: "checks errs Inr True"
  by (simp add: checks_def)

lemma checks_then:
  assumes "checks errs f P" "checks errs g Q"
  shows "checks errs (\<lambda>w. rbind (f w) g) (P \<and> Q)"
  unfolding checks_def
proof
  fix w
  show "yields errs (rbind (f w) g) (\<lambda>w'. ledger w' = ledger w \<and> wk_frame w' = wk_frame w \<and> fnd w \<le> fnd w' \<and> (fnd w' = fnd w \<longleftrightarrow> P \<and> Q))"
    by (rule yields_bind [OF checksD [OF assms(1)]], rule yields_mono [OF checksD [OF assms(2)]]) auto
qed

lemma checks_cong: "checks errs f P \<Longrightarrow> P = Q \<Longrightarrow> checks errs f Q"
  by simp

lemma check_required_checks:
  assumes "fr_family fr < length (tb_families t)" "i + length slots \<le> length flags"
  shows "checks errs (check_required t fr grp i slots flags :: 'd Walker \<Rightarrow> _)
     (\<forall>j < length slots. fsl_required (slots ! j) \<longrightarrow> flags ! (i + j))"
  using assms(2)
proof (induction slots arbitrary: i)
  case (Cons slot slots)
  have "checks errs (\<lambda>w :: 'd Walker. if fsl_required slot
            then rbind (nth_or_panic flags i) (\<lambda>present.
                   if \<not> present then rbind (site_of t fr grp i) (\<lambda>site. Inr (finding RequiredMissing site w))
                   else Inr w)
            else Inr w) (fsl_required slot \<longrightarrow> flags ! i)"
    using Cons.prems assms(1) by (simp add: checks_def site_of_def)
  from checks_then [OF this Cons.IH [of "Suc i"]] Cons.prems
  have "checks errs (\<lambda>w :: 'd Walker. rbind (if fsl_required slot
            then rbind (nth_or_panic flags i) (\<lambda>present.
                   if \<not> present then rbind (site_of t fr grp i) (\<lambda>site. Inr (finding RequiredMissing site w))
                   else Inr w)
            else Inr w) (check_required t fr grp (Suc i) slots flags))
      ((fsl_required slot \<longrightarrow> flags ! i) \<and> (\<forall>j < length slots. fsl_required (slots ! j) \<longrightarrow> flags ! (Suc i + j)))" by simp
  moreover have "((fsl_required slot \<longrightarrow> flags ! i) \<and> (\<forall>j < length slots. fsl_required (slots ! j) \<longrightarrow> flags ! (Suc i + j)))
      = (\<forall>j < length (slot # slots). fsl_required ((slot # slots) ! j) \<longrightarrow> flags ! (i + j))"
    by (auto simp: less_Suc_eq_0_disj)
  ultimately show ?case by (simp only: check_required.simps)
qed (simp add: checks_def)

definition group_complete :: "GroupSlot \<Rightarrow> bool list \<Rightarrow> bool" where
  "group_complete g flags \<longleftrightarrow> (\<forall>j < length (gsl_fields g). fsl_required (gsl_fields g ! j) \<longrightarrow> flags ! j)"

lemma check_groups_checks:
  assumes "fr_family fr < length (tb_families t)"
    "list_all2 (\<lambda>flags g. length flags = length (gsl_fields g)) (drop i (fr_groups fr)) slots"
  shows "checks errs (check_groups t fr i slots :: 'd Walker \<Rightarrow> _) (list_all2 (\<lambda>flags g. group_complete g flags) (drop i (fr_groups fr)) slots)"
  using assms(2)
proof (induction slots arbitrary: i rule: list.induct)
  case (Cons slot slots)
  then obtain flags rest where d: "drop i (fr_groups fr) = flags # rest" "length flags = length (gsl_fields slot)"
    by (auto simp: list_all2_Cons2)
  then have i: "i < length (fr_groups fr)" "fr_groups fr ! i = flags" "drop (Suc i) (fr_groups fr) = rest"
    by (metis drop_all list.distinct(1) not_le, metis nth_via_drop, metis Cons_nth_drop_Suc drop_all list.distinct(1) list.inject not_le)
  have first: "checks errs (\<lambda>w :: 'd Walker. if list_ex fsl_required (gsl_fields slot)
            then rbind (nth_or_panic (fr_groups fr) i) (\<lambda>flags. check_required t fr (Some i) 0 (gsl_fields slot) flags w)
            else Inr w) (group_complete slot flags)"
  proof (cases "list_ex fsl_required (gsl_fields slot)")
    case True
    then show ?thesis
      using check_required_checks [OF assms(1), of 0 "gsl_fields slot" flags errs "Some i"] i d(2)
      by (simp add: group_complete_def)
  next
    case False
    then have "group_complete slot flags" by (auto simp: group_complete_def list_ex_length)
    then show ?thesis using False checks_skip by simp
  qed
  have "list_all2 (\<lambda>flags g. length flags = length (gsl_fields g)) (drop (Suc i) (fr_groups fr)) slots"
    using Cons.prems d(1) i(3) by simp
  from checks_then [OF first Cons.IH [OF this]] show ?case
    using d(1) i(3) by simp
qed (simp_all add: checks_def)

text \<open>The projection of an entry that the index checks use.\<close>

definition audit_row :: "IndexShape \<Rightarrow> Frame \<Rightarrow> KeyScalar list option" where
  "audit_row shape fr =
     collect_options (map (\<lambda>(c, _). component_value (fr_keys fr) (fr_projected fr) c) (ish_components shape))"

definition row_present :: "(bytes \<rightharpoonup> bytes) \<Rightarrow> NodeNumber \<Rightarrow> IndexShape \<Rightarrow> Frame \<Rightarrow> bool" where
  "row_present m number shape fr \<longleftrightarrow>
     (case audit_row shape fr of None \<Rightarrow> True
      | Some vals \<Rightarrow> m (index_cell_key number (ish_id shape) vals) = Some (index_cell_value (fr_keys fr)))"

definition frame_complete :: "Tables \<Rightarrow> (bytes \<rightharpoonup> bytes) \<Rightarrow> Frame \<Rightarrow> bool" where
  "frame_complete t m fr \<longleftrightarrow>
     (let fam = tb_families t ! fr_family fr; root = tb_roots t ! fam_root fam
      in (\<forall>j < length (fam_fields fam). fsl_required (fam_fields fam ! j) \<longrightarrow> fr_own fr ! j)
         \<and> list_all2 (\<lambda>flags g. group_complete g flags) (fr_groups fr) (fam_groups fam)
         \<and> (fr_family fr = rsh_family root \<longrightarrow> (\<forall>i \<in> set (rsh_indexes root). row_present m (rsh_number root) (tb_indexes t ! i) fr)))"

section \<open>Index cells\<close>

definition index_root :: "Tables \<Rightarrow> IndexShape \<Rightarrow> RootShape" where
  "index_root t shape = tb_roots t ! unat (ish_root shape)"

definition index_family_shape :: "Tables \<Rightarrow> IndexShape \<Rightarrow> FamilyShape" where
  "index_family_shape t shape = tb_families t ! rsh_family (index_root t shape)"

definition index_shape_wf :: "Tables \<Rightarrow> IndexShape \<Rightarrow> bool" where
  "index_shape_wf t shape \<longleftrightarrow>
     unat (ish_root shape) < length (tb_roots t) \<and> rsh_family (index_root t shape) < length (tb_families t)
     \<and> fam_key_segments (index_family_shape t shape) \<noteq> []
     \<and> (\<forall>f k. (CField f, k) \<in> set (ish_components shape) \<longrightarrow>
          f < length (rsh_field_numbers (index_root t shape)) \<and> f < length (fam_fields (index_family_shape t shape)))"

definition agrees :: "Tables \<Rightarrow> (bytes \<rightharpoonup> bytes) \<Rightarrow> IndexShape \<Rightarrow> KeyScalar list \<Rightarrow> Component \<Rightarrow> KeyScalar \<Rightarrow> bool" where
  "agrees t m shape source component projected =
     (case component of
        CKey column \<Rightarrow> nth_opt source column = Some projected
      | CField f \<Rightarrow>
          (case m (stem_field_leaf (marker_key (rsh_number (index_root t shape)) source) (rsh_field_numbers (index_root t shape) ! f)) of
             None \<Rightarrow> False
           | Some bs \<Rightarrow>
               (case decode_domain bs (fsl_shape (fam_fields (index_family_shape t shape) ! f)) of
                  Some (VScalar scalar) \<Rightarrow> (case as_key scalar of Inr key \<Rightarrow> key | Inl _ \<Rightarrow> None) = Some projected
                | _ \<Rightarrow> True)))"

definition source_fine :: "Tables \<Rightarrow> (bytes \<rightharpoonup> bytes) \<Rightarrow> IndexShape \<Rightarrow> KeyScalar list \<Rightarrow> KeyScalar list \<Rightarrow> bool" where
  "source_fine t m shape vals source \<longleftrightarrow>
     keys_fit (hd (fam_key_segments (index_family_shape t shape))) source \<and> list_all key_wf source
     \<and> m (marker_key (rsh_number (index_root t shape)) source) \<noteq> None
     \<and> (\<forall>((c, k), val) \<in> set (zip (ish_components shape) vals). agrees t m shape source c val)"

definition index_fine :: "Tables \<Rightarrow> (bytes \<rightharpoonup> bytes) \<Rightarrow> IndexShape \<Rightarrow> bytes \<Rightarrow> bytes \<Rightarrow> bool" where
  "index_fine t m shape key v \<longleftrightarrow>
     (\<exists>vals source. key = ish_prefix shape @ encode_key_tuple vals \<and> keys_fit (map snd (ish_components shape)) vals
        \<and> list_all key_wf vals \<and> v = index_cell_value source \<and> source_fine t m shape vals source)"

lemma index_fine_iff:
  assumes "key = ish_prefix shape @ encode_key_tuple vals" "v = index_cell_value source"
    "keys_fit (map snd (ish_components shape)) vals" "list_all key_wf vals"
  shows "index_fine t m shape key v \<longleftrightarrow> source_fine t m shape vals source"
  using assms by (auto simp: index_fine_def index_cell_value_def tuple_inject)

lemma keys_fit_zip: "length source = length kinds \<Longrightarrow> list_all (\<lambda>(c, k). scalar_key_matches_type c k) (zip source kinds) \<longleftrightarrow> keys_fit kinds source"
  by (simp add: keys_fit_def list_all2_iff list_all_iff split_def)

context lawful_view
begin

lemma component_agrees_yields:
  assumes "ok view" "index_shape_wf t shape" "(component, kind) \<in> set (ish_components shape)"
  shows "yields errs (component_agrees E view (index_root t shape) (index_family_shape t shape)
     (marker_key (rsh_number (index_root t shape)) source) source component projected) (\<lambda>b. b = agrees t (cells view) shape source component projected)"
proof (cases component)
  case (CField f)
  then have f: "f < length (rsh_field_numbers (index_root t shape))" "f < length (fam_fields (index_family_shape t shape))"
    using assms(2,3) by (auto simp: index_shape_wf_def)
  show ?thesis unfolding component_agrees_def CField Component.case nth_or_panic_in [OF f(1)] nth_or_panic_in [OF f(2)] rbind.simps
    by (rule yields_bind [OF yields_get [OF assms(1)]]) (auto simp: agrees_def split: option.splits)
qed (simp add: component_agrees_def agrees_def)

lemma components_agree_yields:
  assumes "ok view" "index_shape_wf t shape" "\<forall>((c, k), val) \<in> set ps. (c, k) \<in> set (ish_components shape)"
  shows "yields errs (components_agree E view (index_root t shape) (index_family_shape t shape)
     (marker_key (rsh_number (index_root t shape)) source) source ps)
     (\<lambda>b. b \<longleftrightarrow> (\<forall>((c, k), val) \<in> set ps. agrees t (cells view) shape source c val))"
  using assms(3)
proof (induction ps)
  case (Cons p ps)
  obtain c k val where p: "p = ((c, k), val)" by (metis prod.collapse)
  have "(c, k) \<in> set (ish_components shape)" using Cons.prems p by auto
  note first = component_agrees_yields [OF assms(1,2) this, of source val]
  show ?case unfolding p components_agree.simps
    by (rule yields_bind [OF first]) (use Cons p in \<open>auto elim: yields_mono\<close>)
qed simp

lemma index_cell_checks:
  assumes "ok view" "index_shape_wf t shape" "prefix (ish_prefix shape) key"
  shows "checks errs (index_cell_step E view t shape key v :: 'd Walker \<Rightarrow> _) (index_fine t (cells view) shape key v)"
  unfolding checks_def
proof
  fix w :: "'d Walker"
  let ?root = "index_root t shape" and ?fam = "index_family_shape t shape" and ?kinds = "map snd (ish_components shape)"
  let ?w = "w\<lparr>wk_summary := (wk_summary w)\<lparr>sm_index_cells := sm_index_cells (wk_summary w) + 1\<rparr>\<rparr>"
  have wf: "unat (ish_root shape) < length (tb_roots t)" "rsh_family ?root < length (tb_families t)" "fam_key_segments ?fam \<noteq> []"
    using assms(2) by (simp_all add: index_shape_wf_def)
  obtain rest where rest: "key = ish_prefix shape @ rest" using assms(3) by (auto simp: prefix_def)
  let ?post = "\<lambda>w'. ledger w' = ledger w \<and> wk_frame w' = wk_frame w \<and> fnd w \<le> fnd w'
        \<and> (fnd w' = fnd w \<longleftrightarrow> index_fine t (cells view) shape key v)"
  have w: "ledger ?w = ledger w" "wk_frame ?w = wk_frame w" "fnd ?w = fnd w" by (simp_all add: ledger_def fnd_def)
  have bad: "yields errs (Inr (finding f site ?w)) ?post" if "\<not> index_fine t (cells view) shape key v" for f site
    using that w by simp
  show "yields errs (index_cell_step E view t shape key v w) ?post"
  proof (cases "\<exists>vals. decode_keys rest ?kinds = Some (vals, length rest)")
    case False
    then have "\<not> index_fine t (cells view) shape key v" by (auto simp: index_fine_def rest decode_keys_iff)
    moreover have "index_cell_step E view t shape key v w = Inr (finding Undecodable (CellSite key) ?w)"
      using False wf(1) by (auto simp: index_cell_step_def rest slice_from_def Let_def split: option.splits)
    ultimately show ?thesis using bad by simp
  next
    case True
    then obtain vals where vals: "decode_keys rest ?kinds = Some (vals, length rest)" by blast
    then have fit: "keys_fit ?kinds vals" "list_all key_wf vals" "prefix (encode_key_tuple vals) rest" "length rest = length (encode_key_tuple vals)"
      by (simp_all add: decode_keys_iff)
    then have rest_vals: "rest = encode_key_tuple vals" by (auto simp: prefix_def)
    let ?key = "hd (fam_key_segments ?fam)" and ?site = "IndexCellSite (ish_root shape) (ish_position shape) vals"
    have key0: "nth_or_panic (fam_key_segments ?fam) 0 = Inr ?key" using wf(3) by (simp add: hd_conv_nth)
    have step: "index_cell_step E view t shape key v w =
        (case decode_index_source_key v (length ?key) of
           Some source \<Rightarrow>
             if \<not> keys_fit ?key source then Inr (finding Undecodable ?site ?w)
             else rbind (get_raw E view (marker_key (rsh_number ?root) source)) (\<lambda>marker.
                    if marker = None then Inr (finding IndexOrphan ?site ?w)
                    else rbind (components_agree E view ?root ?fam (marker_key (rsh_number ?root) source) source (zip (ish_components shape) vals))
                           (\<lambda>agrees. Inr (if \<not> agrees then finding IndexStale ?site ?w else ?w)))
         | None \<Rightarrow> Inr (finding Undecodable ?site ?w))"
    proof (cases "decode_index_source_key v (length ?key)")
      case None
      then show ?thesis
        using wf(1,2) key0
        by (simp add: index_cell_step_def rest slice_from_def vals Let_def index_root_def [symmetric] index_family_shape_def [symmetric])
    next
      case (Some source)
      then have "length source = length ?key" by (simp add: decode_index_source_key_def decode_tuple_iff)
      then show ?thesis
        using wf(1,2) key0 Some
        by (simp add: index_cell_step_def rest slice_from_def vals Let_def index_root_def [symmetric] index_family_shape_def [symmetric]
            keys_fit_zip del: One_nat_def add_Suc_right)
    qed
    show ?thesis
    proof (cases "decode_index_source_key v (length ?key)")
      case None
      have "\<not> index_fine t (cells view) shape key v"
      proof
        assume "index_fine t (cells view) shape key v"
        then obtain source where "v = encode_key_tuple source" "keys_fit ?key source" "list_all key_wf source"
          by (auto simp: index_fine_def source_fine_def index_cell_value_def)
        then have "decode_index_source_key v (length ?key) = Some source"
          by (auto simp: decode_index_source_key_def decode_tuple_iff keys_fit_def dest: list_all2_lengthD)
        with None show False by simp
      qed
      then show ?thesis using bad by (simp add: step None)
    next
      case (Some source)
      then have source: "v = index_cell_value source" "list_all key_wf source"
        by (simp_all add: decode_index_source_key_def decode_tuple_iff index_cell_value_def)
      have fine: "index_fine t (cells view) shape key v \<longleftrightarrow> source_fine t (cells view) shape vals source"
        using index_fine_iff rest rest_vals source(1) fit by blast
      have zips: "\<forall>((c, k), val) \<in> set (zip (ish_components shape) vals). (c, k) \<in> set (ish_components shape)"
        by (auto dest: set_zip_leftD)
      show ?thesis
      proof (cases "keys_fit ?key source")
        case False
        then show ?thesis using bad fine by (simp add: step Some source_fine_def)
      next
        case True
        have "yields errs (rbind (get_raw E view (marker_key (rsh_number ?root) source)) (\<lambda>marker.
                    if marker = None then Inr (finding IndexOrphan ?site ?w)
                    else rbind (components_agree E view ?root ?fam (marker_key (rsh_number ?root) source) source (zip (ish_components shape) vals))
                           (\<lambda>agrees. Inr (if \<not> agrees then finding IndexStale ?site ?w else ?w)))) ?post"
        proof (rule yields_bind [OF yields_get [OF assms(1)]])
          fix marker assume m: "marker = cells view (marker_key (rsh_number ?root) source)"
          show "yields errs (if marker = None then Inr (finding IndexOrphan ?site ?w)
                    else rbind (components_agree E view ?root ?fam (marker_key (rsh_number ?root) source) source (zip (ish_components shape) vals))
                           (\<lambda>agrees. Inr (if \<not> agrees then finding IndexStale ?site ?w else ?w))) ?post"
          proof (cases "marker = None")
            case True
            then show ?thesis using bad fine m by (simp add: source_fine_def)
          next
            case False
            have "yields errs (rbind (components_agree E view ?root ?fam (marker_key (rsh_number ?root) source) source (zip (ish_components shape) vals))
                           (\<lambda>agrees. Inr (if \<not> agrees then finding IndexStale ?site ?w else ?w))) ?post"
              by (rule yields_bind [OF components_agree_yields [OF assms(1,2) zips]])
                (use False True m w source(2) in \<open>auto simp: fine source_fine_def split: if_splits\<close>)
            then show ?thesis by (simp only: False if_False)
          qed
        qed
        then show ?thesis unfolding step Some using True by (simp only: option.case not_True_eq_False if_False)
      qed
    qed
  qed
qed

end

context lawful_view
begin

lemma check_index_checks:
  assumes "ok view" "\<forall>i \<in> set indexes. i < length (tb_indexes t)"
  shows "checks errs (check_index_loop E view t number fr indexes :: 'd Walker \<Rightarrow> _) (\<forall>i \<in> set indexes. row_present (cells view) number (tb_indexes t ! i) fr)"
  using assms(2)
proof (induction indexes)
  case (Cons i indexes)
  let ?shape = "tb_indexes t ! i"
  have first: "checks errs (\<lambda>w :: 'd Walker. case audit_row ?shape fr of None \<Rightarrow> Inr w
      | Some vals \<Rightarrow> rbind (get_raw E view (index_cell_key number (ish_id ?shape) vals)) (\<lambda>cell.
          Inr (if cell \<noteq> Some (index_cell_value (fr_keys fr))
               then finding IndexMissing (IndexCellSite (ish_root ?shape) (ish_position ?shape) vals) w else w)))
      (row_present (cells view) number ?shape fr)"
  proof (cases "audit_row ?shape fr")
    case None
    then show ?thesis using checks_skip by (simp add: row_present_def)
  next
    case (Some vals)
    show ?thesis unfolding checks_def Some option.case
      by (intro allI yields_bind [OF yields_get [OF assms(1)]]) (auto simp: row_present_def Some)
  qed
  from checks_then [OF first Cons.IH] Cons.prems show ?case
    by (simp add: audit_row_def [symmetric])
qed (simp add: checks_def)

lemma check_closed_checks:
  assumes "ok view" "frame_shaped t fr" "fam_root (tb_families t ! fr_family fr) < length (tb_roots t)"
    "\<forall>i \<in> set (rsh_indexes (tb_roots t ! fam_root (tb_families t ! fr_family fr))). i < length (tb_indexes t)"
  shows "checks errs (check_closed E view t fr :: 'd Walker \<Rightarrow> _) (fr_marker fr \<longrightarrow> frame_complete t (cells view) fr)"
proof (cases "fr_marker fr")
  case True
  let ?fam = "tb_families t ! fr_family fr"
  let ?root = "tb_roots t ! fam_root ?fam"
  have f: "fr_family fr < length (tb_families t)" "length (fr_own fr) = length (fam_fields ?fam)"
    "list_all2 (\<lambda>flags g. length flags = length (gsl_fields g)) (fr_groups fr) (fam_groups ?fam)"
    using assms(2) by (simp_all add: frame_shaped_def)
  have index: "checks errs (\<lambda>w :: 'd Walker. if fr_family fr = rsh_family ?root then check_index_cells E view t fr w else Inr w)
      (fr_family fr = rsh_family ?root \<longrightarrow> (\<forall>i \<in> set (rsh_indexes ?root). row_present (cells view) (rsh_number ?root) (tb_indexes t ! i) fr))"
  proof (cases "fr_family fr = rsh_family ?root")
    case True
    then show ?thesis using check_index_checks [OF assms(1,4)] f(1) assms(3) by (simp add: check_index_cells_def)
  qed (simp add: checks_skip)
  have required: "checks errs (check_required t fr None 0 (fam_fields ?fam) (fr_own fr) :: 'd Walker \<Rightarrow> _)
      (\<forall>j < length (fam_fields ?fam). fsl_required (fam_fields ?fam ! j) \<longrightarrow> fr_own fr ! j)"
    using check_required_checks [OF f(1), of 0 "fam_fields ?fam" "fr_own fr" errs None] f(2) by simp
  have groups: "checks errs (check_groups t fr 0 (fam_groups ?fam) :: 'd Walker \<Rightarrow> _) (list_all2 (\<lambda>flags g. group_complete g flags) (fr_groups fr) (fam_groups ?fam))"
    using check_groups_checks [OF f(1), of 0 "fam_groups ?fam" errs] f(3) by simp
  show ?thesis
    using checks_then [OF required checks_then [OF groups index]] True f(1) assms(3)
    by (simp add: check_closed_def [abs_def] frame_complete_def Let_def)
qed (simp add: check_closed_def [abs_def] checks_skip)

end

end
