(* ===== verification/Audit_Run.thy ===== *)
theory Audit_Run
  imports Audit_Steps
begin

text \<open>
  The whole audit walk: over well-formed tables it never panics, classifies every cell by the family or
  index it lies under, and ends without a finding exactly when every cell is a good one and every
  present entry is complete.
\<close>

section \<open>Monotonic cursors\<close>

text \<open>The items before the cursor sort below the key and do not hold it.\<close>

definition passed :: "('a \<Rightarrow> bytes) \<Rightarrow> 'a list \<Rightarrow> nat \<Rightarrow> bytes \<Rightarrow> bool" where
  "passed pf items c key \<longleftrightarrow> (\<forall>i < min c (length items). pf (items ! i) < key \<and> \<not> prefix (pf (items ! i)) key)"

lemma passed_0 [simp]: "passed pf items 0 key"
  by (simp add: passed_def)

lemma passed_later:
  assumes "passed pf items c k0" "k0 < k"
  shows "passed pf items c k"
  unfolding passed_def
proof (intro allI impI)
  fix i assume i: "i < min c (length items)"
  let ?p = "pf (items ! i)"
  have p: "?p < k0" "\<not> prefix ?p k0" using assms(1) i by (auto simp: passed_def)
  have "\<not> prefix ?p k"
  proof
    assume "prefix ?p k"
    then have "lex_lt k k0" using prefix_contiguous [of ?p ?p k0 k] p by simp
    then show False using assms(2) lex_lt_less by fastforce
  qed
  with p(1) assms(2) show "?p < k \<and> \<not> prefix ?p k" by auto
qed

lemma seek_loop_spec:
  assumes "seek_loop pf (drop c items) c key = (r, c')" "passed pf items c key" "sorted_wrt (<) (map pf items)" "c \<le> length items"
  shows "passed pf items c' key \<and> c' \<le> length items
     \<and> (case r of Some i \<Rightarrow> i < length items \<and> prefix (pf (items ! i)) key
        | None \<Rightarrow> \<forall>i < length items. \<not> prefix (pf (items ! i)) key)"
  using assms(1,2,4)
proof (induction "length items - c" arbitrary: c)
  case 0
  then show ?case by (auto simp: passed_def)
next
  case (Suc n)
  then have c: "c < length items" by simp
  let ?p = "pf (items ! c)"
  have drop: "drop c items = items ! c # drop (Suc c) items" using c by (simp add: Cons_nth_drop_Suc)
  show ?case
  proof (cases "prefix ?p key")
    case True
    then show ?thesis using Suc.prems c by (auto simp: drop)
  next
    case False
    show ?thesis
    proof (cases "?p < key")
      case True
      have "passed pf items (Suc c) key"
        using Suc.prems(2) True False c by (auto simp: passed_def less_Suc_eq)
      then show ?thesis using Suc.hyps(1) [of "Suc c"] Suc.hyps(2) Suc.prems(1) True False c by (simp add: drop)
    next
      case below: False
      have "\<not> prefix (pf (items ! i)) key" if "i < length items" for i
      proof (cases "i < c")
        case True
        then show ?thesis using Suc.prems(2) that by (auto simp: passed_def)
      next
        case False
        then have "?p \<le> pf (items ! i)"
          using assms(3) that by (cases "i = c") (auto simp: sorted_wrt_map sorted_wrt_iff_nth_less intro: less_imp_le)
        moreover have "key < ?p" using below \<open>\<not> prefix ?p key\<close> by (cases "?p = key") auto
        ultimately show ?thesis using prefix_less_eq [of "pf (items ! i)" key] by (meson leD order.strict_trans2)
      qed
      then show ?thesis using Suc.prems False below c by (auto simp: drop)
    qed
  qed
qed

lemma seek_prefix_spec:
  assumes "seek_prefix pf items c key = (r, c')" "passed pf items c key" "sorted_wrt (<) (map pf items)" "c \<le> length items"
  shows "passed pf items c' key" "c' \<le> length items"
    "case r of Some i \<Rightarrow> i < length items \<and> prefix (pf (items ! i)) key
        | None \<Rightarrow> \<forall>i < length items. \<not> prefix (pf (items ! i)) key"
  using seek_loop_spec [OF assms(1) [unfolded seek_prefix_def] assms(2-4)] by simp_all

section \<open>Well-formed tables\<close>

record FamilySpec =
  fsp_number :: NodeNumber
  fsp_cols :: "ScalarKind list"
  fsp_fields :: "ResolvedField list"
  fsp_groups :: "ResolvedGroup list"

definition slot_of :: "ResolvedField \<Rightarrow> FieldSlot" where
  "slot_of f = \<lparr>fsl_shape = rf_shape f, fsl_required = rf_required f\<rparr>"

definition suffixes_of :: "ResolvedField list \<Rightarrow> (bytes \<rightharpoonup> nat) \<Rightarrow> bool" where
  "suffixes_of fs by_suffix \<longleftrightarrow>
     (\<forall>sfx i. by_suffix sfx = Some i \<longleftrightarrow> i < length fs \<and> sfx = stem_field_leaf [] (rf_number (fs ! i)))"

definition group_models :: "GroupSlot \<Rightarrow> ResolvedGroup \<Rightarrow> bool" where
  "group_models g rg \<longleftrightarrow> gsl_suffix g = group_stem [] (rg_number rg) \<and> gsl_fields g = map slot_of (rg_fields rg)
     \<and> suffixes_of (rg_fields rg) (gsl_by_suffix g)"

definition family_models :: "FamilyShape \<Rightarrow> FamilySpec \<Rightarrow> bool" where
  "family_models fam spec \<longleftrightarrow>
     fam_number fam = fsp_number spec \<and> fam_prefix fam = entry_family_prefix (fsp_number spec)
     \<and> concat (fam_key_segments fam) = fsp_cols spec \<and> fam_fields fam = map slot_of (fsp_fields spec)
     \<and> suffixes_of (fsp_fields spec) (fam_by_suffix fam) \<and> list_all2 group_models (fam_groups fam) (fsp_groups spec)
     \<and> target_wf (AtEntry (fsp_fields spec) (fsp_groups spec))"

definition tables_wf :: "Tables \<Rightarrow> FamilySpec list \<Rightarrow> bool" where
  "tables_wf t specs \<longleftrightarrow>
     list_all2 family_models (tb_families t) specs
     \<and> sorted_wrt (<) (map fam_prefix (tb_families t))
     \<and> (\<forall>fam \<in> set (tb_families t). fam_root fam < length (tb_roots t))
     \<and> (\<forall>r \<in> set (tb_roots t). \<forall>i \<in> set (rsh_indexes r). i < length (tb_indexes t))
     \<and> sorted_wrt (<) (map ish_prefix (tb_indexes t))
     \<and> (\<forall>shape \<in> set (tb_indexes t). index_shape_wf t shape \<and> prefix [INDEX_FAMILY] (ish_prefix shape) \<and> length (ish_prefix shape) = 21)
     \<and> tb_witness t = meta_key WITNESS"

lemma suffixes_in_range: "suffixes_of fs m \<Longrightarrow> m sfx = Some i \<Longrightarrow> i < length fs"
  by (simp add: suffixes_of_def)

lemma family_models_wf: "family_models fam spec \<Longrightarrow> family_wf fam"
  by (auto simp: family_models_def family_wf_def group_slot_wf_def group_models_def list_all_length list_all2_conv_all_nth
      dest: suffixes_in_range)

text \<open>The suffix of a declared leaf, by its place.\<close>

definition place_suffix :: "FamilySpec \<Rightarrow> nat option \<Rightarrow> nat \<Rightarrow> bytes" where
  "place_suffix spec grp i =
     (case grp of None \<Rightarrow> stem_field_leaf [] (rf_number (fsp_fields spec ! i))
      | Some g \<Rightarrow> stem_field_leaf (group_stem [] (rg_number (fsp_groups spec ! g))) (rf_number (rg_fields (fsp_groups spec ! g) ! i)))"

definition place_field :: "FamilySpec \<Rightarrow> nat option \<Rightarrow> nat \<Rightarrow> ResolvedField" where
  "place_field spec grp i = (case grp of None \<Rightarrow> fsp_fields spec ! i | Some g \<Rightarrow> rg_fields (fsp_groups spec ! g) ! i)"

lemma place_slot: "family_models fam spec \<Longrightarrow> place_ok fam grp i \<Longrightarrow> declared_slot fam grp i = slot_of (place_field spec grp i)"
  by (auto simp: family_models_def group_models_def place_ok_def declared_slot_def place_field_def list_all2_conv_all_nth split: option.splits)

lemma locate_place_suffix:
  assumes "family_models fam spec"
  shows "locate fam rest = Some (grp, i) \<longleftrightarrow> place_ok fam grp i \<and> rest = place_suffix spec grp i"
proof (cases grp)
  case None
  then show ?thesis
    using assms
    by (auto simp: locate_def place_ok_def place_suffix_def family_models_def suffixes_of_def field_leaf_layout layout_tags
        split: list.splits if_splits)
next
  case (Some g)
  note fm = assms [unfolded family_models_def]
  have gs: "length (fam_groups fam) = length (fsp_groups spec)"
    "\<And>j. j < length (fam_groups fam) \<Longrightarrow> group_models (fam_groups fam ! j) (fsp_groups spec ! j)"
    using fm by (auto simp: list_all2_conv_all_nth)
  have dist: "distinct (map rg_number (fsp_groups spec))" using fm by simp
  have hit: "locate_group (fam_groups fam) rest = Some (g, i) \<longleftrightarrow> place_ok fam grp i \<and> rest = place_suffix spec grp i"
  proof
    assume l: "locate_group (fam_groups fam) rest = Some (g, i)"
    have "list_all group_slot_wf (fam_groups fam)" using family_models_wf [OF assms] by (simp add: family_wf_def)
    from locate_group_ok [OF this l] gs(2) [of g] Some
    show "place_ok fam grp i \<and> rest = place_suffix spec grp i"
      by (auto simp: place_ok_def place_suffix_def group_models_def suffixes_of_def field_leaf_layout prefix_def)
  next
    assume a: "place_ok fam grp i \<and> rest = place_suffix spec grp i"
    then have g: "g < length (fam_groups fam)" "i < length (gsl_fields (fam_groups fam ! g))" using Some by (auto simp: place_ok_def)
    have sfx: "prefix (gsl_suffix (fam_groups fam ! j)) rest \<longleftrightarrow> j = g" if "j < length (fam_groups fam)" for j
    proof -
      have "prefix (group_stem [] (rg_number (fsp_groups spec ! j))) rest \<longleftrightarrow> rg_number (fsp_groups spec ! j) = rg_number (fsp_groups spec ! g)"
        using a Some by (auto simp: place_suffix_def field_leaf_layout group_stem_layout prefix_def)
      also have "\<dots> \<longleftrightarrow> j = g" using dist that g(1) gs(1) by (auto simp: distinct_conv_nth)
      finally show ?thesis using gs(2) [OF that] by (simp add: group_models_def)
    qed
    have "index_of (\<lambda>g. prefix (gsl_suffix g) rest) (fam_groups fam) = Some g"
    proof (cases "index_of (\<lambda>g. prefix (gsl_suffix g) rest) (fam_groups fam)")
      case None
      then show ?thesis using sfx [OF g(1)] g(1) by (auto simp: index_of_None)
    next
      case (Some j)
      then show ?thesis using iffD1 [OF index_of_Some Some] sfx [of j] by simp
    qed
    moreover have "gsl_by_suffix (fam_groups fam ! g) (drop (length (gsl_suffix (fam_groups fam ! g))) rest) = Some i"
      using gs(2) [OF g(1)] a g Some
      by (auto simp: group_models_def suffixes_of_def place_suffix_def field_leaf_layout)
    ultimately show "locate_group (fam_groups fam) rest = Some (g, i)" by (simp add: locate_group_def)
  qed
  have tag: "place_suffix spec grp i = GROUP_TAG # tl (place_suffix spec grp i)"
    using Some by (simp add: place_suffix_def field_leaf_layout group_stem_layout)
  have "locate fam rest = Some (grp, i) \<longleftrightarrow> (\<exists>r. rest = GROUP_TAG # r) \<and> locate_group (fam_groups fam) rest = Some (g, i)"
    using Some by (auto simp: locate_def layout_tags split: list.splits if_splits)
  then show ?thesis using hit tag by metis
qed

section \<open>The open frame\<close>

text \<open>The frame of an entry whose marker and the leaves in \<open>S\<close> have been seen.\<close>

definition indexed_family :: "Tables \<Rightarrow> nat \<Rightarrow> bool" where
  "indexed_family t family \<longleftrightarrow>
     family = rsh_family (tb_roots t ! fam_root (tb_families t ! family)) \<and> rsh_indexes (tb_roots t ! fam_root (tb_families t ! family)) \<noteq> []"

definition frame_state :: "Tables \<Rightarrow> (bytes \<rightharpoonup> bytes) \<Rightarrow> FamilySpec \<Rightarrow> nat \<Rightarrow> KeyScalar list \<Rightarrow> bytes set \<Rightarrow> bool \<Rightarrow> Frame" where
  "frame_state t m spec family keys S b =
     (let stem = marker_key (fsp_number spec) keys
      in \<lparr>fr_family = family, fr_stem = stem, fr_keys = keys, fr_marker = True,
          fr_own = map (\<lambda>f. stem_field_leaf stem (rf_number f) \<in> S) (fsp_fields spec),
          fr_groups = map (\<lambda>g. map (\<lambda>f. stem_field_leaf (group_stem stem (rg_number g)) (rf_number f) \<in> S) (rg_fields g)) (fsp_groups spec),
          fr_projected = (if indexed_family t family
                          then map (\<lambda>f. if stem_field_leaf stem (rf_number f) \<in> S then projected_key (leaf_value m stem f) else None) (fsp_fields spec)
                          else []),
          fr_any_leaf = b\<rparr>)"

lemma frame_state_simps [simp]:
  "fr_family (frame_state t m spec family keys S b) = family" "fr_keys (frame_state t m spec family keys S b) = keys"
  "fr_stem (frame_state t m spec family keys S b) = marker_key (fsp_number spec) keys"
  "fr_marker (frame_state t m spec family keys S b)"
  "(frame_state t m spec family keys S b)\<lparr>fr_any_leaf := c\<rparr> = frame_state t m spec family keys S c"
  by (simp_all add: frame_state_def Let_def)

lemma place_under_stem:
  "stem @ place_suffix spec None i = stem_field_leaf stem (rf_number (fsp_fields spec ! i))"
  "stem @ place_suffix spec (Some g) i =
     stem_field_leaf (group_stem stem (rg_number (fsp_groups spec ! g))) (rf_number (rg_fields (fsp_groups spec ! g) ! i))"
  by (simp_all add: place_suffix_def field_leaf_layout group_stem_layout)

lemma map_mem_insert_nth:
  assumes "i < length xs" "\<And>x. x \<in> set xs \<Longrightarrow> f x = f (xs ! i) \<Longrightarrow> x = xs ! i" "distinct xs"
  shows "map (\<lambda>x. f x \<in> insert (f (xs ! i)) S) xs = (map (\<lambda>x. f x \<in> S) xs)[i := True]"
proof (rule nth_equalityI)
  fix j assume "j < length (map (\<lambda>x. f x \<in> insert (f (xs ! i)) S) xs)"
  then have j: "j < length xs" by simp
  show "map (\<lambda>x. f x \<in> insert (f (xs ! i)) S) xs ! j = (map (\<lambda>x. f x \<in> S) xs)[i := True] ! j"
    using j assms nth_eq_iff_index_eq [OF assms(3) j assms(1)] nth_mem [OF j] by (cases "i = j") auto
qed simp

lemma record_wf_nth: "record_wf fs \<Longrightarrow> i < length fs \<Longrightarrow> f \<in> set fs \<Longrightarrow> rf_number f = rf_number (fs ! i) \<Longrightarrow> f = fs ! i"
  unfolding record_wf_def by (metis distinct_conv_nth in_set_conv_nth length_map nth_map)

lemma record_wf_distinct: "record_wf fs \<Longrightarrow> distinct fs"
  by (auto simp: record_wf_def distinct_map)

lemma leaf_marked_state:
  assumes "family_models fam spec" "locate fam rest = Some (grp, i)" "m (marker_key (fsp_number spec) keys @ rest) = Some v"
    "decode_domain v (fsl_shape (declared_slot fam grp i)) \<noteq> None"
  shows "leaf_marked fam rest v (frame_state t m spec family keys S True) =
     frame_state t m spec family keys (insert (marker_key (fsp_number spec) keys @ rest) S) True"
proof -
  let ?stem = "marker_key (fsp_number spec) keys" and ?k = "marker_key (fsp_number spec) keys @ rest"
  have p: "place_ok fam grp i" "rest = place_suffix spec grp i" using assms(1,2) locate_place_suffix by auto
  note slot = place_slot [OF assms(1) p(1)]
  have wf: "record_wf (fsp_fields spec)" "distinct (map rg_number (fsp_groups spec))" "list_all (\<lambda>g. record_wf (rg_fields g)) (fsp_groups spec)"
    using assms(1) by (simp_all add: family_models_def)
  have len: "length (fam_fields fam) = length (fsp_fields spec)" "length (fam_groups fam) = length (fsp_groups spec)"
    "\<And>g. g < length (fam_groups fam) \<Longrightarrow> length (gsl_fields (fam_groups fam ! g)) = length (rg_fields (fsp_groups spec ! g))"
    using assms(1) by (auto simp: family_models_def group_models_def list_all2_conv_all_nth)
  show ?thesis
  proof (cases grp)
    case None
    let ?f = "fsp_fields spec ! i"
    have i: "i < length (fsp_fields spec)" using p(1) None len by (simp add: place_ok_def)
    have k: "?k = stem_field_leaf ?stem (rf_number ?f)" using p(2) None place_under_stem(1) by simp
    have val: "decode_domain v (fsl_shape (declared_slot fam grp i)) = leaf_value m ?stem ?f"
      using assms(3) k slot None by (simp add: leaf_value_def slot_of_def place_field_def)
    have own: "map (\<lambda>f. stem_field_leaf ?stem (rf_number f) \<in> insert ?k S) (fsp_fields spec) =
        (map (\<lambda>f. stem_field_leaf ?stem (rf_number f) \<in> S) (fsp_fields spec))[i := True]"
      unfolding k by (rule map_mem_insert_nth [OF i _ record_wf_distinct [OF wf(1)]]) (simp add: record_wf_nth [OF wf(1) i])
    have proj: "map (\<lambda>f. if stem_field_leaf ?stem (rf_number f) \<in> insert ?k S then projected_key (leaf_value m ?stem f) else None) (fsp_fields spec)
        = (map (\<lambda>f. if stem_field_leaf ?stem (rf_number f) \<in> S then projected_key (leaf_value m ?stem f) else None) (fsp_fields spec))
            [i := projected_key (leaf_value m ?stem ?f)]"
    proof (rule nth_equalityI)
      fix j assume "j < length (map (\<lambda>f. if stem_field_leaf ?stem (rf_number f) \<in> insert ?k S then projected_key (leaf_value m ?stem f) else None) (fsp_fields spec))"
      then have j: "j < length (fsp_fields spec)" by simp
      have "rf_number (fsp_fields spec ! j) = rf_number ?f \<longleftrightarrow> j = i"
        using record_wf_nth [OF wf(1) i nth_mem [OF j]] nth_eq_iff_index_eq [OF record_wf_distinct [OF wf(1)] j i] by auto
      then show "map (\<lambda>f. if stem_field_leaf ?stem (rf_number f) \<in> insert ?k S then projected_key (leaf_value m ?stem f) else None) (fsp_fields spec) ! j
        = (map (\<lambda>f. if stem_field_leaf ?stem (rf_number f) \<in> S then projected_key (leaf_value m ?stem f) else None) (fsp_fields spec))
            [i := projected_key (leaf_value m ?stem ?f)] ! j"
        using i j unfolding k by (cases "j = i") auto
    qed simp
    have groups: "stem_field_leaf (group_stem ?stem n) l \<in> insert ?k S \<longleftrightarrow> stem_field_leaf (group_stem ?stem n) l \<in> S" for n l
      unfolding k by (simp add: field_leaf_layout group_stem_layout layout_tags)
    show ?thesis
      unfolding leaf_marked_def assms(2) option.case prod.case mark_def None val [unfolded None]
      by (simp only: option.case frame_state_def Let_def own proj groups Frame.simps) (simp add: map_update)
  next
    case (Some g)
    let ?g = "fsp_groups spec ! g"
    let ?f = "rg_fields ?g ! i"
    have g: "g < length (fsp_groups spec)" "i < length (rg_fields ?g)" using p(1) Some len by (auto simp: place_ok_def)
    have k: "?k = stem_field_leaf (group_stem ?stem (rg_number ?g)) (rf_number ?f)" using p(2) Some place_under_stem(2) by simp
    have gwf: "record_wf (rg_fields ?g)" using wf(3) g(1) by (simp add: list_all_length)
    have own: "stem_field_leaf ?stem n \<in> insert ?k S \<longleftrightarrow> stem_field_leaf ?stem n \<in> S" for n
      unfolding k by (simp add: field_leaf_layout group_stem_layout layout_tags)
    have groups: "map (\<lambda>g. map (\<lambda>f. stem_field_leaf (group_stem ?stem (rg_number g)) (rf_number f) \<in> insert ?k S) (rg_fields g)) (fsp_groups spec)
        = (map (\<lambda>g. map (\<lambda>f. stem_field_leaf (group_stem ?stem (rg_number g)) (rf_number f) \<in> S) (rg_fields g)) (fsp_groups spec))
            [g := (map (\<lambda>f. stem_field_leaf (group_stem ?stem (rg_number ?g)) (rf_number f) \<in> S) (rg_fields ?g))[i := True]]"
    proof (rule nth_equalityI)
      fix j assume "j < length (map (\<lambda>g. map (\<lambda>f. stem_field_leaf (group_stem ?stem (rg_number g)) (rf_number f) \<in> insert ?k S) (rg_fields g)) (fsp_groups spec))"
      then have j: "j < length (fsp_groups spec)" by simp
      have num: "rg_number (fsp_groups spec ! j) = rg_number ?g \<longleftrightarrow> j = g"
        using wf(2) j g(1) by (auto simp: distinct_conv_nth)
      have here: "map (\<lambda>f. stem_field_leaf (group_stem ?stem (rg_number ?g)) (rf_number f) \<in> insert ?k S) (rg_fields ?g)
          = (map (\<lambda>f. stem_field_leaf (group_stem ?stem (rg_number ?g)) (rf_number f) \<in> S) (rg_fields ?g))[i := True]"
        unfolding k by (rule map_mem_insert_nth [OF g(2) _ record_wf_distinct [OF gwf]]) (simp add: record_wf_nth [OF gwf g(2)])
      have there: "stem_field_leaf (group_stem ?stem (rg_number (fsp_groups spec ! j))) l \<in> insert ?k S
          \<longleftrightarrow> stem_field_leaf (group_stem ?stem (rg_number (fsp_groups spec ! j))) l \<in> S" if "j \<noteq> g" for l
        unfolding k using num that by (simp add: field_leaf_layout group_stem_layout)
      show "map (\<lambda>g. map (\<lambda>f. stem_field_leaf (group_stem ?stem (rg_number g)) (rf_number f) \<in> insert ?k S) (rg_fields g)) (fsp_groups spec) ! j
        = (map (\<lambda>g. map (\<lambda>f. stem_field_leaf (group_stem ?stem (rg_number g)) (rf_number f) \<in> S) (rg_fields g)) (fsp_groups spec))
            [g := (map (\<lambda>f. stem_field_leaf (group_stem ?stem (rg_number ?g)) (rf_number f) \<in> S) (rg_fields ?g))[i := True]] ! j"
        using j g(1) here there by (cases "j = g") simp_all
    qed simp
    show ?thesis
      unfolding leaf_marked_def assms(2) option.case prod.case mark_def Some
      by (simp only: option.case frame_state_def Let_def own groups Frame.simps) (simp add: g(1))
  qed
qed

lemma fresh_frame_state:
  assumes "family_models (tb_families t ! family) spec"
  shows "fresh_frame t family keys True = frame_state t m spec family keys {marker_key (fsp_number spec) keys} False"
proof -
  have fm: "fam_number (tb_families t ! family) = fsp_number spec" "length (fam_fields (tb_families t ! family)) = length (fsp_fields spec)"
    "map (\<lambda>g. length (gsl_fields g)) (fam_groups (tb_families t ! family)) = map (\<lambda>g. length (rg_fields g)) (fsp_groups spec)"
    using assms by (auto simp: family_models_def group_models_def list_all2_conv_all_nth intro!: nth_equalityI)
  have "map (\<lambda>g. replicate (length (gsl_fields g)) False) (fam_groups (tb_families t ! family)) =
      map (\<lambda>n. replicate n False) (map (\<lambda>g. length (gsl_fields g)) (fam_groups (tb_families t ! family)))" by simp
  also have "\<dots> = map (\<lambda>g. replicate (length (rg_fields g)) False) (fsp_groups spec)" unfolding fm(3) by simp
  finally show ?thesis
    using fm(1,2)
    by (simp add: fresh_frame_def frame_state_def Let_def indexed_family_def field_leaf_layout group_stem_layout map_replicate_const)
qed

lemma frame_state_cong:
  assumes "\<And>k. prefix (marker_key (fsp_number spec) keys) k \<Longrightarrow> k \<in> S \<longleftrightarrow> k \<in> S'"
  shows "frame_state t m spec family keys S b = frame_state t m spec family keys S' b"
proof -
  let ?stem = "marker_key (fsp_number spec) keys"
  have own: "stem_field_leaf ?stem n \<in> S \<longleftrightarrow> stem_field_leaf ?stem n \<in> S'" for n
    by (rule assms) (simp add: field_leaf_layout)
  have grp: "stem_field_leaf (group_stem ?stem l) n \<in> S \<longleftrightarrow> stem_field_leaf (group_stem ?stem l) n \<in> S'" for n l
    by (rule assms) (simp add: field_leaf_layout group_stem_layout)
  show ?thesis unfolding frame_state_def Let_def own grp ..
qed

section \<open>Classification\<close>

definition in_family :: "Tables \<Rightarrow> bytes \<Rightarrow> bool" where
  "in_family t k \<longleftrightarrow> (\<exists>fam \<in> set (tb_families t). prefix (fam_prefix fam) k)"

definition in_index :: "Tables \<Rightarrow> bytes \<Rightarrow> bool" where
  "in_index t k \<longleftrightarrow> (\<exists>shape \<in> set (tb_indexes t). prefix (ish_prefix shape) k)"

definition kind_of :: "Tables \<Rightarrow> bytes \<Rightarrow> AuditKind" where
  "kind_of t k = (if in_family t k then AkEntry else if in_index t k then AkIndex else AkOther)"

text \<open>A cell that stands on its own: a marker, an index cell that agrees with its source, the witness.\<close>

definition top_good :: "Tables \<Rightarrow> (bytes \<rightharpoonup> bytes) \<Rightarrow> bytes \<Rightarrow> bytes \<Rightarrow> bool" where
  "top_good t m k v \<longleftrightarrow>
     (v = MARKER_VALUE \<and> (\<exists>fam \<in> set (tb_families t). \<exists>keys. entry_keys fam keys \<and> k = marker_key (fam_number fam) keys))
     \<or> (\<exists>shape \<in> set (tb_indexes t). prefix (ish_prefix shape) k \<and> index_fine t m shape k v)
     \<or> k = meta_key WITNESS \<and> witness_well_formed v"

lemma tables_wf_family:
  assumes "tables_wf t specs" "i < length (tb_families t)"
  shows "family_models (tb_families t ! i) (specs ! i)" "family_wf (tb_families t ! i)"
    "fam_prefix (tb_families t ! i) = entry_family_prefix (fam_number (tb_families t ! i))"
    "fam_root (tb_families t ! i) < length (tb_roots t)" "fam_number (tb_families t ! i) = fsp_number (specs ! i)"
proof -
  show m: "family_models (tb_families t ! i) (specs ! i)" using assms by (auto simp: tables_wf_def list_all2_conv_all_nth)
  then show "family_wf (tb_families t ! i)" by (rule family_models_wf)
  show "fam_prefix (tb_families t ! i) = entry_family_prefix (fam_number (tb_families t ! i))" "fam_number (tb_families t ! i) = fsp_number (specs ! i)"
    using m by (simp_all add: family_models_def)
  show "fam_root (tb_families t ! i) < length (tb_roots t)" using assms by (simp add: tables_wf_def)
qed

lemma entry_prefix_layout: "entry_family_prefix n = ENTRY_FAMILY # ENTRY_TAG # be_bytes n"
  by (simp add: entry_family_prefix_def push_component_def)

lemma marker_prefix: "marker_key n keys = entry_family_prefix n @ encode_key_tuple keys @ [MARKER_TERMINATOR]"
  by (simp add: marker_key_def child_marker_def)

lemma marker_in_family:
  assumes "tables_wf t specs" "fam \<in> set (tb_families t)"
  shows "in_family t (marker_key (fam_number fam) keys @ rest)"
proof -
  have "fam_prefix fam = entry_family_prefix (fam_number fam)" using assms tables_wf_family(3) by (metis in_set_conv_nth)
  then show ?thesis using assms(2) by (auto simp: in_family_def marker_prefix intro!: bexI [of _ fam])
qed

lemma tables_wf_same_family:
  assumes "tables_wf t specs" "i < length (tb_families t)" "j < length (tb_families t)"
    "prefix (fam_prefix (tb_families t ! i)) k" "prefix (fam_prefix (tb_families t ! j)) k"
  shows "i = j"
proof -
  have "fam_prefix (tb_families t ! i) = fam_prefix (tb_families t ! j)"
    using assms(4,5) tables_wf_family(3) [OF assms(1)] assms(2,3) by (auto simp: entry_prefix_layout prefix_def)
  moreover have "distinct (map fam_prefix (tb_families t))" using assms(1) by (auto simp: tables_wf_def strict_sorted_iff)
  ultimately show ?thesis using assms(2,3) by (auto simp: distinct_conv_nth)
qed

lemma tables_wf_index:
  assumes "tables_wf t specs" "i < length (tb_indexes t)"
  shows "index_shape_wf t (tb_indexes t ! i)" "prefix [INDEX_FAMILY] (ish_prefix (tb_indexes t ! i))" "length (ish_prefix (tb_indexes t ! i)) = 21"
  using assms by (auto simp: tables_wf_def)

lemma tables_wf_same_index:
  assumes "tables_wf t specs" "i < length (tb_indexes t)" "j < length (tb_indexes t)"
    "prefix (ish_prefix (tb_indexes t ! i)) k" "prefix (ish_prefix (tb_indexes t ! j)) k"
  shows "i = j"
proof -
  have "ish_prefix (tb_indexes t ! i) = ish_prefix (tb_indexes t ! j)"
    using assms(4,5) tables_wf_index(3) [OF assms(1,2)] tables_wf_index(3) [OF assms(1,3)]
    by (metis append_eq_conv_conj prefix_def)
  moreover have "distinct (map ish_prefix (tb_indexes t))" using assms(1) by (auto simp: tables_wf_def strict_sorted_iff)
  ultimately show ?thesis using assms(2,3) by (auto simp: distinct_conv_nth)
qed

lemma namespaces_disjoint:
  assumes "tables_wf t specs"
  shows "in_family t k \<Longrightarrow> \<not> in_index t k" "in_family t k \<Longrightarrow> k \<noteq> meta_key WITNESS" "in_index t k \<Longrightarrow> k \<noteq> meta_key WITNESS"
proof -
  have f: "\<exists>r. k = ENTRY_FAMILY # r" if "in_family t k"
    using that tables_wf_family(3) [OF assms] by (auto simp: in_family_def in_set_conv_nth entry_prefix_layout prefix_def)
  have i: "\<exists>r. k = INDEX_FAMILY # r" if "in_index t k"
    using that tables_wf_index(2) [OF assms] by (fastforce simp: in_index_def in_set_conv_nth prefix_def)
  show "in_family t k \<Longrightarrow> \<not> in_index t k" "in_family t k \<Longrightarrow> k \<noteq> meta_key WITNESS" "in_index t k \<Longrightarrow> k \<noteq> meta_key WITNESS"
    using f i by (auto simp: meta_key_def layout_tags)
qed

text \<open>The namespace of a key, found from cursors that have not passed it.\<close>

lemma namespace_spec:
  assumes "tables_wf t specs" "passed fam_prefix (tb_families t) fc k" "passed ish_prefix (tb_indexes t) ic k"
    "fc \<le> length (tb_families t)" "ic \<le> length (tb_indexes t)" "namespace t k fc ic = (r, fc', ic')"
  shows "passed fam_prefix (tb_families t) fc' k \<and> passed ish_prefix (tb_indexes t) ic' k
     \<and> fc' \<le> length (tb_families t) \<and> ic' \<le> length (tb_indexes t)
     \<and> (case r of
          Some (EntryNamespace i) \<Rightarrow> i < length (tb_families t) \<and> prefix (fam_prefix (tb_families t ! i)) k
        | Some (IndexNamespace i) \<Rightarrow> i < length (tb_indexes t) \<and> prefix (ish_prefix (tb_indexes t ! i)) k \<and> \<not> in_family t k
        | None \<Rightarrow> \<not> in_family t k \<and> \<not> in_index t k)"
proof -
  have sorted: "sorted_wrt (<) (map fam_prefix (tb_families t))" "sorted_wrt (<) (map ish_prefix (tb_indexes t))"
    using assms(1) by (simp_all add: tables_wf_def)
  obtain f fcur where f: "seek_prefix fam_prefix (tb_families t) fc k = (f, fcur)" by fastforce
  obtain i icur where i: "seek_prefix ish_prefix (tb_indexes t) ic k = (i, icur)" by fastforce
  note fseek = seek_prefix_spec [OF f assms(2) sorted(1) assms(4)] and iseek = seek_prefix_spec [OF i assms(3) sorted(2) assms(5)]
  have no: "f = None \<Longrightarrow> \<not> in_family t k" "i = None \<Longrightarrow> \<not> in_index t k"
    using fseek(3) iseek(3) by (auto simp: in_family_def in_index_def in_set_conv_nth)
  show ?thesis
    using assms(3,5,6) fseek iseek no by (cases f; cases i) (auto simp: namespace_def f i)
qed

section \<open>One cell\<close>

definition cursors_at :: "Tables \<Rightarrow> 'd Walker \<Rightarrow> bytes \<Rightarrow> bool" where
  "cursors_at t w k \<longleftrightarrow> passed fam_prefix (tb_families t) (wk_family_cursor w) k \<and> passed ish_prefix (tb_indexes t) (wk_index_cursor w) k
     \<and> wk_family_cursor w \<le> length (tb_families t) \<and> wk_index_cursor w \<le> length (tb_indexes t)"

lemma cursors_ledger: "ledger w' = ledger w \<Longrightarrow> cursors_at t w' k = cursors_at t w k"
  by (simp add: ledger_def cursors_at_def)

lemma cursors_later: "cursors_at t w k0 \<Longrightarrow> k0 < k \<Longrightarrow> cursors_at t w k"
  by (auto simp: cursors_at_def intro: passed_later)

text \<open>What one step at key \<open>k\<close> keeps of the bookkeeping.\<close>

definition booked :: "Tables \<Rightarrow> (bytes \<Rightarrow> bytes \<Rightarrow> 'd \<Rightarrow> 'd) \<Rightarrow> bytes \<Rightarrow> bytes \<Rightarrow> 'd Walker \<Rightarrow> 'd Walker \<Rightarrow> bool" where
  "booked t absorb k v w w' \<longleftrightarrow>
     walker_shaped t w' \<and> cursors_at t w' k \<and> sm_cells (wk_summary w') = sm_cells (wk_summary w)
     \<and> wk_digest w' = (if in_family t k then absorb k v (wk_digest w) else wk_digest w) \<and> fnd w \<le> fnd w'"

lemma digest_ledger: "ledger w' = ledger (w\<lparr>wk_digest := d\<rparr>) \<Longrightarrow>
    cursors_at t w' k = cursors_at t w k \<and> sm_cells (wk_summary w') = sm_cells (wk_summary w) \<and> wk_digest w' = d"
  by (auto simp: ledger_def cursors_at_def)

lemma fnd_digest [simp]: "fnd (w\<lparr>wk_digest := d\<rparr>) = fnd w"
  "fnd (w\<lparr>wk_family_cursor := a, wk_index_cursor := b\<rparr>) = fnd w" "fnd (w\<lparr>wk_index_family_cursor := a\<rparr>) = fnd w"
  by (simp_all add: fnd_def)

text \<open>The state a clean top-level cell leaves: a fresh frame after a marker, no frame after any other cell.\<close>

definition top_frame :: "Tables \<Rightarrow> FamilySpec list \<Rightarrow> (bytes \<rightharpoonup> bytes) \<Rightarrow> bytes \<Rightarrow> 'd Walker \<Rightarrow> bool" where
  "top_frame t specs m k w' \<longleftrightarrow>
     (\<forall>fr. wk_frame w' = Some fr \<longrightarrow> (\<exists>i keys. i < length (tb_families t) \<and> entry_keys (tb_families t ! i) keys
        \<and> k = marker_key (fam_number (tb_families t ! i)) keys \<and> fr = frame_state t m (specs ! i) i keys {k} False))
     \<and> (wk_frame w' = None \<longrightarrow> \<not> in_family t k)"

context lawful_view
begin

lemma top_level_entry:
  assumes "tables_wf t specs" "i < length (tb_families t)" "prefix (fam_prefix (tb_families t ! i)) k" "wk_frame w = None" "cursors_at t w k"
  shows "yields errs (enter_entry t i k v (w\<lparr>wk_digest := absorb k v (wk_digest w)\<rparr>))
     (\<lambda>w'. booked t absorb k v w w' \<and> (fnd w' = fnd w \<longleftrightarrow> top_good t m k v) \<and> (fnd w' = fnd w \<longrightarrow> top_frame t specs m k w'))"
proof -
  note fam = tables_wf_family [OF assms(1,2)]
  let ?fam = "tb_families t ! i"
  have inf: "in_family t k" using assms(2,3) by (auto simp: in_family_def)
  have good: "top_good t m k v \<longleftrightarrow> v = MARKER_VALUE \<and> (\<exists>keys. entry_keys ?fam keys \<and> k = marker_key (fam_number ?fam) keys)"
  proof
    assume "top_good t m k v"
    then obtain fam' keys where f: "v = MARKER_VALUE" "fam' \<in> set (tb_families t)" "entry_keys fam' keys" "k = marker_key (fam_number fam') keys"
      using namespaces_disjoint [OF assms(1)] inf by (auto simp: top_good_def in_index_def)
    then obtain j where j: "j < length (tb_families t)" "fam' = tb_families t ! j" by (auto simp: in_set_conv_nth)
    have "prefix (fam_prefix (tb_families t ! j)) k" using f(4) j tables_wf_family(3) [OF assms(1) j(1)] by (simp add: marker_prefix)
    then have "j = i" using tables_wf_same_family [OF assms(1) j(1) assms(2) _ assms(3)] by simp
    then show "v = MARKER_VALUE \<and> (\<exists>keys. entry_keys ?fam keys \<and> k = marker_key (fam_number ?fam) keys)" using f j by auto
  qed (use assms(2) in \<open>auto simp: top_good_def\<close>)
  show ?thesis
  proof (rule yields_mono [OF enter_entry_step [OF assms(2) fam(4,2,3) assms(3), where w = "w\<lparr>wk_digest := absorb k v (wk_digest w)\<rparr>"]])
    show "wk_frame (w\<lparr>wk_digest := absorb k v (wk_digest w)\<rparr>) = None" using assms(4) by simp
    fix w' assume a: "ledger w' = ledger (w\<lparr>wk_digest := absorb k v (wk_digest w)\<rparr>) \<and> walker_shaped t w' \<and>
      fnd (w\<lparr>wk_digest := absorb k v (wk_digest w)\<rparr>) \<le> fnd w' \<and>
      (fnd w' = fnd (w\<lparr>wk_digest := absorb k v (wk_digest w)\<rparr>) \<longleftrightarrow> v = MARKER_VALUE \<and> (\<exists>keys. entry_keys ?fam keys \<and> k = marker_key (fam_number ?fam) keys)) \<and>
      (\<forall>keys. fnd w' = fnd (w\<lparr>wk_digest := absorb k v (wk_digest w)\<rparr>) \<longrightarrow> k = marker_key (fam_number ?fam) keys \<longrightarrow>
          wk_frame w' = Some (fresh_frame t i keys True))"
    have "booked t absorb k v w w'" using a inf assms(5) digest_ledger [of w' "absorb k v (wk_digest w)" w t k] by (simp add: booked_def)
    moreover have "top_frame t specs m k w'" if clean: "fnd w' = fnd w"
    proof -
      from a clean obtain keys where keys: "entry_keys ?fam keys" "k = marker_key (fam_number ?fam) keys" by auto
      then have "wk_frame w' = Some (frame_state t m (specs ! i) i keys {k} False)"
        using a clean fresh_frame_state [OF fam(1), of keys m] fam(5) by simp
      then show ?thesis using keys assms(2) by (auto simp: top_frame_def)
    qed
    ultimately show "booked t absorb k v w w' \<and> (fnd w' = fnd w \<longleftrightarrow> top_good t m k v) \<and> (fnd w' = fnd w \<longrightarrow> top_frame t specs m k w')"
      using a good by simp
  qed
qed

lemma top_level_index:
  assumes "tables_wf t specs" "ok view" "i < length (tb_indexes t)" "prefix (ish_prefix (tb_indexes t ! i)) k" "\<not> in_family t k"
    "wk_frame w = None" "cursors_at t w k"
  shows "yields errs (index_cell_step E view t (tb_indexes t ! i) k v w)
     (\<lambda>w'. booked t absorb k v w w' \<and> (fnd w' = fnd w \<longleftrightarrow> top_good t (cells view) k v) \<and> (fnd w' = fnd w \<longrightarrow> top_frame t specs (cells view) k w'))"
proof -
  let ?shape = "tb_indexes t ! i"
  have inx: "in_index t k" using assms(3,4) by (auto simp: in_index_def)
  have good: "top_good t (cells view) k v \<longleftrightarrow> index_fine t (cells view) ?shape k v"
  proof
    assume "top_good t (cells view) k v"
    moreover have "\<not> (\<exists>fam \<in> set (tb_families t). \<exists>keys. k = marker_key (fam_number fam) keys)"
      using assms(5) marker_in_family [OF assms(1), of _ _ "[]"] by auto
    ultimately obtain j where "j < length (tb_indexes t)" "prefix (ish_prefix (tb_indexes t ! j)) k" "index_fine t (cells view) (tb_indexes t ! j) k v"
      using namespaces_disjoint(3) [OF assms(1) inx] by (auto simp: top_good_def in_set_conv_nth)
    then show "index_fine t (cells view) ?shape k v" using tables_wf_same_index [OF assms(1) _ assms(3) _ assms(4)] by blast
  qed (use assms(3,4) in \<open>auto simp: top_good_def\<close>)
  show ?thesis
    by (rule yields_mono [OF checksD [OF index_cell_checks [OF assms(2) tables_wf_index(1) [OF assms(1,3)] assms(4)]]])
      (use assms(5-7) good cursors_ledger in \<open>auto simp: booked_def top_frame_def walker_shaped_def ledger_def cursors_at_def\<close>)
qed

lemma top_level_step:
  assumes "tables_wf t specs" "ok view" "wk_frame w = None" "cursors_at t w k"
  shows "yields errs (top_level E view absorb t k v w)
     (\<lambda>(kind, w'). kind = kind_of t k \<and> booked t absorb k v w w'
        \<and> (fnd w' = fnd w \<longleftrightarrow> top_good t (cells view) k v) \<and> (fnd w' = fnd w \<longrightarrow> top_frame t specs (cells view) k w'))"
proof -
  obtain r fc ic where ns: "namespace t k (wk_family_cursor w) (wk_index_cursor w) = (r, fc, ic)" by (metis prod_cases3)
  note spec = namespace_spec [OF assms(1) _ _ _ _ ns]
  let ?w = "w\<lparr>wk_family_cursor := fc, wk_index_cursor := ic\<rparr>"
  have cur: "cursors_at t ?w k" "wk_frame ?w = None" using spec assms(3,4) by (simp_all add: cursors_at_def)
  have book: "booked t absorb k v ?w w' = booked t absorb k v w w'" for w' by (simp add: booked_def)
  show ?thesis
  proof (cases r)
    case None
    then have out: "\<not> in_family t k" "\<not> in_index t k" using spec assms(4) by (simp_all add: cursors_at_def)
    then have good: "top_good t (cells view) k v \<longleftrightarrow> k = meta_key WITNESS \<and> witness_well_formed v"
      using marker_in_family [OF assms(1), of _ _ "[]"] by (auto simp: top_good_def in_index_def)
    have witness: "tb_witness t = meta_key WITNESS" using assms(1) by (simp add: tables_wf_def)
    show ?thesis
      using None out cur assms(3) good
      by (auto simp: top_level_def ns witness kind_of_def booked_def walker_shaped_def top_frame_def outside_site_def Let_def
          cursors_at_def finding_def fnd_def split: prod.splits)
  next
    case (Some n)
    show ?thesis
    proof (cases n)
      case (EntryNamespace i)
      then have i: "i < length (tb_families t)" "prefix (fam_prefix (tb_families t ! i)) k"
        using spec assms(4) Some by (simp_all add: cursors_at_def)
      then have "kind_of t k = AkEntry" by (auto simp: kind_of_def in_family_def)
      then show ?thesis
        using Some EntryNamespace top_level_entry [OF assms(1) i cur(2,1), of v absorb "cells view"]
        by (auto simp: top_level_def ns book elim!: yields_bind)
    next
      case (IndexNamespace i)
      then have i: "i < length (tb_indexes t)" "prefix (ish_prefix (tb_indexes t ! i)) k" "\<not> in_family t k"
        using spec assms(4) Some by (simp_all add: cursors_at_def)
      then have "kind_of t k = AkIndex" by (auto simp: kind_of_def in_index_def)
      then show ?thesis
        using Some IndexNamespace i(1) top_level_index [OF assms(1,2) i cur(2,1), of v absorb]
        by (auto simp: top_level_def ns book elim!: yields_bind)
    qed
  qed
qed

end

section \<open>The run\<close>

definition keys_of :: "Cell list \<Rightarrow> bytes set" where
  "keys_of P = fst ` set P"

lemma keys_of_snoc [simp]: "keys_of (P @ [(k, v)]) = insert k (keys_of P)" "keys_of [] = {}"
  by (auto simp: keys_of_def)

text \<open>The bookkeeping after the cells of \<open>P\<close>, with or without findings.\<close>

definition walk_book :: "Tables \<Rightarrow> (bytes \<Rightarrow> bytes \<Rightarrow> 'd \<Rightarrow> 'd) \<Rightarrow> 'd \<Rightarrow> Cell list \<Rightarrow> 'd Walker \<Rightarrow> bool" where
  "walk_book t absorb d P w \<longleftrightarrow>
     walker_shaped t w \<and> (\<forall>k. (\<forall>k' \<in> keys_of P. k' < k) \<longrightarrow> cursors_at t w k) \<and> sm_cells (wk_summary w) = length P
     \<and> wk_digest w = fold (\<lambda>(k, v). absorb k v) (filter (\<lambda>(k, v). in_family t k) P) d"

text \<open>The key of the marker of an entry, and whether it is one of an admitted entry.\<close>

definition marker_of :: "Tables \<Rightarrow> nat \<Rightarrow> KeyScalar list \<Rightarrow> bytes" where
  "marker_of t i keys = marker_key (fam_number (tb_families t ! i)) keys"

definition entry_of :: "Tables \<Rightarrow> nat \<Rightarrow> KeyScalar list \<Rightarrow> bool" where
  "entry_of t i keys \<longleftrightarrow> i < length (tb_families t) \<and> entry_keys (tb_families t ! i) keys"

definition at_frame :: "'d Walker \<Rightarrow> bytes \<Rightarrow> bool" where
  "at_frame w stem \<longleftrightarrow> (\<exists>fr. wk_frame w = Some fr \<and> fr_stem fr = stem)"

text \<open>The state without findings: the open frame records the cells seen of its entry, and every other marker is left behind.\<close>

definition frame_true :: "Tables \<Rightarrow> FamilySpec list \<Rightarrow> (bytes \<rightharpoonup> bytes) \<Rightarrow> Cell list \<Rightarrow> Frame \<Rightarrow> bool" where
  "frame_true t specs m P fr \<longleftrightarrow>
     (\<exists>i keys b. entry_of t i keys \<and> marker_of t i keys \<in> keys_of P
        \<and> fr = frame_state t m (specs ! i) i keys {k \<in> keys_of P. prefix (marker_of t i keys) k} b)"

definition clean_state :: "Tables \<Rightarrow> FamilySpec list \<Rightarrow> (bytes \<rightharpoonup> bytes) \<Rightarrow> Cell list \<Rightarrow> 'd Walker \<Rightarrow> bool" where
  "clean_state t specs m P w \<longleftrightarrow>
     fnd w = 0 \<and> (\<forall>fr. wk_frame w = Some fr \<longrightarrow> frame_true t specs m P fr)
     \<and> (\<forall>i keys. entry_of t i keys \<longrightarrow> marker_of t i keys \<in> keys_of P \<longrightarrow>
          at_frame w (marker_of t i keys) \<or> (\<exists>k \<in> keys_of P. marker_of t i keys < k \<and> \<not> prefix (marker_of t i keys) k))"

definition cell_good :: "Tables \<Rightarrow> (bytes \<rightharpoonup> bytes) \<Rightarrow> bytes \<Rightarrow> bytes \<Rightarrow> bool" where
  "cell_good t m k v \<longleftrightarrow> top_good t m k v
     \<or> (\<exists>i keys rest. entry_of t i keys \<and> rest \<noteq> [] \<and> k = marker_of t i keys @ rest \<and> m (marker_of t i keys) \<noteq> None
          \<and> leaf_fine (tb_families t ! i) rest v)"

definition entry_closed :: "Tables \<Rightarrow> FamilySpec list \<Rightarrow> (bytes \<rightharpoonup> bytes) \<Rightarrow> nat \<Rightarrow> KeyScalar list \<Rightarrow> bool" where
  "entry_closed t specs m i keys \<longleftrightarrow> frame_complete t m (frame_state t m (specs ! i) i keys (dom m) True)"

definition settled :: "Tables \<Rightarrow> FamilySpec list \<Rightarrow> (bytes \<rightharpoonup> bytes) \<Rightarrow> Cell list \<Rightarrow> 'd Walker \<Rightarrow> bool" where
  "settled t specs m P w \<longleftrightarrow>
     (\<forall>i keys. entry_of t i keys \<longrightarrow> marker_of t i keys \<in> keys_of P \<longrightarrow> at_frame w (marker_of t i keys) \<or> entry_closed t specs m i keys)"

definition all_closed :: "Tables \<Rightarrow> FamilySpec list \<Rightarrow> (bytes \<rightharpoonup> bytes) \<Rightarrow> bool" where
  "all_closed t specs m \<longleftrightarrow> (\<forall>i keys. entry_of t i keys \<longrightarrow> m (marker_of t i keys) \<noteq> None \<longrightarrow> entry_closed t specs m i keys)"

lemma between_prefix: "prefix p x \<Longrightarrow> p < k \<Longrightarrow> k < x \<Longrightarrow> prefix p (k :: bytes)"
  using prefix_contiguous [of p p k x] lex_lt_less by fastforce

lemma ordered_split:
  assumes "ordered_cells m (P @ (k, v) # Q)"
  shows "m k = Some v" "\<And>k'. k' \<in> keys_of P \<Longrightarrow> k' < k \<and> m k' \<noteq> None"
    "\<And>k'. m k' \<noteq> None \<Longrightarrow> k' \<in> keys_of P \<or> k' = k \<or> k < k'"
proof -
  show "m k = Some v" using ordered_cells_set [OF assms, of k v] by simp
  show "k' < k \<and> m k' \<noteq> None" if p: "k' \<in> keys_of P" for k'
  proof -
    obtain v' where "(k', v') \<in> set P" using p by (auto simp: keys_of_def)
    then show ?thesis using assms ordered_cells_set [OF assms, of k' v'] by (fastforce simp: ordered_cells_def sorted_wrt_append)
  qed
  show "k' \<in> keys_of P \<or> k' = k \<or> k < k'" if d: "m k' \<noteq> None" for k'
  proof -
    obtain v' where "(k', v') \<in> set (P @ (k, v) # Q)" using d ordered_cells_set [OF assms] by blast
    then consider "(k', v') \<in> set P" | "k' = k" | "(k', v') \<in> set Q" by auto
    then show ?thesis
    proof cases
      case 1 then show ?thesis by (force simp: keys_of_def)
    next
      case 3 then show ?thesis using assms by (fastforce simp: ordered_cells_def sorted_wrt_append)
    qed simp
  qed
qed

lemma frame_complete_flag:
  "frame_complete t m (frame_state t m spec i keys S b) = frame_complete t m (frame_state t m spec i keys S c)"
proof -
  have "fr_own (frame_state t m spec i keys S b) = fr_own (frame_state t m spec i keys S c)"
    "fr_groups (frame_state t m spec i keys S b) = fr_groups (frame_state t m spec i keys S c)"
    "fr_projected (frame_state t m spec i keys S b) = fr_projected (frame_state t m spec i keys S c)"
    by (simp_all add: frame_state_def Let_def)
  then show ?thesis by (simp only: frame_complete_def row_present_def audit_row_def Let_def frame_state_simps)
qed

text \<open>Once a key beyond the entry is reached, its frame has seen all of it.\<close>

lemma frame_true_closed:
  assumes "tables_wf t specs" "ordered_cells m (P @ (k, v) # Q)" "frame_true t specs m P fr" "\<not> prefix (fr_stem fr) k"
  obtains i keys where "entry_of t i keys" "fr_stem fr = marker_of t i keys" "fr_marker fr" "fr_stem fr < k"
    "frame_complete t m fr \<longleftrightarrow> entry_closed t specs m i keys" "marker_of t i keys \<in> keys_of P"
proof -
  from assms(3) obtain i keys b where f: "entry_of t i keys" "marker_of t i keys \<in> keys_of P"
    "fr = frame_state t m (specs ! i) i keys {k \<in> keys_of P. prefix (marker_of t i keys) k} b" by (auto simp: frame_true_def)
  have num: "marker_of t i keys = marker_key (fsp_number (specs ! i)) keys"
    using f(1) tables_wf_family(5) [OF assms(1)] by (simp add: marker_of_def entry_of_def)
  have stem: "fr_stem fr = marker_of t i keys" using f(3) num by simp
  have lt: "marker_of t i keys < k" using ordered_split(2) [OF assms(2) f(2)] by simp
  have "x \<in> {k \<in> keys_of P. prefix (marker_of t i keys) k} \<longleftrightarrow> x \<in> dom m" if "prefix (marker_key (fsp_number (specs ! i)) keys) x" for x
    using that num stem lt assms(4) ordered_split(2,3) [OF assms(2)] between_prefix [of "marker_of t i keys" x k] by auto
  then have "fr = frame_state t m (specs ! i) i keys (dom m) b" unfolding f(3) by (rule frame_state_cong)
  then have "frame_complete t m fr \<longleftrightarrow> entry_closed t specs m i keys" using frame_complete_flag by (simp add: entry_closed_def)
  then show thesis using that f(1,2,3) stem lt by simp
qed

lemma top_frame_clean:
  assumes "tables_wf t specs" "ordered_cells m (P @ (k, v) # Q)" "top_frame t specs m k w'" "fnd w' = 0"
    "\<And>i keys. entry_of t i keys \<Longrightarrow> marker_of t i keys \<in> keys_of P \<Longrightarrow> \<exists>k' \<in> insert k (keys_of P). marker_of t i keys < k' \<and> \<not> prefix (marker_of t i keys) k'"
  shows "clean_state t specs m (P @ [(k, v)]) w'"
proof -
  have "frame_true t specs m (P @ [(k, v)]) fr" if fr: "wk_frame w' = Some fr" for fr
  proof -
    from assms(3) fr obtain i keys where i: "i < length (tb_families t)" "entry_keys (tb_families t ! i) keys"
      "k = marker_key (fam_number (tb_families t ! i)) keys" "fr = frame_state t m (specs ! i) i keys {k} False"
      by (auto simp: top_frame_def)
    have "{k' \<in> keys_of (P @ [(k, v)]). prefix k k'} = {k}"
      using ordered_split(2) [OF assms(2)] prefix_less_eq by fastforce
    then show ?thesis unfolding frame_true_def entry_of_def marker_of_def using i
      by (intro exI [of _ i] exI [of _ keys] exI [of _ False]) simp
  qed
  moreover have "at_frame w' (marker_of t i keys)" if e: "entry_of t i keys" "marker_of t i keys = k" for i keys
  proof -
    have "in_family t k" using e marker_in_family [OF assms(1), of "tb_families t ! i" keys "[]"] by (simp add: entry_of_def marker_of_def)
    then obtain fr where fr: "wk_frame w' = Some fr" using assms(3) by (auto simp: top_frame_def)
    then have "fr_stem fr = k" using assms(3) tables_wf_family(5) [OF assms(1)] by (auto simp: top_frame_def)
    then show ?thesis using fr e by (simp add: at_frame_def)
  qed
  ultimately show ?thesis using assms(4,5) by (auto simp: clean_state_def)
qed

lemma cell_good_below:
  assumes "tables_wf t specs" "entry_of t i keys" "rest \<noteq> []" "m (marker_of t i keys) \<noteq> None"
  shows "cell_good t m (marker_of t i keys @ rest) v \<longleftrightarrow> leaf_fine (tb_families t ! i) rest v"
proof
  let ?k = "marker_of t i keys @ rest"
  have i: "i < length (tb_families t)" using assms(2) by (simp add: entry_of_def)
  have inf: "in_family t ?k" using marker_in_family [OF assms(1)] i by (simp add: marker_of_def)
  have same: "j = i \<and> ls = keys \<and> r = rest" if "j < length (tb_families t)" "?k = marker_of t j ls @ r" for j ls r
  proof -
    have "prefix (fam_prefix (tb_families t ! i)) ?k" using tables_wf_family(3) [OF assms(1) i] by (simp add: marker_of_def marker_prefix)
    moreover have "prefix (fam_prefix (tb_families t ! j)) ?k"
      unfolding that(2) using tables_wf_family(3) [OF assms(1) that(1)] by (simp add: marker_of_def marker_prefix)
    ultimately have "i = j" using tables_wf_same_family [OF assms(1) i that(1)] by blast
    then show ?thesis using that(2) by (simp add: marker_of_def marker_append_inject)
  qed
  assume "cell_good t m ?k v"
  moreover have "\<not> top_good t m ?k v"
  proof
    assume "top_good t m ?k v"
    then obtain fam ls where "fam \<in> set (tb_families t)" "?k = marker_key (fam_number fam) ls"
      using namespaces_disjoint [OF assms(1)] inf by (auto simp: top_good_def in_index_def)
    then obtain j where "j < length (tb_families t)" "?k = marker_of t j ls @ []" by (auto simp: in_set_conv_nth marker_of_def)
    with same assms(3) show False by blast
  qed
  ultimately show "leaf_fine (tb_families t ! i) rest v" using same by (auto simp: cell_good_def entry_of_def)
qed (use assms in \<open>auto simp: cell_good_def\<close>)

text \<open>Beyond every open and passed entry only a cell that stands on its own is good.\<close>

lemma cell_good_top:
  assumes "ordered_cells m (P @ (k, v) # Q)"
    "\<And>i keys. entry_of t i keys \<Longrightarrow> marker_of t i keys \<in> keys_of P \<Longrightarrow> \<exists>k' \<in> insert k (keys_of P). marker_of t i keys < k' \<and> \<not> prefix (marker_of t i keys) k'"
  shows "cell_good t m k u \<longleftrightarrow> top_good t m k u"
proof -
  have False if e: "entry_of t i keys" "rest \<noteq> []" "k = marker_of t i keys @ rest" "m (marker_of t i keys) \<noteq> None" for i keys rest
  proof -
    have p: "prefix (marker_of t i keys) k" "marker_of t i keys < k" using e(2,3) less_append_self by auto
    then have "marker_of t i keys \<in> keys_of P" using ordered_split(3) [OF assms(1) e(4)] by auto
    then obtain k' where "k' \<in> insert k (keys_of P)" "marker_of t i keys < k'" "\<not> prefix (marker_of t i keys) k'"
      using assms(2) [OF e(1)] by blast
    then show False using p ordered_split(2) [OF assms(1)] between_prefix [OF p(1)] by auto
  qed
  then show ?thesis by (auto simp: cell_good_def)
qed

lemma walk_book_step:
  assumes "walk_book t absorb d P w" "booked t absorb k v w' w''" "sm_cells (wk_summary w') = Suc (sm_cells (wk_summary w))"
    "wk_digest w' = wk_digest w" "\<And>k'. k' \<in> keys_of P \<Longrightarrow> k' < k"
  shows "walk_book t absorb d (P @ [(k, v)]) w''"
  using assms cursors_later [of t w'' k] by (auto simp: walk_book_def booked_def)

lemma ledger_cells [simp]:
  "ledger (w\<lparr>wk_summary := (wk_summary w)\<lparr>sm_cells := n\<rparr>\<rparr>) = (wk_family_cursor w, wk_index_cursor w, n, wk_digest w)"
  "fnd (w\<lparr>wk_summary := (wk_summary w)\<lparr>sm_cells := n\<rparr>\<rparr>) = fnd w"
  by (simp_all add: ledger_def fnd_def)

end
