(* ===== verification/Audit_Report.thy ===== *)
theory Audit_Report
  imports Audit_Run
begin

text \<open>
  The report of the audit: the walk over any store ends with a report, counts every cell, digests the
  cells of the declared families in key order, and is clean exactly when every cell is good and every
  present entry is complete.
\<close>

section \<open>One cell of the run\<close>

lemma marker_of_inject:
  assumes "tables_wf t specs" "i < length (tb_families t)" "j < length (tb_families t)" "marker_of t i keys @ r = marker_of t j ls @ r'"
  shows "i = j" "keys = ls" "r = r'"
proof -
  let ?k = "marker_of t i keys @ r"
  have "prefix (fam_prefix (tb_families t ! i)) ?k" using tables_wf_family(3) [OF assms(1,2)] by (simp add: marker_of_def marker_prefix)
  moreover have "prefix (fam_prefix (tb_families t ! j)) ?k"
    unfolding assms(4) using tables_wf_family(3) [OF assms(1,3)] by (simp add: marker_of_def marker_prefix)
  ultimately show "i = j" using tables_wf_same_family [OF assms(1-3)] by blast
  then show "keys = ls" "r = r'" using assms(4) by (simp_all add: marker_of_def marker_append_inject)
qed

text \<open>What the step over a cell establishes.\<close>

definition cell_post :: "Tables \<Rightarrow> FamilySpec list \<Rightarrow> (bytes \<rightharpoonup> bytes) \<Rightarrow> (bytes \<Rightarrow> bytes \<Rightarrow> 'd \<Rightarrow> 'd) \<Rightarrow> 'd \<Rightarrow> Cell list \<Rightarrow> bytes \<Rightarrow> bytes \<Rightarrow>
    'd Walker \<Rightarrow> AuditKind \<times> 'd Walker \<Rightarrow> bool" where
  "cell_post t specs m absorb d P k v w = (\<lambda>(kind, w').
     kind = kind_of t k \<and> walk_book t absorb d (P @ [(k, v)]) w' \<and> fnd w \<le> fnd w'
     \<and> (clean_state t specs m P w \<longrightarrow>
         (fnd w' = 0 \<longrightarrow> clean_state t specs m (P @ [(k, v)]) w' \<and> cell_good t m k v
            \<and> (settled t specs m P w \<longrightarrow> settled t specs m (P @ [(k, v)]) w'))
         \<and> (cell_good t m k v \<and> all_closed t specs m \<longrightarrow> fnd w' = 0)))"

text \<open>A cell below the stem of the open entry.\<close>

lemma within_clean:
  assumes "tables_wf t specs" "ordered_cells m (P @ (k, v) # Q)" "clean_state t specs m P w" "wk_frame w = Some fr"
    "k = fr_stem fr @ rest"
    "fnd w' = 0 \<longleftrightarrow> leaf_fine (tb_families t ! fr_family fr) rest v"
    "leaf_fine (tb_families t ! fr_family fr) rest v \<longrightarrow>
       wk_frame w' = Some (leaf_marked (tb_families t ! fr_family fr) rest v (fr\<lparr>fr_any_leaf := True\<rparr>))"
  shows "fnd w' = 0 \<longleftrightarrow> cell_good t m k v"
    "fnd w' = 0 \<Longrightarrow> clean_state t specs m (P @ [(k, v)]) w'"
    "fnd w' = 0 \<Longrightarrow> settled t specs m P w \<Longrightarrow> settled t specs m (P @ [(k, v)]) w'"
proof -
  have "frame_true t specs m P fr" using assms(3,4) by (simp add: clean_state_def)
  then obtain i keys b where f: "entry_of t i keys" "marker_of t i keys \<in> keys_of P"
    "fr = frame_state t m (specs ! i) i keys {k \<in> keys_of P. prefix (marker_of t i keys) k} b" by (auto simp: frame_true_def)
  have i: "i < length (tb_families t)" using f(1) by (simp add: entry_of_def)
  note fam = tables_wf_family [OF assms(1) i]
  have num: "marker_of t i keys = marker_key (fsp_number (specs ! i)) keys" using fam(5) by (simp add: marker_of_def)
  have k: "k = marker_of t i keys @ rest" using assms(5) f(3) num by simp
  have lt: "marker_of t i keys < k" "m (marker_of t i keys) \<noteq> None" using ordered_split(2) [OF assms(2) f(2)] by simp_all
  then have rest: "rest \<noteq> []" using k by auto
  have fine: "leaf_fine (tb_families t ! fr_family fr) rest v \<longleftrightarrow> cell_good t m k v"
    using cell_good_below [OF assms(1) f(1) rest, of m v] lt(2) f(3) k by simp
  then show "fnd w' = 0 \<longleftrightarrow> cell_good t m k v" using assms(6) by simp
  show clean: "clean_state t specs m (P @ [(k, v)]) w'" and "settled t specs m P w \<Longrightarrow> settled t specs m (P @ [(k, v)]) w'"
    if z: "fnd w' = 0"
  proof -
    let ?S = "{k \<in> keys_of P. prefix (marker_of t i keys) k}"
    from z assms(6) have lf: "leaf_fine (tb_families t ! i) rest v" using f(3) by simp
    then obtain grp j where loc: "locate (tb_families t ! i) rest = Some (grp, j)"
      "decode_domain v (fsl_shape (declared_slot (tb_families t ! i) grp j)) \<noteq> None"
      by (auto simp: leaf_fine_def split: option.splits)
    have cell: "m (marker_key (fsp_number (specs ! i)) keys @ rest) = Some v" using ordered_split(1) [OF assms(2)] k num by simp
    have fr': "wk_frame w' = Some (frame_state t m (specs ! i) i keys (insert k ?S) True)"
      using assms(7) lf f(3) leaf_marked_state [OF fam(1) loc(1), of m keys v t i ?S] cell loc(2) k num by simp
    have S: "{k' \<in> keys_of (P @ [(k, v)]). prefix (marker_of t i keys) k'} = insert k ?S" using k by auto
    have ft: "frame_true t specs m (P @ [(k, v)]) (frame_state t m (specs ! i) i keys (insert k ?S) True)"
      unfolding frame_true_def S [symmetric] using f(1,2) by auto
    have not_marker: "marker_of t j ls \<noteq> k" if "entry_of t j ls" for j ls
    proof
      assume e: "marker_of t j ls = k"
      have "j < length (tb_families t)" using that by (simp add: entry_of_def)
      from marker_of_inject(3) [OF assms(1) i this, of keys rest ls "[]"] e k rest show False by simp
    qed
    have stem: "at_frame w' s \<longleftrightarrow> at_frame w s" for s
      using fr' assms(4) f(3) by (simp add: at_frame_def)
    show "clean_state t specs m (P @ [(k, v)]) w'"
      using z fr' ft assms(3) not_marker stem by (auto simp: clean_state_def)
    show "settled t specs m P w \<Longrightarrow> settled t specs m (P @ [(k, v)]) w'"
      using not_marker stem by (auto simp: settled_def)
  qed
qed

text \<open>A cell past the open entry, once the entry is closed.\<close>

lemma beyond_clean:
  assumes "tables_wf t specs" "ordered_cells m (P @ (k, v) # Q)" "clean_state t specs m P w"
    "\<forall>fr. wk_frame w = Some fr \<longrightarrow> \<not> prefix (fr_stem fr) k"
    "fnd w' = 0 \<longleftrightarrow> (\<forall>fr. wk_frame w = Some fr \<longrightarrow> fr_marker fr \<longrightarrow> frame_complete t m fr) \<and> top_good t m k v"
    "fnd w' = 0 \<longrightarrow> top_frame t specs m k w'"
  shows "fnd w' = 0 \<Longrightarrow> cell_good t m k v"
    "fnd w' = 0 \<Longrightarrow> clean_state t specs m (P @ [(k, v)]) w'"
    "fnd w' = 0 \<Longrightarrow> settled t specs m P w \<Longrightarrow> settled t specs m (P @ [(k, v)]) w'"
    "cell_good t m k v \<Longrightarrow> all_closed t specs m \<Longrightarrow> fnd w' = 0"
proof -
  have frame: "\<exists>i keys. entry_of t i keys \<and> fr_stem fr = marker_of t i keys \<and> fr_stem fr < k
      \<and> (frame_complete t m fr \<longleftrightarrow> entry_closed t specs m i keys) \<and> marker_of t i keys \<in> keys_of P \<and> fr_marker fr"
    if fr: "wk_frame w = Some fr" for fr
    using frame_true_closed [OF assms(1,2), of fr] fr assms(3,4) unfolding clean_state_def by metis
  have behind: "\<exists>k' \<in> insert k (keys_of P). marker_of t i keys < k' \<and> \<not> prefix (marker_of t i keys) k'"
    if e: "entry_of t i keys" "marker_of t i keys \<in> keys_of P" for i keys
  proof (cases "at_frame w (marker_of t i keys)")
    case True
    then obtain fr where fr: "wk_frame w = Some fr" "fr_stem fr = marker_of t i keys" by (auto simp: at_frame_def)
    with frame [OF fr(1)] assms(4) show ?thesis by auto
  next
    case False
    then show ?thesis using assms(3) e by (auto simp: clean_state_def)
  qed
  note good = cell_good_top [OF assms(2) behind, of v]
  show cg: "cell_good t m k v" if "fnd w' = 0" using good that assms(5) by simp
  show clean: "clean_state t specs m (P @ [(k, v)]) w'" if "fnd w' = 0"
    using top_frame_clean [OF assms(1,2) _ that behind] that assms(6) by simp
  show "fnd w' = 0" if c: "cell_good t m k v" "all_closed t specs m"
  proof -
    have "frame_complete t m fr" if fr: "wk_frame w = Some fr" for fr
    proof -
      from frame [OF fr] obtain i keys where e: "entry_of t i keys" "marker_of t i keys \<in> keys_of P"
        "frame_complete t m fr \<longleftrightarrow> entry_closed t specs m i keys" by blast
      then show ?thesis using ordered_split(2) [OF assms(2) e(2)] c(2) by (simp add: all_closed_def)
    qed
    then show ?thesis using assms(5) good c(1) by simp
  qed
  show "settled t specs m (P @ [(k, v)]) w'" if z: "fnd w' = 0" and s: "settled t specs m P w"
    unfolding settled_def
  proof (intro allI impI)
    fix i keys assume e: "entry_of t i keys" "marker_of t i keys \<in> keys_of (P @ [(k, v)])"
    show "at_frame w' (marker_of t i keys) \<or> entry_closed t specs m i keys"
    proof (cases "marker_of t i keys \<in> keys_of P")
      case True
      show ?thesis
      proof (cases "at_frame w (marker_of t i keys)")
        case at: True
        then obtain fr where fr: "wk_frame w = Some fr" "fr_stem fr = marker_of t i keys" by (auto simp: at_frame_def)
        from frame [OF fr(1)] obtain j ls where j: "entry_of t j ls" "fr_stem fr = marker_of t j ls" "fr_marker fr"
          "frame_complete t m fr \<longleftrightarrow> entry_closed t specs m j ls" by blast
        have "i = j \<and> keys = ls"
          using marker_of_inject(1,2) [OF assms(1), of i j keys "[]" ls "[]"] e(1) j(1,2) fr(2) by (simp add: entry_of_def)
        moreover have "frame_complete t m fr" using assms(5) z fr(1) j(3) by blast
        ultimately show ?thesis using j(4) by simp
      next
        case False
        then show ?thesis using s e(1) True by (auto simp: settled_def)
      qed
    next
      case False
      then have "marker_of t i keys = k" using e(2) by simp
      moreover have "\<not> (\<exists>k' \<in> keys_of (P @ [(k, v)]). k < k' \<and> \<not> prefix k k')" using ordered_split(2) [OF assms(2)] by fastforce
      ultimately show ?thesis using clean [OF z] e unfolding clean_state_def by metis
    qed
  qed
qed

context lawful_view
begin

lemma close_entry_step:
  assumes "tables_wf t specs" "ok view" "walker_shaped t w"
  shows "yields errs (close_entry E view t w) (\<lambda>w'. ledger w' = ledger w \<and> wk_frame w' = None \<and> fnd w \<le> fnd w'
     \<and> (fnd w' = fnd w \<longleftrightarrow> (\<forall>fr. wk_frame w = Some fr \<longrightarrow> fr_marker fr \<longrightarrow> frame_complete t (cells view) fr)))"
proof (cases "wk_frame w")
  case (Some fr)
  have s: "frame_shaped t fr" using assms(3) Some by (simp add: walker_shaped_def)
  then have i: "fr_family fr < length (tb_families t)" by (simp add: frame_shaped_def)
  have r: "fam_root (tb_families t ! fr_family fr) < length (tb_roots t)" by (rule tables_wf_family(4) [OF assms(1) i])
  have ix: "\<forall>j \<in> set (rsh_indexes (tb_roots t ! fam_root (tb_families t ! fr_family fr))). j < length (tb_indexes t)"
    using assms(1) nth_mem [OF r] unfolding tables_wf_def by blast
  show ?thesis
    using checksD [OF check_closed_checks [OF assms(2) s r ix], of "w\<lparr>wk_frame := None\<rparr>"] Some
    by (simp add: close_entry_def)
qed (simp add: close_entry_def)

lemma cell_step_post:
  assumes "tables_wf t specs" "ok view" "ordered_cells (cells view) (P @ (k, v) # Q)" "walk_book t absorb d P w"
  shows "yields errs (cell_step E view absorb t k v w) (cell_post t specs (cells view) absorb d P k v w)"
proof -
  let ?m = "cells view"
  let ?w = "w\<lparr>wk_summary := (wk_summary w)\<lparr>sm_cells := sm_cells (wk_summary w) + 1\<rparr>\<rparr>"
  have shaped: "walker_shaped t w" and cur: "cursors_at t w k"
    using assms(4) ordered_split(2) [OF assms(3)] by (auto simp: walk_book_def)
  have below: "\<And>k'. k' \<in> keys_of P \<Longrightarrow> k' < k" using ordered_split(2) [OF assms(3)] by blast
  have book: "walk_book t absorb d (P @ [(k, v)]) w'" if "booked t absorb k v ?w w'" for w'
    by (rule walk_book_step [OF assms(4) that _ _ below]) simp_all
  show ?thesis
  proof (cases "\<exists>fr. wk_frame w = Some fr \<and> prefix (fr_stem fr) k")
    case True
    then obtain fr rest where fr: "wk_frame w = Some fr" "k = fr_stem fr @ rest" by (auto simp: prefix_def)
    let ?w1 = "?w\<lparr>wk_digest := absorb k v (wk_digest w)\<rparr>"
    have s: "frame_shaped t fr" using shaped fr(1) by (simp add: walker_shaped_def)
    then have i: "fr_family fr < length (tb_families t)" by (simp add: frame_shaped_def)
    have inf: "in_family t k" 
      using s nth_mem [OF i] fr(2) unfolding in_family_def frame_shaped_def by (metis prefix_append prefix_order.refl prefix_prefix)
    have step: "cell_step E view absorb t k v w = rbind (within_node t (fr_stem fr @ rest) v ?w1) (\<lambda>w. Inr (AkEntry, w))"
      using fr by (simp add: cell_step_def Let_def)
    show ?thesis unfolding step
    proof (rule yields_bind [OF within_node_step [OF s tables_wf_family(2) [OF assms(1) i], where w = ?w1]])
      fix w' assume a: "ledger w' = ledger ?w1 \<and> walker_shaped t w' \<and> fnd ?w1 \<le> fnd w'
        \<and> (\<exists>fr'. wk_frame w' = Some fr' \<and> fr_stem fr' = fr_stem fr)
        \<and> (if fr_marker fr
           then (fnd w' = fnd ?w1 \<longleftrightarrow> leaf_fine (tb_families t ! fr_family fr) rest v)
                \<and> (leaf_fine (tb_families t ! fr_family fr) rest v \<longrightarrow>
                     wk_frame w' = Some (leaf_marked (tb_families t ! fr_family fr) rest v (fr\<lparr>fr_any_leaf := True\<rparr>)))
           else \<not> fr_any_leaf fr \<longrightarrow> fnd ?w1 < fnd w')"
      have f: "fnd ?w1 = fnd w" by (simp add: fnd_def)
      have "booked t absorb k v ?w w'" using a inf cur f by (auto simp: booked_def ledger_def cursors_at_def fnd_def)
      then have wb: "walk_book t absorb d (P @ [(k, v)]) w'" by (rule book)
      have marker: "fr_marker fr" "fnd w = 0" if "clean_state t specs ?m P w"
        using that fr(1) by (auto simp: clean_state_def frame_true_def)
      have here: "fnd w' = 0 \<longleftrightarrow> leaf_fine (tb_families t ! fr_family fr) rest v"
        "leaf_fine (tb_families t ! fr_family fr) rest v \<longrightarrow>
           wk_frame w' = Some (leaf_marked (tb_families t ! fr_family fr) rest v (fr\<lparr>fr_any_leaf := True\<rparr>))"
        if "clean_state t specs ?m P w"
        using a marker [OF that] unfolding f by simp_all
      note clean = within_clean [OF assms(1,3) _ fr here]
      have "fnd w \<le> fnd w'" using a unfolding f by simp
      then show "yields errs (Inr (AkEntry, w')) (cell_post t specs ?m absorb d P k v w)"
        using wb inf clean by (simp add: cell_post_def kind_of_def)
    qed (simp add: fr(1))
  next
    case False
    have step: "cell_step E view absorb t k v w = rbind (close_entry E view t ?w) (top_level E view absorb t k v)"
      using False by (auto simp: cell_step_def Let_def split: option.splits)
    have "walker_shaped t ?w" using shaped by (simp add: walker_shaped_def)
    note close = close_entry_step [OF assms(1,2) this]
    show ?thesis unfolding step
    proof (rule yields_bind [OF close])
      fix w1 assume w1: "ledger w1 = ledger ?w \<and> wk_frame w1 = None \<and> fnd ?w \<le> fnd w1
        \<and> (fnd w1 = fnd ?w \<longleftrightarrow> (\<forall>fr. wk_frame ?w = Some fr \<longrightarrow> fr_marker fr \<longrightarrow> frame_complete t ?m fr))"
      have cur1: "cursors_at t w1 k" using w1 cur by (auto simp: cursors_at_def ledger_def)
      show "yields errs (top_level E view absorb t k v w1) (cell_post t specs ?m absorb d P k v w)"
      proof (rule yields_mono [OF top_level_step [OF assms(1,2) _ cur1]])
        fix x assume x: "case x of (kind, w') \<Rightarrow> kind = kind_of t k \<and> booked t absorb k v w1 w'
          \<and> (fnd w' = fnd w1 \<longleftrightarrow> top_good t ?m k v) \<and> (fnd w' = fnd w1 \<longrightarrow> top_frame t specs ?m k w')"
        obtain kind w' where xw: "x = (kind, w')" by fastforce
        have b: "booked t absorb k v ?w w'" using x w1 xw by (auto simp: booked_def ledger_def fnd_def)
        then have wb: "walk_book t absorb d (P @ [(k, v)]) w'" by (rule book)
        have mono: "fnd w \<le> fnd w1" "fnd w1 \<le> fnd w'" using w1 x xw by (auto simp: booked_def)
        have z: "fnd w' = 0 \<longleftrightarrow> (\<forall>fr. wk_frame w = Some fr \<longrightarrow> fr_marker fr \<longrightarrow> frame_complete t ?m fr) \<and> top_good t ?m k v"
          "fnd w' = 0 \<longrightarrow> top_frame t specs ?m k w'" if "clean_state t specs ?m P w"
        proof -
          have "fnd w = 0" using that by (simp add: clean_state_def)
          then have "fnd w' = 0 \<longleftrightarrow> fnd w1 = fnd w \<and> fnd w' = fnd w1" using mono by auto
          then show "fnd w' = 0 \<longleftrightarrow> (\<forall>fr. wk_frame w = Some fr \<longrightarrow> fr_marker fr \<longrightarrow> frame_complete t ?m fr) \<and> top_good t ?m k v"
            "fnd w' = 0 \<longrightarrow> top_frame t specs ?m k w'" using w1 x xw by simp_all
        qed
        have past: "\<forall>fr. wk_frame w = Some fr \<longrightarrow> \<not> prefix (fr_stem fr) k" using False by blast
        note clean = beyond_clean [OF assms(1,3) _ past z]
        have "fnd w \<le> fnd w'" "kind = kind_of t k" using mono x xw by simp_all
        then show "cell_post t specs ?m absorb d P k v w x" unfolding cell_post_def xw prod.case using wb clean by blast
      qed (use w1 in simp)
    qed
  qed
qed

end

section \<open>The whole run\<close>

text \<open>What the consumer is handed: every cell with its kind, until it refuses.\<close>

fun feed :: "Tables \<Rightarrow> ('c, 'e) consumer \<Rightarrow> Cell list \<Rightarrow> 'c \<Rightarrow> 'e + 'c" where
  "feed t consume [] c = Inr c"
| "feed t consume ((k, v) # L) c = rbind (consume (kind_of t k) k v c) (feed t consume L)"

definition run_post :: "Tables \<Rightarrow> FamilySpec list \<Rightarrow> (bytes \<rightharpoonup> bytes) \<Rightarrow> (bytes \<Rightarrow> bytes \<Rightarrow> 'd \<Rightarrow> 'd) \<Rightarrow> 'd \<Rightarrow> Cell list \<Rightarrow> Cell list \<Rightarrow>
    'd Walker \<Rightarrow> 'd Walker \<Rightarrow> bool" where
  "run_post t specs m absorb d P L w w' \<longleftrightarrow>
     walk_book t absorb d (P @ L) w' \<and> fnd w \<le> fnd w'
     \<and> (clean_state t specs m P w \<longrightarrow>
         (fnd w' = 0 \<longrightarrow> clean_state t specs m (P @ L) w' \<and> (\<forall>(k, v) \<in> set L. cell_good t m k v)
            \<and> (settled t specs m P w \<longrightarrow> settled t specs m (P @ L) w'))
         \<and> ((\<forall>(k, v) \<in> set L. cell_good t m k v) \<and> all_closed t specs m \<longrightarrow> fnd w' = 0))"

lemma run_post_step:
  assumes "cell_post t specs m absorb d P k v w (kind, w1)" "run_post t specs m absorb d (P @ [(k, v)]) L w1 w'"
  shows "run_post t specs m absorb d P ((k, v) # L) w w'"
proof -
  have "fnd w1 \<le> fnd w'" using assms(2) by (simp add: run_post_def)
  then have z: "fnd w' = 0 \<Longrightarrow> fnd w1 = 0" by simp
  have "(fnd w' = 0 \<longrightarrow> clean_state t specs m (P @ (k, v) # L) w' \<and> (\<forall>(k, v) \<in> set ((k, v) # L). cell_good t m k v)
            \<and> (settled t specs m P w \<longrightarrow> settled t specs m (P @ (k, v) # L) w'))
         \<and> ((\<forall>(k, v) \<in> set ((k, v) # L). cell_good t m k v) \<and> all_closed t specs m \<longrightarrow> fnd w' = 0)" if c: "clean_state t specs m P w"
  proof -
    from assms(1) c have one: "fnd w1 = 0 \<Longrightarrow> clean_state t specs m (P @ [(k, v)]) w1 \<and> cell_good t m k v
            \<and> (settled t specs m P w \<longrightarrow> settled t specs m (P @ [(k, v)]) w1)"
      "cell_good t m k v \<Longrightarrow> all_closed t specs m \<Longrightarrow> fnd w1 = 0" unfolding cell_post_def prod.case by blast+
    have rest: "fnd w' = 0 \<Longrightarrow> clean_state t specs m (P @ (k, v) # L) w' \<and> (\<forall>(k, v) \<in> set L. cell_good t m k v)
            \<and> (settled t specs m (P @ [(k, v)]) w1 \<longrightarrow> settled t specs m (P @ (k, v) # L) w')"
      "\<forall>(k, v) \<in> set L. cell_good t m k v \<Longrightarrow> all_closed t specs m \<Longrightarrow> fnd w' = 0" if "clean_state t specs m (P @ [(k, v)]) w1"
      using assms(2) that unfolding run_post_def append_assoc append_Cons append_Nil by blast+
    show ?thesis
    proof (intro conjI impI)
      assume "fnd w' = 0"
      with one(1) [OF z] have c1: "clean_state t specs m (P @ [(k, v)]) w1" "cell_good t m k v"
        "settled t specs m P w \<longrightarrow> settled t specs m (P @ [(k, v)]) w1" by blast+
      from rest(1) [OF c1(1) \<open>fnd w' = 0\<close>] c1(2,3)
      show "clean_state t specs m (P @ (k, v) # L) w'" "\<forall>(k, v) \<in> set ((k, v) # L). cell_good t m k v"
        and "settled t specs m P w \<Longrightarrow> settled t specs m (P @ (k, v) # L) w'" by auto
    next
      assume "(\<forall>(k, v) \<in> set ((k, v) # L). cell_good t m k v) \<and> all_closed t specs m"
      then have g: "cell_good t m k v" "\<forall>(k, v) \<in> set L. cell_good t m k v" "all_closed t specs m" by simp_all
      then have "fnd w1 = 0" using one(2) by blast
      then show "fnd w' = 0" using one(1) rest(2) g(2,3) by blast
    qed
  qed
  then show ?thesis
    using assms unfolding run_post_def cell_post_def prod.case append_assoc append_Cons append_Nil by (meson order.trans)
qed

lemma run_start:
  "walk_book t absorb d [] (walker_new d)" "clean_state t specs m [] (walker_new d)" "settled t specs m [] (walker_new d)"
  by (simp_all add: walk_book_def walker_new_def walker_shaped_def cursors_at_def clean_state_def settled_def fnd_def)

text \<open>At the end the open frame has seen all of its entry.\<close>

lemma frame_true_end:
  assumes "tables_wf t specs" "ordered_cells m L" "frame_true t specs m L fr"
  obtains i keys where "entry_of t i keys" "fr_stem fr = marker_of t i keys" "fr_marker fr"
    "frame_complete t m fr \<longleftrightarrow> entry_closed t specs m i keys" "m (marker_of t i keys) \<noteq> None"
proof -
  from assms(3) obtain i keys b where f: "entry_of t i keys" "marker_of t i keys \<in> keys_of L"
    "fr = frame_state t m (specs ! i) i keys {k \<in> keys_of L. prefix (marker_of t i keys) k} b" by (auto simp: frame_true_def)
  have num: "marker_of t i keys = marker_key (fsp_number (specs ! i)) keys"
    using f(1) tables_wf_family(5) [OF assms(1)] by (simp add: marker_of_def entry_of_def)
  have dom: "x \<in> keys_of L \<longleftrightarrow> x \<in> dom m" for x using ordered_cells_set [OF assms(2)] by (force simp: keys_of_def)
  have "fr = frame_state t m (specs ! i) i keys (dom m) b" unfolding f(3) by (rule frame_state_cong) (simp add: dom num)
  then have "frame_complete t m fr \<longleftrightarrow> entry_closed t specs m i keys" using frame_complete_flag by (simp add: entry_closed_def)
  then show thesis using that f num dom [of "marker_of t i keys"] by (simp add: domIff)
qed

text \<open>Closing the last entry settles the store.\<close>

lemma end_clean:
  assumes "tables_wf t specs" "ordered_cells m L" "run_post t specs m absorb d [] L (walker_new d) w"
    "fnd w' = fnd w \<longleftrightarrow> (\<forall>fr. wk_frame w = Some fr \<longrightarrow> fr_marker fr \<longrightarrow> frame_complete t m fr)" "fnd w \<le> fnd w'"
  shows "fnd w' = 0 \<longleftrightarrow> (\<forall>k v. m k = Some v \<longrightarrow> cell_good t m k v) \<and> all_closed t specs m"
proof -
  have run: "fnd w = 0 \<Longrightarrow> clean_state t specs m L w \<and> (\<forall>(k, v) \<in> set L. cell_good t m k v) \<and> settled t specs m L w"
    "\<forall>(k, v) \<in> set L. cell_good t m k v \<Longrightarrow> all_closed t specs m \<Longrightarrow> fnd w = 0"
    using assms(3) by (simp_all add: run_post_def run_start)
  have cells: "(\<forall>(k, v) \<in> set L. cell_good t m k v) \<longleftrightarrow> (\<forall>k v. m k = Some v \<longrightarrow> cell_good t m k v)"
    unfolding ordered_cells_set [OF assms(2), symmetric] by auto
  have keys: "m k \<noteq> None \<Longrightarrow> k \<in> keys_of L" for k using ordered_cells_set [OF assms(2)] by (force simp: keys_of_def)
  have frame: "\<exists>i keys. entry_of t i keys \<and> fr_stem fr = marker_of t i keys \<and> fr_marker fr
      \<and> (frame_complete t m fr \<longleftrightarrow> entry_closed t specs m i keys) \<and> m (marker_of t i keys) \<noteq> None"
    if "fnd w = 0" "wk_frame w = Some fr" for fr
    using frame_true_end [OF assms(1,2), of fr] run(1) [OF that(1)] that(2) unfolding clean_state_def by metis
  show ?thesis
  proof
    assume z: "fnd w' = 0"
    then have w: "fnd w = 0" "\<And>fr. wk_frame w = Some fr \<Longrightarrow> fr_marker fr \<Longrightarrow> frame_complete t m fr" using assms(4,5) by auto
    have "entry_closed t specs m i keys" if e: "entry_of t i keys" "m (marker_of t i keys) \<noteq> None" for i keys
    proof (cases "at_frame w (marker_of t i keys)")
      case True
      then obtain fr where fr: "wk_frame w = Some fr" "fr_stem fr = marker_of t i keys" by (auto simp: at_frame_def)
      from frame [OF w(1) fr(1)] obtain j ls where j: "entry_of t j ls" "fr_stem fr = marker_of t j ls" "fr_marker fr"
        "frame_complete t m fr \<longleftrightarrow> entry_closed t specs m j ls" by blast
      have "i = j \<and> keys = ls"
        using marker_of_inject(1,2) [OF assms(1), of i j keys "[]" ls "[]"] e(1) j(1,2) fr(2) by (simp add: entry_of_def)
      then show ?thesis using j(3,4) w(2) [OF fr(1)] by simp
    next
      case False
      then show ?thesis using run(1) [OF w(1)] e keys by (auto simp: settled_def)
    qed
    then show "(\<forall>k v. m k = Some v \<longrightarrow> cell_good t m k v) \<and> all_closed t specs m"
      using run(1) [OF w(1)] cells by (simp add: all_closed_def)
  next
    assume good: "(\<forall>k v. m k = Some v \<longrightarrow> cell_good t m k v) \<and> all_closed t specs m"
    then have w: "fnd w = 0" using run(2) cells by blast
    have "frame_complete t m fr" if fr: "wk_frame w = Some fr" for fr
      using frame [OF w fr] good unfolding all_closed_def by blast
    then show "fnd w' = 0" using assms(4) w by simp
  qed
qed

context lawful_view
begin

lemma walk_page_run:
  assumes "tables_wf t specs" "ok view"
  shows "ordered_cells (cells view) (P @ L) \<Longrightarrow> walk_book t absorb d P w \<Longrightarrow>
    (case walk_page E view absorb t consume L w c of
       Inr (w', c') \<Rightarrow> feed t consume L c = Inr c' \<and> run_post t specs (cells view) absorb d P L w w'
     | Inl (Raise (WalkStore e)) \<Rightarrow> e \<in> errs
     | Inl (Raise (WalkConsumer e)) \<Rightarrow> feed t consume L c = Inl e
     | Inl Panic \<Rightarrow> False)"
proof (induction L arbitrary: P w c)
  case Nil
  then show ?case by (simp add: run_post_def clean_state_def)
next
  case (Cons x L)
  obtain k v where x: "x = (k, v)" by fastforce
  note step = cell_step_post [OF assms, of P k v L absorb d w]
  show ?case
  proof (cases "cell_step E view absorb t k v w")
    case (Inl h)
    then show ?thesis using step Cons.prems by (auto simp: x yields_def walk_store_error_def)
  next
    case (Inr r)
    obtain kind w1 where r: "r = (kind, w1)" by fastforce
    have post: "cell_post t specs (cells view) absorb d P k v w (kind, w1)" using step Cons.prems Inr r by (simp add: x)
    then have kind: "kind = kind_of t k" "walk_book t absorb d (P @ [(k, v)]) w1" by (simp_all add: cell_post_def)
    show ?thesis
    proof (cases "consume kind k v c")
      case (Inr c1)
      have "ordered_cells (cells view) ((P @ [(k, v)]) @ L)" using Cons.prems(1) x by simp
      from Cons.IH [OF this kind(2), of c1] run_post_step [OF post]
      show ?thesis
        using Inr kind(1) r \<open>cell_step E view absorb t k v w = Inr r\<close> x
        by (auto split: sum.splits halt.splits WalkError.splits)
    qed (use Inr kind(1) r x in simp)
  qed
qed

end

end
