(* ===== verification/Audit_Tables.thy ===== *)
theory Audit_Tables
  imports Audit_Report "HOL-Library.Multiset"
begin

text \<open>
  The fixed tables of the audit: over a numbered projection their construction never panics, and the
  tables list every declared family and index in key order, each root pointing at its own.
\<close>

section \<open>The declared families\<close>

fun branch_specs :: "ScalarKind list \<Rightarrow> BranchSchema list \<Rightarrow> BranchNumbering list \<Rightarrow> FamilySpec list" where
  "branch_specs cols (BranchSchema bname bkey bfs bbs # bs) (n # ns) =
     \<lparr>fsp_number = bn_number n, fsp_cols = cols @ bkey, fsp_fields = resolve_fields bfs (bn_fields n), fsp_groups = []\<rparr>
     # branch_specs (cols @ bkey) bbs (bn_branches n) @ branch_specs cols bs ns"
| "branch_specs cols _ _ = []"

definition root_spec :: "StoreSchema \<Rightarrow> RootNumbering \<Rightarrow> FamilySpec" where
  "root_spec s r =
     \<lparr>fsp_number = rn_root r, fsp_cols = ss_key s, fsp_fields = resolve_fields (ss_fields s) (rn_fields r),
      fsp_groups = resolve_groups (ss_groups s) (rn_groups r)\<rparr>"

definition root_specs :: "StoreSchema \<times> RootNumbering \<Rightarrow> FamilySpec list" where
  "root_specs sr = (case sr of (s, r) \<Rightarrow> root_spec s r # branch_specs (ss_key s) (ss_branches s) (rn_branches r))"

definition declared :: "StoreProjection \<Rightarrow> RootNumbering list \<Rightarrow> FamilySpec list" where
  "declared p nb = concat (map root_specs (zip (sp_roots p) nb))"

lemma suffix_map_fold:
  assumes "distinct ns"
  shows "fold (\<lambda>(i, n) m. m(stem_field_leaf [] n \<mapsto> i)) (enumerate j ns) m sfx =
     (case index_of (\<lambda>n. sfx = stem_field_leaf [] n) ns of Some i \<Rightarrow> Some (j + i) | None \<Rightarrow> m sfx)"
  using assms
proof (induction ns arbitrary: j m)
  case (Cons n ns)
  have inj: "stem_field_leaf [] a = stem_field_leaf [] b \<longleftrightarrow> a = b" for a b by (auto simp: field_leaf_layout)
  have "index_of (\<lambda>k. stem_field_leaf [] n = stem_field_leaf [] k) ns = None"
    using Cons.prems by (auto simp: index_of_None inj)
  then show ?case using Cons by (auto split: option.splits)
qed simp

lemma suffix_map_suffixes:
  assumes "distinct ns" "length ns = length fs"
  shows "suffixes_of (resolve_fields fs ns) (suffix_map ns)"
proof -
  have inj: "stem_field_leaf [] a = stem_field_leaf [] b \<longleftrightarrow> a = b" for a b by (auto simp: field_leaf_layout)
  have num: "rf_number (resolve_fields fs ns ! i) = ns ! i" if "i < length ns" for i
    using that assms(2) by (simp add: resolve_fields_def)
  have "index_of (\<lambda>n. sfx = stem_field_leaf [] n) ns = Some i \<longleftrightarrow> i < length ns \<and> sfx = stem_field_leaf [] (ns ! i)" for sfx i
  proof
    assume a: "i < length ns \<and> sfx = stem_field_leaf [] (ns ! i)"
    show "index_of (\<lambda>n. sfx = stem_field_leaf [] n) ns = Some i"
    proof (cases "index_of (\<lambda>n. sfx = stem_field_leaf [] n) ns")
      case None
      then show ?thesis using a by (auto simp: index_of_None)
    next
      case (Some j)
      then show ?thesis using iffD1 [OF index_of_Some Some] a assms(1) by (auto simp: inj distinct_conv_nth)
    qed
  qed (auto dest: iffD1 [OF index_of_Some])
  moreover have "suffix_map ns sfx = index_of (\<lambda>n. sfx = stem_field_leaf [] n) ns" for sfx
    by (auto simp: suffix_map_def suffix_map_fold [OF assms(1)] split: option.splits)
  ultimately show ?thesis using num assms(2) by (auto simp: suffixes_of_def)
qed

lemma field_slots_resolved: "length ns = length fs \<Longrightarrow> field_slots fs = map slot_of (resolve_fields fs ns)"
  by (induction ns fs rule: list_induct2) (simp_all add: field_slots_def resolve_fields_def slot_of_def)

lemma append_branches_models:
  assumes "branches_mirror bs ns" "distinct (branch_preorder ns)"
  shows "list_all2 family_models (append_branches root path keys pos bs ns) (branch_specs (concat keys) bs ns)"
  using assms
proof (induction root path keys pos bs ns rule: append_branches.induct)
  case (1 root path keys pos bname bkey bfs bbs bs n ns)
  obtain m ms subs where n: "n = BranchNumbering m ms subs" by (cases n)
  have p: "length ms = length bfs" "branches_mirror bbs subs" "branches_mirror bs ns" "distinct ms"
    "distinct (branch_preorder subs)" "distinct (branch_preorder ns)" using "1.prems" n by auto
  have "list_all2 family_models (append_branches root (path @ [word_of_nat pos]) (keys @ [bkey]) 0 bbs (bn_branches n))
      (branch_specs (concat keys @ bkey) bbs subs)"
    using "1.IH"(1) p n by simp
  moreover have "list_all2 family_models (append_branches root path keys (Suc pos) bs ns) (branch_specs (concat keys) bs ns)"
    using "1.IH"(2) p by simp
  moreover have "family_models \<lparr>fam_root = root, fam_number = m, fam_prefix = entry_family_prefix m,
          fam_branch_path = path @ [word_of_nat pos], fam_key_segments = keys @ [bkey], fam_fields = field_slots bfs,
          fam_by_suffix = suffix_map ms, fam_groups = []\<rparr>
      \<lparr>fsp_number = m, fsp_cols = concat keys @ bkey, fsp_fields = resolve_fields bfs ms, fsp_groups = []\<rparr>"
    using suffix_map_suffixes [OF p(4,1)] record_wf_resolve [OF p(4)] field_slots_resolved [OF p(1)]
    by (simp add: family_models_def)
  ultimately show ?case by (simp add: n Let_def list_all2_appendI)
qed auto

lemma group_slots_models:
  assumes "list_all2 (\<lambda>g n. length (gn_fields n) = length (gp_fields g)) gs ns" "\<forall>n \<in> set ns. distinct (gn_fields n)"
  shows "list_all2 group_models (group_slots gs ns) (resolve_groups gs ns)"
  using assms
  by (induction rule: list_all2_induct)
    (auto simp: group_slots_def resolve_groups_def group_models_def suffix_map_suffixes field_slots_resolved)

lemma root_families_models:
  assumes "root_mirrors s r" "distinct (root_preorder r)"
  shows "list_all2 family_models (root_families pos s r) (root_specs (s, r))"
proof -
  note d = distinct_root_preorder [OF assms(2)]
  have len: "length (rn_fields r) = length (ss_fields s)" "branches_mirror (ss_branches s) (rn_branches r)"
    "list_all2 (\<lambda>g n. length (gn_fields n) = length (gp_fields g)) (ss_groups s) (rn_groups r)"
    using assms(1) by (simp_all add: root_mirrors_def)
  have groups: "list_all2 group_models (group_slots (ss_groups s) (rn_groups r)) (resolve_groups (ss_groups s) (rn_groups r))"
    using group_slots_models [OF len(3)] d(3) by simp
  have "distinct (map rg_number (resolve_groups (ss_groups s) (rn_groups r)))"
    using d(2) list_all2_lengthD [OF len(3)] by (simp add: resolve_groups_def o_def split_def map_zip_snd)
  moreover have "list_all (\<lambda>g. record_wf (rg_fields g)) (resolve_groups (ss_groups s) (rn_groups r))"
    using d(3) by (auto simp: resolve_groups_def list_all_iff intro!: record_wf_resolve dest!: set_zip_rightD)
  ultimately show ?thesis
    using append_branches_models [OF len(2) d(4), of pos "[]" "[ss_key s]" 0] groups record_wf_resolve [OF d(1), of "ss_fields s"]
      suffix_map_suffixes [OF d(1) len(1)] field_slots_resolved [OF len(1)]
    by (simp add: root_families_def root_specs_def root_spec_def family_models_def)
qed

section \<open>The declared indexes\<close>

definition index_models :: "nat \<Rightarrow> StoreSchema \<Rightarrow> RootNumbering \<Rightarrow> IndexSchema \<Rightarrow> IndexShape \<Rightarrow> bool" where
  "index_models i s r ix shape \<longleftrightarrow>
     ish_root shape = word_of_nat i \<and> ish_prefix shape = index_cell_key (rn_root r) (ix_id ix) [] \<and> ish_id shape = ix_id ix
     \<and> map fst (ish_components shape) = map component_of (ix_projection ix)
     \<and> traverse (index_component_kind s) (ix_projection ix) = Inr (map snd (ish_components shape))"

lemma traverse_paired:
  "traverse f cs = Inr ks \<Longrightarrow> traverse (\<lambda>c. rbind (f c) (\<lambda>k. Inr (g c, k))) cs = Inr (zip (map g cs) ks) \<and> length ks = length cs"
proof (induction cs arbitrary: ks)
  case (Cons c cs)
  then obtain k ks' where k: "f c = Inr k" "traverse f cs = Inr ks'" "ks = k # ks'" by (auto split: sum.splits)
  then show ?case using Cons.IH [OF k(2)] by simp
qed simp

lemma root_indexes_models:
  assumes "schema_ok s"
  shows "\<exists>ixs. root_indexes i s r = Inr ixs \<and> list_all2 (index_models i s r) (ss_indexes s) ixs"
proof -
  have one: "\<exists>shape. index_shape (word_of_nat i) j (rn_root r) s ix = Inr shape \<and> index_models i s r ix shape"
    if ix: "ix \<in> set (ss_indexes s)" for ix j
  proof -
    have "index_ok (ss_key s) (ss_fields s) ix" using assms ix by (simp add: schema_ok_def)
    then obtain ks where ks: "traverse (index_component_kind s) (ix_projection ix) = Inr ks" "length ks = length (ix_projection ix)"
      using index_kinds_total [of "ix_projection ix" s] by (auto simp: index_ok_checked)
    show ?thesis using traverse_paired [OF ks(1), of component_of] ks by (simp add: index_shape_def index_models_def)
  qed
  have "\<exists>ixs. traverse (\<lambda>(j, ix). index_shape (word_of_nat i) (word_of_nat j) (rn_root r) s ix) (enumerate n xs) = Inr ixs
      \<and> list_all2 (index_models i s r) xs ixs" if "set xs \<subseteq> set (ss_indexes s)" for n xs
    using that
  proof (induction xs arbitrary: n)
    case (Cons x xs)
    obtain shape where "index_shape (word_of_nat i) (word_of_nat n) (rn_root r) s x = Inr shape" "index_models i s r x shape"
      using one [of x "word_of_nat n"] Cons.prems by auto
    with Cons.IH [of "Suc n"] Cons.prems show ?case by auto
  qed simp
  from this [of "ss_indexes s" 0] show ?thesis by (simp add: root_indexes_def)
qed

section \<open>The loop over the roots\<close>

definition root_decls :: "nat \<Rightarrow> (StoreSchema \<times> RootNumbering) list \<Rightarrow> (nat \<times> StoreSchema \<times> RootNumbering \<times> IndexSchema) list" where
  "root_decls pos prs = concat (map (\<lambda>(i, s, r). map (\<lambda>ix. (i, s, r, ix)) (ss_indexes s)) (enumerate pos prs))"

definition all_families :: "nat \<Rightarrow> (StoreSchema \<times> RootNumbering) list \<Rightarrow> FamilyShape list" where
  "all_families pos prs = concat (map (\<lambda>(i, s, r). root_families i s r) (enumerate pos prs))"

lemma declare_roots_Inr:
  assumes "\<forall>(s, r) \<in> set prs. schema_ok s"
  shows "\<exists>ixs rs. declare_roots pos prs fams indexes roots = Inr (fams @ all_families pos prs, indexes @ ixs, roots @ rs)
     \<and> list_all2 (\<lambda>(i, s, r, ix). index_models i s r ix) (root_decls pos prs) ixs
     \<and> list_all2 (\<lambda>(s, r) root. rsh_number root = rn_root r \<and> rsh_field_numbers root = rn_fields r \<and> rsh_indexes root = []) prs rs"
  using assms
proof (induction prs arbitrary: pos fams indexes roots)
  case Nil
  then show ?case by (simp add: all_families_def root_decls_def)
next
  case (Cons sr prs)
  obtain s r where sr: "sr = (s, r)" by fastforce
  obtain ix1 where ix1: "root_indexes pos s r = Inr ix1" "list_all2 (index_models pos s r) (ss_indexes s) ix1"
    using root_indexes_models [of s pos r] Cons.prems sr by auto
  obtain ixs rs where rest: "declare_roots (Suc pos) prs (fams @ root_families pos s r) (indexes @ ix1) (roots @ [root_shape (length fams) r])
      = Inr ((fams @ root_families pos s r) @ all_families (Suc pos) prs, (indexes @ ix1) @ ixs, (roots @ [root_shape (length fams) r]) @ rs)"
    "list_all2 (\<lambda>(i, s, r, ix). index_models i s r ix) (root_decls (Suc pos) prs) ixs"
    "list_all2 (\<lambda>(s, r) root. rsh_number root = rn_root r \<and> rsh_field_numbers root = rn_fields r \<and> rsh_indexes root = []) prs rs"
    using Cons.IH [of "Suc pos" "fams @ root_families pos s r" "indexes @ ix1" "roots @ [root_shape (length fams) r]"] Cons.prems by auto
  have "list_all2 (\<lambda>(i, s, r, ix). index_models i s r ix) (map (\<lambda>ix. (pos, s, r, ix)) (ss_indexes s)) ix1"
    using ix1(2) by (simp add: list_all2_map1)
  then show ?case
    using ix1(1) rest sr
    by (intro exI [of _ "ix1 @ ixs"] exI [of _ "root_shape (length fams) r # rs"])
      (auto simp: all_families_def root_decls_def root_shape_def Let_def intro: list_all2_appendI)
qed

section \<open>Placing families and indexes at their roots\<close>

definition at_root :: "nat \<Rightarrow> FamilyShape \<Rightarrow> bool" where
  "at_root i fam \<longleftrightarrow> fam_branch_path fam = [] \<and> fam_root fam = i"

definition placed :: "nat \<Rightarrow> FamilyShape list \<Rightarrow> nat \<Rightarrow> RootShape \<Rightarrow> RootShape \<Rightarrow> bool" where
  "placed pos fams i root root' \<longleftrightarrow>
     (\<exists>x. root' = root\<lparr>rsh_family := x\<rparr>
        \<and> (if \<exists>fam \<in> set fams. at_root i fam then \<exists>j < length fams. at_root i (fams ! j) \<and> x = pos + j else x = rsh_family root))"

lemma place_families_spec:
  "\<forall>fam \<in> set fams. fam_root fam < length roots \<Longrightarrow>
   \<exists>roots'. place_families pos fams roots = Inr roots' \<and> length roots' = length roots
      \<and> (\<forall>i < length roots. placed pos fams i (roots ! i) (roots' ! i))"
proof (induction fams arbitrary: pos roots)
  case Nil
  then show ?case by (simp add: placed_def)
next
  case (Cons fam fams)
  define r1 where "r1 = (if fam_branch_path fam = [] then roots[fam_root fam := (roots ! fam_root fam)\<lparr>rsh_family := pos\<rparr>] else roots)"
  have step: "place_families pos (fam # fams) roots = place_families (Suc pos) fams r1"
    using Cons.prems by (simp add: r1_def update_or_panic_def)
  have "length r1 = length roots" by (simp add: r1_def)
  then obtain roots' where rs: "place_families (Suc pos) fams r1 = Inr roots'" "length roots' = length roots"
    "\<And>i. i < length roots \<Longrightarrow> placed (Suc pos) fams i (r1 ! i) (roots' ! i)"
    using Cons.IH [of r1 "Suc pos"] Cons.prems by auto
  have "placed pos (fam # fams) i (roots ! i) (roots' ! i)" if i: "i < length roots" for i
  proof -
    have r1: "r1 ! i = (if at_root i fam then (roots ! i)\<lparr>rsh_family := pos\<rparr> else roots ! i)"
      using i Cons.prems by (auto simp: r1_def at_root_def nth_list_update)
    from rs(3) [OF i] obtain x where x: "roots' ! i = (r1 ! i)\<lparr>rsh_family := x\<rparr>"
      "if \<exists>f \<in> set fams. at_root i f then \<exists>j < length fams. at_root i (fams ! j) \<and> x = Suc pos + j else x = rsh_family (r1 ! i)"
      by (auto simp: placed_def)
    show ?thesis
    proof (cases "\<exists>f \<in> set fams. at_root i f")
      case True
      then obtain j where "j < length fams" "at_root i (fams ! j)" "x = Suc pos + j" using x(2) by auto
      then show ?thesis using x(1) r1 True unfolding placed_def by (intro exI [of _ x]) (auto intro!: exI [of _ "Suc j"])
    next
      case False
      then show ?thesis using x r1 unfolding placed_def by (intro exI [of _ x]) auto
    qed
  qed
  then show ?case unfolding step using rs(1,2) by blast
qed

lemma place_indexes_spec:
  "\<forall>shape \<in> set ixs. unat (ish_root shape) < length roots \<Longrightarrow>
   \<exists>roots'. place_indexes pos ixs roots = Inr roots' \<and> length roots' = length roots
      \<and> (\<forall>i < length roots. \<exists>x. roots' ! i = (roots ! i)\<lparr>rsh_indexes := x\<rparr>
           \<and> set x = set (rsh_indexes (roots ! i)) \<union> {pos + j | j. j < length ixs \<and> unat (ish_root (ixs ! j)) = i})"
proof (induction ixs arbitrary: pos roots)
  case Nil
  then show ?case by (auto intro!: exI [of _ "rsh_indexes _"])
next
  case (Cons shape ixs)
  let ?k = "unat (ish_root shape)"
  define r1 where "r1 = roots[?k := (roots ! ?k)\<lparr>rsh_indexes := rsh_indexes (roots ! ?k) @ [pos]\<rparr>]"
  have step: "place_indexes pos (shape # ixs) roots = place_indexes (Suc pos) ixs r1"
    using Cons.prems by (simp add: r1_def update_or_panic_def)
  have "length r1 = length roots" by (simp add: r1_def)
  then obtain roots' where rs: "place_indexes (Suc pos) ixs r1 = Inr roots'" "length roots' = length roots"
    "\<And>i. i < length roots \<Longrightarrow> \<exists>x. roots' ! i = (r1 ! i)\<lparr>rsh_indexes := x\<rparr>
           \<and> set x = set (rsh_indexes (r1 ! i)) \<union> {Suc pos + j | j. j < length ixs \<and> unat (ish_root (ixs ! j)) = i}"
    using Cons.IH [of r1 "Suc pos"] Cons.prems by auto
  have "\<exists>x. roots' ! i = (roots ! i)\<lparr>rsh_indexes := x\<rparr>
      \<and> set x = set (rsh_indexes (roots ! i)) \<union> {pos + j | j. j < length (shape # ixs) \<and> unat (ish_root ((shape # ixs) ! j)) = i}"
    if i: "i < length roots" for i
  proof -
    from rs(3) [OF i] obtain x where x: "roots' ! i = (r1 ! i)\<lparr>rsh_indexes := x\<rparr>"
      "set x = set (rsh_indexes (r1 ! i)) \<union> {Suc pos + j | j. j < length ixs \<and> unat (ish_root (ixs ! j)) = i}" by auto
    have r1: "r1 ! i = (if i = ?k then (roots ! i)\<lparr>rsh_indexes := rsh_indexes (roots ! i) @ [pos]\<rparr> else roots ! i)"
      using i by (auto simp: r1_def nth_list_update)
    have "{pos + j | j. j < length (shape # ixs) \<and> unat (ish_root ((shape # ixs) ! j)) = i}
        = (if i = ?k then {pos} else {}) \<union> {Suc pos + j | j. j < length ixs \<and> unat (ish_root (ixs ! j)) = i}"
      by (auto simp: less_Suc_eq_0_disj)
    then show ?thesis using x r1 by (intro exI [of _ x]) auto
  qed
  then show ?case unfolding step using rs(1,2) by blast
qed

section \<open>The tables of a projection\<close>

lemma all_families_models:
  assumes "\<forall>(s, r) \<in> set prs. root_mirrors s r \<and> distinct (root_preorder r)"
  shows "list_all2 family_models (all_families pos prs) (concat (map root_specs prs))"
  using assms
proof (induction prs arbitrary: pos)
  case (Cons sr prs)
  obtain s r where sr: "sr = (s, r)" by fastforce
  have "list_all2 family_models (root_families pos s r) (root_specs (s, r))" using root_families_models Cons.prems sr by simp
  moreover have "list_all2 family_models (all_families (Suc pos) prs) (concat (map root_specs prs))" using Cons by simp
  ultimately show ?case by (simp add: all_families_def sr list_all2_appendI)
qed (simp add: all_families_def)

lemma branch_specs_subseq: "subseq (map fsp_number (branch_specs cols bs ns)) (branch_preorder ns)"
proof (induction cols bs ns rule: branch_specs.induct)
  case (1 cols bname bkey bfs bbs bs n ns)
  obtain m ms subs where n: "n = BranchNumbering m ms subs" by (cases n)
  have "subseq (map fsp_number (branch_specs (cols @ bkey) bbs subs)) (ms @ branch_preorder subs)"
    using 1(1) n by (auto intro: list_emb_append2)
  then show ?case using list_emb_append_mono [OF _ 1(2)] n by fastforce
qed auto

lemma declared_subseq: "length nb = length (sp_roots p) \<Longrightarrow> subseq (map fsp_number (declared p nb)) (preorder nb)"
proof -
  have one: "subseq (map fsp_number (root_specs (s, r))) (root_preorder r)" for s r
    using branch_specs_subseq [of "ss_key s" "ss_branches s" "rn_branches r"]
    by (auto simp: root_specs_def root_spec_def root_preorder_def intro: list_emb_append2)
  have "subseq (map fsp_number (concat (map root_specs (zip ss nb)))) (preorder nb)" if "length nb = length ss" for ss
    using that
  proof (induction nb ss rule: list_induct2)
    case (Cons r nb s ss)
    then show ?case using list_emb_append_mono [OF one Cons(2)] by (simp add: preorder_def)
  qed (simp add: preorder_def)
  then show "length nb = length (sp_roots p) \<Longrightarrow> subseq (map fsp_number (declared p nb)) (preorder nb)" by (simp add: declared_def)
qed

lemma append_branches_below:
  "fam \<in> set (append_branches root path keys pos bs ns) \<Longrightarrow> fam_root fam = root \<and> fam_branch_path fam \<noteq> []"
  by (induction root path keys pos bs ns rule: append_branches.induct) (auto simp: Let_def)

lemma all_families_root:
  "fam \<in> set (all_families pos prs) \<Longrightarrow> \<exists>i s r. (i, s, r) \<in> set (enumerate pos prs) \<and> fam \<in> set (root_families i s r) \<and> fam_root fam = i"
proof -
  assume "fam \<in> set (all_families pos prs)"
  then obtain i s r where i: "(i, s, r) \<in> set (enumerate pos prs)" "fam \<in> set (root_families i s r)"
    by (auto simp: all_families_def)
  then have "fam_root fam = i" by (auto simp: root_families_def dest: append_branches_below)
  with i show ?thesis by blast
qed

lemma sort_strict:
  assumes "distinct (map f xs)"
  shows "sorted_wrt (<) (map f (sort_key f xs))"
proof -
  have "mset (map f (sort_key f xs)) = mset (map f xs)" by simp
  then have "distinct (map f (sort_key f xs))" using assms mset_eq_imp_distinct_iff by blast
  then show ?thesis by (simp add: strict_sorted_iff)
qed

lemma enumerate_mem: "(i, x) \<in> set (enumerate pos xs) \<Longrightarrow> x \<in> set xs"
  by (auto simp: in_set_enumerate_eq)

lemma root_decls_prefixes:
  assumes "distinct (map (rn_root \<circ> snd) prs)" "\<forall>(s, r) \<in> set prs. distinct (map ix_id (ss_indexes s)) \<and> (\<forall>ix \<in> set (ss_indexes s). length (ix_id ix) = 16)"
  shows "distinct (map (\<lambda>(i, s, r, ix). index_cell_key (rn_root r) (ix_id ix) []) (root_decls pos prs))"
  using assms
proof (induction prs arbitrary: pos)
  case (Cons sr prs)
  obtain s r where sr: "sr = (s, r)" by fastforce
  let ?f = "\<lambda>(i, s, r, ix). index_cell_key (rn_root r) (ix_id ix) []"
  have dec: "root_decls pos (sr # prs) = map (\<lambda>ix. (pos, s, r, ix)) (ss_indexes s) @ root_decls (Suc pos) prs"
    by (simp add: root_decls_def sr)
  have "inj_on (\<lambda>ix. index_cell_key (rn_root r) (ix_id ix) []) (set (ss_indexes s))"
    using Cons.prems(2) sr by (auto simp: inj_on_def index_cell_layout distinct_map)
  then have "distinct (map (\<lambda>ix. index_cell_key (rn_root r) (ix_id ix) []) (ss_indexes s))"
    using Cons.prems(2) sr by (auto simp: distinct_map)
  moreover have "?f ` set (map (\<lambda>ix. (pos, s, r, ix)) (ss_indexes s)) \<inter> ?f ` set (root_decls (Suc pos) prs) = {}"
  proof -
    have "rn_root r' \<noteq> rn_root r" if "(i, s', r', ix) \<in> set (root_decls (Suc pos) prs)" for i s' r' ix
    proof -
      have "(i, s', r') \<in> set (enumerate (Suc pos) prs)" using that by (auto simp: root_decls_def)
      then have "(s', r') \<in> set prs" by (rule enumerate_mem)
      then show ?thesis using Cons.prems(1) sr by force
    qed
    then show ?thesis by (fastforce simp: index_cell_layout)
  qed
  ultimately show ?case using Cons.IH [of "Suc pos"] Cons.prems by (simp add: dec comp_def image_image)
qed (simp add: root_decls_def)

text \<open>
  What the walk uses of its tables: they list the declared families and indexes, and each root knows
  the place of its own family and of its own indexes.
\<close>

definition root_models :: "Tables \<Rightarrow> FamilySpec list \<Rightarrow> nat \<Rightarrow> StoreSchema \<Rightarrow> RootNumbering \<Rightarrow> bool" where
  "root_models t specs i s r \<longleftrightarrow>
     (let root = tb_roots t ! i; f = rsh_family root
      in rsh_number root = rn_root r \<and> rsh_field_numbers root = rn_fields r
         \<and> f < length (tb_families t) \<and> specs ! f = root_spec s r \<and> fam_root (tb_families t ! f) = i
         \<and> fam_key_segments (tb_families t ! f) = [ss_key s]
         \<and> set (rsh_indexes root) = {j. j < length (tb_indexes t) \<and> unat (ish_root (tb_indexes t ! j)) = i})"

definition tables_of :: "StoreProjection \<Rightarrow> RootNumbering list \<Rightarrow> Tables \<Rightarrow> FamilySpec list \<Rightarrow> bool" where
  "tables_of p nb t specs \<longleftrightarrow>
     tables_wf t specs \<and> set specs = set (declared p nb)
     \<and> length (tb_roots t) = length (sp_roots p) \<and> length (sp_roots p) = length nb
     \<and> (\<forall>i < length nb. root_models t specs i (sp_roots p ! i) (nb ! i))
     \<and> (\<forall>shape \<in> set (tb_indexes t). \<exists>i < length nb. unat (ish_root shape) = i
          \<and> (\<exists>ix \<in> set (ss_indexes (sp_roots p ! i)). index_models i (sp_roots p ! i) (nb ! i) ix shape))
     \<and> (\<forall>i < length nb. \<forall>ix \<in> set (ss_indexes (sp_roots p ! i)).
          \<exists>shape \<in> set (tb_indexes t). index_models i (sp_roots p ! i) (nb ! i) ix shape)"

text \<open>The index identifiers are 16 bytes, \<open>[u8; 16]\<close> in the source, and a projection has at most \<open>2\<^sup>1\<^sup>6\<close> roots.\<close>

definition numbered :: "StoreProjection \<Rightarrow> RootNumbering list \<Rightarrow> bool" where
  "numbered p nb \<longleftrightarrow>
     mirrors (sp_roots p) nb \<and> distinct (preorder nb) \<and> list_all schema_ok (sp_roots p) \<and> length (sp_roots p) \<le> 65536
     \<and> (\<forall>s \<in> set (sp_roots p). \<forall>ix \<in> set (ss_indexes s). length (ix_id ix) = 16)"

lemma numbered_pairs:
  assumes "numbered p nb"
  shows "length (sp_roots p) = length nb"
    "\<forall>(s, r) \<in> set (zip (sp_roots p) nb). schema_ok s \<and> root_mirrors s r \<and> distinct (root_preorder r)
       \<and> distinct (map ix_id (ss_indexes s)) \<and> (\<forall>ix \<in> set (ss_indexes s). length (ix_id ix) = 16)"
    "distinct (map (rn_root \<circ> snd) (zip (sp_roots p) nb))"
proof -
  note n = assms [unfolded numbered_def]
  show len: "length (sp_roots p) = length nb" using n by (auto simp: mirrors_def dest: list_all2_lengthD)
  have pre: "distinct (root_preorder r)" if "r \<in> set nb" for r
    using n that unfolding preorder_def distinct_concat_iff by auto
  show "\<forall>(s, r) \<in> set (zip (sp_roots p) nb). schema_ok s \<and> root_mirrors s r \<and> distinct (root_preorder r)
       \<and> distinct (map ix_id (ss_indexes s)) \<and> (\<forall>ix \<in> set (ss_indexes s). length (ix_id ix) = 16)"
    using n pre
    by (auto simp: mirrors_def list_all2_iff list_all_iff schema_ok_def dest: set_zip_leftD set_zip_rightD)
  have "map (rn_root \<circ> snd) (zip (sp_roots p) nb) = map rn_root nb" using len by (simp flip: map_map)
  moreover have "subseq (map rn_root nb) (preorder nb)"
  proof (induction nb)
    case (Cons r nb)
    have "subseq [rn_root r] (root_preorder r)" by (simp add: root_preorder_def)
    from list_emb_append_mono [OF this Cons] show ?case by (simp add: preorder_def)
  qed simp
  ultimately show "distinct (map (rn_root \<circ> snd) (zip (sp_roots p) nb))" using n subseq_distinct by metis
qed

lemma numbered_root:
  assumes "numbered p nb" "i < length nb"
  shows "unat (word_of_nat i :: u16) = i"
  using assms numbered_pairs(1) [OF assms(1)] by (simp add: numbered_def unat_of_nat take_bit_nat_eq_self)

lemma declared_index:
  assumes "numbered p nb" "list_all2 (\<lambda>(i, s, r, ix). index_models i s r ix) (root_decls 0 (zip (sp_roots p) nb)) ixs" "shape \<in> set ixs"
  shows "\<exists>i < length nb. unat (ish_root shape) = i
     \<and> (\<exists>ix \<in> set (ss_indexes (sp_roots p ! i)). index_models i (sp_roots p ! i) (nb ! i) ix shape)"
proof -
  note len = numbered_pairs(1) [OF assms(1)]
  obtain k where k: "k < length ixs" "shape = ixs ! k" using assms(3) by (auto simp: in_set_conv_nth)
  obtain i s r ix where dec: "root_decls 0 (zip (sp_roots p) nb) ! k = (i, s, r, ix)" by (metis prod_cases4)
  have "(i, s, r, ix) \<in> set (root_decls 0 (zip (sp_roots p) nb))" using k list_all2_lengthD [OF assms(2)] dec by (metis nth_mem)
  then have i: "i < length nb" "s = sp_roots p ! i" "r = nb ! i" "ix \<in> set (ss_indexes s)"
    using len by (auto simp: root_decls_def in_set_enumerate_eq)
  have "index_models i s r ix shape" using list_all2_nthD2 [OF assms(2) k(1)] dec k(2) by simp
  then show ?thesis using numbered_root [OF assms(1) i(1)] i by (auto simp: index_models_def)
qed

lemma declared_index_listed:
  assumes "length (sp_roots p) = length nb" "list_all2 (\<lambda>(i, s, r, ix). index_models i s r ix) (root_decls 0 (zip (sp_roots p) nb)) ixs"
    "i < length nb" "ix \<in> set (ss_indexes (sp_roots p ! i))"
  shows "\<exists>shape \<in> set ixs. index_models i (sp_roots p ! i) (nb ! i) ix shape"
proof -
  have "(i, sp_roots p ! i, nb ! i) \<in> set (enumerate 0 (zip (sp_roots p) nb))" using assms(1,3) by (simp add: in_set_enumerate_eq)
  then have "(i, sp_roots p ! i, nb ! i, ix) \<in> set (root_decls 0 (zip (sp_roots p) nb))"
    using assms(4) unfolding root_decls_def by (auto intro!: bexI [of _ "(i, sp_roots p ! i, nb ! i)"])
  then obtain k where k: "k < length (root_decls 0 (zip (sp_roots p) nb))" "root_decls 0 (zip (sp_roots p) nb) ! k = (i, sp_roots p ! i, nb ! i, ix)"
    by (metis in_set_conv_nth)
  then show ?thesis using list_all2_nthD [OF assms(2) k(1)] list_all2_lengthD [OF assms(2)] by (auto intro!: bexI [of _ "ixs ! k"])
qed

lemma root_family_listed:
  assumes "length (sp_roots p) = length nb" "i < length nb"
  shows "\<exists>fam \<in> set (all_families 0 (zip (sp_roots p) nb)). at_root i fam"
proof -
  have "(i, sp_roots p ! i, nb ! i) \<in> set (enumerate 0 (zip (sp_roots p) nb))" using assms by (simp add: in_set_enumerate_eq)
  then have "hd (root_families i (sp_roots p ! i) (nb ! i)) \<in> set (all_families 0 (zip (sp_roots p) nb))"
    by (force simp: all_families_def root_families_def)
  moreover have "at_root i (hd (root_families i (sp_roots p ! i) (nb ! i)))" by (simp add: at_root_def root_families_def)
  ultimately show ?thesis by blast
qed

lemma root_family_unique:
  assumes "fam \<in> set (all_families 0 (zip (sp_roots p) nb))" "at_root i fam" "length (sp_roots p) = length nb"
  shows "i < length nb" "fam = hd (root_families i (sp_roots p ! i) (nb ! i))"
proof -
  obtain j s r where j: "(j, s, r) \<in> set (enumerate 0 (zip (sp_roots p) nb))" "fam \<in> set (root_families j s r)" "fam_root fam = j"
    using all_families_root [OF assms(1)] by blast
  then show "i < length nb" "fam = hd (root_families i (sp_roots p ! i) (nb ! i))"
    using assms(2,3) by (auto simp: in_set_enumerate_eq at_root_def root_families_def dest: append_branches_below)
qed

text \<open>The construction, part by part.\<close>

lemma tables_new_parts:
  assumes "numbered p nb"
  obtains t ixs where "tables_new p nb = Inr t" "tb_witness t = meta_key WITNESS" "length (tb_roots t) = length nb"
    "tb_families t = sort_key fam_prefix (all_families 0 (zip (sp_roots p) nb))" "tb_indexes t = sort_key ish_prefix ixs"
    "list_all2 (\<lambda>(i, s, r, ix). index_models i s r ix) (root_decls 0 (zip (sp_roots p) nb)) ixs"
    "\<And>i. i < length nb \<Longrightarrow> rsh_number (tb_roots t ! i) = rn_root (nb ! i) \<and> rsh_field_numbers (tb_roots t ! i) = rn_fields (nb ! i)
       \<and> rsh_family (tb_roots t ! i) < length (tb_families t) \<and> at_root i (tb_families t ! rsh_family (tb_roots t ! i))
       \<and> set (rsh_indexes (tb_roots t ! i)) = {j. j < length (tb_indexes t) \<and> unat (ish_root (tb_indexes t ! j)) = i}"
proof -
  let ?prs = "zip (sp_roots p) nb"
  note np = numbered_pairs [OF assms]
  have "\<forall>(s, r) \<in> set ?prs. schema_ok s" using np(2) by auto
  from declare_roots_Inr [OF this, of 0 "[]" "[]" "[]"] obtain ixs rs where d:
    "declare_roots 0 ?prs [] [] [] = Inr (all_families 0 ?prs, ixs, rs)"
    "list_all2 (\<lambda>(i, s, r, ix). index_models i s r ix) (root_decls 0 ?prs) ixs"
    "list_all2 (\<lambda>(s, r) root. rsh_number root = rn_root r \<and> rsh_field_numbers root = rn_fields r \<and> rsh_indexes root = []) ?prs rs"
    by auto
  let ?fams = "sort_key fam_prefix (all_families 0 ?prs)" and ?ixs = "sort_key ish_prefix ixs"
  have len: "length rs = length nb" using list_all2_lengthD [OF d(3)] np(1) by simp
  have "\<forall>fam \<in> set ?fams. fam_root fam < length rs"
    using len np(1) by (auto simp: in_set_enumerate_eq dest!: all_families_root)
  from place_families_spec [OF this, of 0] obtain rs1 where rs1: "place_families 0 ?fams rs = Inr rs1" "length rs1 = length nb"
    "\<And>i. i < length nb \<Longrightarrow> placed 0 ?fams i (rs ! i) (rs1 ! i)" using len by auto
  have "\<forall>shape \<in> set ?ixs. unat (ish_root shape) < length rs1" using rs1(2) declared_index [OF assms d(2)] by fastforce
  from place_indexes_spec [OF this, of 0] obtain rs2 where rs2: "place_indexes 0 ?ixs rs1 = Inr rs2" "length rs2 = length nb"
    "\<And>i. i < length nb \<Longrightarrow> \<exists>x. rs2 ! i = (rs1 ! i)\<lparr>rsh_indexes := x\<rparr>
       \<and> set x = set (rsh_indexes (rs1 ! i)) \<union> {j. j < length ?ixs \<and> unat (ish_root (?ixs ! j)) = i}" using rs1(2) by auto
  have roots: "rsh_number (rs2 ! i) = rn_root (nb ! i) \<and> rsh_field_numbers (rs2 ! i) = rn_fields (nb ! i)
       \<and> rsh_family (rs2 ! i) < length ?fams \<and> at_root i (?fams ! rsh_family (rs2 ! i))
       \<and> set (rsh_indexes (rs2 ! i)) = {j. j < length ?ixs \<and> unat (ish_root (?ixs ! j)) = i}" if i: "i < length nb" for i
  proof -
    obtain x where x: "rs2 ! i = (rs1 ! i)\<lparr>rsh_indexes := x\<rparr>"
      "set x = set (rsh_indexes (rs1 ! i)) \<union> {j. j < length ?ixs \<and> unat (ish_root (?ixs ! j)) = i}" using rs2(3) [OF i] by blast
    have "\<exists>fam \<in> set ?fams. at_root i fam" using root_family_listed [OF np(1) i] by auto
    then obtain j where j: "rs1 ! i = (rs ! i)\<lparr>rsh_family := j\<rparr>" "j < length ?fams" "at_root i (?fams ! j)"
      using rs1(3) [OF i] by (auto simp: placed_def)
    have "rsh_number (rs ! i) = rn_root (nb ! i) \<and> rsh_field_numbers (rs ! i) = rn_fields (nb ! i) \<and> rsh_indexes (rs ! i) = []"
      using list_all2_nthD2 [OF d(3), of i] i len np(1) by simp
    then show ?thesis using x j by simp
  qed
  show thesis
  proof (rule that [of "\<lparr>tb_families = ?fams, tb_roots = rs2, tb_indexes = ?ixs, tb_witness = meta_key WITNESS\<rparr>" ixs])
    show "tables_new p nb = Inr \<lparr>tb_families = ?fams, tb_roots = rs2, tb_indexes = ?ixs, tb_witness = meta_key WITNESS\<rparr>"
      using d(1) rs1(1) rs2(1) by (simp add: tables_new_def Let_def)
    show "list_all2 (\<lambda>(i, s, r, ix). index_models i s r ix) (root_decls 0 ?prs) ixs" by (rule d(2))
  qed (use rs2(2) roots in simp_all)
qed

lemma declared_numbers: "numbered p nb \<Longrightarrow> distinct (map fsp_number (declared p nb))"
  using subseq_distinct [OF declared_subseq, of nb p] numbered_pairs(1) [of p nb] by (auto simp: numbered_def)

lemma root_spec_declared:
  "length (sp_roots p) = length nb \<Longrightarrow> i < length nb \<Longrightarrow> root_spec (sp_roots p ! i) (nb ! i) \<in> set (declared p nb)"
  by (force simp: declared_def root_specs_def in_set_zip)

lemma root_spec_placed:
  assumes "numbered p nb" "i < length nb" "fam \<in> set (all_families 0 (zip (sp_roots p) nb))" "at_root i fam"
    "family_models fam spec" "spec \<in> set (declared p nb)"
  shows "spec = root_spec (sp_roots p ! i) (nb ! i) \<and> fam_root fam = i \<and> fam_key_segments fam = [ss_key (sp_roots p ! i)]"
proof -
  note len = numbered_pairs(1) [OF assms(1)]
  have fam: "fam = hd (root_families i (sp_roots p ! i) (nb ! i))" by (rule root_family_unique(2) [OF assms(3,4) len])
  then have "fsp_number spec = fsp_number (root_spec (sp_roots p ! i) (nb ! i))"
    using assms(5) by (simp add: family_models_def root_families_def root_spec_def)
  then have "spec = root_spec (sp_roots p ! i) (nb ! i)"
    using declared_numbers [OF assms(1)] assms(6) root_spec_declared [OF len assms(2)] by (simp add: distinct_map inj_on_def)
  then show ?thesis using fam by (simp add: root_families_def)
qed

lemma index_component_in_range:
  assumes "schema_ok s" "ix \<in> set (ss_indexes s)" "index_models i s r ix shape" "(Component.CField f, k) \<in> set (ish_components shape)"
  shows "f < length (ss_fields s)"
proof -
  have "Component.CField f \<in> set (map fst (ish_components shape))" using assms(4) by force
  moreover have "map fst (ish_components shape) = map component_of (ix_projection ix)" using assms(3) by (simp add: index_models_def)
  ultimately have "Component.CField f \<in> component_of ` set (ix_projection ix)" by simp
  then obtain c where c: "c \<in> set (ix_projection ix)" "component_of c = Component.CField f" by auto
  from c(2) obtain w where w: "c = IcField w" "f = unat w" by (cases c rule: component_of.cases) auto
  have "check_component (ss_key s) (ss_fields s) c = None" using assms(1,2) c(1) by (auto simp: schema_ok_def index_ok_checked)
  then show ?thesis using w by (auto split: if_splits)
qed

lemma all_prefixes_distinct:
  assumes "numbered p nb" "list_all2 (\<lambda>(i, s, r, ix). index_models i s r ix) (root_decls 0 (zip (sp_roots p) nb)) ixs"
    "list_all2 family_models fams (declared p nb)"
  shows "distinct (map fam_prefix fams)" "distinct (map ish_prefix ixs)"
proof -
  have "map fam_prefix fams = map entry_family_prefix (map fsp_number (declared p nb))"
    using assms(3) by (induction rule: list_all2_induct) (simp_all add: family_models_def)
  then show "distinct (map fam_prefix fams)"
    using declared_numbers [OF assms(1)] by (simp add: distinct_map inj_on_def entry_prefix_layout)
  have "map ish_prefix ixs = map (\<lambda>(i, s, r, ix). index_cell_key (rn_root r) (ix_id ix) []) (root_decls 0 (zip (sp_roots p) nb))"
    using assms(2) by (induction rule: list_all2_induct) (auto simp: index_models_def)
  then show "distinct (map ish_prefix ixs)"
    using root_decls_prefixes [OF numbered_pairs(3) [OF assms(1)], of 0] numbered_pairs(2) [OF assms(1)] by (simp add: case_prod_beta)
qed

text \<open>The tables of a numbered projection exist and are what the walk uses.\<close>

lemma tables_new_of:
  assumes "numbered p nb"
  shows "\<exists>t specs. tables_new p nb = Inr t \<and> tables_of p nb t specs"
proof -
  let ?prs = "zip (sp_roots p) nb"
  note np = numbered_pairs [OF assms]
  obtain t ixs where t: "tables_new p nb = Inr t" "tb_witness t = meta_key WITNESS" "length (tb_roots t) = length nb"
    "tb_families t = sort_key fam_prefix (all_families 0 ?prs)" "tb_indexes t = sort_key ish_prefix ixs"
    "list_all2 (\<lambda>(i, s, r, ix). index_models i s r ix) (root_decls 0 ?prs) ixs"
    "\<And>i. i < length nb \<Longrightarrow> rsh_number (tb_roots t ! i) = rn_root (nb ! i) \<and> rsh_field_numbers (tb_roots t ! i) = rn_fields (nb ! i)
       \<and> rsh_family (tb_roots t ! i) < length (tb_families t) \<and> at_root i (tb_families t ! rsh_family (tb_roots t ! i))
       \<and> set (rsh_indexes (tb_roots t ! i)) = {j. j < length (tb_indexes t) \<and> unat (ish_root (tb_indexes t ! j)) = i}"
    using tables_new_parts [OF assms] by blast
  have models: "list_all2 family_models (all_families 0 ?prs) (declared p nb)"
    using all_families_models [of ?prs 0] np(2) by (auto simp: declared_def)
  moreover have "mset (tb_families t) = mset (all_families 0 ?prs)" using t(4) by simp
  ultimately obtain specs where specs: "list_all2 family_models (tb_families t) specs" "mset specs = mset (declared p nb)"
    using list_all2_reorder_left_invariance by blast
  note set_specs = mset_eq_setD [OF specs(2)]
  note dist = all_prefixes_distinct [OF assms t(6) models]
  have roots: "root_models t specs i (sp_roots p ! i) (nb ! i)" if i: "i < length nb" for i
  proof -
    let ?f = "rsh_family (tb_roots t ! i)"
    have f: "?f < length (tb_families t)" "at_root i (tb_families t ! ?f)" using t(7) [OF i] by auto
    have "tb_families t ! ?f \<in> set (all_families 0 ?prs)" using nth_mem [OF f(1)] t(4) by simp
    moreover have "family_models (tb_families t ! ?f) (specs ! ?f)" "specs ! ?f \<in> set (declared p nb)"
      using specs(1) f(1) set_specs by (auto simp: list_all2_conv_all_nth)
    ultimately show ?thesis using root_spec_placed [OF assms i _ f(2)] t(7) [OF i] by (simp add: root_models_def Let_def)
  qed
  have shapes: "index_shape_wf t shape \<and> prefix [INDEX_FAMILY] (ish_prefix shape) \<and> length (ish_prefix shape) = 21"
    if shape: "shape \<in> set (tb_indexes t)" for shape
  proof -
    obtain i ix where i: "i < length nb" "unat (ish_root shape) = i" "ix \<in> set (ss_indexes (sp_roots p ! i))"
      "index_models i (sp_roots p ! i) (nb ! i) ix shape" using declared_index [OF assms t(6), of shape] shape t(5) by auto
    have pair: "(sp_roots p ! i, nb ! i) \<in> set ?prs" using i(1) np(1) by (force simp: in_set_zip)
    then have ok: "schema_ok (sp_roots p ! i)" "root_mirrors (sp_roots p ! i) (nb ! i)" "length (ix_id ix) = 16" using np(2) i(3) by auto
    note rm = roots [OF i(1), unfolded root_models_def Let_def]
    have ff: "length (fam_fields (tb_families t ! rsh_family (tb_roots t ! i))) = length (ss_fields (sp_roots p ! i))"
    proof -
      have "family_models (tb_families t ! rsh_family (tb_roots t ! i)) (root_spec (sp_roots p ! i) (nb ! i))"
        using specs(1) rm by (auto simp: list_all2_conv_all_nth)
      then show ?thesis using ok(2) by (simp add: family_models_def root_spec_def root_mirrors_def)
    qed
    show ?thesis
      using i rm ff ok t(3) index_component_in_range [OF ok(1) i(3,4)]
      by (auto simp: index_shape_wf_def index_root_def index_family_shape_def index_models_def index_cell_layout root_mirrors_def)
  qed
  have fam_roots: "fam_root fam < length nb" if "fam \<in> set (tb_families t)" for fam
    using that t(4) np(1) by (auto simp: in_set_enumerate_eq dest!: all_families_root)
  have ix_roots: "j < length (tb_indexes t)" if "r \<in> set (tb_roots t)" "j \<in> set (rsh_indexes r)" for r j
    using that t(3,7) by (auto simp: in_set_conv_nth [of r])
  have "tables_wf t specs"
    unfolding tables_wf_def using specs(1) sort_strict [OF dist(1)] sort_strict [OF dist(2)] t(2,3,4,5) fam_roots ix_roots shapes by simp
  then have "tables_of p nb t specs"
    unfolding tables_of_def
    using t(3,5) np(1) roots declared_index [OF assms t(6)] declared_index_listed [OF np(1) t(6)] set_specs by simp
  with t(1) show ?thesis by blast
qed

end
