(* ===== verification/Audit_Valid.thy ===== *)
theory Audit_Valid
  imports Audit_Tables Index_Coherence
begin

text \<open>
  What a clean audit means. A store is valid for its projection when every cell lies at a declared
  place, every node reads without a fault, and every managed index holds exactly the rows of the
  present entries: the state the transaction sessions keep. The audit reports no finding exactly on
  the valid stores.
\<close>

section \<open>Valid stores\<close>

definition spec_keys :: "FamilySpec \<Rightarrow> KeyScalar list \<Rightarrow> bool" where
  "spec_keys spec keys \<longleftrightarrow> keys_fit (fsp_cols spec) keys \<and> list_all key_wf keys"

definition spec_marker :: "FamilySpec \<Rightarrow> KeyScalar list \<Rightarrow> bytes" where
  "spec_marker spec keys = marker_key (fsp_number spec) keys"

text \<open>The well-formed rows of a declared index.\<close>

definition index_vals :: "StoreSchema \<Rightarrow> IndexSchema \<Rightarrow> KeyScalar list \<Rightarrow> bool" where
  "index_vals s ix vals \<longleftrightarrow>
     (case traverse (index_component_kind s) (ix_projection ix) of Inl _ \<Rightarrow> False
      | Inr kinds \<Rightarrow> keys_fit kinds vals \<and> list_all key_wf vals)"

definition placed_cell :: "StoreProjection \<Rightarrow> RootNumbering list \<Rightarrow> bytes \<Rightarrow> bytes \<Rightarrow> bool" where
  "placed_cell p nb k v \<longleftrightarrow>
     (\<exists>spec \<in> set (declared p nb). \<exists>keys. spec_keys spec keys \<and> prefix (spec_marker spec keys) k)
     \<or> (\<exists>i < length nb. \<exists>ix \<in> set (ss_indexes (sp_roots p ! i)). \<exists>vals.
          index_vals (sp_roots p ! i) ix vals \<and> k = index_cell_key (rn_root (nb ! i)) (ix_id ix) vals)
     \<or> k = meta_key WITNESS \<and> witness_well_formed v"

definition node_valid :: "(bytes \<rightharpoonup> bytes) \<Rightarrow> FamilySpec \<Rightarrow> KeyScalar list \<Rightarrow> bool" where
  "node_valid m spec keys \<longleftrightarrow>
     sound_node m (spec_marker spec keys) (fsp_fields spec) (fsp_groups spec)
     \<and> (m (spec_marker spec keys) = None \<or> m (spec_marker spec keys) = Some MARKER_VALUE)"

definition indexes_valid :: "(bytes \<rightharpoonup> bytes) \<Rightarrow> StoreSchema \<Rightarrow> RootNumbering \<Rightarrow> bool" where
  "indexes_valid m s r \<longleftrightarrow> coherent m (rn_root r) (ss_key s) (fsp_fields (root_spec s r)) (ss_indexes s)"

definition store_valid :: "StoreProjection \<Rightarrow> RootNumbering list \<Rightarrow> (bytes \<rightharpoonup> bytes) \<Rightarrow> bool" where
  "store_valid p nb m \<longleftrightarrow>
     (\<forall>k v. m k = Some v \<longrightarrow> placed_cell p nb k v)
     \<and> (\<forall>spec \<in> set (declared p nb). \<forall>keys. spec_keys spec keys \<longrightarrow> node_valid m spec keys)
     \<and> (\<forall>i < length nb. indexes_valid m (sp_roots p ! i) (nb ! i))"

section \<open>Nodes\<close>

text \<open>The declared field whose leaf has the key.\<close>

definition leaf_of :: "FamilySpec \<Rightarrow> bytes \<Rightarrow> bytes \<Rightarrow> ResolvedField \<Rightarrow> bool" where
  "leaf_of spec stem k f \<longleftrightarrow>
     f \<in> set (fsp_fields spec) \<and> k = stem_field_leaf stem (rf_number f)
     \<or> (\<exists>g \<in> set (fsp_groups spec). f \<in> set (rg_fields g) \<and> k = stem_field_leaf (group_stem stem (rg_number g)) (rf_number f))"

definition required_present :: "(bytes \<rightharpoonup> bytes) \<Rightarrow> FamilySpec \<Rightarrow> bytes \<Rightarrow> bool" where
  "required_present m spec stem \<longleftrightarrow>
     (\<forall>f \<in> set (fsp_fields spec). rf_required f \<longrightarrow> m (stem_field_leaf stem (rf_number f)) \<noteq> None)
     \<and> (\<forall>g \<in> set (fsp_groups spec). \<forall>f \<in> set (rg_fields g).
          rf_required f \<longrightarrow> m (stem_field_leaf (group_stem stem (rg_number g)) (rf_number f)) \<noteq> None)"

definition leaves_declared :: "(bytes \<rightharpoonup> bytes) \<Rightarrow> FamilySpec \<Rightarrow> bytes \<Rightarrow> bool" where
  "leaves_declared m spec stem \<longleftrightarrow>
     (\<forall>k v. m k = Some v \<longrightarrow> prefix stem k \<longrightarrow> k \<noteq> stem \<longrightarrow> (\<exists>f. leaf_of spec stem k f \<and> decode_domain v (rf_shape f) \<noteq> None))"

lemma leaf_of_place:
  assumes "family_models fam spec"
  shows "(\<exists>grp i. place_ok fam grp i \<and> rest = place_suffix spec grp i \<and> place_field spec grp i = f) \<longleftrightarrow> leaf_of spec stem (stem @ rest) f"
proof -
  have len: "length (fam_fields fam) = length (fsp_fields spec)" "length (fam_groups fam) = length (fsp_groups spec)"
    "\<And>g. g < length (fam_groups fam) \<Longrightarrow> length (gsl_fields (fam_groups fam ! g)) = length (rg_fields (fsp_groups spec ! g))"
    using assms by (auto simp: family_models_def group_models_def list_all2_conv_all_nth)
  show ?thesis
  proof
    assume "\<exists>grp i. place_ok fam grp i \<and> rest = place_suffix spec grp i \<and> place_field spec grp i = f"
    then obtain grp i where p: "place_ok fam grp i" "rest = place_suffix spec grp i" "place_field spec grp i = f" by blast
    show "leaf_of spec stem (stem @ rest) f"
    proof (cases grp)
      case None
      then have "i < length (fsp_fields spec)" using p(1) len(1) by (simp add: place_ok_def)
      then show ?thesis using p(2,3) None nth_mem place_under_stem(1) [of stem spec i] by (auto simp: leaf_of_def place_field_def)
    next
      case (Some g)
      then have g: "g < length (fsp_groups spec)" "i < length (rg_fields (fsp_groups spec ! g))" using p(1) len by (auto simp: place_ok_def)
      then have "f \<in> set (rg_fields (fsp_groups spec ! g))" using p(3) Some by (auto simp: place_field_def)
      then show ?thesis using p(2,3) Some nth_mem [OF g(1)] place_under_stem(2) [of stem spec g i] by (auto simp: leaf_of_def place_field_def)
    qed
  next
    assume "leaf_of spec stem (stem @ rest) f"
    then consider "f \<in> set (fsp_fields spec)" "rest = stem_field_leaf [] (rf_number f)"
      | g where "g \<in> set (fsp_groups spec)" "f \<in> set (rg_fields g)" "rest = stem_field_leaf (group_stem [] (rg_number g)) (rf_number f)"
      by (auto simp: leaf_of_def field_leaf_layout group_stem_layout)
    then show "\<exists>grp i. place_ok fam grp i \<and> rest = place_suffix spec grp i \<and> place_field spec grp i = f"
    proof cases
      case 1
      then obtain i where "i < length (fsp_fields spec)" "f = fsp_fields spec ! i" by (auto simp: in_set_conv_nth)
      then show ?thesis using 1 len(1) by (intro exI [of _ None] exI [of _ i]) (simp add: place_ok_def place_suffix_def place_field_def)
    next
      case (2 g)
      then obtain j i where "j < length (fsp_groups spec)" "g = fsp_groups spec ! j" "i < length (rg_fields g)" "f = rg_fields g ! i"
        by (auto simp: in_set_conv_nth)
      then show ?thesis
        using 2 len by (intro exI [of _ "Some j"] exI [of _ i]) (simp add: place_ok_def place_suffix_def place_field_def)
    qed
  qed
qed

lemma leaf_fine_leaf:
  assumes "family_models fam spec"
  shows "leaf_fine fam rest v \<longleftrightarrow> (\<exists>f. leaf_of spec stem (stem @ rest) f \<and> decode_domain v (rf_shape f) \<noteq> None)"
proof -
  have "leaf_fine fam rest v \<longleftrightarrow>
      (\<exists>grp i. locate fam rest = Some (grp, i) \<and> decode_domain v (fsl_shape (declared_slot fam grp i)) \<noteq> None)"
    by (auto simp: leaf_fine_def split: option.splits)
  also have "\<dots> \<longleftrightarrow> (\<exists>grp i. place_ok fam grp i \<and> rest = place_suffix spec grp i \<and> decode_domain v (rf_shape (place_field spec grp i)) \<noteq> None)"
    unfolding locate_place_suffix [OF assms] using place_slot [OF assms] by (metis (no_types, lifting) FieldSlot.select_convs(1) slot_of_def)
  finally show ?thesis using leaf_of_place [OF assms, of rest _ stem] by metis
qed

text \<open>A node is sound when it is absent altogether, or complete with only declared, decodable leaves.\<close>

lemma leaf_of_unique:
  assumes "target_wf (AtEntry (fsp_fields spec) (fsp_groups spec))" "leaf_of spec stem k f" "leaf_of spec stem k f'"
  shows "f = f'"
proof -
  have inj: "x = y" if "record_wf fs" "x \<in> set fs" "y \<in> set fs" "rf_number x = rf_number y" for fs x y
    using that by (auto simp: record_wf_def distinct_map inj_on_def)
  have grp: "g = h" if "g \<in> set (fsp_groups spec)" "h \<in> set (fsp_groups spec)" "rg_number g = rg_number h" for g h
    using that assms(1) by (auto simp: distinct_map inj_on_def)
  show ?thesis
    using assms inj grp unfolding leaf_of_def
    by (auto simp: field_leaf_layout group_stem_layout layout_tags list_all_iff) (metis)
qed

lemma leaf_ok_iff:
  "leaf_ok m stem f \<longleftrightarrow> (rf_required f \<longrightarrow> m (stem_field_leaf stem (rf_number f)) \<noteq> None)
     \<and> (\<forall>v. m (stem_field_leaf stem (rf_number f)) = Some v \<longrightarrow> decode_domain v (rf_shape f) \<noteq> None)"
  by (cases "m (stem_field_leaf stem (rf_number f))") (simp_all add: leaf_ok_def)

lemma node_cells_leaf: "k \<in> set (node_cells stem (fsp_fields spec) (fsp_groups spec)) \<longleftrightarrow> k = stem \<or> (\<exists>f. leaf_of spec stem k f)"
  by (auto simp: node_cells_def leaf_of_def group_cells_def node_field_leaf_def)

lemma record_clean_declared:
  assumes "leaves_declared m spec stem"
    "required_present m spec stem" "target_wf (AtEntry (fsp_fields spec) (fsp_groups spec))"
  shows "record_clean m stem (fsp_fields spec)" "g \<in> set (fsp_groups spec) \<Longrightarrow> record_clean m (group_stem stem (rg_number g)) (rg_fields g)"
proof -
  have under: "leaf_of spec stem k f \<Longrightarrow> prefix stem k \<and> k \<noteq> stem" for k f
    by (auto simp: leaf_of_def field_leaf_layout group_stem_layout)
  have decodes: "decode_domain v (rf_shape f) \<noteq> None" if "leaf_of spec stem k f" "m k = Some v" for k f v
    using assms(1) that under [OF that(1)] leaf_of_unique [OF assms(3) that(1)] unfolding leaves_declared_def by metis
  have grp: "g = h" if "g \<in> set (fsp_groups spec)" "h \<in> set (fsp_groups spec)" "rg_number g = rg_number h" for g h
    using that assms(3) by (auto simp: distinct_map inj_on_def)
  show "record_clean m stem (fsp_fields spec)"
    unfolding record_clean_def
  proof (intro conjI ballI impI)
    fix k assume k: "k \<in> dom m" "prefix (field_leaf_range stem) k \<and> k \<noteq> field_leaf_range stem"
    then have "\<exists>f. leaf_of spec stem k f" using assms(1) range_under(1) by (fastforce simp: field_leaf_range_def leaves_declared_def)
    then show "k \<in> set (group_cells stem (fsp_fields spec))"
      using k(2) by (auto simp: leaf_of_def group_cells_def node_field_leaf_def field_leaf_range_def field_leaf_layout group_stem_layout layout_tags)
  next
    show "list_all (leaf_ok m stem) (fsp_fields spec)"
      unfolding list_all_iff leaf_ok_iff using assms(2) decodes unfolding required_present_def leaf_of_def by blast
  qed
  show "record_clean m (group_stem stem (rg_number g)) (rg_fields g)" if g: "g \<in> set (fsp_groups spec)"
    unfolding record_clean_def
  proof (intro conjI ballI impI)
    fix k assume k: "k \<in> dom m" "prefix (field_leaf_range (group_stem stem (rg_number g))) k \<and> k \<noteq> field_leaf_range (group_stem stem (rg_number g))"
    then have "prefix stem k" "k \<noteq> stem" using range_under(2) by (auto simp: field_leaf_range_def group_stem_layout)
    then obtain f where f: "leaf_of spec stem k f" using assms(1) k(1) unfolding leaves_declared_def by blast
    obtain r where r: "k = stem @ GROUP_TAG # be_bytes (rg_number g) @ FIELD_TAG # r"
      using k(2) by (auto simp: prefix_def field_leaf_range_def group_stem_layout)
    then obtain h where h: "h \<in> set (fsp_groups spec)" "f \<in> set (rg_fields h)" "k = stem_field_leaf (group_stem stem (rg_number h)) (rf_number f)"
      using f by (auto simp: leaf_of_def field_leaf_layout layout_tags)
    then have "rg_number g = rg_number h" using r by (simp add: field_leaf_layout group_stem_layout number_append_inject)
    then show "k \<in> set (group_cells (group_stem stem (rg_number g)) (rg_fields g))"
      using h grp [OF g h(1)] by (auto simp: group_cells_def node_field_leaf_def)
  next
    show "list_all (leaf_ok m (group_stem stem (rg_number g))) (rg_fields g)"
      unfolding list_all_iff leaf_ok_iff using assms(2) decodes g unfolding required_present_def leaf_of_def by blast
  qed
qed

lemma sound_node_iff:
  assumes "target_wf (AtEntry (fsp_fields spec) (fsp_groups spec))"
  shows "sound_node m stem (fsp_fields spec) (fsp_groups spec) \<longleftrightarrow>
     (if m stem = None then \<forall>k. prefix stem k \<longrightarrow> m k = None
      else leaves_declared m spec stem \<and> required_present m spec stem)"
proof (cases "m stem = None")
  case True
  then have "(\<exists>e. entry_at m stem (fsp_fields spec) (fsp_groups spec) = Inr e) \<longleftrightarrow> (\<forall>k. prefix stem k \<longrightarrow> m k = None)"
    using entry_at_Some [of m stem "fsp_fields spec" "fsp_groups spec"] entry_at_None [of m stem "fsp_fields spec" "fsp_groups spec"]
    by (metis node_readable_def option.exhaust)
  then show ?thesis using True by (auto simp: sound_node_def node_clean_def domIff)
next
  case False
  then have read: "(\<exists>e. entry_at m stem (fsp_fields spec) (fsp_groups spec) = Inr e) \<longleftrightarrow> node_readable m stem (fsp_fields spec) (fsp_groups spec)"
    using entry_at_Some [of m stem "fsp_fields spec" "fsp_groups spec"] entry_at_None [of m stem "fsp_fields spec" "fsp_groups spec"]
    by (metis option.exhaust prefix_order.refl)
  show ?thesis
  proof
    assume s: "sound_node m stem (fsp_fields spec) (fsp_groups spec)"
    then have r: "record_clean m stem (fsp_fields spec)" "\<And>g. g \<in> set (fsp_groups spec) \<Longrightarrow> record_clean m (group_stem stem (rg_number g)) (rg_fields g)"
      using read by (simp_all add: sound_node_def node_readable_def)
    have "required_present m spec stem"
      using r unfolding required_present_def record_clean_def list_all_iff leaf_ok_iff by blast
    moreover have "\<exists>f. leaf_of spec stem k f \<and> decode_domain v (rf_shape f) \<noteq> None" if k: "m k = Some v" "prefix stem k" "k \<noteq> stem" for k v
    proof -
      have "k \<in> set (node_cells stem (fsp_fields spec) (fsp_groups spec))" using s k by (auto simp: sound_node_def node_clean_def)
      then obtain f where f: "leaf_of spec stem k f" using k(3) node_cells_leaf by blast
      have ok: "decode_domain v (rf_shape f) \<noteq> None" if "record_clean m st fs" "f \<in> set fs" "k = stem_field_leaf st (rf_number f)" for st fs
        using that k(1) by (auto simp: record_clean_def list_all_iff leaf_ok_def split: option.splits)
      then have "decode_domain v (rf_shape f) \<noteq> None" using f r unfolding leaf_of_def by blast
      with f show ?thesis by blast
    qed
    ultimately show "if m stem = None then \<forall>k. prefix stem k \<longrightarrow> m k = None
      else leaves_declared m spec stem \<and> required_present m spec stem" using False by (auto simp: leaves_declared_def)
  next
    assume "if m stem = None then \<forall>k. prefix stem k \<longrightarrow> m k = None
      else leaves_declared m spec stem \<and> required_present m spec stem"
    then have a: "leaves_declared m spec stem" "required_present m spec stem" using False by simp_all
    note clean = record_clean_declared [OF a assms]
    have "node_clean m stem (fsp_fields spec) (fsp_groups spec)"
      unfolding node_clean_def node_cells_leaf using a(1) unfolding leaves_declared_def by blast
    then show "sound_node m stem (fsp_fields spec) (fsp_groups spec)"
      using read clean False by (simp add: sound_node_def node_readable_def)
  qed
qed

section \<open>Entries\<close>

lemma frame_complete_iff:
  assumes "family_models (tb_families t ! i) spec"
  shows "frame_complete t m (frame_state t m spec i keys (dom m) b) \<longleftrightarrow>
     required_present m spec (spec_marker spec keys)
     \<and> (i = rsh_family (tb_roots t ! fam_root (tb_families t ! i)) \<longrightarrow>
          (\<forall>j \<in> set (rsh_indexes (tb_roots t ! fam_root (tb_families t ! i))).
             row_present m (rsh_number (tb_roots t ! fam_root (tb_families t ! i))) (tb_indexes t ! j) (frame_state t m spec i keys (dom m) b)))"
proof -
  let ?fr = "frame_state t m spec i keys (dom m) b" and ?fam = "tb_families t ! i" and ?stem = "spec_marker spec keys"
  have fields: "fam_fields ?fam = map slot_of (fsp_fields spec)" "list_all2 group_models (fam_groups ?fam) (fsp_groups spec)"
    using assms by (simp_all add: family_models_def)
  have own: "(\<forall>j < length (fam_fields ?fam). fsl_required (fam_fields ?fam ! j) \<longrightarrow> fr_own ?fr ! j) \<longleftrightarrow>
      (\<forall>f \<in> set (fsp_fields spec). rf_required f \<longrightarrow> m (stem_field_leaf ?stem (rf_number f)) \<noteq> None)"
    by (auto simp: fields(1) frame_state_def Let_def slot_of_def spec_marker_def all_set_conv_all_nth domIff)
  have "list_all2 (\<lambda>flags g. group_complete g flags) (map (\<lambda>g. map (\<lambda>f. stem_field_leaf (group_stem ?stem (rg_number g)) (rf_number f) \<in> dom m) (rg_fields g)) gs) slots \<longleftrightarrow>
      (\<forall>g \<in> set gs. \<forall>f \<in> set (rg_fields g). rf_required f \<longrightarrow> m (stem_field_leaf (group_stem ?stem (rg_number g)) (rf_number f)) \<noteq> None)"
    if "list_all2 group_models slots gs" for slots gs
    using that
    by (induction rule: list_all2_induct)
      (auto simp: group_complete_def group_models_def slot_of_def all_set_conv_all_nth domIff)
  from this [OF fields(2)]
  have groups: "list_all2 (\<lambda>flags g. group_complete g flags) (fr_groups ?fr) (fam_groups ?fam) \<longleftrightarrow>
      (\<forall>g \<in> set (fsp_groups spec). \<forall>f \<in> set (rg_fields g). rf_required f \<longrightarrow> m (stem_field_leaf (group_stem ?stem (rg_number g)) (rf_number f)) \<noteq> None)"
    by (simp add: frame_state_def Let_def spec_marker_def)
  show ?thesis by (simp only: frame_complete_def Let_def frame_state_simps own groups required_present_def conj_assoc)
qed

text \<open>The row the audit projects is the row the session projects.\<close>

lemma collect_project:
  "(case project_components cs keys vs of Inr row \<Rightarrow> row | Inl _ \<Rightarrow> None)
     = collect_options (map (\<lambda>c. component_value keys (map projected_key vs) (component_of c)) cs)"
proof (induction cs keys vs rule: project_components.induct)
  case (2 column cs keys vs)
  then show ?case by (cases "project_components cs keys vs") (auto simp: nth_opt_def)
next
  case (3 f cs keys vs)
  show ?case
  proof (cases "unat f < length vs")
    case True
    show ?thesis
    proof (cases "vs ! unat f")
      case None
      then show ?thesis using True by (simp add: nth_opt_def projected_key_def)
    next
      case (Some x)
      then show ?thesis using True 3
        by (cases "project_components cs keys vs")
          (auto simp: nth_opt_def projected_key_def split: ValueDomain.splits sum.splits option.splits)
    qed
  qed (simp add: nth_opt_def)
qed simp

lemma audit_row_state:
  assumes "index_models j s r ix shape" "indexed_family t i"
  shows "audit_row shape (frame_state t m spec i keys (dom m) b) =
     (case project_row ix keys (Some (read_slots m (spec_marker spec keys) (fsp_fields spec))) of Inr row \<Rightarrow> row | Inl _ \<Rightarrow> None)"
proof -
  have proj: "fr_projected (frame_state t m spec i keys (dom m) b) = map projected_key (read_slots m (spec_marker spec keys) (fsp_fields spec))"
    using assms(2) by (auto simp: frame_state_def Let_def read_slots_def spec_marker_def leaf_value_def projected_key_def domIff split: option.splits)
  have "map (\<lambda>(c, _). component_value keys vs c) (ish_components shape) = map (component_value keys vs) (map fst (ish_components shape))" for vs
    by (simp add: case_prod_beta)
  moreover have "map fst (ish_components shape) = map component_of (ix_projection ix)" using assms(1) by (simp add: index_models_def)
  ultimately show ?thesis by (simp add: audit_row_def proj project_row_def collect_project comp_def)
qed

section \<open>Index rows\<close>

lemma collect_options_iff: "collect_options (map h cs) = Some vals \<longleftrightarrow> list_all2 (\<lambda>c v. h c = Some v) cs vals"
proof (induction cs arbitrary: vals)
  case (Cons c cs)
  then show ?case by (cases "h c") (auto simp: list_all2_Cons1)
qed auto

lemma scalar_decodes: "shape_scalar_kind shape \<noteq> None \<Longrightarrow> decode_domain bs shape = Some v \<Longrightarrow> \<exists>x. v = VScalar x"
  by (auto simp: decode_domain_def)

text \<open>The fields of a root, as its tables and its numbering give them.\<close>

lemma root_field:
  assumes "root_models t specs i s r" "root_mirrors s r" "family_models (tb_families t ! rsh_family (tb_roots t ! i)) (root_spec s r)"
    "f < length (ss_fields s)"
  shows "rsh_field_numbers (tb_roots t ! i) ! f = rf_number (fsp_fields (root_spec s r) ! f)"
    "fsl_shape (fam_fields (tb_families t ! rsh_family (tb_roots t ! i)) ! f) = rf_shape (fsp_fields (root_spec s r) ! f)"
    "rf_shape (fsp_fields (root_spec s r) ! f) = fd_shape (ss_fields s ! f)" "length (fsp_fields (root_spec s r)) = length (ss_fields s)"
  using assms by (simp_all add: root_models_def Let_def root_spec_def resolve_fields_def root_mirrors_def family_models_def slot_of_def)

definition leaves_decode :: "(bytes \<rightharpoonup> bytes) \<Rightarrow> FamilySpec \<Rightarrow> bytes \<Rightarrow> bool" where
  "leaves_decode m spec stem \<longleftrightarrow>
     (\<forall>f \<in> set (fsp_fields spec). \<forall>v. m (stem_field_leaf stem (rf_number f)) = Some v \<longrightarrow> decode_domain v (rf_shape f) \<noteq> None)"

lemma agrees_component:
  assumes "root_models t specs i s r" "root_mirrors s r" "family_models (tb_families t ! rsh_family (tb_roots t ! i)) (root_spec s r)"
    "unat (ish_root shape) = i" "leaves_decode m (root_spec s r) (marker_key (rn_root r) source)"
    "check_component (ss_key s) (ss_fields s) c = None"
  shows "agrees t m shape source (component_of c) val \<longleftrightarrow>
     component_value source (map projected_key (read_slots m (marker_key (rn_root r) source) (fsp_fields (root_spec s r)))) (component_of c) = Some val"
proof (cases c)
  case (IcField w)
  let ?f = "unat w" and ?stem = "marker_key (rn_root r) source"
  have w: "?f < length (ss_fields s)" "shape_scalar_kind (fd_shape (ss_fields s ! ?f)) \<noteq> None" using assms(6) IcField by (auto split: if_splits)
  note rf = root_field [OF assms(1-3) w(1)]
  let ?g = "fsp_fields (root_spec s r) ! ?f"
  have num: "rsh_number (tb_roots t ! i) = rn_root r" using assms(1) by (simp add: root_models_def Let_def)
  have mem: "?g \<in> set (fsp_fields (root_spec s r))" using w(1) rf(4) by simp
  have slot: "component_value source (map projected_key (read_slots m ?stem (fsp_fields (root_spec s r)))) (component_of c)
      = projected_key (leaf_value m ?stem ?g)"
    using IcField w(1) rf(4) by (simp add: nth_opt_def read_slots_def)
  show ?thesis
  proof (cases "m (stem_field_leaf ?stem (rf_number ?g))")
    case None
    then show ?thesis
      unfolding slot by (simp add: IcField agrees_def index_root_def assms(4) num rf(1) leaf_value_def projected_key_def)
  next
    case (Some bs)
    then obtain v where v: "decode_domain bs (rf_shape ?g) = Some v" using assms(5) mem unfolding leaves_decode_def by blast
    then obtain x where "v = VScalar x" using scalar_decodes w(2) rf(3) by metis
    then show ?thesis
      unfolding slot using Some v
      by (simp add: IcField agrees_def index_root_def index_family_shape_def assms(4) num rf(1,2) leaf_value_def projected_key_def)
  qed
qed (simp add: agrees_def)

lemma source_fine_row:
  assumes "root_models t specs i s r" "root_mirrors s r" "family_models (tb_families t ! rsh_family (tb_roots t ! i)) (root_spec s r)"
    "unat (ish_root shape) = i" "schema_ok s" "ix \<in> set (ss_indexes s)" "index_models i s r ix shape"
    "keys_fit (map snd (ish_components shape)) vals"
    "m (marker_key (rn_root r) source) \<noteq> None \<Longrightarrow> leaves_decode m (root_spec s r) (marker_key (rn_root r) source)"
  shows "source_fine t m shape vals source \<longleftrightarrow>
     list_all key_wf source \<and> entry_row m (rn_root r) (ss_key s) (fsp_fields (root_spec s r)) ix source = Some vals"
proof (cases "m (marker_key (rn_root r) source) = None")
  case True
  then show ?thesis using assms(1,4) by (simp add: source_fine_def entry_row_def index_root_def root_models_def Let_def)
next
  case False
  let ?h = "component_value source (map projected_key (read_slots m (marker_key (rn_root r) source) (fsp_fields (root_spec s r))))"
  have checked: "check_component (ss_key s) (ss_fields s) c = None" if "c \<in> set (ix_projection ix)" for c
    using assms(5,6) that by (auto simp: schema_ok_def index_ok_checked)
  note agree = agrees_component [OF assms(1-4) assms(9) [OF False] checked]
  have comps: "map fst (ish_components shape) = map component_of (ix_projection ix)" using assms(7) by (simp add: index_models_def)
  then have len: "length (ish_components shape) = length (ix_projection ix)" by (metis length_map)
  have lv: "length vals = length (ish_components shape)" using assms(8) by (auto simp: keys_fit_def dest: list_all2_lengthD)
  have "(\<forall>((c, k), val) \<in> set (zip (ish_components shape) vals). agrees t m shape source c val) \<longleftrightarrow>
      (\<forall>j < length (ix_projection ix). agrees t m shape source (component_of (ix_projection ix ! j)) (vals ! j))"
  proof -
    have nth: "fst (ish_components shape ! j) = component_of (ix_projection ix ! j)" if "j < length (ix_projection ix)" for j
      using that comps len by (metis nth_map)
    have "(\<forall>((c, k), val) \<in> set (zip (ish_components shape) vals). agrees t m shape source c val) \<longleftrightarrow>
        list_all2 (\<lambda>ck val. agrees t m shape source (fst ck) val) (ish_components shape) vals"
      using lv by (simp add: list_all2_iff case_prod_beta)
    then show ?thesis using len lv nth by (simp add: list_all2_conv_all_nth)
  qed
  also have "\<dots> \<longleftrightarrow> (\<forall>j < length (ix_projection ix). ?h (component_of (ix_projection ix ! j)) = Some (vals ! j))"
    using agree nth_mem by blast
  also have "\<dots> \<longleftrightarrow> collect_options (map (\<lambda>c. ?h (component_of c)) (ix_projection ix)) = Some vals"
    using len lv by (simp add: collect_options_iff list_all2_conv_all_nth)
  finally show ?thesis
    using False assms(1,4)
    by (auto simp: source_fine_def entry_row_def index_root_def index_family_shape_def root_models_def Let_def project_row_def collect_project)
qed

section \<open>Clean audits and valid stores\<close>

lemma spec_marker_inject:
  assumes "numbered p nb" "spec \<in> set (declared p nb)" "spec' \<in> set (declared p nb)" "prefix (spec_marker spec keys) k" "prefix (spec_marker spec' keys') k"
  shows "spec = spec'" "keys = keys'"
proof -
  obtain u where "k = spec_marker spec keys @ u" using assms(4) by (auto simp: prefix_def)
  moreover obtain u' where "k = spec_marker spec' keys' @ u'" using assms(5) by (auto simp: prefix_def)
  ultimately have same: "fsp_number spec = fsp_number spec'" "keys = keys'" by (auto simp: spec_marker_def marker_append_inject)
  then show "spec = spec'" using declared_numbers [OF assms(1)] assms(2,3) by (auto simp: distinct_map inj_on_def)
  show "keys = keys'" by (rule same(2))
qed

lemma entry_of_spec:
  assumes "tables_of p nb t specs"
  shows "(\<exists>i keys. entry_of t i keys \<and> Q (specs ! i) (marker_of t i keys) keys) \<longleftrightarrow>
     (\<exists>spec \<in> set (declared p nb). \<exists>keys. spec_keys spec keys \<and> Q spec (spec_marker spec keys) keys)"
proof -
  have wf: "tables_wf t specs" and set: "set specs = set (declared p nb)" using assms by (simp_all add: tables_of_def)
  have len: "length specs = length (tb_families t)" using wf by (auto simp: tables_wf_def dest: list_all2_lengthD)
  have "entry_of t i keys \<longleftrightarrow> i < length specs \<and> spec_keys (specs ! i) keys" for i keys
    using tables_wf_family(1) [OF wf, of i] len by (auto simp: entry_of_def entry_keys_def spec_keys_def family_models_def)
  moreover have "marker_of t i keys = spec_marker (specs ! i) keys" if "i < length specs" for i keys
    using that tables_wf_family(5) [OF wf, of i] len by (simp add: marker_of_def spec_marker_def)
  ultimately have "(\<exists>i keys. entry_of t i keys \<and> Q (specs ! i) (marker_of t i keys) keys) \<longleftrightarrow>
      (\<exists>i < length specs. \<exists>keys. spec_keys (specs ! i) keys \<and> Q (specs ! i) (spec_marker (specs ! i) keys) keys)" by metis
  then show ?thesis unfolding set [symmetric] by (simp add: Bex_def in_set_conv_nth) blast
qed

definition entry_cell :: "(bytes \<rightharpoonup> bytes) \<Rightarrow> FamilySpec \<Rightarrow> bytes \<Rightarrow> bytes \<Rightarrow> bytes \<Rightarrow> bool" where
  "entry_cell m spec stem k v \<longleftrightarrow>
     k = stem \<and> v = MARKER_VALUE
     \<or> k \<noteq> stem \<and> prefix stem k \<and> m stem \<noteq> None \<and> (\<exists>f. leaf_of spec stem k f \<and> decode_domain v (rf_shape f) \<noteq> None)"

lemma cell_good_spec:
  assumes "tables_of p nb t specs"
  shows "cell_good t m k v \<longleftrightarrow>
     (\<exists>spec \<in> set (declared p nb). \<exists>keys. spec_keys spec keys \<and> entry_cell m spec (spec_marker spec keys) k v)
     \<or> (\<exists>shape \<in> set (tb_indexes t). prefix (ish_prefix shape) k \<and> index_fine t m shape k v)
     \<or> k = meta_key WITNESS \<and> witness_well_formed v"
proof -
  have wf: "tables_wf t specs" using assms by (simp add: tables_of_def)
  have marker: "(v = MARKER_VALUE \<and> (\<exists>fam \<in> set (tb_families t). \<exists>keys. entry_keys fam keys \<and> k = marker_key (fam_number fam) keys)) \<longleftrightarrow>
      (\<exists>i keys. entry_of t i keys \<and> k = marker_of t i keys \<and> v = MARKER_VALUE)"
    unfolding entry_of_def marker_of_def by (metis in_set_conv_nth)
  have cell: "entry_cell m (specs ! i) (marker_of t i keys) k v \<longleftrightarrow> k = marker_of t i keys \<and> v = MARKER_VALUE
      \<or> (\<exists>rest. rest \<noteq> [] \<and> k = marker_of t i keys @ rest \<and> m (marker_of t i keys) \<noteq> None \<and> leaf_fine (tb_families t ! i) rest v)"
    if e: "entry_of t i keys" for i keys
  proof -
    let ?s = "marker_of t i keys"
    have "i < length (tb_families t)" using e by (simp add: entry_of_def)
    note fine = leaf_fine_leaf [OF tables_wf_family(1) [OF wf this], of _ v ?s]
    have "k \<noteq> ?s \<and> prefix ?s k \<longleftrightarrow> (\<exists>rest. rest \<noteq> [] \<and> k = ?s @ rest)" by (auto simp: prefix_def)
    then show ?thesis unfolding entry_cell_def fine by metis
  qed
  have "(\<exists>i keys. entry_of t i keys \<and> entry_cell m (specs ! i) (marker_of t i keys) k v) \<longleftrightarrow>
      (\<exists>i keys. entry_of t i keys \<and> k = marker_of t i keys \<and> v = MARKER_VALUE)
      \<or> (\<exists>i keys rest. entry_of t i keys \<and> rest \<noteq> [] \<and> k = marker_of t i keys @ rest \<and> m (marker_of t i keys) \<noteq> None
          \<and> leaf_fine (tb_families t ! i) rest v)"
    using cell by metis
  then show ?thesis
    unfolding cell_good_def top_good_def marker
    using entry_of_spec [OF assms, of "\<lambda>spec stem keys. entry_cell m spec stem k v"] by blast
qed

text \<open>What the checks at the end of an entry ask for.\<close>

definition rows_present :: "(bytes \<rightharpoonup> bytes) \<Rightarrow> StoreSchema \<Rightarrow> RootNumbering \<Rightarrow> KeyScalar list \<Rightarrow> bool" where
  "rows_present m s r keys \<longleftrightarrow>
     (\<forall>ix \<in> set (ss_indexes s). \<forall>row. entry_row m (rn_root r) (ss_key s) (fsp_fields (root_spec s r)) ix keys = Some row \<longrightarrow>
        m (index_cell_key (rn_root r) (ix_id ix) row) = Some (index_cell_value keys))"

lemma index_shape_root: "numbered p nb \<Longrightarrow> i < length nb \<Longrightarrow> index_models i s r ix shape \<Longrightarrow> unat (ish_root shape) = i"
  using numbered_root by (simp add: index_models_def)

lemma declared_shape:
  assumes "tables_of p nb t specs" "i < length nb" "ix \<in> set (ss_indexes (sp_roots p ! i))"
  obtains shape where "shape \<in> set (tb_indexes t)" "index_models i (sp_roots p ! i) (nb ! i) ix shape"
  using assms unfolding tables_of_def by blast

lemma entry_closed_root:
  assumes "numbered p nb" "tables_of p nb t specs" "i < length nb" "f = rsh_family (tb_roots t ! i)" "entry_of t f keys" "m (marker_of t f keys) \<noteq> None"
  shows "(\<forall>j \<in> set (rsh_indexes (tb_roots t ! i)).
            row_present m (rn_root (nb ! i)) (tb_indexes t ! j) (frame_state t m (specs ! f) f keys (dom m) True))
     \<longleftrightarrow> rows_present m (sp_roots p ! i) (nb ! i) keys"
proof -
  let ?s = "sp_roots p ! i" and ?r = "nb ! i" and ?fr = "frame_state t m (specs ! f) f keys (dom m) True"
  have rm: "rsh_number (tb_roots t ! i) = rn_root ?r" "f < length (tb_families t)" "specs ! f = root_spec ?s ?r" "fam_root (tb_families t ! f) = i"
    "set (rsh_indexes (tb_roots t ! i)) = {j. j < length (tb_indexes t) \<and> unat (ish_root (tb_indexes t ! j)) = i}"
    using assms(2-4) by (simp_all add: tables_of_def root_models_def Let_def)
  have wf: "tables_wf t specs" using assms(2) by (simp add: tables_of_def)
  have fit: "keys_fit (ss_key ?s) keys"
    using assms(5) tables_wf_family(1) [OF wf rm(2)] rm(3) by (simp add: entry_of_def entry_keys_def family_models_def root_spec_def)
  have present: "m (marker_key (rn_root ?r) keys) \<noteq> None"
    using assms(6) tables_wf_family(5) [OF wf rm(2)] rm(3) by (simp add: marker_of_def root_spec_def)
  have row: "row_present m (rn_root ?r) (tb_indexes t ! j) ?fr \<longleftrightarrow>
      (\<forall>row. entry_row m (rn_root ?r) (ss_key ?s) (fsp_fields (root_spec ?s ?r)) ix keys = Some row \<longrightarrow>
         m (index_cell_key (rn_root ?r) (ix_id ix) row) = Some (index_cell_value keys))"
    if "j \<in> set (rsh_indexes (tb_roots t ! i))" "index_models i ?s ?r ix (tb_indexes t ! j)" for j ix
  proof -
    have "indexed_family t f" using that(1) rm(4) assms(4) by (auto simp: indexed_family_def)
    then have "audit_row (tb_indexes t ! j) ?fr = entry_row m (rn_root ?r) (ss_key ?s) (fsp_fields (root_spec ?s ?r)) ix keys"
      using audit_row_state [OF that(2), of t f m "specs ! f" keys True] fit present rm(3)
      by (simp add: entry_row_def spec_marker_def root_spec_def)
    then show ?thesis using that(2) by (auto simp: row_present_def index_models_def split: option.splits)
  qed
  show ?thesis
  proof
    assume a: "\<forall>j \<in> set (rsh_indexes (tb_roots t ! i)). row_present m (rn_root ?r) (tb_indexes t ! j) ?fr"
    show "rows_present m ?s ?r keys" unfolding rows_present_def
    proof
      fix ix assume "ix \<in> set (ss_indexes ?s)"
      then obtain shape where shape: "shape \<in> set (tb_indexes t)" "index_models i ?s ?r ix shape"
        using declared_shape [OF assms(2,3)] by blast
      then obtain j where j: "j < length (tb_indexes t)" "tb_indexes t ! j = shape" by (auto simp: in_set_conv_nth)
      have "unat (ish_root shape) = i" by (rule index_shape_root [OF assms(1,3) shape(2)])
      then have "j \<in> set (rsh_indexes (tb_roots t ! i))" using rm(5) j by simp
      then show "\<forall>row. entry_row m (rn_root ?r) (ss_key ?s) (fsp_fields (root_spec ?s ?r)) ix keys = Some row \<longrightarrow>
         m (index_cell_key (rn_root ?r) (ix_id ix) row) = Some (index_cell_value keys)" using a row shape(2) j(2) by blast
    qed
  next
    assume a: "rows_present m ?s ?r keys"
    show "\<forall>j \<in> set (rsh_indexes (tb_roots t ! i)). row_present m (rn_root ?r) (tb_indexes t ! j) ?fr"
    proof
      fix j assume j: "j \<in> set (rsh_indexes (tb_roots t ! i))"
      then have "tb_indexes t ! j \<in> set (tb_indexes t)" "unat (ish_root (tb_indexes t ! j)) = i" using rm(5) by auto
      then obtain ix where "ix \<in> set (ss_indexes ?s)" "index_models i ?s ?r ix (tb_indexes t ! j)" using assms(2) by (auto simp: tables_of_def)
      then show "row_present m (rn_root ?r) (tb_indexes t ! j) ?fr" using row [OF j] a unfolding rows_present_def by blast
    qed
  qed
qed

lemma all_closed_spec:
  assumes "numbered p nb" "tables_of p nb t specs"
  shows "all_closed t specs m \<longleftrightarrow>
     (\<forall>spec \<in> set (declared p nb). \<forall>keys. spec_keys spec keys \<longrightarrow> m (spec_marker spec keys) \<noteq> None \<longrightarrow> required_present m spec (spec_marker spec keys))
     \<and> (\<forall>i < length nb. \<forall>keys. spec_keys (root_spec (sp_roots p ! i) (nb ! i)) keys \<longrightarrow>
          m (spec_marker (root_spec (sp_roots p ! i) (nb ! i)) keys) \<noteq> None \<longrightarrow> rows_present m (sp_roots p ! i) (nb ! i) keys)"
proof -
  have wf: "tables_wf t specs" using assms(2) by (simp add: tables_of_def)
  have len: "length specs = length (tb_families t)" using wf by (auto simp: tables_wf_def dest: list_all2_lengthD)
  have e: "entry_of t i keys \<longleftrightarrow> i < length (tb_families t) \<and> spec_keys (specs ! i) keys" for i keys
    using tables_wf_family(1) [OF wf, of i] by (auto simp: entry_of_def entry_keys_def spec_keys_def family_models_def)
  have mk: "marker_of t i keys = spec_marker (specs ! i) keys" if "i < length (tb_families t)" for i keys
    using that tables_wf_family(5) [OF wf, of i] by (simp add: marker_of_def spec_marker_def)
  have root: "rsh_family (tb_roots t ! i) < length (tb_families t) \<and> specs ! rsh_family (tb_roots t ! i) = root_spec (sp_roots p ! i) (nb ! i)
      \<and> fam_root (tb_families t ! rsh_family (tb_roots t ! i)) = i \<and> rsh_number (tb_roots t ! i) = rn_root (nb ! i)" if "i < length nb" for i
    using assms(2) that by (simp add: tables_of_def root_models_def Let_def)
  have roots: "fam_root (tb_families t ! f) < length nb" if "f < length (tb_families t)" for f
    using tables_wf_family(4) [OF wf that] assms(2) by (simp add: tables_of_def)
  have closed: "entry_closed t specs m f keys \<longleftrightarrow> required_present m (specs ! f) (marker_of t f keys)
      \<and> (f = rsh_family (tb_roots t ! fam_root (tb_families t ! f)) \<longrightarrow>
           rows_present m (sp_roots p ! fam_root (tb_families t ! f)) (nb ! fam_root (tb_families t ! f)) keys)"
    if "entry_of t f keys" "m (marker_of t f keys) \<noteq> None" for f keys
  proof -
    have f: "f < length (tb_families t)" using that(1) by (simp add: entry_of_def)
    show ?thesis
      using frame_complete_iff [OF tables_wf_family(1) [OF wf f], of m keys True] entry_closed_root [OF assms roots [OF f], of f keys m] that
        root [OF roots [OF f]] mk [OF f]
      by (auto simp: entry_closed_def)
  qed
  show ?thesis
  proof (intro iffI conjI ballI allI impI)
    fix spec keys assume a: "all_closed t specs m" "spec \<in> set (declared p nb)" "spec_keys spec keys" "m (spec_marker spec keys) \<noteq> None"
    have "spec \<in> set specs" using a(2) assms(2) by (simp add: tables_of_def)
    then obtain i where "i < length (tb_families t)" "spec = specs ! i" using len by (auto simp: in_set_conv_nth)
    then show "required_present m spec (spec_marker spec keys)"
      using a closed [of i keys] e [of i keys] mk [of i keys] by (auto simp: all_closed_def)
  next
    fix i keys assume a: "all_closed t specs m" "i < length nb" "spec_keys (root_spec (sp_roots p ! i) (nb ! i)) keys"
      "m (spec_marker (root_spec (sp_roots p ! i) (nb ! i)) keys) \<noteq> None"
    let ?f = "rsh_family (tb_roots t ! i)"
    have "entry_of t ?f keys" "m (marker_of t ?f keys) \<noteq> None" using root [OF a(2)] a(3,4) e mk by auto
    then show "rows_present m (sp_roots p ! i) (nb ! i) keys" using closed [of ?f keys] a(1) root [OF a(2)] by (auto simp: all_closed_def)
  next
    assume a: "(\<forall>spec \<in> set (declared p nb). \<forall>keys. spec_keys spec keys \<longrightarrow> m (spec_marker spec keys) \<noteq> None \<longrightarrow> required_present m spec (spec_marker spec keys))
     \<and> (\<forall>i < length nb. \<forall>keys. spec_keys (root_spec (sp_roots p ! i) (nb ! i)) keys \<longrightarrow>
          m (spec_marker (root_spec (sp_roots p ! i) (nb ! i)) keys) \<noteq> None \<longrightarrow> rows_present m (sp_roots p ! i) (nb ! i) keys)"
    show "all_closed t specs m" unfolding all_closed_def
    proof (intro allI impI)
      fix f keys assume b: "entry_of t f keys" "m (marker_of t f keys) \<noteq> None"
      then have f: "f < length (tb_families t)" "spec_keys (specs ! f) keys" using e by auto
      have "specs ! f \<in> set (declared p nb)" using assms(2) f(1) len by (auto simp: tables_of_def)
      then show "entry_closed t specs m f keys"
        using a b closed [OF b] f mk [OF f(1)] root [OF roots [OF f(1)]] roots [OF f(1)] by auto
    qed
  qed
qed

lemma declared_wf:
  assumes "tables_of p nb t specs" "spec \<in> set (declared p nb)"
  shows "target_wf (AtEntry (fsp_fields spec) (fsp_groups spec))"
proof -
  have l: "list_all2 family_models (tb_families t) specs" "spec \<in> set specs" using assms by (simp_all add: tables_of_def tables_wf_def)
  then obtain i where "i < length specs" "spec = specs ! i" by (auto simp: in_set_conv_nth)
  then have "family_models (tb_families t ! i) spec" using list_all2_nthD2 [OF l(1)] by simp
  then show ?thesis by (simp add: family_models_def)
qed

text \<open>A row cell is good exactly when it is the row of the entry it names.\<close>

lemma row_cell_iff:
  assumes "numbered p nb" "tables_of p nb t specs" "i < length nb" "ix \<in> set (ss_indexes (sp_roots p ! i))"
    "\<And>source. m (marker_key (rn_root (nb ! i)) source) \<noteq> None \<Longrightarrow>
       leaves_decode m (root_spec (sp_roots p ! i) (nb ! i)) (marker_key (rn_root (nb ! i)) source)"
  shows "(\<exists>shape \<in> set (tb_indexes t). prefix (ish_prefix shape) (index_cell_key (rn_root (nb ! i)) (ix_id ix) vals)
            \<and> index_fine t m shape (index_cell_key (rn_root (nb ! i)) (ix_id ix) vals) v)
     \<longleftrightarrow> index_vals (sp_roots p ! i) ix vals \<and> (\<exists>source. list_all key_wf source \<and> v = index_cell_value source
            \<and> entry_row m (rn_root (nb ! i)) (ss_key (sp_roots p ! i)) (fsp_fields (root_spec (sp_roots p ! i) (nb ! i))) ix source = Some vals)"
proof -
  let ?s = "sp_roots p ! i" and ?r = "nb ! i"
  let ?k = "index_cell_key (rn_root ?r) (ix_id ix) vals"
  note np = numbered_pairs [OF assms(1)]
  have wf: "tables_wf t specs" using assms(2) by (simp add: tables_of_def)
  have pair: "(?s, ?r) \<in> set (zip (sp_roots p) nb)" using assms(3) np(1) by (force simp: in_set_zip)
  then have ok: "schema_ok ?s" "root_mirrors ?s ?r" "length (ix_id ix) = 16" using np(2) assms(4) by auto
  have rm: "root_models t specs i ?s ?r" using assms(2,3) by (simp add: tables_of_def)
  then have fam: "family_models (tb_families t ! rsh_family (tb_roots t ! i)) (root_spec ?s ?r)"
    using tables_wf_family(1) [OF wf, of "rsh_family (tb_roots t ! i)"] by (simp add: root_models_def Let_def)
  obtain shape where shape: "shape \<in> set (tb_indexes t)" "index_models i ?s ?r ix shape" using declared_shape [OF assms(2-4)] by blast
  have pre: "ish_prefix shape @ encode_key_tuple ws = index_cell_key (rn_root ?r) (ix_id ix) ws" for ws
    using shape(2) by (simp add: index_models_def index_cell_layout)
  then have under: "prefix (ish_prefix shape) ?k" by (metis prefixI)
  have only: "shape' = shape" if "shape' \<in> set (tb_indexes t)" "prefix (ish_prefix shape') ?k" for shape'
    using tables_wf_same_index [OF wf] that shape(1) under by (metis in_set_conv_nth)
  have key: "?k = ish_prefix shape @ encode_key_tuple ws \<longleftrightarrow> ws = vals" for ws
    unfolding pre using index_cell_inject [OF ok(3,3)] by metis
  have kinds: "index_vals ?s ix vals \<longleftrightarrow> keys_fit (map snd (ish_components shape)) vals \<and> list_all key_wf vals"
    using shape(2) by (simp add: index_vals_def index_models_def)
  have root: "unat (ish_root shape) = i" by (rule index_shape_root [OF assms(1,3) shape(2)])
  have "index_fine t m shape ?k v \<longleftrightarrow> keys_fit (map snd (ish_components shape)) vals \<and> list_all key_wf vals
      \<and> (\<exists>source. v = index_cell_value source \<and> source_fine t m shape vals source)"
    unfolding index_fine_def key by blast
  then show ?thesis
    using only shape(1) under kinds source_fine_row [OF rm ok(2) fam root ok(1) assms(4) shape(2) _ assms(5)] by blast
qed

lemma entry_not_elsewhere:
  assumes "spec_keys spec keys" "prefix (spec_marker spec keys) k"
  shows "k \<noteq> index_cell_key r i vals" "k \<noteq> meta_key WITNESS"
  using assms(2) by (auto simp: prefix_def spec_marker_def marker_key_layout index_cell_layout meta_key_def layout_tags)

text \<open>Under a declared marker only the cells of that node are good.\<close>

lemma good_under_marker:
  assumes "numbered p nb" "tables_of p nb t specs" "spec \<in> set (declared p nb)" "spec_keys spec keys" "prefix (spec_marker spec keys) k"
  shows "cell_good t m k v \<longleftrightarrow> entry_cell m spec (spec_marker spec keys) k v"
proof -
  have "\<not> (\<exists>shape \<in> set (tb_indexes t). prefix (ish_prefix shape) k \<and> index_fine t m shape k v)"
  proof
    assume "\<exists>shape \<in> set (tb_indexes t). prefix (ish_prefix shape) k \<and> index_fine t m shape k v"
    then obtain shape where shape: "shape \<in> set (tb_indexes t)" "prefix (ish_prefix shape) k" by blast
    then have "prefix [INDEX_FAMILY] (ish_prefix shape)" using assms(2) by (simp add: tables_of_def tables_wf_def)
    then show False using shape(2) assms(5) by (auto simp: prefix_def spec_marker_def marker_key_layout layout_tags)
  qed
  moreover have "spec' = spec \<and> keys' = keys" if "spec' \<in> set (declared p nb)" "entry_cell m spec' (spec_marker spec' keys') k v" for spec' keys'
    using spec_marker_inject [OF assms(1) that(1) assms(3) _ assms(5)] that(2) by (auto simp: entry_cell_def)
  ultimately show ?thesis
    using entry_not_elsewhere [OF assms(4,5)] assms(3,4) unfolding cell_good_spec [OF assms(2)] by blast
qed

lemma sound_leaves_decode:
  assumes "tables_of p nb t specs" "spec \<in> set (declared p nb)" "sound_node m stem (fsp_fields spec) (fsp_groups spec)" "m stem \<noteq> None"
  shows "leaves_decode m spec stem"
proof -
  note wf = declared_wf [OF assms(1,2)]
  have ld: "leaves_declared m spec stem" using assms(3,4) unfolding sound_node_iff [OF wf] by (auto split: if_splits)
  show ?thesis unfolding leaves_decode_def
  proof (intro ballI allI impI)
    fix f v assume f: "f \<in> set (fsp_fields spec)" "m (stem_field_leaf stem (rf_number f)) = Some v"
    let ?k = "stem_field_leaf stem (rf_number f)"
    have lf: "leaf_of spec stem ?k f" using f(1) by (simp add: leaf_of_def)
    moreover have "prefix stem ?k" "?k \<noteq> stem" by (simp_all add: field_leaf_layout)
    ultimately show "decode_domain v (rf_shape f) \<noteq> None"
      using ld f(2) leaf_of_unique [OF wf lf] unfolding leaves_declared_def by blast
  qed
qed

text \<open>Nodes are valid exactly when their cells are good and their required leaves present.\<close>

lemma node_valid_iff:
  assumes "numbered p nb" "tables_of p nb t specs" "spec \<in> set (declared p nb)" "spec_keys spec keys"
  shows "node_valid m spec keys \<longleftrightarrow>
     (\<forall>k v. m k = Some v \<longrightarrow> prefix (spec_marker spec keys) k \<longrightarrow> cell_good t m k v)
     \<and> (m (spec_marker spec keys) \<noteq> None \<longrightarrow> required_present m spec (spec_marker spec keys))"
proof -
  let ?stem = "spec_marker spec keys"
  note good = good_under_marker [OF assms]
  show ?thesis
  proof (cases "m ?stem")
    case None
    have "(\<forall>k v. m k = Some v \<longrightarrow> prefix ?stem k \<longrightarrow> cell_good t m k v) \<longleftrightarrow> (\<forall>k. prefix ?stem k \<longrightarrow> m k = None)"
      using good None by (auto simp: entry_cell_def) (metis option.exhaust option.simps(3))
    then show ?thesis using None by (simp add: node_valid_def sound_node_iff [OF declared_wf [OF assms(2,3)]])
  next
    case (Some w)
    have "(\<forall>k v. m k = Some v \<longrightarrow> prefix ?stem k \<longrightarrow> cell_good t m k v) \<longleftrightarrow> w = MARKER_VALUE \<and> leaves_declared m spec ?stem"
    proof
      assume a: "\<forall>k v. m k = Some v \<longrightarrow> prefix ?stem k \<longrightarrow> cell_good t m k v"
      then have "w = MARKER_VALUE" using Some good [of ?stem m w] by (auto simp: entry_cell_def)
      then show "w = MARKER_VALUE \<and> leaves_declared m spec ?stem" using a good by (fastforce simp: leaves_declared_def entry_cell_def)
    next
      assume a: "w = MARKER_VALUE \<and> leaves_declared m spec ?stem"
      have "cell_good t m k v" if "m k = Some v" "prefix ?stem k" for k v
        unfolding good [OF that(2)] entry_cell_def using Some a that by (cases "k = ?stem") (auto simp: leaves_declared_def)
      then show "\<forall>k v. m k = Some v \<longrightarrow> prefix ?stem k \<longrightarrow> cell_good t m k v" by blast
    qed
    then show ?thesis using Some by (auto simp: node_valid_def sound_node_iff [OF declared_wf [OF assms(2,3)]])
  qed
qed

lemma index_vals_wf:
  assumes "numbered p nb" "tables_of p nb t specs" "i < length nb" "ix \<in> set (ss_indexes (sp_roots p ! i))"
    "cell_good t m (index_cell_key (rn_root (nb ! i)) (ix_id ix) vals) v"
  shows "\<exists>shape \<in> set (tb_indexes t). prefix (ish_prefix shape) (index_cell_key (rn_root (nb ! i)) (ix_id ix) vals)
            \<and> index_fine t m shape (index_cell_key (rn_root (nb ! i)) (ix_id ix) vals) v"
proof -
  let ?k = "index_cell_key (rn_root (nb ! i)) (ix_id ix) vals"
  have "\<not> (\<exists>spec \<in> set (declared p nb). \<exists>keys. spec_keys spec keys \<and> entry_cell m spec (spec_marker spec keys) ?k v)"
    using entry_not_elsewhere(1) by (metis entry_cell_def prefix_order.refl)
  moreover have "?k \<noteq> meta_key WITNESS" by (simp add: index_cell_layout meta_key_def layout_tags)
  ultimately show ?thesis using assms(5) unfolding cell_good_spec [OF assms(2)] by blast
qed

lemma root_keys_wf:
  assumes "numbered p nb" "i < length nb" "\<And>k v. m k = Some v \<Longrightarrow> placed_cell p nb k v" "m (marker_key (rn_root (nb ! i)) keys) \<noteq> None"
  shows "spec_keys (root_spec (sp_roots p ! i) (nb ! i)) keys"
proof -
  let ?spec = "root_spec (sp_roots p ! i) (nb ! i)"
  have mk: "marker_key (rn_root (nb ! i)) keys = spec_marker ?spec keys" by (simp add: spec_marker_def root_spec_def)
  have d: "?spec \<in> set (declared p nb)" by (rule root_spec_declared [OF numbered_pairs(1) [OF assms(1)] assms(2)])
  obtain v where "m (spec_marker ?spec keys) = Some v" using assms(4) mk by auto
  then have "placed_cell p nb (spec_marker ?spec keys) v" by (rule assms(3))
  then obtain spec' keys' where "spec' \<in> set (declared p nb)" "spec_keys spec' keys'" "prefix (spec_marker spec' keys') (spec_marker ?spec keys)"
    by (auto simp: placed_cell_def spec_marker_def marker_key_layout index_cell_layout meta_key_def layout_tags)
  then show ?thesis using spec_marker_inject [OF assms(1) _ d, of spec' keys' _ keys] by (metis prefix_order.refl)
qed

lemma good_cell_placed:
  assumes "numbered p nb" "tables_of p nb t specs" "cell_good t m k v"
  shows "placed_cell p nb k v"
proof -
  consider spec keys where "spec \<in> set (declared p nb)" "spec_keys spec keys" "entry_cell m spec (spec_marker spec keys) k v"
    | shape where "shape \<in> set (tb_indexes t)" "index_fine t m shape k v" | "k = meta_key WITNESS" "witness_well_formed v"
    using assms(3) unfolding cell_good_spec [OF assms(2)] by blast
  then show ?thesis
  proof cases
    case (1 spec keys)
    then show ?thesis unfolding placed_cell_def entry_cell_def by blast
  next
    case (2 shape)
    then obtain i ix where i: "i < length nb" "ix \<in> set (ss_indexes (sp_roots p ! i))" "index_models i (sp_roots p ! i) (nb ! i) ix shape"
      using assms(2) unfolding tables_of_def by blast
    from 2(2) obtain vals where "k = ish_prefix shape @ encode_key_tuple vals" "keys_fit (map snd (ish_components shape)) vals" "list_all key_wf vals"
      by (auto simp: index_fine_def)
    then have "k = index_cell_key (rn_root (nb ! i)) (ix_id ix) vals" "index_vals (sp_roots p ! i) ix vals"
      using i(3) by (simp_all add: index_models_def index_vals_def index_cell_layout)
    then show ?thesis unfolding placed_cell_def using i(1,2) by blast
  qed (simp add: placed_cell_def)
qed

lemma placed_row:
  assumes "numbered p nb" "i < length nb" "ix \<in> set (ss_indexes (sp_roots p ! i))" "placed_cell p nb (index_cell_key (rn_root (nb ! i)) (ix_id ix) vals) v"
  shows "index_vals (sp_roots p ! i) ix vals"
proof -
  note np = numbered_pairs [OF assms(1)]
  let ?k = "index_cell_key (rn_root (nb ! i)) (ix_id ix) vals"
  have "\<not> (\<exists>spec \<in> set (declared p nb). \<exists>keys. spec_keys spec keys \<and> prefix (spec_marker spec keys) ?k)"
    using entry_not_elsewhere(1) by metis
  moreover have "?k \<noteq> meta_key WITNESS" by (simp add: index_cell_layout meta_key_def layout_tags)
  ultimately obtain j jx ws where j: "j < length nb" "jx \<in> set (ss_indexes (sp_roots p ! j))" "index_vals (sp_roots p ! j) jx ws"
    "?k = index_cell_key (rn_root (nb ! j)) (ix_id jx) ws" using assms(4) unfolding placed_cell_def by blast
  have pairs: "(sp_roots p ! i, nb ! i) \<in> set (zip (sp_roots p) nb)" "(sp_roots p ! j, nb ! j) \<in> set (zip (sp_roots p) nb)"
    using assms(2) j(1) np(1) by (force simp: in_set_zip)+
  have "length (ix_id ix) = 16" "length (ix_id jx) = 16" using bspec [OF np(2) pairs(1)] bspec [OF np(2) pairs(2)] assms(3) j(2) by auto
  then have eq: "rn_root (nb ! i) = rn_root (nb ! j)" "ix_id ix = ix_id jx" "vals = ws" using j(4) index_cell_inject by metis+
  have "map (rn_root \<circ> snd) (zip (sp_roots p) nb) = map rn_root nb" using np(1) by (simp flip: map_map)
  then have "i = j" using eq(1) np(3) assms(2) j(1) by (simp add: distinct_conv_nth) metis
  moreover have "ix = jx"
    using eq(2) assms(3) j(2) \<open>i = j\<close> bspec [OF np(2) pairs(1)] by (auto simp: distinct_map inj_on_def)
  ultimately show ?thesis using j(3) eq(3) by simp
qed

text \<open>Rows and entries agree exactly when the row cells are good and the entries have their rows.\<close>

lemma indexes_valid_iff:
  assumes "numbered p nb" "tables_of p nb t specs" "i < length nb" "\<And>k v. m k = Some v \<Longrightarrow> placed_cell p nb k v"
    "\<And>keys. spec_keys (root_spec (sp_roots p ! i) (nb ! i)) keys \<Longrightarrow> node_valid m (root_spec (sp_roots p ! i) (nb ! i)) keys"
  shows "indexes_valid m (sp_roots p ! i) (nb ! i) \<longleftrightarrow>
     (\<forall>ix \<in> set (ss_indexes (sp_roots p ! i)). \<forall>vals v. m (index_cell_key (rn_root (nb ! i)) (ix_id ix) vals) = Some v \<longrightarrow>
        cell_good t m (index_cell_key (rn_root (nb ! i)) (ix_id ix) vals) v)
     \<and> (\<forall>keys. spec_keys (root_spec (sp_roots p ! i) (nb ! i)) keys \<longrightarrow>
          m (spec_marker (root_spec (sp_roots p ! i) (nb ! i)) keys) \<noteq> None \<longrightarrow> rows_present m (sp_roots p ! i) (nb ! i) keys)"
proof -
  let ?s = "sp_roots p ! i" and ?r = "nb ! i" and ?spec = "root_spec (sp_roots p ! i) (nb ! i)"
  let ?cell = "\<lambda>ix vals. index_cell_key (rn_root ?r) (ix_id ix) vals"
  let ?row = "\<lambda>ix. entry_row m (rn_root ?r) (ss_key ?s) (fsp_fields ?spec) ix"
  have mk: "marker_key (rn_root ?r) keys = spec_marker ?spec keys" for keys by (simp add: spec_marker_def root_spec_def)
  have keys: "spec_keys ?spec keys" if "m (marker_key (rn_root ?r) keys) \<noteq> None" for keys
    using root_keys_wf [OF assms(1,3,4)] that by blast
  have dec: "leaves_decode m ?spec (marker_key (rn_root ?r) source)" if "m (marker_key (rn_root ?r) source) \<noteq> None" for source
    using sound_leaves_decode [OF assms(2) root_spec_declared [OF numbered_pairs(1) [OF assms(1)] assms(3)]] assms(5) [OF keys [OF that]] that
    unfolding mk node_valid_def by blast
  have from_row: "spec_keys ?spec ks \<and> m (spec_marker ?spec ks) \<noteq> None" if "?row ix ks = Some vals" for ix ks vals
    using that keys [of ks] mk [of ks] by (auto simp: entry_row_def split: if_splits)
  have good: "cell_good t m (?cell ix vals) v \<longleftrightarrow> index_vals ?s ix vals \<and> (\<exists>source. v = index_cell_value source \<and> ?row ix source = Some vals)"
    if ix: "ix \<in> set (ss_indexes ?s)" for ix vals v
  proof -
    have "cell_good t m (?cell ix vals) v \<longleftrightarrow> (\<exists>shape \<in> set (tb_indexes t). prefix (ish_prefix shape) (?cell ix vals) \<and> index_fine t m shape (?cell ix vals) v)"
      using index_vals_wf [OF assms(1-3) ix] cell_good_spec [OF assms(2)] by blast
    also have "\<dots> \<longleftrightarrow> index_vals ?s ix vals \<and> (\<exists>source. list_all key_wf source \<and> v = index_cell_value source \<and> ?row ix source = Some vals)"
      by (rule row_cell_iff [OF assms(1-3) ix dec])
    finally show ?thesis using from_row unfolding spec_keys_def by blast
  qed
  have vals: "index_vals ?s ix vals" if "ix \<in> set (ss_indexes ?s)" "m (?cell ix vals) = Some v" for ix vals v
    by (rule placed_row [OF assms(1,3) that(1) assms(4) [OF that(2)]])
  have "indexes_valid m ?s ?r \<longleftrightarrow>
      (\<forall>ix \<in> set (ss_indexes ?s). \<forall>vals v. m (?cell ix vals) = Some v \<longleftrightarrow> (\<exists>ks. v = index_cell_value ks \<and> ?row ix ks = Some vals))"
    by (simp add: indexes_valid_def coherent_def rows_match_def index_rows_def)
  also have "\<dots> \<longleftrightarrow> (\<forall>ix \<in> set (ss_indexes ?s). \<forall>vals v. m (?cell ix vals) = Some v \<longrightarrow> cell_good t m (?cell ix vals) v)
      \<and> (\<forall>keys. spec_keys ?spec keys \<longrightarrow> m (spec_marker ?spec keys) \<noteq> None \<longrightarrow> rows_present m ?s ?r keys)"
    using good vals from_row unfolding rows_present_def by blast
  finally show ?thesis .
qed

text \<open>The audit's conditions hold exactly of the valid stores.\<close>

lemma audit_conditions_valid:
  assumes "numbered p nb" "tables_of p nb t specs"
  shows "(\<forall>k v. m k = Some v \<longrightarrow> cell_good t m k v) \<and> all_closed t specs m \<longleftrightarrow> store_valid p nb m"
proof
  assume a: "(\<forall>k v. m k = Some v \<longrightarrow> cell_good t m k v) \<and> all_closed t specs m"
  have placed: "\<And>k v. m k = Some v \<Longrightarrow> placed_cell p nb k v" using a good_cell_placed [OF assms] by blast
  note closed = conjunct2 [OF a, unfolded all_closed_spec [OF assms]]
  have nodes: "node_valid m spec keys" if "spec \<in> set (declared p nb)" "spec_keys spec keys" for spec keys
    unfolding node_valid_iff [OF assms that] using a closed that by blast
  have "indexes_valid m (sp_roots p ! i) (nb ! i)" if i: "i < length nb" for i
  proof -
    note d = root_spec_declared [OF numbered_pairs(1) [OF assms(1)] i]
    show ?thesis using indexes_valid_iff [OF assms i placed nodes [OF d]] a closed i by blast
  qed
  with placed nodes show "store_valid p nb m" by (simp add: store_valid_def)
next
  assume v: "store_valid p nb m"
  then have placed: "\<And>k v. m k = Some v \<Longrightarrow> placed_cell p nb k v"
    and nodes: "\<And>spec keys. spec \<in> set (declared p nb) \<Longrightarrow> spec_keys spec keys \<Longrightarrow> node_valid m spec keys"
    and ixs: "\<And>i. i < length nb \<Longrightarrow> indexes_valid m (sp_roots p ! i) (nb ! i)" by (auto simp: store_valid_def)
  have rows: "(\<forall>ix \<in> set (ss_indexes (sp_roots p ! i)). \<forall>vals v. m (index_cell_key (rn_root (nb ! i)) (ix_id ix) vals) = Some v \<longrightarrow>
        cell_good t m (index_cell_key (rn_root (nb ! i)) (ix_id ix) vals) v)
     \<and> (\<forall>keys. spec_keys (root_spec (sp_roots p ! i) (nb ! i)) keys \<longrightarrow>
          m (spec_marker (root_spec (sp_roots p ! i) (nb ! i)) keys) \<noteq> None \<longrightarrow> rows_present m (sp_roots p ! i) (nb ! i) keys)"
    if i: "i < length nb" for i
    using ixs [OF i] indexes_valid_iff [OF assms i placed nodes [OF root_spec_declared [OF numbered_pairs(1) [OF assms(1)] i]]] by blast
  have "all_closed t specs m"
    unfolding all_closed_spec [OF assms] using nodes rows node_valid_iff [OF assms] by blast
  moreover have "cell_good t m k v" if k: "m k = Some v" for k v
  proof -
    have "placed_cell p nb k v" by (rule placed [OF k])
    then consider spec keys where "spec \<in> set (declared p nb)" "spec_keys spec keys" "prefix (spec_marker spec keys) k"
      | i ix vals where "i < length nb" "ix \<in> set (ss_indexes (sp_roots p ! i))" "k = index_cell_key (rn_root (nb ! i)) (ix_id ix) vals"
      | "k = meta_key WITNESS" "witness_well_formed v" unfolding placed_cell_def by blast
    then show ?thesis
    proof cases
      case (1 spec keys)
      then show ?thesis using nodes [OF 1(1,2)] k unfolding node_valid_iff [OF assms 1(1,2)] by blast
    next
      case (2 i ix vals)
      then show ?thesis using rows [OF 2(1)] k by blast
    qed (simp add: cell_good_spec [OF assms(2)])
  qed
  ultimately show "(\<forall>k v. m k = Some v \<longrightarrow> cell_good t m k v) \<and> all_closed t specs m" by blast
qed

end
