(* ===== verification/Handle_Contract.thy ===== *)
theory Handle_Contract
  imports Handle Session_Samples
begin

text \<open>
  The contract of the store handle: what opens a session, what a commit leaves in the engine, and what
  the recovery fact of an indeterminate commit proves about a reopened store. The locale
  \<open>lawful_byte_engine\<close> states what the handle relies on of an engine; the memory engine meets it.
\<close>

section \<open>The engine contract\<close>

text \<open>
  \<open>gcells\<close> reads the ordered map of an engine, \<open>cells\<close> that of a transaction with its staged writes, and
  \<open>base\<close> the map the transaction began from. Nothing is known of the engine after an indeterminate
  commit.
\<close>

locale lawful_byte_engine = lawful_engine "be_txn B" cells ok errs
  for B :: "('g, 'v, 's) byte_engine" and cells :: "'s \<Rightarrow> (bytes \<rightharpoonup> bytes)" and ok :: "'s \<Rightarrow> bool" and errs :: "StoreError set" +
  fixes gcells :: "'g \<Rightarrow> (bytes \<rightharpoonup> bytes)" and gok :: "'g \<Rightarrow> bool" and base :: "'s \<Rightarrow> (bytes \<rightharpoonup> bytes)"
  assumes view_law: "gok g \<Longrightarrow> be_read_view B g = Inr v \<Longrightarrow> eng_get (be_view B) v k = Inr r \<Longrightarrow> r = gcells g k"
    and begin_law: "gok g \<Longrightarrow> be_begin B g = Inr t \<Longrightarrow> ok t \<and> cells t = gcells g \<and> base t = gcells g"
    and put_keeps: "ok t \<Longrightarrow> eng_put (be_txn B) k w t = (q, t') \<Longrightarrow> ok t' \<and> base t' = base t"
    and remove_keeps: "ok t \<Longrightarrow> eng_remove (be_txn B) k t = (q, t') \<Longrightarrow> ok t' \<and> base t' = base t"
    and commit_confirmed: "ok t \<Longrightarrow> be_commit B t = (Confirmed, g) \<Longrightarrow> gok g \<and> gcells g = cells t"
    and commit_aborted: "ok t \<Longrightarrow> be_commit B t = (CommitAborted, g) \<Longrightarrow> gok g \<and> gcells g = base t"
    and drop_law: "ok t \<Longrightarrow> gok (be_drop B t) \<and> gcells (be_drop B t) = base t"

section \<open>What every mutation keeps\<close>

text \<open>An operation keeps a fact of the live transaction, and a consumed one stays consumed.\<close>

definition keeps :: "('s \<Rightarrow> bool) \<Rightarrow> ('s, 'a) txn_op \<Rightarrow> bool" where
  "keeps P oper \<longleftrightarrow>
     (\<forall>s. P s \<longrightarrow> (\<exists>r s'. oper (Some s) = (r, Some s') \<and> P s')) \<and> (\<exists>r. oper None = (r, None))"

definition engine_keeps :: "('s \<Rightarrow> bool) \<Rightarrow> 's engine \<Rightarrow> bool" where
  "engine_keeps P E \<longleftrightarrow>
     (\<forall>s k v r s'. P s \<longrightarrow> eng_put E k v s = (r, s') \<longrightarrow> P s')
     \<and> (\<forall>s k r s'. P s \<longrightarrow> eng_remove E k s = (r, s') \<longrightarrow> P s')"

lemma keeps_of_kernel: "keeps P (of_kernel r)"
  by (simp add: keeps_def of_kernel_def)

lemma keeps_read: "keeps P (txn_read f)"
  by (simp add: keeps_def txn_read_def)

lemma keeps_obey:
  assumes "keeps P m" "\<And>a. keeps P (f a)"
  shows "keeps P (obey m f)"
  unfolding keeps_def
proof (intro conjI allI impI)
  fix s assume "P s"
  with assms(1) obtain r s' where m: "m (Some s) = (r, Some s')" "P s'" unfolding keeps_def by blast
  show "\<exists>r s'. obey m f (Some s) = (r, Some s') \<and> P s'"
  proof (cases r)
    case (Inr a)
    then show ?thesis using m assms(2) [of a] unfolding keeps_def obey_def by auto
  qed (use m in \<open>simp add: obey_def\<close>)
next
  obtain r where m: "m None = (r, None)" using assms(1) unfolding keeps_def by blast
  show "\<exists>r. obey m f None = (r, None)"
  proof (cases r)
    case (Inr a)
    then show ?thesis using m assms(2) [of a] unfolding keeps_def obey_def by auto
  qed (use m in \<open>simp add: obey_def\<close>)
qed

lemma keeps_put:
  assumes "engine_keeps P E"
  shows "keeps P (txn_put E k v)"
proof -
  have "P (snd (eng_put E k v s))" if "P s" for s
    using assms that unfolding engine_keeps_def by (metis prod.collapse)
  then show ?thesis by (simp add: keeps_def txn_put_def split_def)
qed

lemma keeps_remove:
  assumes "engine_keeps P E"
  shows "keeps P (txn_remove E k)"
proof -
  have "P (snd (eng_remove E k s))" if "P s" for s
    using assms that unfolding engine_keeps_def by (metis prod.collapse)
  then show ?thesis by (simp add: keeps_def txn_remove_def split_def)
qed

lemmas keeps_basic = keeps_of_kernel keeps_read keeps_put keeps_remove

lemma keeps_apply_writes: "engine_keeps P E \<Longrightarrow> keeps P (apply_writes E ws)"
  by (induction E ws rule: apply_writes.induct) (auto intro!: keeps_obey keeps_basic)

lemma keeps_apply_index_ops: "engine_keeps P E \<Longrightarrow> keeps P (apply_index_ops E ops)"
proof (induction ops)
  case (Cons op ops)
  then show ?case by (cases op) (auto intro!: keeps_obey keeps_basic)
qed (simp add: keeps_basic)

lemma keeps_any_present: "engine_keeps P E \<Longrightarrow> keeps P (any_present E ks)"
  by (induction ks) (auto intro!: keeps_obey keeps_basic)

lemma keeps_maintenance:
  assumes "engine_keeps P E"
  shows "keeps P (field_maintenance_before E indexes site stem)" "keeps P (maintain_field_write E site keys fm v)"
    "keeps P (maintain_indexes E indexes site keys old new)" "keeps P (old_projected E indexes site stem fs m)"
  using assms
  by (auto simp: field_maintenance_before_def maintain_field_write_def maintain_indexes_def old_projected_def
      intro!: keeps_obey keeps_basic keeps_apply_index_ops split: option.splits)

lemmas keeps_plans = keeps_basic keeps_apply_writes keeps_maintenance keeps_any_present

lemma keeps_entry_mutations:
  assumes "engine_keeps P E"
  shows "keeps P (create_entry E indexes site keys entry)" "keeps P (replace_entry E indexes site keys entry)"
    "keeps P (erase_entry E indexes site keys)"
  using assms
  by (auto simp: create_entry_def replace_entry_def erase_entry_def intro!: keeps_obey keeps_plans split: Presence.splits)

lemma keeps_leaf_mutations:
  assumes "engine_keeps P E"
  shows "keeps P (set_field E indexes site keys v)" "keeps P (erase_field E indexes site keys)"
    "keeps P (replace_group E site keys w)" "keeps P (erase_group E site keys)"
  using assms
  by (auto simp: set_field_def erase_field_def replace_group_def erase_group_def intro!: keeps_obey keeps_plans)

lemmas keeps_mutations = keeps_entry_mutations keeps_leaf_mutations

section \<open>The life of a transaction session\<close>

text \<open>Any call of a mutation, whatever its outcome, or of \<open>commit\<close>.\<close>

inductive session_use :: "('g, 'v, 's) byte_engine \<Rightarrow> ('g, 's) TxnSession \<Rightarrow> ('g, 's) TxnSession \<Rightarrow> bool"
  for B where
  use_create: "d_create_entry (txn_durable B) site keys entry ts = (r, ts') \<Longrightarrow> session_use B ts ts'"
| use_replace: "d_replace_entry (txn_durable B) site keys entry ts = (q, ts') \<Longrightarrow> session_use B ts ts'"
| use_erase: "d_erase_entry (txn_durable B) site keys ts = (e, ts') \<Longrightarrow> session_use B ts ts'"
| use_set_field: "d_set_field (txn_durable B) site keys v ts = (q, ts') \<Longrightarrow> session_use B ts ts'"
| use_erase_field: "d_erase_field (txn_durable B) site keys ts = (e, ts') \<Longrightarrow> session_use B ts ts'"
| use_replace_group: "d_replace_group (txn_durable B) site keys entry ts = (q, ts') \<Longrightarrow> session_use B ts ts'"
| use_erase_group: "d_erase_group (txn_durable B) site keys ts = (e, ts') \<Longrightarrow> session_use B ts ts'"
| use_commit: "d_commit (txn_durable B) ts = (c, ts') \<Longrightarrow> session_use B ts ts'"

text \<open>
  What holds of a session of the handle \<open>store\<close> as long as its transaction is live: the handle is as it
  was, unpoisoned, and the recovery intent is held.
\<close>

definition session_inv :: "('s \<Rightarrow> bool) \<Rightarrow> 'g DurableStore \<Rightarrow> RecoveryIntent \<Rightarrow> ('g, 's) TxnSession \<Rightarrow> bool" where
  "session_inv P store intent ts \<longleftrightarrow>
     (\<forall>t. ts_txn ts = Some t \<longrightarrow> P t \<and> ts_store ts = store \<and> ts_recovery ts = Some intent \<and> \<not> ds_poisoned store)"

lemma run_txn_keeps:
  assumes "keeps P oper" "run_txn oper ts = (r, ts')"
  shows "session_inv P store intent ts \<Longrightarrow> session_inv P store intent ts'"
    and "ts_txn ts = None \<Longrightarrow> ts' = ts"
proof -
  show "ts' = ts" if "ts_txn ts = None"
    using assms that by (cases ts) (auto simp: keeps_def run_txn_def)
  show "session_inv P store intent ts'" if "session_inv P store intent ts"
  proof (cases "ts_txn ts")
    case (Some t)
    with that have "P t" by (simp add: session_inv_def)
    with assms(1) obtain q t' where "oper (Some t) = (q, Some t')" "P t'" unfolding keeps_def by blast
    with assms(2) Some that show ?thesis by (auto simp: run_txn_def session_inv_def)
  qed (use assms in \<open>auto simp: keeps_def run_txn_def session_inv_def\<close>)
qed

lemma do_commit_consumed: "ts_txn ts = None \<Longrightarrow> do_commit B ts = (Inr SessionFinished, ts)"
  by (simp add: do_commit_def)

lemma do_commit_ends: "session_inv P store intent ts \<Longrightarrow> ts_txn (snd (do_commit B ts)) = None"
  by (auto simp: do_commit_def session_inv_def end_txn_def split: option.splits prod.splits sum.splits CommitOutcome.splits)

lemma run_txn_use:
  "keeps P oper \<Longrightarrow> run_txn oper ts = (r, ts') \<Longrightarrow>
     (session_inv P store intent ts \<longrightarrow> session_inv P store intent ts') \<and> (ts_txn ts = None \<longrightarrow> ts' = ts)"
  using run_txn_keeps [of P oper ts r ts'] by blast

lemma session_use_keeps:
  assumes "session_use B ts ts'" "engine_keeps P (be_txn B)"
  shows "(session_inv P store intent ts \<longrightarrow> session_inv P store intent ts') \<and> (ts_txn ts = None \<longrightarrow> ts' = ts)"
  using assms(1)
proof cases
  case (use_commit c)
  then have c: "do_commit B ts = (c, ts')" by (simp add: txn_durable_def)
  then show ?thesis using do_commit_ends [of P store intent ts B] do_commit_consumed [of ts B]
    by (auto simp: session_inv_def)
qed (simp_all only: txn_durable_def durable.simps, (erule run_txn_use [OF keeps_mutations(1) [OF assms(2)]]
      run_txn_use [OF keeps_mutations(2) [OF assms(2)]] run_txn_use [OF keeps_mutations(3) [OF assms(2)]]
      run_txn_use [OF keeps_mutations(4) [OF assms(2)]] run_txn_use [OF keeps_mutations(5) [OF assms(2)]]
      run_txn_use [OF keeps_mutations(6) [OF assms(2)]] run_txn_use [OF keeps_mutations(7) [OF assms(2)]])+)

lemma session_uses_keep:
  "(session_use B)\<^sup>*\<^sup>* ts ts' \<Longrightarrow> engine_keeps P (be_txn B) \<Longrightarrow> session_inv P store intent ts \<Longrightarrow> session_inv P store intent ts'"
  by (induction rule: rtranclp_induct) (use session_use_keeps in blast)+

text \<open>What an opened session starts from.\<close>

lemma txn_session_Inr:
  assumes "txn_session B grant demand store = Inr ts"
  obtains before after txn auth where
    "session_setup grant demand store = Inr auth" "read_witness B (ds_engine store) = Inr before"
    "next_witness before = Inr after" "be_begin B (ds_engine store) = Inr txn"
    "ts = \<lparr>ts_txn = Some txn, ts_store = store, ts_auth = auth,
           ts_recovery = Some \<lparr>ri_scope = ds_recovery_scope store, ri_before = before, ri_after = after\<rparr>,
           ts_indexes = map ss_indexes (sp_roots (ds_projection store))\<rparr>"
  using assms by (auto simp: txn_session_def)

lemma session_setup_Inr:
  "session_setup grant demand store = Inr auth \<longleftrightarrow>
     \<not> ds_poisoned store \<and> resolve_authority demand (ds_ceiling store) grant = Inr ()
     \<and> authorized_sites (ds_projection store) (ds_numbering store) = Inr auth"
  by (auto simp: session_setup_def check_poison_def)

section \<open>Witness generations\<close>

definition generation_cell :: "nat \<Rightarrow> bytes" where
  "generation_cell n = WITNESS_VERSION # be_bytes (word_of_nat n :: u128)"

lemma generation_of_cell:
  assumes "witness_well_formed bs"
  shows "bs = generation_cell (unat (of_be_bytes (drop 1 bs) :: u128))"
proof -
  obtain h r where bs: "bs = h # r" "length r = 16" "h = WITNESS_VERSION"
    using assms by (cases bs) (auto simp: witness_well_formed_def WITNESS_V1_BYTES_def)
  then have "be_bytes (of_be_bytes r :: u128) = r" by (simp add: be_bytes_of_be)
  with bs show ?thesis by (simp add: generation_cell_def)
qed

lemma generation_cell_well_formed [simp]: "witness_well_formed (generation_cell n)"
  by (simp add: witness_well_formed_def generation_cell_def WITNESS_V1_BYTES_def)



lemma next_witness_cell:
  assumes "n < 2 ^ 128"
  shows "next_witness (Some (generation_cell n)) =
     (if n + 1 < 2 ^ 128 then Inr (generation_cell (n + 1)) else Inl (LimitExceeded CommitWitnessGeneration))"
proof -
  have w: "(of_be_bytes (drop 1 (generation_cell n)) :: u128) = word_of_nat n"
    by (simp add: generation_cell_def of_be_be_bytes)
  have "unat (word_of_nat n :: u128) = n" using assms by (simp add: unsigned_of_nat take_bit_nat_eq_self)
  then have "checked_succ (word_of_nat n) = (if n + 1 < 2 ^ 128 then Some (word_of_nat (n + 1)) else None)"
    unfolding checked_succ_def by (simp only: of_nat_add of_nat_1)
  then show ?thesis
    by (cases "n + 1 < 2 ^ 128")
      (simp_all only: next_witness_def option.case generation_cell_well_formed if_True if_False w ok_or.simps rbind.simps,
       simp_all only: generation_cell_def)
qed

lemma next_witness_first: "next_witness None = Inr (generation_cell 0)"
  by (simp add: next_witness_def generation_cell_def)

lemma next_witness_malformed:
  "\<not> witness_well_formed bs \<Longrightarrow>
     next_witness (Some bs) = Inl (StoreCorruption ''the commit witness cell has an unknown encoding'')"
  by (simp add: next_witness_def)


section \<open>Commits of a lawful engine\<close>

context lawful_byte_engine
begin

lemma keeps_base: "engine_keeps (\<lambda>t. ok t \<and> base t = m) (be_txn B)"
  unfolding engine_keeps_def using put_keeps remove_keeps by metis

lemma read_witness_cells:
  "gok g \<Longrightarrow> read_witness B g = Inr w \<Longrightarrow> w = gcells g (meta_key WITNESS)"
  using view_law by (auto simp: read_witness_def)

lemma opened:
  assumes "gok (ds_engine store)" "txn_session B grant demand store = Inr ts0" "(session_use B)\<^sup>*\<^sup>* ts0 ts"
  obtains after where "next_witness (gcells (ds_engine store) (meta_key WITNESS)) = Inr after"
    "session_inv (\<lambda>t. ok t \<and> base t = gcells (ds_engine store)) store
       \<lparr>ri_scope = ds_recovery_scope store, ri_before = gcells (ds_engine store) (meta_key WITNESS), ri_after = after\<rparr> ts"
proof -
  from assms(2) obtain before after txn auth where o: "session_setup grant demand store = Inr auth"
    "read_witness B (ds_engine store) = Inr before" "next_witness before = Inr after" "be_begin B (ds_engine store) = Inr txn"
    "ts0 = \<lparr>ts_txn = Some txn, ts_store = store, ts_auth = auth,
           ts_recovery = Some \<lparr>ri_scope = ds_recovery_scope store, ri_before = before, ri_after = after\<rparr>,
           ts_indexes = map ss_indexes (sp_roots (ds_projection store))\<rparr>"
    by (rule txn_session_Inr)
  have b: "before = gcells (ds_engine store) (meta_key WITNESS)" using read_witness_cells assms(1) o(2) by simp
  have "session_inv (\<lambda>t. ok t \<and> base t = gcells (ds_engine store)) store
       \<lparr>ri_scope = ds_recovery_scope store, ri_before = before, ri_after = after\<rparr> ts0"
    using o begin_law [OF assms(1)] by (simp add: session_inv_def session_setup_Inr)
  then have "session_inv (\<lambda>t. ok t \<and> base t = gcells (ds_engine store)) store
       \<lparr>ri_scope = ds_recovery_scope store, ri_before = before, ri_after = after\<rparr> ts"
    by (rule session_uses_keep [OF assms(3) keeps_base])
  with o(3) b that show thesis by simp
qed

text \<open>The three outcomes of a commit at a live transaction.\<close>

lemma commit_outcome:
  assumes "session_inv (\<lambda>t. ok t \<and> base t = m) store intent ts" "ts_txn ts = Some t" "do_commit B ts = (r, ts')"
  shows "ts_txn ts' = None \<and>
     (r = Inr Committed \<and> (\<exists>g. ts_store ts' = store\<lparr>ds_engine := g\<rparr> \<and> gok g \<and> gcells g = (cells t)(meta_key WITNESS \<mapsto> ri_after intent))
      \<or> r = Inr Aborted \<and> (\<exists>g. ts_store ts' = store\<lparr>ds_engine := g\<rparr> \<and> gok g \<and> gcells g = m)
      \<or> r = Inr (Indeterminate \<lparr>cr_scope = ri_scope intent, cr_before = ri_before intent, cr_after = ri_after intent\<rparr>)
        \<and> ds_poisoned (ts_store ts'))"
proof -
  from assms(1,2) have t: "ok t" "base t = m" "ts_store ts = store" "ts_recovery ts = Some intent" "\<not> ds_poisoned store"
    by (simp_all add: session_inv_def)
  obtain q t' where put: "eng_put (be_txn B) (meta_key WITNESS) (ri_after intent) t = (q, t')" by fastforce
  have t': "ok t'" "base t' = m" using put_keeps [OF t(1) put] t(2) by simp_all
  obtain c g where commit: "be_commit B t' = (c, g)" by fastforce
  show ?thesis
  proof (cases q)
    case (Inl e)
    then show ?thesis using assms(2,3) t put t' drop_law [OF t'(1)] by (auto simp: do_commit_def end_txn_def)
  next
    case (Inr u)
    then have "cells t' = (cells t)(meta_key WITNESS \<mapsto> ri_after intent)" using put_law t(1) put by simp
    then show ?thesis
      using assms(2,3) t put Inr commit t' commit_confirmed [OF t'(1)] commit_aborted [OF t'(1)]
      by (cases c) (auto simp: do_commit_def end_txn_def)
  qed
qed

end

section \<open>The memory engine\<close>

definition engine_cells :: "MemoryEngine \<Rightarrow> (bytes \<rightharpoonup> bytes)" where
  "engine_cells g = map_of (entries g)"

definition engine_ok :: "MemoryEngine \<Rightarrow> bool" where
  "engine_ok g \<longleftrightarrow> btree_ok (entries g)"

definition base_cells :: "MemTxn \<Rightarrow> (bytes \<rightharpoonup> bytes)" where
  "base_cells t = map_of (txn_base t)"

text \<open>An engine in working order also has an ordered base to fall back to.\<close>

definition pair_ok :: "MemTxn \<Rightarrow> bool" where
  "pair_ok t \<longleftrightarrow> txn_ok t \<and> btree_ok (txn_base t)"

lemma mem_put_base: "eng_put mem_txn k v t = (q, t') \<Longrightarrow> txn_base t' = txn_base t"
  by (auto simp: mem_txn_def mem_put_def split: sum.splits)

lemma mem_put_keeps_ok: "txn_ok t \<Longrightarrow> eng_put mem_txn k v t = (q, t') \<Longrightarrow> txn_ok t'"
  by (auto simp: mem_txn_def mem_put_def txn_ok_def btree_ok_insert split: sum.splits)

lemma mem_remove_base: "eng_remove mem_txn k t = (q, t') \<Longrightarrow> txn_base t' = txn_base t"
  by (auto simp: mem_txn_def mem_remove_def)

lemma mem_remove_keeps_ok: "txn_ok t \<Longrightarrow> eng_remove mem_txn k t = (q, t') \<Longrightarrow> txn_ok t'"
  by (auto simp: mem_txn_def mem_remove_def txn_ok_def btree_ok_remove)

lemma mem_base_ok:
  "btree_ok (txn_base t) \<Longrightarrow> eng_put mem_txn k v t = (q, t') \<Longrightarrow> btree_ok (txn_base t')"
  "btree_ok (txn_base t) \<Longrightarrow> eng_remove mem_txn k t = (q, t') \<Longrightarrow> btree_ok (txn_base t')"
  using mem_put_base mem_remove_base by metis+

lemmas mem_keeps = mem_base_ok mem_put_base mem_put_keeps_ok mem_remove_base mem_remove_keeps_ok

lemma memory_byte_engine_simps [simp]:
  "be_txn memory_byte_engine = mem_txn" "be_view memory_byte_engine = mem_view"
  "be_read_view memory_byte_engine g = Inr g" "be_drop memory_byte_engine = mem_drop"
  "be_commit memory_byte_engine = mem_commit"
  "be_begin memory_byte_engine g = Inr \<lparr>txn_base = entries g, txn_working = entries g\<rparr>"
  by (simp_all add: memory_byte_engine_def mem_read_view_def mem_begin_def)

lemma mem_pair: "lawful_engine mem_txn txn_cells pair_ok {}"
  by unfold_locales
    (auto simp: pair_ok_def intro: mem.get_law mem.scan_law mem.finite_cells mem_keeps dest: mem.get_errs mem.scan_errs
      mem.put_law mem.remove_law)

lemma mem_put_pair:
  "pair_ok t \<Longrightarrow> eng_put mem_txn k v t = (q, t') \<Longrightarrow> pair_ok t' \<and> base_cells t' = base_cells t"
  unfolding pair_ok_def base_cells_def using mem_put_keeps_ok mem_put_base by metis

lemma mem_remove_pair:
  "pair_ok t \<Longrightarrow> eng_remove mem_txn k t = (q, t') \<Longrightarrow> pair_ok t' \<and> base_cells t' = base_cells t"
  unfolding pair_ok_def base_cells_def using mem_remove_keeps_ok mem_remove_base by metis

interpretation memory: lawful_byte_engine memory_byte_engine txn_cells pair_ok "{}" engine_cells engine_ok base_cells
proof (rule lawful_byte_engine.intro)
  show "lawful_engine (be_txn memory_byte_engine) txn_cells pair_ok {}" using mem_pair by simp
  show "lawful_byte_engine_axioms memory_byte_engine txn_cells pair_ok engine_cells engine_ok base_cells"
    by (rule lawful_byte_engine_axioms.intro, unfold memory_byte_engine_simps, unfold mem_commit_def mem_drop_def mem_view_def)
      (erule (1) mem_put_pair | erule (1) mem_remove_pair
       | fastforce simp: engine_cells_def engine_ok_def base_cells_def pair_ok_def txn_ok_def txn_cells_def)+
qed

section \<open>Properties\<close>

text \<open>The demand is covered: each of its atoms is permitted by the ceiling and by the grant.\<close>

definition covered :: "DemandCoverage \<Rightarrow> DemandCoverage \<Rightarrow> InvocationGrant \<Rightarrow> bool" where
  "covered demand ceiling grant \<longleftrightarrow>
     (dc_read demand \<longrightarrow> dc_read ceiling \<and> ig_read grant) \<and> (dc_write demand \<longrightarrow> dc_write ceiling \<and> ig_write grant)"

lemma resolve_authority_iff: "resolve_authority demand ceiling grant = (if covered demand ceiling grant then Inr () else Inl Denied)"
  by (auto simp: resolve_authority_def covered_def)

lemma mem_read_witness: "read_witness memory_byte_engine g = Inr (engine_cells g (meta_key WITNESS))"
  by (simp add: read_witness_def mem_view_def engine_cells_def)

text \<open>
  C24. Over the memory engine and a published projection, a session opens exactly when the demand is
  covered by ceiling and grant together; an uncovered demand is denied with the handle unchanged. No
  opening panics, and a covered transaction session fails only on an unreadable or exhausted witness.
\<close>

theorem sessions_need_authority:
  assumes "spb_finish b = Inr p" "list_all schema_ok (spb_roots b)" "from_projection_with_ceiling g p ceiling = Inr store"
  shows "\<exists>auth. list_all2 slot_authorized (spb_sites b) auth
     \<and> read_session memory_byte_engine grant demand store =
         (if covered demand ceiling grant then Inr \<lparr>rs_view = g, rs_auth = auth\<rparr> else Inl (Raise SessionDenied))
     \<and> (case txn_session memory_byte_engine grant demand store of
          Inr ts \<Rightarrow> covered demand ceiling grant \<and> ts_auth ts = auth
        | Inl (e, store') \<Rightarrow> store' = store \<and>
            (if covered demand ceiling grant
             then \<exists>err. e = Raise (SessionEngine err) \<and> next_witness (engine_cells g (meta_key WITNESS)) = Inl err
             else e = Raise SessionDenied))"
proof -
  obtain nb where nb: "number_store p = Inr nb" and store: "store =
      \<lparr>ds_engine = g, ds_projection = p, ds_numbering = nb, ds_ceiling = ceiling, ds_recovery_scope = None, ds_poisoned = False\<rparr>"
    using assms(3) by (auto simp: from_projection_with_ceiling_def np_fresh_def from_numbered_with_optional_recovery_scope_def)
  from authorized_sites_total [OF assms(1,2) nb] obtain auth where
    auth: "authorized_sites p nb = Inr auth" "list_all2 slot_authorized (spb_sites b) auth" by blast
  have auths: "session_setup grant demand store = (if covered demand ceiling grant then Inr auth else Inl (Raise SessionDenied))"
    using auth store by (simp add: session_setup_def check_poison_def resolve_authority_iff)
  have g: "ds_engine store = g" using store by simp
  show ?thesis
  proof (intro exI conjI)
    show "list_all2 slot_authorized (spb_sites b) auth" by (rule auth(2))
    show "read_session memory_byte_engine grant demand store =
        (if covered demand ceiling grant then Inr \<lparr>rs_view = g, rs_auth = auth\<rparr> else Inl (Raise SessionDenied))"
      by (simp add: read_session_def auths g)
    show "case txn_session memory_byte_engine grant demand store of
          Inr ts \<Rightarrow> covered demand ceiling grant \<and> ts_auth ts = auth
        | Inl (e, store') \<Rightarrow> store' = store \<and>
            (if covered demand ceiling grant
             then \<exists>err. e = Raise (SessionEngine err) \<and> next_witness (engine_cells g (meta_key WITNESS)) = Inl err
             else e = Raise SessionDenied)"
      by (cases "next_witness (engine_cells g (meta_key WITNESS))") (simp_all add: txn_session_def auths g mem_read_witness)
  qed
qed

text \<open>
  C25. The witness counts commits: a store without one starts at generation 0, generation \<open>n\<close> is followed by
  \<open>n + 1\<close>, the last 128-bit generation is refused instead of wrapping, any other cell is corruption, and
  the proposed cell always sorts strictly after the one it replaces.
\<close>

theorem witness_generations:
  "next_witness None = Inr (generation_cell 0)
   \<and> (\<forall>n. next_witness (Some (generation_cell (n mod 2 ^ 128))) =
        (if n mod 2 ^ 128 = 2 ^ 128 - 1 then Inl (LimitExceeded CommitWitnessGeneration)
         else Inr (generation_cell (n mod 2 ^ 128 + 1))))
   \<and> {bs. witness_well_formed bs} = generation_cell ` {..<2 ^ 128}
   \<and> (\<forall>bs. bs \<notin> generation_cell ` {..<2 ^ 128} \<longleftrightarrow> (\<exists>msg. next_witness (Some bs) = Inl (StoreCorruption msg)))
   \<and> strict_mono_on {..<2 ^ 128} generation_cell"
proof -
  have wf: "{bs. witness_well_formed bs} = generation_cell ` {..<2 ^ 128}"
  proof -
    have "bs \<in> generation_cell ` {..<2 ^ 128}" if "witness_well_formed bs" for bs
      using generation_of_cell [OF that] unsigned_less [of "of_be_bytes (drop 1 bs) :: u128"] by auto
    then show ?thesis by auto
  qed
  have step: "next_witness (Some (generation_cell n)) =
     (if n = 2 ^ 128 - 1 then Inl (LimitExceeded CommitWitnessGeneration) else Inr (generation_cell (n + 1)))"
    if "n < 2 ^ 128" for n using next_witness_cell [OF that] that by auto
  have "next_witness (Some bs) \<noteq> Inl (StoreCorruption msg)" if "n < 2 ^ 128" "bs = generation_cell n" for n bs msg
    using step [OF that(1)] that(2) by simp
  then have bad: "bs \<notin> generation_cell ` {..<2 ^ 128} \<longleftrightarrow> (\<exists>msg. next_witness (Some bs) = Inl (StoreCorruption msg))" for bs
    using next_witness_malformed [of bs] wf by blast
  have mono: "strict_mono_on {..<2 ^ 128} generation_cell"
  proof (rule strict_mono_onI)
    fix m n :: nat assume "m \<in> {..<2 ^ 128}" "n \<in> {..<2 ^ 128}" "m < n"
    then have "(word_of_nat m :: u128) < word_of_nat n"
      by (simp add: word_less_nat_alt unsigned_of_nat take_bit_nat_eq_self)
    then show "generation_cell m < generation_cell n"
      using be_bytes_mono [of "word_of_nat m :: u128" "word_of_nat n"] lex_lt_less by (simp add: generation_cell_def)
  qed
  show ?thesis using next_witness_first step wf bad mono by simp
qed

text \<open>
  C26. A transaction session is atomic on every lawful engine. After any sequence of calls, a session
  whose transaction is consumed answers every further commit with \<open>SessionFinished\<close> and no effect. A live
  one never panics at commit: \<open>Committed\<close> leaves exactly the staged cells with the next witness,
  \<open>Aborted\<close> exactly the cells it began from, and only an indeterminate verdict poisons the handle.
  Dropping a live session leaves the cells it began from.
\<close>

theorem session_commit_atomic:
  assumes "lawful_byte_engine B cells ok errs gcells gok base" "gok (ds_engine store)"
    "txn_session B grant demand store = Inr ts0" "(session_use B)\<^sup>*\<^sup>* ts0 ts" "do_commit B ts = (r, ts')"
  shows "ts_txn ts' = None \<and> (case ts_txn ts of
      None \<Rightarrow> r = Inr SessionFinished \<and> ts' = ts
    | Some t \<Rightarrow>
        gcells (ds_engine (end_session B ts)) = gcells (ds_engine store)
        \<and> (\<exists>after. next_witness (gcells (ds_engine store) (meta_key WITNESS)) = Inr after
           \<and> (r = Inr Committed \<and> (\<exists>g. ts_store ts' = store\<lparr>ds_engine := g\<rparr> \<and> gcells g = (cells t)(meta_key WITNESS \<mapsto> after))
              \<or> r = Inr Aborted \<and> (\<exists>g. ts_store ts' = store\<lparr>ds_engine := g\<rparr> \<and> gcells g = gcells (ds_engine store))
              \<or> r = Inr (Indeterminate \<lparr>cr_scope = ds_recovery_scope store,
                     cr_before = gcells (ds_engine store) (meta_key WITNESS), cr_after = after\<rparr>)
                \<and> ds_poisoned (ts_store ts'))))"
proof (cases "ts_txn ts")
  case None
  then show ?thesis using assms(5) do_commit_consumed [of ts B] by simp
next
  case (Some t)
  obtain after where o: "next_witness (gcells (ds_engine store) (meta_key WITNESS)) = Inr after"
    "session_inv (\<lambda>t. ok t \<and> base t = gcells (ds_engine store)) store
       \<lparr>ri_scope = ds_recovery_scope store, ri_before = gcells (ds_engine store) (meta_key WITNESS), ri_after = after\<rparr> ts"
    by (rule lawful_byte_engine.opened [OF assms(1-4)])
  have "ok t" "base t = gcells (ds_engine store)" using o(2) Some by (simp_all add: session_inv_def)
  then have "gcells (ds_engine (end_session B ts)) = gcells (ds_engine store)"
    using lawful_byte_engine.drop_law [OF assms(1)] Some by (simp add: end_session_def)
  then show ?thesis
    using lawful_byte_engine.commit_outcome [OF assms(1) o(2) Some assms(5)] o(1) Some by auto
qed


section \<open>Concrete handles\<close>

text \<open>A memory engine whose commits are lost and reported as indeterminate.\<close>

definition uncertain_engine :: "(MemoryEngine, MemoryEngine, MemTxn) byte_engine" where
  "uncertain_engine = memory_byte_engine\<lparr>be_commit := \<lambda>t. (CommitIndeterminate, mem_drop t)\<rparr>"

lemma uncertain_engine_simps [simp]:
  "be_txn uncertain_engine = mem_txn" "be_view uncertain_engine = mem_view"
  "be_read_view uncertain_engine g = Inr g" "be_drop uncertain_engine = mem_drop"
  "be_commit uncertain_engine t = (CommitIndeterminate, mem_drop t)"
  "be_begin uncertain_engine g = Inr \<lparr>txn_base = entries g, txn_working = entries g\<rparr>"
  "read_witness uncertain_engine g = Inr (engine_cells g (meta_key WITNESS))"
  by (simp_all add: uncertain_engine_def read_witness_def mem_view_def engine_cells_def)

lemma uncertain_engine_lawful: "lawful_byte_engine uncertain_engine txn_cells pair_ok {} engine_cells engine_ok base_cells"
proof (rule lawful_byte_engine.intro)
  show "lawful_engine (be_txn uncertain_engine) txn_cells pair_ok {}" using mem_pair by simp
  show "lawful_byte_engine_axioms uncertain_engine txn_cells pair_ok engine_cells engine_ok base_cells"
    by (rule lawful_byte_engine_axioms.intro, unfold uncertain_engine_simps, unfold mem_drop_def mem_view_def)
      (erule (1) mem_put_pair | erule (1) mem_remove_pair
       | fastforce simp: engine_cells_def engine_ok_def base_cells_def pair_ok_def txn_ok_def txn_cells_def)+
qed

definition sample_handle :: "MemoryEngine DurableStore" where
  "sample_handle =
     from_numbered_with_ceiling_and_recovery_scope memory_engine_new
       \<lparr>np_projection = sample_projection, np_numbering = [sample_numbering]\<rparr>
       \<lparr>dc_read = True, dc_write = True\<rparr> (scope_persistent (replicate 16 7) ''books.marrow'')"

definition sample_session :: "AuthorizedSite option list \<Rightarrow> (MemoryEngine, MemTxn) TxnSession" where
  "sample_session auth =
     \<lparr>ts_txn = Some no_cells, ts_store = sample_handle, ts_auth = auth,
      ts_recovery = Some \<lparr>ri_scope = ds_recovery_scope sample_handle, ri_before = None, ri_after = generation_cell 0\<rparr>,
      ts_indexes = [ss_indexes sample_schema]\<rparr>"

lemma sample_handle_simps [simp]:
  "ds_engine sample_handle = memory_engine_new" "\<not> ds_poisoned sample_handle"
  "ds_recovery_scope sample_handle = Some (scope_persistent (replicate 16 7) ''books.marrow'')"
  "ds_projection sample_handle = sample_projection" "ds_numbering sample_handle = [sample_numbering]"
  "ds_ceiling sample_handle = \<lparr>dc_read = True, dc_write = True\<rparr>"
  by (simp_all add: sample_handle_def from_numbered_with_ceiling_and_recovery_scope_def
      from_numbered_with_optional_recovery_scope_def)

lemma fresh_engine [simp]: "engine_ok memory_engine_new" "engine_cells memory_engine_new = Map.empty" "entries memory_engine_new = []"
  by (simp_all add: engine_ok_def engine_cells_def memory_engine_new_def btree_ok_def)

lemma sample_opens:
  obtains auth where
    "txn_session uncertain_engine full_store \<lparr>dc_read = True, dc_write = True\<rparr> sample_handle = Inr (sample_session auth)"
proof -
  obtain auth where "authorized_sites sample_projection [sample_numbering] = Inr auth"
    using authorized_sites_total [OF sample_published _ sample_numbered] sample_schema_ok by auto
  then have "txn_session uncertain_engine full_store \<lparr>dc_read = True, dc_write = True\<rparr> sample_handle = Inr (sample_session auth)"
    by (simp add: txn_session_def session_setup_def check_poison_def resolve_authority_iff covered_def full_store_def
        next_witness_first sample_session_def no_cells_def sample_projection_def)
  then show thesis by (rule that)
qed

lemma sample_commit:
  "do_commit uncertain_engine (sample_session auth) =
     (Inr (Indeterminate \<lparr>cr_scope = ds_recovery_scope sample_handle, cr_before = None, cr_after = generation_cell 0\<rparr>),
      (sample_session auth)\<lparr>ts_txn := None, ts_recovery := None, ts_store := sample_handle\<lparr>ds_poisoned := True\<rparr>\<rparr>)"
proof -
  have "eng_put mem_txn (meta_key WITNESS) (generation_cell 0) no_cells
      = (Inr (), no_cells\<lparr>txn_working := [(meta_key WITNESS, generation_cell 0)]\<rparr>)"
    by (subst mem_put_ok) (simp_all add: no_cells_def meta_key_def WITNESS_def MAX_KEY_LEN_def MAX_VALUE_LEN_def generation_cell_def)
  then show ?thesis
    by (simp add: do_commit_def sample_session_def end_txn_def mem_drop_def no_cells_def sample_handle_def
        memory_engine_new_def from_numbered_with_ceiling_and_recovery_scope_def from_numbered_with_optional_recovery_scope_def)
qed

theorem sessions_need_authority_witness:
  "\<exists>auth. read_session memory_byte_engine full_store \<lparr>dc_read = True, dc_write = True\<rparr> (sample_handle\<lparr>ds_recovery_scope := None, ds_ceiling := \<lparr>dc_read = True, dc_write = False\<rparr>\<rparr>)
       = Inl (Raise SessionDenied)
     \<and> read_session memory_byte_engine full_store \<lparr>dc_read = True, dc_write = False\<rparr> (sample_handle\<lparr>ds_recovery_scope := None, ds_ceiling := \<lparr>dc_read = True, dc_write = False\<rparr>\<rparr>)
       = Inr \<lparr>rs_view = memory_engine_new, rs_auth = auth\<rparr>"
proof -
  have "from_projection_with_ceiling memory_engine_new sample_projection \<lparr>dc_read = True, dc_write = False\<rparr>
      = Inr (sample_handle\<lparr>ds_recovery_scope := None, ds_ceiling := \<lparr>dc_read = True, dc_write = False\<rparr>\<rparr>)"
    by (simp add: from_projection_with_ceiling_def np_fresh_def sample_numbered sample_handle_def
        from_numbered_with_ceiling_and_recovery_scope_def from_numbered_with_optional_recovery_scope_def)
  note open_at = sessions_need_authority [OF sample_published _ this]
  show ?thesis
    using open_at [of full_store "\<lparr>dc_read = True, dc_write = True\<rparr>"] open_at [of full_store "\<lparr>dc_read = True, dc_write = False\<rparr>"]
      sample_schema_ok
    by (auto simp: covered_def full_store_def)
qed

theorem session_commit_atomic_witness:
  "\<exists>auth. engine_cells (ds_engine (end_session uncertain_engine (sample_session auth))) = Map.empty
     \<and> ds_poisoned (ts_store (snd (do_commit uncertain_engine (sample_session auth))))"
proof -
  obtain auth where o: "txn_session uncertain_engine full_store \<lparr>dc_read = True, dc_write = True\<rparr> sample_handle = Inr (sample_session auth)"
    by (rule sample_opens)
  have live: "ts_txn (sample_session auth) = Some no_cells" by (simp add: sample_session_def)
  show ?thesis
    using session_commit_atomic [OF uncertain_engine_lawful _ o rtranclp.rtrancl_refl sample_commit]
    by (intro exI [of _ auth]) (simp add: sample_commit live)
qed


end
