(* ===== verification/Audit_Contract.thy ===== *)
theory Audit_Contract
  imports Audit_Valid Handle_Contract
begin

text \<open>
  The audits of the store handle, as a caller sees them: the logical audit returns a report that is
  clean exactly on the valid stores, and an export hands the entry and index cells to its sink in key
  order.
\<close>

section \<open>The report\<close>

context lawful_view
begin

lemma audit_run_report:
  assumes "tables_wf t specs" "ok view" "ordered_cells (cells view) L"
  shows "case audit_run E view absorb t consume L (walker_new d) c of
       Inr (report, d', c') \<Rightarrow> feed t consume L c = Inr c' \<and> sm_cells (ar_summary report) = length L
         \<and> d' = fold (\<lambda>(k, v). absorb k v) (filter (\<lambda>(k, v). in_family t k) L) d
         \<and> (is_clean report \<longleftrightarrow> (\<forall>k v. cells view k = Some v \<longrightarrow> cell_good t (cells view) k v) \<and> all_closed t specs (cells view))
     | Inl (Raise (WalkStore e)) \<Rightarrow> e \<in> errs
     | Inl (Raise (WalkConsumer e)) \<Rightarrow> feed t consume L c = Inl e
     | Inl Panic \<Rightarrow> False"
proof -
  note run = walk_page_run [OF assms(1,2), of "[]" L absorb d "walker_new d" consume c, simplified, OF assms(3) run_start(1)]
  show ?thesis
  proof (cases "walk_page E view absorb t consume L (walker_new d) c")
    case (Inl h)
    then show ?thesis using run by (auto simp: audit_run_def)
  next
    case (Inr wc)
    obtain w c' where wc: "wc = (w, c')" by fastforce
    have post: "feed t consume L c = Inr c'" "run_post t specs (cells view) absorb d [] L (walker_new d) w" using run Inr wc by simp_all
    then have book: "walk_book t absorb d L w" by (simp add: run_post_def)
    then have shaped: "walker_shaped t w" by (simp add: walk_book_def)
    note close = close_entry_step [OF assms(1,2) shaped]
    show ?thesis
    proof (cases "close_entry E view t w")
      case (Inl h)
      then show ?thesis using close \<open>walk_page E view absorb t consume L (walker_new d) c = Inr wc\<close> wc
        by (auto simp: audit_run_def yields_def walk_store_error_def)
    next
      case (Inr w')
      then have w': "ledger w' = ledger w" "fnd w \<le> fnd w'"
        "fnd w' = fnd w \<longleftrightarrow> (\<forall>fr. wk_frame w = Some fr \<longrightarrow> fr_marker fr \<longrightarrow> frame_complete t (cells view) fr)" using close by auto
      have "is_clean \<lparr>ar_summary = wk_summary w', ar_findings = wk_findings w'\<rparr> \<longleftrightarrow> fnd w' = 0" by (simp add: is_clean_def fnd_def)
      also have "\<dots> \<longleftrightarrow> (\<forall>k v. cells view k = Some v \<longrightarrow> cell_good t (cells view) k v) \<and> all_closed t specs (cells view)"
        by (rule end_clean [OF assms(1,3) post(2) w'(3,2)])
      finally show ?thesis
        using Inr \<open>walk_page E view absorb t consume L (walker_new d) c = Inr wc\<close> wc post(1) book w'(1)
        by (simp add: audit_run_def walk_book_def ledger_def)
    qed
  qed
qed

end

section \<open>The places of a projection\<close>

definition entry_key :: "StoreProjection \<Rightarrow> RootNumbering list \<Rightarrow> bytes \<Rightarrow> bool" where
  "entry_key p nb k \<longleftrightarrow> list_ex (\<lambda>spec. prefix (entry_family_prefix (fsp_number spec)) k) (declared p nb)"

definition index_key :: "StoreProjection \<Rightarrow> RootNumbering list \<Rightarrow> bytes \<Rightarrow> bool" where
  "index_key p nb k \<longleftrightarrow>
     list_ex (\<lambda>(s, r). list_ex (\<lambda>ix. prefix (index_cell_key (rn_root r) (ix_id ix) []) k) (ss_indexes s)) (zip (sp_roots p) nb)"

lemma in_family_declared:
  assumes "tables_of p nb t specs"
  shows "in_family t k \<longleftrightarrow> entry_key p nb k"
proof -
  have l: "list_all2 family_models (tb_families t) specs" "set specs = set (declared p nb)" using assms by (simp_all add: tables_of_def tables_wf_def)
  have "map fam_prefix (tb_families t) = map (\<lambda>spec. entry_family_prefix (fsp_number spec)) specs"
    using l(1) by (induction rule: list_all2_induct) (simp_all add: family_models_def)
  then have "fam_prefix ` set (tb_families t) = (\<lambda>spec. entry_family_prefix (fsp_number spec)) ` set specs" by (metis set_map)
  moreover have "in_family t k \<longleftrightarrow> (\<exists>q \<in> fam_prefix ` set (tb_families t). prefix q k)" by (simp add: in_family_def)
  ultimately show ?thesis by (simp add: l(2) entry_key_def list_ex_iff)
qed

lemma in_index_declared:
  assumes "tables_of p nb t specs"
  shows "in_index t k \<longleftrightarrow> index_key p nb k"
proof -
  have len: "length (sp_roots p) = length nb" using assms by (simp add: tables_of_def)
  have "index_key p nb k \<longleftrightarrow> (\<exists>i < length nb. \<exists>ix \<in> set (ss_indexes (sp_roots p ! i)). prefix (index_cell_key (rn_root (nb ! i)) (ix_id ix) []) k)"
    using len by (auto simp: index_key_def list_ex_iff in_set_zip Bex_def)
  moreover have "ish_prefix shape = index_cell_key (rn_root r) (ix_id ix) []" if "index_models i s r ix shape" for i s r ix shape
    using that by (simp add: index_models_def)
  ultimately show ?thesis
    using assms unfolding in_index_def tables_of_def by metis
qed

section \<open>Delivery\<close>

text \<open>A sink is handed the cells in turn until it refuses one.\<close>

fun deliver :: "(bytes \<Rightarrow> bytes \<Rightarrow> 'c \<Rightarrow> 'e + 'c) \<Rightarrow> Cell list \<Rightarrow> 'c \<Rightarrow> 'e + 'c" where
  "deliver sink [] c = Inr c"
| "deliver sink ((k, v) # L) c = rbind (sink k v c) (deliver sink L)"

lemma feed_deliver:
  "feed t (\<lambda>kind k v c. case kind of AkOther \<Rightarrow> Inr c | _ \<Rightarrow> sink k v c) L c =
     deliver sink (filter (\<lambda>(k, v). in_family t k \<or> in_index t k) L) c"
proof (induction L arbitrary: c)
  case (Cons x L)
  obtain k v where x: "x = (k, v)" by fastforce
  show ?case
  proof (cases "in_family t k \<or> in_index t k")
    case True
    then have "kind_of t k = AkEntry \<or> kind_of t k = AkIndex" by (auto simp: kind_of_def)
    then show ?thesis using True Cons x by (cases "sink k v c") auto
  qed (simp add: x Cons kind_of_def)
qed simp

lemma feed_unit: "feed t (\<lambda>kind k v u. Inr u) L u = Inr u"
  by (induction L) auto

lemma ordered_card: "ordered_cells m L \<Longrightarrow> length L = card (dom m)"
  by (auto simp: ordered_cells_def strict_sorted_iff dom_map_of_conv_image_fst card_image distinct_card
      simp flip: set_map dest: distinct_card)

section \<open>Numbered projections\<close>

text \<open>Fresh and accepted numberings of published projections are numbered in the sense of the audit.\<close>

definition index_ids_sized :: "StoreProjection \<Rightarrow> bool" where
  "index_ids_sized p \<longleftrightarrow> (\<forall>s \<in> set (sp_roots p). \<forall>ix \<in> set (ss_indexes s). length (ix_id ix) = 16)"

lemma roots_bounded: "node_count p \<le> MAX_STORE_NODES \<Longrightarrow> length (sp_roots p) \<le> 65536"
proof -
  have "length ss \<le> sum_list (map root_node_count ss)" for ss
    by (induction ss) (auto simp: root_node_count_def)
  then show "node_count p \<le> MAX_STORE_NODES \<Longrightarrow> length (sp_roots p) \<le> 65536"
    by (metis MAX_STORE_NODES_def node_count_def order.trans)
qed

lemma numbered_fresh:
  assumes "spb_finish b = Inr p" "list_all schema_ok (sp_roots p)" "index_ids_sized p" "number_store p = Inr nb"
  shows "numbered p nb"
proof -
  have count: "node_count p \<le> MAX_STORE_NODES" using assms(1) by (auto simp: spb_finish_Inr node_count_def)
  then have "node_count p < 2 ^ 32" by (simp add: MAX_STORE_NODES_def)
  from number_store_fresh [OF this] distinct_word_of_nat_upt [OF this] roots_bounded [OF count] assms(2-4)
  show ?thesis by (auto simp: numbered_def index_ids_sized_def)
qed

lemma numbered_accepted:
  assumes "np_accepted p numbers high = Inr np" "list_all schema_ok (sp_roots p)" "index_ids_sized p"
  shows "numbered (np_projection np) (np_numbering np)"
  using np_accepted_Inr [OF assms(1)] roots_bounded [of p] assms(2,3) by (auto simp: numbered_def index_ids_sized_def)

section \<open>Audits of the handle\<close>

lemma walk_cells_report:
  assumes "lawful_view E cells ok errs" "ok view" "numbered p nb" "tables_of p nb t specs" "ordered_cells (cells view) L"
  shows "\<exists>r. walk_cells E view absorb t consume d c = Some r \<and>
    (case r of
       Inr (report, d', c') \<Rightarrow> feed t consume L c = Inr c' \<and> sm_cells (ar_summary report) = card (dom (cells view))
         \<and> d' = fold (\<lambda>(k, v). absorb k v) (filter (\<lambda>(k, v). entry_key p nb k) L) d
         \<and> (is_clean report \<longleftrightarrow> store_valid p nb (cells view))
     | Inl (Raise (WalkStore e)) \<Rightarrow> e \<in> errs
     | Inl (Raise (WalkConsumer e)) \<Rightarrow> feed t consume L c = Inl e
     | Inl Panic \<Rightarrow> False)"
proof -
  have wf: "tables_wf t specs" using assms(4) by (simp add: tables_of_def)
  obtain r where r: "walk_cells E view absorb t consume d c = Some r"
    "r = audit_run E view absorb t consume L (walker_new d) c \<or> (\<exists>e \<in> errs. r = Inl (Raise (WalkStore e)))"
    using lawful_view.walk_cells_all [OF assms(1,2,5), of absorb t consume d c] by blast
  show ?thesis
    using r lawful_view.audit_run_report [OF assms(1) wf assms(2,5), where absorb = absorb and consume = consume and d = d and c = c]
      audit_conditions_valid [OF assms(3,4), of "cells view"] ordered_card [OF assms(5)] in_family_declared [OF assms(4)]
    by (intro exI [of _ r]) (auto split: sum.splits halt.splits WalkError.splits prod.splits)
qed

interpretation mem_reads: lawful_view mem_view engine_cells engine_ok "{}"
  by unfold_locales (auto simp: mem_view_def engine_cells_def engine_ok_def mem_collect_after_def mem_collect_page finite_dom_map_of)

section \<open>Stores without entries\<close>

lemma witness_elsewhere:
  "\<not> prefix (marker_key n keys) (meta_key WITNESS)" "index_cell_key r i vals \<noteq> meta_key WITNESS"
  by (auto simp: prefix_def marker_key_layout index_cell_layout meta_key_def layout_tags)

lemma store_valid_bare:
  assumes "\<And>k v. m k = Some v \<Longrightarrow> k = meta_key WITNESS \<and> witness_well_formed v"
  shows "store_valid p nb m"
proof -
  have none: "m k = None" if "prefix (marker_key n keys) k" for n keys k using assms [of k] that witness_elsewhere(1) by (cases "m k") auto
  have rows: "m (index_cell_key r i vals) = None" for r i vals
    using assms [of "index_cell_key r i vals"] witness_elsewhere(2) [of r i vals] by (cases "m (index_cell_key r i vals)") auto
  have "sound_node m (marker_key n keys) fs gs" for n keys fs gs
    using none [of n keys] entry_at_None [of m "marker_key n keys" fs gs] by (auto simp: sound_node_def node_clean_def domIff)
  moreover have "entry_row m r cols fs ix ks = None" for r cols fs ix ks using none [of r ks "marker_key r ks"] by (simp add: entry_row_def)
  moreover have "m (marker_key n keys) = None" for n keys using none [of n keys "marker_key n keys"] by simp
  ultimately show ?thesis
    using assms none rows
    by (auto simp: store_valid_def placed_cell_def node_valid_def spec_marker_def indexes_valid_def coherent_def rows_match_def index_rows_def)
qed

section \<open>Properties\<close>

text \<open>
  C28. The logical audit of a handle always returns and never panics: it fails only with an error of the
  engine, and otherwise its report has counted every cell and is clean exactly when the store is valid for
  the projection: every cell at a declared place, every node readable, every managed index in step with
  its entries.
\<close>

theorem audit_verdict:
  assumes "lawful_view (be_view B) cells ok errs" "be_read_view B (ds_engine store) = Inr view" "ok view"
    "numbered (ds_projection store) (ds_numbering store)" "\<not> ds_poisoned store"
  shows "\<exists>r. logical_audit B absorb d store = Some r \<and>
    (case r of
       Inr (report, d') \<Rightarrow> sm_cells (ar_summary report) = card (dom (cells view))
         \<and> (is_clean report \<longleftrightarrow> store_valid (ds_projection store) (ds_numbering store) (cells view))
     | Inl (Raise e) \<Rightarrow> e \<in> SessionEngine ` errs
     | Inl Panic \<Rightarrow> False)"
proof -
  obtain t specs where t: "tables_new (ds_projection store) (ds_numbering store) = Inr t" "tables_of (ds_projection store) (ds_numbering store) t specs"
    using tables_new_of [OF assms(4)] by blast
  obtain L where L: "ordered_cells (cells view) L" using lawful_view.finite_ordered_cells [OF assms(1,3)] by blast
  let ?consume = "\<lambda>kind k v u. Inr u :: unit + unit"
  obtain r where r: "walk_cells (be_view B) view absorb t ?consume d () = Some r" and
    post: "case r of
       Inr (report, d', c') \<Rightarrow> feed t ?consume L () = Inr c' \<and> sm_cells (ar_summary report) = card (dom (cells view))
         \<and> d' = fold (\<lambda>(k, v). absorb k v) (filter (\<lambda>(k, v). entry_key (ds_projection store) (ds_numbering store) k) L) d
         \<and> (is_clean report \<longleftrightarrow> store_valid (ds_projection store) (ds_numbering store) (cells view))
     | Inl (Raise (WalkStore e)) \<Rightarrow> e \<in> errs
     | Inl (Raise (WalkConsumer e)) \<Rightarrow> feed t ?consume L () = Inl e
     | Inl Panic \<Rightarrow> False"
    using walk_cells_report [OF assms(1,3,4) t(2) L, of absorb ?consume d "()"] by blast
  have audit: "logical_audit B absorb d store =
      Some (map_err (\<lambda>h. case h of Panic \<Rightarrow> Panic | Raise e \<Rightarrow> Raise (SessionEngine e))
        (rbind (map_err (\<lambda>h. case h of Raise (WalkStore e) \<Rightarrow> Raise e | _ \<Rightarrow> Panic) r) (\<lambda>(report, digest, _). Inr (report, digest))))"
    using assms(2,5) t(1) r by (simp add: logical_audit_def check_poison_def walk_def inspect_def)
  have "feed t ?consume L () = Inr ()" by (rule feed_unit)
  then show ?thesis unfolding audit using post by (auto split: sum.splits halt.splits WalkError.splits)
qed

text \<open>
  C29. An export hands every entry and index cell to its sink exactly once, in ascending key order, and no
  other cell; it stops at the sink's first refusal. When it completes, its digest has absorbed exactly the
  cells of the declared entry families, in the same order, and its report is the audit's verdict.
\<close>

theorem export_delivers:
  assumes "lawful_view (be_view B) cells ok errs" "be_read_view B (ds_engine store) = Inr view" "ok view"
    "numbered (ds_projection store) (ds_numbering store)" "\<not> ds_poisoned store" "ordered_cells (cells view) L"
  shows "\<exists>r. export_cells B absorb sink d c store = Some r \<and>
    (case r of
       Inr (report, d', c') \<Rightarrow>
         deliver sink (filter (\<lambda>(k, v). entry_key (ds_projection store) (ds_numbering store) k
                                       \<or> index_key (ds_projection store) (ds_numbering store) k) L) c = Inr c'
         \<and> d' = fold (\<lambda>(k, v). absorb k v) (filter (\<lambda>(k, v). entry_key (ds_projection store) (ds_numbering store) k) L) d
         \<and> (is_clean report \<longleftrightarrow> store_valid (ds_projection store) (ds_numbering store) (cells view))
     | Inl (Raise (ExportOutput e)) \<Rightarrow>
         deliver sink (filter (\<lambda>(k, v). entry_key (ds_projection store) (ds_numbering store) k
                                       \<or> index_key (ds_projection store) (ds_numbering store) k) L) c = Inl e
     | Inl (Raise (ExportRead e)) \<Rightarrow> e \<in> SessionEngine ` errs
     | Inl Panic \<Rightarrow> False)"
proof -
  obtain t specs where t: "tables_new (ds_projection store) (ds_numbering store) = Inr t" "tables_of (ds_projection store) (ds_numbering store) t specs"
    using tables_new_of [OF assms(4)] by blast
  let ?consume = "\<lambda>kind k v c. case kind of AkOther \<Rightarrow> Inr c | _ \<Rightarrow> sink k v c"
  from walk_cells_report [OF assms(1,3,4) t(2) assms(6), of absorb ?consume d c] obtain r where
    r: "walk_cells (be_view B) view absorb t ?consume d c = Some r" and
    post: "case r of
       Inr (report, d', c') \<Rightarrow> feed t ?consume L c = Inr c' \<and> sm_cells (ar_summary report) = card (dom (cells view))
         \<and> d' = fold (\<lambda>(k, v). absorb k v) (filter (\<lambda>(k, v). entry_key (ds_projection store) (ds_numbering store) k) L) d
         \<and> (is_clean report \<longleftrightarrow> store_valid (ds_projection store) (ds_numbering store) (cells view))
     | Inl (Raise (WalkStore e)) \<Rightarrow> e \<in> errs
     | Inl (Raise (WalkConsumer e)) \<Rightarrow> feed t ?consume L c = Inl e
     | Inl Panic \<Rightarrow> False" by blast
  show ?thesis
    using assms(2,5) t(1) r post unfolding feed_deliver in_family_declared [OF t(2)] in_index_declared [OF t(2)]
    by (auto simp: export_cells_def export_def split: sum.splits halt.splits WalkError.splits prod.splits)
qed

text \<open>A store that holds nothing but its commit witness, and one with a stray cell.\<close>

definition witnessed :: "MemoryEngine DurableStore" where
  "witnessed = sample_handle\<lparr>ds_engine := \<lparr>entries = [(meta_key WITNESS, generation_cell 0)]\<rparr>\<rparr>"

definition stray :: "MemoryEngine DurableStore" where
  "stray = sample_handle\<lparr>ds_engine := \<lparr>entries = [([], [])]\<rparr>\<rparr>"

lemma sample_is_numbered: "numbered sample_projection [sample_numbering]"
  using numbered_fresh [OF sample_published _ _ sample_numbered] sample_schema_ok
  by (simp add: index_ids_sized_def sample_projection_def sample_schema_def)

lemma witnessed_valid: "store_valid p nb (engine_cells (ds_engine witnessed))"
  using generation_cell_well_formed [of 0] by (intro store_valid_bare) (auto simp: witnessed_def engine_cells_def split: if_splits)

lemma stray_invalid: "\<not> store_valid p nb (engine_cells (ds_engine stray))"
  by (auto simp: store_valid_def stray_def engine_cells_def placed_cell_def spec_marker_def marker_key_layout index_cell_layout meta_key_def
      intro!: exI [of _ "[]"])

lemma no_engine_errors:
  "(case r of Inr (report, d') \<Rightarrow> P report d' | Inl (Raise e) \<Rightarrow> e \<in> SessionEngine ` {} | Inl Panic \<Rightarrow> False) \<Longrightarrow>
     \<exists>report d'. r = Inr (report, d') \<and> P report d'"
  by (cases r) (auto split: halt.splits)

theorem audit_verdict_witness:
  "\<exists>report d' report' e'.
     logical_audit memory_byte_engine (\<lambda>k v n. n + 1) (0 :: nat) witnessed = Some (Inr (report, d')) \<and> is_clean report \<and> sm_cells (ar_summary report) = 1
     \<and> logical_audit memory_byte_engine (\<lambda>k v n. n + 1) (0 :: nat) stray = Some (Inr (report', e')) \<and> \<not> is_clean report'"
proof -
  have ok: "engine_ok (ds_engine witnessed)" "engine_ok (ds_engine stray)" by (simp_all add: witnessed_def stray_def engine_ok_def btree_ok_def)
  have num: "numbered (ds_projection witnessed) (ds_numbering witnessed)" "numbered (ds_projection stray) (ds_numbering stray)"
    using sample_is_numbered by (simp_all add: witnessed_def stray_def)
  have fresh: "\<not> ds_poisoned witnessed" "\<not> ds_poisoned stray" by (simp_all add: witnessed_def stray_def)
  have view: "lawful_view (be_view memory_byte_engine) engine_cells engine_ok {}" using mem_reads.lawful_view_axioms by simp
  have card: "card (dom (engine_cells (ds_engine witnessed))) = 1" by (simp add: witnessed_def engine_cells_def)
  from audit_verdict [OF view _ ok(1) num(1) fresh(1), of "\<lambda>k v n. n + 1" "0 :: nat"]
  obtain report d' where "logical_audit memory_byte_engine (\<lambda>k v n. n + 1) (0 :: nat) witnessed = Some (Inr (report, d'))" "is_clean report"
    "sm_cells (ar_summary report) = 1"
    using witnessed_valid card by (auto dest!: no_engine_errors)
  moreover from audit_verdict [OF view _ ok(2) num(2) fresh(2), of "\<lambda>k v n. n + 1" "0 :: nat"]
  obtain report' e' where "logical_audit memory_byte_engine (\<lambda>k v n. n + 1) (0 :: nat) stray = Some (Inr (report', e'))" "\<not> is_clean report'"
    using stray_invalid by (auto dest!: no_engine_errors)
  ultimately show ?thesis by blast
qed

text \<open>A root without fields, the empty store of it, and a store with one entry and a commit witness.\<close>

definition bare_root :: "string \<Rightarrow> StoreSchema" where
  "bare_root name = \<lparr>ss_root_name = name, ss_key = [SkInt], ss_fields = [], ss_groups = [], ss_branches = [], ss_indexes = []\<rparr>"

definition bare_number :: "NodeNumber \<Rightarrow> RootNumbering" where
  "bare_number n = \<lparr>rn_root = n, rn_fields = [], rn_groups = [], rn_branches = []\<rparr>"

definition one_root :: StoreProjection where
  "one_root = \<lparr>sp_roots = [bare_root ''a''], sp_sites = []\<rparr>"

definition vacant :: "MemoryEngine DurableStore" where
  "vacant = sample_handle\<lparr>ds_projection := one_root, ds_numbering := [bare_number 0]\<rparr>"

definition entry_marker :: bytes where
  "entry_marker = marker_key 0 [KInt 5]"

definition populated :: "MemoryEngine DurableStore" where
  "populated = vacant\<lparr>ds_engine := \<lparr>entries = [(entry_marker, MARKER_VALUE), (meta_key WITNESS, generation_cell 0)]\<rparr>\<rparr>"

lemma one_root_numbered: "numbered one_root [bare_number 0]"
  by (simp add: numbered_def one_root_def bare_root_def bare_number_def mirrors_def root_mirrors_def preorder_def root_preorder_def schema_ok_def)

lemma one_root_declared: "declared one_root [bare_number 0] = [\<lparr>fsp_number = 0, fsp_cols = [SkInt], fsp_fields = [], fsp_groups = []\<rparr>]"
  by (simp add: declared_def one_root_def root_specs_def root_spec_def bare_root_def bare_number_def resolve_fields_def resolve_groups_def)

lemma entry_marker_below: "entry_marker < meta_key WITNESS" "entry_marker \<noteq> meta_key WITNESS"
  by (simp_all add: entry_marker_def marker_key_layout meta_key_def layout_tags)

lemma populated_cells:
  "engine_cells (ds_engine populated) = [entry_marker \<mapsto> MARKER_VALUE, meta_key WITNESS \<mapsto> generation_cell 0]"
  "engine_ok (ds_engine populated)"
  using entry_marker_below by (auto simp: populated_def engine_cells_def engine_ok_def btree_ok_def)

text \<open>One entry without fields, with or without a commit witness, is a valid store.\<close>

lemma one_entry_valid:
  assumes m: "m entry_marker = Some MARKER_VALUE" "\<And>k v. m k = Some v \<Longrightarrow> k = entry_marker \<or> k = meta_key WITNESS \<and> witness_well_formed v"
  shows "store_valid one_root [bare_number 0] m"
  unfolding store_valid_def
proof (intro conjI allI impI ballI)
  fix k v assume "m k = Some v"
  then have "k = entry_marker \<or> k = meta_key WITNESS \<and> witness_well_formed v" by (rule m(2))
  then show "placed_cell one_root [bare_number 0] k v"
    by (auto simp: placed_cell_def one_root_declared entry_marker_def spec_marker_def spec_keys_def keys_fit_def scalar_key_matches_type_def
        intro!: exI [of _ "[KInt 5]"])
next
  fix spec keys assume "spec \<in> set (declared one_root [bare_number 0])"
  then have spec: "fsp_number spec = 0" "fsp_fields spec = []" "fsp_groups spec = []" by (simp_all add: one_root_declared)
  have under: "prefix (marker_key 0 keys @ s) k \<longleftrightarrow> keys = [KInt 5] \<and> s = [] \<and> k = entry_marker" if "m k = Some v" for k v s
    using m(2) [OF that] by (auto simp: entry_marker_def prefix_def families_disjoint marker_append_inject)
  have own: "k = marker_key 0 keys" if "m k = Some v" "prefix (marker_key 0 keys) k" for k v
    using under [OF that(1), of "[]"] that(2) by (simp add: entry_marker_def)
  have "node_clean m (marker_key 0 keys) [] []"
    using own by (auto simp: node_clean_def node_cells_def)
  moreover have "record_clean m (marker_key 0 keys) []"
    using under [of _ _ "[FIELD_TAG]"] by (auto simp: record_clean_def field_leaf_range_def)
  moreover have "\<exists>p. slot_at m (marker_key 0 keys) = Inr p"
    using own by (auto simp: slot_at_def strict_prefix_def)
  then have "\<exists>e. entry_at m (marker_key 0 keys) [] [] = Inr e"
    using calculation by (auto simp: entry_at_def record_at_def simp del: rbind_Inr_iff)
  moreover have "m (marker_key 0 keys) = None \<or> m (marker_key 0 keys) = Some MARKER_VALUE"
    using m under [of "marker_key 0 keys" _ "[]"] by (cases "m (marker_key 0 keys)") auto
  ultimately show "node_valid m spec keys" by (auto simp: node_valid_def sound_node_def spec spec_marker_def)
next
  fix i assume "i < length [bare_number 0]"
  then show "indexes_valid m (sp_roots one_root ! i) ([bare_number 0] ! i)"
    by (simp add: indexes_valid_def coherent_def one_root_def bare_root_def)
qed

lemma populated_valid: "store_valid one_root [bare_number 0] (engine_cells (ds_engine populated))"
  using generation_cell_well_formed [of 0] entry_marker_below(2) by (intro one_entry_valid) (auto simp: populated_cells split: if_splits)

lemma populated_named:
  "entry_key one_root [bare_number 0] entry_marker" "\<not> entry_key one_root [bare_number 0] (meta_key WITNESS)"
  "\<not> index_key one_root [bare_number 0] k"
proof -
  show "entry_key one_root [bare_number 0] entry_marker" "\<not> entry_key one_root [bare_number 0] (meta_key WITNESS)"
    by (simp_all add: entry_key_def one_root_declared entry_marker_def entry_prefix_layout marker_key_layout meta_key_def layout_tags)
qed (simp add: index_key_def one_root_def bare_root_def)

lemma populated_handle:
  "ds_projection populated = one_root" "ds_numbering populated = [bare_number 0]" "\<not> ds_poisoned populated"
  "entries (ds_engine populated) = [(entry_marker, MARKER_VALUE), (meta_key WITNESS, generation_cell 0)]"
  "ds_projection vacant = one_root" "ds_numbering vacant = [bare_number 0]" "entries (ds_engine vacant) = []"
  by (simp_all add: populated_def vacant_def memory_engine_new_def)

lemma populated_limits: "list_all (\<lambda>(k, v). cell_within_limits k v) (entries (ds_engine populated))"
  by (simp add: populated_handle cell_within_limits_def generation_cell_def entry_marker_def marker_key_layout MARKER_VALUE_def encode_key_value_simp
      meta_key_def WITNESS_def MAX_KEY_LEN_def MAX_VALUE_LEN_def)

theorem export_delivers_witness:
  "\<exists>report. export_cells memory_byte_engine (\<lambda>k v n. n + 1) (\<lambda>k v out. Inr (out @ [(k, v)]) :: unit + Cell list) (0 :: nat) [] populated
     = Some (Inr (report, 1, [(entry_marker, MARKER_VALUE)])) \<and> is_clean report"
proof -
  have view: "lawful_view (be_view memory_byte_engine) engine_cells engine_ok {}" using mem_reads.lawful_view_axioms by simp
  have L: "ordered_cells (engine_cells (ds_engine populated)) (entries (ds_engine populated))"
    using entry_marker_below by (auto simp: ordered_cells_def engine_cells_def populated_handle)
  from export_delivers [OF view _ populated_cells(2) _ populated_handle(3) L, of "\<lambda>k v n. n + 1" "\<lambda>k v out. Inr (out @ [(k, v)]) :: unit + Cell list" "0 :: nat" "[]"]
  show ?thesis using populated_valid one_root_numbered populated_named
    by (fastforce simp: populated_handle split: sum.splits halt.splits ExportError.splits)
qed

section \<open>The site of an undeclared index\<close>

text \<open>
  The walk seeks the root of an undeclared index cell with a cursor over \<open>Tables::roots\<close>, which is in
  declaration order, while \<open>seek_prefix\<close> expects ascending prefixes. Under an accepted numbering that gives
  a later root a lower number, the cell is reported at its raw key and not at its root and index identity.
\<close>

definition two_roots :: StoreProjection where
  "two_roots = \<lparr>sp_roots = [bare_root ''a'', bare_root ''b''], sp_sites = []\<rparr>"

lemma accepted_two_roots:
  "np_accepted two_roots [1, 0] 2 = Inr \<lparr>np_projection = two_roots, np_numbering = [bare_number 1, bare_number 0]\<rparr>"
  by (simp add: np_accepted_def two_roots_def bare_root_def bare_number_def number_projection_def MAX_STORE_NODES_def number_root_def number_fields_def word_le_nat_alt)

lemma number_bytes: "be_bytes (0 :: u32) = [0, 0, 0, 0]" "be_bytes (1 :: u32) = [0, 0, 0, 1]"
proof -
  have four: "LENGTH(32) div 8 = Suc (Suc (Suc (Suc 0)))" by simp
  show "be_bytes (0 :: u32) = [0, 0, 0, 0]" "be_bytes (1 :: u32) = [0, 0, 0, 1]" unfolding be_bytes_def four by simp_all
qed

lemma bare_index_family: "rsh_index_family (root_shape n (bare_number m)) = INDEX_FAMILY # be_bytes m"
  by (simp add: root_shape_def index_cell_layout bare_number_def)

lemma two_roots_tables:
  "\<exists>t a b. tables_new two_roots [bare_number m, bare_number n] = Inr t \<and> tb_roots t = [root_shape a (bare_number m), root_shape b (bare_number n)]"
  by (auto simp: tables_new_def two_roots_def bare_root_def root_families_def root_indexes_def update_or_panic_def sort_key_def root_shape_def Let_def
      nth_or_panic_def)

lemma undeclared_index_site_by_declaration_order:
  assumes "tables_new two_roots [bare_number m, bare_number n] = Inr t" "k = index_cell_key 0 (replicate 16 9) []"
  shows "m = 0 \<Longrightarrow> fst (outside_site t k (walker_new d)) = UndeclaredIndex 0 (replicate 16 9)"
    and "m = 1 \<Longrightarrow> fst (outside_site t k (walker_new d)) = CellSite k"
  using two_roots_tables [of m n] assms
  by (auto simp: outside_site_def seek_prefix_def walker_new_def index_cell_layout bare_index_family number_bytes)
end
