(* ===== verification/Transfer_Contract.thy ===== *)
theory Transfer_Contract
  imports Audit_Contract
begin

text \<open>
  Restoring a store from a stream of cells: over the memory engine the construction always returns, and
  succeeds exactly on an ordered stream of cells of the declared families and indexes that forms a valid
  store; an exported valid store restores to the same cells.
\<close>

section \<open>Batches\<close>

lemma btree_insert_last: "\<forall>(l, w) \<in> set m. l < k \<Longrightarrow> btree_insert k v m = m @ [(k, v)]"
  by (induction k v m rule: btree_insert.induct) auto

lemma put_batch_memory:
  "sorted_wrt (<) (map fst (txn_working t @ batch)) \<Longrightarrow> \<forall>(k, v) \<in> set batch. cell_within_limits k v \<Longrightarrow>
     put_batch mem_txn batch t = (Inr (), t\<lparr>txn_working := txn_working t @ batch\<rparr>)"
proof (induction batch arbitrary: t)
  case (Cons c batch)
  obtain k v where c: "c = (k, v)" by fastforce
  let ?t = "t\<lparr>txn_working := txn_working t @ [(k, v)]\<rparr>"
  have "\<forall>(l, w) \<in> set (txn_working t). l < k" using Cons.prems(1) c by (fastforce simp: sorted_wrt_append)
  then have "eng_put mem_txn k v t = (Inr (), ?t)"
    using Cons.prems(2) c by (subst mem_put_ok) (simp_all add: cell_within_limits_def btree_insert_last)
  moreover have "put_batch mem_txn batch ?t = (Inr (), ?t\<lparr>txn_working := txn_working ?t @ batch\<rparr>)"
    by (rule Cons.IH) (use Cons.prems c in auto)
  ultimately show ?case by (simp add: c)
qed simp

lemma commit_batch_memory:
  assumes "sorted_wrt (<) (map fst (entries g @ batch))" "\<forall>(k, v) \<in> set batch. cell_within_limits k v"
  shows "commit_batch memory_byte_engine batch g = (Inr (), \<lparr>entries = entries g @ batch\<rparr>)"
  using put_batch_memory [of "\<lparr>txn_base = entries g, txn_working = entries g\<rparr>" batch] assms
  by (simp add: commit_batch_def mem_commit_def)

section \<open>The stream\<close>

fun list_source :: "(Cell list, 'r) source" where
  "list_source [] = (Inr None, [])"
| "list_source (c # L) = (Inr (Some c), L)"

definition admissible :: "Tables \<Rightarrow> Cell list \<Rightarrow> bool" where
  "admissible t L \<longleftrightarrow> sorted_wrt (<) (map fst L) \<and> (\<forall>(k, v) \<in> set L. cell_within_limits k v \<and> (in_family t k \<or> in_index t k))"

text \<open>The first cell that a stream cannot offer, and why: too large, not above the cell before it, or of no declared name.\<close>

definition cell_fault :: "(bytes \<Rightarrow> bool) \<Rightarrow> bytes option \<Rightarrow> Cell \<Rightarrow> 'r RestoreError option" where
  "cell_fault named before c =
     (if \<not> cell_within_limits (fst c) (snd c) then Some CellLimit
      else if (case before of None \<Rightarrow> False | Some b \<Rightarrow> \<not> b < fst c) then Some Unordered
      else if \<not> named (fst c) then Some OutsideNamespace else None)"

fun stream_fault :: "(bytes \<Rightarrow> bool) \<Rightarrow> bytes option \<Rightarrow> Cell list \<Rightarrow> 'r RestoreError option" where
  "stream_fault named before [] = None"
| "stream_fault named before (c # L) =
     (case cell_fault named before c of Some e \<Rightarrow> Some e | None \<Rightarrow> stream_fault named (Some (fst c)) L)"

definition previous_key :: "Cell list \<Rightarrow> bytes option" where
  "previous_key P = (if P = [] then None else Some (fst (last P)))"

lemma previous_key_simps [simp]: "previous_key [] = None" "previous_key (P @ [c]) = Some (fst c)"
  by (simp_all add: previous_key_def)

definition loaded :: "Tables \<Rightarrow> Cell list \<Rightarrow> TransferState \<Rightarrow> MemoryEngine \<Rightarrow> bool" where
  "loaded t P st g \<longleftrightarrow>
     admissible t P \<and> entries g @ tr_batch st = P \<and> tr_previous st = previous_key P
     \<and> (\<forall>k. (\<forall>k' \<in> keys_of P. k' < k) \<longrightarrow> passed fam_prefix (tb_families t) (tr_family_cursor st) k
          \<and> passed ish_prefix (tb_indexes t) (tr_index_cursor st) k)
     \<and> tr_family_cursor st \<le> length (tb_families t) \<and> tr_index_cursor st \<le> length (tb_indexes t)"

lemma sorted_snoc: "sorted_wrt (<) (map fst (P @ [(k, v)])) \<longleftrightarrow> sorted_wrt (<) (map fst P) \<and> (P \<noteq> [] \<longrightarrow> fst (last P) < k)"
  for P :: "Cell list"
proof (cases P rule: rev_cases)
  case (snoc Q c)
  then show ?thesis by (auto simp: sorted_wrt_append intro: less_trans)
qed simp

lemma admissible_snoc:
  "admissible t (P @ [(k, v)]) \<longleftrightarrow> admissible t P \<and> cell_within_limits k v \<and> (P \<noteq> [] \<longrightarrow> fst (last P) < k) \<and> (in_family t k \<or> in_index t k)"
  using sorted_snoc [of P k v] by (auto simp: admissible_def)

lemma admissible_fault:
  "admissible t (P @ [(k, v)]) \<longleftrightarrow>
     admissible t P \<and> cell_fault (\<lambda>k. in_family t k \<or> in_index t k) (previous_key P) (k, v) = (None :: 'r RestoreError option)"
  by (auto simp: admissible_snoc cell_fault_def previous_key_def)

lemma admissible_prefix: "admissible t (P @ L) \<Longrightarrow> admissible t P"
  by (auto simp: admissible_def sorted_wrt_append)

lemma loaded_commit:
  assumes "loaded t P st g"
  shows "commit_batch memory_byte_engine (tr_batch st) g = (Inr (), \<lparr>entries = P\<rparr>)"
proof -
  have adm: "admissible t P" "entries g @ tr_batch st = P" using assms by (simp_all add: loaded_def)
  then have "\<forall>(k, v) \<in> set (tr_batch st). cell_within_limits k v" by (fastforce simp: admissible_def)
  then show ?thesis using commit_batch_memory [of g "tr_batch st"] adm by (simp add: admissible_def)
qed

lemma admit_cell_memory:
  assumes "tables_wf t specs" "loaded t P st g"
  shows "case cell_fault (\<lambda>k. in_family t k \<or> in_index t k) (previous_key P) (k, v) of
       None \<Rightarrow> \<exists>st' g'. admit_cell memory_byte_engine t (k, v) st g = (Inr st', g') \<and> loaded t (P @ [(k, v)]) st' g'
     | Some e \<Rightarrow> admit_cell memory_byte_engine t (k, v) st g = (Inl e, g)"
proof -
  have l: "admissible t P" "entries g @ tr_batch st = P" "tr_previous st = previous_key P"
    "tr_family_cursor st \<le> length (tb_families t)" "tr_index_cursor st \<le> length (tb_indexes t)"
    using assms(2) by (simp_all add: loaded_def)
  show ?thesis
  proof (cases "cell_within_limits k v \<and> (P \<noteq> [] \<longrightarrow> fst (last P) < k)")
    case False
    then show ?thesis using l(3) by (auto simp: admit_cell_def cell_fault_def previous_key_def not_less)
  next
    case True
    have sorted: "sorted_wrt (<) (map fst (P @ [(k, v)]))" using True l(1) sorted_snoc [of P k v] by (auto simp: admissible_def)
    then have after: "\<forall>k' \<in> keys_of P. k' < k" by (auto simp: sorted_wrt_append keys_of_def)
    obtain r fc ic where ns: "namespace t k (tr_family_cursor st) (tr_index_cursor st) = (r, fc, ic)" by (metis prod_cases3)
    have "passed fam_prefix (tb_families t) (tr_family_cursor st) k" "passed ish_prefix (tb_indexes t) (tr_index_cursor st) k"
      using assms(2) after by (auto simp: loaded_def)
    note spec = namespace_spec [OF assms(1) this l(4,5) ns]
    have found: "r = None \<longleftrightarrow> \<not> (in_family t k \<or> in_index t k)"
      using spec by (auto simp: in_family_def in_index_def split: option.splits Namespace.splits)
    have guards: "\<not> (case tr_previous st of Some before \<Rightarrow> before \<ge> k | None \<Rightarrow> False)" using True l(3) by (auto simp: previous_key_def)
    show ?thesis
    proof (cases r)
      case None
      then show ?thesis using found True guards ns l(3) by (simp add: cell_fault_def admit_cell_def not_le split: option.splits)
    next
      case (Some n)
      let ?size = "length k + length v"
      have adm: "admissible t (P @ [(k, v)])" using Some found True l(1) by (simp add: admissible_snoc)
      note commit = loaded_commit [OF assms(2)]
      have cursors: "passed fam_prefix (tb_families t) fc k' \<and> passed ish_prefix (tb_indexes t) ic k'"
        if "k < k'" for k'
        using spec that passed_later [of fam_prefix "tb_families t" fc k k'] passed_later [of ish_prefix "tb_indexes t" ic k k'] by simp
      have step: "admit_cell memory_byte_engine t (k, v) st g =
          (let st = st\<lparr>tr_family_cursor := fc, tr_index_cursor := ic\<rparr>;
               joined = (\<lambda>batch bytes_so_far. st\<lparr>tr_previous := Some k, tr_batch := batch @ [(k, v)], tr_bytes := bytes_so_far + ?size\<rparr>)
           in if batch_is_full (length (tr_batch st)) (tr_bytes st) ?size
              then (Inr (joined [] 0), \<lparr>entries = P\<rparr>) else (Inr (joined (tr_batch st) (tr_bytes st)), g))"
        using True guards ns Some by (simp add: admit_cell_def Let_def commit)
      have "cell_fault (\<lambda>k. in_family t k \<or> in_index t k) (previous_key P) (k, v) = (None :: 'a RestoreError option)"
        using adm admissible_fault [of t P k v, where 'r = 'a] by blast
      then show ?thesis unfolding step using adm l(2) spec cursors by (auto simp: Let_def loaded_def)
    qed
  qed
qed

lemma transfer_loop_list:
  assumes "tables_wf t specs"
  shows "loaded t P st g \<Longrightarrow>
    \<exists>r. transfer_loop memory_byte_engine t (list_source :: (Cell list, 'r) source) st L g = Some r
      \<and> (case stream_fault (\<lambda>k. in_family t k \<or> in_index t k) (previous_key P) L of
           None \<Rightarrow> \<exists>st' g'. r = (Inr st', [], g') \<and> loaded t (P @ L) st' g'
         | Some e \<Rightarrow> \<exists>i g'. r = (Inl e, i, g'))"
proof (induction L arbitrary: P st g)
  case Nil
  then show ?case by (subst transfer_loop.simps) (auto simp: loaded_def)
next
  case (Cons c L)
  obtain k v where c: "c = (k, v)" by fastforce
  note admit = admit_cell_memory [OF assms Cons.prems, of k v, where 'a = 'r]
  show ?case
  proof (cases "cell_fault (\<lambda>k. in_family t k \<or> in_index t k) (previous_key P) (k, v) :: 'r RestoreError option")
    case None
    then obtain st' g' where s: "admit_cell memory_byte_engine t (k, v) st g = (Inr st' :: 'r RestoreError + TransferState, g')" "loaded t (P @ [(k, v)]) st' g'"
      using admit by auto
    have "transfer_loop memory_byte_engine t (list_source :: (Cell list, 'r) source) st (c # L) g
        = transfer_loop memory_byte_engine t list_source st' L g'" by (subst transfer_loop.simps) (simp add: c s(1))
    then show ?thesis using Cons.IH [OF s(2), unfolded append_assoc append_Cons append_Nil] None unfolding c by simp
  next
    case (Some e)
    then have "admit_cell memory_byte_engine t (k, v) st g = (Inl e, g)" using admit by simp
    then show ?thesis using Some by (subst transfer_loop.simps) (simp add: c)
  qed
qed

lemma stream_fault_None:
  "admissible t P \<Longrightarrow>
     stream_fault (\<lambda>k. in_family t k \<or> in_index t k) (previous_key P) L = (None :: 'r RestoreError option) \<longleftrightarrow> admissible t (P @ L)"
proof (induction L arbitrary: P)
  case (Cons c L)
  have "admissible t (P @ [c]) \<longleftrightarrow> cell_fault (\<lambda>k. in_family t k \<or> in_index t k) (previous_key P) c = (None :: 'r RestoreError option)"
    using admissible_fault [of t P "fst c" "snd c"] Cons.prems by simp
  then show ?case using Cons.IH [of "P @ [c]"] admissible_prefix [of t "P @ [c]" L] by (auto split: option.splits)
qed simp

section \<open>The whole construction\<close>

lemma loaded_start: "entries g = [] \<Longrightarrow> loaded t [] transfer_start g"
  by (simp add: loaded_def transfer_start_def admissible_def)

lemma body_empty_memory:
  assumes "engine_ok g"
  shows "body_empty memory_byte_engine g = (if entries g = [] then Inr () else Inl NotEmpty)"
proof (cases "entries g")
  case Nil
  then show ?thesis by (simp add: body_empty_def mem_view_def mem_collect_after_def collect_after_def range_after_def)
next
  case (Cons c m)
  obtain k v where c: "c = (k, v)" by fastforce
  show ?thesis
  proof (cases "k = []")
    case True
    then show ?thesis using Cons c by (simp add: body_empty_def mem_view_def)
  next
    case False
    obtain page where page: "mem_collect_after (entries g) [] [] = Inr page" by (simp add: mem_collect_after_def)
    from mem_collect_page [OF _ _ page] assms have "page_of (map_of (entries g)) [] [] page" by (simp add: engine_ok_def)
    moreover have "k \<in> dom (map_of (entries g))" using Cons c by simp
    moreover have "[] < k" using False by (cases k) simp_all
    ultimately have "page \<noteq> []" unfolding page_of_def by auto
    then show ?thesis using Cons page by (auto simp: body_empty_def mem_view_def)
  qed
qed

lemma memory_audit: "be_audit_integrity memory_byte_engine g = (Inr (), g)"
  by (simp add: memory_byte_engine_def mem_audit_integrity_def)

lemma transfer_finish_memory:
  assumes "numbered p nb" "tables_of p nb t specs" "loaded t P st g"
  shows "\<exists>report. transfer_finish memory_byte_engine absorb t st d g = Some
     (if store_valid p nb (map_of P)
      then Inr (report, fold (\<lambda>(k, v). absorb k v) (filter (\<lambda>(k, v). entry_key p nb k) P) d)
      else Inl (Raise (Invalid report)), \<lparr>entries = P\<rparr>)
     \<and> sm_cells (ar_summary report) = length P \<and> (is_clean report \<longleftrightarrow> store_valid p nb (map_of P))"
proof -
  have adm: "admissible t P" "entries g @ tr_batch st = P" using assms(3) by (simp_all add: loaded_def)
  note commit = loaded_commit [OF assms(3)]
  have rest: "g = \<lparr>entries = P\<rparr>" if "tr_batch st = []" using adm(2) that by (cases g) simp
  let ?g = "\<lparr>entries = P\<rparr>"
  have sorted: "sorted_wrt (<) (map fst P)" using adm(1) by (simp add: admissible_def)
  have ok: "engine_ok ?g" "ordered_cells (engine_cells ?g) P" using sorted by (simp_all add: engine_ok_def btree_ok_def ordered_cells_def engine_cells_def)
  let ?consume = "\<lambda>kind k v u. Inr u :: unit + unit"
  obtain r where r: "walk_cells mem_view ?g absorb t ?consume d () = Some r" and
    post: "case r of
       Inr (report, d', c') \<Rightarrow> feed t ?consume P () = Inr c' \<and> sm_cells (ar_summary report) = card (dom (engine_cells ?g))
         \<and> d' = fold (\<lambda>(k, v). absorb k v) (filter (\<lambda>(k, v). entry_key p nb k) P) d
         \<and> (is_clean report \<longleftrightarrow> store_valid p nb (engine_cells ?g))
     | Inl (Raise (WalkStore e)) \<Rightarrow> e \<in> {}
     | Inl (Raise (WalkConsumer e)) \<Rightarrow> feed t ?consume P () = Inl e
     | Inl Panic \<Rightarrow> False"
    using walk_cells_report [OF mem_reads.lawful_view_axioms ok(1) assms(1,2) ok(2), of absorb ?consume d "()"] by blast
  have "feed t ?consume P () = Inr ()" by (rule feed_unit)
  then obtain report where report: "r = Inr (report, fold (\<lambda>(k, v). absorb k v) (filter (\<lambda>(k, v). entry_key p nb k) P) d, ())"
    "sm_cells (ar_summary report) = length P" "is_clean report \<longleftrightarrow> store_valid p nb (map_of P)"
    using post ordered_card [OF ok(2)] by (auto simp: engine_cells_def split: sum.splits halt.splits WalkError.splits)
  then show ?thesis
    using r rest by (intro exI [of _ report]) (simp add: transfer_finish_def commit inspect_def memory_audit)
qed

definition transferable :: "StoreProjection \<Rightarrow> RootNumbering list \<Rightarrow> Cell list \<Rightarrow> bool" where
  "transferable p nb L \<longleftrightarrow>
     sorted_wrt (<) (map fst L)
     \<and> list_all (\<lambda>(k, v). cell_within_limits k v \<and> (entry_key p nb k \<or> index_key p nb k)) L"

lemma admissible_transferable: "tables_of p nb t specs \<Longrightarrow> admissible t L \<longleftrightarrow> transferable p nb L"
  using in_family_declared in_index_declared by (auto simp: admissible_def transferable_def list_all_iff)

lemma restore_memory:
  assumes "engine_ok (ds_engine store)" "numbered (ds_projection store) (ds_numbering store)"
  shows "\<exists>r. restore memory_byte_engine absorb (list_source :: (Cell list, 'r) source) L d store = Some r \<and>
    (if entries (ds_engine store) = [] \<and> transferable (ds_projection store) (ds_numbering store) L
        \<and> store_valid (ds_projection store) (ds_numbering store) (map_of L)
     then \<exists>report. is_clean report \<and> sm_cells (ar_summary report) = length L \<and> r = Inr (store\<lparr>ds_engine := \<lparr>entries = L\<rparr>\<rparr>, report,
            fold (\<lambda>(k, v). absorb k v) (filter (\<lambda>(k, v). entry_key (ds_projection store) (ds_numbering store) k) L) d)
     else \<exists>e. r = Inl (Raise e) \<and> (if entries (ds_engine store) \<noteq> [] then e = NotEmpty
            else if \<not> transferable (ds_projection store) (ds_numbering store) L then
              stream_fault (\<lambda>k. entry_key (ds_projection store) (ds_numbering store) k \<or> index_key (ds_projection store) (ds_numbering store) k) None L = Some e
            else \<exists>report. e = Invalid report \<and> \<not> is_clean report))"
proof -
  let ?p = "ds_projection store" and ?nb = "ds_numbering store" and ?g = "ds_engine store"
  obtain t specs where t: "tables_new ?p ?nb = Inr t" "tables_of ?p ?nb t specs" using tables_new_of [OF assms(2)] by blast
  have wf: "tables_wf t specs" using t(2) by (simp add: tables_of_def)
  note adm = admissible_transferable [OF t(2), of L]
  have res: "restore memory_byte_engine absorb (list_source :: (Cell list, 'r) source) L d store =
      map_option (\<lambda>(r, _, g). rbind r (\<lambda>(report, digest). Inr (store\<lparr>ds_engine := g\<rparr>, report, digest)))
        (populate memory_byte_engine absorb t (list_source :: (Cell list, 'r) source) L d ?g)"
    using t(1) by (simp add: restore_def)
  show ?thesis
  proof (cases "entries ?g = []")
    case False
    then show ?thesis unfolding res by (simp add: populate_def body_empty_memory [OF assms(1)])
  next
    case True
    have pop: "populate memory_byte_engine absorb t (list_source :: (Cell list, 'r) source) L d ?g =
        Option.bind (transfer_loop memory_byte_engine t (list_source :: (Cell list, 'r) source) transfer_start L ?g) (\<lambda>(r, i, g).
            case r of
              Inl e \<Rightarrow> Some (Inl (Raise e), i, g)
            | Inr st \<Rightarrow> map_option (\<lambda>(r, g). (r, i, g)) (transfer_finish memory_byte_engine absorb t st d g))"
      by (simp add: populate_def body_empty_memory [OF assms(1)] True)
    let ?fault = "stream_fault (\<lambda>k. entry_key ?p ?nb k \<or> index_key ?p ?nb k) None L :: 'r RestoreError option"
    obtain r where r: "transfer_loop memory_byte_engine t (list_source :: (Cell list, 'r) source) transfer_start L ?g = Some r"
      "case ?fault of None \<Rightarrow> \<exists>st' g'. r = (Inr st', [], g') \<and> loaded t L st' g' | Some e \<Rightarrow> \<exists>i g'. r = (Inl e, i, g')"
      using transfer_loop_list [OF wf loaded_start [OF True], of L]
      unfolding append_Nil previous_key_simps in_family_declared [OF t(2)] in_index_declared [OF t(2)] by blast
    have fault: "?fault = None \<longleftrightarrow> admissible t L"
      using stream_fault_None [of t "[]" L] in_family_declared [OF t(2)] in_index_declared [OF t(2)] by (simp add: admissible_def)
    show ?thesis
    proof (cases "admissible t L")
      case False
      then obtain e i g' where "r = (Inl e, i, g')" "?fault = Some e" using r(2) fault by auto
      then show ?thesis unfolding res pop using r(1) True False adm by simp
    next
      case ok: True
      then obtain st' g' where s: "r = (Inr st', [], g')" "loaded t L st' g'" using r(2) fault by auto
      obtain report where f: "transfer_finish memory_byte_engine absorb t st' d g' = Some
        (if store_valid ?p ?nb (map_of L)
         then Inr (report, fold (\<lambda>(k, v). absorb k v) (filter (\<lambda>(k, v). entry_key ?p ?nb k) L) d)
         else Inl (Raise (Invalid report) :: 'r RestoreError halt), \<lparr>entries = L\<rparr>)"
        "sm_cells (ar_summary report) = length L" "is_clean report \<longleftrightarrow> store_valid ?p ?nb (map_of L)"
        using transfer_finish_memory [OF assms(2) t(2) s(2), of absorb d] by blast
      show ?thesis unfolding res pop using r(1) s(1) f True ok adm by (auto split: if_splits)
    qed
  qed
qed

section \<open>Export and restore\<close>

lemma store_valid_without_witness:
  assumes "store_valid p nb m"
  shows "store_valid p nb (m(meta_key WITNESS := None))"
proof -
  let ?m = "m(meta_key WITNESS := None)"
  have same: "?m k = m k" if "prefix (marker_key n keys) k" for n keys k using that witness_elsewhere(1) by auto
  have "node_valid ?m spec keys \<longleftrightarrow> node_valid m spec keys" for spec keys
    using sound_node_cong [of "spec_marker spec keys" ?m m] same [of "fsp_number spec" keys] by (simp add: node_valid_def spec_marker_def)
  moreover have "indexes_valid ?m s r \<longleftrightarrow> indexes_valid m s r" for s r
  proof -
    have "entry_row ?m (rn_root r) cols fs ix = entry_row m (rn_root r) cols fs ix" for cols fs ix
      using entry_row_cong [of "rn_root r" _ ?m m] same [of "rn_root r"] by (intro ext) blast
    moreover have "index_rows ?m (rn_root r) ix = index_rows m (rn_root r) ix" for ix
      using witness_elsewhere(2) by (auto simp: index_rows_def fun_eq_iff)
    ultimately show ?thesis by (simp add: indexes_valid_def coherent_def)
  qed
  ultimately show ?thesis using assms by (auto simp: store_valid_def)
qed

lemma placed_cell_key:
  assumes "placed_cell p nb k v" "length (sp_roots p) = length nb"
  shows "entry_key p nb k \<or> index_key p nb k \<or> k = meta_key WITNESS"
proof -
  have "entry_key p nb k" if "spec \<in> set (declared p nb)" "prefix (spec_marker spec keys) k" for spec keys
    using that by (auto simp: entry_key_def list_ex_iff spec_marker_def marker_prefix dest: append_prefixD)
  moreover have "index_key p nb k"
    if "i < length nb" "ix \<in> set (ss_indexes (sp_roots p ! i))" "k = index_cell_key (rn_root (nb ! i)) (ix_id ix) vals" for i ix vals
  proof -
    have "(sp_roots p ! i, nb ! i) \<in> set (zip (sp_roots p) nb)" using that(1) assms(2) by (force simp: in_set_zip)
    moreover have "prefix (index_cell_key (rn_root (nb ! i)) (ix_id ix) []) k" using that(3) by (simp add: index_cell_layout)
    ultimately show ?thesis using that(2) unfolding index_key_def list_ex_iff by fastforce
  qed
  ultimately show ?thesis using assms(1) unfolding placed_cell_def by blast
qed

text \<open>The keys of the two namespaces are not the witness key.\<close>

lemma named_not_witness: "entry_key p nb k \<or> index_key p nb k \<Longrightarrow> k \<noteq> meta_key WITNESS"
  by (auto simp: entry_key_def index_key_def list_ex_iff entry_prefix_layout index_cell_layout meta_key_def layout_tags)

lemma deliver_collect: "deliver (\<lambda>k v out. Inr (out @ [(k, v)])) L out = Inr (out @ L)"
  by (induction L arbitrary: out) auto

lemma exported_cells:
  assumes "store_valid p nb m" "ordered_cells m L" "length (sp_roots p) = length nb"
  shows "map_of (filter (\<lambda>(k, v). entry_key p nb k \<or> index_key p nb k) L) = m(meta_key WITNESS := None)"
proof
  fix k
  let ?F = "filter (\<lambda>(k, v). entry_key p nb k \<or> index_key p nb k) L"
  have d: "distinct (map fst ?F)" using assms(2) by (simp add: ordered_cells_def strict_sorted_iff distinct_map_filter)
  show "map_of ?F k = (m(meta_key WITNESS := None)) k"
  proof (cases "(m(meta_key WITNESS := None)) k")
    case None
    then have "k \<notin> fst ` set ?F" using ordered_cells_set [OF assms(2)] named_not_witness [of p nb k] by (auto split: if_splits)
    then show ?thesis using None by (simp add: map_of_eq_None_iff)
  next
    case (Some v)
    then have k: "k \<noteq> meta_key WITNESS" "m k = Some v" by (auto split: if_splits)
    then have "placed_cell p nb k v" using assms(1) by (simp add: store_valid_def)
    then have "entry_key p nb k \<or> index_key p nb k" using placed_cell_key [OF _ assms(3)] k(1) by blast
    then have "(k, v) \<in> set ?F" using k(2) ordered_cells_set [OF assms(2)] by auto
    then show ?thesis using d Some by simp
  qed
qed

text \<open>An export over the memory engine, whatever its sink, and the restore of what it delivers.\<close>

definition exported :: "StoreProjection \<Rightarrow> RootNumbering list \<Rightarrow> Cell list \<Rightarrow> Cell list" where
  "exported p nb L = filter (\<lambda>(k, v). entry_key p nb k \<or> index_key p nb k) L"

definition absorbed_entries :: "(bytes \<Rightarrow> bytes \<Rightarrow> 'd \<Rightarrow> 'd) \<Rightarrow> StoreProjection \<Rightarrow> RootNumbering list \<Rightarrow> Cell list \<Rightarrow> 'd \<Rightarrow> 'd" where
  "absorbed_entries absorb p nb L d = fold (\<lambda>(k, v). absorb k v) (filter (\<lambda>(k, v). entry_key p nb k) L) d"

lemma memory_ordered: "engine_ok g \<Longrightarrow> ordered_cells (engine_cells g) (entries g)"
  by (simp add: engine_ok_def btree_ok_def ordered_cells_def engine_cells_def)

lemma export_memory:
  assumes "engine_ok (ds_engine store)" "numbered (ds_projection store) (ds_numbering store)" "\<not> ds_poisoned store"
  shows "\<exists>report. (is_clean report \<longleftrightarrow> store_valid (ds_projection store) (ds_numbering store) (engine_cells (ds_engine store)))
     \<and> export_cells memory_byte_engine absorb sink d c store = Some
         (case deliver sink (exported (ds_projection store) (ds_numbering store) (entries (ds_engine store))) c of
            Inl e \<Rightarrow> Inl (Raise (ExportOutput e))
          | Inr c' \<Rightarrow> Inr (report, absorbed_entries absorb (ds_projection store) (ds_numbering store) (entries (ds_engine store)) d, c'))"
proof -
  let ?p = "ds_projection store" and ?nb = "ds_numbering store" and ?L = "entries (ds_engine store)"
  obtain t specs where t: "tables_new ?p ?nb = Inr t" "tables_of ?p ?nb t specs" using tables_new_of [OF assms(2)] by blast
  let ?consume = "\<lambda>kind k v c. case kind of AkOther \<Rightarrow> Inr c | _ \<Rightarrow> sink k v c"
  obtain r where r: "walk_cells mem_view (ds_engine store) absorb t ?consume d c = Some r" and
    post: "case r of
       Inr (report, d', c') \<Rightarrow> feed t ?consume ?L c = Inr c' \<and> sm_cells (ar_summary report) = card (dom (engine_cells (ds_engine store)))
         \<and> d' = fold (\<lambda>(k, v). absorb k v) (filter (\<lambda>(k, v). entry_key ?p ?nb k) ?L) d
         \<and> (is_clean report \<longleftrightarrow> store_valid ?p ?nb (engine_cells (ds_engine store)))
     | Inl (Raise (WalkStore e)) \<Rightarrow> e \<in> {}
     | Inl (Raise (WalkConsumer e)) \<Rightarrow> feed t ?consume ?L c = Inl e
     | Inl Panic \<Rightarrow> False"
    using walk_cells_report [OF mem_reads.lawful_view_axioms assms(1,2) t(2) memory_ordered [OF assms(1)], of absorb ?consume d c] by blast
  have fed: "feed t ?consume ?L c = deliver sink (exported ?p ?nb ?L) c"
    unfolding feed_deliver in_family_declared [OF t(2)] in_index_declared [OF t(2)] exported_def ..
  have clean: "\<exists>report. is_clean report \<longleftrightarrow> store_valid ?p ?nb (engine_cells (ds_engine store))"
    by (rule exI [of _ "\<lparr>ar_summary = \<lparr>sm_cells = 0, sm_entries = 0, sm_index_cells = 0, sm_findings = if store_valid ?p ?nb (engine_cells (ds_engine store)) then 0 else 1\<rparr>, ar_findings = []\<rparr>"])
      (simp add: is_clean_def)
  show ?thesis
    using r post t(1) assms(3) clean unfolding fed
    by (cases r) (auto simp: export_cells_def export_def absorbed_entries_def split: halt.splits WalkError.splits)
qed

lemma exported_restores:
  assumes "engine_ok (ds_engine store)" "numbered (ds_projection store) (ds_numbering store)"
    "store_valid (ds_projection store) (ds_numbering store) (engine_cells (ds_engine store))"
    "list_all (\<lambda>(k, v). cell_within_limits k v) (entries (ds_engine store))"
    "ds_projection target = ds_projection store" "ds_numbering target = ds_numbering store" "entries (ds_engine target) = []"
    "X = exported (ds_projection store) (ds_numbering store) (entries (ds_engine store))"
  shows "\<exists>report. is_clean report
     \<and> restore memory_byte_engine absorb (list_source :: (Cell list, 'r) source) X d target
         = Some (Inr (target\<lparr>ds_engine := \<lparr>entries = X\<rparr>\<rparr>, report,
             absorbed_entries absorb (ds_projection store) (ds_numbering store) (entries (ds_engine store)) d))"
    and "engine_cells \<lparr>entries = X\<rparr> = (engine_cells (ds_engine store))(meta_key WITNESS := None)"
proof -
  let ?p = "ds_projection store" and ?nb = "ds_numbering store" and ?L = "entries (ds_engine store)"
  note ord = memory_ordered [OF assms(1)]
  have cells: "map_of X = (engine_cells (ds_engine store))(meta_key WITNESS := None)"
    using exported_cells [OF assms(3) ord numbered_pairs(1) [OF assms(2)]] by (simp add: assms(8) exported_def)
  then show "engine_cells \<lparr>entries = X\<rparr> = (engine_cells (ds_engine store))(meta_key WITNESS := None)" by (simp add: engine_cells_def)
  have "transferable ?p ?nb X"
    using ord assms(4) by (auto simp: assms(8) exported_def transferable_def ordered_cells_def list_all_iff sorted_wrt_map sorted_wrt_filter)
  moreover have "store_valid ?p ?nb (map_of X)" unfolding cells by (rule store_valid_without_witness [OF assms(3)])
  moreover have "filter (\<lambda>(k, v). entry_key ?p ?nb k) X = filter (\<lambda>(k, v). entry_key ?p ?nb k) ?L"
    by (auto simp: assms(8) exported_def filter_filter intro: filter_cong)
  moreover have "engine_ok (ds_engine target)" using assms(7) by (simp add: engine_ok_def btree_ok_def)
  ultimately show "\<exists>report. is_clean report
     \<and> restore memory_byte_engine absorb (list_source :: (Cell list, 'r) source) X d target
         = Some (Inr (target\<lparr>ds_engine := \<lparr>entries = X\<rparr>\<rparr>, report, absorbed_entries absorb ?p ?nb ?L d))"
    using restore_memory [of target absorb X d] assms(2,5,6,7) by (auto simp: absorbed_entries_def)
qed

section \<open>Properties\<close>

text \<open>
  C30. Restoring into a memory store always returns. It succeeds exactly when the body is empty, the stream
  is strictly ascending, within the cell limits and inside the declared families and indexes, and the
  cells form a valid store; the new body then holds exactly the stream, the report is clean and the digest
  has absorbed the entry cells. A non-empty body, an inadmissible stream and an invalid store are each
  refused with their own errors; the error of an inadmissible stream is that of its first inadmissible cell.
\<close>

theorem restore_admits_valid:
  assumes "engine_ok (ds_engine store)" "numbered (ds_projection store) (ds_numbering store)"
  shows "\<exists>r. restore memory_byte_engine absorb (list_source :: (Cell list, 'r) source) L d store = Some r \<and>
    (if entries (ds_engine store) = [] \<and> transferable (ds_projection store) (ds_numbering store) L
        \<and> store_valid (ds_projection store) (ds_numbering store) (map_of L)
     then \<exists>report. is_clean report \<and> sm_cells (ar_summary report) = length L \<and> r = Inr (store\<lparr>ds_engine := \<lparr>entries = L\<rparr>\<rparr>, report,
            fold (\<lambda>(k, v). absorb k v) (filter (\<lambda>(k, v). entry_key (ds_projection store) (ds_numbering store) k) L) d)
     else \<exists>e. r = Inl (Raise e) \<and> (if entries (ds_engine store) \<noteq> [] then e = NotEmpty
            else if \<not> transferable (ds_projection store) (ds_numbering store) L then
              stream_fault (\<lambda>k. entry_key (ds_projection store) (ds_numbering store) k \<or> index_key (ds_projection store) (ds_numbering store) k) None L = Some e
            else \<exists>report. e = Invalid report \<and> \<not> is_clean report))"
  by (rule restore_memory [OF assms])

text \<open>
  C31. Export then restore: the cells exported from a valid store restore into an empty store of the same
  projection. The new body holds the same entry and index cells and no commit witness, and the digest of
  the restore is the digest of the export.
\<close>

theorem export_restore_roundtrip:
  assumes "engine_ok (ds_engine store)" "numbered (ds_projection store) (ds_numbering store)" "\<not> ds_poisoned store"
    "store_valid (ds_projection store) (ds_numbering store) (engine_cells (ds_engine store))"
    "list_all (\<lambda>(k, v). cell_within_limits k v) (entries (ds_engine store))"
    "ds_projection target = ds_projection store" "ds_numbering target = ds_numbering store" "entries (ds_engine target) = []"
  shows "\<exists>report d' out report'.
     export_cells memory_byte_engine absorb (\<lambda>k v out. Inr (out @ [(k, v)]) :: 'e + Cell list) d [] store = Some (Inr (report, d', out))
     \<and> restore memory_byte_engine absorb (list_source :: (Cell list, 'r) source) out d target
         = Some (Inr (target\<lparr>ds_engine := \<lparr>entries = out\<rparr>\<rparr>, report', d'))
     \<and> is_clean report \<and> is_clean report'
     \<and> engine_cells \<lparr>entries = out\<rparr> = (engine_cells (ds_engine store))(meta_key WITNESS := None)"
proof -
  let ?X = "exported (ds_projection store) (ds_numbering store) (entries (ds_engine store))"
  have "deliver (\<lambda>k v out. Inr (out @ [(k, v)]) :: 'e + Cell list) ?X [] = Inr ?X" by (simp add: deliver_collect)
  with export_memory [OF assms(1-3), of absorb "\<lambda>k v out. Inr (out @ [(k, v)]) :: 'e + Cell list" d "[]"]
    exported_restores(1) [OF assms(1,2,4-8) refl, of absorb d, where 'r = 'r] exported_restores(2) [OF assms(1,2,4-8) refl] assms(4)
  show ?thesis by fastforce
qed

text \<open>A stream of one entry restores; a cell of no declared name is refused.\<close>

theorem restore_admits_valid_witness:
  "\<exists>report.
     restore memory_byte_engine (\<lambda>k v n. n + 1) (list_source :: (Cell list, unit) source) [(entry_marker, MARKER_VALUE)] (0 :: nat) vacant
       = Some (Inr (vacant\<lparr>ds_engine := \<lparr>entries = [(entry_marker, MARKER_VALUE)]\<rparr>\<rparr>, report, 1)) \<and> is_clean report
     \<and> restore memory_byte_engine (\<lambda>k v n. n + 1) (list_source :: (Cell list, unit) source) [(meta_key WITNESS, [])] (0 :: nat) vacant
       = Some (Inl (Raise OutsideNamespace))"
proof -
  have ok: "engine_ok (ds_engine vacant)" "numbered (ds_projection vacant) (ds_numbering vacant)"
    using one_root_numbered by (simp_all add: populated_handle engine_ok_def btree_ok_def)
  have entry: "transferable one_root [bare_number 0] [(entry_marker, MARKER_VALUE)]"
    using populated_named(1) populated_limits by (simp add: transferable_def populated_handle)
  have valid: "store_valid one_root [bare_number 0] [entry_marker \<mapsto> MARKER_VALUE]" by (rule one_entry_valid) (auto split: if_splits)
  have stray: "\<not> transferable one_root [bare_number 0] [(meta_key WITNESS, [])]"
    using populated_named by (simp add: transferable_def)
  have fault: "stream_fault (\<lambda>k. entry_key one_root [bare_number 0] k \<or> index_key one_root [bare_number 0] k) None [(meta_key WITNESS, [])]
      = (Some OutsideNamespace :: unit RestoreError option)"
    using populated_named populated_limits by (simp add: cell_fault_def populated_handle cell_within_limits_def)
  note restored = restore_admits_valid [OF ok, of "\<lambda>k v n. n + 1" _ "0 :: nat", where 'r = unit, unfolded populated_handle]
  from restored [of "[(entry_marker, MARKER_VALUE)]"] obtain report where "is_clean report"
    "restore memory_byte_engine (\<lambda>k v n. n + 1) (list_source :: (Cell list, unit) source) [(entry_marker, MARKER_VALUE)] (0 :: nat) vacant
       = Some (Inr (vacant\<lparr>ds_engine := \<lparr>entries = [(entry_marker, MARKER_VALUE)]\<rparr>\<rparr>, report, 1))"
    using entry valid populated_named(1) by auto
  moreover from restored [of "[(meta_key WITNESS, [])]"]
  have "restore memory_byte_engine (\<lambda>k v n. n + 1) (list_source :: (Cell list, unit) source) [(meta_key WITNESS, [])] (0 :: nat) vacant
       = Some (Inl (Raise OutsideNamespace))" using stray fault by auto
  ultimately show ?thesis by blast
qed

theorem export_restore_roundtrip_witness:
  "\<exists>report d' out report'.
     export_cells memory_byte_engine (\<lambda>k v n. n + 1) (\<lambda>k v out. Inr (out @ [(k, v)]) :: unit + Cell list) (0 :: nat) [] populated
       = Some (Inr (report, d', out))
     \<and> restore memory_byte_engine (\<lambda>k v n. n + 1) (list_source :: (Cell list, unit) source) out (0 :: nat) vacant
         = Some (Inr (vacant\<lparr>ds_engine := \<lparr>entries = out\<rparr>\<rparr>, report', d'))
     \<and> is_clean report \<and> is_clean report' \<and> engine_cells \<lparr>entries = out\<rparr> = [entry_marker \<mapsto> MARKER_VALUE]"
proof -
  have cells: "(engine_cells (ds_engine populated))(meta_key WITNESS := None) = [entry_marker \<mapsto> MARKER_VALUE]"
    using entry_marker_below by (auto simp: populated_cells)
  show ?thesis
    using export_restore_roundtrip [of populated vacant "\<lambda>k v n. n + 1" "0 :: nat", where 'e = unit and 'r = unit]
      one_root_numbered populated_valid populated_limits
    unfolding cells by (simp add: populated_handle populated_cells(2))
qed

end
