(* ===== verification/Artifact_Codec.thy ===== *)
theory Artifact_Codec
  imports Prelude
begin

text \<open>
  The bounded big-endian reader and the rejection family that the persisted store artifacts share
  (\<open>crates/marrow-lifecycle/src/codec.rs\<close>), and the domain-separated digests that seal them
  (\<open>crates/marrow-image/src/store_digest.rs\<close>). A \<open>Reader\<close> is its unread suffix: the position only ever
  advances. SHA-256 is third-party code, a parameter \<open>H\<close> of the definitions that use it; what the artifacts
  rely on is its width.
\<close>

section \<open>Rejections\<close>

datatype FormatField =
    WriterToolchain
  | EngineKindField
  | PublicationState
  | AcceptedCeiling
  | HeadMapEntries
  | HeadMapLifetimeNumbers
  | BackupImage
  | BackupHead
  | BackupRecord
  | BackupKey
  | BackupValue
  | BackupCount

datatype MalformedReason =
    ReservedSlotsNotZero
  | ToolchainNotUtf8
  | HeadMapNumberAtOrAboveHighWater
  | HeadMapNumberReused
  | HeadMapLedgerIdReused
  | BackupCellsUnordered
  | BackupCountDiffers
  | BackupInputAlreadyFailed

datatype FormatError =
    BadMagic
  | UnknownVersion byte
  | UnsupportedImageVersion byte
  | Truncated
  | TrailingBytes
  | LengthOverflow FormatField
  | UnknownDiscriminant FormatField
  | DigestMismatch
  | Malformed MalformedReason

section \<open>The reader\<close>

definition ARTIFACT_PREFIX_BYTES :: nat where "ARTIFACT_PREFIX_BYTES = 5"

definition artifact_version :: "bytes \<Rightarrow> bytes \<Rightarrow> FormatError + byte" where
  "artifact_version pre magic = (if take 4 pre \<noteq> magic then Inl BadMagic else Inr (pre ! 4))"

type_synonym reader = bytes

definition rd_take :: "nat \<Rightarrow> reader \<Rightarrow> FormatError + bytes \<times> reader" where
  "rd_take n r = (if n \<le> length r then Inr (take n r, drop n r) else Inl Truncated)"

definition rd_u8 :: "reader \<Rightarrow> FormatError + byte \<times> reader" where
  "rd_u8 r = rbind (rd_take 1 r) (\<lambda>(raw, r). Inr (raw ! 0, r))"

definition rd_u32 :: "reader \<Rightarrow> FormatError + u32 \<times> reader" where
  "rd_u32 r = rbind (rd_take 4 r) (\<lambda>(raw, r). Inr (of_be_bytes raw, r))"

definition rd_u64 :: "reader \<Rightarrow> FormatError + u64 \<times> reader" where
  "rd_u64 r = rbind (rd_take 8 r) (\<lambda>(raw, r). Inr (of_be_bytes raw, r))"

text \<open>\<open>array::<N>\<close> and \<open>take_vec\<close>.\<close>

definition rd_array :: "nat \<Rightarrow> reader \<Rightarrow> FormatError + bytes \<times> reader" where
  "rd_array n r = rd_take n r"

definition rd_magic :: "bytes \<Rightarrow> reader \<Rightarrow> FormatError + reader" where
  "rd_magic expected r = rbind (rd_take (length expected) r) (\<lambda>(raw, r). if raw = expected then Inr r else Inl BadMagic)"

definition rd_finish :: "reader \<Rightarrow> FormatError + unit" where
  "rd_finish r = (if r = [] then Inr () else Inl TrailingBytes)"

definition put_u32 :: "bytes \<Rightarrow> u32 \<Rightarrow> bytes" where
  "put_u32 out v = out @ be_bytes v"

definition put_u64 :: "bytes \<Rightarrow> u64 \<Rightarrow> bytes" where
  "put_u64 out v = out @ be_bytes v"

section \<open>Digests\<close>

definition frame_id :: "(bytes \<Rightarrow> bytes) \<Rightarrow> bytes \<Rightarrow> bytes \<Rightarrow> bytes" where
  "frame_id H kind payload = H (kind @ be_bytes (word_of_nat (length payload) :: u64) @ payload)"

definition STORE_ENVELOPE_KIND :: bytes where "STORE_ENVELOPE_KIND = text_bytes ''marrow.store.env.v0''"
definition STORE_HEAD_KIND :: bytes where "STORE_HEAD_KIND = text_bytes ''marrow.store.head.v0''"
definition STORE_DATA_KIND :: bytes where "STORE_DATA_KIND = text_bytes ''marrow.store.data.v0''"
definition STORE_BACKUP_KIND :: bytes where "STORE_BACKUP_KIND = text_bytes ''marrow.store.backup.v0''"

definition envelope_digest :: "(bytes \<Rightarrow> bytes) \<Rightarrow> bytes \<Rightarrow> bytes" where
  "envelope_digest H payload = frame_id H STORE_ENVELOPE_KIND payload"

definition head_digest :: "(bytes \<Rightarrow> bytes) \<Rightarrow> bytes \<Rightarrow> bytes" where
  "head_digest H payload = frame_id H STORE_HEAD_KIND payload"

definition data_digest :: "(bytes \<Rightarrow> bytes) \<Rightarrow> bytes \<Rightarrow> bytes" where
  "data_digest H payload = frame_id H STORE_DATA_KIND payload"

definition backup_digest :: "(bytes \<Rightarrow> bytes) \<Rightarrow> bytes \<Rightarrow> bytes" where
  "backup_digest H payload = frame_id H STORE_BACKUP_KIND payload"

lemmas digest_defs = frame_id_def envelope_digest_def head_digest_def data_digest_def backup_digest_def

section \<open>Exact readers\<close>

text \<open>
  What an artifact decoder relies on in the readers of its fields: a reader succeeds exactly on the
  encodings of the values it accepts, and hands back what follows.
\<close>

locale exact_reader =
  fixes rd :: "reader \<Rightarrow> FormatError + 'a \<times> reader"
    and enc :: "'a \<Rightarrow> bytes"
    and ok :: "'a \<Rightarrow> bool"
  assumes exact: "rd r = Inr (x, rest) \<longleftrightarrow> ok x \<and> r = enc x @ rest"
begin

lemma reads_back: "ok x \<Longrightarrow> rd (enc x @ rest) = Inr (x, rest)"
  by (simp add: exact)

lemma self_delimiting: "ok x \<Longrightarrow> ok y \<Longrightarrow> enc x @ u = enc y @ v \<Longrightarrow> x = y \<and> u = v"
  by (metis reads_back sum.inject(2) prod.inject)

text \<open>Reading \<open>n\<close> values one after the other.\<close>

lemma many_exact:
  assumes "\<And>r. many 0 r = Inr ([], r)"
    and "\<And>n r. many (Suc n) r = rbind (rd r) (\<lambda>(x, r). rbind (many n r) (\<lambda>(xs, r). Inr (x # xs, r)))"
  shows "many n r = Inr (xs, rest) \<longleftrightarrow> length xs = n \<and> list_all ok xs \<and> r = concat (map enc xs) @ rest"
proof (induction n arbitrary: r xs)
  case (Suc n)
  then show ?case by (cases xs) (auto simp: assms(2) exact)
qed (auto simp: assms(1))

end

lemma rd_take_Inr: "rd_take n r = Inr (x, rest) \<longleftrightarrow> length x = n \<and> r = x @ rest"
  by (auto simp: rd_take_def)

interpretation u8: exact_reader rd_u8 "\<lambda>b. [b]" "\<lambda>_. True"
proof
  show "rd_u8 r = Inr (x, rest) \<longleftrightarrow> True \<and> r = [x] @ rest" for r x rest
    by (auto simp: rd_u8_def rd_take_Inr length_Suc_conv)
qed

interpretation u32: exact_reader rd_u32 be_bytes "\<lambda>_. True"
proof
  show "rd_u32 r = Inr (x, rest) \<longleftrightarrow> True \<and> r = be_bytes x @ rest" for r x rest
    by (auto simp: rd_u32_def rd_take_Inr be_bytes_of_be of_be_be_bytes)
qed

interpretation u64: exact_reader rd_u64 be_bytes "\<lambda>_. True"
proof
  show "rd_u64 r = Inr (x, rest) \<longleftrightarrow> True \<and> r = be_bytes x @ rest" for r x rest
    by (auto simp: rd_u64_def rd_take_Inr be_bytes_of_be of_be_be_bytes)
qed

interpretation arr: exact_reader "rd_array n" "\<lambda>b. b" "\<lambda>b. length b = n" for n
  by unfold_locales (simp add: rd_array_def rd_take_Inr)

lemma rd_magic_Inr: "rd_magic expected r = Inr rest \<longleftrightarrow> r = expected @ rest"
  by (auto simp: rd_magic_def rd_take_Inr)

lemma rd_finish_Inr: "rd_finish r = Inr u \<longleftrightarrow> r = []"
  by (simp add: rd_finish_def)

lemmas reader_exact = u8.exact u32.exact u64.exact arr.exact rd_magic_Inr rd_finish_Inr

lemma length_frame_id: "\<forall>x. length (H x) = 32 \<Longrightarrow> length (frame_id H kind payload) = 32"
  by (simp add: frame_id_def)

end
