(* ===== verification/Store_Head.thy ===== *)
theory Store_Head
  imports Artifact_Codec
begin

text \<open>
  The store's logical active head: the head identity map between ledger ids and compact numbers
  (\<open>crates/marrow-lifecycle/src/headmap.rs\<close>) and the sealed head container around it
  (\<open>crates/marrow-lifecycle/src/head.rs\<close>). The lemmas show that every way to a head map keeps the
  bijection and never reuses a number, and that the decoder accepts exactly the encoder's bytes.
  A ledger id and an identity digest are the byte arrays of the source, with their width as an invariant.
\<close>

section \<open>The head identity map\<close>

definition MAX_HEAD_MAP_ENTRIES :: nat where "MAX_HEAD_MAP_ENTRIES = 2 ^ 16"

record HeadMapEntry =
  hme_ledger_id :: bytes
  hme_number :: u32

record HeadMap =
  hm_entries :: "HeadMapEntry list"
  hm_next_number :: u32

fun bijection_loop :: "u32 \<Rightarrow> u32 set \<Rightarrow> bytes set \<Rightarrow> HeadMapEntry list \<Rightarrow> FormatError + unit" where
  "bijection_loop next_number seen_numbers seen_ids [] = Inr ()"
| "bijection_loop next_number seen_numbers seen_ids (entry # entries) =
     (if hme_number entry \<ge> next_number then Inl (Malformed HeadMapNumberAtOrAboveHighWater)
      else if hme_number entry \<in> seen_numbers then Inl (Malformed HeadMapNumberReused)
      else if hme_ledger_id entry \<in> seen_ids then Inl (Malformed HeadMapLedgerIdReused)
      else bijection_loop next_number (insert (hme_number entry) seen_numbers) (insert (hme_ledger_id entry) seen_ids) entries)"

definition check_bijection :: "HeadMap \<Rightarrow> FormatError + unit" where
  "check_bijection m = bijection_loop (hm_next_number m) {} {} (hm_entries m)"

text \<open>Fresh bindings from a first number on: the loops of \<open>assign\<close> and \<open>extend\<close>.\<close>

definition number_from :: "u32 \<Rightarrow> bytes list \<Rightarrow> HeadMapEntry list" where
  "number_from start ids = map (\<lambda>(offset, ledger_id). \<lparr>hme_ledger_id = ledger_id, hme_number = start + word_of_nat offset\<rparr>) (enumerate 0 ids)"

definition hm_assign :: "bytes list \<Rightarrow> FormatError + HeadMap" where
  "hm_assign ledger_ids =
     (if length ledger_ids > MAX_HEAD_MAP_ENTRIES then Inl (LengthOverflow HeadMapEntries)
      else let entries = number_from 0 ledger_ids;
               m = \<lparr>hm_entries = entries, hm_next_number = word_of_nat (length entries)\<rparr>
           in rbind (check_bijection m) (\<lambda>_. Inr m))"

definition number_of :: "HeadMap \<Rightarrow> bytes \<Rightarrow> u32 option" where
  "number_of m ledger_id = map_option hme_number (find (\<lambda>entry. hme_ledger_id entry = ledger_id) (hm_entries m))"

definition ledger_id_of :: "HeadMap \<Rightarrow> u32 \<Rightarrow> bytes option" where
  "ledger_id_of m number = map_option hme_ledger_id (find (\<lambda>entry. hme_number entry = number) (hm_entries m))"

definition hm_extend :: "HeadMap \<Rightarrow> bytes list \<Rightarrow> FormatError + HeadMap" where
  "hm_extend m additions =
     (if length (hm_entries m) + length additions > MAX_HEAD_MAP_ENTRIES then Inl (LengthOverflow HeadMapEntries)
      else if length additions \<ge> 2 ^ 32 \<or> unat (hm_next_number m) + length additions \<ge> 2 ^ 32
      then Inl (LengthOverflow HeadMapLifetimeNumbers)
      else let r = \<lparr>hm_entries = hm_entries m @ number_from (hm_next_number m) additions,
                    hm_next_number = hm_next_number m + word_of_nat (length additions)\<rparr>
           in rbind (check_bijection r) (\<lambda>_. Inr r))"

definition entry_bytes :: "HeadMapEntry \<Rightarrow> bytes" where
  "entry_bytes entry = put_u32 (hme_ledger_id entry) (hme_number entry)"

definition hm_encode :: "HeadMap \<Rightarrow> bytes \<Rightarrow> bytes" where
  "hm_encode m out =
     put_u32 (put_u32 out (hm_next_number m)) (word_of_nat (length (hm_entries m))) @ concat (map entry_bytes (hm_entries m))"

definition read_entry :: "reader \<Rightarrow> FormatError + HeadMapEntry \<times> reader" where
  "read_entry r =
     rbind (rd_array 16 r) (\<lambda>(ledger_id, r).
     rbind (rd_u32 r) (\<lambda>(number, r). Inr (\<lparr>hme_ledger_id = ledger_id, hme_number = number\<rparr>, r)))"

fun read_entries :: "nat \<Rightarrow> reader \<Rightarrow> FormatError + HeadMapEntry list \<times> reader" where
  "read_entries 0 r = Inr ([], r)"
| "read_entries (Suc n) r = rbind (read_entry r) (\<lambda>(entry, r). rbind (read_entries n r) (\<lambda>(entries, r). Inr (entry # entries, r)))"

definition hm_decode :: "reader \<Rightarrow> FormatError + HeadMap \<times> reader" where
  "hm_decode r =
     rbind (rd_u32 r) (\<lambda>(next_number, r).
     rbind (rd_u32 r) (\<lambda>(count, r).
       if unat count > MAX_HEAD_MAP_ENTRIES then Inl (LengthOverflow HeadMapEntries)
       else rbind (read_entries (unat count) r) (\<lambda>(entries, r).
            let m = \<lparr>hm_entries = entries, hm_next_number = next_number\<rparr>
            in rbind (check_bijection m) (\<lambda>_. Inr (m, r)))))"

section \<open>The logical head\<close>

definition HEAD_MAGIC :: bytes where "HEAD_MAGIC = text_bytes ''MWSH''"
definition HEAD_VERSION :: byte where "HEAD_VERSION = 0x02"
definition IMAGE_FORMAT_VERSION :: byte where "IMAGE_FORMAT_VERSION = 0x01"
definition MAX_ACCEPTED_CEILING_BYTES :: nat where "MAX_ACCEPTED_CEILING_BYTES = 4 * 1024 * 1024"
definition HEAD_FIXED_PREFIX_BYTES :: nat where "HEAD_FIXED_PREFIX_BYTES = 4 + 1 + 1 + 32 * 3 + 8 + 32 + 8"

definition MAX_HEAD_FILE_BYTES :: nat where
  "MAX_HEAD_FILE_BYTES = HEAD_FIXED_PREFIX_BYTES + 4 + 4 + MAX_HEAD_MAP_ENTRIES * (16 + 4) + 4 + MAX_ACCEPTED_CEILING_BYTES + 32"

definition head_file_ceiling :: "bytes \<Rightarrow> FormatError + nat" where
  "head_file_ceiling pre =
     rbind (artifact_version pre HEAD_MAGIC) (\<lambda>found. if found = HEAD_VERSION then Inr MAX_HEAD_FILE_BYTES else Inl (UnknownVersion found))"

record ActiveBinding =
  ab_image_format_version :: byte
  ab_image_id :: bytes
  ab_durable_contract :: bytes
  ab_interface :: bytes

definition facts_equal :: "ActiveBinding \<Rightarrow> ActiveBinding \<Rightarrow> bool" where
  "facts_equal a b \<longleftrightarrow> ab_durable_contract a = ab_durable_contract b \<and> ab_interface a = ab_interface b"

record LogicalHead =
  lh_binding :: ActiveBinding
  lh_commit_position :: u64
  lh_data_digest :: bytes
  lh_data_digest_position :: u64
  lh_head_map :: HeadMap
  lh_accepted_ceiling :: bytes

definition head_provision :: "ActiveBinding \<Rightarrow> bytes \<Rightarrow> HeadMap \<Rightarrow> LogicalHead" where
  "head_provision binding ceiling head_map =
     \<lparr>lh_binding = binding, lh_commit_position = 0, lh_data_digest = replicate 32 0, lh_data_digest_position = 0,
      lh_head_map = head_map, lh_accepted_ceiling = ceiling\<rparr>"

definition head_body :: "LogicalHead \<Rightarrow> bytes" where
  "head_body h =
     (let out = HEAD_MAGIC @ [HEAD_VERSION] @ [ab_image_format_version (lh_binding h)] @ ab_image_id (lh_binding h)
                  @ ab_durable_contract (lh_binding h) @ ab_interface (lh_binding h);
          out = put_u64 out (lh_commit_position h);
          out = out @ lh_data_digest h;
          out = put_u64 out (lh_data_digest_position h);
          out = hm_encode (lh_head_map h) out;
          out = put_u32 out (word_of_nat (length (lh_accepted_ceiling h)))
      in out @ lh_accepted_ceiling h)"

definition head_encode_with_digest :: "(bytes \<Rightarrow> bytes) \<Rightarrow> LogicalHead \<Rightarrow> bytes \<times> bytes" where
  "head_encode_with_digest H h =
     (let out = head_body h; digest = head_digest H out in (out @ digest, digest))"

definition head_encode :: "(bytes \<Rightarrow> bytes) \<Rightarrow> LogicalHead \<Rightarrow> bytes" where
  "head_encode H h = fst (head_encode_with_digest H h)"

definition read_binding :: "reader \<Rightarrow> FormatError + ActiveBinding \<times> reader" where
  "read_binding r =
     rbind (rd_u8 r) (\<lambda>(version, r).
     rbind (rd_array 32 r) (\<lambda>(image_id, r).
     rbind (rd_array 32 r) (\<lambda>(durable_contract, r).
     rbind (rd_array 32 r) (\<lambda>(interface, r).
       Inr (\<lparr>ab_image_format_version = version, ab_image_id = image_id, ab_durable_contract = durable_contract, ab_interface = interface\<rparr>, r)))))"

definition head_decode_with_digest :: "(bytes \<Rightarrow> bytes) \<Rightarrow> bytes \<Rightarrow> FormatError + LogicalHead \<times> bytes" where
  "head_decode_with_digest H bs =
     rbind (rd_magic HEAD_MAGIC bs) (\<lambda>r.
     rbind (rd_u8 r) (\<lambda>(version, r).
     if version \<noteq> HEAD_VERSION then Inl (UnknownVersion version) else
     rbind (read_binding r) (\<lambda>(binding, r).
     rbind (rd_u64 r) (\<lambda>(commit_position, r).
     rbind (rd_array 32 r) (\<lambda>(digest, r).
     rbind (rd_u64 r) (\<lambda>(digest_position, r).
     if commit_position \<noteq> 0 \<or> digest \<noteq> replicate 32 0 \<or> digest_position \<noteq> 0 then Inl (Malformed ReservedSlotsNotZero) else
     rbind (hm_decode r) (\<lambda>(head_map, r).
     rbind (rd_u32 r) (\<lambda>(ceiling_len, r).
     if unat ceiling_len > MAX_ACCEPTED_CEILING_BYTES then Inl (LengthOverflow AcceptedCeiling) else
     rbind (rd_array (unat ceiling_len) r) (\<lambda>(ceiling, r).
     rbind (rd_array 32 r) (\<lambda>(sealed, r).
     rbind (rd_finish r) (\<lambda>_.
       let h = \<lparr>lh_binding = binding, lh_commit_position = commit_position, lh_data_digest = digest,
                lh_data_digest_position = digest_position, lh_head_map = head_map, lh_accepted_ceiling = ceiling\<rparr>
       in if sealed \<noteq> head_digest H (head_body h) then Inl DigestMismatch
          else if ab_image_format_version binding \<noteq> IMAGE_FORMAT_VERSION
          then Inl (UnsupportedImageVersion (ab_image_format_version binding))
          else Inr (h, sealed))))))))))))"

definition head_decode :: "(bytes \<Rightarrow> bytes) \<Rightarrow> bytes \<Rightarrow> FormatError + LogicalHead" where
  "head_decode H bs = rbind (head_decode_with_digest H bs) (\<lambda>(h, _). Inr h)"

section \<open>The bijection\<close>

definition bijective :: "HeadMap \<Rightarrow> bool" where
  "bijective m \<longleftrightarrow>
     distinct (map hme_number (hm_entries m)) \<and> distinct (map hme_ledger_id (hm_entries m))
     \<and> list_all (\<lambda>entry. hme_number entry < hm_next_number m) (hm_entries m)"

lemma bijection_loop_iff:
  "bijection_loop n N I es = Inr () \<longleftrightarrow>
     distinct (map hme_number es) \<and> distinct (map hme_ledger_id es) \<and> list_all (\<lambda>e. hme_number e < n) es
     \<and> set (map hme_number es) \<inter> N = {} \<and> set (map hme_ledger_id es) \<inter> I = {}"
  by (induction n N I es rule: bijection_loop.induct) auto

lemma check_bijection_iff: "check_bijection m = Inr u \<longleftrightarrow> bijective m"
  by (simp add: check_bijection_def bijection_loop_iff bijective_def)

lemma length_number_from [simp]: "length (number_from n ids) = length ids"
  by (simp add: number_from_def)

lemma number_from_ids [simp]: "map hme_ledger_id (number_from n ids) = ids"
  by (simp add: number_from_def comp_def case_prod_beta')

lemma number_from_numbers: "map hme_number (number_from n ids) = map (\<lambda>k. n + word_of_nat k) [0..<length ids]"
  by (auto simp: number_from_def enumerate_eq_zip comp_def case_prod_beta' intro: nth_equalityI)

lemma unat_offset: "unat n + l < 2 ^ 32 \<Longrightarrow> k \<le> l \<Longrightarrow> unat (n + word_of_nat k) = unat n + k" for n :: u32
  by (simp add: unat_word_ariths unat_of_nat take_bit_eq_mod)

text \<open>The fresh numbers of an extension: distinct, from the old high-water up to the new one.\<close>

lemma number_from_fresh:
  assumes "unat n + length ids < 2 ^ 32"
  shows "distinct (map hme_number (number_from n ids))"
    and "\<forall>e \<in> set (number_from n ids). n \<le> hme_number e \<and> hme_number e < n + word_of_nat (length ids)"
proof -
  note off = unat_offset [OF assms]
  show "distinct (map hme_number (number_from n ids))"
    unfolding number_from_numbers by (auto simp: distinct_map inj_on_def word_unat_eq_iff off)
  have "hme_number e \<in> set (map hme_number (number_from n ids))" if "e \<in> set (number_from n ids)" for e using that by simp
  then show "\<forall>e \<in> set (number_from n ids). n \<le> hme_number e \<and> hme_number e < n + word_of_nat (length ids)"
    unfolding number_from_numbers by (fastforce simp: word_le_nat_alt word_less_nat_alt off)
qed

lemma hm_assign_Inr: "hm_assign ids = Inr m \<Longrightarrow> bijective m \<and> map hme_ledger_id (hm_entries m) = ids \<and> length ids \<le> MAX_HEAD_MAP_ENTRIES"
  by (auto simp: hm_assign_def Let_def check_bijection_iff split: if_splits)

lemma find_distinct:
  "distinct (map f xs) \<Longrightarrow> find (\<lambda>x. f x = k) xs = Some x \<longleftrightarrow> x \<in> set xs \<and> f x = k"
  by (induction xs) (auto simp: image_iff)

lemma lookups_inverse:
  assumes "bijective m"
  shows "number_of m i = Some n \<longleftrightarrow> ledger_id_of m n = Some i"
proof -
  have "number_of m i = Some n \<longleftrightarrow> (\<exists>e \<in> set (hm_entries m). hme_ledger_id e = i \<and> hme_number e = n)"
    using assms by (auto simp: number_of_def bijective_def find_distinct)
  also have "\<dots> \<longleftrightarrow> ledger_id_of m n = Some i" using assms by (auto simp: ledger_id_of_def bijective_def find_distinct)
  finally show ?thesis .
qed

section \<open>Exactness\<close>

definition sized_entry :: "HeadMapEntry \<Rightarrow> bool" where
  "sized_entry e \<longleftrightarrow> length (hme_ledger_id e) = 16"

definition head_map_ok :: "HeadMap \<Rightarrow> bool" where
  "head_map_ok m \<longleftrightarrow> bijective m \<and> length (hm_entries m) \<le> MAX_HEAD_MAP_ENTRIES \<and> list_all sized_entry (hm_entries m)"

interpretation entry: exact_reader read_entry entry_bytes sized_entry
proof
  show "read_entry r = Inr (x, rest) \<longleftrightarrow> sized_entry x \<and> r = entry_bytes x @ rest" for r x rest
    by (cases x) (auto simp: read_entry_def reader_exact entry_bytes_def put_u32_def sized_entry_def)
qed

lemma read_entries_exact: "read_entries n r = Inr (es, rest) \<longleftrightarrow> length es = n \<and> list_all sized_entry es \<and> r = concat (map entry_bytes es) @ rest"
  by (rule entry.many_exact) simp_all

lemma unat_length_u32: "n \<le> 2 ^ 16 \<Longrightarrow> unat (word_of_nat n :: u32) = n"
  by (simp add: unat_of_nat take_bit_eq_mod)

interpretation hmap: exact_reader hm_decode "\<lambda>m. hm_encode m []" head_map_ok
proof
  show "hm_decode r = Inr (m, rest) \<longleftrightarrow> head_map_ok m \<and> r = hm_encode m [] @ rest" for r m rest
  proof
    assume "hm_decode r = Inr (m, rest)"
    then show "head_map_ok m \<and> r = hm_encode m [] @ rest"
      by (auto simp: hm_decode_def reader_exact Let_def read_entries_exact check_bijection_iff head_map_ok_def hm_encode_def put_u32_def
          split: if_splits)
  next
    assume ok: "head_map_ok m \<and> r = hm_encode m [] @ rest"
    then have "unat (word_of_nat (length (hm_entries m)) :: u32) = length (hm_entries m)"
      by (intro unat_length_u32) (simp add: head_map_ok_def MAX_HEAD_MAP_ENTRIES_def)
    moreover have "read_entries (length (hm_entries m)) (concat (map entry_bytes (hm_entries m)) @ rest) = Inr (hm_entries m, rest)"
      using ok by (simp add: read_entries_exact head_map_ok_def)
    moreover have "check_bijection m = Inr ()" using ok by (simp add: check_bijection_iff head_map_ok_def)
    ultimately show "hm_decode r = Inr (m, rest)"
      using ok by (cases m) (simp add: hm_decode_def hm_encode_def put_u32_def u32.reads_back head_map_ok_def Let_def del: rbind_Inr_iff)
  qed
qed

definition sized_binding :: "ActiveBinding \<Rightarrow> bool" where
  "sized_binding b \<longleftrightarrow> length (ab_image_id b) = 32 \<and> length (ab_durable_contract b) = 32 \<and> length (ab_interface b) = 32"

definition binding_bytes :: "ActiveBinding \<Rightarrow> bytes" where
  "binding_bytes b = ab_image_format_version b # ab_image_id b @ ab_durable_contract b @ ab_interface b"

interpretation binding: exact_reader read_binding binding_bytes sized_binding
proof
  show "read_binding r = Inr (x, rest) \<longleftrightarrow> sized_binding x \<and> r = binding_bytes x @ rest" for r x rest
    by (cases x) (auto simp: read_binding_def reader_exact binding_bytes_def sized_binding_def)
qed

text \<open>The heads a provision can write: sized identities, reserved slots zero, a head map in its invariant, this image generation.\<close>

definition head_ok :: "LogicalHead \<Rightarrow> bool" where
  "head_ok h \<longleftrightarrow>
     sized_binding (lh_binding h) \<and> ab_image_format_version (lh_binding h) = IMAGE_FORMAT_VERSION
     \<and> lh_commit_position h = 0 \<and> lh_data_digest h = replicate 32 0 \<and> lh_data_digest_position h = 0
     \<and> head_map_ok (lh_head_map h) \<and> length (lh_accepted_ceiling h) \<le> MAX_ACCEPTED_CEILING_BYTES"

lemma hm_encode_append: "hm_encode m out = out @ hm_encode m []"
  by (simp add: hm_encode_def put_u32_def)

lemma head_body_layout:
  "head_body h = HEAD_MAGIC @ HEAD_VERSION # binding_bytes (lh_binding h) @ be_bytes (lh_commit_position h) @ lh_data_digest h
     @ be_bytes (lh_data_digest_position h) @ hm_encode (lh_head_map h) []
     @ be_bytes (word_of_nat (length (lh_accepted_ceiling h)) :: u32) @ lh_accepted_ceiling h"
  by (simp add: head_body_def Let_def put_u32_def put_u64_def hm_encode_append [of _ "_ @ _"] binding_bytes_def)

lemma head_exact:
  assumes "\<forall>x. length (H x) = 32"
  shows "head_decode_with_digest H bs = Inr (h, d) \<longleftrightarrow> head_ok h \<and> head_encode_with_digest H h = (bs, d)"
proof
  have ceiling_len: "unat (word_of_nat n :: u32) = n" if "n \<le> MAX_ACCEPTED_CEILING_BYTES" for n
    using that by (simp add: unat_of_nat take_bit_eq_mod MAX_ACCEPTED_CEILING_BYTES_def)
  have reads: "rd_magic m (m @ rest) = Inr rest" "rd_finish [] = Inr ()" for m rest by (simp_all add: rd_magic_Inr rd_finish_Inr)
  have width: "length (head_digest H x) = 32" for x using assms by (simp add: digest_defs)
  have seal: "rd_array 32 (head_digest H x) = Inr (head_digest H x, [])" for x using width by (simp add: arr.exact)
  have zero: "rd_array 32 (replicate 32 0 @ rest) = Inr (replicate 32 0, rest)" for rest by (simp add: arr.exact)
  show "head_decode_with_digest H bs = Inr (h, d)" if "head_ok h \<and> head_encode_with_digest H h = (bs, d)"
  proof -
    have ok: "head_ok h" and bs: "bs = head_body h @ head_digest H (head_body h)" "d = head_digest H (head_body h)"
      using that by (auto simp: head_encode_with_digest_def Let_def)
    show ?thesis
      using ok ceiling_len [of "length (lh_accepted_ceiling h)"] u8.reads_back
      by (cases h) (simp add: head_decode_with_digest_def bs head_body_layout reads binding.reads_back u64.reads_back zero hmap.reads_back
          u32.reads_back arr.reads_back seal head_ok_def Let_def del: rbind_Inr_iff)
  qed
  show "head_ok h \<and> head_encode_with_digest H h = (bs, d)" if "head_decode_with_digest H bs = Inr (h, d)"
    using that
    by (auto simp: head_decode_with_digest_def reader_exact binding.exact hmap.exact Let_def head_ok_def head_encode_with_digest_def
        head_body_layout split: if_splits)
qed

section \<open>Properties\<close>

lemma bijective_extended:
  assumes "bijective m" "unat (hm_next_number m) + length ids < 2 ^ 32"
  shows "bijective \<lparr>hm_entries = hm_entries m @ number_from (hm_next_number m) ids, hm_next_number = hm_next_number m + word_of_nat (length ids)\<rparr>
    \<longleftrightarrow> distinct ids \<and> set ids \<inter> hme_ledger_id ` set (hm_entries m) = {}"
proof -
  note fresh = number_from_fresh [OF assms(2)]
  have up: "hm_next_number m \<le> hm_next_number m + word_of_nat (length ids)"
    using unat_offset [OF assms(2), of "length ids"] by (simp add: word_le_nat_alt)
  have below: "hme_number e < hm_next_number m + word_of_nat (length ids)" if "e \<in> set (hm_entries m)" for e
    using assms(1) that up by (auto simp: bijective_def list_all_iff intro: less_le_trans)
  have apart: "hme_number ` set (hm_entries m) \<inter> hme_number ` set (number_from (hm_next_number m) ids) = {}"
    using assms(1) fresh(2) by (auto simp: bijective_def list_all_iff) (metis leD)
  have "set ids = hme_ledger_id ` set (number_from (hm_next_number m) ids)" by (simp flip: set_map)
  then show ?thesis
    using assms(1) fresh below apart by (auto simp: bijective_def list_all_iff)
qed

lemma find_append_kept: "find P xs = Some x \<Longrightarrow> find P (xs @ ys) = Some x"
  by (induction xs) auto

text \<open>
  C34. The head map never reuses a number: an extension of a bijective map succeeds exactly when the new ids
  are distinct, unknown and fit the two bounds; the result is bijective, every old id keeps its number, and
  the number of every new id lies between the old high-water and the new one. The map of a provision is
  bijective too, and binds the ids it was given in their order.
\<close>

theorem head_map_never_reuses:
  assumes "bijective m"
  shows "((\<exists>m'. hm_extend m ids = Inr m') \<longleftrightarrow>
       distinct ids \<and> set ids \<inter> hme_ledger_id ` set (hm_entries m) = {}
       \<and> length (hm_entries m) + length ids \<le> MAX_HEAD_MAP_ENTRIES \<and> unat (hm_next_number m) + length ids < 2 ^ 32)
     \<and> (\<forall>m'. hm_extend m ids = Inr m' \<longrightarrow>
       bijective m' \<and> (\<forall>i n. number_of m i = Some n \<longrightarrow> number_of m' i = Some n)
       \<and> (\<forall>i \<in> set ids. \<exists>n. number_of m' i = Some n \<and> ledger_id_of m' n = Some i \<and> hm_next_number m \<le> n \<and> n < hm_next_number m'))
     \<and> (\<forall>m'. hm_assign ids = Inr m' \<longrightarrow> bijective m' \<and> map hme_ledger_id (hm_entries m') = ids)"
proof (intro conjI allI impI)
  let ?r = "\<lparr>hm_entries = hm_entries m @ number_from (hm_next_number m) ids, hm_next_number = hm_next_number m + word_of_nat (length ids)\<rparr>"
  have ext: "hm_extend m ids = Inr m' \<longleftrightarrow> length (hm_entries m) + length ids \<le> MAX_HEAD_MAP_ENTRIES
      \<and> unat (hm_next_number m) + length ids < 2 ^ 32 \<and> bijective ?r \<and> m' = ?r" for m'
    by (auto simp: hm_extend_def Let_def check_bijection_iff)
  then show "(\<exists>m'. hm_extend m ids = Inr m') \<longleftrightarrow>
       distinct ids \<and> set ids \<inter> hme_ledger_id ` set (hm_entries m) = {}
       \<and> length (hm_entries m) + length ids \<le> MAX_HEAD_MAP_ENTRIES \<and> unat (hm_next_number m) + length ids < 2 ^ 32"
    using bijective_extended [OF assms] by blast
  fix m'
  assume "hm_extend m ids = Inr m'"
  then have room: "unat (hm_next_number m) + length ids < 2 ^ 32" and bij: "bijective ?r" and m': "m' = ?r" using ext by blast+
  have "number_of ?r i = Some n" if "number_of m i = Some n" for i n
    using that by (auto simp: number_of_def dest: find_append_kept)
  moreover have "\<exists>n. number_of ?r i = Some n \<and> ledger_id_of ?r n = Some i \<and> hm_next_number m \<le> n \<and> n < hm_next_number ?r"
    if i: "i \<in> set ids" for i
  proof -
    have "i \<in> hme_ledger_id ` set (number_from (hm_next_number m) ids)" using i by (metis set_map number_from_ids)
    then obtain e where e: "e \<in> set (number_from (hm_next_number m) ids)" "hme_ledger_id e = i" by blast
    have "number_of ?r i = Some (hme_number e)" using bij e by (auto simp: number_of_def find_distinct bijective_def)
    moreover from this have "ledger_id_of ?r (hme_number e) = Some i" using lookups_inverse [OF bij] by blast
    ultimately show ?thesis using number_from_fresh(2) [OF room] e(1) by auto
  qed
  ultimately show "bijective m'" "\<And>i n. number_of m i = Some n \<Longrightarrow> number_of m' i = Some n"
    "\<forall>i \<in> set ids. \<exists>n. number_of m' i = Some n \<and> ledger_id_of m' n = Some i \<and> hm_next_number m \<le> n \<and> n < hm_next_number m'"
    unfolding m' using bij by blast+
qed (auto dest: hm_assign_Inr)

lemma head_size:
  assumes "\<forall>x. length (H x) = 32" "head_ok h"
  shows "length (head_encode H h) \<le> MAX_HEAD_FILE_BYTES"
proof -
  have enc: "head_encode H h = head_body h @ head_digest H (head_body h)" by (simp add: head_encode_def head_encode_with_digest_def Let_def)
  have "length (entry_bytes e) = 20" if "e \<in> set (hm_entries (lh_head_map h))" for e
    using assms(2) that by (auto simp: head_ok_def head_map_ok_def list_all_iff sized_entry_def entry_bytes_def put_u32_def)
  then have "map (length \<circ> entry_bytes) (hm_entries (lh_head_map h)) = map (\<lambda>_. 20) (hm_entries (lh_head_map h))" by auto
  then have "length (concat (map entry_bytes (hm_entries (lh_head_map h)))) = length (hm_entries (lh_head_map h)) * 20"
    by (simp only: length_concat map_map) (simp add: sum_list_triv)
  then have "length (head_encode H h) = HEAD_FIXED_PREFIX_BYTES + 4 + 4 + length (hm_entries (lh_head_map h)) * 20 + 4 + length (lh_accepted_ceiling h) + 32"
    using assms by (simp add: enc head_body_layout HEAD_MAGIC_def binding_bytes_def HEAD_FIXED_PREFIX_BYTES_def head_ok_def sized_binding_def
        hm_encode_def put_u32_def digest_defs)
  then show ?thesis using assms(2) by (simp add: MAX_HEAD_FILE_BYTES_def head_ok_def head_map_ok_def)
qed

text \<open>
  C35. The head container is canonical: over a 32-byte digest, the decoder accepts exactly the encodings of
  well-formed heads, returns the head that was written and its digest, and the five-byte prefix of such a
  file admits a ceiling that the whole file respects.
\<close>

theorem head_codec_exact:
  assumes "\<forall>x. length (H x) = 32"
  shows "(head_decode_with_digest H bs = Inr (h, d) \<longleftrightarrow> head_ok h \<and> head_encode_with_digest H h = (bs, d))
     \<and> (head_ok h \<longrightarrow> head_file_ceiling (take ARTIFACT_PREFIX_BYTES (head_encode H h)) = Inr MAX_HEAD_FILE_BYTES
           \<and> length (head_encode H h) \<le> MAX_HEAD_FILE_BYTES)"
proof (intro conjI impI)
  show "head_decode_with_digest H bs = Inr (h, d) \<longleftrightarrow> head_ok h \<and> head_encode_with_digest H h = (bs, d)" by (rule head_exact [OF assms])
  assume "head_ok h"
  then show "length (head_encode H h) \<le> MAX_HEAD_FILE_BYTES" by (rule head_size [OF assms])
  have "take ARTIFACT_PREFIX_BYTES (head_encode H h) = HEAD_MAGIC @ [HEAD_VERSION]"
    by (simp add: head_encode_def head_encode_with_digest_def Let_def head_body_layout ARTIFACT_PREFIX_BYTES_def HEAD_MAGIC_def)
  then show "head_file_ceiling (take ARTIFACT_PREFIX_BYTES (head_encode H h)) = Inr MAX_HEAD_FILE_BYTES"
    by (simp add: head_file_ceiling_def artifact_version_def HEAD_MAGIC_def nth_append)
qed

text \<open>A map with one binding and its extension, and the head a provision writes over it.\<close>

definition one_binding :: HeadMap where
  "one_binding = \<lparr>hm_entries = [\<lparr>hme_ledger_id = replicate 16 1, hme_number = 17\<rparr>], hm_next_number = 90\<rparr>"

definition sample_head :: LogicalHead where
  "sample_head = head_provision \<lparr>ab_image_format_version = 1, ab_image_id = replicate 32 0x11, ab_durable_contract = replicate 32 0x22,
      ab_interface = replicate 32 0x33\<rparr> [0x44, 0x45] one_binding"

lemma one_binding_ok: "bijective one_binding" "head_ok sample_head"
  by (simp_all add: bijective_def one_binding_def sample_head_def head_provision_def head_ok_def sized_binding_def IMAGE_FORMAT_VERSION_def
      head_map_ok_def MAX_HEAD_MAP_ENTRIES_def sized_entry_def MAX_ACCEPTED_CEILING_BYTES_def)

theorem head_map_never_reuses_witness:
  "(\<exists>m'. hm_extend one_binding [replicate 16 2, replicate 16 3] = Inr m' \<and> number_of m' (replicate 16 1) = Some 17)
   \<and> (\<nexists>m'. hm_extend one_binding [replicate 16 1] = Inr m')"
proof -
  have room: "unat (90 :: u32) = 90" by simp
  have old: "number_of one_binding (replicate 16 1) = Some 17" by (simp add: number_of_def one_binding_def)
  have "replicate 16 (2 :: byte) \<noteq> replicate 16 1" "replicate 16 (3 :: byte) \<noteq> replicate 16 1" "replicate 16 (2 :: byte) \<noteq> replicate 16 3"
    by simp_all
  then show ?thesis
    using head_map_never_reuses [OF one_binding_ok(1), of "[replicate 16 2, replicate 16 3]"]
      head_map_never_reuses [OF one_binding_ok(1), of "[replicate 16 1]"] old room
    by (auto simp: one_binding_def MAX_HEAD_MAP_ENTRIES_def)
qed

theorem head_codec_exact_witness:
  "head_decode_with_digest (\<lambda>x. replicate 32 (hd x)) (head_encode (\<lambda>x. replicate 32 (hd x)) sample_head)
     = Inr (sample_head, head_digest (\<lambda>x. replicate 32 (hd x)) (head_body sample_head))
   \<and> length (head_encode (\<lambda>x. replicate 32 (hd x)) sample_head) \<le> MAX_HEAD_FILE_BYTES"
  using head_codec_exact [of "\<lambda>x. replicate 32 (hd x)" "head_encode (\<lambda>x. replicate 32 (hd x)) sample_head" sample_head] one_binding_ok(2)
  by (simp add: head_encode_def head_encode_with_digest_def Let_def)

end
