(* ===== verification/Backup_Stream.thy ===== *)
theory Backup_Stream
  imports Store_Head Cell_Transfer
begin

text \<open>
  Logical backups: the framed stream of a backup (\<open>crates/marrow-lifecycle/src/backup_stream.rs\<close>), the
  content digest chain (\<open>ChainDigest\<close> of \<open>audit.rs\<close>) and the composition of head, stream and export in
  \<open>write_backup\<close> (\<open>backup.rs\<close>). The destination and the source of the bytes are \<open>std::io\<close> objects, records
  and functions that the encoder and the decoder are given; a failed write leaves no state to continue from.
\<close>

section \<open>Input and output\<close>

datatype 'x IoError = UnexpectedEof | InvalidData "FormatError option" | FileTooLarge | IoOther 'x

datatype 'x StreamError = StreamIo "'x IoError" | StreamFormat FormatError

record ('w, 'x) writer =
  wr_write_all :: "bytes \<Rightarrow> 'w \<Rightarrow> 'x IoError + 'w"
  wr_flush :: "'w \<Rightarrow> 'x IoError + 'w"

type_synonym ('r, 'x) read_exact = "nat \<Rightarrow> 'r \<Rightarrow> ('x IoError + bytes) \<times> 'r"

section \<open>Records\<close>

definition BACKUP_PREFIX :: bytes where "BACKUP_PREFIX = text_bytes ''MWBK'' @ [0]"
definition MAX_IMAGE_BYTES :: nat where "MAX_IMAGE_BYTES = 512 * 1024"

datatype StreamState = Reading | Finished | Failed

definition chain_new :: "(bytes \<Rightarrow> bytes) \<Rightarrow> bytes" where
  "chain_new H = backup_digest H BACKUP_PREFIX"

definition chain_step :: "(bytes \<Rightarrow> bytes) \<Rightarrow> bytes \<Rightarrow> bytes \<Rightarrow> bytes" where
  "chain_step H chain record = backup_digest H (chain @ record)"

definition block :: "bytes \<Rightarrow> nat \<Rightarrow> FormatField \<Rightarrow> FormatError + bytes" where
  "block bs maximum field =
     (if length bs > maximum then Inl (LengthOverflow field)
      else if length bs \<ge> 2 ^ 32 then Inl (LengthOverflow field)
      else Inr (be_bytes (word_of_nat (length bs) :: u32) @ bs))"

definition cell_record :: "bytes \<Rightarrow> bytes \<Rightarrow> FormatError + bytes" where
  "cell_record key v =
     rbind (block key MAX_KEY_LEN BackupKey) (\<lambda>kb.
     rbind (block v MAX_VALUE_LEN BackupValue) (\<lambda>vb. Inr ([1] @ kb @ vb)))"

definition ordered :: "bytes option \<Rightarrow> bytes \<Rightarrow> FormatError + unit" where
  "ordered previous key =
     (if (case previous of Some before \<Rightarrow> before \<ge> key | None \<Rightarrow> False) then Inl (Malformed BackupCellsUnordered) else Inr ())"

definition footer :: "u64 \<Rightarrow> bytes" where
  "footer count = 0 # be_bytes count"

definition checked_count :: "u64 \<Rightarrow> u64 option" where
  "checked_count n = (if unat n + 1 < 2 ^ 64 then Some (n + 1) else None)"

section \<open>The encoder\<close>

record 'w Encoder =
  en_output :: 'w
  en_chain :: bytes
  en_previous :: "bytes option"
  en_count :: u64
  en_state :: StreamState

definition encoder_new :: "(bytes \<Rightarrow> bytes) \<Rightarrow> ('w, 'x) writer \<Rightarrow> 'w \<Rightarrow> bytes \<Rightarrow> bytes \<Rightarrow> 'x StreamError + 'w Encoder" where
  "encoder_new H W out img head =
     rbind (map_err StreamFormat (block img MAX_IMAGE_BYTES BackupImage)) (\<lambda>img.
     rbind (map_err StreamFormat (block head MAX_HEAD_FILE_BYTES BackupHead)) (\<lambda>head.
     rbind (map_err StreamIo (wr_write_all W BACKUP_PREFIX out)) (\<lambda>out.
     rbind (map_err StreamIo (wr_write_all W img out)) (\<lambda>out.
     rbind (map_err StreamIo (wr_write_all W head out)) (\<lambda>out.
       Inr \<lparr>en_output = out, en_chain = chain_step H (chain_step H (chain_new H) img) head, en_previous = None,
            en_count = 0, en_state = Reading\<rparr>)))))"

definition encoder_finish :: "(bytes \<Rightarrow> bytes) \<Rightarrow> ('w, 'x) writer \<Rightarrow> 'w Encoder \<Rightarrow> 'x IoError + bytes \<times> 'w" where
  "encoder_finish H W e =
     (if en_state e \<noteq> Reading then Inl (InvalidData None)
      else let closing = footer (en_count e); chain = chain_step H (en_chain e) closing
           in rbind (wr_write_all W closing (en_output e)) (\<lambda>out.
              rbind (wr_write_all W chain out) (\<lambda>out.
              rbind (wr_flush W out) (\<lambda>out. Inr (chain, out)))))"

definition encoder_cell :: "(bytes \<Rightarrow> bytes) \<Rightarrow> ('w, 'x) writer \<Rightarrow> bytes \<Rightarrow> bytes \<Rightarrow> 'w Encoder \<Rightarrow> ('x IoError + unit) \<times> 'w Encoder" where
  "encoder_cell H W key v e =
     (if en_state e \<noteq> Reading then (Inl (InvalidData None), e)
      else let e = e\<lparr>en_state := Failed\<rparr>
           in case ordered (en_previous e) key of
                Inl error \<Rightarrow> (Inl (InvalidData (Some error)), e)
              | Inr _ \<Rightarrow>
                  (case checked_count (en_count e) of
                     None \<Rightarrow> (Inl FileTooLarge, e)
                   | Some count \<Rightarrow>
                       (case cell_record key v of
                          Inl error \<Rightarrow> (Inl (InvalidData (Some error)), e)
                        | Inr record \<Rightarrow>
                            (case wr_write_all W record (en_output e) of
                               Inl error \<Rightarrow> (Inl error, e)
                             | Inr out \<Rightarrow>
                                 (Inr (), e\<lparr>en_output := out, en_chain := chain_step H (en_chain e) record, en_previous := Some key,
                                           en_count := count, en_state := Reading\<rparr>)))))"

text \<open>The encoder as the sink of an export, which ends at the sink's first error.\<close>

definition encoder_sink :: "(bytes \<Rightarrow> bytes) \<Rightarrow> ('w, 'x) writer \<Rightarrow> bytes \<Rightarrow> bytes \<Rightarrow> 'w Encoder \<Rightarrow> 'x IoError + 'w Encoder" where
  "encoder_sink H W key v e = (case encoder_cell H W key v e of (Inl error, _) \<Rightarrow> Inl error | (Inr _, e') \<Rightarrow> Inr e')"

section \<open>The decoder\<close>

record 'r Decoder =
  de_input :: 'r
  de_chain :: bytes
  de_previous :: "bytes option"
  de_count :: u64
  de_state :: StreamState

definition read_error :: "'x IoError \<Rightarrow> 'x StreamError" where
  "read_error error = (if error = UnexpectedEof then StreamFormat Truncated else StreamIo error)"

definition exact_bytes :: "('r, 'x) read_exact \<Rightarrow> nat \<Rightarrow> 'r \<Rightarrow> ('x StreamError + bytes) \<times> 'r" where
  "exact_bytes R n i = (case R n i of (r, i') \<Rightarrow> (map_err read_error r, i'))"

definition read_block :: "('r, 'x) read_exact \<Rightarrow> nat \<Rightarrow> FormatField \<Rightarrow> 'r \<Rightarrow> ('x StreamError + bytes) \<times> 'r" where
  "read_block R maximum field =
     sbind (exact_bytes R 4) (\<lambda>raw i.
       let len = unat (of_be_bytes raw :: u32)
       in if len > maximum then (Inl (StreamFormat (LengthOverflow field)), i) else exact_bytes R len i)"

definition decoder_new :: "(bytes \<Rightarrow> bytes) \<Rightarrow> ('r, 'x) read_exact \<Rightarrow> 'r \<Rightarrow> ('x StreamError + bytes \<times> bytes \<times> 'r Decoder) \<times> 'r" where
  "decoder_new H R =
     sbind (exact_bytes R 5) (\<lambda>pre.
     if take 4 pre \<noteq> take 4 BACKUP_PREFIX then (\<lambda>i. (Inl (StreamFormat BadMagic), i))
     else if pre ! 4 \<noteq> 0 then (\<lambda>i. (Inl (StreamFormat (UnknownVersion (pre ! 4))), i))
     else sbind (read_block R MAX_IMAGE_BYTES BackupImage) (\<lambda>img.
          sbind (read_block R MAX_HEAD_FILE_BYTES BackupHead) (\<lambda>head i.
            (rbind (map_err StreamFormat (block img MAX_IMAGE_BYTES BackupImage)) (\<lambda>image_block.
             rbind (map_err StreamFormat (block head MAX_HEAD_FILE_BYTES BackupHead)) (\<lambda>head_block.
               Inr (img, head, \<lparr>de_input = i, de_chain = chain_step H (chain_step H (chain_new H) image_block) head_block,
                                  de_previous = None, de_count = 0, de_state = Reading\<rparr>))), i))))"

definition on_input :: "('r \<Rightarrow> ('e + 'a) \<times> 'r) \<Rightarrow> 'r Decoder \<Rightarrow> ('e + 'a) \<times> 'r Decoder" where
  "on_input m d = (case m (de_input d) of (r, i) \<Rightarrow> (r, d\<lparr>de_input := i\<rparr>))"

definition accept_cell :: "(bytes \<Rightarrow> bytes) \<Rightarrow> bytes \<Rightarrow> bytes \<Rightarrow> 'r Decoder \<Rightarrow> ('x StreamError + Cell option) \<times> 'r Decoder" where
  "accept_cell H key v d =
     (case ordered (de_previous d) key of
        Inl error \<Rightarrow> (Inl (StreamFormat error), d)
      | Inr _ \<Rightarrow>
          (case checked_count (de_count d) of
             None \<Rightarrow> (Inl (StreamFormat (LengthOverflow BackupCount)), d)
           | Some count \<Rightarrow>
               (let d = d\<lparr>de_count := count\<rparr>
                in case cell_record key v of
                     Inl error \<Rightarrow> (Inl (StreamFormat error), d)
                   | Inr record \<Rightarrow> (Inr (Some (key, v)), d\<lparr>de_chain := chain_step H (de_chain d) record, de_previous := Some key\<rparr>))))"

definition accept_end :: "('r, 'x) read_exact \<Rightarrow> bytes \<Rightarrow> 'r Decoder \<Rightarrow> ('x StreamError + Cell option) \<times> 'r Decoder" where
  "accept_end R expected d =
     (if de_chain d \<noteq> expected then (Inl (StreamFormat DigestMismatch), d)
      else case R 1 (de_input d) of
             (Inl error, i) \<Rightarrow> (if error = UnexpectedEof then Inr None else Inl (StreamIo error), d\<lparr>de_input := i\<rparr>)
           | (Inr _, i) \<Rightarrow> (Inl (StreamFormat TrailingBytes), d\<lparr>de_input := i\<rparr>))"

definition read_cell_record :: "(bytes \<Rightarrow> bytes) \<Rightarrow> ('r, 'x) read_exact \<Rightarrow> 'r Decoder \<Rightarrow> ('x StreamError + Cell option) \<times> 'r Decoder" where
  "read_cell_record H R =
     sbind (on_input (read_block R MAX_KEY_LEN BackupKey)) (\<lambda>key.
     sbind (on_input (read_block R MAX_VALUE_LEN BackupValue)) (\<lambda>v. accept_cell H key v))"

definition read_footer :: "(bytes \<Rightarrow> bytes) \<Rightarrow> ('r, 'x) read_exact \<Rightarrow> 'r Decoder \<Rightarrow> ('x StreamError + Cell option) \<times> 'r Decoder" where
  "read_footer H R =
     sbind (on_input (exact_bytes R 8)) (\<lambda>raw d.
       let count = of_be_bytes raw
       in if count \<noteq> de_count d then (Inl (StreamFormat (Malformed BackupCountDiffers)), d)
          else sbind (on_input (exact_bytes R 32)) (accept_end R) (d\<lparr>de_chain := chain_step H (de_chain d) (footer count)\<rparr>))"

definition read_record :: "(bytes \<Rightarrow> bytes) \<Rightarrow> ('r, 'x) read_exact \<Rightarrow> 'r Decoder \<Rightarrow> ('x StreamError + Cell option) \<times> 'r Decoder" where
  "read_record H R =
     sbind (on_input (exact_bytes R 1)) (\<lambda>tag.
     if tag ! 0 = 1 then read_cell_record H R
     else if tag ! 0 = 0 then read_footer H R
     else (\<lambda>d. (Inl (StreamFormat (UnknownDiscriminant BackupRecord)), d)))"

definition next_cell :: "(bytes \<Rightarrow> bytes) \<Rightarrow> ('r, 'x) read_exact \<Rightarrow> 'r Decoder \<Rightarrow> ('x StreamError + Cell option) \<times> 'r Decoder" where
  "next_cell H R d =
     (case de_state d of
        Finished \<Rightarrow> (Inr None, d)
      | Failed \<Rightarrow> (Inl (StreamFormat (Malformed BackupInputAlreadyFailed)), d)
      | Reading \<Rightarrow>
          sbind (read_record H R) (\<lambda>cell d. (Inr cell, d\<lparr>de_state := if cell \<noteq> None then Reading else Finished\<rparr>))
            (d\<lparr>de_state := Failed\<rparr>))"

section \<open>Writing a backup\<close>

definition content_new :: "(bytes \<Rightarrow> bytes) \<Rightarrow> bytes" where
  "content_new H = data_digest H []"

definition content_absorb :: "(bytes \<Rightarrow> bytes) \<Rightarrow> bytes \<Rightarrow> bytes \<Rightarrow> bytes \<Rightarrow> bytes" where
  "content_absorb H key v state = data_digest H (state @ be_bytes (word_of_nat (length key) :: u64) @ key @ v)"

datatype 'x BackupFault = BackupRead SessionError | BackupInvalid AuditReport | BackupFormat FormatError | BackupIo "'x IoError"

fun stream_fault :: "'x StreamError \<Rightarrow> 'x BackupFault" where
  "stream_fault (StreamIo e) = BackupIo e"
| "stream_fault (StreamFormat e) = BackupFormat e"

text \<open>The report, the content digest, the backup digest and the finished output.\<close>

definition write_backup :: "(bytes \<Rightarrow> bytes) \<Rightarrow> ('w, 'x) writer \<Rightarrow> ('g, 'v, 's) byte_engine \<Rightarrow> LogicalHead \<Rightarrow> 'g DurableStore \<Rightarrow> bytes \<Rightarrow> 'w \<Rightarrow>
    ('x BackupFault halt + AuditReport \<times> bytes \<times> bytes \<times> 'w) option" where
  "write_backup H W B head store image_bytes out =
     (case encoder_new H W out image_bytes (fst (head_encode_with_digest H head)) of
        Inl e \<Rightarrow> Some (Inl (Raise (stream_fault e)))
      | Inr encoder \<Rightarrow>
          map_option (\<lambda>r.
            case r of
              Inl Panic \<Rightarrow> Inl Panic
            | Inl (Raise (ExportRead e)) \<Rightarrow> Inl (Raise (BackupRead e))
            | Inl (Raise (ExportOutput e)) \<Rightarrow> Inl (Raise (BackupIo e))
            | Inr (report, content, encoder) \<Rightarrow>
                if \<not> is_clean report then Inl (Raise (BackupInvalid report))
                else (case encoder_finish H W encoder of
                        Inl e \<Rightarrow> Inl (Raise (BackupIo e))
                      | Inr (digest, out) \<Rightarrow> Inr (report, content, digest, out)))
            (export_cells B (content_absorb H) (encoder_sink H W) (content_new H) encoder store))"

end
