(* ===== verification/Backup_Frames.thy ===== *)
theory Backup_Frames
  imports Backup_Stream
begin

text \<open>
  The backup stream over a byte buffer: the decoder delivers a complete list of cells exactly from the bytes
  that the encoder writes for them. \<open>source_yields\<close> says that a source delivers a list and then reports its
  end without an error.
\<close>

inductive source_yields :: "('i, 'r) source \<Rightarrow> 'i \<Rightarrow> Cell list \<Rightarrow> bool" for src where
  yields_end: "src i = (Inr None, i') \<Longrightarrow> source_yields src i []"
| yields_cell: "src i = (Inr (Some c), i') \<Longrightarrow> source_yields src i' L \<Longrightarrow> source_yields src i (c # L)"

inductive_simps source_yields_Nil: "source_yields src i []"
inductive_simps source_yields_Cons: "source_yields src i (c # L)"

section \<open>Buffers\<close>

text \<open>A \<open>Cursor\<close> over a byte slice, and a \<open>Vec<u8>\<close> as a \<open>Write\<close>.\<close>

definition slice_exact :: "(bytes, 'x) read_exact" where
  "slice_exact n bs = (if n \<le> length bs then (Inr (take n bs), drop n bs) else (Inl UnexpectedEof, []))"

definition vec_writer :: "(bytes, 'x) writer" where
  "vec_writer = \<lparr>wr_write_all = \<lambda>bs out. Inr (out @ bs), wr_flush = Inr\<rparr>"

section \<open>The stream as a function of its content\<close>

definition blk :: "bytes \<Rightarrow> bytes" where
  "blk b = be_bytes (word_of_nat (length b) :: u32) @ b"

fun cell_bytes :: "Cell \<Rightarrow> bytes" where
  "cell_bytes (k, v) = 1 # blk k @ blk v"

definition chained :: "(bytes \<Rightarrow> bytes) \<Rightarrow> bytes \<Rightarrow> bytes list \<Rightarrow> bytes" where
  "chained H chain records = foldl (chain_step H) chain records"

definition header_chain :: "(bytes \<Rightarrow> bytes) \<Rightarrow> bytes \<Rightarrow> bytes \<Rightarrow> bytes" where
  "header_chain H img head = chained H (chain_new H) [blk img, blk head]"

text \<open>What follows a header whose chain is \<open>chain\<close> when \<open>n\<close> cells went before.\<close>

definition tail_bytes :: "(bytes \<Rightarrow> bytes) \<Rightarrow> bytes \<Rightarrow> u64 \<Rightarrow> Cell list \<Rightarrow> bytes" where
  "tail_bytes H chain n cells =
     (let closing = footer (n + word_of_nat (length cells))
      in concat (map cell_bytes cells) @ closing @ chained H chain (map cell_bytes cells @ [closing]))"

definition backup_bytes :: "(bytes \<Rightarrow> bytes) \<Rightarrow> bytes \<Rightarrow> bytes \<Rightarrow> Cell list \<Rightarrow> bytes" where
  "backup_bytes H img head cells = BACKUP_PREFIX @ blk img @ blk head @ tail_bytes H (header_chain H img head) 0 cells"

definition follows :: "bytes option \<Rightarrow> Cell list \<Rightarrow> bool" where
  "follows previous cells \<longleftrightarrow>
     sorted_wrt (<) (map fst cells) \<and> (case previous of Some p \<Rightarrow> list_all (\<lambda>(k, v). p < k) cells | None \<Rightarrow> True)"

definition cells_fit :: "u64 \<Rightarrow> Cell list \<Rightarrow> bool" where
  "cells_fit n cells \<longleftrightarrow> list_all (\<lambda>(k, v). cell_within_limits k v) cells \<and> unat n + length cells < 2 ^ 64"

lemma tail_Cons: "tail_bytes H chain n (c # cells) = cell_bytes c @ tail_bytes H (chain_step H chain (cell_bytes c)) (n + 1) cells"
  by (simp add: tail_bytes_def Let_def chained_def add.assoc)

lemma tail_Nil: "tail_bytes H chain n [] = footer n @ chain_step H chain (footer n)"
  by (simp add: tail_bytes_def Let_def chained_def)

lemma follows_Cons: "follows previous ((k, v) # cells) \<longleftrightarrow> (case previous of Some p \<Rightarrow> p < k | None \<Rightarrow> True) \<and> follows (Some k) cells"
proof -
  have "list_all (\<lambda>(k', v). p < k') cells" if "p < k" "list_all (\<lambda>(k', v). k < k') cells" for p
    using that by (auto simp: list_all_iff intro: less_trans)
  then show ?thesis by (auto simp: follows_def list_all_iff split: option.splits)
qed

lemma unat_succ: "unat n + 1 < 2 ^ 64 \<Longrightarrow> unat (n + 1) = unat n + 1" for n :: u64
  by (simp add: unat_word_ariths)

lemma cells_fit_Cons: "cells_fit n ((k, v) # cells) \<longleftrightarrow> cell_within_limits k v \<and> unat n + 1 < 2 ^ 64 \<and> cells_fit (n + 1) cells"
  using unat_succ [of n] by (auto simp: cells_fit_def)

lemma block_Inr: "block b maximum field = Inr out \<longleftrightarrow> length b \<le> maximum \<and> length b < 2 ^ 32 \<and> out = blk b"
  by (auto simp: block_def blk_def)

lemma cell_record_Inr: "cell_record k v = Inr out \<longleftrightarrow> cell_within_limits k v \<and> out = cell_bytes (k, v)"
  by (auto simp: cell_record_def block_Inr cell_within_limits_def MAX_KEY_LEN_def MAX_VALUE_LEN_def)

lemma ordered_Inr: "ordered previous k = Inr u \<longleftrightarrow> (case previous of Some p \<Rightarrow> p < k | None \<Rightarrow> True)"
  by (auto simp: ordered_def not_le split: option.splits)

lemma checked_count_Some: "checked_count n = Some m \<longleftrightarrow> unat n + 1 < 2 ^ 64 \<and> m = n + 1"
  by (auto simp: checked_count_def)

section \<open>Reading\<close>

lemma slice_exact_Inr: "exact_bytes slice_exact n bs = (Inr x, rest) \<longleftrightarrow> length x = n \<and> bs = x @ rest"
  by (auto simp: exact_bytes_def slice_exact_def)

lemma on_input_Inr: "on_input m d = (Inr a, d') \<longleftrightarrow> (\<exists>i. m (de_input d) = (Inr a, i) \<and> d' = d\<lparr>de_input := i\<rparr>)"
  by (auto simp: on_input_def split: prod.splits)

lemma read_block_Inr:
  assumes "maximum < 2 ^ 32"
  shows "read_block slice_exact maximum field bs = (Inr b, rest) \<longleftrightarrow> length b \<le> maximum \<and> bs = blk b @ rest"
proof
  assume "read_block slice_exact maximum field bs = (Inr b, rest)"
  then obtain raw where raw: "length raw = 4" "bs = raw @ b @ rest" "length b = unat (of_be_bytes raw :: u32)" "length b \<le> maximum"
    by (auto simp: read_block_def sbind_Inr slice_exact_Inr Let_def split: if_splits)
  have "be_bytes (word_of_nat (length b) :: u32) = raw" unfolding raw(3) using raw(1) by (simp add: be_bytes_of_be)
  with raw(2,4) show "length b \<le> maximum \<and> bs = blk b @ rest" by (simp add: blk_def)
next
  assume b: "length b \<le> maximum \<and> bs = blk b @ rest"
  then have "unat (word_of_nat (length b) :: u32) = length b" using assms by (simp add: unat_of_nat take_bit_eq_mod)
  then show "read_block slice_exact maximum field bs = (Inr b, rest)"
    using b by (auto simp: read_block_def sbind_Inr slice_exact_Inr Let_def blk_def of_be_be_bytes intro!: exI [of _ "be_bytes (word_of_nat (length b) :: u32)"])
qed

lemma accept_cell_Inr:
  "accept_cell H k v d = (Inr c, d') \<longleftrightarrow>
     (case de_previous d of Some p \<Rightarrow> p < k | None \<Rightarrow> True) \<and> unat (de_count d) + 1 < 2 ^ 64 \<and> cell_within_limits k v \<and> c = Some (k, v)
     \<and> d' = d\<lparr>de_count := de_count d + 1, de_chain := chain_step H (de_chain d) (cell_bytes (k, v)), de_previous := Some k\<rparr>"
proof (cases "cell_within_limits k v")
  case True
  then have "cell_record k v = Inr (cell_bytes (k, v))" by (simp add: cell_record_Inr)
  then show ?thesis using True by (auto simp: accept_cell_def ordered_def checked_count_def Let_def not_le split: option.splits if_splits)
next
  case False
  then obtain e where "cell_record k v = Inl e" using cell_record_Inr by (cases "cell_record k v") auto
  then show ?thesis using False by (auto simp: accept_cell_def Let_def split: sum.splits option.splits)
qed

lemma accept_end_Inr:
  "accept_end slice_exact expected d = (Inr c, d') \<longleftrightarrow> de_chain d = expected \<and> de_input d = [] \<and> c = None \<and> d' = d"
  by (cases "de_input d") (auto simp: accept_end_def slice_exact_def Suc_le_eq)

lemma limits_u32: "MAX_KEY_LEN < 2 ^ 32" "MAX_VALUE_LEN < 2 ^ 32" "MAX_IMAGE_BYTES < 2 ^ 32" "MAX_HEAD_FILE_BYTES < 2 ^ 32"
  by (simp_all add: MAX_KEY_LEN_def MAX_VALUE_LEN_def MAX_IMAGE_BYTES_def MAX_HEAD_FILE_BYTES_def HEAD_FIXED_PREFIX_BYTES_def
      MAX_HEAD_MAP_ENTRIES_def MAX_ACCEPTED_CEILING_BYTES_def)

lemmas slice_reads = read_block_Inr [OF limits_u32(1)] read_block_Inr [OF limits_u32(2)] read_block_Inr [OF limits_u32(3)]
  read_block_Inr [OF limits_u32(4)] slice_exact_Inr on_input_Inr sbind_Inr

lemma read_cell_Inr:
  "read_cell_record H (slice_exact :: (bytes, 'x) read_exact) d = (Inr c, d') \<longleftrightarrow>
     (\<exists>k v rest. de_input d = blk k @ blk v @ rest \<and> (case de_previous d of Some p \<Rightarrow> p < k | None \<Rightarrow> True) \<and> unat (de_count d) + 1 < 2 ^ 64
       \<and> cell_within_limits k v \<and> c = Some (k, v) \<and> d' = d\<lparr>de_input := rest, de_count := de_count d + 1,
          de_chain := chain_step H (de_chain d) (cell_bytes (k, v)), de_previous := Some k\<rparr>)"
  (is "?L \<longleftrightarrow> ?R")
proof
  assume ?L
  then show ?R unfolding read_cell_record_def slice_reads accept_cell_Inr cell_within_limits_def by auto
next
  have block: "length b \<le> maximum \<Longrightarrow> maximum < 2 ^ 32 \<Longrightarrow> read_block slice_exact maximum field (blk b @ rest) = (Inr b, rest)" for b maximum field rest
    by (simp add: read_block_Inr)
  assume ?R
  then obtain k v rest where "de_input d = blk k @ blk v @ rest" "case de_previous d of Some p \<Rightarrow> p < k | None \<Rightarrow> True"
    "unat (de_count d) + 1 < 2 ^ 64" "cell_within_limits k v" "c = Some (k, v)"
    "d' = d\<lparr>de_input := rest, de_count := de_count d + 1, de_chain := chain_step H (de_chain d) (cell_bytes (k, v)), de_previous := Some k\<rparr>" by blast
  then show ?L
    using limits_u32(1,2) by (simp add: read_cell_record_def sbind_def on_input_def block cell_within_limits_def accept_cell_Inr)
qed

lemma read_footer_Inr:
  assumes "\<forall>x. length (H x) = 32"
  shows "read_footer H (slice_exact :: (bytes, 'x) read_exact) d = (Inr c, d') \<longleftrightarrow>
     de_input d = be_bytes (de_count d) @ chain_step H (de_chain d) (footer (de_count d))
     \<and> c = None \<and> d' = d\<lparr>de_input := [], de_chain := chain_step H (de_chain d) (footer (de_count d))\<rparr>" (is "?L \<longleftrightarrow> ?R")
proof
  assume ?L
  then obtain raw where "length raw = 8" "of_be_bytes raw = de_count d" "de_input d = raw @ chain_step H (de_chain d) (footer (de_count d))" "c = None"
    "d' = d\<lparr>de_input := [], de_chain := chain_step H (de_chain d) (footer (de_count d))\<rparr>"
    by (cases c) (auto simp: read_footer_def slice_reads accept_end_Inr Let_def split: if_splits)
  moreover have "raw = be_bytes (de_count d)" using calculation(1,2) be_bytes_of_be [of raw, where 'a = 64] by simp
  ultimately show ?R by simp
next
  assume ?R
  moreover have "length (chain_step H x f) = 32" for x f using assms by (simp add: chain_step_def digest_defs)
  ultimately show ?L
    by (simp add: read_footer_def sbind_def on_input_def exact_bytes_def slice_exact_def accept_end_def Let_def of_be_be_bytes)
qed

lemma read_record_Inr:
  "read_record H (slice_exact :: (bytes, 'x) read_exact) d = (Inr c, d') \<longleftrightarrow>
     (\<exists>rest. de_input d = 1 # rest \<and> read_cell_record H (slice_exact :: (bytes, 'x) read_exact) (d\<lparr>de_input := rest\<rparr>) = (Inr c, d'))
     \<or> (\<exists>rest. de_input d = 0 # rest \<and> read_footer H (slice_exact :: (bytes, 'x) read_exact) (d\<lparr>de_input := rest\<rparr>) = (Inr c, d'))"
  by (cases "de_input d") (auto simp: read_record_def sbind_def on_input_def exact_bytes_def slice_exact_def)

section \<open>Exactness\<close>

lemma next_cell_Some:
  assumes "\<forall>x. length (H x) = 32" "de_state d = Reading"
  shows "next_cell H slice_exact d = (Inr (Some (k, v)), d') \<longleftrightarrow>
     (\<exists>rest. de_input d = cell_bytes (k, v) @ rest \<and> (case de_previous d of Some p \<Rightarrow> p < k | None \<Rightarrow> True) \<and> unat (de_count d) + 1 < 2 ^ 64
       \<and> cell_within_limits k v \<and> d' = d\<lparr>de_input := rest, de_count := de_count d + 1,
          de_chain := chain_step H (de_chain d) (cell_bytes (k, v)), de_previous := Some k\<rparr>)"
  using assms(2) by (auto simp: next_cell_def sbind_Inr read_record_Inr read_cell_Inr read_footer_Inr [OF assms(1)])

lemma next_cell_None:
  assumes "\<forall>x. length (H x) = 32" "de_state d = Reading"
  shows "(\<exists>d'. next_cell H (slice_exact :: (bytes, 'x) read_exact) d = (Inr None, d')) \<longleftrightarrow> de_input d = footer (de_count d) @ chain_step H (de_chain d) (footer (de_count d))"
  using assms(2) by (auto simp: next_cell_def sbind_Inr read_record_Inr read_cell_Inr read_footer_Inr [OF assms(1)] footer_def)

lemma decoder_yields:
  assumes "\<forall>x. length (H x) = 32"
  shows "de_state d = Reading \<Longrightarrow>
    source_yields (next_cell H (slice_exact :: (bytes, 'x) read_exact)) d L \<longleftrightarrow>
      de_input d = tail_bytes H (de_chain d) (de_count d) L \<and> follows (de_previous d) L \<and> cells_fit (de_count d) L"
proof (induction L arbitrary: d)
  case Nil
  have "unat (de_count d) < 2 ^ 64" using unsigned_less [of "de_count d"] by simp
  then show ?case using next_cell_None [OF assms Nil.prems, where 'x = 'x]
    by (simp add: source_yields_Nil tail_Nil follows_def cells_fit_def split: option.splits)
next
  case (Cons c L)
  obtain k v where c: "c = (k, v)" by fastforce
  let ?d = "\<lambda>r. d\<lparr>de_input := r, de_count := de_count d + 1, de_chain := chain_step H (de_chain d) (cell_bytes (k, v)), de_previous := Some k\<rparr>"
  have ih: "source_yields (next_cell H (slice_exact :: (bytes, 'x) read_exact)) (?d r) L \<longleftrightarrow>
      r = tail_bytes H (chain_step H (de_chain d) (cell_bytes (k, v))) (de_count d + 1) L \<and> follows (Some k) L \<and> cells_fit (de_count d + 1) L" for r
    using Cons.IH [of "?d r"] Cons.prems by simp
  have "source_yields (next_cell H (slice_exact :: (bytes, 'x) read_exact)) d (c # L) \<longleftrightarrow>
      (\<exists>r. de_input d = cell_bytes (k, v) @ r \<and> (case de_previous d of Some p \<Rightarrow> p < k | None \<Rightarrow> True) \<and> unat (de_count d) + 1 < 2 ^ 64
         \<and> cell_within_limits k v \<and> source_yields (next_cell H (slice_exact :: (bytes, 'x) read_exact)) (?d r) L)"
    unfolding c source_yields_Cons next_cell_Some [OF assms Cons.prems] by (rule iffI; elim exE conjE; intro exI conjI; assumption?) auto
  then show ?case unfolding ih by (auto simp: c tail_Cons follows_Cons cells_fit_Cons simp del: cell_bytes.simps)
qed

lemma decoder_new_Inr:
  "decoder_new H slice_exact bs = (Inr (img, head, d), rest) \<longleftrightarrow>
     length img \<le> MAX_IMAGE_BYTES \<and> length head \<le> MAX_HEAD_FILE_BYTES \<and> bs = BACKUP_PREFIX @ blk img @ blk head @ rest
     \<and> d = \<lparr>de_input = rest, de_chain = header_chain H img head, de_previous = None, de_count = 0, de_state = Reading\<rparr>" (is "?L \<longleftrightarrow> ?R")
proof
  have five: "pre = BACKUP_PREFIX" if "length pre = 5" "take 4 pre = take 4 BACKUP_PREFIX" "pre ! 4 = 0" for pre
  proof -
    have "pre = take 4 pre @ [pre ! 4]" using that(1) by (subst take_Suc_conv_app_nth [symmetric]) simp_all
    then show ?thesis using that(2,3) by (simp add: BACKUP_PREFIX_def)
  qed
  assume ?L
  then show ?R
    by (auto simp: decoder_new_def slice_reads block_Inr header_chain_def chained_def split: if_splits dest: five)
next
  assume ?R
  moreover have "length BACKUP_PREFIX = 5" "BACKUP_PREFIX ! 4 = 0" by (simp_all add: BACKUP_PREFIX_def nth_append)
  ultimately show ?L using limits_u32(3,4)
    by (auto simp: decoder_new_def slice_reads block_Inr header_chain_def chained_def intro!: exI [of _ BACKUP_PREFIX])
qed

end
