(* ===== verification/Store_Envelope.thy ===== *)
theory Store_Envelope
  imports Artifact_Codec
begin

text \<open>
  The store envelope: identity, writer provenance and the persistent publication state
  (\<open>crates/marrow-lifecycle/src/envelope.rs\<close>), and the instance identity it carries
  (\<open>crates/marrow-lifecycle/src/instance.rs\<close>). A toolchain version is a Rust string, its valid UTF-8 bytes.
\<close>

definition ENVELOPE_MAGIC :: bytes where "ENVELOPE_MAGIC = text_bytes ''MWSE''"
definition ENVELOPE_VERSION :: byte where "ENVELOPE_VERSION = 0x01"
definition MAX_TOOLCHAIN_BYTES :: nat where "MAX_TOOLCHAIN_BYTES = 64"
definition MAX_ENVELOPE_FILE_BYTES :: nat where "MAX_ENVELOPE_FILE_BYTES = 30 + MAX_TOOLCHAIN_BYTES + 32 + 1 + 2 * 32"

definition envelope_file_ceiling :: "bytes \<Rightarrow> FormatError + nat" where
  "envelope_file_ceiling pre =
     rbind (artifact_version pre ENVELOPE_MAGIC) (\<lambda>found. if found = ENVELOPE_VERSION then Inr MAX_ENVELOPE_FILE_BYTES else Inl (UnknownVersion found))"

datatype EngineKind = Redb

fun engine_tag :: "EngineKind \<Rightarrow> byte" where
  "engine_tag Redb = 0x01"

definition engine_from_tag :: "byte \<Rightarrow> FormatError + EngineKind" where
  "engine_from_tag tag = (if tag = 0x01 then Inr Redb else Inl (UnknownDiscriminant EngineKindField))"

record StoreEnvelope =
  se_instance :: bytes
  se_writer_toolchain :: bytes
  se_engine_kind :: EngineKind
  se_engine_format_version :: u32

datatype EnvelopeState = Active | Provision bytes | Rebind bytes bytes

record EnvelopeRecord =
  er_metadata :: StoreEnvelope
  er_state :: EnvelopeState

fun state_bytes :: "EnvelopeState \<Rightarrow> bytes" where
  "state_bytes Active = [0]"
| "state_bytes (Provision head) = 1 # head"
| "state_bytes (Rebind old new) = 2 # old @ new"

definition envelope_body :: "EnvelopeRecord \<Rightarrow> FormatError + bytes" where
  "envelope_body rec =
     (let metadata = er_metadata rec; toolchain = se_writer_toolchain metadata in
      if length toolchain > MAX_TOOLCHAIN_BYTES then Inl (LengthOverflow WriterToolchain)
      else let out = ENVELOPE_MAGIC @ [ENVELOPE_VERSION] @ se_instance metadata;
               out = put_u32 out (word_of_nat (length toolchain)) @ toolchain @ [engine_tag (se_engine_kind metadata)];
               out = put_u32 out (se_engine_format_version metadata)
           in Inr (out @ state_bytes (er_state rec)))"

definition envelope_encode :: "(bytes \<Rightarrow> bytes) \<Rightarrow> EnvelopeRecord \<Rightarrow> FormatError + bytes" where
  "envelope_encode H rec = rbind (envelope_body rec) (\<lambda>out. Inr (out @ envelope_digest H out))"

definition read_state :: "reader \<Rightarrow> FormatError + EnvelopeState \<times> reader" where
  "read_state r =
     rbind (rd_u8 r) (\<lambda>(tag, r).
       if tag = 0 then Inr (Active, r)
       else if tag = 1 then rbind (rd_array 32 r) (\<lambda>(head, r). Inr (Provision head, r))
       else if tag = 2 then rbind (rd_array 32 r) (\<lambda>(old, r). rbind (rd_array 32 r) (\<lambda>(new, r). Inr (Rebind old new, r)))
       else Inl (UnknownDiscriminant PublicationState))"

definition read_engine_kind :: "reader \<Rightarrow> FormatError + EngineKind \<times> reader" where
  "read_engine_kind r = rbind (rd_u8 r) (\<lambda>(tag, r). rbind (engine_from_tag tag) (\<lambda>kind. Inr (kind, r)))"

definition envelope_decode :: "(bytes \<Rightarrow> bytes) \<Rightarrow> bytes \<Rightarrow> FormatError + EnvelopeRecord" where
  "envelope_decode H bs =
     rbind (rd_magic ENVELOPE_MAGIC bs) (\<lambda>r.
     rbind (rd_u8 r) (\<lambda>(version, r).
     if version \<noteq> ENVELOPE_VERSION then Inl (UnknownVersion version) else
     rbind (rd_array 16 r) (\<lambda>(inst, r).
     rbind (rd_u32 r) (\<lambda>(toolchain_len, r).
     if unat toolchain_len > MAX_TOOLCHAIN_BYTES then Inl (LengthOverflow WriterToolchain) else
     rbind (rd_array (unat toolchain_len) r) (\<lambda>(toolchain_bytes, r).
     rbind (ok_or (from_utf8 toolchain_bytes) (Malformed ToolchainNotUtf8)) (\<lambda>writer_toolchain.
     rbind (read_engine_kind r) (\<lambda>(engine_kind, r).
     rbind (rd_u32 r) (\<lambda>(engine_format_version, r).
     rbind (read_state r) (\<lambda>(state, r).
     rbind (rd_array 32 r) (\<lambda>(sealed, r).
     rbind (rd_finish r) (\<lambda>_.
       if sealed \<noteq> envelope_digest H (take (length bs - 32) bs) then Inl DigestMismatch
       else Inr \<lparr>er_metadata = \<lparr>se_instance = inst, se_writer_toolchain = writer_toolchain, se_engine_kind = engine_kind,
                                 se_engine_format_version = engine_format_version\<rparr>,
                 er_state = state\<rparr>)))))))))))"

section \<open>Exactness\<close>

fun sized_state :: "EnvelopeState \<Rightarrow> bool" where
  "sized_state Active \<longleftrightarrow> True"
| "sized_state (Provision head) \<longleftrightarrow> length head = 32"
| "sized_state (Rebind old new) \<longleftrightarrow> length old = 32 \<and> length new = 32"

text \<open>The typed records: \<open>[u8; 16]\<close> and \<open>[u8; 32]\<close> arrays and a valid string.\<close>

definition record_ok :: "EnvelopeRecord \<Rightarrow> bool" where
  "record_ok rec \<longleftrightarrow> length (se_instance (er_metadata rec)) = 16 \<and> utf8_valid (se_writer_toolchain (er_metadata rec)) \<and> sized_state (er_state rec)"

interpretation state: exact_reader read_state state_bytes sized_state
proof
  show "read_state r = Inr (x, rest) \<longleftrightarrow> sized_state x \<and> r = state_bytes x @ rest" for r x rest
    by (cases x; cases r) (auto simp: read_state_def reader_exact split: if_splits)
qed

interpretation kind: exact_reader read_engine_kind "\<lambda>k. [engine_tag k]" "\<lambda>_. True"
proof
  show "read_engine_kind r = Inr (x, rest) \<longleftrightarrow> True \<and> r = [engine_tag x] @ rest" for r x rest
    by (cases x) (auto simp: read_engine_kind_def reader_exact engine_from_tag_def split: if_splits)
qed

lemma envelope_body_layout:
  "envelope_body rec = Inr out \<longleftrightarrow> length (se_writer_toolchain (er_metadata rec)) \<le> MAX_TOOLCHAIN_BYTES
     \<and> out = ENVELOPE_MAGIC @ ENVELOPE_VERSION # se_instance (er_metadata rec)
          @ be_bytes (word_of_nat (length (se_writer_toolchain (er_metadata rec))) :: u32) @ se_writer_toolchain (er_metadata rec)
          @ engine_tag (se_engine_kind (er_metadata rec)) # be_bytes (se_engine_format_version (er_metadata rec)) @ state_bytes (er_state rec)"
  by (auto simp: envelope_body_def Let_def put_u32_def)

lemma toolchain_len: "n \<le> MAX_TOOLCHAIN_BYTES \<Longrightarrow> unat (word_of_nat n :: u32) = n"
  by (simp add: unat_of_nat take_bit_eq_mod MAX_TOOLCHAIN_BYTES_def)

text \<open>
  C36. The envelope is canonical: over a 32-byte digest, the decoder accepts exactly the bytes that the
  encoder writes for a typed record, in every publication state, and returns that record; the encoder
  refuses only an overlong toolchain string; the prefix of every encoding admits a ceiling that the whole
  file respects, and a prefix of another artifact or version is refused.
\<close>

theorem envelope_codec_exact:
  assumes "\<forall>x. length (H x) = 32"
  shows "(envelope_decode H bs = Inr rec \<longleftrightarrow> record_ok rec \<and> envelope_encode H rec = Inr bs)
     \<and> ((\<exists>out. envelope_encode H rec = Inr out) \<longleftrightarrow> length (se_writer_toolchain (er_metadata rec)) \<le> MAX_TOOLCHAIN_BYTES)
     \<and> (record_ok rec \<and> envelope_encode H rec = Inr bs \<longrightarrow>
          envelope_file_ceiling (take ARTIFACT_PREFIX_BYTES bs) = Inr MAX_ENVELOPE_FILE_BYTES \<and> length bs \<le> MAX_ENVELOPE_FILE_BYTES)
     \<and> (envelope_file_ceiling pre = Inr c \<longleftrightarrow> take 4 pre = ENVELOPE_MAGIC \<and> pre ! 4 = ENVELOPE_VERSION \<and> c = MAX_ENVELOPE_FILE_BYTES)"
proof (intro conjI impI iffI)
  have width: "length (envelope_digest H x) = 32" for x using assms by (simp add: digest_defs)
  have seal: "rd_array 32 (envelope_digest H x) = Inr (envelope_digest H x, [])" for x using width by (simp add: arr.exact)
  have magic: "rd_magic m (m @ rest) = Inr rest" "rd_finish [] = Inr ()" for m rest by (simp_all add: rd_magic_Inr rd_finish_Inr)
  show "record_ok rec" "envelope_encode H rec = Inr bs" if d: "envelope_decode H bs = Inr rec"
  proof -
    define sealed where "sealed = envelope_digest H (take (length bs - 32) bs)"
    have "record_ok rec \<and> (\<exists>out. length sealed = 32 \<and> envelope_body rec = Inr out \<and> bs = out @ sealed)"
      using d unfolding envelope_decode_def sealed_def [symmetric]
      by (auto simp: reader_exact state.exact kind.exact from_utf8_def record_ok_def envelope_body_layout split: if_splits)
    then obtain out where out: "record_ok rec" "length sealed = 32" "envelope_body rec = Inr out" "bs = out @ sealed" by blast
    have "take (length bs - 32) bs = out" using out(2,4) by simp
    then have "sealed = envelope_digest H out" by (simp only: sealed_def)
    then show "record_ok rec" "envelope_encode H rec = Inr bs" using out(1,3,4) by (simp_all add: envelope_encode_def)
  qed
  show "envelope_decode H bs = Inr rec" if ok: "record_ok rec \<and> envelope_encode H rec = Inr bs"
  proof -
    obtain out where out: "envelope_body rec = Inr out" "bs = out @ envelope_digest H out" using ok by (auto simp: envelope_encode_def)
    have "take (length bs - 32) bs = out" using out(2) width by simp
    moreover have "length (se_writer_toolchain (er_metadata rec)) \<le> MAX_TOOLCHAIN_BYTES" using out(1) by (simp add: envelope_body_layout)
    ultimately show ?thesis
      using ok out u8.reads_back kind.reads_back toolchain_len [of "length (se_writer_toolchain (er_metadata rec))"]
      by (cases rec, cases "er_metadata rec") (simp add: envelope_decode_def envelope_body_layout magic arr.reads_back u32.reads_back state.reads_back seal from_utf8_def
          record_ok_def del: rbind_Inr_iff)
  qed
  show "length (se_writer_toolchain (er_metadata rec)) \<le> MAX_TOOLCHAIN_BYTES" if "\<exists>out. envelope_encode H rec = Inr out"
    using that by (auto simp: envelope_encode_def envelope_body_layout)
  show "\<exists>out. envelope_encode H rec = Inr out" if "length (se_writer_toolchain (er_metadata rec)) \<le> MAX_TOOLCHAIN_BYTES"
    using that by (simp add: envelope_encode_def envelope_body_layout)
  assume ok: "record_ok rec \<and> envelope_encode H rec = Inr bs"
  then show "envelope_file_ceiling (take ARTIFACT_PREFIX_BYTES bs) = Inr MAX_ENVELOPE_FILE_BYTES"
    by (auto simp: envelope_encode_def envelope_body_layout ARTIFACT_PREFIX_BYTES_def ENVELOPE_MAGIC_def envelope_file_ceiling_def artifact_version_def nth_append)
  have "length (state_bytes (er_state rec)) \<le> 65" using ok by (cases "er_state rec") (auto simp: record_ok_def)
  then show "length bs \<le> MAX_ENVELOPE_FILE_BYTES"
    using ok width by (auto simp: envelope_encode_def envelope_body_layout ENVELOPE_MAGIC_def MAX_ENVELOPE_FILE_BYTES_def record_ok_def)
qed (auto simp: envelope_file_ceiling_def artifact_version_def split: if_splits)

theorem envelope_codec_exact_witness:
  "\<exists>bs. envelope_encode (\<lambda>x. replicate 32 (hd x))
       \<lparr>er_metadata = \<lparr>se_instance = replicate 16 0x7A, se_writer_toolchain = [0x30, 0x2E, 0x31], se_engine_kind = Redb, se_engine_format_version = 1\<rparr>,
        er_state = Rebind (replicate 32 1) (replicate 32 2)\<rparr> = Inr bs
     \<and> envelope_decode (\<lambda>x. replicate 32 (hd x)) bs = Inr
       \<lparr>er_metadata = \<lparr>se_instance = replicate 16 0x7A, se_writer_toolchain = [0x30, 0x2E, 0x31], se_engine_kind = Redb, se_engine_format_version = 1\<rparr>,
        er_state = Rebind (replicate 32 1) (replicate 32 2)\<rparr> \<and> length bs \<le> 191"
proof -
  let ?rec = "\<lparr>er_metadata = \<lparr>se_instance = replicate 16 0x7A, se_writer_toolchain = [0x30, 0x2E, 0x31], se_engine_kind = Redb, se_engine_format_version = 1\<rparr>,
        er_state = Rebind (replicate 32 1) (replicate 32 2)\<rparr>"
  have ok: "record_ok ?rec" by (simp add: record_ok_def)
  have "\<exists>bs. envelope_encode (\<lambda>x. replicate 32 (hd x)) ?rec = Inr bs"
    using envelope_codec_exact [of "\<lambda>x. replicate 32 (hd x)" _ ?rec] by (simp add: MAX_TOOLCHAIN_BYTES_def)
  then obtain bs where bs: "envelope_encode (\<lambda>x. replicate 32 (hd x)) ?rec = Inr bs" by blast
  then show ?thesis
    using envelope_codec_exact [of "\<lambda>x. replicate 32 (hd x)" bs ?rec] ok
    by (intro exI [of _ bs]) (simp add: MAX_ENVELOPE_FILE_BYTES_def MAX_TOOLCHAIN_BYTES_def)
qed

end
