(* ===== verification/Backup_Contract.thy ===== *)
theory Backup_Contract
  imports Backup_Frames Store_Envelope Transfer_Contract
begin

text \<open>
  Backups end to end: the decoder of the backup stream accepts exactly what the encoder writes, and a backup
  written from a valid store restores, through the decoder and the cell transfer, to the same cells with the
  same content digest.
\<close>

section \<open>Writing\<close>

lemma encoder_sink_vec:
  assumes "en_state e = Reading"
  shows "encoder_sink H vec_writer k v e = Inr e' \<longleftrightarrow>
     (case en_previous e of Some p \<Rightarrow> p < k | None \<Rightarrow> True) \<and> unat (en_count e) + 1 < 2 ^ 64 \<and> cell_within_limits k v
     \<and> e' = e\<lparr>en_output := en_output e @ cell_bytes (k, v), en_chain := chain_step H (en_chain e) (cell_bytes (k, v)),
              en_previous := Some k, en_count := en_count e + 1\<rparr>"
proof (cases "cell_within_limits k v")
  case True
  then have "cell_record k v = Inr (cell_bytes (k, v))" by (simp add: cell_record_Inr)
  then show ?thesis using True assms
    by (auto simp: encoder_sink_def encoder_cell_def ordered_def checked_count_def vec_writer_def Let_def not_le split: option.splits)
next
  case False
  then obtain err where "cell_record k v = Inl err" using cell_record_Inr by (cases "cell_record k v") auto
  then show ?thesis using False assms
    by (auto simp: encoder_sink_def encoder_cell_def Let_def split: sum.splits option.splits)
qed

lemma encoder_writes:
  "en_state e = Reading \<Longrightarrow>
     rbind (deliver (encoder_sink H (vec_writer :: (bytes, 'x) writer)) L e) (encoder_finish H vec_writer) = Inr (digest, out) \<longleftrightarrow>
       follows (en_previous e) L \<and> cells_fit (en_count e) L \<and> out = en_output e @ tail_bytes H (en_chain e) (en_count e) L
       \<and> digest = chained H (en_chain e) (map cell_bytes L @ [footer (en_count e + word_of_nat (length L))])"
proof (induction L arbitrary: e)
  case Nil
  have "unat (en_count e) < 2 ^ 64" using unsigned_less [of "en_count e"] by simp
  with Nil show ?case
    by (auto simp: encoder_finish_def vec_writer_def Let_def tail_Nil follows_def cells_fit_def chained_def split: option.splits)
next
  case (Cons c L)
  obtain k v where c: "c = (k, v)" by fastforce
  let ?e = "e\<lparr>en_output := en_output e @ cell_bytes (k, v), en_chain := chain_step H (en_chain e) (cell_bytes (k, v)),
              en_previous := Some k, en_count := en_count e + 1\<rparr>"
  have "rbind (deliver (encoder_sink H (vec_writer :: (bytes, 'x) writer)) (c # L) e) (encoder_finish H vec_writer) = Inr (digest, out) \<longleftrightarrow>
      (case en_previous e of Some p \<Rightarrow> p < k | None \<Rightarrow> True) \<and> unat (en_count e) + 1 < 2 ^ 64 \<and> cell_within_limits k v
      \<and> rbind (deliver (encoder_sink H (vec_writer :: (bytes, 'x) writer)) L ?e) (encoder_finish H vec_writer) = Inr (digest, out)"
    using encoder_sink_vec [OF Cons.prems, of H k v, where 'a = 'x] by (auto simp: c)
  then show ?case
    using Cons.IH [of ?e] Cons.prems
    by (auto simp: c tail_Cons follows_Cons cells_fit_Cons chained_def add.assoc simp del: cell_bytes.simps rbind_Inr_iff)
qed

lemma encoder_new_vec:
  "encoder_new H vec_writer out img head = Inr e \<longleftrightarrow>
     length img \<le> MAX_IMAGE_BYTES \<and> length head \<le> MAX_HEAD_FILE_BYTES
     \<and> e = \<lparr>en_output = out @ BACKUP_PREFIX @ blk img @ blk head, en_chain = header_chain H img head, en_previous = None, en_count = 0, en_state = Reading\<rparr>"
  using limits_u32(3,4) by (auto simp: encoder_new_def block_Inr vec_writer_def header_chain_def chained_def)

definition backup_ok :: "bytes \<Rightarrow> bytes \<Rightarrow> Cell list \<Rightarrow> bool" where
  "backup_ok img head cells \<longleftrightarrow>
     length img \<le> MAX_IMAGE_BYTES \<and> length head \<le> MAX_HEAD_FILE_BYTES \<and> sorted_wrt (<) (map fst cells)
     \<and> list_all (\<lambda>(k, v). cell_within_limits k v) cells \<and> length cells < 2 ^ 64"

lemma backup_ok_tail: "follows None cells \<and> cells_fit 0 cells \<longleftrightarrow> sorted_wrt (<) (map fst cells) \<and> list_all (\<lambda>(k, v). cell_within_limits k v) cells \<and> length cells < 2 ^ 64"
  by (auto simp: follows_def cells_fit_def)

section \<open>Sources of cells\<close>

lemma transfer_loop_source:
  assumes "source_yields src i L"
  shows "map_option (\<lambda>(r, i, g). (r, g)) (transfer_loop B t src st i g) = map_option (\<lambda>(r, i, g). (r, g)) (transfer_loop B t list_source st L g)"
  using assms
proof (induction arbitrary: st g)
  case (yields_end i i')
  then show ?case by (subst (1 2) transfer_loop.simps) simp
next
  case (yields_cell i c i' L)
  then show ?case by (subst (1 2) transfer_loop.simps) (simp split: prod.splits sum.splits)
qed

lemma restore_source:
  assumes "source_yields src i L"
  shows "restore B absorb src i d store = restore B absorb list_source L d store"
proof -
  have "map_option (\<lambda>(r, i, g). (r, g)) (populate B absorb t src i d g) = map_option (\<lambda>(r, i, g). (r, g)) (populate B absorb t list_source L d g)" for t g
  proof (cases "transfer_loop B t src transfer_start i g")
    case None
    then show ?thesis using transfer_loop_source [OF assms, of B t transfer_start g] by (auto simp: populate_def split: sum.splits)
  next
    case (Some x)
    obtain y where "transfer_loop B t list_source transfer_start L g = Some y" "fst x = fst y" "snd (snd x) = snd (snd y)"
      using transfer_loop_source [OF assms, of B t transfer_start g, symmetric] Some by (auto simp: case_prod_beta)
    with Some show ?thesis by (auto simp: populate_def option.map_comp comp_def case_prod_beta split: sum.splits)
  qed
  from arg_cong [OF this, of "map_option (\<lambda>(r, g). rbind r (\<lambda>(report, digest). Inr (store\<lparr>ds_engine := g\<rparr>, report, digest)))"]
  show ?thesis by (auto simp: restore_def option.map_comp comp_def case_prod_unfold split: sum.splits)
qed

section \<open>Properties\<close>

text \<open>
  C32. The backup stream is canonical: over a 32-byte digest, the decoder opens a header and delivers a complete
  list of cells exactly from the bytes that the encoder writes for that image, head and list, and both sides
  admit exactly the strictly ordered lists within the limits. A truncated, extended, reordered or altered
  stream therefore never completes as another one.
\<close>

theorem backup_stream_exact:
  assumes "\<forall>x. length (H x) = 32"
  shows "((\<exists>d rest. decoder_new H (slice_exact :: (bytes, 'x) read_exact) bs = (Inr (img, head, d), rest)
              \<and> source_yields (next_cell H (slice_exact :: (bytes, 'x) read_exact)) d cells)
            \<longleftrightarrow> backup_ok img head cells \<and> bs = backup_bytes H img head cells)
     \<and> ((\<exists>e digest. encoder_new H (vec_writer :: (bytes, 'x) writer) [] img head = Inr e
              \<and> rbind (deliver (encoder_sink H (vec_writer :: (bytes, 'x) writer)) cells e) (encoder_finish H vec_writer) = Inr (digest, bs))
            \<longleftrightarrow> backup_ok img head cells \<and> bs = backup_bytes H img head cells)"
proof
  let ?d = "\<lambda>rest. \<lparr>de_input = rest, de_chain = header_chain H img head, de_previous = None, de_count = 0, de_state = Reading\<rparr>"
  have "source_yields (next_cell H (slice_exact :: (bytes, 'x) read_exact)) (?d rest) cells \<longleftrightarrow>
      rest = tail_bytes H (header_chain H img head) 0 cells \<and> follows None cells \<and> cells_fit 0 cells" for rest
    using decoder_yields [OF assms, of "?d rest" cells, where 'x = 'x] by simp
  then show "(\<exists>d rest. decoder_new H (slice_exact :: (bytes, 'x) read_exact) bs = (Inr (img, head, d), rest)
              \<and> source_yields (next_cell H (slice_exact :: (bytes, 'x) read_exact)) d cells)
            \<longleftrightarrow> backup_ok img head cells \<and> bs = backup_bytes H img head cells"
    using backup_ok_tail [of cells] unfolding decoder_new_Inr backup_ok_def backup_bytes_def by auto
  let ?e = "\<lparr>en_output = BACKUP_PREFIX @ blk img @ blk head, en_chain = header_chain H img head, en_previous = None, en_count = 0, en_state = Reading\<rparr>"
  show "(\<exists>e digest. encoder_new H (vec_writer :: (bytes, 'x) writer) [] img head = Inr e
              \<and> rbind (deliver (encoder_sink H (vec_writer :: (bytes, 'x) writer)) cells e) (encoder_finish H vec_writer) = Inr (digest, bs))
            \<longleftrightarrow> backup_ok img head cells \<and> bs = backup_bytes H img head cells"
    using encoder_writes [of ?e H cells _ bs, where 'x = 'x] backup_ok_tail [of cells]
    unfolding encoder_new_vec backup_ok_def backup_bytes_def by auto
qed

text \<open>
  C33. A backup written from a valid store restores to it: writing the backup succeeds, its header gives back
  the image bytes and a head that decodes to the store's head, and restoring the decoder's cells into an
  empty store of the same projection yields the same entry and index cells, a clean audit and the content
  digest that the backup reported.
\<close>

theorem backup_restore_roundtrip:
  assumes "\<forall>x. length (H x) = 32" "head_ok h" "length img \<le> MAX_IMAGE_BYTES"
    "engine_ok (ds_engine store)" "numbered (ds_projection store) (ds_numbering store)" "\<not> ds_poisoned store"
    "store_valid (ds_projection store) (ds_numbering store) (engine_cells (ds_engine store))"
    "list_all (\<lambda>(k, v). cell_within_limits k v) (entries (ds_engine store))" "length (entries (ds_engine store)) < 2 ^ 64"
    "ds_projection target = ds_projection store" "ds_numbering target = ds_numbering store" "entries (ds_engine target) = []"
  shows "\<exists>report content digest bs d rest head report' out.
     write_backup H (vec_writer :: (bytes, 'x) writer) memory_byte_engine h store img [] = Some (Inr (report, content, digest, bs))
     \<and> decoder_new H (slice_exact :: (bytes, 'x) read_exact) bs = (Inr (img, head, d), rest) \<and> head_decode H head = Inr h
     \<and> restore memory_byte_engine (content_absorb H) (next_cell H (slice_exact :: (bytes, 'x) read_exact)) d (content_new H) target
         = Some (Inr (target\<lparr>ds_engine := \<lparr>entries = out\<rparr>\<rparr>, report', content))
     \<and> is_clean report \<and> is_clean report'
     \<and> engine_cells \<lparr>entries = out\<rparr> = (engine_cells (ds_engine store))(meta_key WITNESS := None)"
proof -
  let ?X = "exported (ds_projection store) (ds_numbering store) (entries (ds_engine store))" and ?head = "fst (head_encode_with_digest H h)"
  have "length ?X < 2 ^ 64" using assms(9) by (auto simp: exported_def intro: le_less_trans [OF length_filter_le])
  then have ok: "backup_ok img ?head ?X"
    using memory_ordered [OF assms(4)] assms(3,8) head_size [OF assms(1,2)]
    by (auto simp: backup_ok_def head_encode_def exported_def ordered_cells_def list_all_iff sorted_wrt_map sorted_wrt_filter)
  let ?W = "vec_writer :: (bytes, 'x) writer" and ?R = "slice_exact :: (bytes, 'x) read_exact"
  let ?e = "\<lparr>en_output = BACKUP_PREFIX @ blk img @ blk ?head, en_chain = header_chain H img ?head, en_previous = None, en_count = 0, en_state = Reading\<rparr>"
  have e: "encoder_new H ?W [] img ?head = Inr ?e" using ok by (simp add: encoder_new_vec backup_ok_def)
  have "rbind (deliver (encoder_sink H ?W) ?X ?e) (encoder_finish H ?W)
      = Inr (chained H (header_chain H img ?head) (map cell_bytes ?X @ [footer (word_of_nat (length ?X))]), backup_bytes H img ?head ?X)"
    using encoder_writes [of ?e H ?X, where 'x = 'x] ok backup_ok_tail [of ?X] by (simp add: backup_ok_def backup_bytes_def del: rbind_Inr_iff)
  then obtain e' digest where fin: "deliver (encoder_sink H ?W) ?X ?e = Inr e'" "encoder_finish H ?W e' = Inr (digest, backup_bytes H img ?head ?X)" by auto
  obtain report where report: "is_clean report" "export_cells memory_byte_engine (content_absorb H) (encoder_sink H ?W) (content_new H) ?e store
      = Some (Inr (report, absorbed_entries (content_absorb H) (ds_projection store) (ds_numbering store) (entries (ds_engine store)) (content_new H), e'))"
    using export_memory [OF assms(4-6), of "content_absorb H" "encoder_sink H ?W" "content_new H" ?e] assms(7) fin(1) by auto
  have dec: "decoder_new H ?R (backup_bytes H img ?head ?X) = (Inr (img, ?head, d), rest)" "source_yields (next_cell H ?R) d ?X"
    if "d = \<lparr>de_input = rest, de_chain = header_chain H img ?head, de_previous = None, de_count = 0, de_state = Reading\<rparr>"
      "rest = tail_bytes H (header_chain H img ?head) 0 ?X" for d rest
    using ok backup_ok_tail [of ?X] decoder_yields [OF assms(1), of d ?X, where 'x = 'x]
    by (simp_all add: that decoder_new_Inr backup_ok_def backup_bytes_def)
  have "head_decode H ?head = Inr h" using head_exact [OF assms(1), of ?head h "snd (head_encode_with_digest H h)"] assms(2) by (simp add: head_decode_def)
  moreover have "write_backup H ?W memory_byte_engine h store img [] = Some (Inr (report,
      absorbed_entries (content_absorb H) (ds_projection store) (ds_numbering store) (entries (ds_engine store)) (content_new H), digest, backup_bytes H img ?head ?X))"
    using e report fin(2) by (simp add: write_backup_def)
  ultimately show ?thesis
    using exported_restores(1) [OF assms(4,5,7,8,10-12) refl, of "content_absorb H" "content_new H", where 'r = "'x StreamError"]
      exported_restores(2) [OF assms(4,5,7,8,10-12) refl] dec(1) report(1)
      restore_source [OF dec(2) [OF refl refl], of memory_byte_engine "content_absorb H" "content_new H" target]
    by fastforce
qed

text \<open>A stream of one cell, and the backup of the store that holds its commit witness alone.\<close>

abbreviation toy_digest :: "bytes \<Rightarrow> bytes" where
  "toy_digest x \<equiv> replicate 32 (hd x)"

theorem backup_stream_exact_witness:
  "\<exists>bs d rest. bs = backup_bytes toy_digest [1] [2] [([3], [4])]
     \<and> decoder_new toy_digest (slice_exact :: (bytes, unit) read_exact) bs = (Inr ([1], [2], d), rest)
     \<and> source_yields (next_cell toy_digest (slice_exact :: (bytes, unit) read_exact)) d [([3], [4])]"
proof -
  have "backup_ok [1] [2] [([3], [4])]"
    using limits_u32 by (simp add: backup_ok_def cell_within_limits_def MAX_KEY_LEN_def MAX_VALUE_LEN_def MAX_IMAGE_BYTES_def
        MAX_HEAD_FILE_BYTES_def HEAD_FIXED_PREFIX_BYTES_def)
  then show ?thesis
    using backup_stream_exact [of toy_digest "backup_bytes toy_digest [1] [2] [([3], [4])]" "[1]" "[2]" "[([3], [4])]", where 'x = unit] by auto
qed

theorem backup_restore_roundtrip_witness:
  "\<exists>report content digest bs d rest head report' out.
     write_backup toy_digest (vec_writer :: (bytes, unit) writer) memory_byte_engine sample_head populated [1] [] = Some (Inr (report, content, digest, bs))
     \<and> decoder_new toy_digest (slice_exact :: (bytes, unit) read_exact) bs = (Inr ([1], head, d), rest) \<and> head_decode toy_digest head = Inr sample_head
     \<and> restore memory_byte_engine (content_absorb toy_digest) (next_cell toy_digest (slice_exact :: (bytes, unit) read_exact)) d (content_new toy_digest) vacant
         = Some (Inr (vacant\<lparr>ds_engine := \<lparr>entries = out\<rparr>\<rparr>, report', content))
     \<and> is_clean report \<and> is_clean report' \<and> engine_cells \<lparr>entries = out\<rparr> = [entry_marker \<mapsto> MARKER_VALUE]"
proof -
  have cells: "(engine_cells (ds_engine populated))(meta_key WITNESS := None) = [entry_marker \<mapsto> MARKER_VALUE]"
    using entry_marker_below by (auto simp: populated_cells)
  have ok: "numbered (ds_projection populated) (ds_numbering populated)" "length (entries (ds_engine populated)) < 2 ^ 64"
    "store_valid (ds_projection populated) (ds_numbering populated) (engine_cells (ds_engine populated))"
    "ds_projection vacant = ds_projection populated" "ds_numbering vacant = ds_numbering populated"
    using one_root_numbered populated_valid by (simp_all add: populated_handle)
  have "\<forall>x. length (toy_digest x) = 32" "length [1 :: byte] \<le> MAX_IMAGE_BYTES" by (simp_all add: MAX_IMAGE_BYTES_def)
  from backup_restore_roundtrip [OF this(1) one_binding_ok(2) this(2) populated_cells(2) ok(1) populated_handle(3) ok(3) populated_limits ok(2,4,5) populated_handle(7), where 'x = unit]
  show ?thesis unfolding cells by blast
qed

end
