(* ===== verification/Codes.thy ===== *)
theory Codes
  imports Commit_State
begin

text \<open>
  The diagnostic code registry (\<open>crates/marrow-codes/src/lib.rs\<close>): every registered code with its dotted
  string, family and lifecycle, and the classification of arbitrary code strings. The one enumeration of
  the source is split by the family it declares for each code, in the order of the registry; the reference
  prose of the codes is not modelled.
\<close>

datatype Family = FamParse | FamFmt | FamCli | FamCheck | FamImage | FamRun | FamValue | FamStore | FamIo | FamConfig | FamProject | FamWire | FamRunner

fun segment :: "Family \<Rightarrow> string" where
  "segment FamParse = ''parse''"
| "segment FamFmt = ''fmt''"
| "segment FamCli = ''cli''"
| "segment FamCheck = ''check''"
| "segment FamImage = ''image''"
| "segment FamRun = ''run''"
| "segment FamValue = ''value''"
| "segment FamStore = ''store''"
| "segment FamIo = ''io''"
| "segment FamConfig = ''config''"
| "segment FamProject = ''project''"
| "segment FamWire = ''wire''"
| "segment FamRunner = ''runner''"

fun family_kind :: "Family \<Rightarrow> string" where
  "family_kind FamParse = ''parse''"
| "family_kind FamCheck = ''check''"
| "family_kind FamImage = ''artifact''"
| "family_kind FamRun = ''runtime''"
| "family_kind FamValue = ''runtime''"
| "family_kind FamStore = ''storage''"
| "family_kind FamIo = ''io''"
| "family_kind FamFmt = ''tooling''"
| "family_kind FamCli = ''tooling''"
| "family_kind FamConfig = ''tooling''"
| "family_kind FamProject = ''tooling''"
| "family_kind FamWire = ''tooling''"
| "family_kind FamRunner = ''tooling''"

datatype Lifecycle = ActiveCode | InternalCode

section \<open>The registry\<close>

datatype ParseCode = ParseSyntax

fun parse_str :: "ParseCode \<Rightarrow> string" where
  "parse_str ParseSyntax = ''parse.syntax''"

datatype FmtCode = FmtCommentLoss | FmtDiagnosticLimit

fun fmt_str :: "FmtCode \<Rightarrow> string" where
  "fmt_str FmtCommentLoss = ''fmt.comment_loss''"
| "fmt_str FmtDiagnosticLimit = ''fmt.diagnostic_limit''"

datatype CliCode = CliCompilerInvariant | CliCompilerResourceLimit | CliInterfaceUnbuildable | CliDurableUnsupported | CliInstallationDamaged
  | CliCeilingUnaccepted | CliArgumentLimit

fun cli_str :: "CliCode \<Rightarrow> string" where
  "cli_str CliCompilerInvariant = ''cli.compiler_invariant''"
| "cli_str CliCompilerResourceLimit = ''cli.compiler_resource_limit''"
| "cli_str CliInterfaceUnbuildable = ''cli.interface_unbuildable''"
| "cli_str CliDurableUnsupported = ''cli.durable_unsupported''"
| "cli_str CliInstallationDamaged = ''cli.installation_damaged''"
| "cli_str CliCeilingUnaccepted = ''cli.ceiling_unaccepted''"
| "cli_str CliArgumentLimit = ''cli.argument_limit''"

datatype CheckCode = CheckNestingLimit | CheckUnsupported | CheckType | CheckNameConflict | CheckModulePath
  | CheckImport | CheckVisibility | CheckRecursion | CheckRequiresTransaction | CheckRequiresPresence
  | CheckTransactionOwnerCalled | CheckTransactionEmpty | CheckTransactionReopened | CheckTransactionUncommitted | CheckTransactionConditional
  | CheckDurableAfterCommit | CheckTransactionMisplaced | CheckAssertOutsideTest | CheckTestDurableOperation | CheckMatchNonexhaustive
  | CheckMatchArm | CheckInstantiationLimit | CheckResourceLimit | CheckDurableIdentity

fun check_str :: "CheckCode \<Rightarrow> string" where
  "check_str CheckNestingLimit = ''check.nesting_limit''"
| "check_str CheckUnsupported = ''check.unsupported''"
| "check_str CheckType = ''check.type''"
| "check_str CheckNameConflict = ''check.name_conflict''"
| "check_str CheckModulePath = ''check.module_path''"
| "check_str CheckImport = ''check.import''"
| "check_str CheckVisibility = ''check.visibility''"
| "check_str CheckRecursion = ''check.recursion''"
| "check_str CheckRequiresTransaction = ''check.requires_transaction''"
| "check_str CheckRequiresPresence = ''check.requires_presence''"
| "check_str CheckTransactionOwnerCalled = ''check.transaction_owner_called''"
| "check_str CheckTransactionEmpty = ''check.transaction_empty''"
| "check_str CheckTransactionReopened = ''check.transaction_reopened''"
| "check_str CheckTransactionUncommitted = ''check.transaction_uncommitted''"
| "check_str CheckTransactionConditional = ''check.transaction_conditional''"
| "check_str CheckDurableAfterCommit = ''check.durable_after_commit''"
| "check_str CheckTransactionMisplaced = ''check.transaction_misplaced''"
| "check_str CheckAssertOutsideTest = ''check.assert_outside_test''"
| "check_str CheckTestDurableOperation = ''check.test_durable_operation''"
| "check_str CheckMatchNonexhaustive = ''check.match_nonexhaustive''"
| "check_str CheckMatchArm = ''check.match_arm''"
| "check_str CheckInstantiationLimit = ''check.instantiation_limit''"
| "check_str CheckResourceLimit = ''check.resource_limit''"
| "check_str CheckDurableIdentity = ''check.durable_identity''"

datatype ImageCode = ImageEnvelope | ImageTable | ImageFunction | ImageClosure | ImageFlow
  | ImageTestEntry

fun image_str :: "ImageCode \<Rightarrow> string" where
  "image_str ImageEnvelope = ''image.envelope''"
| "image_str ImageTable = ''image.table''"
| "image_str ImageFunction = ''image.function''"
| "image_str ImageClosure = ''image.closure''"
| "image_str ImageFlow = ''image.flow''"
| "image_str ImageTestEntry = ''image.test_entry''"

datatype RunCode = RunOverflow | RunDivideByZero | RunTextLimit | RunUnreachable | RunTodo
  | RunAssert | RunCallDepth | RunBudget | RunAuthority | RunUniqueIndex
  | RunCommit | RunOutcomeUnknown | RunRange | RunCorruption | RunEnumVariant
  | RunCollectionLimit | RunTemporalOverflow

fun run_str :: "RunCode \<Rightarrow> string" where
  "run_str RunOverflow = ''run.overflow''"
| "run_str RunDivideByZero = ''run.divide_by_zero''"
| "run_str RunTextLimit = ''run.text_limit''"
| "run_str RunUnreachable = ''run.unreachable''"
| "run_str RunTodo = ''run.todo''"
| "run_str RunAssert = ''run.assert''"
| "run_str RunCallDepth = ''run.call_depth''"
| "run_str RunBudget = ''run.budget''"
| "run_str RunAuthority = ''run.authority''"
| "run_str RunUniqueIndex = ''run.unique_index''"
| "run_str RunCommit = ''run.commit''"
| "run_str RunOutcomeUnknown = ''run.outcome_unknown''"
| "run_str RunRange = ''run.range''"
| "run_str RunCorruption = ''run.corruption''"
| "run_str RunEnumVariant = ''run.enum_variant''"
| "run_str RunCollectionLimit = ''run.collection_limit''"
| "run_str RunTemporalOverflow = ''run.temporal_overflow''"

datatype ValueCode = ValueRange

fun value_str :: "ValueCode \<Rightarrow> string" where
  "value_str ValueRange = ''value.range''"

datatype StoreCode = StoreIo | StorePublicationUncertain | StoreRestoreCommit | StoreActivationUncertain | StoreActivationRequired
  | StorePermissionDenied | StoreLocked | StoreFormatVersion | StoreCorruption | StoreRecoveryRequired
  | StoreLimit | StoreCursor | StoreTransaction | StoreReadOnly | StoreContractChanged
  | StoreApplyUnsupported | StoreCeilingUnaccepted | StoreProvisionUnapproved | StoreDemandExceedsCeiling | StoreImageNotActive
  | StoreAuditUndecodable | StoreAuditOutsideSchema | StoreAuditRequiredMissing | StoreAuditOrphanLeaf | StoreAuditMarkerInvalid
  | StoreAuditIndexOrphan | StoreAuditIndexStale | StoreAuditIndexMissing | StoreAuditWitnessInvalid

fun store_str :: "StoreCode \<Rightarrow> string" where
  "store_str StoreIo = ''store.io''"
| "store_str StorePublicationUncertain = ''store.publication_uncertain''"
| "store_str StoreRestoreCommit = ''store.restore_commit''"
| "store_str StoreActivationUncertain = ''store.activation_uncertain''"
| "store_str StoreActivationRequired = ''store.activation_required''"
| "store_str StorePermissionDenied = ''store.permission_denied''"
| "store_str StoreLocked = ''store.locked''"
| "store_str StoreFormatVersion = ''store.format_version''"
| "store_str StoreCorruption = ''store.corruption''"
| "store_str StoreRecoveryRequired = ''store.recovery_required''"
| "store_str StoreLimit = ''store.limit''"
| "store_str StoreCursor = ''store.cursor''"
| "store_str StoreTransaction = ''store.transaction''"
| "store_str StoreReadOnly = ''store.read_only''"
| "store_str StoreContractChanged = ''store.contract_changed''"
| "store_str StoreApplyUnsupported = ''store.apply_unsupported''"
| "store_str StoreCeilingUnaccepted = ''store.ceiling_unaccepted''"
| "store_str StoreProvisionUnapproved = ''store.provision_unapproved''"
| "store_str StoreDemandExceedsCeiling = ''store.demand_exceeds_ceiling''"
| "store_str StoreImageNotActive = ''store.image_not_active''"
| "store_str StoreAuditUndecodable = ''store.audit_undecodable''"
| "store_str StoreAuditOutsideSchema = ''store.audit_outside_schema''"
| "store_str StoreAuditRequiredMissing = ''store.audit_required_missing''"
| "store_str StoreAuditOrphanLeaf = ''store.audit_orphan_leaf''"
| "store_str StoreAuditMarkerInvalid = ''store.audit_marker_invalid''"
| "store_str StoreAuditIndexOrphan = ''store.audit_index_orphan''"
| "store_str StoreAuditIndexStale = ''store.audit_index_stale''"
| "store_str StoreAuditIndexMissing = ''store.audit_index_missing''"
| "store_str StoreAuditWitnessInvalid = ''store.audit_witness_invalid''"

datatype IoCode = IoRead | IoThread | IoWrite

fun io_str :: "IoCode \<Rightarrow> string" where
  "io_str IoRead = ''io.read''"
| "io_str IoThread = ''io.thread''"
| "io_str IoWrite = ''io.write''"

datatype ConfigCode = ConfigInvalid

fun config_str :: "ConfigCode \<Rightarrow> string" where
  "config_str ConfigInvalid = ''config.invalid''"

datatype ProjectCode = ProjectSourcePath | ProjectModuleCollision | ProjectCaptureLimit | ProjectDependencyAlias | ProjectDependencyPath
  | ProjectIdsCorrupt | ProjectIdsMint | ProjectIdsLocation | ProjectIdsPublicationPending

fun project_str :: "ProjectCode \<Rightarrow> string" where
  "project_str ProjectSourcePath = ''project.source_path''"
| "project_str ProjectModuleCollision = ''project.module_collision''"
| "project_str ProjectCaptureLimit = ''project.capture_limit''"
| "project_str ProjectDependencyAlias = ''project.dependency_alias''"
| "project_str ProjectDependencyPath = ''project.dependency_path''"
| "project_str ProjectIdsCorrupt = ''project.ids_corrupt''"
| "project_str ProjectIdsMint = ''project.ids_mint''"
| "project_str ProjectIdsLocation = ''project.ids_location''"
| "project_str ProjectIdsPublicationPending = ''project.ids_publication_pending''"

datatype WireCode = WireFrameTooLarge | WireDepthLimit | WireStringLimit | WireUnsupportedVersion | WireMalformed
  | WireNoncanonical

fun wire_str :: "WireCode \<Rightarrow> string" where
  "wire_str WireFrameTooLarge = ''wire.frame_too_large''"
| "wire_str WireDepthLimit = ''wire.depth_limit''"
| "wire_str WireStringLimit = ''wire.string_limit''"
| "wire_str WireUnsupportedVersion = ''wire.unsupported_version''"
| "wire_str WireMalformed = ''wire.malformed''"
| "wire_str WireNoncanonical = ''wire.noncanonical''"

datatype RunnerCode = RunnerHandshake | RunnerUnknownExport | RunnerArgMismatch | RunnerDurableUnsupported | RunnerReplyEncode
  | RunnerSpawn | RunnerTerminated

fun runner_str :: "RunnerCode \<Rightarrow> string" where
  "runner_str RunnerHandshake = ''runner.handshake''"
| "runner_str RunnerUnknownExport = ''runner.unknown_export''"
| "runner_str RunnerArgMismatch = ''runner.arg_mismatch''"
| "runner_str RunnerDurableUnsupported = ''runner.durable_unsupported''"
| "runner_str RunnerReplyEncode = ''runner.reply_encode''"
| "runner_str RunnerSpawn = ''runner.spawn''"
| "runner_str RunnerTerminated = ''runner.terminated''"

datatype Code =
    CParse ParseCode
  | CFmt FmtCode
  | CCli CliCode
  | CCheck CheckCode
  | CImage ImageCode
  | CRun RunCode
  | CValue ValueCode
  | CStore StoreCode
  | CIo IoCode
  | CConfig ConfigCode
  | CProject ProjectCode
  | CWire WireCode
  | CRunner RunnerCode

text \<open>Every registered code, in the order of the registry.\<close>

definition ALL_CODES :: "Code list" where
  "ALL_CODES =
     [CParse ParseSyntax, CFmt FmtCommentLoss, CFmt FmtDiagnosticLimit, CCli CliCompilerInvariant,
      CCli CliCompilerResourceLimit, CCli CliInterfaceUnbuildable, CCli CliDurableUnsupported, CCli CliInstallationDamaged,
      CCli CliCeilingUnaccepted, CCli CliArgumentLimit, CCheck CheckNestingLimit, CCheck CheckUnsupported,
      CCheck CheckType, CCheck CheckNameConflict, CCheck CheckModulePath, CCheck CheckImport,
      CCheck CheckVisibility, CCheck CheckRecursion, CCheck CheckRequiresTransaction, CCheck CheckRequiresPresence,
      CCheck CheckTransactionOwnerCalled, CCheck CheckTransactionEmpty, CCheck CheckTransactionReopened, CCheck CheckTransactionUncommitted,
      CCheck CheckTransactionConditional, CCheck CheckDurableAfterCommit, CCheck CheckTransactionMisplaced, CCheck CheckAssertOutsideTest,
      CCheck CheckTestDurableOperation, CCheck CheckMatchNonexhaustive, CCheck CheckMatchArm, CCheck CheckInstantiationLimit,
      CCheck CheckResourceLimit, CCheck CheckDurableIdentity, CImage ImageEnvelope, CImage ImageTable,
      CImage ImageFunction, CImage ImageClosure, CImage ImageFlow, CImage ImageTestEntry,
      CRun RunOverflow, CRun RunDivideByZero, CRun RunTextLimit, CRun RunUnreachable,
      CRun RunTodo, CRun RunAssert, CRun RunCallDepth, CRun RunBudget,
      CRun RunAuthority, CRun RunUniqueIndex, CRun RunCommit, CRun RunOutcomeUnknown,
      CRun RunRange, CRun RunCorruption, CRun RunEnumVariant, CRun RunCollectionLimit,
      CRun RunTemporalOverflow, CValue ValueRange, CStore StoreIo, CStore StorePublicationUncertain,
      CStore StoreRestoreCommit, CStore StoreActivationUncertain, CStore StoreActivationRequired, CStore StorePermissionDenied,
      CStore StoreLocked, CStore StoreFormatVersion, CStore StoreCorruption, CStore StoreRecoveryRequired,
      CStore StoreLimit, CStore StoreCursor, CStore StoreTransaction, CStore StoreReadOnly,
      CStore StoreContractChanged, CStore StoreApplyUnsupported, CStore StoreCeilingUnaccepted, CStore StoreProvisionUnapproved,
      CStore StoreDemandExceedsCeiling, CStore StoreImageNotActive, CStore StoreAuditUndecodable, CStore StoreAuditOutsideSchema,
      CStore StoreAuditRequiredMissing, CStore StoreAuditOrphanLeaf, CStore StoreAuditMarkerInvalid, CStore StoreAuditIndexOrphan,
      CStore StoreAuditIndexStale, CStore StoreAuditIndexMissing, CStore StoreAuditWitnessInvalid, CIo IoRead,
      CIo IoThread, CIo IoWrite, CConfig ConfigInvalid, CProject ProjectSourcePath,
      CProject ProjectModuleCollision, CProject ProjectCaptureLimit, CProject ProjectDependencyAlias, CProject ProjectDependencyPath,
      CProject ProjectIdsCorrupt, CProject ProjectIdsMint, CProject ProjectIdsLocation, CProject ProjectIdsPublicationPending,
      CWire WireFrameTooLarge, CWire WireDepthLimit, CWire WireStringLimit, CWire WireUnsupportedVersion,
      CWire WireMalformed, CWire WireNoncanonical, CRunner RunnerHandshake, CRunner RunnerUnknownExport,
      CRunner RunnerArgMismatch, CRunner RunnerDurableUnsupported, CRunner RunnerReplyEncode, CRunner RunnerSpawn,
      CRunner RunnerTerminated]"

fun code_str :: "Code \<Rightarrow> string" where
  "code_str (CParse c) = parse_str c"
| "code_str (CFmt c) = fmt_str c"
| "code_str (CCli c) = cli_str c"
| "code_str (CCheck c) = check_str c"
| "code_str (CImage c) = image_str c"
| "code_str (CRun c) = run_str c"
| "code_str (CValue c) = value_str c"
| "code_str (CStore c) = store_str c"
| "code_str (CIo c) = io_str c"
| "code_str (CConfig c) = config_str c"
| "code_str (CProject c) = project_str c"
| "code_str (CWire c) = wire_str c"
| "code_str (CRunner c) = runner_str c"

fun code_family :: "Code \<Rightarrow> Family" where
  "code_family (CParse c) = FamParse"
| "code_family (CFmt c) = FamFmt"
| "code_family (CCli c) = FamCli"
| "code_family (CCheck c) = FamCheck"
| "code_family (CImage c) = FamImage"
| "code_family (CRun c) = FamRun"
| "code_family (CValue c) = FamValue"
| "code_family (CStore c) = FamStore"
| "code_family (CIo c) = FamIo"
| "code_family (CConfig c) = FamConfig"
| "code_family (CProject c) = FamProject"
| "code_family (CWire c) = FamWire"
| "code_family (CRunner c) = FamRunner"

definition code_lifecycle :: "Code \<Rightarrow> Lifecycle" where
  "code_lifecycle c =
     (if c \<in> {CCli CliCompilerInvariant, CRun RunEnumVariant, CStore StoreProvisionUnapproved, CRunner RunnerReplyEncode}
      then InternalCode else ActiveCode)"

definition code_kind :: "Code \<Rightarrow> string" where
  "code_kind c = family_kind (code_family c)"

definition as_str :: "Code \<Rightarrow> bytes" where
  "as_str c = text_bytes (code_str c)"

definition from_code :: "bytes \<Rightarrow> Code option" where
  "from_code s = find (\<lambda>c. as_str c = s) ALL_CODES"

text \<open>\<open>split('.').next()\<close> is everything ahead of the first dot.\<close>

definition segment_kind :: "bytes \<Rightarrow> string" where
  "segment_kind first =
     (if first = text_bytes ''parse'' then ''parse'' else if first = text_bytes ''check'' then ''check''
      else if first = text_bytes ''image'' then ''artifact'' else if first = text_bytes ''run'' then ''runtime''
      else if first = text_bytes ''value'' then ''runtime'' else if first = text_bytes ''store'' then ''storage''
      else if first = text_bytes ''io'' then ''io'' else ''tooling'')"

definition first_segment :: "bytes \<Rightarrow> bytes" where
  "first_segment s = takeWhile (\<lambda>b. b \<noteq> of_char CHR ''.'') s"

definition kind_for_code :: "bytes \<Rightarrow> string" where
  "kind_for_code s =
     (case from_code s of
        Some code \<Rightarrow> code_kind code
      | None \<Rightarrow> segment_kind (first_segment s))"

datatype StoreUncertainty = Publication | Activation

fun uncertainty_code :: "StoreUncertainty \<Rightarrow> Code" where
  "uncertainty_code Publication = CStore StorePublicationUncertain"
| "uncertainty_code Activation = CStore StoreActivationUncertain"

section \<open>The registry is exact\<close>

lemma all_codes: "c \<in> set ALL_CODES"
proof (cases c)
  case (CParse x) then show ?thesis by (cases x) (simp add: ALL_CODES_def)
next
  case (CFmt x) then show ?thesis by (cases x) (simp_all add: ALL_CODES_def)
next
  case (CCli x) then show ?thesis by (cases x) (simp_all add: ALL_CODES_def)
next
  case (CCheck x) then show ?thesis by (cases x) (simp_all add: ALL_CODES_def)
next
  case (CImage x) then show ?thesis by (cases x) (simp_all add: ALL_CODES_def)
next
  case (CRun x) then show ?thesis by (cases x) (simp_all add: ALL_CODES_def)
next
  case (CValue x) then show ?thesis by (cases x) (simp_all add: ALL_CODES_def)
next
  case (CStore x) then show ?thesis by (cases x) (simp_all add: ALL_CODES_def)
next
  case (CIo x) then show ?thesis by (cases x) (simp_all add: ALL_CODES_def)
next
  case (CConfig x) then show ?thesis by (cases x) (simp_all add: ALL_CODES_def)
next
  case (CProject x) then show ?thesis by (cases x) (simp_all add: ALL_CODES_def)
next
  case (CWire x) then show ?thesis by (cases x) (simp_all add: ALL_CODES_def)
next
  case (CRunner x) then show ?thesis by (cases x) (simp_all add: ALL_CODES_def)
qed

lemma every_code: "list_all P ALL_CODES \<Longrightarrow> P c"
  using all_codes by (simp add: list_all_iff)

lemma codes_distinct: "distinct (map code_str ALL_CODES)"
  by (simp add: ALL_CODES_def)

lemma code_segment: "takeWhile (\<lambda>b. b \<noteq> CHR ''.'') (code_str c) = segment (code_family c) \<and> CHR ''.'' \<in> set (code_str c)"
  by (rule every_code) (simp add: ALL_CODES_def)

lemma code_str_inject: "code_str c = code_str d \<longleftrightarrow> c = d"
  using codes_distinct all_codes by (auto simp: distinct_map inj_on_def)

lemma find_unique: "c \<in> set cs \<Longrightarrow> (\<And>d. d \<in> set cs \<Longrightarrow> P d \<longleftrightarrow> d = c) \<Longrightarrow> find P cs = Some c"
  by (induction cs) auto

lemma from_code_iff: "from_code s = Some c \<longleftrightarrow> s = as_str c"
proof
  assume "from_code s = Some c"
  then show "s = as_str c" by (auto simp: from_code_def find_Some_iff)
next
  assume "s = as_str c"
  then show "from_code s = Some c"
    unfolding from_code_def by (intro find_unique) (auto simp: all_codes as_str_def code_str_inject)
qed

lemma takeWhile_text: "takeWhile (\<lambda>b. b \<noteq> of_char d) (text_bytes s) = text_bytes (takeWhile (\<lambda>b. b \<noteq> d) s)"
  by (induction s) (auto simp: text_bytes_def of_char_byte_inject)

lemma segment_kind_family: "segment_kind (text_bytes (segment f)) = family_kind f"
  by (cases f) (simp_all add: segment_kind_def)

lemma first_segment_code: "first_segment (as_str c) = text_bytes (segment (code_family c))"
  using code_segment [of c] by (simp only: first_segment_def as_str_def takeWhile_text)

lemma code_prefix: "\<exists>rest. as_str c = text_bytes (segment (code_family c)) @ of_char CHR ''.'' # rest"
proof -
  obtain a b where "code_str c = a @ CHR ''.'' # b" "CHR ''.'' \<notin> set a"
    using code_segment [of c] split_list_first by metis
  moreover from this have "takeWhile (\<lambda>b. b \<noteq> CHR ''.'') (code_str c) = a" by (auto simp: takeWhile_append)
  then have "a = segment (code_family c)" using code_segment [of c] by metis
  ultimately show ?thesis by (auto simp: as_str_def text_bytes_def)
qed

text \<open>
  C40. The code registry is exact: the string of a code names that code and no other string does, the part
  ahead of its first dot is the segment of its family, and the tooling kind of every string, registered or
  not, is a function of the part ahead of its first dot alone, so the typed path and the fallback of the
  classification never disagree.
\<close>

theorem code_registry_exact:
  "(from_code s = Some c \<longleftrightarrow> s = as_str c)
   \<and> (\<exists>rest. as_str c = text_bytes (segment (code_family c)) @ of_char CHR ''.'' # rest)
   \<and> kind_for_code s = segment_kind (first_segment s)
   \<and> kind_for_code (as_str c) = code_kind c"
proof -
  have "kind_for_code s = segment_kind (first_segment s)" for s
    by (auto simp: kind_for_code_def from_code_iff first_segment_code segment_kind_family code_kind_def split: option.splits)
  moreover have "segment_kind (first_segment (as_str c)) = code_kind c"
    by (simp add: first_segment_code segment_kind_family code_kind_def)
  ultimately show ?thesis using from_code_iff code_prefix by metis
qed

end
