(* ===== verification/Wire_Json.thy ===== *)
theory Wire_Json
  imports Codes Decimal
begin

text \<open>
  The canonical JSON codec of the local wire (\<open>crates/marrow-local-wire/src/json.rs\<close> and \<open>error.rs\<close>): the
  value tree, the bounded encoder with its value slots and scoped writers, and the lexer with the strict
  parser. A string is its UTF-8 bytes, an encoder operation is a function on the encoder's state, a closure
  handed to a writer is such a function, and the position of the lexer is the unread rest of its text. The
  lexer's \<open>offset\<close> and \<open>since\<close>, which report positions to another caller, are left out.
\<close>

datatype WireError = FrameTooLarge | DepthLimit | StringLimit | UnsupportedVersion | Malformed | Noncanonical

fun wire_code :: "WireError \<Rightarrow> Code" where
  "wire_code FrameTooLarge = CWire WireFrameTooLarge"
| "wire_code DepthLimit = CWire WireDepthLimit"
| "wire_code StringLimit = CWire WireStringLimit"
| "wire_code UnsupportedVersion = CWire WireUnsupportedVersion"
| "wire_code Malformed = CWire WireMalformed"
| "wire_code Noncanonical = CWire WireNoncanonical"

definition MAX_DEPTH :: nat where "MAX_DEPTH = 64"
definition MAX_STRING_BYTES :: nat where "MAX_STRING_BYTES = 64 * 1024"

datatype Json = JNull | JBool bool | JInt i64 | JStr bytes | JArray "Json list" | JObject "(bytes \<times> Json) list"

section \<open>Characters\<close>

definition utf8_len :: "byte \<Rightarrow> nat option" where
  "utf8_len lead =
     (if lead \<le> 0x7F then Some 1
      else if 0xC0 \<le> lead \<and> lead \<le> 0xDF then Some 2
      else if 0xE0 \<le> lead \<and> lead \<le> 0xEF then Some 3
      else if 0xF0 \<le> lead \<and> lead \<le> 0xF7 then Some 4 else None)"

text \<open>\<open>str::chars\<close>: each character of valid text as its bytes.\<close>

definition char_width :: "byte \<Rightarrow> nat" where
  "char_width lead = (case utf8_len lead of Some n \<Rightarrow> n | None \<Rightarrow> 1)"

lemma char_width_pos [simp]: "0 < char_width b"
  by (auto simp: char_width_def utf8_len_def)

function utf8_chars :: "bytes \<Rightarrow> bytes list" where
  "utf8_chars [] = []"
| "utf8_chars (b # r) = take (char_width b) (b # r) # utf8_chars (drop (char_width b) (b # r))"
  by pat_completeness auto
termination
proof (relation "measure length", goal_cases)
  case (2 b r)
  then show ?case using char_width_pos [of b] by (simp del: char_width_pos)
qed simp

text \<open>\<open>char::encode_utf8\<close> and \<open>char::from_u32\<close>.\<close>

definition encode_utf8 :: "nat \<Rightarrow> bytes" where
  "encode_utf8 n = map word_of_nat
     (if n < 0x80 then [n]
      else if n < 0x800 then [0xC0 + n div 64, 0x80 + n mod 64]
      else if n < 0x10000 then [0xE0 + n div 4096, 0x80 + n div 64 mod 64, 0x80 + n mod 64]
      else [0xF0 + n div 262144, 0x80 + n div 4096 mod 64, 0x80 + n div 64 mod 64, 0x80 + n mod 64])"

definition char_from_u32 :: "nat \<Rightarrow> bytes option" where
  "char_from_u32 n = (if n < 0xD800 \<or> 0xE000 \<le> n \<and> n < 0x110000 then Some (encode_utf8 n) else None)"

section \<open>The encoder\<close>

record Encoder =
  je_text :: bytes
  je_limit :: "nat option"
  je_error :: "WireError option"

definition enc_new :: "bytes \<Rightarrow> nat option \<Rightarrow> Encoder" where
  "enc_new text limit = \<lparr>je_text = text, je_limit = limit, je_error = None\<rparr>"

text \<open>The first error sticks and is the one that is returned.\<close>

definition enc_fail :: "WireError \<Rightarrow> Encoder \<Rightarrow> (WireError + unit) \<times> Encoder" where
  "enc_fail error e = (case je_error e of Some first \<Rightarrow> (Inl first, e) | None \<Rightarrow> (Inl error, e\<lparr>je_error := Some error\<rparr>))"

definition enc_append :: "bytes \<Rightarrow> Encoder \<Rightarrow> (WireError + unit) \<times> Encoder" where
  "enc_append text e =
     (case je_error e of
        Some error \<Rightarrow> (Inl error, e)
      | None \<Rightarrow>
          if (case je_limit e of Some limit \<Rightarrow> length text > limit - length (je_text e) | None \<Rightarrow> False)
          then enc_fail FrameTooLarge e
          else (Inr (), e\<lparr>je_text := je_text e @ text\<rparr>))"

text \<open>A value slot is the encoder it writes to and whether it has been filled.\<close>

type_synonym slot = "Encoder \<times> bool"
type_synonym slot_writer = "slot \<Rightarrow> (WireError + unit) \<times> slot"

definition enc_value :: "slot_writer \<Rightarrow> Encoder \<Rightarrow> (WireError + unit) \<times> Encoder" where
  "enc_value write e =
     (case write (e, False) of
        (Inl error, (e', _)) \<Rightarrow> enc_fail error e'
      | (Inr _, (e', written)) \<Rightarrow>
          if \<not> written then enc_fail Malformed e'
          else (case je_error e' of None \<Rightarrow> (Inr (), e') | Some error \<Rightarrow> (Inl error, e')))"

definition enc_finish :: "Encoder \<Rightarrow> WireError + bytes" where
  "enc_finish e = (case je_error e of None \<Rightarrow> Inr (je_text e) | Some error \<Rightarrow> Inl error)"

text \<open>A loop that ends at the first error.\<close>

fun each :: "('a \<Rightarrow> 's \<Rightarrow> ('e + unit) \<times> 's) \<Rightarrow> 'a list \<Rightarrow> 's \<Rightarrow> ('e + unit) \<times> 's" where
  "each f [] s = (Inr (), s)"
| "each f (x # xs) s = sbind (f x) (\<lambda>_. each f xs) s"

definition HEX :: bytes where "HEX = text_bytes ''0123456789abcdef''"

definition json_piece :: "bytes \<Rightarrow> bytes" where
  "json_piece c =
     (if c = [0x22] then [0x5C, 0x22]
      else if c = [0x5C] then [0x5C, 0x5C]
      else if c = [0x08] then [0x5C, of_char CHR ''b'']
      else if c = [0x09] then [0x5C, of_char CHR ''t'']
      else if c = [0x0A] then [0x5C, of_char CHR ''n'']
      else if c = [0x0C] then [0x5C, of_char CHR ''f'']
      else if c = [0x0D] then [0x5C, of_char CHR ''r'']
      else case c of
             [b] \<Rightarrow> if b < 0x20 then [0x5C, of_char CHR ''u'', of_char CHR ''0'', of_char CHR ''0'', HEX ! (unat b div 16), HEX ! (unat b mod 16)]
                    else c
           | _ \<Rightarrow> c)"

definition write_json_string :: "bytes \<Rightarrow> (bytes \<Rightarrow> 's \<Rightarrow> ('e + unit) \<times> 's) \<Rightarrow> 's \<Rightarrow> ('e + unit) \<times> 's" where
  "write_json_string text put =
     sbind (put [0x22]) (\<lambda>_. sbind (each (\<lambda>c. put (json_piece c)) (utf8_chars text)) (\<lambda>_. put [0x22]))"

definition enc_string :: "bytes \<Rightarrow> Encoder \<Rightarrow> (WireError + unit) \<times> Encoder" where
  "enc_string text = write_json_string text enc_append"

section \<open>Writers\<close>

definition vw_write :: "(Encoder \<Rightarrow> (WireError + unit) \<times> Encoder) \<Rightarrow> slot_writer" where
  "vw_write write = (\<lambda>(e, written). case write e of (Inl error, e') \<Rightarrow> (Inl error, (e', written)) | (Inr _, e') \<Rightarrow> (Inr (), (e', True)))"

definition vw_null :: slot_writer where "vw_null = vw_write (enc_append (text_bytes ''null''))"

definition vw_boolean :: "bool \<Rightarrow> slot_writer" where
  "vw_boolean b = vw_write (enc_append (if b then text_bytes ''true'' else text_bytes ''false''))"

definition vw_integer :: "i64 \<Rightarrow> slot_writer" where
  "vw_integer v = vw_write (enc_append (dec_int (sint v)))"

definition vw_string :: "bytes \<Rightarrow> slot_writer" where
  "vw_string v = vw_write (enc_string v)"

definition vw_hex_bytes :: "bytes \<Rightarrow> slot_writer" where
  "vw_hex_bytes bs = vw_write
     (sbind (enc_append (0x22 # text_bytes ''0x'')) (\<lambda>_.
      sbind (each (\<lambda>b. enc_append [HEX ! (unat b div 16), HEX ! (unat b mod 16)]) bs) (\<lambda>_. enc_append [0x22])))"

record ArrayWriter =
  aw_out :: Encoder
  aw_first :: bool

definition on_array :: "(Encoder \<Rightarrow> (WireError + unit) \<times> Encoder) \<Rightarrow> ArrayWriter \<Rightarrow> (WireError + unit) \<times> ArrayWriter" where
  "on_array f a = (case f (aw_out a) of (r, e) \<Rightarrow> (r, a\<lparr>aw_out := e\<rparr>))"

definition aw_element :: "slot_writer \<Rightarrow> ArrayWriter \<Rightarrow> (WireError + unit) \<times> ArrayWriter" where
  "aw_element write =
     sbind (\<lambda>a. if \<not> aw_first a then on_array (enc_append [0x2C]) a else (Inr (), a))
       (\<lambda>_ a. on_array (enc_value write) (a\<lparr>aw_first := False\<rparr>))"

definition vw_array :: "(ArrayWriter \<Rightarrow> (WireError + unit) \<times> ArrayWriter) \<Rightarrow> slot_writer" where
  "vw_array write = vw_write
     (sbind (enc_append [0x5B]) (\<lambda>_.
      sbind (\<lambda>e. case write \<lparr>aw_out = e, aw_first = True\<rparr> of (r, a) \<Rightarrow> (r, aw_out a)) (\<lambda>_. enc_append [0x5D])))"

record ObjectWriter =
  ow_out :: Encoder
  ow_first :: bool
  ow_previous :: "bytes option"

definition on_object :: "(Encoder \<Rightarrow> (WireError + unit) \<times> Encoder) \<Rightarrow> ObjectWriter \<Rightarrow> (WireError + unit) \<times> ObjectWriter" where
  "on_object f w = (case f (ow_out w) of (r, e) \<Rightarrow> (r, w\<lparr>ow_out := e\<rparr>))"

definition ow_field_value :: "bytes \<Rightarrow> slot_writer \<Rightarrow> ObjectWriter \<Rightarrow> (WireError + unit) \<times> ObjectWriter" where
  "ow_field_value key write =
     sbind (\<lambda>w. if \<not> ow_first w then on_object (enc_append [0x2C]) w else (Inr (), w)) (\<lambda>_ w.
     sbind (on_object (enc_string key)) (\<lambda>_. sbind (on_object (enc_append [0x3A])) (\<lambda>_. on_object (enc_value write)))
       (w\<lparr>ow_first := False\<rparr>))"

definition ow_field :: "bytes \<Rightarrow> slot_writer \<Rightarrow> ObjectWriter \<Rightarrow> (WireError + unit) \<times> ObjectWriter" where
  "ow_field key write w =
     (if (case ow_previous w of Some previous \<Rightarrow> previous \<ge> key | None \<Rightarrow> False) then on_object (enc_fail Noncanonical) w
      else ow_field_value key write (w\<lparr>ow_previous := Some key\<rparr>))"

definition vw_object :: "(ObjectWriter \<Rightarrow> (WireError + unit) \<times> ObjectWriter) \<Rightarrow> slot_writer" where
  "vw_object write = vw_write
     (sbind (enc_append [0x7B]) (\<lambda>_.
      sbind (\<lambda>e. case write \<lparr>ow_out = e, ow_first = True, ow_previous = None\<rparr> of (r, w) \<Rightarrow> (r, ow_out w)) (\<lambda>_. enc_append [0x7D])))"

text \<open>The stable sort of \<open>sort_by\<close> on the key bytes.\<close>

fun vw_json :: "Json \<Rightarrow> slot_writer" where
  "vw_json JNull = vw_null"
| "vw_json (JBool b) = vw_boolean b"
| "vw_json (JInt v) = vw_integer v"
| "vw_json (JStr s) = vw_string s"
| "vw_json (JArray items) = vw_array (each aw_element (map vw_json items))"
| "vw_json (JObject pairs) =
     vw_object (each (\<lambda>(key, write). ow_field_value key write) (sort_key fst (map (\<lambda>(key, v). (key, vw_json v)) pairs)))"

text \<open>\<open>None\<close> is the panic of the two \<open>expect\<close>s.\<close>

definition encode :: "Json \<Rightarrow> bytes option" where
  "encode v =
     (case enc_value (vw_json v) (enc_new [] None) of
        (Inl _, _) \<Rightarrow> None
      | (Inr _, e) \<Rightarrow> (case enc_finish e of Inl _ \<Rightarrow> None | Inr text \<Rightarrow> Some text))"

section \<open>The lexer\<close>

definition json_ws :: "byte \<Rightarrow> bool" where
  "json_ws b \<longleftrightarrow> b = 0x20 \<or> b = 0x09 \<or> b = 0x0A \<or> b = 0x0D"

definition skip_ws :: "bytes \<Rightarrow> bytes" where
  "skip_ws s = dropWhile json_ws s"

definition peek :: "bytes \<Rightarrow> byte option" where
  "peek s = (case s of [] \<Rightarrow> None | b # _ \<Rightarrow> Some b)"

definition at_end :: "bytes \<Rightarrow> bool" where
  "at_end s \<longleftrightarrow> s = []"

definition lx_take :: "byte \<Rightarrow> bytes \<Rightarrow> bool \<times> bytes" where
  "lx_take b s = (if peek s = Some b then (True, tl s) else (False, s))"

definition lx_expect :: "byte \<Rightarrow> bytes \<Rightarrow> WireError + bytes" where
  "lx_expect b s = (case lx_take b s of (True, s') \<Rightarrow> Inr s' | (False, _) \<Rightarrow> Inl Malformed)"

definition lx_literal :: "bytes \<Rightarrow> Json \<Rightarrow> bytes \<Rightarrow> WireError + Json \<times> bytes" where
  "lx_literal word v s = (if take (length word) s = word then Inr (v, drop (length word) s) else Inl Malformed)"

definition lx_number :: "bytes \<Rightarrow> WireError + Json \<times> bytes" where
  "lx_number s =
     (let (sign, r) = (if peek s = Some 0x2D then ([0x2D], tl s) else ([], s));
          digits = takeWhile is_digit r;
          rest = dropWhile is_digit r
      in if digits = [] then Inl Malformed
         else if peek rest \<in> {Some (of_char CHR ''.''), Some (of_char CHR ''e''), Some (of_char CHR ''E'')} then Inl Malformed
         else case parse_signed (- (2 ^ 63)) (2 ^ 63 - 1) (sign @ digits) of
                None \<Rightarrow> Inl Malformed
              | Some n \<Rightarrow> Inr (JInt (word_of_int n), rest))"

text \<open>\<open>char::to_digit(16)\<close>.\<close>

definition hex_digit :: "byte \<Rightarrow> nat option" where
  "hex_digit b =
     (if 0x30 \<le> b \<and> b \<le> 0x39 then Some (unat b - 0x30)
      else if 0x61 \<le> b \<and> b \<le> 0x66 then Some (unat b - 0x61 + 10)
      else if 0x41 \<le> b \<and> b \<le> 0x46 then Some (unat b - 0x41 + 10) else None)"

fun hex_value :: "nat \<Rightarrow> bytes \<Rightarrow> nat option" where
  "hex_value v [] = Some v"
| "hex_value v (b # bs) = (case hex_digit b of None \<Rightarrow> None | Some d \<Rightarrow> hex_value (v * 16 + d) bs)"

definition parse_hex4 :: "bytes \<Rightarrow> WireError + nat \<times> bytes" where
  "parse_hex4 s =
     (if length s < 4 then Inl Malformed
      else case hex_value 0 (take 4 s) of None \<Rightarrow> Inl Malformed | Some v \<Rightarrow> Inr (v, drop 4 s))"

definition low_surrogate :: "nat \<Rightarrow> bytes \<Rightarrow> WireError + bytes \<times> bytes" where
  "low_surrogate code s =
     (if peek s \<noteq> Some 0x5C then Inl Malformed
      else if peek (tl s) \<noteq> Some (of_char CHR ''u'') then Inl Malformed
      else case parse_hex4 (tl (tl s)) of
             Inl e \<Rightarrow> Inl e
           | Inr (low, s) \<Rightarrow>
               if \<not> (0xDC00 \<le> low \<and> low \<le> 0xDFFF) then Inl Malformed
               else case char_from_u32 (0x10000 + (code - 0xD800) * 1024 + (low - 0xDC00)) of
                      None \<Rightarrow> Inl Malformed
                    | Some ch \<Rightarrow> Inr (ch, s))"

text \<open>The character an escape stands for, with the text after it.\<close>

definition parse_escape :: "bytes \<Rightarrow> WireError + bytes \<times> bytes" where
  "parse_escape s =
     (case s of
        [] \<Rightarrow> Inl Malformed
      | esc # s \<Rightarrow>
          if esc = 0x22 then Inr ([0x22], s)
          else if esc = 0x5C then Inr ([0x5C], s)
          else if esc = 0x2F then Inr ([0x2F], s)
          else if esc = of_char CHR ''b'' then Inr ([0x08], s)
          else if esc = of_char CHR ''f'' then Inr ([0x0C], s)
          else if esc = of_char CHR ''n'' then Inr ([0x0A], s)
          else if esc = of_char CHR ''r'' then Inr ([0x0D], s)
          else if esc = of_char CHR ''t'' then Inr ([0x09], s)
          else if esc = of_char CHR ''u'' then
            (case parse_hex4 s of
               Inl e \<Rightarrow> Inl e
             | Inr (code, s) \<Rightarrow>
                 if 0xD800 \<le> code \<and> code \<le> 0xDBFF then low_surrogate code s
                 else case char_from_u32 code of None \<Rightarrow> Inl Malformed | Some ch \<Rightarrow> Inr (ch, s))
          else Inl Malformed)"

text \<open>One turn of the string loop reads an escape or a character; the quote that ends it is handled by the loop.\<close>

definition string_step :: "bytes \<Rightarrow> WireError + bytes \<times> bytes" where
  "string_step s =
     (case s of
        [] \<Rightarrow> Inl Malformed
      | byte # r \<Rightarrow>
          if byte = 0x5C then parse_escape r
          else if byte \<le> 0x1F then Inl Malformed
          else case utf8_len byte of
                 None \<Rightarrow> Inl Malformed
               | Some n \<Rightarrow>
                   if length s < n then Inl Malformed
                   else case from_utf8 (take n s) of None \<Rightarrow> Inl Malformed | Some ch \<Rightarrow> Inr (ch, drop n s))"

lemma parse_escape_shorter: "parse_escape s = Inr (ch, s') \<Longrightarrow> length s' < length s"
  by (auto simp: parse_escape_def low_surrogate_def parse_hex4_def less_Suc_eq_le split: list.splits if_splits sum.splits option.splits)

lemma string_step_shorter: "string_step s = Inr (ch, s') \<Longrightarrow> length s' < length s"
  by (auto simp: string_step_def utf8_len_def dest!: parse_escape_shorter split: list.splits if_splits option.splits)

function string_loop :: "nat \<Rightarrow> bytes \<Rightarrow> bytes \<Rightarrow> WireError + bytes \<times> bytes" where
  "string_loop m out s =
     (if peek s = Some 0x22 then Inr (out, tl s)
      else case string_step s of
             Inl e \<Rightarrow> Inl e
           | Inr (ch, s') \<Rightarrow> if length (out @ ch) > m then Inl StringLimit else string_loop m (out @ ch) s')"
  by pat_completeness auto
termination
  by (relation "measure (\<lambda>(_, _, s). length s)") (auto dest: string_step_shorter)

declare string_loop.simps [simp del]

definition lx_string :: "nat \<Rightarrow> bytes \<Rightarrow> WireError + bytes \<times> bytes" where
  "lx_string m s = rbind (lx_expect 0x22 s) (string_loop m [])"

definition scalar :: "nat \<Rightarrow> bytes \<Rightarrow> WireError + Json \<times> bytes" where
  "scalar m s =
     (case peek s of
        None \<Rightarrow> Inl Malformed
      | Some b \<Rightarrow>
          if b = 0x22 then rbind (lx_string m s) (\<lambda>(text, s). Inr (JStr text, s))
          else if b = of_char CHR ''t'' then lx_literal (text_bytes ''true'') (JBool True) s
          else if b = of_char CHR ''f'' then lx_literal (text_bytes ''false'') (JBool False) s
          else if b = of_char CHR ''n'' then lx_literal (text_bytes ''null'') JNull s
          else if b = 0x2D \<or> is_digit b then lx_number s
          else Inl Malformed)"

lemma lx_string_shorter: "lx_string m s = Inr (t, s') \<Longrightarrow> length s' < length s"
proof -
  have loop: "string_loop m out s = Inr (t, s') \<Longrightarrow> length s' < length s" for out s
  proof (induction m out s rule: string_loop.induct)
    case (1 m out s)
    show ?case
    proof (cases "peek s = Some 0x22")
      case True
      then show ?thesis using 1(2) by (auto simp: string_loop.simps [of m out s] peek_def split: list.splits)
    next
      case False
      then obtain ch r where step: "string_step s = Inr (ch, r)" "string_loop m (out @ ch) r = Inr (t, s')" "\<not> length (out @ ch) > m"
        using 1(2) by (subst (asm) string_loop.simps) (auto split: sum.splits if_splits)
      then show ?thesis using 1(1) [OF False step(1) refl step(3) step(2)] string_step_shorter by fastforce
    qed
  qed
  assume "lx_string m s = Inr (t, s')"
  then show ?thesis by (auto simp: lx_string_def lx_expect_def lx_take_def peek_def dest: loop split: if_splits list.splits)
qed

lemma scalar_shorter: "scalar m s = Inr (v, s') \<Longrightarrow> length s' < length s"
proof -
  have drop: "length (dropWhile is_digit r) < length r" if "takeWhile is_digit r \<noteq> []" for r
    using that by (metis append_self_conv2 length_append length_greater_0_conv less_add_same_cancel2 takeWhile_dropWhile_id)
  have number: "lx_number s = Inr (v, s') \<Longrightarrow> length s' < length s" for s v s'
    using drop [of s] drop [of "tl s"]
    by (auto simp: lx_number_def Let_def peek_def split: if_splits option.splits list.splits prod.splits)
  assume "scalar m s = Inr (v, s')"
  then show ?thesis
    by (auto simp: scalar_def lx_literal_def peek_def text_bytes_def dest!: number lx_string_shorter
        split: if_splits option.splits list.splits)
qed

lemma skip_ws_length [simp]: "length (skip_ws s) \<le> length s"
  by (simp add: skip_ws_def length_dropWhile_le)

lemma skip_ws_shorter: "skip_ws s = b # r \<Longrightarrow> length r < length s"
  using skip_ws_length [of s] by simp

lemma skip_ws_peek: "peek (skip_ws s) = Some b \<Longrightarrow> length (tl (skip_ws s)) < length s"
  using skip_ws_length [of s] by (cases "skip_ws s") (auto simp: peek_def)

section \<open>The strict parser\<close>

text \<open>
  The recursive descent of \<open>parse_value\<close>. The pairs of an object under construction stand for the \<open>BTreeMap\<close>
  of the source: a key is refused when it is already there, and the finished object has them in key order.
\<close>

function parse_value :: "nat \<Rightarrow> nat \<Rightarrow> bytes \<Rightarrow> WireError + Json \<times> bytes"
  and parse_array :: "nat \<Rightarrow> nat \<Rightarrow> bytes \<Rightarrow> WireError + Json \<times> bytes"
  and array_loop :: "nat \<Rightarrow> nat \<Rightarrow> Json list \<Rightarrow> bytes \<Rightarrow> WireError + Json \<times> bytes"
  and parse_object :: "nat \<Rightarrow> nat \<Rightarrow> bytes \<Rightarrow> WireError + Json \<times> bytes"
  and object_loop :: "nat \<Rightarrow> nat \<Rightarrow> (bytes \<times> Json) list \<Rightarrow> bytes \<Rightarrow> WireError + Json \<times> bytes" where
  "parse_value m depth s =
     (case skip_ws s of
        [] \<Rightarrow> Inl Malformed
      | b # r \<Rightarrow>
          if b = 0x7B then parse_object m depth r
          else if b = 0x5B then parse_array m depth r
          else scalar m (skip_ws s))"
| "parse_array m depth s =
     (if depth + 1 > MAX_DEPTH then Inl DepthLimit
      else if peek (skip_ws s) = Some 0x5D then Inr (JArray [], tl (skip_ws s))
      else array_loop m depth [] (skip_ws s))"
| "array_loop m depth items s =
     (case parse_value m (depth + 1) s of
        Inl e \<Rightarrow> Inl e
      | Inr (item, s') \<Rightarrow>
          (case skip_ws s' of
             [] \<Rightarrow> Inl Malformed
           | b # r \<Rightarrow>
               if b = 0x2C then array_loop m depth (items @ [item]) r
               else if b = 0x5D then Inr (JArray (items @ [item]), r)
               else Inl Malformed))"
| "parse_object m depth s =
     (if depth + 1 > MAX_DEPTH then Inl DepthLimit
      else if peek (skip_ws s) = Some 0x7D then Inr (JObject [], tl (skip_ws s))
      else object_loop m depth [] (skip_ws s))"
| "object_loop m depth pairs s =
     (if peek (skip_ws s) \<noteq> Some 0x22 then Inl Malformed
      else case lx_string m (skip_ws s) of
        Inl e \<Rightarrow> Inl e
      | Inr (key, s') \<Rightarrow>
          if key \<in> fst ` set pairs then Inl Noncanonical
          else (case skip_ws s' of
                  [] \<Rightarrow> Inl Malformed
                | c # s'' \<Rightarrow>
                    if c \<noteq> 0x3A then Inl Malformed
                    else (case parse_value m (depth + 1) s'' of
                            Inl e \<Rightarrow> Inl e
                          | Inr (v, r) \<Rightarrow>
                              (case skip_ws r of
                                 [] \<Rightarrow> Inl Malformed
                               | b # r' \<Rightarrow>
                                   if b = 0x2C then object_loop m depth (pairs @ [(key, v)]) r'
                                   else if b = 0x7D then Inr (JObject (sort_key fst (pairs @ [(key, v)])), r')
                                   else Inl Malformed))))"
  by pat_completeness auto

lemma parse_shorter_dom:
  "parse_value_parse_array_array_loop_parse_object_object_loop_dom (Inl (Inl (m, depth, s))) \<Longrightarrow>
     \<forall>v s'. parse_value m depth s = Inr (v, s') \<longrightarrow> length s' < length s"
  "parse_value_parse_array_array_loop_parse_object_object_loop_dom (Inl (Inr (m, depth, s))) \<Longrightarrow>
     \<forall>v s'. parse_array m depth s = Inr (v, s') \<longrightarrow> length s' < length s"
  "parse_value_parse_array_array_loop_parse_object_object_loop_dom (Inr (Inl (m, depth, items, s))) \<Longrightarrow>
     \<forall>v s'. array_loop m depth items s = Inr (v, s') \<longrightarrow> length s' < length s"
  "parse_value_parse_array_array_loop_parse_object_object_loop_dom (Inr (Inr (Inl (m, depth, s)))) \<Longrightarrow>
     \<forall>v s'. parse_object m depth s = Inr (v, s') \<longrightarrow> length s' < length s"
  "parse_value_parse_array_array_loop_parse_object_object_loop_dom (Inr (Inr (Inr (m, depth, pairs, s)))) \<Longrightarrow>
     \<forall>v s'. object_loop m depth pairs s = Inr (v, s') \<longrightarrow> length s' < length s"
proof (induction m depth s and m depth s and m depth items s and m depth s and m depth pairs s
    rule: parse_value_parse_array_array_loop_parse_object_object_loop.pinduct)
  case (1 m depth s)
  show ?case
    using 1(2,3) scalar_shorter [of m "skip_ws s"] skip_ws_shorter [of s] skip_ws_length [of s]
    by (cases "skip_ws s") (auto simp: parse_value.psimps [OF 1(1)] split: if_splits intro: less_trans)
next
  case (2 m depth s)
  show ?case
    using 2(2) skip_ws_peek [of s] skip_ws_length [of s]
    by (auto simp: parse_array.psimps [OF 2(1)] intro: less_le_trans split: if_splits)
next
  case (3 m depth items s)
  show ?case
  proof (intro allI impI)
    fix v s' assume "array_loop m depth items s = Inr (v, s')"
    then obtain item y b r where step: "parse_value m (depth + 1) s = Inr (item, y)" "skip_ws y = b # r"
      "b = 0x2C \<and> array_loop m depth (items @ [item]) r = Inr (v, s') \<or> s' = r"
      by (subst (asm) array_loop.psimps [OF 3(1)]) (auto split: list.splits if_splits sum.splits)
    then show "length s' < length s"
      using 3(2) 3(3) [OF step(1) refl step(2)] skip_ws_shorter [of y b r] by (auto intro: less_trans)
  qed
next
  case (4 m depth s)
  show ?case
    using 4(2) skip_ws_peek [of s] skip_ws_length [of s]
    by (auto simp: parse_object.psimps [OF 4(1)] intro: less_le_trans split: if_splits)
next
  case (5 m depth pairs s)
  show ?case
  proof (intro allI impI)
    fix v s' assume "object_loop m depth pairs s = Inr (v, s')"
    then obtain key y z x y' b r where quote: "peek (skip_ws s) = Some 0x22"
      and key: "lx_string m (skip_ws s) = Inr (key, y)" "key \<notin> fst ` set pairs" "skip_ws y = 0x3A # z"
      and v: "parse_value m (depth + 1) z = Inr (x, y')" "skip_ws y' = b # r"
      "b = 0x2C \<and> object_loop m depth (pairs @ [(key, x)]) r = Inr (v, s') \<or> s' = r"
      by (subst (asm) object_loop.psimps [OF 5(1)]) (auto split: list.splits if_splits sum.splits)
    have "length z < length s"
      using lx_string_shorter [OF key(1)] skip_ws_length [of s] skip_ws_shorter [OF key(3)] by linarith
    moreover have "length y' < length z"
      using 5(2) [OF _ key(1) refl key(2,3)] v(1) quote by simp
    ultimately show "length s' < length s"
      using 5(3) [OF _ key(1) refl key(2,3) _ v(1) refl v(2)] v(3) quote skip_ws_shorter [OF v(2)] by auto
  qed
qed

termination parse_value
proof (relation "measure (\<lambda>x. case x of
      Inl (Inl (_, _, s)) \<Rightarrow> 3 * length s + 1
    | Inl (Inr (_, _, s)) \<Rightarrow> 3 * length s + 3
    | Inr (Inl (_, _, _, s)) \<Rightarrow> 3 * length s + 2
    | Inr (Inr (Inl (_, _, s))) \<Rightarrow> 3 * length s + 3
    | Inr (Inr (Inr (_, _, _, s))) \<Rightarrow> 3 * length s + 2)", goal_cases)
  case (2 m depth s b r)
  then show ?case using skip_ws_shorter [of s] by simp
next
  case (3 m depth s b r)
  then show ?case using skip_ws_shorter [of s] by simp
next
  case (4 m depth s)
  then show ?case using skip_ws_length [of s] by (simp add: less_Suc_eq_le del: skip_ws_length)
next
  case (6 m depth items s b x y c r)
  then show ?case using parse_shorter_dom(1) [of m "depth + 1" s] skip_ws_shorter [of y] by fastforce
next
  case (7 m depth s)
  then show ?case using skip_ws_length [of s] by (simp add: less_Suc_eq_le del: skip_ws_length)
next
  case (8 m depth pairs s b key y c r)
  then have "length y < length (skip_ws s)" "length r < length y" using lx_string_shorter skip_ws_shorter by auto
  then show ?case using skip_ws_length [of s] by (simp del: skip_ws_length)
next
  case (9 m depth pairs s b key y c r b' v y' c' r')
  then have "length y < length (skip_ws s)" "length r < length y" "length y' < length r" "length r' < length y'"
    using lx_string_shorter skip_ws_shorter parse_shorter_dom(1) [of m "depth + 1" r] by auto
  then show ?case using skip_ws_length [of s] by (simp del: skip_ws_length)
qed simp_all

declare parse_value.simps [simp del] parse_array.simps [simp del] array_loop.simps [simp del]
  parse_object.simps [simp del] object_loop.simps [simp del]

text \<open>\<open>None\<close> is the panic of \<open>encode\<close>.\<close>

definition parse_strict :: "bytes \<Rightarrow> (WireError + Json) option" where
  "parse_strict input =
     (case from_utf8 input of
        None \<Rightarrow> Some (Inl Malformed)
      | Some text \<Rightarrow>
          (case parse_value MAX_STRING_BYTES 0 text of
             Inl e \<Rightarrow> Some (Inl e)
           | Inr (v, rest) \<Rightarrow>
               if \<not> at_end (skip_ws rest) then Some (Inl Malformed)
               else (case encode v of
                       None \<Rightarrow> None
                     | Some spelling \<Rightarrow> Some (if spelling \<noteq> input then Inl Noncanonical else Inr v))))"

end
