(* ===== verification/Wire_Canon.thy ===== *)
theory Wire_Canon
  imports Wire_Json
begin

text \<open>
  The canonical spelling of a wire value and the contract of the encoder: an operation of a live encoder
  appends exactly its text, or it runs out of the limit and the encoder holds \<open>FrameTooLarge\<close> for good.
\<close>

declare each.simps [simp del]

section \<open>The canonical spelling\<close>

definition json_str :: "bytes \<Rightarrow> bytes" where
  "json_str t = 0x22 # concat (map json_piece (utf8_chars t)) @ [0x22]"

fun commas :: "bytes list \<Rightarrow> bytes" where
  "commas [] = []"
| "commas (x # xs) = x @ concat (map ((#) 0x2C) xs)"

fun canon :: "Json \<Rightarrow> bytes" where
  "canon JNull = text_bytes ''null''"
| "canon (JBool b) = (if b then text_bytes ''true'' else text_bytes ''false'')"
| "canon (JInt v) = dec_int (sint v)"
| "canon (JStr s) = json_str s"
| "canon (JArray items) = 0x5B # commas (map canon items) @ [0x5D]"
| "canon (JObject pairs) =
     0x7B # commas (map (\<lambda>(k, c). json_str k @ 0x3A # c) (sort_key fst (map (\<lambda>(k, v). (k, canon v)) pairs))) @ [0x7D]"

definition field_text :: "bytes \<times> bytes \<Rightarrow> bytes" where
  "field_text = (\<lambda>(k, c). json_str k @ 0x3A # c)"

lemma sort_key_map_values: "sort_key fst (map (\<lambda>(k, v). (k, f v)) ps) = map (\<lambda>(k, v). (k, f v)) (sort_key fst ps)"
proof -
  have "insort_key fst (k, f v) (map (\<lambda>(k, v). (k, f v)) qs) = map (\<lambda>(k, v). (k, f v)) (insort_key fst (k, v) qs)" for k v qs
    by (induction qs) auto
  note insort = this
  show ?thesis by (induction ps) (auto simp: insort)
qed

lemma canon_object: "canon (JObject pairs) = 0x7B # commas (map (\<lambda>(k, v). field_text (k, canon v)) (sort_key fst pairs)) @ [0x7D]"
  unfolding canon.simps sort_key_map_values by (simp add: field_text_def comp_def case_prod_beta')

section \<open>Emission\<close>

definition room :: "Encoder \<Rightarrow> bytes \<Rightarrow> bool" where
  "room e t \<longleftrightarrow> (case je_limit e of None \<Rightarrow> True | Some limit \<Rightarrow> length (je_text e) + length t \<le> limit)"

definition live :: "Encoder \<Rightarrow> bool" where
  "live e \<longleftrightarrow> je_error e = None \<and> room e []"

definition emits :: "(Encoder \<Rightarrow> (WireError + unit) \<times> Encoder) \<Rightarrow> bytes \<Rightarrow> bool" where
  "emits f t \<longleftrightarrow> (\<forall>e. live e \<longrightarrow>
     (if room e t then f e = (Inr (), e\<lparr>je_text := je_text e @ t\<rparr>)
      else \<exists>e'. f e = (Inl FrameTooLarge, e') \<and> je_error e' = Some FrameTooLarge))"

named_theorems emission

lemma emits_nothing [emission]: "emits (\<lambda>e. (Inr (), e)) []"
  by (auto simp: emits_def live_def)

lemma emits_append [emission]: "emits (enc_append t) t"
  by (auto simp: emits_def live_def room_def enc_append_def enc_fail_def split: option.splits)

lemma emits_sbind [emission]: "emits f s \<Longrightarrow> emits g t \<Longrightarrow> emits (sbind f (\<lambda>_. g)) (s @ t)"
proof -
  assume f: "emits f s" and g: "emits g t"
  have grown: "live (e\<lparr>je_text := je_text e @ s\<rparr>)" "room (e\<lparr>je_text := je_text e @ s\<rparr>) t = room e (s @ t)" if "live e" "room e s" for e
    using that by (auto simp: live_def room_def split: option.splits)
  have less: "room e (s @ t) \<Longrightarrow> room e s" for e
    by (auto simp: room_def split: option.splits)
  show ?thesis
    unfolding emits_def
  proof (intro allI impI)
    fix e assume e: "live e"
    show "if room e (s @ t) then sbind f (\<lambda>_. g) e = (Inr (), e\<lparr>je_text := je_text e @ s @ t\<rparr>)
          else \<exists>e'. sbind f (\<lambda>_. g) e = (Inl FrameTooLarge, e') \<and> je_error e' = Some FrameTooLarge"
    proof (cases "room e s")
      case True
      then have "f e = (Inr (), e\<lparr>je_text := je_text e @ s\<rparr>)" using f e by (simp add: emits_def)
      then show ?thesis using g grown [OF e True] by (simp add: emits_def sbind_def)
    next
      case False
      then obtain e' where "f e = (Inl FrameTooLarge, e')" "je_error e' = Some FrameTooLarge" using f [unfolded emits_def, rule_format, OF e] by auto
      then show ?thesis using False less [of e] by (auto simp: sbind_def)
    qed
  qed
qed

lemma emits_each: "(\<And>x. x \<in> set xs \<Longrightarrow> emits (f x) (t x)) \<Longrightarrow> emits (each f xs) (concat (map t xs))"
proof (induction xs)
  case Nil
  then show ?case using emits_nothing by (simp add: emits_def each.simps)
next
  case (Cons x xs)
  then have "emits (sbind (f x) (\<lambda>_. each f xs)) (t x @ concat (map t xs))" by (intro emits_sbind) auto
  then show ?case by (simp add: emits_def each.simps)
qed

lemma emits_string [emission]: "emits (enc_string s) (json_str s)"
proof -
  have "emits (enc_string s) ([0x22] @ concat (map json_piece (utf8_chars s)) @ [0x22])"
    unfolding enc_string_def write_json_string_def by (intro emits_sbind emits_append emits_each)
  then show ?thesis by (simp add: json_str_def)
qed

lemma emits_slot [emission]: "emits f t \<Longrightarrow> emits (enc_value (vw_write f)) t"
  by (fastforce simp: emits_def enc_value_def vw_write_def enc_fail_def live_def split: if_splits)

section \<open>Containers\<close>

definition array_run :: "(ArrayWriter \<Rightarrow> (WireError + unit) \<times> ArrayWriter) \<Rightarrow> bool \<Rightarrow> Encoder \<Rightarrow> (WireError + unit) \<times> Encoder" where
  "array_run w first e = (case w \<lparr>aw_out = e, aw_first = first\<rparr> of (r, a) \<Rightarrow> (r, aw_out a))"

lemma array_run_Cons:
  "array_run (each aw_element (w # ws)) first =
     sbind (sbind (if first then (\<lambda>e. (Inr (), e)) else enc_append [0x2C]) (\<lambda>_. enc_value w)) (\<lambda>_. array_run (each aw_element ws) False)"
  by (rule ext) (auto simp: array_run_def each.simps aw_element_def on_array_def sbind_def split: prod.splits sum.splits)

lemma array_run_Nil: "array_run (each aw_element []) first = (\<lambda>e. (Inr (), e))"
  by (rule ext) (simp add: array_run_def each.simps)

lemma emits_more_elements:
  assumes "\<And>x. x \<in> set xs \<Longrightarrow> emits (enc_value (w x)) (t x)"
  shows "emits (array_run (each aw_element (map w xs)) False) (concat (map (\<lambda>x. 0x2C # t x) xs))"
  using assms
proof (induction xs)
  case Nil
  show ?case using emits_nothing by (simp only: list.map array_run_Nil concat.simps)
next
  case (Cons x xs)
  have "emits (array_run (each aw_element (w x # map w xs)) False) (([0x2C] @ t x) @ concat (map (\<lambda>x. 0x2C # t x) xs))"
    unfolding array_run_Cons if_False using Cons by (intro emits_sbind emits_append) simp_all
  then show ?case by simp
qed

lemma emits_elements:
  assumes "\<And>x. x \<in> set xs \<Longrightarrow> emits (enc_value (w x)) (t x)"
  shows "emits (array_run (each aw_element (map w xs)) True) (commas (map t xs))"
proof (cases xs)
  case Nil
  then show ?thesis using emits_nothing by (simp only: list.map array_run_Nil commas.simps)
next
  case (Cons x us)
  have "emits (array_run (each aw_element (w x # map w us)) True) (([] @ t x) @ concat (map (\<lambda>x. 0x2C # t x) us))"
    unfolding array_run_Cons if_True using assms Cons by (intro emits_sbind emits_nothing emits_more_elements) simp_all
  then show ?thesis by (simp add: Cons comp_def)
qed

lemma emits_array:
  assumes "\<And>x. x \<in> set xs \<Longrightarrow> emits (enc_value (w x)) (t x)"
  shows "emits (enc_value (vw_array (each aw_element (map w xs)))) (0x5B # commas (map t xs) @ [0x5D])"
proof -
  have "emits (enc_value (vw_array (each aw_element (map w xs)))) ([0x5B] @ commas (map t xs) @ [0x5D])"
    unfolding vw_array_def using emits_elements [OF assms, unfolded array_run_def]
    by (intro emits_slot emits_sbind emits_append)
  then show ?thesis by simp
qed

definition object_run :: "(ObjectWriter \<Rightarrow> (WireError + unit) \<times> ObjectWriter) \<Rightarrow> bool \<Rightarrow> bytes option \<Rightarrow> Encoder \<Rightarrow> (WireError + unit) \<times> Encoder" where
  "object_run w first previous e = (case w \<lparr>ow_out = e, ow_first = first, ow_previous = previous\<rparr> of (r, a) \<Rightarrow> (r, ow_out a))"

definition field_run :: "bool \<Rightarrow> bytes \<Rightarrow> slot_writer \<Rightarrow> Encoder \<Rightarrow> (WireError + unit) \<times> Encoder" where
  "field_run first key w =
     sbind (if first then (\<lambda>e. (Inr (), e)) else enc_append [0x2C]) (\<lambda>_. sbind (enc_string key) (\<lambda>_. sbind (enc_append [0x3A]) (\<lambda>_. enc_value w)))"

lemma object_run_Nil: "object_run (each f []) first previous = (\<lambda>e. (Inr (), e))"
  by (rule ext) (simp add: object_run_def each.simps)

lemma object_run_value:
  "object_run (each (\<lambda>(k, w). ow_field_value k w) ((key, w) # fs)) first previous =
     sbind (field_run first key w) (\<lambda>_. object_run (each (\<lambda>(k, w). ow_field_value k w) fs) False previous)"
  by (rule ext) (auto simp: object_run_def each.simps field_run_def ow_field_value_def on_object_def sbind_def split: prod.splits sum.splits)

lemma object_run_field:
  "(case previous of Some p \<Rightarrow> p < key | None \<Rightarrow> True) \<Longrightarrow>
   object_run (each (\<lambda>(k, w). ow_field k w) ((key, w) # fs)) first previous =
     sbind (field_run first key w) (\<lambda>_. object_run (each (\<lambda>(k, w). ow_field k w) fs) False (Some key))"
  by (rule ext)
    (auto simp: object_run_def each.simps field_run_def ow_field_def ow_field_value_def on_object_def sbind_def split: prod.splits sum.splits option.splits)

lemma emits_field: "emits (enc_value w) t \<Longrightarrow> emits (field_run first k w) ((if first then [] else [0x2C]) @ field_text (k, t))"
proof -
  assume w: "emits (enc_value w) t"
  have "emits (field_run first k w) ((if first then [] else [0x2C]) @ json_str k @ [0x3A] @ t)"
    unfolding field_run_def using w by (cases first) (simp_all only: if_True if_False, (intro emits_sbind emits_nothing emits_append emits_string; assumption)+)
  then show ?thesis by (simp add: field_text_def)
qed

lemma emits_values:
  assumes "\<And>x. x \<in> set xs \<Longrightarrow> emits (enc_value (w x)) (t x)"
  shows "emits (object_run (each (\<lambda>(k, w). ow_field_value k w) (map (\<lambda>x. (k x, w x)) xs)) first previous)
    (if first then commas (map (\<lambda>x. field_text (k x, t x)) xs) else concat (map (\<lambda>x. 0x2C # field_text (k x, t x)) xs))"
  using assms
proof (induction xs arbitrary: first)
  case Nil
  show ?case using emits_nothing by (simp add: object_run_Nil)
next
  case (Cons x xs)
  have "emits (sbind (field_run first (k x) (w x)) (\<lambda>_. object_run (each (\<lambda>(k, w). ow_field_value k w) (map (\<lambda>x. (k x, w x)) xs)) False previous))
     (((if first then [] else [0x2C]) @ field_text (k x, t x)) @ concat (map (\<lambda>x. 0x2C # field_text (k x, t x)) xs))"
    using Cons.IH [of False] Cons.prems by (intro emits_sbind emits_field) simp_all
  then show ?case by (cases first) (simp_all add: object_run_value comp_def)
qed

lemma emits_fields:
  assumes "\<And>x. x \<in> set xs \<Longrightarrow> emits (enc_value (w x)) (t x)" "sorted_wrt (<) (map k xs)"
    "\<And>x p. x \<in> set xs \<Longrightarrow> previous = Some p \<Longrightarrow> p < k x"
  shows "emits (object_run (each (\<lambda>(k, w). ow_field k w) (map (\<lambda>x. (k x, w x)) xs)) first previous)
    (if first then commas (map (\<lambda>x. field_text (k x, t x)) xs) else concat (map (\<lambda>x. 0x2C # field_text (k x, t x)) xs))"
  using assms
proof (induction xs arbitrary: first previous)
  case Nil
  show ?case using emits_nothing by (simp add: object_run_Nil)
next
  case (Cons x xs)
  have "emits (sbind (field_run first (k x) (w x)) (\<lambda>_. object_run (each (\<lambda>(k, w). ow_field k w) (map (\<lambda>x. (k x, w x)) xs)) False (Some (k x))))
     (((if first then [] else [0x2C]) @ field_text (k x, t x)) @ concat (map (\<lambda>x. 0x2C # field_text (k x, t x)) xs))"
    using Cons.IH [of "Some (k x)" False] Cons.prems by (intro emits_sbind emits_field) auto
  moreover have "case previous of Some p \<Rightarrow> p < k x | None \<Rightarrow> True" using Cons.prems(3) by (auto split: option.splits)
  ultimately show ?case by (cases first) (simp_all add: object_run_field comp_def)
qed

lemma emits_object:
  assumes "emits (object_run f True None) t"
  shows "emits (enc_value (vw_object f)) (0x7B # t @ [0x7D])"
proof -
  have "emits (enc_value (vw_object f)) ([0x7B] @ t @ [0x7D])"
    unfolding vw_object_def using assms [unfolded object_run_def] by (intro emits_slot emits_sbind emits_append)
  then show ?thesis by simp
qed

section \<open>The encoder writes the canonical spelling\<close>

lemma emits_json: "emits (enc_value (vw_json v)) (canon v)"
proof (induction v rule: canon.induct)
  case (5 items)
  then show ?case using emits_array [of items vw_json canon] by simp
next
  case (6 pairs)
  have "emits (object_run (each (\<lambda>(k, w). ow_field_value k w) (map (\<lambda>(k, v). (k, vw_json v)) (sort_key fst pairs))) True None)
     (commas (map (\<lambda>(k, v). field_text (k, canon v)) (sort_key fst pairs)))"
    using emits_values [of "sort_key fst pairs" "vw_json \<circ> snd" "canon \<circ> snd" fst True None] 6
    by (simp add: case_prod_beta' comp_def) fastforce
  then show ?case unfolding canon_object vw_json.simps sort_key_map_values by (rule emits_object)
qed (simp_all add: vw_null_def vw_boolean_def vw_integer_def vw_string_def emission)

lemma encode_canon: "encode v = Some (canon v)"
  using emits_json [of v] by (auto simp: emits_def encode_def enc_new_def live_def room_def enc_finish_def)

end
