(* ===== verification/Wire_Parse.thy ===== *)
theory Wire_Parse
  imports Wire_Canon
begin

text \<open>
  The strict parser against the canonical spelling: every value it returns is well formed and within the
  limits, and it reads back every such value from its spelling.
\<close>

section \<open>Characters of valid text\<close>

lemma byte_ranges:
  fixes a :: byte
  obtains "a < 0x80" | "0x80 \<le> a" "a < 0xC2" | "0xC2 \<le> a" "a \<le> 0xDF" | "0xE0 \<le> a" "a \<le> 0xEF" | "0xF0 \<le> a" "a \<le> 0xF7" | "0xF7 < a"
proof -
  have "unat a < 0x80 \<or> (0x80 \<le> unat a \<and> unat a < 0xC2) \<or> (0xC2 \<le> unat a \<and> unat a \<le> 0xDF) \<or> (0xE0 \<le> unat a \<and> unat a \<le> 0xEF)
      \<or> (0xF0 \<le> unat a \<and> unat a \<le> 0xF7) \<or> 0xF7 < unat a" by linarith
  then show thesis using that by (simp add: word_less_nat_alt word_le_nat_alt) blast
qed

lemma utf8_lead_2: "0xC2 \<le> a \<Longrightarrow> a \<le> 0xDF \<Longrightarrow> utf8_valid (a # t) \<longleftrightarrow> (\<exists>b r. t = b # r \<and> utf8_cont b \<and> utf8_valid r)"
proof -
  assume a: "0xC2 \<le> a" "a \<le> 0xDF"
  then have "\<not> a < 0x80" by (simp add: word_less_nat_alt word_le_nat_alt)
  then show ?thesis using a by (cases t) auto
qed

definition second_3 :: "byte \<Rightarrow> byte \<Rightarrow> bool" where
  "second_3 a b \<longleftrightarrow> (if a = 0xE0 then 0xA0 \<le> b \<and> b \<le> 0xBF else if a = 0xED then 0x80 \<le> b \<and> b \<le> 0x9F else utf8_cont b)"

lemma utf8_lead_3:
  assumes "0xE0 \<le> a" "a \<le> 0xEF"
  shows "utf8_valid (a # t) \<longleftrightarrow> (\<exists>b c r. t = b # c # r \<and> second_3 a b \<and> utf8_cont c \<and> utf8_valid r)"
proof -
  have a: "\<not> a < 0x80" "\<not> a \<le> 0xDF" "a = 0xE0 \<or> 0xE1 \<le> a"
    using assms by (auto simp: word_less_nat_alt word_le_nat_alt word_unat_eq_iff)
  show ?thesis
    using a(3) by (cases t; cases "tl t") (auto simp: a(1,2) assms second_3_def)
qed

definition second_4 :: "byte \<Rightarrow> byte \<Rightarrow> bool" where
  "second_4 a b \<longleftrightarrow> (a = 0xF0 \<and> 0x90 \<le> b \<and> b \<le> 0xBF) \<or> (0xF1 \<le> a \<and> a \<le> 0xF3 \<and> utf8_cont b) \<or> (a = 0xF4 \<and> 0x80 \<le> b \<and> b \<le> 0x8F)"

lemma utf8_lead_4:
  assumes "0xF0 \<le> a"
  shows "utf8_valid (a # t) \<longleftrightarrow> (\<exists>b c d r. t = b # c # d # r \<and> second_4 a b \<and> utf8_cont c \<and> utf8_cont d \<and> utf8_valid r)"
proof -
  have a: "\<not> a < 0x80" "\<not> a \<le> 0xDF" "a \<noteq> 0xE0" "a \<noteq> 0xED" "\<not> a \<le> 0xEF"
    using assms by (auto simp: word_less_nat_alt word_le_nat_alt word_unat_eq_iff)
  show ?thesis
    by (cases t; cases "tl t"; cases "tl (tl t)") (auto simp: a second_4_def)
qed

lemma utf8_lead_bad: "0x80 \<le> a \<Longrightarrow> a < 0xC2 \<Longrightarrow> \<not> utf8_valid (a # t)"
proof -
  assume "0x80 \<le> a" "a < 0xC2"
  then have a: "\<not> a < 0x80" "\<not> 0xC2 \<le> a" "a \<noteq> 0xE0" "a \<noteq> 0xED" "\<not> 0xE1 \<le> a" "a \<noteq> 0xF0" "\<not> 0xF1 \<le> a" "a \<noteq> 0xF4"
    by (auto simp: word_less_nat_alt word_le_nat_alt word_unat_eq_iff)
  show ?thesis by (cases t; cases "tl t"; cases "tl (tl t)") (auto simp: a)
qed

lemma utf8_len_range:
  "a < 0x80 \<Longrightarrow> utf8_len a = Some 1" "0xC2 \<le> a \<Longrightarrow> a \<le> 0xDF \<Longrightarrow> utf8_len a = Some 2"
  "0xE0 \<le> a \<Longrightarrow> a \<le> 0xEF \<Longrightarrow> utf8_len a = Some 3" "0xF0 \<le> a \<Longrightarrow> a \<le> 0xF7 \<Longrightarrow> utf8_len a = Some 4"
  by (auto simp: utf8_len_def word_less_nat_alt word_le_nat_alt)

inductive utf8_char :: "bytes \<Rightarrow> bool" where
  one: "b < 0x80 \<Longrightarrow> utf8_char [b]"
| two: "0xC2 \<le> a \<Longrightarrow> a \<le> 0xDF \<Longrightarrow> utf8_cont b \<Longrightarrow> utf8_char [a, b]"
| three: "0xE0 \<le> a \<Longrightarrow> a \<le> 0xEF \<Longrightarrow> second_3 a b \<Longrightarrow> utf8_cont c \<Longrightarrow> utf8_char [a, b, c]"
| four: "0xF0 \<le> a \<Longrightarrow> a \<le> 0xF7 \<Longrightarrow> second_4 a b \<Longrightarrow> utf8_cont c \<Longrightarrow> utf8_cont d \<Longrightarrow> utf8_char [a, b, c, d]"

lemma second_4_lead: "second_4 a b \<Longrightarrow> a \<le> 0xF7"
  by (auto simp: second_4_def word_le_nat_alt)

lemma utf8_split:
  assumes "utf8_valid (a # t)"
  shows "\<exists>c r. a # t = c @ r \<and> utf8_char c \<and> utf8_valid r"
proof (rule byte_ranges [of a])
  assume "a < 0x80"
  then have "utf8_char [a]" "utf8_valid t" using assms by (auto intro: one)
  then show ?thesis by (metis append_Cons append_Nil)
next
  assume a: "0xC2 \<le> a" "a \<le> 0xDF"
  then obtain b r where "t = b # r" "utf8_cont b" "utf8_valid r" using assms utf8_lead_2 by blast
  then show ?thesis using two [OF a] by (metis append_Cons append_Nil)
next
  assume a: "0xE0 \<le> a" "a \<le> 0xEF"
  then obtain b c r where "t = b # c # r" "second_3 a b" "utf8_cont c" "utf8_valid r" using assms utf8_lead_3 by blast
  then show ?thesis using three [OF a] by (metis append_Cons append_Nil)
next
  assume a: "0xF0 \<le> a" "a \<le> 0xF7"
  then obtain b c d r where "t = b # c # d # r" "second_4 a b" "utf8_cont c" "utf8_cont d" "utf8_valid r" using assms utf8_lead_4 by blast
  then show ?thesis using four [OF a] by (metis append_Cons append_Nil)
next
  assume a: "0xF7 < a"
  then have "0xF0 \<le> a" "\<not> a \<le> 0xF7" by (simp_all add: word_less_nat_alt word_le_nat_alt)
  then show ?thesis using assms utf8_lead_4 second_4_lead by blast
qed (use assms utf8_lead_bad in blast)

lemma utf8_valid_char [simp]: "utf8_char c \<Longrightarrow> utf8_valid (c @ r) = utf8_valid r"
  by (induction rule: utf8_char.induct) (simp_all add: utf8_lead_2 utf8_lead_3 utf8_lead_4 del: utf8_valid.simps(2), simp)

lemma utf8_char_len: "utf8_char c \<Longrightarrow> c \<noteq> [] \<and> utf8_len (hd c) = Some (length c)"
  by (induction rule: utf8_char.induct) (simp_all add: utf8_len_range)

lemma utf8_chars_char [simp]: "utf8_char c \<Longrightarrow> utf8_chars (c @ r) = c # utf8_chars r"
  using utf8_char_len [of c] by (cases c) (auto simp: char_width_def)

lemma utf8_induct [consumes 1, case_names Nil char]:
  "utf8_valid s \<Longrightarrow> P [] \<Longrightarrow> (\<And>c r. utf8_char c \<Longrightarrow> utf8_valid r \<Longrightarrow> P r \<Longrightarrow> P (c @ r)) \<Longrightarrow> P s"
proof (induction s rule: length_induct)
  case (1 s)
  show ?case
  proof (cases s)
    case (Cons a t)
    then obtain c r where "s = c @ r" "utf8_char c" "utf8_valid r" using utf8_split 1(2) by blast
    then show ?thesis using 1 utf8_char_len [of c] by simp
  qed (use 1 in simp)
qed

lemma utf8_valid_append: "utf8_valid s \<Longrightarrow> utf8_valid (s @ t) = utf8_valid t"
  by (induction rule: utf8_induct) simp_all

lemma utf8_valid_Cons_ascii: "b < 0x80 \<Longrightarrow> utf8_valid (b # t) = utf8_valid t"
  by simp

lemma unat_small: "k < 256 \<Longrightarrow> unat (word_of_nat k :: byte) = k"
  by (simp add: unat_of_nat take_bit_eq_mod)

lemma cont_small: "utf8_cont (word_of_nat (0x80 + k mod 64))"
  by (simp add: utf8_cont_def word_le_nat_alt unat_small del: of_nat_add)

lemma utf8_encode_3:
  assumes "0x800 \<le> n" "n < 0x10000" "n < 0xD800 \<or> 0xE000 \<le> n"
  shows "utf8_char [word_of_nat (0xE0 + n div 4096), word_of_nat (0x80 + n div 64 mod 64), word_of_nat (0x80 + n mod 64)]"
proof (rule three)
  let ?a = "word_of_nat (0xE0 + n div 4096) :: byte" and ?b = "word_of_nat (0x80 + n div 64 mod 64) :: byte"
  have a: "unat ?a = 0xE0 + n div 4096" using assms by (intro unat_small) simp
  have b: "unat ?b = 0x80 + n div 64 mod 64" by (intro unat_small) simp
  show "0xE0 \<le> ?a" "?a \<le> 0xEF" using assms a by (simp_all add: word_le_nat_alt del: of_nat_add)
  have "n div 4096 = n div 64 div 64" "0x20 \<le> n div 64" "n div 64 < 0x360 \<or> 0x380 \<le> n div 64"
    using assms by (auto simp: div_mult2_eq [of n 64 64, simplified])
  then have "n div 4096 = 0 \<Longrightarrow> 0x20 \<le> n div 64 mod 64" "n div 4096 = 13 \<Longrightarrow> n div 64 mod 64 \<le> 0x1F"
    using div_mult_mod_eq [of "n div 64" 64] by linarith+
  then show "second_3 ?a ?b"
    using a b cont_small [of "n div 64"] by (auto simp: second_3_def word_le_nat_alt word_unat_eq_iff simp del: of_nat_add)
qed (rule cont_small)

lemma utf8_encode_4:
  assumes "0x10000 \<le> n" "n < 0x110000"
  shows "utf8_char [word_of_nat (0xF0 + n div 262144), word_of_nat (0x80 + n div 4096 mod 64), word_of_nat (0x80 + n div 64 mod 64), word_of_nat (0x80 + n mod 64)]"
proof (rule four)
  let ?a = "word_of_nat (0xF0 + n div 262144) :: byte" and ?b = "word_of_nat (0x80 + n div 4096 mod 64) :: byte"
  have a: "unat ?a = 0xF0 + n div 262144" using assms by (intro unat_small) simp
  have b: "unat ?b = 0x80 + n div 4096 mod 64" by (intro unat_small) simp
  have "n div 262144 \<le> 4" using assms by simp
  then show "0xF0 \<le> ?a" "?a \<le> 0xF7" using a by (simp_all add: word_le_nat_alt del: of_nat_add)
  have "n div 262144 = n div 4096 div 64" "0x10 \<le> n div 4096" "n div 4096 < 0x110"
    using assms by (auto simp: div_mult2_eq [of n 4096 64, simplified])
  then have "n div 262144 = 0 \<Longrightarrow> 0x10 \<le> n div 4096 mod 64" "n div 262144 = 4 \<Longrightarrow> n div 4096 mod 64 \<le> 0xF"
    using div_mult_mod_eq [of "n div 4096" 64] by linarith+
  then show "second_4 ?a ?b"
    using a b cont_small [of "n div 4096"] \<open>n div 262144 \<le> 4\<close>
    by (cases "n div 262144 = 4") (auto simp: second_4_def word_le_nat_alt word_unat_eq_iff simp del: of_nat_add)
qed (rule cont_small)+

lemma char_from_u32_char:
  assumes "char_from_u32 n = Some ch"
  shows "utf8_char ch"
proof -
  have n: "n < 0xD800 \<or> 0xE000 \<le> n \<and> n < 0x110000" and ch: "ch = encode_utf8 n"
    using assms by (auto simp: char_from_u32_def split: if_splits)
  consider "n < 0x80" | "0x80 \<le> n" "n < 0x800" | "0x800 \<le> n" "n < 0x10000" | "0x10000 \<le> n" "n < 0x110000" using n by linarith
  then show ?thesis
  proof cases
    case 1
    then show ?thesis by (auto simp: ch encode_utf8_def word_less_nat_alt unat_small intro: one)
  next
    case 2
    then have "unat (word_of_nat (0xC0 + n div 64) :: byte) = 0xC0 + n div 64" by (intro unat_small) simp
    then have "utf8_char [word_of_nat (0xC0 + n div 64), word_of_nat (0x80 + n mod 64)]"
      using 2 by (intro two cont_small) (simp_all add: word_le_nat_alt del: of_nat_add)
    then show ?thesis using 2 by (simp add: ch encode_utf8_def)
  next
    case 3
    then show ?thesis using utf8_encode_3 [of n] n by (simp add: ch encode_utf8_def)
  next
    case 4
    then show ?thesis using utf8_encode_4 [of n] by (simp add: ch encode_utf8_def)
  qed
qed

section \<open>Strings\<close>

lemma utf8_char_valid: "utf8_char c \<Longrightarrow> utf8_valid c"
  using utf8_valid_char [of c "[]"] by simp

lemma hex_digit_HEX: "k < 16 \<Longrightarrow> hex_digit (HEX ! k) = Some k"
proof -
  have "list_all (\<lambda>k. hex_digit (HEX ! k) = Some k) [0..<16]" by code_simp
  then show "k < 16 \<Longrightarrow> hex_digit (HEX ! k) = Some k" by (auto simp: list_all_iff)
qed

lemma control_escape:
  assumes "b < 0x20"
  shows "parse_escape (of_char CHR ''u'' # of_char CHR ''0'' # of_char CHR ''0'' # HEX ! (unat b div 16) # HEX ! (unat b mod 16) # rest) = Inr ([b], rest)"
proof -
  have b: "unat b < 32" using assms by (simp add: word_less_nat_alt)
  moreover have "hex_digit (of_char CHR ''0'') = Some 0" by (simp add: hex_digit_def)
  ultimately have "parse_hex4 (of_char CHR ''0'' # of_char CHR ''0'' # HEX ! (unat b div 16) # HEX ! (unat b mod 16) # rest) = Inr (unat b, rest)"
    by (simp add: parse_hex4_def hex_digit_HEX)
  then show ?thesis using b by (simp add: parse_escape_def char_from_u32_def encode_utf8_def)
qed

lemma utf8_char_narrow: "utf8_char c \<Longrightarrow> hd c < 0x80 \<Longrightarrow> \<exists>b. c = [b] \<and> b < 0x80"
  by (induction rule: utf8_char.induct) (auto simp: word_less_nat_alt word_le_nat_alt)

lemma wide_step:
  assumes "utf8_char c" "\<not> hd c < 0x80"
  shows "string_step (json_piece c @ rest) = Inr (c, rest) \<and> peek (json_piece c @ rest) \<noteq> Some 0x22"
proof -
  obtain a b t where c: "c = a # b # t" using assms by (induction rule: utf8_char.induct) auto
  have a: "a \<noteq> 0x22" "a \<noteq> 0x5C" "\<not> a \<le> 0x1F"
    using assms(2) by (auto simp: c word_less_nat_alt word_le_nat_alt)
  have "utf8_len a = Some (length c)" using utf8_char_len [OF assms(1)] by (simp add: c)
  moreover have "json_piece c = c" by (simp add: c json_piece_def)
  moreover have "from_utf8 c = Some c" using utf8_char_valid [OF assms(1)] by (simp add: from_utf8_def)
  ultimately show ?thesis using a by (simp add: string_step_def c peek_def)
qed

lemma piece_step:
  assumes "utf8_char c"
  shows "string_step (json_piece c @ rest) = Inr (c, rest) \<and> peek (json_piece c @ rest) \<noteq> Some 0x22"
proof (cases "hd c < 0x80")
  case True
  then obtain b where one: "c = [b]" "b < 0x80" using assms utf8_char_narrow by blast
  consider "b \<in> {0x22, 0x5C, 0x08, 0x09, 0x0A, 0x0C, 0x0D}" | "b \<notin> {0x22, 0x5C, 0x08, 0x09, 0x0A, 0x0C, 0x0D}" "b < 0x20"
    | "b \<notin> {0x22, 0x5C, 0x08, 0x09, 0x0A, 0x0C, 0x0D}" "\<not> b < 0x20" by blast
  then show ?thesis
  proof cases
    case 1
    then show ?thesis by (auto simp: one json_piece_def string_step_def parse_escape_def peek_def)
  next
    case 2
    then show ?thesis using control_escape [of b rest] by (simp add: one json_piece_def string_step_def peek_def)
  next
    case 3
    then have "\<not> b \<le> 0x1F" using one(2) by (simp add: word_less_nat_alt word_le_nat_alt)
    then show ?thesis using 3 one by (simp add: json_piece_def string_step_def peek_def utf8_len_range from_utf8_def)
  qed
qed (use wide_step assms in blast)

lemma read_pieces:
  assumes "utf8_valid t" "length out + length t \<le> m"
  shows "string_loop m out (concat (map json_piece (utf8_chars t)) @ 0x22 # rest) = Inr (out @ t, rest)"
  using assms
proof (induction arbitrary: out rule: utf8_induct)
  case Nil
  then show ?case by (subst string_loop.simps) (simp add: peek_def)
next
  case (char c r)
  then show ?case using piece_step [OF char(1), of "concat (map json_piece (utf8_chars r)) @ 0x22 # rest"] char(3) [of "out @ c"]
    by (subst string_loop.simps) simp
qed

lemma read_string: "utf8_valid t \<Longrightarrow> length t \<le> m \<Longrightarrow> lx_string m (json_str t @ rest) = Inr (t, rest)"
  using read_pieces [of t "[]" m rest] by (simp add: json_str_def lx_string_def lx_expect_def lx_take_def peek_def)

text \<open>Every string that is read is valid text within the limit.\<close>

lemma from_u32_valid: "char_from_u32 n = Some ch \<Longrightarrow> utf8_valid ch"
  by (rule utf8_char_valid) (rule char_from_u32_char)

lemma step_valid: "string_step s = Inr (ch, s') \<Longrightarrow> utf8_valid ch"
  by (auto simp: string_step_def parse_escape_def low_surrogate_def from_utf8_def
      split: list.splits if_splits option.splits sum.splits) (erule from_u32_valid)+

lemma loop_valid:
  "string_loop m out s = Inr (t, s') \<Longrightarrow> utf8_valid out \<Longrightarrow> length out \<le> m \<Longrightarrow> utf8_valid t \<and> length t \<le> m"
proof (induction m out s rule: string_loop.induct)
  case (1 m out s)
  show ?case
  proof (cases "peek s = Some 0x22")
    case True
    then show ?thesis using 1(2-) by (simp add: string_loop.simps [of m out s])
  next
    case False
    then obtain ch r where step: "string_step s = Inr (ch, r)" "string_loop m (out @ ch) r = Inr (t, s')" "\<not> length (out @ ch) > m"
      using 1(2) by (subst (asm) string_loop.simps) (auto split: sum.splits if_splits)
    then show ?thesis
      using 1(1) [OF False step(1) refl step(3) step(2)] 1(3) step_valid [OF step(1)] utf8_valid_append [of out ch] by simp
  qed
qed

lemma string_valid: "lx_string m s = Inr (t, s') \<Longrightarrow> utf8_valid t \<and> length t \<le> m"
  by (auto simp: lx_string_def dest: loop_valid)

section \<open>Scalars\<close>

text \<open>What may follow a value without being taken for a part of it.\<close>

definition follow :: "bytes \<Rightarrow> bool" where
  "follow r \<longleftrightarrow> r = [] \<or> hd r \<in> {0x2C, 0x3A, 0x5D, 0x7D}"

lemma read_number:
  assumes "follow rest"
  shows "lx_number (dec_int (sint v) @ rest) = Inr (JInt v, rest)"
proof -
  have digits: "takeWhile is_digit (dec k @ rest) = dec k" "dropWhile is_digit (dec k @ rest) = rest" for k
    using assms digits_dec [of k] by (cases rest, auto simp: follow_def list_all_iff is_digit_def)+
  have stop: "peek rest \<notin> {Some (of_char CHR ''.''), Some (of_char CHR ''e''), Some (of_char CHR ''E'')}"
    using assms by (cases rest) (auto simp: follow_def peek_def)
  have lo: "- (2 ^ 63) \<le> sint v" and hi: "sint v \<le> 2 ^ 63 - 1"
    using sint_greater_eq [of v] sint_less [of v] by simp_all
  have parsed: "parse_signed (- (2 ^ 63)) (2 ^ 63 - 1) (dec_int (sint v)) = Some (sint v)"
    using lo hi by (rule parse_signed_dec_int)
  have head: "peek (dec k @ rest) \<noteq> Some 0x2D" for k
    using digits_dec [of k] dec_not_Nil [of k] by (cases "dec k") (auto simp: peek_def)
  show ?thesis
  proof (cases "sint v < 0")
    case True
    then show ?thesis using parsed digits stop by (simp add: lx_number_def dec_int_def peek_def [of "_ # _"] del: of_char_Char)
  next
    case False
    then show ?thesis using parsed digits stop head by (simp add: lx_number_def dec_int_def del: of_char_Char)
  qed
qed

lemma number_head: "\<exists>b r. dec_int i = b # r \<and> (b = 0x2D \<or> is_digit b)"
  using digits_dec [of "nat i"] dec_not_Nil [of "nat i"] by (cases "dec (nat i)") (auto simp: dec_int_def)

end
