(* ===== verification/Wire_Strict.thy ===== *)
theory Wire_Strict
  imports Wire_Parse
begin

text \<open>
  The strict parser is the exact inverse of the encoder on the values within the limits of the wire.
\<close>

section \<open>Values within the limits\<close>

fun json_ok :: "nat \<Rightarrow> nat \<Rightarrow> Json \<Rightarrow> bool" where
  "json_ok m d JNull = True"
| "json_ok m d (JBool _) = True"
| "json_ok m d (JInt _) = True"
| "json_ok m d (JStr s) = (utf8_valid s \<and> length s \<le> m)"
| "json_ok m d (JArray items) = (0 < d \<and> list_all (json_ok m (d - 1)) items)"
| "json_ok m d (JObject pairs) =
     (0 < d \<and> sorted_wrt (<) (map fst pairs) \<and> list_all (\<lambda>(k, v). utf8_valid k \<and> length k \<le> m \<and> json_ok m (d - 1) v) pairs)"

lemma skip_ws_Cons [simp]: "\<not> json_ws b \<Longrightarrow> skip_ws (b # r) = b # r"
  by (simp add: skip_ws_def)

lemma not_ws [simp]: "\<not> json_ws 0x2C" "\<not> json_ws 0x3A" "\<not> json_ws 0x5B" "\<not> json_ws 0x5D" "\<not> json_ws 0x7B" "\<not> json_ws 0x7D" "\<not> json_ws 0x22"
  by (simp_all add: json_ws_def)

lemma follow_Cons [simp]: "follow (0x2C # r)" "follow (0x5D # r)" "follow (0x7D # r)" "follow []"
  by (simp_all add: follow_def)

lemma canon_head: "\<exists>b r. canon v = b # r \<and> \<not> json_ws b \<and> b \<noteq> 0x5D \<and> b \<noteq> 0x7D"
proof (cases v)
  case (JInt i)
  then show ?thesis using number_head [of "sint i"] by (auto simp: json_ws_def is_digit_def)
qed (auto simp: json_str_def text_bytes_def json_ws_def)

lemma skip_canon [simp]: "skip_ws (canon v @ r) = canon v @ r"
  using canon_head [of v] by auto

section \<open>Reading back\<close>

lemma commas_Cons2: "commas (x # y # ys) = x @ 0x2C # commas (y # ys)"
  by simp

lemma read_items:
  assumes "\<And>x r. x \<in> set xs \<Longrightarrow> follow r \<Longrightarrow> parse_value m (depth + 1) (canon x @ r) = Inr (x, r)" "xs \<noteq> []"
  shows "array_loop m depth acc (commas (map canon xs) @ 0x5D # rest) = Inr (JArray (acc @ xs), rest)"
  using assms
proof (induction xs arbitrary: acc)
  case (Cons x xs)
  show ?case
  proof (cases xs)
    case Nil
    then show ?thesis using Cons.prems(1) [of x "0x5D # rest"] by (simp add: array_loop.simps [of m depth acc])
  next
    case (Cons y ys)
    then show ?thesis
      using Cons.prems(1) [of x "0x2C # commas (map canon xs) @ 0x5D # rest"] Cons.IH [of "acc @ [x]"] Cons.prems
      by (simp add: array_loop.simps [of m depth acc] commas_Cons2 del: commas.simps)
  qed
qed simp

lemma read_field:
  assumes "utf8_valid k" "length k \<le> m" "k \<notin> fst ` set acc" "parse_value m (depth + 1) (t @ r) = Inr (v, r)"
  shows "object_loop m depth acc (field_text (k, t) @ r) =
    (case skip_ws r of
       [] \<Rightarrow> Inl Malformed
     | b # r' \<Rightarrow>
         if b = 0x2C then object_loop m depth (acc @ [(k, v)]) r'
         else if b = 0x7D then Inr (JObject (sort_key fst (acc @ [(k, v)])), r')
         else Inl Malformed)"
proof -
  have spelled: "field_text (k, t) @ r = json_str k @ 0x3A # t @ r" by (simp add: field_text_def)
  have "skip_ws (json_str k @ 0x3A # t @ r) = json_str k @ 0x3A # t @ r" "peek (json_str k @ 0x3A # t @ r) = Some 0x22"
    by (simp_all add: json_str_def peek_def)
  then show ?thesis unfolding spelled using assms by (subst object_loop.simps) (simp add: read_string)
qed

lemma read_pairs:
  assumes "\<And>k x r. (k, x) \<in> set ps \<Longrightarrow> follow r \<Longrightarrow> parse_value m (depth + 1) (canon x @ r) = Inr (x, r)" "ps \<noteq> []"
    "list_all (\<lambda>(k, v). utf8_valid k \<and> length k \<le> m) ps" "sorted_wrt (<) (map fst (acc @ ps))"
  shows "object_loop m depth acc (commas (map (\<lambda>(k, v). field_text (k, canon v)) ps) @ 0x7D # rest) = Inr (JObject (acc @ ps), rest)"
  using assms
proof (induction ps arbitrary: acc)
  case (Cons p ps)
  obtain k v where p: "p = (k, v)" by (cases p)
  have k: "utf8_valid k" "length k \<le> m" "k \<notin> fst ` set acc" using Cons.prems(3,4) by (auto simp: p sorted_wrt_append)
  show ?case
  proof (cases ps)
    case Nil
    have "sorted (map fst (acc @ [p]))" using Cons.prems(4) Nil strict_sorted_imp_sorted by auto
    then show ?thesis
      using read_field [OF k, of depth "canon v" "0x7D # rest" v] Cons.prems(1) [of k v "0x7D # rest"] Nil
      by (simp add: p sort_key_id_if_sorted)
  next
    case (Cons q qs)
    let ?r = "commas (map (\<lambda>(k, v). field_text (k, canon v)) ps) @ 0x7D # rest"
    have "object_loop m depth (acc @ [p]) ?r = Inr (JObject ((acc @ [p]) @ ps), rest)"
      using Cons.prems Cons by (intro Cons.IH) auto
    then show ?thesis
      using read_field [OF k, of depth "canon v" "0x2C # ?r" v] Cons.prems(1) [of k v "0x2C # ?r"] Cons
      by (simp add: p commas_Cons2 del: commas.simps)
  qed
qed simp

lemma read_value:
  assumes "json_ok m d v" "d + depth = MAX_DEPTH" "follow rest"
  shows "parse_value m depth (canon v @ rest) = Inr (v, rest)"
  using assms
proof (induction m d v arbitrary: depth rest rule: json_ok.induct)
  case (4 m d s)
  then have "scalar m (json_str s @ rest) = Inr (JStr s, rest)"
    using read_string [of s m rest] by (simp add: scalar_def json_str_def peek_def)
  then show ?case by (simp add: parse_value.simps json_str_def)
next
  case (3 m d i)
  obtain b r where b: "dec_int (sint i) = b # r" "b = 0x2D \<or> is_digit b" using number_head [of "sint i"] by blast
  then have "\<not> json_ws b" "b \<notin> {0x7B, 0x5B, 0x22, of_char CHR ''t'', of_char CHR ''f'', of_char CHR ''n''}"
    by (auto simp: json_ws_def is_digit_def)
  then show ?case using read_number [OF 3(3), of i] b by (auto simp: parse_value.simps scalar_def peek_def)
next
  case (5 m d items)
  show ?case
  proof (cases "items = []")
    case False
    have "array_loop m depth [] (commas (map canon items) @ 0x5D # rest) = Inr (JArray ([] @ items), rest)"
      using 5 False by (intro read_items) (auto simp: list_all_iff)
    moreover obtain b r where "commas (map canon items) @ 0x5D # rest = b # r" "\<not> json_ws b" "b \<noteq> 0x5D"
      using False canon_head [of "hd items"] by (cases items) auto
    ultimately show ?thesis using 5(2,3) by (simp add: parse_value.simps parse_array.simps peek_def)
  qed (use 5 in \<open>simp add: parse_value.simps parse_array.simps peek_def\<close>)
next
  case (6 m d pairs)
  have sorted: "sort_key fst pairs = pairs" using 6(2) by (simp add: sort_key_id_if_sorted strict_sorted_imp_sorted)
  show ?case
  proof (cases "pairs = []")
    case False
    have "object_loop m depth [] (commas (map (\<lambda>(k, v). field_text (k, canon v)) pairs) @ 0x7D # rest) = Inr (JObject ([] @ pairs), rest)"
      using 6 False by (intro read_pairs) (fastforce simp: list_all_iff)+
    moreover obtain r where "commas (map (\<lambda>(k, v). field_text (k, canon v)) pairs) @ 0x7D # rest = 0x22 # r"
      using False by (cases pairs) (auto simp: field_text_def json_str_def)
    ultimately show ?thesis using 6(2,3) unfolding canon_object sorted
      by (simp add: parse_value.simps parse_object.simps peek_def)
  qed (use 6 in \<open>simp add: parse_value.simps parse_object.simps peek_def\<close>)
qed (auto simp: parse_value.simps scalar_def peek_def lx_literal_def text_bytes_def json_ws_def)

section \<open>The spelling is valid text\<close>

lemma ascii_valid: "list_all (\<lambda>b. b < 0x80) bs \<Longrightarrow> utf8_valid bs"
  by (rule utf8_valid_ascii) (simp add: list_all_iff)

lemma HEX_ascii: "k < 16 \<Longrightarrow> HEX ! k < 0x80"
proof -
  have "list_all (\<lambda>k. HEX ! k < 0x80) [0..<16]" by code_simp
  then show "k < 16 \<Longrightarrow> HEX ! k < 0x80" by (auto simp: list_all_iff)
qed

lemma control_hex: "b < 0x20 \<Longrightarrow> HEX ! (unat b div 16) < 0x80 \<and> HEX ! (unat b mod 16) < 0x80" for b :: byte
  by (auto simp: word_less_nat_alt [of b] intro: HEX_ascii)

lemma piece_ascii: "json_piece c = c \<or> list_all (\<lambda>b. b < 0x80) (json_piece c)"
  using control_hex by (auto simp: json_piece_def split: list.splits)

lemma piece_valid: "utf8_char c \<Longrightarrow> utf8_valid (json_piece c)"
  using piece_ascii [of c] ascii_valid utf8_char_valid by metis

lemma json_str_valid: "utf8_valid t \<Longrightarrow> utf8_valid (json_str t)"
proof -
  assume "utf8_valid t"
  then have "utf8_valid (concat (map json_piece (utf8_chars t)))"
    by (induction rule: utf8_induct) (simp_all add: utf8_valid_append piece_valid)
  then show ?thesis by (simp add: json_str_def utf8_valid_append)
qed

lemma commas_valid: "list_all utf8_valid ts \<Longrightarrow> utf8_valid (commas ts)"
proof -
  have "list_all utf8_valid ts \<Longrightarrow> utf8_valid (concat (map ((#) 0x2C) ts))" for ts
    by (induction ts) (simp_all add: utf8_valid_append)
  then show "list_all utf8_valid ts \<Longrightarrow> utf8_valid (commas ts)"
    by (cases ts) (simp_all add: utf8_valid_append)
qed

lemma canon_valid: "json_ok m d v \<Longrightarrow> utf8_valid (canon v)"
proof (induction m d v rule: json_ok.induct)
  case (3 m d i)
  show ?case using dec_int_ascii [of "sint i"] by (simp add: utf8_valid_ascii)
next
  case (5 m d items)
  then have "list_all utf8_valid (map canon items)" by (auto simp: list_all_iff)
  then show ?case by (simp add: utf8_valid_append commas_valid)
next
  case (6 m d pairs)
  then have "list_all utf8_valid (map (\<lambda>(k, v). field_text (k, canon v)) (sort_key fst pairs))"
    by (fastforce simp: list_all_iff field_text_def utf8_valid_append json_str_valid)
  then show ?case by (simp add: canon_object utf8_valid_append commas_valid del: canon.simps)
qed (auto simp: json_str_valid text_bytes_def)

section \<open>Everything read is within the limits\<close>

lemma scalar_ok: "scalar m s = Inr (v, s') \<Longrightarrow> json_ok m d v"
  by (auto simp: scalar_def lx_literal_def lx_number_def Let_def dest: string_valid split: option.splits if_splits prod.splits)

lemma sorted_pairs:
  assumes "distinct (map fst ps)"
  shows "sorted_wrt (<) (map fst (sort_key fst ps))"
proof -
  have "distinct (map fst (sort_key fst ps))" using assms by (simp add: distinct_map inj_on_def)
  then show ?thesis by (simp add: strict_sorted_iff)
qed

definition pair_ok :: "nat \<Rightarrow> nat \<Rightarrow> bytes \<times> Json \<Rightarrow> bool" where
  "pair_ok m d = (\<lambda>(k, v). utf8_valid k \<and> length k \<le> m \<and> json_ok m d v)"

lemma parse_ok:
  "parse_value m depth s = Inr (v, s') \<Longrightarrow> depth \<le> MAX_DEPTH \<Longrightarrow> json_ok m (MAX_DEPTH - depth) v"
  "parse_array m depth s = Inr (v, s') \<Longrightarrow> json_ok m (MAX_DEPTH - depth) v"
  "array_loop m depth items s = Inr (v, s') \<Longrightarrow> depth < MAX_DEPTH \<Longrightarrow> list_all (json_ok m (MAX_DEPTH - (depth + 1))) items \<Longrightarrow>
     json_ok m (MAX_DEPTH - depth) v"
  "parse_object m depth s = Inr (v, s') \<Longrightarrow> json_ok m (MAX_DEPTH - depth) v"
  "object_loop m depth pairs s = Inr (v, s') \<Longrightarrow> depth < MAX_DEPTH \<Longrightarrow> list_all (pair_ok m (MAX_DEPTH - (depth + 1))) pairs \<Longrightarrow>
     distinct (map fst pairs) \<Longrightarrow> json_ok m (MAX_DEPTH - depth) v"
proof (induction m depth s and m depth s and m depth items s and m depth s and m depth pairs s arbitrary: v s' and v s' and v s' and v s' and v s'
    rule: parse_value_parse_array_array_loop_parse_object_object_loop.induct)
  case (1 m depth s)
  then show ?case by (auto simp: parse_value.simps [of m depth s] split: list.splits if_splits dest: scalar_ok)
next
  case (2 m depth s)
  then show ?case by (auto simp: parse_array.simps [of m depth s] split: if_splits)
next
  case (3 m depth items s)
  from 3(3) obtain item y b r where step: "parse_value m (depth + 1) s = Inr (item, y)" "skip_ws y = b # r"
    "b = 0x2C \<and> array_loop m depth (items @ [item]) r = Inr (v, s') \<or> v = JArray (items @ [item])"
    by (subst (asm) array_loop.simps) (auto split: list.splits if_splits sum.splits)
  then show ?case using 3(1) [OF step(1)] 3(2) [OF step(1) refl step(2)] 3(4,5) by auto
next
  case (4 m depth s)
  then show ?case by (auto simp: parse_object.simps [of m depth s] split: if_splits)
next
  case (5 m depth pairs s)
  from 5(3) obtain key y z x y' b r where quote: "\<not> peek (skip_ws s) \<noteq> Some 0x22"
    and key: "lx_string m (skip_ws s) = Inr (key, y)" "key \<notin> fst ` set pairs" "skip_ws y = 0x3A # z"
    and v: "parse_value m (depth + 1) z = Inr (x, y')" "skip_ws y' = b # r"
    "b = 0x2C \<and> object_loop m depth (pairs @ [(key, x)]) r = Inr (v, s') \<or> v = JObject (sort_key fst (pairs @ [(key, x)]))"
    by (subst (asm) object_loop.simps) (auto split: list.splits if_splits sum.splits)
  have "pair_ok m (MAX_DEPTH - (depth + 1)) (key, x)"
    using 5(1) [OF quote key(1) refl key(2,3) _ v(1)] 5(4) string_valid [OF key(1)] by (simp add: pair_ok_def)
  then have all: "list_all (pair_ok m (MAX_DEPTH - (depth + 1))) (pairs @ [(key, x)])" "distinct (map fst (pairs @ [(key, x)]))"
    using 5(5,6) key(2) by auto
  from v(3) show ?case
  proof
    assume "b = 0x2C \<and> object_loop m depth (pairs @ [(key, x)]) r = Inr (v, s')"
    then show ?thesis using 5(2) [OF quote key(1) refl key(2,3) _ v(1) refl v(2)] all 5(4) by simp
  next
    assume "v = JObject (sort_key fst (pairs @ [(key, x)]))"
    moreover have "list_all (\<lambda>(k, v). utf8_valid k \<and> length k \<le> m \<and> json_ok m (MAX_DEPTH - depth - 1) v) (sort_key fst (pairs @ [(key, x)]))"
      using all(1) by (simp add: list_all_iff pair_ok_def)
    ultimately show ?thesis using 5(4) sorted_pairs [OF all(2)] by simp
  qed
qed

lemma parse_strict_exact: "parse_strict bs = Some (Inr v) \<longleftrightarrow> json_ok MAX_STRING_BYTES MAX_DEPTH v \<and> bs = canon v"
proof
  assume "parse_strict bs = Some (Inr v)"
  then obtain rest where "parse_value MAX_STRING_BYTES 0 bs = Inr (v, rest)" "canon v = bs"
    by (auto simp: parse_strict_def from_utf8_def encode_canon split: option.splits sum.splits if_splits)
  then show "json_ok MAX_STRING_BYTES MAX_DEPTH v \<and> bs = canon v" using parse_ok(1) [of MAX_STRING_BYTES 0 bs v rest] by simp
next
  assume "json_ok MAX_STRING_BYTES MAX_DEPTH v \<and> bs = canon v"
  then show "parse_strict bs = Some (Inr v)"
    using read_value [of MAX_STRING_BYTES MAX_DEPTH v 0 "[]"] canon_valid [of MAX_STRING_BYTES MAX_DEPTH v]
    by (simp add: parse_strict_def from_utf8_def encode_canon at_end_def skip_ws_def)
qed

lemma parse_strict_returns: "parse_strict bs \<noteq> None"
  by (auto simp: parse_strict_def encode_canon split: option.splits sum.splits if_splits)

section \<open>Properties\<close>

text \<open>
  C37. The wire has one encoding per value: the strict parser and the encoder always return without a panic,
  and the parser returns a value exactly on the bytes the encoder writes for it, and exactly for the values
  whose strings, keys and nesting are within the limits and whose object keys are strictly ascending. Every
  other spelling of a value, and every value beyond a limit, is refused.
\<close>

theorem wire_json_exact:
  "(parse_strict bs = Some (Inr v) \<longleftrightarrow> json_ok MAX_STRING_BYTES MAX_DEPTH v \<and> encode v = Some bs)
   \<and> (\<exists>r. parse_strict bs = Some r) \<and> (\<exists>t. encode v = Some t)"
  using parse_strict_exact [of bs v] parse_strict_returns [of bs] by (auto simp: encode_canon)

end
