(* ===== verification/Wire_Message.thy ===== *)
theory Wire_Message
  imports Wire_Strict
begin

text \<open>
  Frames, identities and the closed message grammar of the local wire (\<open>crates/marrow-local-wire/src/frame.rs\<close>,
  \<open>id.rs\<close>, \<open>span.rs\<close> and \<open>message.rs\<close>). The consecutive \<open>field\<close> calls of an encoder, joined by the \<open>?\<close>
  operator, are a list of fields. \<open>None\<close> is a panic. An identity is its 32 bytes.
\<close>

section \<open>Frames\<close>

definition PROTOCOL_VERSION :: byte where "PROTOCOL_VERSION = 3"
definition MAX_FRAME :: nat where "MAX_FRAME = 2 ^ 20"

definition frame_body_len :: "bytes \<Rightarrow> WireError + nat" where
  "frame_body_len header =
     (let len = unat (of_be_bytes header :: u32)
      in if len = 0 then Inl Malformed else if len > MAX_FRAME then Inl FrameTooLarge else Inr len)"

definition body_json :: "bytes \<Rightarrow> WireError + bytes" where
  "body_json body = (case body of [] \<Rightarrow> Inl Malformed | version # json \<Rightarrow> if version \<noteq> PROTOCOL_VERSION then Inl UnsupportedVersion else Inr json)"

definition frame_encode :: "slot_writer \<Rightarrow> (WireError + bytes) option" where
  "frame_encode write =
     (case enc_value write (enc_new [0, 0, 0, 0, 0] (Some (4 + MAX_FRAME))) of
        (Inl e, _) \<Rightarrow> Some (Inl e)
      | (Inr _, out) \<Rightarrow>
          (case enc_finish out of
             Inl e \<Rightarrow> Some (Inl e)
           | Inr bs \<Rightarrow>
               (let bs = bs[4 := PROTOCOL_VERSION]
                in if length bs - 4 \<ge> 2 ^ 32 then None
                   else Some (Inr (be_bytes (word_of_nat (length bs - 4) :: u32) @ drop 4 bs)))))"

section \<open>Identities\<close>

definition nibble :: "nat \<Rightarrow> byte" where
  "nibble v = (if v < 10 then word_of_nat (48 + v) else word_of_nat (87 + v))"

definition to_hex :: "bytes \<Rightarrow> bytes" where
  "to_hex bs = concat (map (\<lambda>b. [nibble (unat b div 16), nibble (unat b mod 16)]) bs)"

definition lower_hex :: "byte \<Rightarrow> byte option" where
  "lower_hex b =
     (if 0x30 \<le> b \<and> b \<le> 0x39 then Some (b - 0x30)
      else if 0x61 \<le> b \<and> b \<le> 0x66 then Some (b - 0x61 + 10) else None)"

fun hex_pairs :: "bytes \<Rightarrow> bytes option" where
  "hex_pairs (hi # lo # r) =
     (case lower_hex hi of
        None \<Rightarrow> None
      | Some h \<Rightarrow>
          (case lower_hex lo of
             None \<Rightarrow> None
           | Some l \<Rightarrow> map_option ((#) (h * 16 + l)) (hex_pairs r)))"
| "hex_pairs _ = Some []"

definition from_hex :: "bytes \<Rightarrow> bytes option" where
  "from_hex t = (if length t \<noteq> 64 then None else hex_pairs t)"

section \<open>Messages\<close>

datatype ClientMessage = Hello bytes | Request bytes "Json list"

record Span =
  sp_line :: u32
  sp_column :: u32

definition span_to_json :: "Span \<Rightarrow> Json" where
  "span_to_json s = JObject [(text_bytes ''column'', JInt (ucast (sp_column s))), (text_bytes ''line'', JInt (ucast (sp_line s)))]"

datatype ServerMessage =
    MReady bytes bytes
  | MActivationUncertain bytes bytes bytes
  | MValue Json
  | MFault Code Span
  | MIncomplete Code DurableCommitState Span
  | MReject Code

definition write_fields :: "(bytes \<times> slot_writer) list \<Rightarrow> slot_writer" where
  "write_fields fs = vw_object (each (\<lambda>(key, write). ow_field key write) fs)"

definition vw_turn :: "u32 \<Rightarrow> slot_writer" where
  "vw_turn turn = vw_integer (ucast turn)"

fun client_fields :: "u32 \<Rightarrow> ClientMessage \<Rightarrow> (bytes \<times> slot_writer) list" where
  "client_fields turn (Hello nonce) =
     [(text_bytes ''kind'', vw_string (text_bytes ''hello'')), (text_bytes ''nonce'', vw_string (to_hex nonce))]"
| "client_fields turn (Request export args) =
     [(text_bytes ''args'', vw_array (each aw_element (map vw_json args))),
      (text_bytes ''export'', vw_string (to_hex export)),
      (text_bytes ''kind'', vw_string (text_bytes ''request'')),
      (text_bytes ''turn'', vw_turn turn)]"

definition client_encode_with_turn :: "u32 \<Rightarrow> ClientMessage \<Rightarrow> (WireError + bytes) option" where
  "client_encode_with_turn turn m = frame_encode (write_fields (client_fields turn m))"

definition validate_store_instance :: "bytes \<Rightarrow> WireError + unit" where
  "validate_store_instance s =
     (if length s = 32 \<and> list_all (\<lambda>b. is_digit b \<or> 0x61 \<le> b \<and> b \<le> 0x66) s then Inr () else Inl Malformed)"

definition value_fields :: "u32 \<Rightarrow> slot_writer \<Rightarrow> (bytes \<times> slot_writer) list" where
  "value_fields turn write =
     [(text_bytes ''data'', write), (text_bytes ''kind'', vw_string (text_bytes ''value'')), (text_bytes ''turn'', vw_turn turn)]"

definition frame_value :: "u32 \<Rightarrow> slot_writer \<Rightarrow> (WireError + bytes) option" where
  "frame_value turn write = frame_encode (write_fields (value_fields turn write))"

fun server_fields :: "u32 \<Rightarrow> ServerMessage \<Rightarrow> (bytes \<times> slot_writer) list" where
  "server_fields turn (MReady session interface) =
     [(text_bytes ''interface'', vw_string (to_hex interface)), (text_bytes ''kind'', vw_string (text_bytes ''ready'')),
      (text_bytes ''session'', vw_string (to_hex session))]"
| "server_fields turn (MActivationUncertain session interface inst) =
     [(text_bytes ''code'', vw_string (as_str (CStore StoreActivationUncertain))), (text_bytes ''instance'', vw_string inst),
      (text_bytes ''interface'', vw_string (to_hex interface)), (text_bytes ''kind'', vw_string (text_bytes ''activation_uncertain'')),
      (text_bytes ''session'', vw_string (to_hex session))]"
| "server_fields turn (MValue data) = value_fields turn (vw_json data)"
| "server_fields turn (MFault code span) =
     [(text_bytes ''code'', vw_string (as_str code)), (text_bytes ''kind'', vw_string (text_bytes ''fault'')),
      (text_bytes ''span'', vw_json (span_to_json span)), (text_bytes ''turn'', vw_turn turn)]"
| "server_fields turn (MIncomplete code durable span) =
     [(text_bytes ''code'', vw_string (as_str code)), (text_bytes ''durable'', vw_string (durable_str durable)),
      (text_bytes ''kind'', vw_string (text_bytes ''incomplete'')), (text_bytes ''span'', vw_json (span_to_json span)),
      (text_bytes ''turn'', vw_turn turn)]"
| "server_fields turn (MReject code) =
     [(text_bytes ''code'', vw_string (as_str code)), (text_bytes ''kind'', vw_string (text_bytes ''reject'')),
      (text_bytes ''turn'', vw_turn turn)]"

definition server_encode_frame :: "u32 \<Rightarrow> ServerMessage \<Rightarrow> (WireError + bytes) option" where
  "server_encode_frame turn m =
     (case (case m of MActivationUncertain _ _ inst \<Rightarrow> validate_store_instance inst | _ \<Rightarrow> Inr ()) of
        Inl e \<Rightarrow> Some (Inl e)
      | Inr _ \<Rightarrow> frame_encode (write_fields (server_fields turn m)))"

section \<open>The fields of a decoded object\<close>

type_synonym pairs = "(bytes \<times> Json) list"

definition fields_new :: "Json \<Rightarrow> WireError + pairs" where
  "fields_new v = (case v of JObject ps \<Rightarrow> Inr ps | _ \<Rightarrow> Inl Malformed)"

definition f_get :: "string \<Rightarrow> pairs \<Rightarrow> WireError + Json" where
  "f_get key ps = (case find (\<lambda>(k, _). k = text_bytes key) ps of Some (_, v) \<Rightarrow> Inr v | None \<Rightarrow> Inl Malformed)"

definition f_string :: "string \<Rightarrow> pairs \<Rightarrow> WireError + bytes" where
  "f_string key ps = rbind (f_get key ps) (\<lambda>v. case v of JStr s \<Rightarrow> Inr s | _ \<Rightarrow> Inl Malformed)"

definition f_kind :: "pairs \<Rightarrow> WireError + bytes" where
  "f_kind ps = f_string ''kind'' ps"

definition f_exact :: "string list \<Rightarrow> pairs \<Rightarrow> WireError + unit" where
  "f_exact expected ps =
     (if length ps \<noteq> length expected then Inl Malformed
      else if \<not> list_all (\<lambda>key. list_ex (\<lambda>(k, _). k = text_bytes key) ps) expected then Inl Malformed else Inr ())"

definition or_malformed :: "'a option \<Rightarrow> WireError + 'a" where
  "or_malformed r = (case r of None \<Rightarrow> Inl Malformed | Some x \<Rightarrow> Inr x)"

definition f_id :: "string \<Rightarrow> pairs \<Rightarrow> WireError + bytes" where
  "f_id key ps = rbind (f_string key ps) (\<lambda>s. or_malformed (from_hex s))"

definition f_array :: "string \<Rightarrow> pairs \<Rightarrow> WireError + Json list" where
  "f_array key ps = rbind (f_get key ps) (\<lambda>v. case v of JArray items \<Rightarrow> Inr items | _ \<Rightarrow> Inl Malformed)"

definition f_code :: "string \<Rightarrow> pairs \<Rightarrow> WireError + Code" where
  "f_code key ps = rbind (f_string key ps) (\<lambda>s. or_malformed (from_code s))"

definition f_u32 :: "string \<Rightarrow> pairs \<Rightarrow> WireError + u32" where
  "f_u32 key ps = rbind (f_get key ps) (\<lambda>v. case v of JInt n \<Rightarrow> if 0 \<le> sint n \<and> sint n \<le> 2 ^ 32 - 1 then Inr (ucast n) else Inl Malformed | _ \<Rightarrow> Inl Malformed)"

definition f_span :: "string \<Rightarrow> pairs \<Rightarrow> WireError + Span" where
  "f_span key ps =
     rbind (f_get key ps) (\<lambda>v. rbind (fields_new v) (\<lambda>span.
     rbind (f_exact [''column'', ''line''] span) (\<lambda>_.
     rbind (f_u32 ''line'' span) (\<lambda>line.
     rbind (f_u32 ''column'' span) (\<lambda>column. Inr \<lparr>sp_line = line, sp_column = column\<rparr>)))))"

definition f_durable_state :: "string \<Rightarrow> pairs \<Rightarrow> WireError + DurableCommitState" where
  "f_durable_state key ps = rbind (f_string key ps) (\<lambda>s. or_malformed (durable_parse s))"

section \<open>Decoding\<close>

definition client_of_json :: "Json \<Rightarrow> WireError + ClientMessage \<times> u32 option" where
  "client_of_json v =
     rbind (fields_new v) (\<lambda>obj. rbind (f_kind obj) (\<lambda>kind.
       if kind = text_bytes ''hello'' then
         rbind (f_exact [''kind'', ''nonce''] obj) (\<lambda>_. rbind (f_id ''nonce'' obj) (\<lambda>nonce. Inr (Hello nonce, None)))
       else if kind = text_bytes ''request'' then
         rbind (f_exact [''args'', ''export'', ''kind'', ''turn''] obj) (\<lambda>_.
         rbind (f_id ''export'' obj) (\<lambda>export. rbind (f_array ''args'' obj) (\<lambda>args. rbind (f_u32 ''turn'' obj) (\<lambda>turn.
           Inr (Request export args, Some turn)))))
       else Inl Malformed))"

definition client_decode_with_turn :: "bytes \<Rightarrow> (WireError + ClientMessage \<times> u32 option) option" where
  "client_decode_with_turn body =
     (case body_json body of Inl e \<Rightarrow> Some (Inl e) | Inr json \<Rightarrow> map_option (\<lambda>r. rbind r client_of_json) (parse_strict json))"

definition server_of_json :: "Json \<Rightarrow> WireError + ServerMessage \<times> u32 option" where
  "server_of_json v =
     rbind (fields_new v) (\<lambda>obj. rbind (f_kind obj) (\<lambda>kind.
       if kind = text_bytes ''ready'' then
         rbind (f_exact [''interface'', ''kind'', ''session''] obj) (\<lambda>_.
         rbind (f_id ''session'' obj) (\<lambda>session. rbind (f_id ''interface'' obj) (\<lambda>interface. Inr (MReady session interface, None))))
       else if kind = text_bytes ''activation_uncertain'' then
         rbind (f_exact [''code'', ''instance'', ''interface'', ''kind'', ''session''] obj) (\<lambda>_.
         rbind (f_code ''code'' obj) (\<lambda>code.
         if code \<noteq> CStore StoreActivationUncertain then Inl Malformed
         else rbind (f_string ''instance'' obj) (\<lambda>inst. rbind (validate_store_instance inst) (\<lambda>_.
              rbind (f_id ''session'' obj) (\<lambda>session. rbind (f_id ''interface'' obj) (\<lambda>interface.
                Inr (MActivationUncertain session interface inst, None)))))))
       else if kind = text_bytes ''value'' then
         rbind (f_exact [''data'', ''kind'', ''turn''] obj) (\<lambda>_.
         rbind (f_get ''data'' obj) (\<lambda>data. rbind (f_u32 ''turn'' obj) (\<lambda>turn. Inr (MValue data, Some turn))))
       else if kind = text_bytes ''fault'' then
         rbind (f_exact [''code'', ''kind'', ''span'', ''turn''] obj) (\<lambda>_.
         rbind (f_code ''code'' obj) (\<lambda>code. rbind (f_span ''span'' obj) (\<lambda>span. rbind (f_u32 ''turn'' obj) (\<lambda>turn.
           Inr (MFault code span, Some turn)))))
       else if kind = text_bytes ''incomplete'' then
         rbind (f_exact [''code'', ''durable'', ''kind'', ''span'', ''turn''] obj) (\<lambda>_.
         rbind (f_code ''code'' obj) (\<lambda>code. rbind (f_durable_state ''durable'' obj) (\<lambda>durable.
         rbind (f_span ''span'' obj) (\<lambda>span. rbind (f_u32 ''turn'' obj) (\<lambda>turn. Inr (MIncomplete code durable span, Some turn))))))
       else if kind = text_bytes ''reject'' then
         rbind (f_exact [''code'', ''kind'', ''turn''] obj) (\<lambda>_.
         rbind (f_code ''code'' obj) (\<lambda>code. rbind (f_u32 ''turn'' obj) (\<lambda>turn. Inr (MReject code, Some turn))))
       else Inl Malformed))"

definition server_decode_with_turn :: "bytes \<Rightarrow> (WireError + ServerMessage \<times> u32 option) option" where
  "server_decode_with_turn body =
     (case body_json body of Inl e \<Rightarrow> Some (Inl e) | Inr json \<Rightarrow> map_option (\<lambda>r. rbind r server_of_json) (parse_strict json))"

end
