(* ===== verification/Wire_Contract.thy ===== *)
theory Wire_Contract
  imports Wire_Message
begin

text \<open>
  The message codecs of the local wire are exact: every message has one JSON value, the encoders write the
  canonical spelling of that value into a bounded frame, and the decoders accept exactly these bodies.
\<close>

section \<open>Frames\<close>

lemma frame_encode_emits:
  assumes "emits (enc_value w) t"
  shows "frame_encode w =
    Some (if length t < MAX_FRAME then Inr (be_bytes (word_of_nat (Suc (length t)) :: u32) @ PROTOCOL_VERSION # t) else Inl FrameTooLarge)"
proof -
  have "live (enc_new [0, 0, 0, 0, 0] (Some (4 + MAX_FRAME)))"
    "room (enc_new [0, 0, 0, 0, 0] (Some (4 + MAX_FRAME))) t \<longleftrightarrow> length t < MAX_FRAME"
    by (auto simp: live_def room_def enc_new_def MAX_FRAME_def)
  then show ?thesis
    using assms [unfolded emits_def, rule_format, of "enc_new [0, 0, 0, 0, 0] (Some (4 + MAX_FRAME))"]
    by (auto simp: frame_encode_def enc_finish_def enc_new_def MAX_FRAME_def Let_def)
qed

lemma frame_header:
  assumes "length t < MAX_FRAME"
  shows "frame_body_len (be_bytes (word_of_nat (Suc (length t)) :: u32)) = Inr (Suc (length t))"
proof -
  have "unat (word_of_nat (Suc (length t)) :: u32) = Suc (length t)"
    using assms by (simp add: unat_of_nat take_bit_eq_mod MAX_FRAME_def del: of_nat_Suc)
  then show ?thesis using assms by (simp add: frame_body_len_def Let_def of_be_be_bytes del: of_nat_Suc)
qed

section \<open>Identities\<close>

lemma lower_hex_nibble: "k < 16 \<Longrightarrow> lower_hex (nibble k) = Some (word_of_nat k)"
proof -
  have "list_all (\<lambda>k. lower_hex (nibble k) = Some (word_of_nat k)) [0..<16]" by code_simp
  then show "k < 16 \<Longrightarrow> lower_hex (nibble k) = Some (word_of_nat k)" by (auto simp: list_all_iff)
qed

lemma lower_hex_Some:
  assumes "lower_hex b = Some d"
  shows "unat d < 16 \<and> b = nibble (unat d)"
proof (cases "0x30 \<le> b \<and> b \<le> 0x39")
  case True
  then have d: "d = b - 0x30" using assms by (simp add: lower_hex_def)
  then have "unat d = unat b - 0x30" using True by (simp add: unat_sub)
  then have "unat d < 10" using True by (auto simp: word_le_nat_alt)
  then show ?thesis using d by (simp add: nibble_def)
next
  case False
  then have b: "0x61 \<le> b" "b \<le> 0x66" "d = b - 0x61 + 10" using assms by (auto simp: lower_hex_def split: if_splits)
  then have d: "d = b - 0x57" "0x57 \<le> b" by (simp_all add: word_le_nat_alt)
  then have "unat d = unat b - 0x57" by (simp add: unat_sub)
  then have "10 \<le> unat d" "unat d < 16" using b(1,2) by (auto simp: word_le_nat_alt)
  then show ?thesis using d(1) by (simp add: nibble_def)
qed

lemma hex_byte: "word_of_nat (unat b div 16) * 16 + word_of_nat (unat b mod 16) = (b :: byte)"
proof -
  have "word_of_nat (unat b div 16 * 16 + unat b mod 16) = b" unfolding div_mult_mod_eq by simp
  then show ?thesis by (simp only: of_nat_add of_nat_mult of_nat_numeral)
qed

lemma nibble_range: "unat b div 16 < 16" "unat b mod 16 < 16" for b :: byte
  using unat_byte_less [of b] by (simp_all add: div_less_iff_less_mult del: unat_byte_less)

lemma hex_join:
  assumes "unat h < 16" "unat l < 16"
  shows "unat (h * 16 + l) div 16 = unat h" "unat (h * 16 + l) mod 16 = unat (l :: byte)"
proof -
  have "unat (h * 16 + l) = unat h * 16 + unat l" using assms by (simp add: unat_word_ariths)
  then show "unat (h * 16 + l) div 16 = unat h" "unat (h * 16 + l) mod 16 = unat l" using assms by simp_all
qed

lemma hex_pairs_to_hex: "hex_pairs (to_hex bs) = Some bs"
  by (induction bs) (simp_all add: to_hex_def lower_hex_nibble nibble_range hex_byte)

lemma hex_pairs_Some: "hex_pairs t = Some bs \<Longrightarrow> even (length t) \<Longrightarrow> t = to_hex bs \<and> length t = 2 * length bs"
  by (induction t arbitrary: bs rule: hex_pairs.induct)
    (auto simp: to_hex_def hex_join dest!: lower_hex_Some split: option.splits)

lemma length_to_hex [simp]: "length (to_hex bs) = 2 * length bs"
  by (induction bs) (simp_all add: to_hex_def)

lemma from_hex_iff: "from_hex t = Some i \<longleftrightarrow> length i = 32 \<and> t = to_hex i"
  using hex_pairs_Some [of t i] by (auto simp: from_hex_def hex_pairs_to_hex split: if_splits)

section \<open>Message values\<close>

fun client_json :: "u32 \<Rightarrow> ClientMessage \<Rightarrow> Json" where
  "client_json turn (Hello nonce) = JObject [(text_bytes ''kind'', JStr (text_bytes ''hello'')), (text_bytes ''nonce'', JStr (to_hex nonce))]"
| "client_json turn (Request export args) =
     JObject [(text_bytes ''args'', JArray args), (text_bytes ''export'', JStr (to_hex export)), (text_bytes ''kind'', JStr (text_bytes ''request'')),
       (text_bytes ''turn'', JInt (ucast turn))]"

fun server_json :: "u32 \<Rightarrow> ServerMessage \<Rightarrow> Json" where
  "server_json turn (MReady session interface) =
     JObject [(text_bytes ''interface'', JStr (to_hex interface)), (text_bytes ''kind'', JStr (text_bytes ''ready'')),
       (text_bytes ''session'', JStr (to_hex session))]"
| "server_json turn (MActivationUncertain session interface inst) =
     JObject [(text_bytes ''code'', JStr (as_str (CStore StoreActivationUncertain))), (text_bytes ''instance'', JStr inst),
       (text_bytes ''interface'', JStr (to_hex interface)), (text_bytes ''kind'', JStr (text_bytes ''activation_uncertain'')),
       (text_bytes ''session'', JStr (to_hex session))]"
| "server_json turn (MValue data) =
     JObject [(text_bytes ''data'', data), (text_bytes ''kind'', JStr (text_bytes ''value'')), (text_bytes ''turn'', JInt (ucast turn))]"
| "server_json turn (MFault code span) =
     JObject [(text_bytes ''code'', JStr (as_str code)), (text_bytes ''kind'', JStr (text_bytes ''fault'')), (text_bytes ''span'', span_to_json span),
       (text_bytes ''turn'', JInt (ucast turn))]"
| "server_json turn (MIncomplete code durable span) =
     JObject [(text_bytes ''code'', JStr (as_str code)), (text_bytes ''durable'', JStr (durable_str durable)),
       (text_bytes ''kind'', JStr (text_bytes ''incomplete'')), (text_bytes ''span'', span_to_json span), (text_bytes ''turn'', JInt (ucast turn))]"
| "server_json turn (MReject code) =
     JObject [(text_bytes ''code'', JStr (as_str code)), (text_bytes ''kind'', JStr (text_bytes ''reject'')), (text_bytes ''turn'', JInt (ucast turn))]"

text \<open>The keys of every object are in the order that the canonical form asks for.\<close>

lemma keys_sorted:
  "sorted_wrt (<) (map text_bytes [''kind'', ''nonce''])" "sorted_wrt (<) (map text_bytes [''args'', ''export'', ''kind'', ''turn''])"
  "sorted_wrt (<) (map text_bytes [''interface'', ''kind'', ''session''])"
  "sorted_wrt (<) (map text_bytes [''code'', ''instance'', ''interface'', ''kind'', ''session''])"
  "sorted_wrt (<) (map text_bytes [''data'', ''kind'', ''turn''])" "sorted_wrt (<) (map text_bytes [''code'', ''kind'', ''span'', ''turn''])"
  "sorted_wrt (<) (map text_bytes [''code'', ''durable'', ''kind'', ''span'', ''turn''])" "sorted_wrt (<) (map text_bytes [''code'', ''kind'', ''turn''])"
  "sorted_wrt (<) (map text_bytes [''column'', ''line''])"
  by (simp_all add: text_bytes_def)

definition writes_field :: "bytes \<times> slot_writer \<Rightarrow> bytes \<times> Json \<Rightarrow> bool" where
  "writes_field = (\<lambda>(k, w) (k', v). k = k' \<and> emits (enc_value w) (canon v))"

lemma emits_message:
  assumes "list_all2 writes_field fs ps" "sorted_wrt (<) (map fst ps)"
  shows "emits (enc_value (write_fields fs)) (canon (JObject ps))"
proof -
  have sorted: "sort_key fst ps = ps" using assms(2) by (simp add: sort_key_id_if_sorted strict_sorted_imp_sorted)
  obtain xs where xs: "fs = map (\<lambda>x. (fst x, fst (snd x))) xs" "ps = map (\<lambda>x. (fst x, snd (snd x))) xs"
    "\<And>x. x \<in> set xs \<Longrightarrow> emits (enc_value (fst (snd x))) (canon (snd (snd x)))"
  proof -
    have "\<exists>xs. fs = map (\<lambda>x. (fst x, fst (snd x))) xs \<and> ps = map (\<lambda>x. (fst x, snd (snd x))) xs
        \<and> (\<forall>x \<in> set xs. emits (enc_value (fst (snd x))) (canon (snd (snd x))))"
      using assms(1)
    proof induction
      case (Cons f fs p ps)
      then obtain xs where "fs = map (\<lambda>x. (fst x, fst (snd x))) xs" "ps = map (\<lambda>x. (fst x, snd (snd x))) xs"
        "\<forall>x \<in> set xs. emits (enc_value (fst (snd x))) (canon (snd (snd x)))" by blast
      then show ?case using Cons(1) by (intro exI [of _ "(fst f, snd f, snd p) # xs"]) (auto simp: writes_field_def split: prod.splits)
    qed simp
    then show thesis using that by blast
  qed
  then have "emits (object_run (each (\<lambda>(k, w). ow_field k w) fs) True None) (commas (map (\<lambda>(k, v). field_text (k, canon v)) ps))"
    using emits_fields [of xs "fst \<circ> snd" "canon \<circ> snd \<circ> snd" fst None True] assms(2) by (simp add: comp_def)
  then show ?thesis unfolding write_fields_def canon_object sorted by (rule emits_object)
qed

lemma writes_leaf [simp]:
  "writes_field (k, vw_string s) (k, JStr s)" "writes_field (k, vw_turn t) (k, JInt (ucast t))" "writes_field (k, vw_json v) (k, v)"
  "writes_field (k, vw_array (each aw_element (map vw_json vs))) (k, JArray vs)"
  using emits_json [of "JStr s"] emits_json [of "JInt (ucast t)"] emits_json [of v] emits_json [of "JArray vs"]
  by (simp_all add: writes_field_def vw_turn_def del: canon.simps)

lemma emits_client: "emits (enc_value (write_fields (client_fields turn m))) (canon (client_json turn m))"
  using keys_sorted by (cases m) (auto simp del: canon.simps intro!: emits_message)

lemma emits_server: "emits (enc_value (write_fields (server_fields turn m))) (canon (server_json turn m))"
  using keys_sorted by (cases m) (auto simp: value_fields_def simp del: canon.simps intro!: emits_message)

section \<open>Reading the fields\<close>

lemma f_exact_iff:
  assumes "sorted_wrt (<) (map fst ps)" "sorted_wrt (<) (map text_bytes ks)"
  shows "f_exact ks ps = Inr () \<longleftrightarrow> map fst ps = map text_bytes ks"
proof
  assume "f_exact ks ps = Inr ()"
  then have len: "length ps = length ks" and all: "\<forall>key \<in> set ks. \<exists>p \<in> set ps. fst p = text_bytes key"
    by (auto simp: f_exact_def list_all_iff list_ex_iff case_prod_beta split: if_splits)
  from all have sub: "text_bytes ` set ks \<subseteq> fst ` set ps" by (metis image_eqI image_subsetI)
  have d: "distinct (map fst ps)" "distinct (map text_bytes ks)" using assms by (simp_all add: strict_sorted_iff)
  then have "card (fst ` set ps) = length ps" "card (text_bytes ` set ks) = length ks"
    by (metis distinct_card length_map list.set_map)+
  then have "text_bytes ` set ks = fst ` set ps" using sub len by (metis card_subset_eq finite_imageI finite_set)
  then show "map fst ps = map text_bytes ks" using assms by (intro strict_sorted_equal) simp_all
next
  assume eq: "map fst ps = map text_bytes ks"
  then have "length ps = length ks" by (metis length_map)
  moreover have "list_ex (\<lambda>(k, _). k = text_bytes key) ps" if "key \<in> set ks" for key
  proof -
    have "text_bytes key \<in> fst ` set ps" using eq that by (metis image_eqI image_set)
    then show ?thesis by (auto simp: list_ex_iff)
  qed
  ultimately show "f_exact ks ps = Inr ()" by (simp add: f_exact_def list_all_iff)
qed

lemma or_malformed_Inr [simp]: "or_malformed r = Inr x \<longleftrightarrow> r = Some x"
  by (auto simp: or_malformed_def split: option.splits)

lemma f_get_Cons [simp]: "f_get key ((k, v) # ps) = (if k = text_bytes key then Inr v else f_get key ps)"
  by (simp add: f_get_def)

lemma uint_turn: "uint (ucast t :: i64) = uint t" "uint t < 2 ^ 32" for t :: u32
proof -
  show "uint t < 2 ^ 32" using uint_bounded [of t] by simp
  then show "uint (ucast t :: i64) = uint t" by (simp add: unsigned_ucast_eq take_bit_int_eq_self)
qed

lemma sint_turn: "sint (ucast t :: i64) = uint t" for t :: u32
proof -
  have "- (2 ^ 63) \<le> (0 :: int)" "0 \<le> uint t" "(2 :: int) ^ 32 \<le> 2 ^ 63" by simp_all
  then have "- (2 ^ 63) \<le> uint t" "uint t < 2 ^ 63" using uint_turn(2) [of t] \<open>0 \<le> uint t\<close> by linarith+
  then have "signed_take_bit 63 (uint t) = uint t" by (rule signed_take_bit_int_eq_self)
  then show ?thesis by (simp add: sint_uint uint_turn(1))
qed

lemma turn_iff: "0 \<le> sint n \<and> sint n \<le> 2 ^ 32 - 1 \<and> ucast n = t \<longleftrightarrow> n = ucast t" for n :: i64 and t :: u32
proof
  assume n: "0 \<le> sint n \<and> sint n \<le> 2 ^ 32 - 1 \<and> ucast n = t"
  then have "uint t = take_bit 32 (uint n)" by (auto simp: unsigned_ucast_eq)
  also have "\<dots> = sint n" using n by (simp add: uint_sint take_bit_int_eq_self)
  finally have "sint n = sint (ucast t :: i64)" by (simp add: sint_turn)
  then show "n = ucast t" by simp
next
  assume "n = ucast t"
  moreover have "ucast (ucast t :: i64) = t"
    unfolding word_uint_eq_iff unsigned_ucast_eq [of "ucast t :: i64"] uint_turn(1) using uint_turn(2) [of t] by (simp add: take_bit_int_eq_self)
  ultimately show "0 \<le> sint n \<and> sint n \<le> 2 ^ 32 - 1 \<and> ucast n = t"
    using uint_turn(2) [of t] by (simp add: sint_turn)
qed

lemma f_u32_Inr [simp]: "f_u32 key ps = Inr t \<longleftrightarrow> f_get key ps = Inr (JInt (ucast t))"
proof -
  have "f_u32 key ps = Inr t \<longleftrightarrow> (\<exists>n. f_get key ps = Inr (JInt n) \<and> 0 \<le> sint n \<and> sint n \<le> 2 ^ 32 - 1 \<and> ucast n = t)"
    by (cases "f_get key ps") (auto simp: f_u32_def split: Json.splits)
  then show ?thesis by (simp only: turn_iff) auto
qed

lemma f_string_Inr [simp]: "f_string key ps = Inr x \<longleftrightarrow> f_get key ps = Inr (JStr x)"
  by (cases "f_get key ps") (auto simp: f_string_def split: Json.splits)

lemma f_kind_Inr [simp]: "f_kind ps = Inr x \<longleftrightarrow> f_get ''kind'' ps = Inr (JStr x)"
  by (simp add: f_kind_def)

lemma f_id_Inr [simp]: "f_id key ps = Inr x \<longleftrightarrow> length x = 32 \<and> f_get key ps = Inr (JStr (to_hex x))"
  by (auto simp: f_id_def from_hex_iff)

lemma f_array_Inr [simp]: "f_array key ps = Inr xs \<longleftrightarrow> f_get key ps = Inr (JArray xs)"
  by (cases "f_get key ps") (auto simp: f_array_def split: Json.splits)

lemma f_code_Inr [simp]: "f_code key ps = Inr c \<longleftrightarrow> f_get key ps = Inr (JStr (as_str c))"
  by (auto simp: f_code_def from_code_iff)

lemma f_durable_Inr [simp]: "f_durable_state key ps = Inr d \<longleftrightarrow> f_get key ps = Inr (JStr (durable_str d))"
  by (auto simp: f_durable_state_def durable_parse_iff)

lemma f_span_Inr:
  assumes "\<And>v. f_get key ps = Inr v \<Longrightarrow> json_ok m d v"
  shows "f_span key ps = Inr span \<longleftrightarrow> f_get key ps = Inr (span_to_json span)"
proof (cases "\<exists>qs. f_get key ps = Inr (JObject qs)")
  case True
  then obtain qs where qs: "f_get key ps = Inr (JObject qs)" by blast
  then have "sorted_wrt (<) (map fst qs)" using assms by fastforce
  note exact = f_exact_iff [OF this keys_sorted(9)]
  show ?thesis
    by (cases span) (auto simp: f_span_def qs fields_new_def exact span_to_json_def map_eq_Cons_conv)
next
  case False
  then show ?thesis
    by (cases "f_get key ps") (auto simp: f_span_def fields_new_def span_to_json_def split: Json.splits)
qed

lemma f_span_json: "f_get key ps = Inr (span_to_json span) \<Longrightarrow> f_span key ps = Inr span"
  by (cases span) (simp add: f_span_def span_to_json_def fields_new_def f_exact_def)

section \<open>Client messages\<close>

definition client_turn :: "u32 \<Rightarrow> ClientMessage \<Rightarrow> u32 option" where
  "client_turn turn m = (case m of Hello _ \<Rightarrow> None | Request _ _ \<Rightarrow> Some turn)"

fun client_ok :: "ClientMessage \<Rightarrow> bool" where
  "client_ok (Hello nonce) = (length nonce = 32)"
| "client_ok (Request export args) = (length export = 32 \<and> list_all (json_ok MAX_STRING_BYTES (MAX_DEPTH - 2)) args)"

lemma text_ok: "list_all (\<lambda>b. b < 0x80) s \<Longrightarrow> length s \<le> 64 \<Longrightarrow> utf8_valid s \<and> length s \<le> MAX_STRING_BYTES"
  by (simp add: ascii_valid MAX_STRING_BYTES_def)

lemma to_hex_ok: "length i = 32 \<Longrightarrow> utf8_valid (to_hex i) \<and> length (to_hex i) \<le> MAX_STRING_BYTES"
proof -
  have nib: "list_all (\<lambda>k. nibble k < 0x80) [0..<16]" by code_simp
  have "list_all (\<lambda>b. b < 0x80) (to_hex i)" using nib nibble_range
    by (auto simp: to_hex_def list_all_iff)
  then show "length i = 32 \<Longrightarrow> utf8_valid (to_hex i) \<and> length (to_hex i) \<le> MAX_STRING_BYTES" by (intro text_ok) simp_all
qed

lemma client_json_ok:
  "json_ok MAX_STRING_BYTES MAX_DEPTH (client_json turn m) \<and> (case m of Hello i \<Rightarrow> length i = 32 | Request i _ \<Rightarrow> length i = 32) \<longleftrightarrow> client_ok m"
  using keys_sorted to_hex_ok text_ok
  by (cases m) (auto simp: MAX_DEPTH_def MAX_STRING_BYTES_def text_bytes_def)

definition client_id :: "ClientMessage \<Rightarrow> bytes" where
  "client_id m = (case m of Hello i \<Rightarrow> i | Request i _ \<Rightarrow> i)"

lemma client_of_json_Inr:
  assumes "client_of_json (JObject ps) = Inr (msg, t)" "sorted_wrt (<) (map fst ps)"
  shows "length (client_id msg) = 32 \<and> (\<exists>turn. JObject ps = client_json turn msg \<and> t = client_turn turn msg)"
  using assms(1) f_exact_iff [OF assms(2) keys_sorted(1)] f_exact_iff [OF assms(2) keys_sorted(2)]
  by (auto simp: client_of_json_def fields_new_def client_turn_def client_id_def map_eq_Cons_conv split: if_splits)

lemma client_of_json_client:
  assumes "length (client_id msg) = 32"
  shows "client_of_json (client_json turn msg) = Inr (msg, client_turn turn msg)"
  using assms by (cases msg) (simp_all add: client_of_json_def fields_new_def client_id_def client_turn_def f_exact_def)

text \<open>The body of a frame around a value.\<close>

definition framed :: "Json \<Rightarrow> bytes" where
  "framed v = PROTOCOL_VERSION # canon v"

lemma body_json_framed: "body_json body = Inr json \<longleftrightarrow> body = PROTOCOL_VERSION # json"
  by (cases body) (auto simp: body_json_def)

lemma client_decode_iff:
  "client_decode_with_turn body = Some (Inr (m, t)) \<longleftrightarrow> client_ok m \<and> (\<exists>turn. t = client_turn turn m \<and> body = framed (client_json turn m))"
proof
  assume "client_decode_with_turn body = Some (Inr (m, t))"
  then obtain v where v: "body = framed v" "json_ok MAX_STRING_BYTES MAX_DEPTH v" "client_of_json v = Inr (m, t)"
    by (auto simp: client_decode_with_turn_def body_json_framed parse_strict_exact framed_def split: sum.splits)
  then obtain ps where ps: "v = JObject ps" by (cases v) (auto simp: client_of_json_def fields_new_def)
  then show "client_ok m \<and> (\<exists>turn. t = client_turn turn m \<and> body = framed (client_json turn m))"
    using client_of_json_Inr [of ps m t] v client_json_ok [of _ m] by (auto simp: client_id_def split: ClientMessage.splits)
next
  assume "client_ok m \<and> (\<exists>turn. t = client_turn turn m \<and> body = framed (client_json turn m))"
  then obtain turn where m: "client_ok m" "t = client_turn turn m" "body = framed (client_json turn m)" by blast
  then have "json_ok MAX_STRING_BYTES MAX_DEPTH (client_json turn m)" "length (client_id m) = 32"
    using client_json_ok [of turn m] by (auto simp: client_id_def split: ClientMessage.splits)
  then show "client_decode_with_turn body = Some (Inr (m, t))"
    using m client_of_json_client [of m turn] parse_strict_exact [of "canon (client_json turn m)" "client_json turn m"]
    by (simp add: client_decode_with_turn_def framed_def body_json_def)
qed

section \<open>Server messages\<close>

fun server_turn :: "u32 \<Rightarrow> ServerMessage \<Rightarrow> u32 option" where
  "server_turn turn (MReady _ _) = None"
| "server_turn turn (MActivationUncertain _ _ _) = None"
| "server_turn turn _ = Some turn"

fun server_typed :: "ServerMessage \<Rightarrow> bool" where
  "server_typed (MReady session interface) = (length session = 32 \<and> length interface = 32)"
| "server_typed (MActivationUncertain session interface inst) =
     (length session = 32 \<and> length interface = 32 \<and> validate_store_instance inst = Inr ())"
| "server_typed _ = True"

fun server_ok :: "ServerMessage \<Rightarrow> bool" where
  "server_ok (MValue data) = json_ok MAX_STRING_BYTES (MAX_DEPTH - 1) data"
| "server_ok m = server_typed m"

lemma json_ok_get: "json_ok m d (JObject ps) \<Longrightarrow> f_get key ps = Inr v \<Longrightarrow> json_ok m (d - 1) v"
  by (auto simp: f_get_def list_all_iff find_Some_iff split: option.splits dest!: nth_mem)

lemma server_of_json_Inr:
  assumes "server_of_json (JObject ps) = Inr (msg, t)" "json_ok m d (JObject ps)"
  shows "server_typed msg \<and> (\<exists>turn. JObject ps = server_json turn msg \<and> t = server_turn turn msg)"
proof -
  have sorted: "sorted_wrt (<) (map fst ps)" using assms(2) by simp
  note exact = keys_sorted(3-8) [THEN f_exact_iff [OF sorted]]
  show ?thesis
    using assms(1) exact
    by (auto simp: server_of_json_def fields_new_def map_eq_Cons_conv f_span_Inr [OF json_ok_get [OF assms(2)]] split: if_splits)
qed

lemma server_of_json_server:
  assumes "server_typed msg"
  shows "server_of_json (server_json turn msg) = Inr (msg, server_turn turn msg)"
  using assms by (cases msg) (simp_all add: server_of_json_def fields_new_def f_exact_def f_span_json)

lemma code_ascii: "list_all (\<lambda>b. b < 0x80) (as_str c) \<and> length (as_str c) \<le> 64"
proof -
  have "list_all (\<lambda>x. (of_char x :: byte) < 0x80) (code_str c) \<and> length (code_str c) \<le> 64"
    by (rule every_code) (simp add: ALL_CODES_def)
  then show ?thesis by (auto simp: as_str_def text_bytes_def list_all_iff)
qed

lemma code_ok: "utf8_valid (as_str c) \<and> length (as_str c) \<le> MAX_STRING_BYTES"
  using code_ascii [of c] by (intro text_ok) simp_all

lemma instance_ok: "validate_store_instance inst = Inr () \<Longrightarrow> utf8_valid inst \<and> length inst \<le> MAX_STRING_BYTES"
  by (intro text_ok) (auto simp: validate_store_instance_def list_all_iff word_le_nat_alt word_less_nat_alt is_digit_iff split: if_splits)

lemma span_ok: "2 \<le> d \<Longrightarrow> json_ok MAX_STRING_BYTES (d - Suc 0) (span_to_json span)"
  using keys_sorted(9) by (auto simp: span_to_json_def text_bytes_def MAX_STRING_BYTES_def)

lemma durable_ok: "utf8_valid (durable_str x) \<and> length (durable_str x) \<le> MAX_STRING_BYTES"
  by (cases x) (auto simp: text_bytes_def MAX_STRING_BYTES_def)

lemma server_json_ok: "json_ok MAX_STRING_BYTES MAX_DEPTH (server_json turn m) \<and> server_typed m \<longleftrightarrow> server_ok m"
  using to_hex_ok code_ok instance_ok durable_ok span_ok [of MAX_DEPTH]
  by (cases m) (auto simp: MAX_DEPTH_def MAX_STRING_BYTES_def text_bytes_def)

lemma server_decode_iff:
  "server_decode_with_turn body = Some (Inr (m, t)) \<longleftrightarrow> server_ok m \<and> (\<exists>turn. t = server_turn turn m \<and> body = framed (server_json turn m))"
proof
  assume "server_decode_with_turn body = Some (Inr (m, t))"
  then obtain v where v: "body = framed v" "json_ok MAX_STRING_BYTES MAX_DEPTH v" "server_of_json v = Inr (m, t)"
    by (auto simp: server_decode_with_turn_def body_json_framed parse_strict_exact framed_def split: sum.splits)
  then obtain ps where ps: "v = JObject ps" by (cases v) (auto simp: server_of_json_def fields_new_def)
  then obtain turn where "server_typed m" "v = server_json turn m" "t = server_turn turn m"
    using server_of_json_Inr v by blast
  then show "server_ok m \<and> (\<exists>turn. t = server_turn turn m \<and> body = framed (server_json turn m))"
    using v(1,2) server_json_ok [of turn m] by auto
next
  assume "server_ok m \<and> (\<exists>turn. t = server_turn turn m \<and> body = framed (server_json turn m))"
  then obtain turn where m: "server_ok m" "t = server_turn turn m" "body = framed (server_json turn m)" by blast
  then have "json_ok MAX_STRING_BYTES MAX_DEPTH (server_json turn m)" "server_typed m"
    using server_json_ok [of turn m] by auto
  then show "server_decode_with_turn body = Some (Inr (m, t))"
    using m server_of_json_server [of m turn] parse_strict_exact [of "canon (server_json turn m)" "server_json turn m"]
    by (simp add: server_decode_with_turn_def framed_def body_json_def)
qed

section \<open>Properties\<close>

lemma frame_encode_body:
  assumes "emits (enc_value w) (canon v)"
  shows "frame_encode w = Some (Inr (be_bytes (word_of_nat (length body) :: u32) @ body)) \<longleftrightarrow> body = framed v \<and> length body \<le> MAX_FRAME"
  unfolding frame_encode_emits [OF assms] by (auto simp: framed_def append_eq_append_conv Suc_le_eq)

lemma body_header: "0 < length body \<Longrightarrow> length body \<le> MAX_FRAME \<Longrightarrow> frame_body_len (be_bytes (word_of_nat (length body) :: u32)) = Inr (length body)"
  using frame_header [of "tl body"] by (cases body) auto

lemma frame_encode_returns: "emits (enc_value w) t \<Longrightarrow> \<exists>r. frame_encode w = Some r"
  by (simp add: frame_encode_emits)

text \<open>A body belongs to one direction only, since the two sets of kinds are disjoint.\<close>

lemma directions_disjoint:
  assumes "client_decode_with_turn body = Some (Inr x)" "server_decode_with_turn body = Some (Inr y)"
  shows False
proof -
  obtain m t where x: "x = (m, t)" by (cases x)
  obtain m' t' where y: "y = (m', t')" by (cases y)
  obtain turn where c: "client_ok m" "body = framed (client_json turn m)" using assms(1) by (auto simp: x client_decode_iff)
  obtain turn' where s: "server_ok m'" "body = framed (server_json turn' m')" using assms(2) by (auto simp: y server_decode_iff)
  have "json_ok MAX_STRING_BYTES MAX_DEPTH (client_json turn m)" "json_ok MAX_STRING_BYTES MAX_DEPTH (server_json turn' m')"
    using client_json_ok c(1) server_json_ok s(1) by blast+
  then have "client_json turn m = server_json turn' m'"
    using c(2) s(2) parse_strict_exact by (metis framed_def list.inject option.inject sum.inject(2))
  then show False by (cases m; cases m') auto
qed

text \<open>
  C38. The client codec is exact: a body within the frame bound decodes to a message exactly when the encoder
  writes that body, behind the header that announces its length, for that message and turn, and exactly for
  messages with a 32-byte identity and arguments within the limits of the wire; a handshake carries no turn
  and a request its own. Both sides always return without a panic.
\<close>

theorem wire_client_exact:
  "(client_decode_with_turn body = Some (Inr (m, t)) \<and> length body \<le> MAX_FRAME \<longleftrightarrow>
      client_ok m \<and> (\<exists>turn. t = client_turn turn m
        \<and> client_encode_with_turn turn m = Some (Inr (be_bytes (word_of_nat (length body) :: u32) @ body))
        \<and> frame_body_len (be_bytes (word_of_nat (length body) :: u32)) = Inr (length body)))
   \<and> (\<exists>r. client_decode_with_turn body = Some r) \<and> (\<exists>r. client_encode_with_turn turn m = Some r)"
proof (intro conjI)
  show "client_decode_with_turn body = Some (Inr (m, t)) \<and> length body \<le> MAX_FRAME \<longleftrightarrow>
      client_ok m \<and> (\<exists>turn. t = client_turn turn m
        \<and> client_encode_with_turn turn m = Some (Inr (be_bytes (word_of_nat (length body) :: u32) @ body))
        \<and> frame_body_len (be_bytes (word_of_nat (length body) :: u32)) = Inr (length body))"
    using body_header [of body] unfolding client_decode_iff client_encode_with_turn_def frame_encode_body [OF emits_client]
    by (auto simp: framed_def)
  show "\<exists>r. client_decode_with_turn body = Some r"
    using parse_strict_returns by (auto simp: client_decode_with_turn_def split: sum.splits)
  show "\<exists>r. client_encode_with_turn turn m = Some r"
    unfolding client_encode_with_turn_def by (rule frame_encode_returns [OF emits_client])
qed

text \<open>
  C39. The server codec is exact in the same sense for all six replies, with registered codes, commit states,
  spans and store instances spelled in their one form; and no body is a message of both directions.
\<close>

theorem wire_server_exact:
  "(server_decode_with_turn body = Some (Inr (m, t)) \<and> length body \<le> MAX_FRAME \<longleftrightarrow>
      server_ok m \<and> (\<exists>turn. t = server_turn turn m
        \<and> server_encode_frame turn m = Some (Inr (be_bytes (word_of_nat (length body) :: u32) @ body))
        \<and> frame_body_len (be_bytes (word_of_nat (length body) :: u32)) = Inr (length body)))
   \<and> (\<exists>r. server_decode_with_turn body = Some r) \<and> (\<exists>r. server_encode_frame turn m = Some r)
   \<and> \<not> (client_decode_with_turn body = Some (Inr x) \<and> server_decode_with_turn body = Some (Inr y))"
proof (intro conjI)
  have "server_encode_frame turn m = frame_encode (write_fields (server_fields turn m))" if "server_ok m" for turn
    using that by (cases m) (simp_all add: server_encode_frame_def)
  then have enc: "server_encode_frame turn m = Some (Inr (be_bytes (word_of_nat (length body) :: u32) @ body)) \<longleftrightarrow>
      body = framed (server_json turn m) \<and> length body \<le> MAX_FRAME" if "server_ok m" for turn
    using that frame_encode_body [OF emits_server] by simp
  show "server_decode_with_turn body = Some (Inr (m, t)) \<and> length body \<le> MAX_FRAME \<longleftrightarrow>
      server_ok m \<and> (\<exists>turn. t = server_turn turn m
        \<and> server_encode_frame turn m = Some (Inr (be_bytes (word_of_nat (length body) :: u32) @ body))
        \<and> frame_body_len (be_bytes (word_of_nat (length body) :: u32)) = Inr (length body))"
    using body_header [of body] by (cases "server_ok m") (auto simp: server_decode_iff enc, auto simp: framed_def)
  show "\<exists>r. server_decode_with_turn body = Some r"
    using parse_strict_returns by (auto simp: server_decode_with_turn_def split: sum.splits)
  show "\<exists>r. server_encode_frame turn m = Some r"
    using frame_encode_returns [OF emits_server] by (auto simp: server_encode_frame_def split: sum.splits)
  show "\<not> (client_decode_with_turn body = Some (Inr x) \<and> server_decode_with_turn body = Some (Inr y))"
    using directions_disjoint by blast
qed

end
