(* ===== verification/Spec2Isabelle.thy ===== *)
theory Spec2Isabelle
  imports Temporal_Text Varint Value_Codec Equality Value_Shape Domain_Codec Mem_Engine Physical Schema Calendar
    Session_Contract Transfer_Contract Backup_Contract Wire_Contract
begin

text \<open>
  A verification library for Marrow, a language with typed durable storage. It models the path that a stored
  value takes: from typed values and keys to canonical bytes, from bytes to the cells of an ordered byte store,
  from cells to the entries that a session reads and writes, and from a whole store to the audit, the backup
  stream and the restored copy. It also models the strict JSON protocol between a client and a local runner,
  and the registry of diagnostic codes. Paths below are relative to \<open>src/crates/\<close>.

  \<^bold>\<open>How the code is represented.\<close> A Rust \<open>Result\<close> is a sum with the error on the left, and \<open>?\<close> is \<open>rbind\<close>.
  A panic, an \<open>expect\<close> or an index out of range is the value \<open>Panic\<close> of \<open>halt\<close> (or \<open>None\<close> where the code has no
  other failure), so that the absence of panics is a theorem. Integers whose width matters are words; sizes that
  are bounded by the length of a list are naturals. A \<open>String\<close> is the list of its UTF-8 bytes. \<open>&mut self\<close> is
  an argument that is returned updated. An enum is a \<open>datatype\<close>, a struct a \<open>record\<close> or a one-constructor
  datatype, and a trait object is a record of functions. \<open>Prelude\<close> holds the shared types and
  lemmas: results, big-endian integers, byte-lexicographic order, ordered listings of finite maps.

  \<^bold>\<open>Codecs.\<close> \<open>Ordered_Codec\<close> states what it is to be an exact codec (a decoder that accepts exactly the
  encodings and consumes exactly one of them) and an ordered one, as the locales \<open>exact_codec\<close> and
  \<open>ordered_codec\<close>; \<open>Key_Codec\<close> (\<open>marrow-kernel/src/codec/key.rs\<close>) and \<open>Varint\<close> (\<open>codec/varint.rs\<close>)
  interpret them. \<open>Decimal\<close>, \<open>Temporal\<close>, \<open>Calendar\<close> and \<open>Temporal_Text\<close> model \<open>marrow-temporal/src/lib.rs\<close>;
  the day count is proved to be the number of Gregorian days. \<open>Value_Codec\<close>, \<open>Value_Shape\<close> and \<open>Domain_Codec\<close>
  model \<open>codec/value.rs\<close>: scalars, shapes with their builder, composite values. \<open>Equality\<close> is \<open>equality.rs\<close>.
  One theorem shows that a variant index above \<open>65535\<close> is truncated by the decoder, so that two cells hold one value.

  \<^bold>\<open>Engine.\<close> \<open>Engine\<close> models the traits of \<open>marrow-store/src/engine.rs\<close> as the record \<open>engine\<close>, and what the kernel
  relies on as the locales \<open>lawful_view\<close> (reads and ordered pages) and \<open>lawful_engine\<close> (writes). \<open>Mem_Engine\<close>
  models \<open>mem.rs\<close> and interprets the latter as \<open>mem\<close>. The native engine is a third-party store behind the same
  traits; the theorems that are stated over the locales apply to any engine that meets the laws.

  \<^bold>\<open>Kernel.\<close> \<open>Physical\<close> (\<open>durable/physical.rs\<close>) is the layout of cell keys, injective and inverted by its
  classifier. \<open>Schema\<close> (\<open>schema.rs\<close>), \<open>Sites\<close> (\<open>site.rs\<close>), \<open>Numbering\<close> (\<open>mod.rs\<close>) and \<open>Resolve\<close>
  (\<open>store/resolve.rs\<close>) lead from a program's declarations to the authorized sites of a session; the schemas
  that the builder can yield are exactly the well-formed ones. \<open>Kernel\<close>
  (\<open>store/address.rs\<close>) and \<open>Plan\<close> (\<open>plan.rs\<close>) compute the cells of a node and the writes of a mutation;
  \<open>Read_Ops\<close>, \<open>Traverse\<close> and \<open>Txn_Session\<close> model \<open>store/read_ops.rs\<close>, \<open>store/traverse.rs\<close> with
  \<open>store/index_ops.rs\<close>, and \<open>store/txn_session.rs\<close>. The proofs are layered: \<open>Session_Effects\<close> (a plan as a map
  update), \<open>Session_Props\<close> (the effect of each mutation and its frame), \<open>Session_Refine\<close> (the cells of a store
  as a map from nodes to entries, and each mutation as an update of that map), \<open>Session_Invariant\<close> (the session
  as an inductive step relation that keeps the store sound), \<open>Index_Coherence\<close> (the rows of a managed index are
  exactly the projections of the present entries), \<open>Session_Samples\<close> (a concrete store for the witnesses) and
  \<open>Session_Contract\<close> (the contract itself). \<open>Handle\<close> and \<open>Handle_Contract\<close> model \<open>store/handle.rs\<close> with
  authority, witness generations, commit and recovery, over the locale \<open>lawful_byte_engine\<close>, which the memory
  engine interprets as \<open>memory\<close>.

  \<^bold>\<open>Audit and transfer.\<close> \<open>Logical_Audit\<close> (\<open>durable/audit.rs\<close>) is the walk over a whole store with every
  finding, \<open>Cell_Transfer\<close> (\<open>durable/transfer.rs\<close>) the export and the batched restore. \<open>Audit_Walk\<close>, \<open>Audit_Steps\<close>,
  \<open>Audit_Run\<close>, \<open>Audit_Report\<close>, \<open>Audit_Tables\<close> and \<open>Audit_Valid\<close> lead to \<open>Audit_Contract\<close>: the audit always
  returns and is clean exactly on the stores that are valid for their projection, the states that the sessions
  keep. \<open>Transfer_Contract\<close> shows that a restore admits exactly the valid streams and that an exported store
  restores to the same cells and the same digest.

  \<^bold>\<open>Lifecycle artifacts.\<close> \<open>Artifact_Codec\<close> (\<open>marrow-lifecycle/src/codec.rs\<close>) has the bounded reader and the locale
  \<open>exact_reader\<close>, which \<open>Store_Head\<close> (\<open>head.rs\<close>, \<open>headmap.rs\<close>) and \<open>Store_Envelope\<close> (\<open>envelope.rs\<close>) interpret
  for each of their parts. \<open>Backup_Stream\<close> and \<open>Backup_Frames\<close> model \<open>backup_stream.rs\<close>; \<open>Backup_Contract\<close>
  composes head, export, stream and restore, as \<open>backup.rs\<close> does, and proves the whole round trip.

  \<^bold>\<open>Wire protocol and codes.\<close> \<open>Commit_State\<close> and \<open>Codes\<close> model \<open>marrow-codes/src/lib.rs\<close>. \<open>Wire_Json\<close> models the
  bounded encoder, the lexer and the parser of \<open>marrow-local-wire/src/json.rs\<close>; \<open>Wire_Canon\<close> gives every value one
  canonical spelling, \<open>Wire_Parse\<close> and \<open>Wire_Strict\<close> prove that the parser is its exact inverse within the limits
  of the wire. \<open>Wire_Message\<close> models \<open>frame.rs\<close>, \<open>id.rs\<close>, \<open>span.rs\<close> and \<open>message.rs\<close>; \<open>Wire_Contract\<close> proves
  both message codecs exact.

  \<^bold>\<open>Parameters.\<close> The digest (SHA-256) is an argument \<open>H\<close>; a theorem that frames digests assumes only that they
  have 32 bytes. Readers, writers, sinks and sources are records of functions, and the theorems about bytes take
  an in-memory slice and a vector for them. An engine is a record with the laws of its locale.

  \<^bold>\<open>Loops.\<close> A loop whose end depends on the engine or on a source (\<open>leaf_loop\<close>, \<open>walk_pages\<close>, \<open>transfer_loop\<close>) is
  a \<open>partial_function\<close> in \<open>option\<close>, and the contracts prove that it returns over a lawful engine and a finite
  source. The JSON parser is a mutual recursion with a termination proof on the remaining input. No definition
  uses fuel.

  \<^bold>\<open>What is not modelled.\<close> The native engine and its file custody, the provision, apply and recovery sequences of
  store directories, the filesystem journal, the runner, the language server and the command line are operating
  system calls around the parts above. The syntax, the compiler, the image format, the image verifier and the
  virtual machine are a separate half of the repository: they produce the projections and the calls that enter
  this model as arguments. Texts for people (\<open>Display\<close>, reference prose) and the test fixtures are left out.
\<close>

end
